(* ===== verification/Prelude.thy ===== *)
theory Prelude
  imports Main "HOL-Library.Word"
begin

text \<open>
  Shared vocabulary of the development.
  \<^item> The outcome of a kernel operation: it either stops the kernel or blocks its caller
    (\<open>fault\<close>) or returns a value with the new state; \<open>andthen\<close> is C's sequencing and
    \<open>runs\<close> states total correctness of an operation (it returns, and the result satisfies a
    postcondition).
  \<^item> Fixed-width integers and little-endian loads and stores on byte memories, with the
    round-trip and framing lemmas every component uses.
  \<^item> Table scans: the first index of a fixed-size table that satisfies a condition.
\<close>

unbundle bit_operations_syntax

type_synonym u8 = "8 word"
type_synonym u16 = "16 word"
type_synonym u32 = "32 word"
type_synonym u64 = "64 word"

text \<open>A block, page or any other region of bytes, indexed from 0.\<close>

type_synonym bytes = "nat \<Rightarrow> u8"

section \<open>Outcomes of kernel operations\<close>

text \<open>
  \<open>Panic\<close> is a call of \<^verbatim>\<open>panic\<close>, which never returns. \<open>Blocked\<close> is a call of \<^verbatim>\<open>sleep\<close> that no
  other process of the sequential model can wake. \<open>Undefined\<close> is undefined behaviour of C (a
  null pointer dereferenced, an index out of range). \<open>Diverges\<close> is a loop that does not end.
\<close>

datatype fault =
    Panic string
  | Blocked string
  | Undefined string
  | Diverges

type_synonym ('a, 's) res = "fault + 'a \<times> 's"

definition andthen :: "('a, 's) res \<Rightarrow> ('a \<Rightarrow> 's \<Rightarrow> ('b, 't) res) \<Rightarrow> ('b, 't) res" where
  "andthen m f = (case m of Inl e \<Rightarrow> Inl e | Inr (x, s) \<Rightarrow> f x s)"

lemma andthen_simps [simp]:
  "andthen (Inl e) f = Inl e"
  "andthen (Inr (x, s)) f = f x s"
  by (simp_all add: andthen_def)

lemma andthen_Inr_iff:
  "andthen m f = Inr r \<longleftrightarrow> (\<exists>x s. m = Inr (x, s) \<and> f x s = Inr r)"
  by (auto simp: andthen_def split: sum.splits)

lemma andthen_Inl_iff:
  "andthen m f = Inl e \<longleftrightarrow> m = Inl e \<or> (\<exists>x s. m = Inr (x, s) \<and> f x s = Inl e)"
  by (auto simp: andthen_def split: sum.splits)

lemma andthen_assoc: "andthen (andthen m f) g = andthen m (\<lambda>x s. andthen (f x s) g)"
  by (auto simp: andthen_def split: sum.splits)

text \<open>Total correctness: the operation returns, with a result that satisfies \<open>Q\<close>.\<close>

definition runs :: "('a, 's) res \<Rightarrow> ('a \<Rightarrow> 's \<Rightarrow> bool) \<Rightarrow> bool" where
  "runs m Q \<longleftrightarrow> (\<exists>x s. m = Inr (x, s) \<and> Q x s)"

lemma runs_Inr [simp]: "runs (Inr (x, s)) Q \<longleftrightarrow> Q x s"
  by (simp add: runs_def)

lemma runs_Inl [simp]: "\<not> runs (Inl e) Q"
  by (simp add: runs_def)

lemma runs_andthen:
  "runs m P \<Longrightarrow> (\<And>x s. P x s \<Longrightarrow> runs (f x s) Q) \<Longrightarrow> runs (andthen m f) Q"
  by (auto simp: runs_def)

lemma runs_mono: "runs m P \<Longrightarrow> (\<And>x s. P x s \<Longrightarrow> Q x s) \<Longrightarrow> runs m Q"
  by (auto simp: runs_def)

lemma runsE:
  assumes "runs m Q"
  obtains x s where "m = Inr (x, s)" and "Q x s"
  using assms by (auto simp: runs_def)

section \<open>Loops\<close>

text \<open>
  A loop whose body either continues with new loop variables or leaves with a result (\<^verbatim>\<open>break\<close>
  or \<^verbatim>\<open>return\<close>). The first argument bounds the number of iterations; running out of it is
  \<open>Diverges\<close>. Each use gives a bound that is enough, and \<open>loop_runs\<close> proves it so: an
  invariant and a measure below the bound that every iteration decreases.
\<close>

datatype ('x, 'r) ctl = Next 'x | Ret 'r

fun loop :: "nat \<Rightarrow> ('x \<Rightarrow> 's \<Rightarrow> (('x, 'r) ctl, 's) res) \<Rightarrow> 'x \<Rightarrow> 's \<Rightarrow> ('r, 's) res" where
  "loop 0 b x s = Inl Diverges"
| "loop (Suc n) b x s = andthen (b x s) (\<lambda>c s. case c of Ret r \<Rightarrow> Inr (r, s) | Next x \<Rightarrow> loop n b x s)"

lemma loop_numeral:
  "loop (numeral k) b x s =
     andthen (b x s) (\<lambda>c s. case c of Ret r \<Rightarrow> Inr (r, s) | Next x \<Rightarrow> loop (pred_numeral k) b x s)"
  by (simp add: numeral_eq_Suc)

lemma loop_runs_state:
  assumes "I x s" and "f x s < n"
    and "\<And>x s. I x s \<Longrightarrow> runs (b x s)
      (\<lambda>c s'. case c of Ret r \<Rightarrow> Q r s' | Next x' \<Rightarrow> I x' s' \<and> f x' s' < (f x s :: nat))"
  shows "runs (loop n b x s) Q"
  using assms(1,2)
proof (induction n arbitrary: x s)
  case 0
  then show ?case by simp
next
  case (Suc n)
  show ?case
    unfolding loop.simps
  proof (rule runs_andthen [OF assms(3) [OF Suc.prems(1)]], goal_cases)
    case (1 c s')
    then show ?case using Suc.IH Suc.prems(2) by (auto split: ctl.splits)
  qed
qed

text \<open>The same with a measure that reads the loop variables only.\<close>

lemma loop_runs:
  assumes "I x s" and "f x < n"
    and "\<And>x s. I x s \<Longrightarrow> runs (b x s)
      (\<lambda>c s'. case c of Ret r \<Rightarrow> Q r s' | Next x' \<Rightarrow> I x' s' \<and> f x' < (f x :: nat))"
  shows "runs (loop n b x s) Q"
  by (rule loop_runs_state [where f = "\<lambda>x s. f x" and I = I]) (use assms in blast)+

text \<open>The same for properties of every result, faults included.\<close>

lemma loop_partial:
  assumes "I x s" and "loop n b x s = Inr (r, t)"
    and "\<And>x s c s'. I x s \<Longrightarrow> b x s = Inr (c, s') \<Longrightarrow>
      (case c of Ret r \<Rightarrow> Q r s' | Next x' \<Rightarrow> I x' s')"
  shows "Q r t"
  using assms(1,2)
proof (induction n arbitrary: x s)
  case 0
  then show ?case by simp
next
  case (Suc n)
  then obtain c s' where c: "b x s = Inr (c, s')"
    "(case c of Ret r \<Rightarrow> Inr (r, s') | Next x \<Rightarrow> loop n b x s') = Inr (r, t)"
    by (auto simp: andthen_Inr_iff)
  with assms(3) [OF Suc.prems(1) c(1)] Suc.IH show ?case by (auto split: ctl.splits)
qed

section \<open>Little-endian loads and stores\<close>

definition ld16 :: "bytes \<Rightarrow> nat \<Rightarrow> u16" where
  "ld16 m a = ucast (m a) OR push_bit 8 (ucast (m (a + 1)))"

definition ld32 :: "bytes \<Rightarrow> nat \<Rightarrow> u32" where
  "ld32 m a = ucast (m a) OR push_bit 8 (ucast (m (a + 1)))
     OR push_bit 16 (ucast (m (a + 2))) OR push_bit 24 (ucast (m (a + 3)))"

definition ld64 :: "bytes \<Rightarrow> nat \<Rightarrow> u64" where
  "ld64 m a = ucast (ld32 m a) OR push_bit 32 (ucast (ld32 m (a + 4)))"

definition st16 :: "bytes \<Rightarrow> nat \<Rightarrow> u16 \<Rightarrow> bytes" where
  "st16 m a v = m(a := ucast v, a + 1 := ucast (drop_bit 8 v))"

definition st32 :: "bytes \<Rightarrow> nat \<Rightarrow> u32 \<Rightarrow> bytes" where
  "st32 m a v = m(a := ucast v, a + 1 := ucast (drop_bit 8 v),
     a + 2 := ucast (drop_bit 16 v), a + 3 := ucast (drop_bit 24 v))"

definition st64 :: "bytes \<Rightarrow> nat \<Rightarrow> u64 \<Rightarrow> bytes" where
  "st64 m a v = st32 (st32 m a (ucast v)) (a + 4) (ucast (drop_bit 32 v))"

named_theorems mem_simps \<open>loads after stores\<close>

lemma ld16_st16 [mem_simps]: "ld16 (st16 m a v) a = v"
  by (rule bit_word_eqI) (auto simp: ld16_def st16_def bit_simps)

lemma ld32_st32 [mem_simps]: "ld32 (st32 m a v) a = v"
proof (rule bit_word_eqI)
  fix n :: nat
  assume "n < LENGTH(32)"
  then consider "n < 8" | k where "n = 8 + k" "k < 8" | k where "n = 16 + k" "k < 8"
      | k where "n = 24 + k" "k < 8"
    using that(2) [of "n - 8"] that(3) [of "n - 16"] that(4) [of "n - 24"] that(1)
    by fastforce
  then show "bit (ld32 (st32 m a v) a) n = bit v n"
    by cases (auto simp: ld32_def st32_def bit_simps)
qed

lemma ld32_st32_other:
  "a + 4 \<le> b \<or> b + 4 \<le> a \<Longrightarrow> ld32 (st32 m a v) b = ld32 m b"
  by (auto simp: ld32_def st32_def)

lemma st32_other: "i < a \<or> a + 4 \<le> i \<Longrightarrow> st32 m a v i = m i"
  by (auto simp: st32_def)

lemma st64_other: "i < a \<or> a + 8 \<le> i \<Longrightarrow> st64 m a v i = m i"
  by (auto simp: st64_def st32_other)

lemma ld64_st64 [mem_simps]: "ld64 (st64 m a v) a = v"
proof -
  have "ld32 (st64 m a v) a = ucast v"
    by (simp add: st64_def ld32_st32_other ld32_st32)
  moreover have "ld32 (st64 m a v) (a + 4) = ucast (drop_bit 32 v)"
    by (simp add: st64_def ld32_st32)
  ultimately show ?thesis
    by (intro bit_word_eqI) (auto simp: ld64_def bit_simps)
qed

lemma ld64_st64_other:
  "a + 8 \<le> b \<or> b + 8 \<le> a \<Longrightarrow> ld64 (st64 m a v) b = ld64 m b"
  by (auto simp: ld64_def st64_def ld32_st32_other)

lemma ld32_cong: "(\<And>i. a \<le> i \<Longrightarrow> i < a + 4 \<Longrightarrow> m i = m' i) \<Longrightarrow> ld32 m a = ld32 m' a"
  by (simp add: ld32_def)

lemma ld64_cong: "(\<And>i. a \<le> i \<Longrightarrow> i < a + 8 \<Longrightarrow> m i = m' i) \<Longrightarrow> ld64 m a = ld64 m' a"
  by (auto simp: ld64_def intro!: arg_cong2 [where f = "(OR)"] arg_cong [where f = "push_bit 32"]
      arg_cong [where f = ucast] ld32_cong)

lemma ld16_st16_other:
  "a + 2 \<le> b \<or> b + 2 \<le> a \<Longrightarrow> ld16 (st16 m a v) b = ld16 m b"
  by (auto simp: ld16_def st16_def)

text \<open>Copying \<open>n\<close> bytes of \<open>src\<close> from \<open>so\<close> to offset \<open>do\<close> of \<open>dst\<close>.\<close>

definition blit :: "bytes \<Rightarrow> nat \<Rightarrow> bytes \<Rightarrow> nat \<Rightarrow> nat \<Rightarrow> bytes" where
  "blit dst d src so n = (\<lambda>i. if d \<le> i \<and> i < d + n then src (so + (i - d)) else dst i)"

lemma blit_in [mem_simps]: "d \<le> i \<Longrightarrow> i < d + n \<Longrightarrow> blit dst d src so n i = src (so + (i - d))"
  by (simp add: blit_def)

lemma blit_out: "i < d \<or> d + n \<le> i \<Longrightarrow> blit dst d src so n i = dst i"
  by (auto simp: blit_def)

lemma blit_0 [simp]: "blit dst d src so 0 = dst"
  by (rule ext) (auto simp: blit_def)

section \<open>Scanning a table\<close>

text \<open>\<^verbatim>\<open>for(i = 0; i < n; i++) if(P(i)) return i;\<close>\<close>

definition first_index :: "(nat \<Rightarrow> bool) \<Rightarrow> nat \<Rightarrow> nat option" where
  "first_index P n = find P [0..<n]"

lemma first_index_SomeD:
  assumes "first_index P n = Some i"
  shows "i < n" and "P i" and "\<forall>j<i. \<not> P j"
proof -
  obtain k where k: "k < length [0..<n]" "P ([0..<n] ! k)" "i = [0..<n] ! k"
      "\<forall>j<k. \<not> P ([0..<n] ! j)"
    using assms unfolding first_index_def find_Some_iff by blast
  show "i < n" and "P i" and "\<forall>j<i. \<not> P j"
    using k by auto
qed

lemma first_index_None_iff: "first_index P n = None \<longleftrightarrow> (\<forall>i<n. \<not> P i)"
  by (auto simp: first_index_def find_None_iff)

lemma first_index_Some_ex: "i < n \<Longrightarrow> P i \<Longrightarrow> \<exists>j. first_index P n = Some j"
  using first_index_None_iff [of P n] by (cases "first_index P n") auto

lemma first_index_eqI:
  assumes "i < n" and "P i" and "\<And>j. j < i \<Longrightarrow> \<not> P j"
  shows "first_index P n = Some i"
proof -
  obtain j where j: "first_index P n = Some j"
    using first_index_Some_ex [of i n P] assms by blast
  then have "j < n" "P j" "\<forall>k<j. \<not> P k"
    by (blast dest: first_index_SomeD)+
  with assms have "j = i"
    by (metis linorder_neqE_nat)
  with j show ?thesis by simp
qed

end
