(* ===== verification/Kstate.thy ===== *)
theory Kstate
  imports Prelude
begin

text \<open>
  The data every kernel component shares (\<^verbatim>\<open>param.h\<close>, \<^verbatim>\<open>proc.h\<close>): parameters, the process
  structure with its VMA slots, and the base of the kernel state. Pointers into the kernel's
  static tables (\<^verbatim>\<open>proc[NPROC]\<close>, \<^verbatim>\<open>ftable.file[NFILE]\<close>, \<^verbatim>\<open>itable.inode[NINODE]\<close>) are indices, a null
  pointer is \<open>None\<close>. The state is a chain of extensible records: each later component
  extends it with its own fields, so an operation of an early component applies unchanged to
  the state of a later one. The model runs one process at a time (\<open>curproc\<close>); a critical
  section of a spinlock is one atomic step of it.
\<close>

section \<open>Parameters (param.h)\<close>

definition NPROC :: nat where "NPROC = 64"
definition NOFILE :: nat where "NOFILE = 16"
definition NFILE :: nat where "NFILE = 100"
definition NINODE :: nat where "NINODE = 50"
definition NDEV :: nat where "NDEV = 10"
definition ROOTDEV :: u32 where "ROOTDEV = 1"
definition MAXOPBLOCKS :: nat where "MAXOPBLOCKS = 10"
definition LOGSIZE :: nat where "LOGSIZE = MAXOPBLOCKS * 3"
definition NBUF :: nat where "NBUF = MAXOPBLOCKS * 3"

lemmas param_simps [simp] =
  NPROC_def NOFILE_def NFILE_def NINODE_def NDEV_def MAXOPBLOCKS_def

lemma ROOTDEV_neq_0 [simp]: "ROOTDEV \<noteq> 0" "0 \<noteq> ROOTDEV" by (simp_all add: ROOTDEV_def)
lemma NBUF_eq: "NBUF = 30" by (simp add: NBUF_def)
lemma LOGSIZE_eq: "LOGSIZE = 30" by (simp add: LOGSIZE_def)

section \<open>Open modes (fcntl.h)\<close>

definition O_RDONLY :: u32 where "O_RDONLY = 0"
definition O_WRONLY :: u32 where "O_WRONLY = 1"
definition O_RDWR :: u32 where "O_RDWR = 2"
definition O_CREATE :: u32 where "O_CREATE = 0x200"
definition O_TRUNC :: u32 where "O_TRUNC = 0x400"

section \<open>Processes (proc.h)\<close>

text \<open>\<^verbatim>\<open>enum procstate\<close>\<close>

datatype procstate = UNUSED | USED | SLEEPING | RUNNABLE | RUNNING | ZOMBIE

text \<open>
  A sleep channel is the address of the object slept on; only equality of channels matters,
  so each kind of object the kernel sleeps on is a constructor.
\<close>

datatype chan =
    ChProc nat        \<comment> \<open>a process, in wait()\<close>
  | ChLog             \<comment> \<open>the log\<close>
  | ChBufLock nat     \<comment> \<open>the sleeplock of a buffer\<close>
  | ChInodeLock nat   \<comment> \<open>the sleeplock of an inode\<close>
  | ChPipeRead u64    \<comment> \<open>the nread field of a pipe\<close>
  | ChPipeWrite u64   \<comment> \<open>the nwrite field of a pipe\<close>
  | ChTicks           \<comment> \<open>the tick counter\<close>
  | ChCons            \<comment> \<open>the console's read index\<close>
  | ChUart            \<comment> \<open>the uart's transmit index\<close>

text \<open>\<^verbatim>\<open>struct context\<close>\<close>

record kcontext =
  ctx_ra :: u64
  ctx_sp :: u64
  ctx_s :: "nat \<Rightarrow> u64"   \<comment> \<open>callee-saved s0 to s11\<close>

definition zero_context :: kcontext where
  "zero_context = \<lparr>ctx_ra = 0, ctx_sp = 0, ctx_s = (\<lambda>_. 0)\<rparr>"

definition VMASIZE :: nat where "VMASIZE = 16"

text \<open>\<^verbatim>\<open>struct vma\<close>\<close>

record vma =
  mapped_file :: "nat option"
  mapped_length :: u32
  mapped_starting_address :: u64
  memory_flags :: u32
  mapped_flags :: u32
  max_page_length :: u32
  vma_offset :: u32
  used_length :: u32

definition zero_vma :: vma where
  "zero_vma = \<lparr>mapped_file = None, mapped_length = 0, mapped_starting_address = 0,
     memory_flags = 0, mapped_flags = 0, max_page_length = 0, vma_offset = 0, used_length = 0\<rparr>"

text \<open>\<^verbatim>\<open>struct proc\<close>\<close>

record proc =
  p_state :: procstate
  p_chan :: "chan option"
  p_killed :: bool
  p_xstate :: u32
  p_pid :: u32
  p_parent :: "nat option"
  p_kstack :: u64
  p_sz :: u64
  p_pagetable :: u64
  p_trapframe :: u64
  p_context :: kcontext
  p_ofile :: "nat \<Rightarrow> nat option"
  p_cwd :: "nat option"
  p_name :: "u8 list"
  p_vma :: "nat \<Rightarrow> vma"

definition zero_proc :: proc where
  "zero_proc = \<lparr>p_state = UNUSED, p_chan = None, p_killed = False, p_xstate = 0, p_pid = 0,
     p_parent = None, p_kstack = 0, p_sz = 0, p_pagetable = 0, p_trapframe = 0,
     p_context = zero_context, p_ofile = (\<lambda>_. None), p_cwd = None, p_name = replicate 16 0,
     p_vma = (\<lambda>_. zero_vma)\<rparr>"

section \<open>The base of the kernel state\<close>

record kstate =
  pmem :: bytes               \<comment> \<open>physical memory, by physical address\<close>
  kend :: u64                 \<comment> \<open>the linker's symbol end: the first address after the kernel\<close>
  freelist :: u64             \<comment> \<open>kmem.freelist\<close>
  procs :: "nat \<Rightarrow> proc"       \<comment> \<open>proc[NPROC]\<close>
  curproc :: nat              \<comment> \<open>the process that executes\<close>
  initproc :: nat
  nextpid :: u32

text \<open>\<^verbatim>\<open>myproc()\<close>\<close>

definition myproc :: "'z kstate_scheme \<Rightarrow> proc" where
  "myproc s = procs s (curproc s)"

definition set_proc :: "nat \<Rightarrow> (proc \<Rightarrow> proc) \<Rightarrow> 'z kstate_scheme \<Rightarrow> 'z kstate_scheme" where
  "set_proc p f s = s\<lparr>procs := (procs s)(p := f (procs s p))\<rparr>"

text \<open>
  \<^verbatim>\<open>wakeup(chan)\<close>: every other process that sleeps on the channel becomes runnable.
\<close>

definition wakeup :: "chan \<Rightarrow> 'z kstate_scheme \<Rightarrow> 'z kstate_scheme" where
  "wakeup ch s = s\<lparr>procs := (\<lambda>p.
     if p < NPROC \<and> p \<noteq> curproc s \<and> p_state (procs s p) = SLEEPING
        \<and> p_chan (procs s p) = Some ch
     then (procs s p)\<lparr>p_state := RUNNABLE\<rparr> else procs s p)\<rparr>"

lemma wakeup_frame [simp]:
  "pmem (wakeup ch s) = pmem s" "kend (wakeup ch s) = kend s" "freelist (wakeup ch s) = freelist s"
  "curproc (wakeup ch s) = curproc s" "initproc (wakeup ch s) = initproc s"
  "nextpid (wakeup ch s) = nextpid s" "kstate.more (wakeup ch s) = kstate.more s"
  by (simp_all add: wakeup_def)

lemma wakeup_myproc [simp]: "myproc (wakeup ch s) = myproc s"
  by (simp add: wakeup_def myproc_def)

lemma wakeup_proc_frame:
  "p_pid (procs (wakeup ch s) p) = p_pid (procs s p)"
  "p_chan (procs (wakeup ch s) p) = p_chan (procs s p)"
  "p_parent (procs (wakeup ch s) p) = p_parent (procs s p)"
  by (simp_all add: wakeup_def)

lemma wakeup_only_procs: "\<exists>pr. wakeup ch s = s\<lparr>procs := pr\<rparr>"
  by (auto simp: wakeup_def)

text \<open>The wake-up is complete: no other process stays asleep on the channel.\<close>

lemma wakeup_none_left:
  "p < NPROC \<Longrightarrow> p \<noteq> curproc s \<Longrightarrow>
   \<not> (p_state (procs (wakeup ch s) p) = SLEEPING \<and> p_chan (procs (wakeup ch s) p) = Some ch)"
  by (auto simp: wakeup_def)

lemma wakeup_others:
  "p_chan (procs s p) \<noteq> Some ch \<Longrightarrow> procs (wakeup ch s) p = procs s p"
  by (auto simp: wakeup_def)

section \<open>Sleep locks (sleeplock.c)\<close>

text \<open>
  \<^verbatim>\<open>struct sleeplock\<close>, without the spinlock that makes its operations atomic. The operations
  act on the lock and, through \<open>wakeup\<close>, on the process table; \<open>ch\<close> is the lock's address.
\<close>

record sleeplock =
  sl_locked :: bool
  sl_pid :: u32

definition initsleeplock :: sleeplock where
  "initsleeplock = \<lparr>sl_locked = False, sl_pid = 0\<rparr>"

text \<open>A lock that is held puts the caller to sleep until its holder releases it.\<close>

definition acquiresleep :: "sleeplock \<Rightarrow> 'z kstate_scheme \<Rightarrow> (sleeplock, 'z kstate_scheme) res" where
  "acquiresleep lk s =
     (if sl_locked lk then Inl (Blocked ''acquiresleep'')
      else Inr (lk\<lparr>sl_locked := True, sl_pid := p_pid (myproc s)\<rparr>, s))"

definition releasesleep ::
  "chan \<Rightarrow> sleeplock \<Rightarrow> 'z kstate_scheme \<Rightarrow> sleeplock \<times> 'z kstate_scheme" where
  "releasesleep ch lk s = (lk\<lparr>sl_locked := False, sl_pid := 0\<rparr>, wakeup ch s)"

definition holdingsleep :: "sleeplock \<Rightarrow> 'z kstate_scheme \<Rightarrow> bool" where
  "holdingsleep lk s \<longleftrightarrow> sl_locked lk \<and> sl_pid lk = p_pid (myproc s)"

lemma acquiresleep_holding:
  "acquiresleep lk s = Inr (lk', s') \<Longrightarrow> s' = s \<and> holdingsleep lk' s' \<and> \<not> sl_locked lk"
  by (auto simp: acquiresleep_def holdingsleep_def split: if_splits)

lemma releasesleep_free:
  "releasesleep ch lk s = (lk', s') \<Longrightarrow> \<not> sl_locked lk' \<and> \<not> holdingsleep lk' s'"
  by (auto simp: releasesleep_def holdingsleep_def)

end
