(* ===== verification/Bio.thy ===== *)
theory Bio
  imports Kstate
begin

text \<open>
  The buffer cache (\<^verbatim>\<open>kernel/bio.c\<close>): 30 buffers on a circular doubly linked list through
  \<^verbatim>\<open>prev\<close>/\<^verbatim>\<open>next\<close> with the sentinel \<^verbatim>\<open>bcache.head\<close>, most recently used first. The list is
  modelled at pointer level, as in the code; \<open>ring\<close> relates it to the list of buffers it
  holds, and the operations are shown to act on that list (look-up from the front, recycling
  from the back, \<open>brelse\<close> moving to the front). The abstraction a client sees is \<open>view\<close>: the
  current contents of each disk block, cached or not.

  The disk itself is a map from block numbers to blocks; \<open>dtrace\<close> records the sequence of
  block writes for the crash analysis of the log. \<^verbatim>\<open>virtio_disk_rw\<close> is modelled by its effect:
  a synchronous transfer of one block.
\<close>

section \<open>State\<close>

definition BSIZE :: nat where "BSIZE = 1024"

lemma BSIZE_eq [simp]: "BSIZE = 1024" by (simp add: BSIZE_def)

text \<open>\<^verbatim>\<open>struct buf\<close>; \<open>prev\<close> and \<open>next\<close> are buffer indices, the sentinel is number \<open>NBUF\<close>.\<close>

record buf =
  b_valid :: bool
  b_dev :: u32
  b_blockno :: u32
  b_lock :: sleeplock
  b_refcnt :: u32
  b_prev :: nat
  b_next :: nat
  b_data :: bytes

definition zero_buf :: buf where
  "zero_buf = \<lparr>b_valid = False, b_dev = 0, b_blockno = 0, b_lock = initsleeplock,
     b_refcnt = 0, b_prev = 0, b_next = 0, b_data = (\<lambda>_. 0)\<rparr>"

record bstate = kstate +
  bufs :: "nat \<Rightarrow> buf"
  disk :: "u32 \<Rightarrow> bytes"
  dtrace :: "(u32 \<times> bytes) list"

abbreviation HEAD :: nat where "HEAD \<equiv> NBUF"

definition set_buf :: "nat \<Rightarrow> (buf \<Rightarrow> buf) \<Rightarrow> 'z bstate_scheme \<Rightarrow> 'z bstate_scheme" where
  "set_buf i f s = s\<lparr>bufs := (bufs s)(i := f (bufs s i))\<rparr>"

text \<open>\<^verbatim>\<open>bp->data\<close> seen as a memory, and an assignment into it\<close>

definition bdata :: "nat \<Rightarrow> 'z bstate_scheme \<Rightarrow> bytes" where
  "bdata i s = b_data (bufs s i)"

definition modify_data :: "nat \<Rightarrow> (bytes \<Rightarrow> bytes) \<Rightarrow> 'z bstate_scheme \<Rightarrow> 'z bstate_scheme" where
  "modify_data i f s = set_buf i (b_data_update f) s"

section \<open>Operations\<close>

definition set_next :: "nat \<Rightarrow> nat \<Rightarrow> (nat \<Rightarrow> buf) \<Rightarrow> (nat \<Rightarrow> buf)" where
  "set_next p v bf = bf(p := (bf p)\<lparr>b_next := v\<rparr>)"

definition set_prev :: "nat \<Rightarrow> nat \<Rightarrow> (nat \<Rightarrow> buf) \<Rightarrow> (nat \<Rightarrow> buf)" where
  "set_prev p v bf = bf(p := (bf p)\<lparr>b_prev := v\<rparr>)"

lemma set_links [simp]:
  "b_next (set_next p v bf x) = (if x = p then v else b_next (bf x))"
  "b_prev (set_next p v bf x) = b_prev (bf x)"
  "b_next (set_prev p v bf x) = b_next (bf x)"
  "b_prev (set_prev p v bf x) = (if x = p then v else b_prev (bf x))"
  by (simp_all add: set_next_def set_prev_def)

lemma set_links_fields [simp]:
  "b_dev (set_next p v bf x) = b_dev (bf x)" "b_dev (set_prev p v bf x) = b_dev (bf x)"
  "b_blockno (set_next p v bf x) = b_blockno (bf x)" "b_blockno (set_prev p v bf x) = b_blockno (bf x)"
  "b_valid (set_next p v bf x) = b_valid (bf x)" "b_valid (set_prev p v bf x) = b_valid (bf x)"
  "b_lock (set_next p v bf x) = b_lock (bf x)" "b_lock (set_prev p v bf x) = b_lock (bf x)"
  "b_refcnt (set_next p v bf x) = b_refcnt (bf x)" "b_refcnt (set_prev p v bf x) = b_refcnt (bf x)"
  "b_data (set_next p v bf x) = b_data (bf x)" "b_data (set_prev p v bf x) = b_data (bf x)"
  by (simp_all add: set_next_def set_prev_def)


text \<open>\<^verbatim>\<open>binit\<close>: push every buffer at the head of the list.\<close>

fun binit_loop :: "nat list \<Rightarrow> (nat \<Rightarrow> buf) \<Rightarrow> (nat \<Rightarrow> buf)" where
  "binit_loop [] bf = bf"
| "binit_loop (b # bs) bf =
     (let bf = set_next b (b_next (bf HEAD)) bf;
          bf = set_prev b HEAD bf;
          bf = bf(b := (bf b)\<lparr>b_lock := initsleeplock\<rparr>);
          bf = set_prev (b_next (bf HEAD)) b bf;
          bf = set_next HEAD b bf
      in binit_loop bs bf)"

definition binit :: "'z bstate_scheme \<Rightarrow> 'z bstate_scheme" where
  "binit s =
     (let bf = set_next HEAD HEAD (set_prev HEAD HEAD (bufs s))
      in s\<lparr>bufs := binit_loop [0..<NBUF] bf\<rparr>)"

text \<open>
  The two loops of \<^verbatim>\<open>bget\<close>, following \<^verbatim>\<open>next\<close> for a cached copy and \<^verbatim>\<open>prev\<close> for the least
  recently used free buffer. \<open>None\<close> is a walk that never comes back to the sentinel.
\<close>

partial_function (option) bget_cached ::
  "(nat \<Rightarrow> buf) \<Rightarrow> u32 \<Rightarrow> u32 \<Rightarrow> nat \<Rightarrow> nat option option" where
  "bget_cached bf dev blockno b =
     (if b = HEAD then Some None
      else if b_dev (bf b) = dev \<and> b_blockno (bf b) = blockno then Some (Some b)
      else bget_cached bf dev blockno (b_next (bf b)))"

partial_function (option) bget_lru :: "(nat \<Rightarrow> buf) \<Rightarrow> nat \<Rightarrow> nat option option" where
  "bget_lru bf b =
     (if b = HEAD then Some None
      else if b_refcnt (bf b) = 0 then Some (Some b)
      else bget_lru bf (b_prev (bf b)))"

text \<open>\<^verbatim>\<open>acquiresleep(&b->lock)\<close>\<close>

definition lock_buf :: "nat \<Rightarrow> 'z bstate_scheme \<Rightarrow> (nat, 'z bstate_scheme) res" where
  "lock_buf b s = andthen (acquiresleep (b_lock (bufs s b)) s) (\<lambda>lk s.
     Inr (b, set_buf b (b_lock_update (\<lambda>_. lk)) s))"

definition bget :: "u32 \<Rightarrow> u32 \<Rightarrow> 'z bstate_scheme \<Rightarrow> (nat, 'z bstate_scheme) res" where
  "bget dev blockno s =
     (case bget_cached (bufs s) dev blockno (b_next (bufs s HEAD)) of
        None \<Rightarrow> Inl Diverges
      | Some (Some b) \<Rightarrow> lock_buf b (set_buf b (b_refcnt_update (\<lambda>r. r + 1)) s)
      | Some None \<Rightarrow>
          (case bget_lru (bufs s) (b_prev (bufs s HEAD)) of
             None \<Rightarrow> Inl Diverges
           | Some None \<Rightarrow> Inl (Panic ''bget: no buffers'')
           | Some (Some b) \<Rightarrow>
               lock_buf b (set_buf b (\<lambda>f. f\<lparr>b_dev := dev, b_blockno := blockno,
                 b_valid := False, b_refcnt := 1\<rparr>) s)))"

text \<open>The transfer of a block, and the write recorded in the history of the disk.\<close>

definition disk_read :: "nat \<Rightarrow> 'z bstate_scheme \<Rightarrow> 'z bstate_scheme" where
  "disk_read b s = modify_data b (\<lambda>_. disk s (b_blockno (bufs s b))) s"

definition disk_write :: "nat \<Rightarrow> 'z bstate_scheme \<Rightarrow> 'z bstate_scheme" where
  "disk_write b s =
     s\<lparr>disk := (disk s)(b_blockno (bufs s b) := bdata b s),
       dtrace := dtrace s @ [(b_blockno (bufs s b), bdata b s)]\<rparr>"

definition bread :: "u32 \<Rightarrow> u32 \<Rightarrow> 'z bstate_scheme \<Rightarrow> (nat, 'z bstate_scheme) res" where
  "bread dev blockno s = andthen (bget dev blockno s) (\<lambda>b s.
     if \<not> b_valid (bufs s b)
     then Inr (b, set_buf b (b_valid_update (\<lambda>_. True)) (disk_read b s))
     else Inr (b, s))"

definition bwrite :: "nat \<Rightarrow> 'z bstate_scheme \<Rightarrow> (unit, 'z bstate_scheme) res" where
  "bwrite b s =
     (if \<not> holdingsleep (b_lock (bufs s b)) s then Inl (Panic ''bwrite'')
      else Inr ((), disk_write b s))"

text \<open>
  The six assignments of \<^verbatim>\<open>brelse\<close> that take a buffer out of the list and put it back at the
  front.
\<close>

definition splice_front :: "nat \<Rightarrow> (nat \<Rightarrow> buf) \<Rightarrow> (nat \<Rightarrow> buf)" where
  "splice_front b bf =
     (let bf = set_prev (b_next (bf b)) (b_prev (bf b)) bf;
          bf = set_next (b_prev (bf b)) (b_next (bf b)) bf;
          bf = set_next b (b_next (bf HEAD)) bf;
          bf = set_prev b HEAD bf;
          bf = set_prev (b_next (bf HEAD)) b bf
      in set_next HEAD b bf)"

definition unlock_buf :: "nat \<Rightarrow> 'z bstate_scheme \<Rightarrow> 'z bstate_scheme" where
  "unlock_buf b s =
     (case releasesleep (ChBufLock b) (b_lock (bufs s b)) s of
        (lk, s) \<Rightarrow> set_buf b (b_lock_update (\<lambda>_. lk)) s)"

definition brelse :: "nat \<Rightarrow> 'z bstate_scheme \<Rightarrow> (unit, 'z bstate_scheme) res" where
  "brelse b s =
     (if \<not> holdingsleep (b_lock (bufs s b)) s then Inl (Panic ''brelse'')
      else let s = unlock_buf b s;
               s = set_buf b (b_refcnt_update (\<lambda>r. r - 1)) s
           in Inr ((), if b_refcnt (bufs s b) = 0
                       then s\<lparr>bufs := splice_front b (bufs s)\<rparr> else s))"

definition bpin :: "nat \<Rightarrow> 'z bstate_scheme \<Rightarrow> 'z bstate_scheme" where
  "bpin b s = set_buf b (b_refcnt_update (\<lambda>r. r + 1)) s"

definition bunpin :: "nat \<Rightarrow> 'z bstate_scheme \<Rightarrow> 'z bstate_scheme" where
  "bunpin b s = set_buf b (b_refcnt_update (\<lambda>r. r - 1)) s"

section \<open>The list of buffers\<close>

text \<open>
  \<open>linked bf a xs z\<close>: following \<^verbatim>\<open>next\<close> from \<open>a\<close> visits exactly \<open>xs\<close> and then \<open>z\<close>, and the
  \<^verbatim>\<open>prev\<close> pointers mirror it. The ring starts and ends at the sentinel.
\<close>

fun linked :: "(nat \<Rightarrow> buf) \<Rightarrow> nat \<Rightarrow> nat list \<Rightarrow> nat \<Rightarrow> bool" where
  "linked bf a [] z \<longleftrightarrow> b_next (bf a) = z \<and> b_prev (bf z) = a"
| "linked bf a (x # xs) z \<longleftrightarrow> b_next (bf a) = x \<and> b_prev (bf x) = a \<and> linked bf x xs z"

definition ring :: "(nat \<Rightarrow> buf) \<Rightarrow> nat list \<Rightarrow> bool" where
  "ring bf xs \<longleftrightarrow> linked bf HEAD xs HEAD \<and> distinct xs \<and> HEAD \<notin> set xs"

lemma linked_append:
  "linked bf a (xs @ y # ys) z \<longleftrightarrow> linked bf a xs y \<and> linked bf y ys z"
  by (induction xs arbitrary: a) auto

text \<open>Only the two pointer fields of the nodes on the segment matter.\<close>

lemma linked_cong:
  assumes "linked bf a xs z"
    and "\<And>x. x \<in> insert a (set xs) \<Longrightarrow> b_next (bf' x) = b_next (bf x)"
    and "\<And>x. x \<in> insert z (set xs) \<Longrightarrow> b_prev (bf' x) = b_prev (bf x)"
  shows "linked bf' a xs z"
  using assms by (induction xs arbitrary: a) auto

lemma ring_fields:
  assumes "\<And>x. b_next (bf' x) = b_next (bf x)" and "\<And>x. b_prev (bf' x) = b_prev (bf x)"
  shows "ring bf' xs \<longleftrightarrow> ring bf xs"
  using assms linked_cong [of bf HEAD xs HEAD bf'] linked_cong [of bf' HEAD xs HEAD bf]
  by (auto simp: ring_def)

text \<open>The walks of \<^verbatim>\<open>bget\<close> end, and find what a search of the list finds.\<close>

lemma bget_cached_linked:
  assumes "linked bf a xs HEAD" and "HEAD \<notin> set xs"
  shows "bget_cached bf dev blockno (b_next (bf a))
    = Some (find (\<lambda>b. b_dev (bf b) = dev \<and> b_blockno (bf b) = blockno) xs)"
  using assms
proof (induction xs arbitrary: a)
  case Nil
  then show ?case by (simp add: bget_cached.simps)
next
  case (Cons x xs)
  then show ?case
    by (auto simp: bget_cached.simps [of bf dev blockno x])
qed

lemma bget_lru_linked:
  assumes "linked bf HEAD xs z" and "HEAD \<notin> set xs"
  shows "bget_lru bf (b_prev (bf z)) = Some (find (\<lambda>b. b_refcnt (bf b) = 0) (rev xs))"
  using assms
proof (induction xs arbitrary: z rule: rev_induct)
  case Nil
  then show ?case by (simp add: bget_lru.simps)
next
  case (snoc x xs)
  then have "linked bf HEAD xs x" "b_prev (bf z) = x" "x \<noteq> HEAD" "HEAD \<notin> set xs"
    by (auto simp: linked_append)
  with snoc.IH show ?case
    by (simp add: bget_lru.simps [of bf x])
qed

lemma bget_cached_ring:
  "ring bf xs \<Longrightarrow> bget_cached bf dev blockno (b_next (bf HEAD))
    = Some (find (\<lambda>b. b_dev (bf b) = dev \<and> b_blockno (bf b) = blockno) xs)"
  by (auto simp: ring_def intro: bget_cached_linked)

lemma bget_lru_ring:
  "ring bf xs \<Longrightarrow> bget_lru bf (b_prev (bf HEAD)) = Some (find (\<lambda>b. b_refcnt (bf b) = 0) (rev xs))"
  by (auto simp: ring_def intro: bget_lru_linked)

text \<open>The pointer surgery of \<^verbatim>\<open>brelse\<close> moves the buffer to the front of the list.\<close>

lemma linked_neighbours:
  assumes "linked bf a (xs @ b # ys) z"
  shows "b_prev (bf b) = last (a # xs)" and "b_next (bf b) = hd (ys @ [z])"
  using assms by (induction xs arbitrary: a) (cases ys; auto)+

lemma linked_unlink:
  assumes "linked bf a (xs @ b # ys) z"
    and "distinct (xs @ b # ys)" and "a \<notin> set (xs @ b # ys)" and "z \<notin> set (xs @ b # ys)"
  shows "linked (set_next (b_prev (bf b)) (b_next (bf b))
      (set_prev (b_next (bf b)) (b_prev (bf b)) bf)) a (xs @ ys) z" (is "linked ?bf a _ z")
  using assms
proof (induction xs arbitrary: a)
  case Nil
  show ?case
  proof (cases ys)
    case Nil
    with Nil.prems show ?thesis by auto
  next
    case (Cons y ys')
    with Nil.prems have "linked bf y ys' z" by simp
    then have "linked ?bf y ys' z"
      by (rule linked_cong) (use Nil.prems Cons in auto)
    with Nil.prems Cons show ?thesis by auto
  qed
next
  case (Cons x xs)
  then have "linked ?bf x (xs @ ys) z" by simp
  moreover have "b_prev (bf b) \<in> set (x # xs)"
    using linked_neighbours(1) [of bf x xs b ys z] Cons.prems
    by (metis append_Cons last_in_set linked.simps(2) list.distinct(1))
  moreover have "b_next (bf b) \<in> set (ys @ [z])"
    using linked_neighbours(2) [of bf x xs b ys z] Cons.prems
    by (metis append_Cons hd_in_set linked.simps(2) list.distinct(1) snoc_eq_iff_butlast)
  ultimately show ?case using Cons.prems by auto
qed

lemma linked_push:
  assumes "linked bf h ys z" and "b \<notin> set ys" and "b \<noteq> h" and "b \<noteq> z" and "distinct ys"
    and "h \<notin> set ys" and "z \<notin> set ys"
  shows "linked (set_next h b (set_prev (b_next (bf h)) b (set_prev b h (set_next b (b_next (bf h)) bf))))
    h (b # ys) z" (is "linked ?bf h _ z")
proof (cases ys)
  case Nil
  with assms show ?thesis by auto
next
  case (Cons y ys')
  with assms have "linked bf y ys' z" by simp
  then have "linked ?bf y ys' z"
    by (rule linked_cong) (use assms Cons in auto)
  with assms Cons show ?thesis by auto
qed

lemma splice_front_ring:
  assumes r: "ring bf (as @ b # bs)"
  shows "ring (splice_front b bf) (b # as @ bs)"
proof -
  let ?bf1 = "set_next (b_prev (bf b)) (b_next (bf b)) (set_prev (b_next (bf b)) (b_prev (bf b)) bf)"
  have "linked ?bf1 HEAD (as @ bs) HEAD"
    by (rule linked_unlink) (use r in \<open>auto simp: ring_def\<close>)
  then have "linked (set_next HEAD b (set_prev (b_next (?bf1 HEAD)) b
      (set_prev b HEAD (set_next b (b_next (?bf1 HEAD)) ?bf1)))) HEAD (b # as @ bs) HEAD"
    by (rule linked_push) (use r in \<open>auto simp: ring_def\<close>)
  moreover have "b_prev (set_prev (b_next (bf b)) (b_prev (bf b)) bf b) = b_prev (bf b)"
    and "b \<noteq> HEAD"
    using r linked_neighbours [of bf HEAD as b bs HEAD] by (auto simp: ring_def split: if_splits)
  ultimately show ?thesis
    using r by (auto simp: ring_def splice_front_def Let_def split: if_splits)
qed

section \<open>Invariant and the client's view\<close>

lemma bstate_frame [simp]:
  "bufs (wakeup ch s) = bufs s" "disk (wakeup ch s) = disk s" "dtrace (wakeup ch s) = dtrace s"
  "bstate.more (wakeup ch s) = bstate.more s"
  by (simp_all add: wakeup_def)

definition caches :: "'z bstate_scheme \<Rightarrow> nat \<Rightarrow> u32 \<Rightarrow> bool" where
  "caches s i b \<longleftrightarrow> i < NBUF \<and> b_dev (bufs s i) = ROOTDEV \<and> b_blockno (bufs s i) = b"

definition view :: "'z bstate_scheme \<Rightarrow> u32 \<Rightarrow> bytes" where
  "view s b = (case first_index (\<lambda>i. caches s i b) NBUF of
     None \<Rightarrow> disk s b | Some i \<Rightarrow> b_data (bufs s i))"

definition locked_buf :: "buf \<Rightarrow> bool" where
  "locked_buf f \<longleftrightarrow> sl_locked (b_lock f)"

definition pinned_buf :: "buf \<Rightarrow> bool" where
  "pinned_buf f \<longleftrightarrow> b_refcnt f = of_bool (locked_buf f) + 1"

definition lockset :: "'z bstate_scheme \<Rightarrow> u32 set" where
  "lockset s = {b. \<exists>i. caches s i b \<and> locked_buf (bufs s i)}"

definition pinset :: "'z bstate_scheme \<Rightarrow> u32 set" where
  "pinset s = {b. \<exists>i. caches s i b \<and> pinned_buf (bufs s i)}"

definition held :: "'z bstate_scheme \<Rightarrow> nat \<Rightarrow> u32 \<Rightarrow> bool" where
  "held s i b \<longleftrightarrow> caches s i b \<and> holdingsleep (b_lock (bufs s i)) s"

text \<open>
  A buffer is unused, or holds a block of the disk with a reference for its holder, one for
  the log, both or none; with none it agrees with the disk.
\<close>

definition buf_ok :: "(u32 \<Rightarrow> bytes) \<Rightarrow> buf \<Rightarrow> bool" where
  "buf_ok dk f \<longleftrightarrow>
     (b_dev f = 0 \<and> b_refcnt f = 0 \<and> \<not> locked_buf f) \<or>
     (b_dev f = ROOTDEV \<and> b_valid f \<and> (b_refcnt f = of_bool (locked_buf f) \<or> pinned_buf f)
       \<and> (b_refcnt f = 0 \<longrightarrow> b_data f = dk (b_blockno f)))"

definition bc_inv :: "'z bstate_scheme \<Rightarrow> bool" where
  "bc_inv s \<longleftrightarrow>
     (\<exists>xs. ring (bufs s) xs \<and> set xs = {..<NBUF}) \<and>
     (\<forall>i<NBUF. buf_ok (disk s) (bufs s i)) \<and>
     (\<forall>i j b. caches s i b \<longrightarrow> caches s j b \<longrightarrow> i = j)"

lemma bc_inv_unique: "bc_inv s \<Longrightarrow> caches s i b \<Longrightarrow> caches s j b \<Longrightarrow> i = j"
  by (auto simp: bc_inv_def)

lemma held_caches: "held s i b \<Longrightarrow> caches s i b"
  by (simp add: held_def)

lemma view_caches: "bc_inv s \<Longrightarrow> caches s i b \<Longrightarrow> view s b = b_data (bufs s i)"
proof -
  assume inv: "bc_inv s" and c: "caches s i b"
  obtain j where j: "first_index (\<lambda>i. caches s i b) NBUF = Some j"
    using first_index_Some_ex [of i NBUF "\<lambda>i. caches s i b"] c by (auto simp: caches_def)
  then have "caches s j b" by (rule first_index_SomeD)
  with inv c have "j = i" by (blast dest: bc_inv_unique)
  with j show ?thesis by (simp add: view_def)
qed

lemma view_uncached: "(\<And>i. \<not> caches s i b) \<Longrightarrow> view s b = disk s b"
proof -
  assume "\<And>i. \<not> caches s i b"
  then have "first_index (\<lambda>i. caches s i b) NBUF = None"
    by (simp add: first_index_None_iff)
  then show ?thesis by (simp add: view_def)
qed

lemma view_cong:
  assumes "\<And>i. caches s' i b \<longleftrightarrow> caches s i b"
    and "\<And>i. caches s i b \<Longrightarrow> b_data (bufs s' i) = b_data (bufs s i)"
    and "(\<And>i. \<not> caches s i b) \<Longrightarrow> disk s' b = disk s b"
  shows "view s' b = view s b"
proof (cases "first_index (\<lambda>i. caches s i b) NBUF")
  case None
  then have "\<not> caches s i b" for i
    by (auto simp: first_index_None_iff caches_def)
  with assms None show ?thesis by (simp add: view_def)
next
  case (Some i)
  then have "caches s i b" by (rule first_index_SomeD)
  with assms Some show ?thesis by (simp add: view_def)
qed

lemma view_held: "bc_inv s \<Longrightarrow> held s i b \<Longrightarrow> view s b = bdata i s"
  by (simp add: view_caches held_caches bdata_def)

lemma unpinned_clean:
  assumes "bc_inv s" and "b \<notin> lockset s" and "b \<notin> pinset s"
  shows "view s b = disk s b"
proof (cases "\<exists>i. caches s i b")
  case True
  then obtain i where i: "caches s i b" by blast
  with assms have "buf_ok (disk s) (bufs s i)" and "\<not> locked_buf (bufs s i)"
    and "\<not> pinned_buf (bufs s i)"
    by (auto simp: bc_inv_def caches_def lockset_def pinset_def)
  with i have "b_data (bufs s i) = disk s b"
    by (auto simp: buf_ok_def caches_def)
  with assms(1) i show ?thesis by (simp add: view_caches)
next
  case False
  then show ?thesis by (simp add: view_uncached)
qed

text \<open>As long as not every buffer is locked or pinned, one can be recycled.\<close>

lemma free_buffer_exists:
  assumes inv: "bc_inv s" and room: "card (lockset s \<union> pinset s) < NBUF"
  shows "\<exists>i<NBUF. b_refcnt (bufs s i) = 0"
proof (rule ccontr)
  assume neg: "\<not> ?thesis"
  let ?f = "\<lambda>i. b_blockno (bufs s i)"
  have c: "caches s i (?f i)" and u: "?f i \<in> lockset s \<union> pinset s" if "i < NBUF" for i
  proof -
    from inv neg that have "buf_ok (disk s) (bufs s i)" and "b_refcnt (bufs s i) \<noteq> 0"
      by (auto simp: bc_inv_def)
    then show "caches s i (?f i)"
      using that by (auto simp: buf_ok_def caches_def)
    with \<open>buf_ok _ _\<close> \<open>b_refcnt _ \<noteq> 0\<close> show "?f i \<in> lockset s \<union> pinset s"
      by (cases "locked_buf (bufs s i)") (auto simp: buf_ok_def lockset_def pinset_def)
  qed
  have "inj_on ?f {..<NBUF}"
    by (rule inj_onI) (metis c inv bc_inv_unique lessThan_iff)
  then have "card {..<NBUF} \<le> card (lockset s \<union> pinset s)"
    by (rule card_inj_on_le) (use u in auto)
  with room show False by simp
qed

section \<open>Changing one buffer\<close>

lemma set_buf_simps [simp]:
  "bufs (set_buf i g s) = (bufs s)(i := g (bufs s i))"
  "disk (set_buf i g s) = disk s" "dtrace (set_buf i g s) = dtrace s"
  "procs (set_buf i g s) = procs s" "curproc (set_buf i g s) = curproc s"
  "myproc (set_buf i g s) = myproc s"
  "set_buf i h (set_buf i g s) = set_buf i (\<lambda>f. h (g f)) s"
  by (simp_all add: set_buf_def myproc_def)

lemma set_buf_only_bufs: "set_buf i g s = s\<lparr>bufs := bufs (set_buf i g s)\<rparr>"
  by (simp add: set_buf_def)

lemma holdingsleep_frame [simp]:
  "holdingsleep lk (set_buf i g s) = holdingsleep lk s"
  "holdingsleep lk (wakeup ch s) = holdingsleep lk s"
  "holdingsleep lk (s\<lparr>bufs := bf\<rparr>) = holdingsleep lk s"
  "holdingsleep lk (s\<lparr>disk := dk, dtrace := tr\<rparr>) = holdingsleep lk s"
  by (simp_all add: holdingsleep_def myproc_def wakeup_def)

text \<open>A change that keeps the list pointers and the identity of the buffer.\<close>

definition keeps_id :: "(buf \<Rightarrow> buf) \<Rightarrow> bool" where
  "keeps_id g \<longleftrightarrow> (\<forall>f. b_next (g f) = b_next f \<and> b_prev (g f) = b_prev f
     \<and> b_dev (g f) = b_dev f \<and> b_blockno (g f) = b_blockno f)"

lemma caches_set_buf: "keeps_id g \<Longrightarrow> caches (set_buf i g s) j b \<longleftrightarrow> caches s j b"
  by (auto simp: caches_def keeps_id_def)

lemma bc_inv_set_buf:
  assumes inv: "bc_inv s" and g: "keeps_id g" and ok: "buf_ok (disk s) (g (bufs s i))"
  shows "bc_inv (set_buf i g s)"
proof -
  have "ring (bufs (set_buf i g s)) xs = ring (bufs s) xs" for xs
    by (rule ring_fields) (use g in \<open>auto simp: keeps_id_def\<close>)
  with inv ok show ?thesis
    unfolding bc_inv_def by (simp only: caches_set_buf [OF g]) auto
qed

lemma lockset_set_buf:
  assumes "bc_inv s" and "caches s i b" and "keeps_id g"
  shows "lockset (set_buf i g s)
    = (if locked_buf (g (bufs s i)) then insert b (lockset s) else lockset s - {b})"
  using assms
  by (auto simp: lockset_def caches_set_buf dest: bc_inv_unique split: if_splits)
     (auto simp: caches_def)

lemma pinset_set_buf:
  assumes "bc_inv s" and "caches s i b" and "keeps_id g"
  shows "pinset (set_buf i g s)
    = (if pinned_buf (g (bufs s i)) then insert b (pinset s) else pinset s - {b})"
  using assms
  by (auto simp: pinset_def caches_set_buf dest: bc_inv_unique split: if_splits)
     (auto simp: caches_def)

lemma view_set_buf:
  assumes inv: "bc_inv s" and c: "caches s i b" and g: "keeps_id g"
    and inv': "bc_inv (set_buf i g s)"
  shows "view (set_buf i g s) = (view s)(b := b_data (g (bufs s i)))"
proof
  fix c
  show "view (set_buf i g s) c = ((view s)(b := b_data (g (bufs s i)))) c"
  proof (cases "\<exists>j. caches s j c")
    case True
    then obtain j where j: "caches s j c" by blast
    then have j': "caches (set_buf i g s) j c" by (simp add: caches_set_buf [OF g])
    have "i = j \<longleftrightarrow> b = c"
      using c j inv by (auto simp: caches_def dest: bc_inv_unique)
    with j j' inv inv' show ?thesis by (auto simp: view_caches)
  next
    case False
    with c have "c \<noteq> b" by auto
    with False show ?thesis by (simp add: view_uncached caches_set_buf [OF g])
  qed
qed

lemma held_set_buf_other:
  "keeps_id g \<Longrightarrow> j \<noteq> i \<Longrightarrow> held s j c \<Longrightarrow> held (set_buf i g s) j c"
  by (auto simp: held_def caches_set_buf)

section \<open>What each operation does to the view\<close>

text \<open>
  The frame of an operation on the cache: nothing but the buffers changes, or also the
  processes it wakes.
\<close>

definition only_bufs :: "'z bstate_scheme \<Rightarrow> 'z bstate_scheme \<Rightarrow> bool" where
  "only_bufs s s' \<longleftrightarrow> s' = s\<lparr>bufs := bufs s'\<rparr>"

lemma only_bufsE:
  assumes "only_bufs s s'"
  obtains bf where "s' = s\<lparr>bufs := bf\<rparr>"
  using assms by (auto simp: only_bufs_def)

lemma held_locked: "held s i b \<Longrightarrow> locked_buf (bufs s i)"
  by (simp add: held_def holdingsleep_def locked_buf_def)

lemma held_lockset: "held s i b \<Longrightarrow> b \<in> lockset s"
  by (auto simp: lockset_def held_locked dest: held_caches)

lemma held_buf_ok:
  "bc_inv s \<Longrightarrow> held s i b \<Longrightarrow>
   b_valid (bufs s i) \<and> (b_refcnt (bufs s i) = 1 \<or> b_refcnt (bufs s i) = 2)
   \<and> (b_refcnt (bufs s i) = 2 \<longleftrightarrow> b \<in> pinset s)"
proof -
  assume inv: "bc_inv s" and h: "held s i b"
  then have c: "caches s i b" and l: "locked_buf (bufs s i)"
    by (auto simp: held_caches held_locked)
  have "buf_ok (disk s) (bufs s i)"
    using inv c by (auto simp: bc_inv_def caches_def)
  moreover have "b \<in> pinset s \<longleftrightarrow> pinned_buf (bufs s i)"
    using c inv by (auto simp: pinset_def dest: bc_inv_unique)
  ultimately show ?thesis
    using l c by (auto simp: buf_ok_def pinned_buf_def caches_def)
qed

lemma modify_data_runs:
  fixes s :: "'z bstate_scheme" and f :: "bytes \<Rightarrow> bytes"
  assumes inv: "bc_inv s" and h: "held s i b"
  defines "s' \<equiv> modify_data i f s"
  shows "bc_inv s'" and "held s' i b" and "view s' = (view s)(b := f (view s b))"
    and "lockset s' = lockset s" and "pinset s' = pinset s" and "only_bufs s s'"
    and "disk s' = disk s" and "dtrace s' = dtrace s"
    and "\<And>j c. held s j c \<Longrightarrow> held s' j c"
proof -
  have g: "keeps_id (b_data_update f)" by (simp add: keeps_id_def)
  have c: "caches s i b" using h by (rule held_caches)
  have "buf_ok (disk s) (bufs s i)" using inv c by (auto simp: bc_inv_def caches_def)
  then have ok: "buf_ok (disk s) (b_data_update f (bufs s i))"
    using held_buf_ok [OF inv h] by (auto simp: buf_ok_def locked_buf_def pinned_buf_def)
  show inv': "bc_inv s'"
    unfolding s'_def modify_data_def by (rule bc_inv_set_buf [OF inv g ok])
  show "held s' i b" and "\<And>j c. held s j c \<Longrightarrow> held s' j c"
    using h by (auto simp: s'_def modify_data_def held_def caches_set_buf [OF g])
  show "view s' = (view s)(b := f (view s b))"
    using view_set_buf [OF inv c g] inv' view_caches [OF inv c]
    by (simp add: s'_def modify_data_def)
  show "lockset s' = lockset s" and "pinset s' = pinset s"
    using lockset_set_buf [OF inv c g] pinset_set_buf [OF inv c g] c held_locked [OF h]
    by (auto simp: s'_def modify_data_def locked_buf_def pinned_buf_def lockset_def pinset_def
        dest: bc_inv_unique [OF inv])
  show "only_bufs s s'" by (simp add: only_bufs_def s'_def modify_data_def set_buf_def)
  show "disk s' = disk s" and "dtrace s' = dtrace s" by (simp_all add: s'_def modify_data_def)
qed

lemma bwrite_runs:
  assumes inv: "bc_inv s" and h: "held s i b"
  shows "runs (bwrite i s) (\<lambda>_ s'. bc_inv s' \<and> view s' = view s \<and> lockset s' = lockset s
    \<and> pinset s' = pinset s \<and> disk s' = (disk s)(b := view s b)
    \<and> dtrace s' = dtrace s @ [(b, view s b)] \<and> bufs s' = bufs s
    \<and> s' = s\<lparr>disk := disk s', dtrace := dtrace s'\<rparr>
    \<and> (\<forall>j c. held s j c \<longrightarrow> held s' j c))"
proof -
  let ?s = "disk_write i s"
  have c: "caches s i b" using h by (rule held_caches)
  then have b: "b_blockno (bufs s i) = b" by (simp add: caches_def)
  have cs: "caches ?s = caches s" by (auto simp: caches_def disk_write_def fun_eq_iff)
  have d: "disk ?s = (disk s)(b := view s b)"
    using view_held [OF inv h] b by (simp add: disk_write_def)
  have "bc_inv ?s"
  proof -
    have "buf_ok (disk ?s) (bufs s j)" if "j < NBUF" for j
    proof (cases "caches s j b")
      case True
      with c inv have "j = i" by (blast dest: bc_inv_unique)
      then show ?thesis
        using inv held_buf_ok [OF inv h] that by (auto simp: bc_inv_def buf_ok_def)
    next
      case False
      then show ?thesis using inv that d by (auto simp: bc_inv_def buf_ok_def caches_def)
    qed
    with inv cs show ?thesis by (simp add: bc_inv_def) (simp add: disk_write_def)
  qed
  moreover have "view ?s = view s"
  proof
    fix x
    show "view ?s x = view s x"
      by (rule view_cong) (use c d cs in \<open>auto simp: disk_write_def\<close>)
  qed
  moreover have "held s i b" by (rule h)
  ultimately show ?thesis
    using d b view_held [OF inv h] cs
    by (auto simp: bwrite_def held_def lockset_def pinset_def disk_write_def)
qed

text \<open>Moving buffers on the list changes nothing a client sees.\<close>

lemma splice_front_fields:
  "b_dev (splice_front b bf x) = b_dev (bf x)" "b_blockno (splice_front b bf x) = b_blockno (bf x)"
  "b_valid (splice_front b bf x) = b_valid (bf x)" "b_lock (splice_front b bf x) = b_lock (bf x)"
  "b_refcnt (splice_front b bf x) = b_refcnt (bf x)" "b_data (splice_front b bf x) = b_data (bf x)"
  by (simp_all add: splice_front_def Let_def)

lemma relink:
  assumes inv: "bc_inv s"
    and same: "\<And>x. b_dev (bf x) = b_dev (bufs s x)" "\<And>x. b_blockno (bf x) = b_blockno (bufs s x)"
      "\<And>x. b_valid (bf x) = b_valid (bufs s x)" "\<And>x. b_lock (bf x) = b_lock (bufs s x)"
      "\<And>x. b_refcnt (bf x) = b_refcnt (bufs s x)" "\<And>x. b_data (bf x) = b_data (bufs s x)"
    and rg: "\<exists>xs. ring bf xs \<and> set xs = {..<NBUF}"
  shows "bc_inv (s\<lparr>bufs := bf\<rparr>)" and "view (s\<lparr>bufs := bf\<rparr>) = view s"
    and "lockset (s\<lparr>bufs := bf\<rparr>) = lockset s" and "pinset (s\<lparr>bufs := bf\<rparr>) = pinset s"
    and "held (s\<lparr>bufs := bf\<rparr>) j x = held s j x"
proof -
  have c: "caches (s\<lparr>bufs := bf\<rparr>) = caches s"
    by (simp add: caches_def same fun_eq_iff)
  show "bc_inv (s\<lparr>bufs := bf\<rparr>)"
    using inv rg by (simp add: bc_inv_def c buf_ok_def same locked_buf_def pinned_buf_def)
  show "view (s\<lparr>bufs := bf\<rparr>) = view s"
    by (rule ext) (rule view_cong, simp_all add: c same)
  show "lockset (s\<lparr>bufs := bf\<rparr>) = lockset s" and "pinset (s\<lparr>bufs := bf\<rparr>) = pinset s"
    and "held (s\<lparr>bufs := bf\<rparr>) j x = held s j x"
    by (simp_all add: lockset_def pinset_def held_def c same locked_buf_def pinned_buf_def)
qed

lemma brelse_runs:
  assumes inv: "bc_inv s" and h: "held s i b"
    and clean: "b \<in> pinset s \<or> view s b = disk s b"
  shows "runs (brelse i s) (\<lambda>_ s'. bc_inv s' \<and> view s' = view s \<and> lockset s' = lockset s - {b}
    \<and> pinset s' = pinset s \<and> disk s' = disk s \<and> dtrace s' = dtrace s
    \<and> only_bufs (wakeup (ChBufLock i) s) s'
    \<and> (\<forall>j c. j \<noteq> i \<longrightarrow> held s j c \<longrightarrow> held s' j c))"
proof -
  let ?g = "\<lambda>f. f\<lparr>b_lock := b_lock f\<lparr>sl_locked := False, sl_pid := 0\<rparr>, b_refcnt := b_refcnt f - 1\<rparr>"
  let ?w = "wakeup (ChBufLock i) s"
  let ?s = "set_buf i ?g ?w"
  have c: "caches s i b" using h by (rule held_caches)
  have g: "keeps_id ?g" by (simp add: keeps_id_def)
  have winv: "bc_inv ?w" and wc: "caches ?w = caches s"
    using inv by (simp_all add: bc_inv_def caches_def fun_eq_iff)
  have wv: "view ?w = view s"
    by (rule ext) (rule view_cong, simp_all add: wc)
  have wl: "lockset ?w = lockset s" "pinset ?w = pinset s"
    by (simp_all add: lockset_def pinset_def wc)
  have ok: "buf_ok (disk ?w) (?g (bufs ?w i))"
    using inv c held_buf_ok [OF inv h] clean view_caches [OF inv c]
    by (auto simp: bc_inv_def buf_ok_def caches_def locked_buf_def pinned_buf_def)
  have inv1: "bc_inv ?s" by (rule bc_inv_set_buf [OF winv g ok])
  have v1: "view ?s = view s"
    using view_set_buf [OF winv _ g inv1] wc c wv 
      fun_upd_idem [where f = "view s" and x = b] view_caches [OF inv c] by simp
  have l1: "lockset ?s = lockset s - {b}"
    using lockset_set_buf [OF winv _ g] wc wl c by (simp add: locked_buf_def)
  have p1: "pinset ?s = pinset s"
    using pinset_set_buf [OF winv _ g, of i b] wc wl c held_buf_ok [OF inv h]
    by (auto simp: pinned_buf_def locked_buf_def)
  have o1: "held ?s j x" if "j \<noteq> i" "held s j x" for j x
    using that by (auto simp: held_def caches_set_buf [OF g] wc)
  have step: "unlock_buf i s = set_buf i (\<lambda>f. f\<lparr>b_lock := b_lock f\<lparr>sl_locked := False, sl_pid := 0\<rparr>\<rparr>) ?w"
    by (simp add: unlock_buf_def releasesleep_def set_buf_def)
  have gf: "b_refcnt_update (\<lambda>r. r - 1) (f\<lparr>b_lock := b_lock f\<lparr>sl_locked := False, sl_pid := 0\<rparr>\<rparr>) = ?g f" for f
    by (rule buf.equality) simp_all
  have br: "brelse i s = Inr ((), if b_refcnt (bufs ?s i) = 0
      then ?s\<lparr>bufs := splice_front i (bufs ?s)\<rparr> else ?s)"
    using h by (simp add: brelse_def held_def step Let_def gf)
  show ?thesis
  proof (cases "b_refcnt (bufs ?s i) = 0")
    case False
    with br inv1 v1 l1 p1 o1 show ?thesis
      by (simp add: only_bufs_def) (simp add: set_buf_def)
  next
    case True
    let ?t = "?s\<lparr>bufs := splice_front i (bufs ?s)\<rparr>"
    obtain xs where xs: "ring (bufs ?s) xs" "set xs = {..<NBUF}"
      using inv1 by (auto simp: bc_inv_def simp del: set_buf_simps)
    then have "i \<in> set xs" using c by (simp add: caches_def)
    then obtain as bs where "xs = as @ i # bs" by (meson split_list)
    with xs have "\<exists>xs. ring (splice_front i (bufs ?s)) xs \<and> set xs = {..<NBUF}"
      using splice_front_ring [of "bufs ?s" as i bs] by (intro exI [of _ "i # as @ bs"]) auto
    note rl = relink [OF inv1 splice_front_fields [of i "bufs ?s"] this]
    show ?thesis
      using True br rl v1 l1 p1 o1 by (simp add: only_bufs_def) (simp add: set_buf_def)
  qed
qed

lemma bpin_runs:
  fixes s :: "'z bstate_scheme"
  assumes inv: "bc_inv s" and h: "held s i b" and np: "b \<notin> pinset s"
  defines "s' \<equiv> bpin i s"
  shows "bc_inv s'" and "view s' = view s" and "lockset s' = lockset s"
    and "pinset s' = insert b (pinset s)" and "only_bufs s s'" and "disk s' = disk s"
    and "dtrace s' = dtrace s" and "\<And>j c. held s j c \<Longrightarrow> held s' j c"
proof -
  have g: "keeps_id (b_refcnt_update (\<lambda>r. r + 1))" by (simp add: keeps_id_def)
  have c: "caches s i b" using h by (rule held_caches)
  have r: "b_refcnt (bufs s i) = 1" and l: "locked_buf (bufs s i)"
    using held_buf_ok [OF inv h] held_locked [OF h] np by auto
  have "buf_ok (disk s) (bufs s i)" using inv c by (auto simp: bc_inv_def caches_def)
  then have ok: "buf_ok (disk s) (b_refcnt_update (\<lambda>r. r + 1) (bufs s i))"
    using r l by (auto simp: buf_ok_def pinned_buf_def locked_buf_def)
  show inv': "bc_inv s'"
    unfolding s'_def bpin_def by (rule bc_inv_set_buf [OF inv g ok])
  then show "view s' = view s"
    using view_set_buf [OF inv c g] view_caches [OF inv c]
    by (simp add: s'_def bpin_def fun_upd_idem)
  show "lockset s' = lockset s" and "pinset s' = insert b (pinset s)"
    using lockset_set_buf [OF inv c g] pinset_set_buf [OF inv c g] l r held_lockset [OF h]
    by (auto simp: s'_def bpin_def locked_buf_def pinned_buf_def)
  show "\<And>j c. held s j c \<Longrightarrow> held s' j c"
    by (auto simp: s'_def bpin_def held_def caches_set_buf [OF g])
  show "only_bufs s s'" by (simp add: only_bufs_def s'_def bpin_def set_buf_def)
  show "disk s' = disk s" and "dtrace s' = dtrace s" by (simp_all add: s'_def bpin_def)
qed

lemma bunpin_runs:
  fixes s :: "'z bstate_scheme"
  assumes inv: "bc_inv s" and h: "held s i b" and np: "b \<in> pinset s"
  defines "s' \<equiv> bunpin i s"
  shows "bc_inv s'" and "view s' = view s" and "lockset s' = lockset s"
    and "pinset s' = pinset s - {b}" and "only_bufs s s'" and "disk s' = disk s"
    and "dtrace s' = dtrace s" and "\<And>j c. held s j c \<Longrightarrow> held s' j c"
proof -
  have g: "keeps_id (b_refcnt_update (\<lambda>r. r - 1))" by (simp add: keeps_id_def)
  have c: "caches s i b" using h by (rule held_caches)
  have r: "b_refcnt (bufs s i) = 2" and l: "locked_buf (bufs s i)"
    using held_buf_ok [OF inv h] held_locked [OF h] np by auto
  have "buf_ok (disk s) (bufs s i)" using inv c by (auto simp: bc_inv_def caches_def)
  then have ok: "buf_ok (disk s) (b_refcnt_update (\<lambda>r. r - 1) (bufs s i))"
    using r l by (auto simp: buf_ok_def pinned_buf_def locked_buf_def)
  show inv': "bc_inv s'"
    unfolding s'_def bunpin_def by (rule bc_inv_set_buf [OF inv g ok])
  then show "view s' = view s"
    using view_set_buf [OF inv c g] view_caches [OF inv c]
    by (simp add: s'_def bunpin_def fun_upd_idem)
  show "lockset s' = lockset s" and "pinset s' = pinset s - {b}"
    using lockset_set_buf [OF inv c g] pinset_set_buf [OF inv c g] l r held_lockset [OF h]
    by (auto simp: s'_def bunpin_def locked_buf_def pinned_buf_def)
  show "\<And>j c. held s j c \<Longrightarrow> held s' j c"
    by (auto simp: s'_def bunpin_def held_def caches_set_buf [OF g])
  show "only_bufs s s'" by (simp add: only_bufs_def s'_def bunpin_def set_buf_def)
  show "disk s' = disk s" and "dtrace s' = dtrace s" by (simp_all add: s'_def bunpin_def)
qed

text \<open>Taking a buffer that already caches the block.\<close>

lemma bread_hit:
  assumes inv: "bc_inv s" and c: "caches s i b" and nl: "b \<notin> lockset s"
  shows "runs (bread ROOTDEV b s) (\<lambda>j s'. j = i \<and> s' = set_buf i (\<lambda>f. f\<lparr>b_refcnt := b_refcnt f + 1,
    b_lock := \<lparr>sl_locked = True, sl_pid = p_pid (myproc s)\<rparr>\<rparr>) s)"
proof -
  obtain xs where xs: "ring (bufs s) xs" "set xs = {..<NBUF}" using inv by (auto simp: bc_inv_def)
  let ?P = "\<lambda>i. b_dev (bufs s i) = ROOTDEV \<and> b_blockno (bufs s i) = b"
  have "find ?P xs = Some i"
  proof (cases "find ?P xs")
    case None
    then have False using c xs(2) by (auto simp: find_None_iff caches_def)
    then show ?thesis ..
  next
    case (Some j)
    then have "?P j" and "j \<in> set xs"
      by (auto simp: find_Some_iff)
    then have "caches s j b" using xs(2) by (auto simp: caches_def)
    with inv c Some show ?thesis by (auto dest: bc_inv_unique)
  qed
  then have f: "bget_cached (bufs s) ROOTDEV b (b_next (bufs s HEAD)) = Some (Some i)"
    using bget_cached_ring [OF xs(1)] by simp
  have "\<not> sl_locked (b_lock (bufs s i))" and "b_valid (bufs s i)"
    using nl c inv by (auto simp: lockset_def locked_buf_def bc_inv_def buf_ok_def caches_def)
  with f show ?thesis
    by (auto simp: bread_def bget_def lock_buf_def acquiresleep_def set_buf_def myproc_def
        fun_eq_iff intro!: bstate.equality kstate.equality buf.equality sleeplock.equality)
qed

text \<open>Recycling the least recently used free buffer.\<close>

lemma bread_miss:
  assumes inv: "bc_inv s" and nc: "\<And>i. \<not> caches s i b"
    and room: "card (lockset s \<union> pinset s) < NBUF"
  shows "\<exists>i<NBUF. b_refcnt (bufs s i) = 0 \<and> runs (bread ROOTDEV b s) (\<lambda>j s'. j = i \<and>
    s' = set_buf i (\<lambda>f. f\<lparr>b_dev := ROOTDEV, b_blockno := b, b_valid := True, b_refcnt := 1,
      b_lock := \<lparr>sl_locked = True, sl_pid = p_pid (myproc s)\<rparr>, b_data := disk s b\<rparr>) s)"
proof -
  obtain xs where xs: "ring (bufs s) xs" "set xs = {..<NBUF}" using inv by (auto simp: bc_inv_def)
  have f1: "bget_cached (bufs s) ROOTDEV b (b_next (bufs s HEAD)) = Some None"
    using bget_cached_ring [OF xs(1), of ROOTDEV b] nc xs(2)
    by (auto simp: find_None_iff caches_def)
  obtain i where i: "find (\<lambda>b. b_refcnt (bufs s b) = 0) (rev xs) = Some i"
    using free_buffer_exists [OF inv room] xs(2)
    by (metis (mono_tags, lifting) find_None_iff lessThan_iff not_Some_eq set_rev)
  then have "i \<in> set (rev xs)" and r0: "b_refcnt (bufs s i) = 0"
    by (auto simp: find_Some_iff simp del: set_rev)
  then have i': "i < NBUF" "b_refcnt (bufs s i) = 0"
    using xs(2) by auto
  have f2: "bget_lru (bufs s) (b_prev (bufs s HEAD)) = Some (Some i)"
    using bget_lru_ring [OF xs(1)] i by simp
  have "buf_ok (disk s) (bufs s i)" using inv i' by (auto simp: bc_inv_def)
  with i' have "\<not> sl_locked (b_lock (bufs s i))"
    by (auto simp: buf_ok_def locked_buf_def pinned_buf_def split: if_splits)
  with f1 f2 i' show ?thesis
    by (intro exI [of _ i]) (auto simp: bread_def bget_def lock_buf_def acquiresleep_def set_buf_def
        myproc_def disk_read_def modify_data_def fun_eq_iff
        intro!: bstate.equality kstate.equality buf.equality sleeplock.equality)
qed

lemma bread_runs:
  assumes inv: "bc_inv s" and nl: "b \<notin> lockset s"
    and room: "card (lockset s \<union> pinset s) < NBUF \<or> b \<in> pinset s"
  shows "runs (bread ROOTDEV b s) (\<lambda>i s'. bc_inv s' \<and> held s' i b \<and> view s' = view s
    \<and> lockset s' = insert b (lockset s) \<and> pinset s' = pinset s \<and> disk s' = disk s
    \<and> dtrace s' = dtrace s \<and> only_bufs s s' \<and> (\<forall>j c. held s j c \<longrightarrow> j \<noteq> i \<and> held s' j c))"
proof (cases "\<exists>i. caches s i b")
  case True
  then obtain i where c: "caches s i b" by blast
  let ?lk = "\<lparr>sl_locked = True, sl_pid = p_pid (myproc s)\<rparr>"
  let ?g = "\<lambda>f. f\<lparr>b_refcnt := b_refcnt f + 1, b_lock := ?lk\<rparr>"
  let ?s = "set_buf i ?g s"
  have g: "keeps_id ?g" by (simp add: keeps_id_def)
  have nlk: "\<not> locked_buf (bufs s i)" using nl c by (auto simp: lockset_def)
  have okb: "buf_ok (disk s) (bufs s i)" using inv c by (auto simp: bc_inv_def caches_def)
  have ok: "buf_ok (disk s) (?g (bufs s i))"
    using okb c nlk by (auto simp: buf_ok_def caches_def locked_buf_def pinned_buf_def)
  have inv': "bc_inv ?s" by (rule bc_inv_set_buf [OF inv g ok])
  have v: "view ?s = view s"
    using view_set_buf [OF inv c g inv'] view_caches [OF inv c]
    by (simp add: fun_upd_idem [where f = "view s" and x = b])
  have pin: "b \<in> pinset s \<longleftrightarrow> pinned_buf (bufs s i)"
    using c inv by (auto simp: pinset_def dest: bc_inv_unique)
  have ls: "lockset ?s = insert b (lockset s)"
    using lockset_set_buf [OF inv c g] by (simp add: locked_buf_def)
  have ps: "pinset ?s = pinset s"
    using pinset_set_buf [OF inv c g] pin nlk okb
    by (auto simp: pinned_buf_def locked_buf_def buf_ok_def)
  have hi: "held ?s i b"
    using c by (simp add: held_def caches_set_buf [OF g] holdingsleep_def)
  have "j \<noteq> i \<and> held ?s j x" if "held s j x" for j x
    using that nlk held_locked [OF that] by (auto simp: held_def caches_set_buf [OF g])
  with bread_hit [OF inv c nl] inv' v ls ps hi show ?thesis
    by (elim runs_mono) (auto simp: only_bufs_def set_buf_def)
next
  case False
  with room have "card (lockset s \<union> pinset s) < NBUF" by (auto simp: pinset_def)
  with bread_miss [OF inv] False obtain i where i: "i < NBUF" and r0: "b_refcnt (bufs s i) = 0"
    and br: "runs (bread ROOTDEV b s) (\<lambda>j s'. j = i \<and>
      s' = set_buf i (\<lambda>f. f\<lparr>b_dev := ROOTDEV, b_blockno := b, b_valid := True, b_refcnt := 1,
        b_lock := \<lparr>sl_locked = True, sl_pid = p_pid (myproc s)\<rparr>, b_data := disk s b\<rparr>) s)"
    by blast
  let ?g = "\<lambda>f. f\<lparr>b_dev := ROOTDEV, b_blockno := b, b_valid := True, b_refcnt := 1,
    b_lock := \<lparr>sl_locked = True, sl_pid = p_pid (myproc s)\<rparr>, b_data := disk s b\<rparr>"
  let ?s = "set_buf i ?g s"
  have okb: "buf_ok (disk s) (bufs s i)" using inv i by (auto simp: bc_inv_def)
  have nlk: "\<not> locked_buf (bufs s i)" and npn: "\<not> pinned_buf (bufs s i)"
    using okb r0 by (auto simp: buf_ok_def pinned_buf_def split: if_splits)
  have cs: "caches ?s j x \<longleftrightarrow> (if j = i then x = b else caches s j x)" for j x
    using i by (auto simp: caches_def)
  have rg: "ring (bufs ?s) xs = ring (bufs s) xs" for xs
    by (rule ring_fields) auto
  have bo: "buf_ok (disk ?s) (bufs ?s j)" if "j < NBUF" for j
    using inv that by (auto simp: bc_inv_def buf_ok_def locked_buf_def pinned_buf_def)
  have un: "j = k" if "caches ?s j x" "caches ?s k x" for j k x
    using that False inv by (auto simp: cs split: if_splits dest: bc_inv_unique)
  have inv': "bc_inv ?s"
    using inv bo un unfolding bc_inv_def rg by blast
  have v: "view ?s x = view s x" for x
  proof (cases "x = b")
    case True
    have "view ?s b = disk s b" using view_caches [OF inv', of i b] cs by simp
    with False True show ?thesis by (simp add: view_uncached)
  next
    case neq: False
    show ?thesis
    proof (cases "caches s i x")
      case True
      with okb r0 inv have "view s x = disk s x"
        by (auto simp: view_caches buf_ok_def caches_def)
      moreover have "view ?s x = disk ?s x"
        by (rule view_uncached) (use True neq cs inv in \<open>auto dest: bc_inv_unique split: if_splits\<close>)
      ultimately show ?thesis by simp
    next
      case False
      show ?thesis by (rule view_cong) (use False neq cs in \<open>auto simp: fun_upd_def\<close>)
    qed
  qed
  have ls: "lockset ?s = insert b (lockset s)"
    using nlk by (auto simp: lockset_def cs locked_buf_def split: if_splits)
  have pb: "\<not> pinned_buf (?g f)" for f by (simp add: pinned_buf_def locked_buf_def)
  have ps: "pinset ?s = pinset s"
  proof (rule set_eqI)
    fix x
    have "caches ?s j x \<and> pinned_buf (bufs ?s j) \<longleftrightarrow> caches s j x \<and> pinned_buf (bufs s j)" for j
      using pb npn by (cases "j = i") (auto simp: cs)
    then show "x \<in> pinset ?s \<longleftrightarrow> x \<in> pinset s" by (simp add: pinset_def)
  qed
  have hi: "held ?s i b" by (simp add: held_def cs holdingsleep_def)
  have "j \<noteq> i \<and> held ?s j x" if "held s j x" for j x
    using that nlk held_locked [OF that] by (auto simp: held_def cs)
  with br inv' v ls ps hi show ?thesis
    by (elim runs_mono) (auto simp: only_bufs_def set_buf_def fun_eq_iff)
qed

section \<open>Initialisation\<close>

lemma binit_loop_ring:
  "ring bf xs \<Longrightarrow> distinct bs \<Longrightarrow> set bs \<inter> set xs = {} \<Longrightarrow> HEAD \<notin> set bs \<Longrightarrow>
   ring (binit_loop bs bf) (rev bs @ xs)"
proof (induction bs arbitrary: bf xs)
  case Nil
  then show ?case by simp
next
  case (Cons b bs)
  let ?bf = "set_next HEAD b (set_prev (b_next (bf HEAD)) b (set_prev b HEAD (set_next b (b_next (bf HEAD)) bf)))"
  let ?bf1 = "set_prev b HEAD (set_next b (b_next (bf HEAD)) bf)"
  let ?bf2 = "?bf1(b := (?bf1 b)\<lparr>b_lock := initsleeplock\<rparr>)"
  let ?bf3 = "set_prev (b_next (?bf2 HEAD)) b ?bf2"
  have r: "ring ?bf (b # xs)"
    using Cons.prems by (auto simp: ring_def intro!: linked_push simp del: linked.simps)
  have "ring (set_next HEAD b ?bf3) (b # xs) = ring ?bf (b # xs)"
    by (rule ring_fields) (use Cons.prems in auto)
  with r have "ring (binit_loop bs (set_next HEAD b ?bf3)) (rev bs @ b # xs)"
    using Cons.prems by (intro Cons.IH) auto
  then show ?case by (simp add: Let_def)
qed

lemma binit_loop_fields:
  "b_dev (binit_loop bs bf x) = b_dev (bf x)" "b_refcnt (binit_loop bs bf x) = b_refcnt (bf x)"
  "b_lock (binit_loop bs bf x) = (if x \<in> set bs then initsleeplock else b_lock (bf x))"
  by (induction bs arbitrary: bf) (auto simp: Let_def)

text \<open>After \<^verbatim>\<open>binit\<close> on zeroed buffers the cache is empty and its list is well formed.\<close>

lemma binit_inv:
  assumes "\<And>i. i < NBUF \<Longrightarrow> b_dev (bufs s i) = 0 \<and> b_refcnt (bufs s i) = 0"
  shows "bc_inv (binit s)" and "lockset (binit s) = {}" and "pinset (binit s) = {}"
    and "view (binit s) = disk s"
proof -
  let ?bf = "set_next HEAD HEAD (set_prev HEAD HEAD (bufs s))"
  have "ring ?bf []" by (simp add: ring_def)
  then have r: "ring (bufs (binit s)) (rev [0..<NBUF])"
    using binit_loop_ring [of ?bf "[]" "[0..<NBUF]"] by (simp add: binit_def)
  have f: "b_dev (bufs (binit s) i) = 0" "b_refcnt (bufs (binit s) i) = 0"
    "\<not> locked_buf (bufs (binit s) i)" if "i < NBUF" for i
    using assms that by (simp_all add: binit_def binit_loop_fields locked_buf_def initsleeplock_def)
  have c: "\<not> caches (binit s) i b" for i b
    using f by (auto simp: caches_def)
  show "bc_inv (binit s)"
    using r f c by (auto simp: bc_inv_def buf_ok_def intro: exI [of _ "rev [0..<NBUF]"])
  show "lockset (binit s) = {}" and "pinset (binit s) = {}"
    using c by (auto simp: lockset_def pinset_def)
  show "view (binit s) = disk s"
    by (rule ext) (simp add: view_uncached c, simp add: binit_def)
qed

text \<open>The abstraction depends on the buffers, the disk and the running process only.\<close>

lemma abstraction_cong:
  assumes "bufs s' = bufs s" and "disk s' = disk s"
  shows "caches s' = caches s" and "view s' = view s" and "lockset s' = lockset s"
    and "pinset s' = pinset s" and "bc_inv s' \<longleftrightarrow> bc_inv s"
proof -
  show c: "caches s' = caches s" using assms by (simp add: caches_def fun_eq_iff)
  show "view s' = view s" by (rule ext) (rule view_cong, simp_all add: c assms)
  show "lockset s' = lockset s" and "pinset s' = pinset s" and "bc_inv s' \<longleftrightarrow> bc_inv s"
    using assms by (simp_all add: lockset_def pinset_def bc_inv_def c)
qed

lemma held_cong:
  "bufs s' = bufs s \<Longrightarrow> disk s' = disk s \<Longrightarrow> myproc s' = myproc s \<Longrightarrow> held s' i b = held s i b"
  by (simp add: held_def abstraction_cong(1) [of s' s] holdingsleep_def)

end
