(* ===== verification/Log.thy ===== *)
theory Log
  imports Bio
begin

text \<open>
  The write-ahead log (\<^verbatim>\<open>kernel/log.c\<close>): system calls bracket their updates with \<open>begin_op\<close> and
  \<open>end_op\<close>, \<open>log_write\<close> records a modified buffer and pins it, and the last \<open>end_op\<close> commits:
  copy the blocks to the log, write the header, install the blocks, clear the header. The
  second half shows that the commit is atomic: after a crash at any point between two disk
  writes, recovery leaves the disk either as it was or with the whole transaction.
  The C ints of the log are \<open>int\<close>: they are never near the overflow that C leaves undefined.
\<close>

section \<open>State\<close>

record lstate = bstate +
  log_start :: u32
  log_size :: int
  log_outstanding :: int
  log_committing :: bool
  log_dev :: u32
  lh_n :: int
  lh_block :: "nat \<Rightarrow> u32"

text \<open>\<^verbatim>\<open>struct logheader\<close> laid over a block: \<^verbatim>\<open>n\<close> at offset 0, \<^verbatim>\<open>block[i]\<close> at \<^verbatim>\<open>4 + 4*i\<close>\<close>

definition hdr_n :: "bytes \<Rightarrow> int" where
  "hdr_n d = sint (ld32 d 0)"

definition hdr_block :: "bytes \<Rightarrow> nat \<Rightarrow> u32" where
  "hdr_block d i = ld32 d (4 + 4 * i)"

section \<open>Operations\<close>

definition log_block :: "nat \<Rightarrow> 'z lstate_scheme \<Rightarrow> u32" where
  "log_block tail s = log_start s + of_nat tail + 1"

text \<open>Copy one committed block from the log to its home location.\<close>

definition install_one :: "bool \<Rightarrow> nat \<Rightarrow> 'z lstate_scheme \<Rightarrow> (unit, 'z lstate_scheme) res" where
  "install_one recovering tail s =
     andthen (bread (log_dev s) (log_block tail s) s) (\<lambda>lbuf s.
     andthen (bread (log_dev s) (lh_block s tail) s) (\<lambda>dbuf s.
     andthen (bwrite dbuf (modify_data dbuf (\<lambda>_. bdata lbuf s) s)) (\<lambda>_ s.
     andthen (brelse lbuf (if recovering then s else bunpin dbuf s)) (\<lambda>_ s.
     brelse dbuf s))))"

fun install_loop :: "bool \<Rightarrow> nat list \<Rightarrow> 'z lstate_scheme \<Rightarrow> (unit, 'z lstate_scheme) res" where
  "install_loop recovering [] s = Inr ((), s)"
| "install_loop recovering (tail # ts) s =
     andthen (install_one recovering tail s) (\<lambda>_ s. install_loop recovering ts s)"

definition install_trans :: "bool \<Rightarrow> 'z lstate_scheme \<Rightarrow> (unit, 'z lstate_scheme) res" where
  "install_trans recovering s = install_loop recovering [0..<nat (lh_n s)] s"

fun read_head_loop :: "nat list \<Rightarrow> bytes \<Rightarrow> (nat \<Rightarrow> u32) \<Rightarrow> (nat \<Rightarrow> u32)" where
  "read_head_loop [] d blk = blk"
| "read_head_loop (i # is) d blk = read_head_loop is d (blk(i := hdr_block d i))"

definition read_head :: "'z lstate_scheme \<Rightarrow> (unit, 'z lstate_scheme) res" where
  "read_head s = andthen (bread (log_dev s) (log_start s) s) (\<lambda>buf s.
     let n = hdr_n (bdata buf s) in
     if n > int LOGSIZE then Inl (Undefined ''log.lh.block'')
     else brelse buf (s\<lparr>lh_n := n,
            lh_block := read_head_loop [0..<nat n] (bdata buf s) (lh_block s)\<rparr>))"

fun write_head_loop :: "nat list \<Rightarrow> (nat \<Rightarrow> u32) \<Rightarrow> bytes \<Rightarrow> bytes" where
  "write_head_loop [] blk d = d"
| "write_head_loop (i # is) blk d = write_head_loop is blk (st32 d (4 + 4 * i) (blk i))"

definition write_head :: "'z lstate_scheme \<Rightarrow> (unit, 'z lstate_scheme) res" where
  "write_head s = andthen (bread (log_dev s) (log_start s) s) (\<lambda>buf s.
     let s = modify_data buf (\<lambda>d. st32 d 0 (word_of_int (lh_n s))) s;
         s = modify_data buf (write_head_loop [0..<nat (lh_n s)] (lh_block s)) s in
     andthen (bwrite buf s) (\<lambda>_ s. brelse buf s))"

definition recover_from_log :: "'z lstate_scheme \<Rightarrow> (unit, 'z lstate_scheme) res" where
  "recover_from_log s =
     andthen (read_head s) (\<lambda>_ s.
     andthen (install_trans True s) (\<lambda>_ s.
     write_head (s\<lparr>lh_n := 0\<rparr>)))"

text \<open>\<^verbatim>\<open>initlog\<close>; \<open>start\<close> and \<open>size\<close> come from the superblock's \<^verbatim>\<open>logstart\<close> and \<^verbatim>\<open>nlog\<close>.\<close>

definition initlog :: "u32 \<Rightarrow> u32 \<Rightarrow> u32 \<Rightarrow> 'z lstate_scheme \<Rightarrow> (unit, 'z lstate_scheme) res" where
  "initlog dev logstart nlog s =
     (if 4 + 4 * LOGSIZE \<ge> BSIZE then Inl (Panic ''initlog: too big logheader'')
      else recover_from_log (s\<lparr>log_start := logstart, log_size := sint nlog, log_dev := dev\<rparr>))"

definition begin_op :: "'z lstate_scheme \<Rightarrow> (unit, 'z lstate_scheme) res" where
  "begin_op s =
     (if log_committing s then Inl (Blocked ''begin_op'')
      else if lh_n s + (log_outstanding s + 1) * int MAXOPBLOCKS > int LOGSIZE
        then Inl (Blocked ''begin_op'')
      else Inr ((), s\<lparr>log_outstanding := log_outstanding s + 1\<rparr>))"

definition write_log_one :: "nat \<Rightarrow> 'z lstate_scheme \<Rightarrow> (unit, 'z lstate_scheme) res" where
  "write_log_one tail s =
     andthen (bread (log_dev s) (log_block tail s) s) (\<lambda>dst s.
     andthen (bread (log_dev s) (lh_block s tail) s) (\<lambda>src s.
     andthen (bwrite dst (modify_data dst (\<lambda>_. bdata src s) s)) (\<lambda>_ s.
     andthen (brelse src s) (\<lambda>_ s.
     brelse dst s))))"

fun write_log_loop :: "nat list \<Rightarrow> 'z lstate_scheme \<Rightarrow> (unit, 'z lstate_scheme) res" where
  "write_log_loop [] s = Inr ((), s)"
| "write_log_loop (tail # ts) s = andthen (write_log_one tail s) (\<lambda>_ s. write_log_loop ts s)"

definition write_log :: "'z lstate_scheme \<Rightarrow> (unit, 'z lstate_scheme) res" where
  "write_log s = write_log_loop [0..<nat (lh_n s)] s"

definition commit :: "'z lstate_scheme \<Rightarrow> (unit, 'z lstate_scheme) res" where
  "commit s =
     (if lh_n s > 0 then
        andthen (write_log s) (\<lambda>_ s.
        andthen (write_head s) (\<lambda>_ s.
        andthen (install_trans False s) (\<lambda>_ s.
        write_head (s\<lparr>lh_n := 0\<rparr>))))
      else Inr ((), s))"

definition end_op :: "'z lstate_scheme \<Rightarrow> (unit, 'z lstate_scheme) res" where
  "end_op s =
     (let s = s\<lparr>log_outstanding := log_outstanding s - 1\<rparr> in
      if log_committing s then Inl (Panic ''log.committing'')
      else if log_outstanding s = 0 then
        andthen (commit (s\<lparr>log_committing := True\<rparr>)) (\<lambda>_ s.
        Inr ((), wakeup ChLog (s\<lparr>log_committing := False\<rparr>)))
      else Inr ((), wakeup ChLog s))"

definition log_write :: "nat \<Rightarrow> 'z lstate_scheme \<Rightarrow> (unit, 'z lstate_scheme) res" where
  "log_write b s =
     (if lh_n s \<ge> int LOGSIZE \<or> lh_n s \<ge> log_size s - 1
        then Inl (Panic ''too big a transaction'')
      else if log_outstanding s < 1 then Inl (Panic ''log_write outside of trans'')
      else let blockno = b_blockno (bufs s b);
               n = nat (lh_n s);
               i = (case first_index (\<lambda>i. lh_block s i = blockno) n of Some i \<Rightarrow> i | None \<Rightarrow> n);
               s = s\<lparr>lh_block := (lh_block s)(i := blockno)\<rparr>
           in if i = n then Inr ((), (bpin b s)\<lparr>lh_n := lh_n s + 1\<rparr>) else Inr ((), s))"

section \<open>Invariant of the log\<close>

definition logged :: "'z lstate_scheme \<Rightarrow> u32 set" where
  "logged s = lh_block s ` {..<nat (lh_n s)}"

text \<open>The blocks of the log on disk: the header at \<open>log_start\<close> and the slots after it.\<close>

definition log_area :: "'z lstate_scheme \<Rightarrow> u32 set" where
  "log_area s = {b. uint (log_start s) \<le> uint b \<and> uint b < uint (log_start s) + log_size s}"

definition log_ok :: "'z lstate_scheme \<Rightarrow> bool" where
  "log_ok s \<longleftrightarrow> 0 \<le> lh_n s \<and> lh_n s \<le> int LOGSIZE \<and> lh_n s < log_size s
     \<and> inj_on (lh_block s) {..<nat (lh_n s)} \<and> pinset s = logged s
     \<and> logged s \<inter> log_area s = {} \<and> log_dev s = ROOTDEV
     \<and> uint (log_start s) + log_size s \<le> 2 ^ 32"

lemma card_logged: "log_ok s \<Longrightarrow> card (logged s) = nat (lh_n s)"
  by (simp add: log_ok_def logged_def card_image)

lemma lstate_frame [simp]:
  "lh_n (set_buf i g s) = lh_n s" "lh_block (set_buf i g s) = lh_block s"
  "log_start (set_buf i g s) = log_start s" "log_size (set_buf i g s) = log_size s"
  "log_dev (set_buf i g s) = log_dev s" "log_outstanding (set_buf i g s) = log_outstanding s"
  "log_committing (set_buf i g s) = log_committing s"
  "lh_n (wakeup ch s) = lh_n s" "lh_block (wakeup ch s) = lh_block s"
  "log_start (wakeup ch s) = log_start s" "log_size (wakeup ch s) = log_size s"
  "log_dev (wakeup ch s) = log_dev s" "log_outstanding (wakeup ch s) = log_outstanding s"
  "log_committing (wakeup ch s) = log_committing s"
  by (simp_all add: set_buf_def wakeup_def)

lemma lstate_updates [simp]:
  "view (s\<lparr>lh_n := n\<rparr>) = view s" "view (s\<lparr>lh_block := bl\<rparr>) = view s"
  "lockset (s\<lparr>lh_n := n\<rparr>) = lockset s" "lockset (s\<lparr>lh_block := bl\<rparr>) = lockset s"
  "pinset (s\<lparr>lh_n := n\<rparr>) = pinset s" "pinset (s\<lparr>lh_block := bl\<rparr>) = pinset s"
  "bc_inv (s\<lparr>lh_n := n\<rparr>) = bc_inv s" "bc_inv (s\<lparr>lh_block := bl\<rparr>) = bc_inv s"
  "held (s\<lparr>lh_n := n\<rparr>) i b = held s i b" "held (s\<lparr>lh_block := bl\<rparr>) i b = held s i b"
  by (simp_all add: abstraction_cong [of "s\<lparr>lh_n := n\<rparr>" s] abstraction_cong [of "s\<lparr>lh_block := bl\<rparr>" s]
      held_cong [of "s\<lparr>lh_n := n\<rparr>" s] held_cong [of "s\<lparr>lh_block := bl\<rparr>" s] myproc_def)

text \<open>The fields of the log, which operations on buffers leave alone.\<close>

definition log_frame :: "'z lstate_scheme \<Rightarrow> 'z lstate_scheme \<Rightarrow> bool" where
  "log_frame s s' \<longleftrightarrow> lh_n s' = lh_n s \<and> lh_block s' = lh_block s \<and> log_start s' = log_start s
     \<and> log_size s' = log_size s \<and> log_dev s' = log_dev s
     \<and> log_outstanding s' = log_outstanding s \<and> log_committing s' = log_committing s"

lemma log_frame_refl [simp]: "log_frame s s"
  by (simp add: log_frame_def)

lemma log_frame_trans: "log_frame s t \<Longrightarrow> log_frame t u \<Longrightarrow> log_frame s u"
  by (simp add: log_frame_def)

lemma only_bufs_log_frame: "only_bufs s s' \<Longrightarrow> log_frame s s'"
  by (erule only_bufsE) (simp add: log_frame_def)

lemma log_frame_wakeup: "log_frame (wakeup ch s) s' \<longleftrightarrow> log_frame s s'"
  by (simp add: log_frame_def)

text \<open>The operations on buffers, with the frame of the log.\<close>

lemma bread_l:
  assumes "bc_inv s" and "b \<notin> lockset s" and "card (lockset s \<union> pinset s) < NBUF \<or> b \<in> pinset s"
  shows "runs (bread ROOTDEV b s) (\<lambda>i s'. bc_inv s' \<and> held s' i b \<and> view s' = view s
    \<and> lockset s' = insert b (lockset s) \<and> pinset s' = pinset s \<and> disk s' = disk s
    \<and> dtrace s' = dtrace s \<and> log_frame s s' \<and> (\<forall>j c. held s j c \<longrightarrow> j \<noteq> i \<and> held s' j c))"
  using bread_runs [OF assms] by (rule runs_mono) (auto dest: only_bufs_log_frame)

lemma brelse_l:
  assumes "bc_inv s" and "held s i b" and "b \<in> pinset s \<or> view s b = disk s b"
  shows "runs (brelse i s) (\<lambda>_ s'. bc_inv s' \<and> view s' = view s \<and> lockset s' = lockset s - {b}
    \<and> pinset s' = pinset s \<and> disk s' = disk s \<and> dtrace s' = dtrace s
    \<and> log_frame s s' \<and> (\<forall>j c. j \<noteq> i \<longrightarrow> held s j c \<longrightarrow> held s' j c))"
  using brelse_runs [OF assms]
  by (rule runs_mono) (auto dest!: only_bufs_log_frame simp: log_frame_wakeup)

lemma bwrite_l:
  fixes s :: "'z lstate_scheme"
  assumes "bc_inv s" and "held s i b"
  shows "runs (bwrite i s) (\<lambda>_ s'. bc_inv s' \<and> view s' = view s \<and> lockset s' = lockset s
    \<and> pinset s' = pinset s \<and> disk s' = (disk s)(b := view s b)
    \<and> dtrace s' = dtrace s @ [(b, view s b)] \<and> log_frame s s'
    \<and> (\<forall>j c. held s j c \<longrightarrow> held s' j c))"
proof (rule runs_mono [OF bwrite_runs [OF assms]])
  fix u and s' :: "'z lstate_scheme"
  let ?t = "s\<lparr>disk := disk s', dtrace := dtrace s'\<rparr>"
  have f: "log_frame s ?t" by (simp add: log_frame_def)
  assume "bc_inv s' \<and> view s' = view s \<and> lockset s' = lockset s
    \<and> pinset s' = pinset s \<and> disk s' = (disk s)(b := view s b)
    \<and> dtrace s' = dtrace s @ [(b, view s b)] \<and> bufs s' = bufs s \<and> s' = ?t
    \<and> (\<forall>j c. held s j c \<longrightarrow> held s' j c)"
  with f show "bc_inv s' \<and> view s' = view s \<and> lockset s' = lockset s
    \<and> pinset s' = pinset s \<and> disk s' = (disk s)(b := view s b)
    \<and> dtrace s' = dtrace s @ [(b, view s b)] \<and> log_frame s s'
    \<and> (\<forall>j c. held s j c \<longrightarrow> held s' j c)"
    by metis
qed

lemma modify_data_l: "bc_inv s \<Longrightarrow> held s i b \<Longrightarrow> log_frame s (modify_data i f s)"
  by (simp add: only_bufs_log_frame modify_data_runs(6))

lemma bunpin_l: "bc_inv s \<Longrightarrow> held s i b \<Longrightarrow> b \<in> pinset s \<Longrightarrow> log_frame s (bunpin i s)"
  by (simp add: only_bufs_log_frame bunpin_runs(5))

section \<open>The phases of a commit\<close>

text \<open>The log blocks do not collide with each other, the header, or a block of the transaction.\<close>

lemma log_block_area:
  assumes "log_ok s" and "t < nat (lh_n s)"
  shows "log_block t s \<in> log_area s" and "log_block t s \<notin> logged s" and "log_block t s \<noteq> log_start s"
    and "uint (log_block t s) = uint (log_start s) + int t + 1"
proof -
  have lt: "uint (log_start s) + int t + 1 < 2 ^ 32" and lt2: "int t + 1 < log_size s"
    using assms by (auto simp: log_ok_def)
  have "log_block t s = word_of_int (uint (log_start s) + int t + 1)"
    by (simp add: log_block_def)
  with lt show u: "uint (log_block t s) = uint (log_start s) + int t + 1"
    by (simp only: uint_word_of_int) (simp add: mod_pos_pos_trivial)
  with lt2 show a: "log_block t s \<in> log_area s" by (simp add: log_area_def)
  with assms(1) show "log_block t s \<notin> logged s" by (auto simp: log_ok_def)
  from u show "log_block t s \<noteq> log_start s" by auto
qed

lemma log_block_inj:
  assumes "log_ok s" and "t < nat (lh_n s)" and "u < nat (lh_n s)"
    and "log_block t s = log_block u s"
  shows "t = u"
proof -
  have "uint (log_start s) + int t + 1 = uint (log_start s) + int u + 1"
    by (rule trans [OF log_block_area(4) [OF assms(1,2), symmetric]])
      (simp only: assms(4) log_block_area(4) [OF assms(1,3)])
  then show ?thesis by simp
qed

lemma log_start_area: "log_ok s \<Longrightarrow> log_start s \<in> log_area s"
  by (auto simp: log_ok_def log_area_def)

text \<open>A phase runs between operations: no buffer is held, and the header is as the log says.\<close>

definition log_idle :: "'z lstate_scheme \<Rightarrow> bool" where
  "log_idle s \<longleftrightarrow> bc_inv s \<and> log_ok s \<and> lockset s = {} \<and> nat (lh_n s) < NBUF"

lemma log_ok_frame: "log_frame s s' \<Longrightarrow> pinset s' = pinset s \<Longrightarrow> log_ok s' \<longleftrightarrow> log_ok s"
  by (simp add: log_frame_def log_ok_def logged_def log_area_def)

lemma log_block_frame: "log_frame s s' \<Longrightarrow> log_block t s' = log_block t s"
  by (simp add: log_frame_def log_block_def)

lemma lh_block_logged: "t < nat (lh_n s) \<Longrightarrow> lh_block s t \<in> logged s"
  by (simp add: logged_def)

lemma write_log_one_runs:
  assumes idle: "log_idle s" and t: "t < nat (lh_n s)"
  defines "L \<equiv> log_block t s" and "D \<equiv> view s (lh_block s t)"
  shows "runs (write_log_one t s) (\<lambda>_ s'. log_idle s' \<and> log_frame s s' \<and> pinset s' = pinset s
    \<and> view s' = (view s)(L := D) \<and> disk s' = (disk s)(L := D) \<and> dtrace s' = dtrace s @ [(L, D)])"
proof -
  let ?b = "lh_block s t"
  from idle have inv: "bc_inv s" and ok: "log_ok s" and ls: "lockset s = {}" and n: "nat (lh_n s) < NBUF"
    by (simp_all add: log_idle_def)
  have dev: "log_dev s = ROOTDEV" and pin: "pinset s = logged s" using ok by (simp_all add: log_ok_def)
  have Lb: "L \<notin> pinset s" and bp: "?b \<in> pinset s"
    using log_block_area(2) [OF ok t] lh_block_logged [OF t] by (simp_all add: L_def pin)
  then have Lneq: "?b \<noteq> L" by auto
  have room: "card (lockset s \<union> pinset s) < NBUF"
    using card_logged [OF ok] n by (simp add: ls pin)
  obtain i s1 where e1: "bread ROOTDEV L s = Inr (i, s1)" and
    p1: "bc_inv s1" "held s1 i L" "view s1 = view s" "lockset s1 = {L}" "pinset s1 = pinset s"
      "disk s1 = disk s" "dtrace s1 = dtrace s" "log_frame s s1"
    by (rule runsE [OF bread_l [of s L]]) (use inv ls room in auto)
  obtain j s2 where e2: "bread ROOTDEV ?b s1 = Inr (j, s2)" and
    p2: "bc_inv s2" "held s2 j ?b" "view s2 = view s" "lockset s2 = {?b, L}" "pinset s2 = pinset s"
      "disk s2 = disk s" "dtrace s2 = dtrace s" "log_frame s1 s2" "held s2 i L" "i \<noteq> j"
    by (rule runsE [OF bread_l [of s1 ?b]]) (use p1 bp Lneq in auto)
  let ?s3 = "modify_data i (\<lambda>_. bdata j s2) s2"
  have bd: "bdata j s2 = D" using view_held [OF p2(1,2)] p2(3) by (simp add: D_def)
  note m = modify_data_runs [OF p2(1) p2(9), where f = "\<lambda>_. bdata j s2"]
  have p3: "bc_inv ?s3" "held ?s3 i L" "held ?s3 j ?b" "view ?s3 = (view s)(L := D)"
    "lockset ?s3 = {?b, L}" "pinset ?s3 = pinset s" "disk ?s3 = disk s" "dtrace ?s3 = dtrace s"
    using m(1-5,7,8) m(9) [OF p2(2)] p2 bd by simp_all
  have f3: "log_frame s2 ?s3" by (rule modify_data_l [OF p2(1) p2(9)])
  obtain u4 s4 where e4: "bwrite i ?s3 = Inr (u4, s4)" and
    p4: "bc_inv s4" "view s4 = (view s)(L := D)" "lockset s4 = {?b, L}" "pinset s4 = pinset s"
      "disk s4 = (disk s)(L := D)" "dtrace s4 = dtrace s @ [(L, D)]" "log_frame ?s3 s4"
      "held s4 i L" "held s4 j ?b"
    by (rule runsE [OF bwrite_l [OF p3(1,2)]]) (use p3 in auto)
  obtain u5 s5 where e5: "brelse j s4 = Inr (u5, s5)" and
    p5: "bc_inv s5" "view s5 = view s4" "lockset s5 = {L}" "pinset s5 = pinset s"
      "disk s5 = disk s4" "dtrace s5 = dtrace s4" "log_frame s4 s5" "held s5 i L"
    by (rule runsE [OF brelse_l [OF p4(1,9)]]) (use p4 bp p2(10) Lneq in auto)
  obtain u6 s6 where e6: "brelse i s5 = Inr (u6, s6)" and
    p6: "bc_inv s6" "view s6 = view s5" "lockset s6 = {}" "pinset s6 = pinset s"
      "disk s6 = disk s5" "dtrace s6 = dtrace s5" "log_frame s5 s6"
    by (rule runsE [OF brelse_l [OF p5(1,8)]]) (use p5 p4 in auto)
  have fr: "log_frame s s6"
    using p1(8) p2(8) f3 p4(7) p5(7) p6(7) by (blast intro: log_frame_trans)
  have "write_log_one t s = Inr (u6, s6)"
    using e1 e2 e4 e5 e6 p1(8) by (simp add: write_log_one_def dev L_def log_frame_def log_block_def)
  with p6 p5 p4 fr ok n log_ok_frame [OF fr] show ?thesis
    by (simp add: log_idle_def) (simp add: log_frame_def)
qed

text \<open>The effect of a sequence of block writes.\<close>

definition replay :: "(u32 \<Rightarrow> bytes) \<Rightarrow> (u32 \<times> bytes) list \<Rightarrow> (u32 \<Rightarrow> bytes)" where
  "replay d ws = foldl (\<lambda>d w. d(fst w := snd w)) d ws"

lemma replay_simps [simp]:
  "replay d [] = d" "replay d ((b, x) # ws) = replay (d(b := x)) ws"
  "replay d (ws @ vs) = replay (replay d ws) vs"
  by (simp_all add: replay_def)

lemma replay_notin: "b \<notin> fst ` set ws \<Longrightarrow> replay d ws b = d b"
  by (induction ws arbitrary: d) auto

lemma replay_in:
  "(b, x) \<in> set ws \<Longrightarrow> (\<And>y. (b, y) \<in> set ws \<Longrightarrow> y = x) \<Longrightarrow> replay d ws b = x"
proof (induction ws arbitrary: d)
  case Nil
  then show ?case by simp
next
  case (Cons w ws)
  obtain c y where w: "w = (c, y)" by fastforce
  show ?case
  proof (cases "(b, x) \<in> set ws")
    case True
    have "\<And>y. (b, y) \<in> set ws \<Longrightarrow> y = x" by (rule Cons.prems(2)) simp
    from Cons.IH [OF True this] show ?thesis by (simp add: w)
  next
    case False
    with Cons.prems(1) w have "c = b" "y = x" by auto
    moreover have "b \<notin> fst ` set ws"
    proof
      assume "b \<in> fst ` set ws"
      then obtain z where z: "(b, z) \<in> set ws" by fastforce
      then have "z = x" by (intro Cons.prems(2)) simp
      with z False show False by simp
    qed
    ultimately show ?thesis using w by (simp add: replay_notin)
  qed
qed

lemma write_log_loop_runs:
  assumes "log_idle s" and "set ts \<subseteq> {..<nat (lh_n s)}"
  defines "W \<equiv> map (\<lambda>t. (log_block t s, view s (lh_block s t))) ts"
  shows "runs (write_log_loop ts s) (\<lambda>_ s'. log_idle s' \<and> log_frame s s' \<and> pinset s' = pinset s
    \<and> view s' = replay (view s) W \<and> disk s' = replay (disk s) W \<and> dtrace s' = dtrace s @ W)"
  using assms(1,2) unfolding W_def
proof (induction ts arbitrary: s)
  case Nil
  then show ?case by simp
next
  case (Cons t ts)
  let ?L = "log_block t s" and ?D = "view s (lh_block s t)"
  have t: "t < nat (lh_n s)" using Cons.prems by simp
  have ok: "log_ok s" using Cons.prems by (simp add: log_idle_def)
  show ?case
    unfolding write_log_loop.simps
  proof (rule runs_andthen [OF write_log_one_runs [OF Cons.prems(1) t]], goal_cases)
    case (1 u s1)
    then have p: "log_idle s1" "log_frame s s1" "pinset s1 = pinset s" "view s1 = (view s)(?L := ?D)"
      "disk s1 = (disk s)(?L := ?D)" "dtrace s1 = dtrace s @ [(?L, ?D)]"
      by blast+
    have n1: "lh_n s1 = lh_n s" "lh_block s1 = lh_block s"
      using p(2) by (simp_all add: log_frame_def)
    have keep: "map (\<lambda>t. (log_block t s1, view s1 (lh_block s1 t))) ts
      = map (\<lambda>t. (log_block t s, view s (lh_block s t))) ts"
    proof (rule map_cong [OF refl])
      fix x
      assume "x \<in> set ts"
      then have "lh_block s x \<in> logged s" using Cons.prems(2) by (intro lh_block_logged) auto
      with log_block_area(2) [OF ok t] have "lh_block s x \<noteq> ?L" by auto
      then show "(log_block x s1, view s1 (lh_block s1 x)) = (log_block x s, view s (lh_block s x))"
        using p(4) n1 by (simp add: log_block_frame [OF p(2)])
    qed
    have "set ts \<subseteq> {..<nat (lh_n s1)}" using Cons.prems(2) n1 by simp
    from Cons.IH [OF p(1) this] show ?case
      unfolding keep unfolding p(3-6) by (rule runs_mono)
        (simp only: list.map replay_simps append.simps append_assoc simp_thms log_frame_trans [OF p(2)])
  qed
qed

lemma install_one_runs:
  fixes s :: "'z lstate_scheme" and t :: nat
  assumes inv: "bc_inv s" and ls: "lockset s = {}" and dev: "log_dev s = ROOTDEV"
  defines "L \<equiv> log_block t s" and "b \<equiv> lh_block s t"
  assumes neq: "L \<noteq> b" and L: "L \<notin> pinset s" and b: "recovering \<longleftrightarrow> b \<notin> pinset s"
    and room: "card (pinset s) < NBUF" and room2: "b \<in> pinset s \<or> card (insert L (pinset s)) < NBUF"
  shows "runs (install_one recovering t s) (\<lambda>_ s'. bc_inv s' \<and> log_frame s s' \<and> lockset s' = {}
    \<and> pinset s' = pinset s - {b} \<and> view s' = (view s)(b := view s L)
    \<and> disk s' = (disk s)(b := view s L) \<and> dtrace s' = dtrace s @ [(b, view s L)])"
proof -
  have cl: "view s L = disk s L" using unpinned_clean [OF inv] ls L by simp
  obtain i s1 where e1: "bread ROOTDEV L s = Inr (i, s1)" and
    p1: "bc_inv s1" "held s1 i L" "view s1 = view s" "lockset s1 = {L}" "pinset s1 = pinset s"
      "disk s1 = disk s" "dtrace s1 = dtrace s" "log_frame s s1"
    by (rule runsE [OF bread_l [of s L]]) (use inv ls room in auto)
  obtain j s2 where e2: "bread ROOTDEV b s1 = Inr (j, s2)" and
    p2: "bc_inv s2" "held s2 j b" "view s2 = view s" "lockset s2 = {b, L}" "pinset s2 = pinset s"
      "disk s2 = disk s" "dtrace s2 = dtrace s" "log_frame s1 s2" "held s2 i L" "i \<noteq> j"
    by (rule runsE [OF bread_l [of s1 b]]) (use p1 neq room2 in auto)
  let ?s3 = "modify_data j (\<lambda>_. bdata i s2) s2"
  have bd: "bdata i s2 = view s L" using view_held [OF p2(1,9)] p2(3) by simp
  note m = modify_data_runs [OF p2(1,2), where f = "\<lambda>_. bdata i s2"]
  have p3: "bc_inv ?s3" "held ?s3 j b" "held ?s3 i L" "view ?s3 = (view s)(b := view s L)"
    "lockset ?s3 = {b, L}" "pinset ?s3 = pinset s" "disk ?s3 = disk s" "dtrace ?s3 = dtrace s"
    using m(1-5,7,8) m(9) [OF p2(9)] p2 bd by simp_all
  have f3: "log_frame s2 ?s3" by (rule modify_data_l [OF p2(1,2)])
  obtain u4 s4 where e4: "bwrite j ?s3 = Inr (u4, s4)" and
    p4: "bc_inv s4" "view s4 = (view s)(b := view s L)" "lockset s4 = {b, L}" "pinset s4 = pinset s"
      "disk s4 = (disk s)(b := view s L)" "dtrace s4 = dtrace s @ [(b, view s L)]" "log_frame ?s3 s4"
      "held s4 i L" "held s4 j b"
    by (rule runsE [OF bwrite_l [OF p3(1,2)]]) (use p3 in auto)
  let ?s5 = "if recovering then s4 else bunpin j s4"
  have p5: "bc_inv ?s5" "view ?s5 = view s4" "lockset ?s5 = lockset s4" "pinset ?s5 = pinset s - {b}"
    "disk ?s5 = disk s4" "dtrace ?s5 = dtrace s4" "log_frame s4 ?s5" "held ?s5 i L" "held ?s5 j b"
    using bunpin_runs [OF p4(1,9)] bunpin_l [OF p4(1,9)] p4 b by auto
  obtain u6 s6 where e6: "brelse i ?s5 = Inr (u6, s6)" and
    p6: "bc_inv s6" "view s6 = view s4" "lockset s6 = {b}" "pinset s6 = pinset s - {b}"
      "disk s6 = disk s4" "dtrace s6 = dtrace s4" "log_frame ?s5 s6" "held s6 j b"
    by (rule runsE [OF brelse_l [OF p5(1,8)]]) (use p5 p4 p2(10) neq cl in auto)
  obtain u7 s7 where e7: "brelse j s6 = Inr (u7, s7)" and
    p7: "bc_inv s7" "view s7 = view s4" "lockset s7 = {}" "pinset s7 = pinset s - {b}"
      "disk s7 = disk s4" "dtrace s7 = dtrace s4" "log_frame s6 s7"
    by (rule runsE [OF brelse_l [OF p6(1,8)]]) (use p6 p4 in auto)
  have fr: "log_frame s s7"
    using p1(8) p2(8) f3 p4(7) p5(7) p6(7) p7(7) by (blast intro: log_frame_trans)
  have "install_one recovering t s = Inr (u7, s7)"
    using e1 e2 e4 e6 e7 p1(8)
    by (simp add: install_one_def dev L_def b_def log_frame_def log_block_def split: if_splits)
  with p7 p4 fr show ?thesis by simp
qed

lemma install_loop_runs:
  assumes "bc_inv s" and "lockset s = {}" and "log_dev s = ROOTDEV" and "distinct ts"
    and "inj_on (lh_block s) (set ts)" and "card (pinset s) < NBUF"
    and "\<And>t u. t \<in> set ts \<Longrightarrow> u \<in> set ts \<Longrightarrow> log_block t s \<noteq> lh_block s u"
    and "\<And>t. t \<in> set ts \<Longrightarrow> log_block t s \<notin> pinset s"
    and "if recovering then pinset s = {} else lh_block s ` set ts \<subseteq> pinset s"
  shows "runs (install_loop recovering ts s) (\<lambda>_ s'. bc_inv s' \<and> log_frame s s' \<and> lockset s' = {}
    \<and> pinset s' = pinset s - lh_block s ` set ts
    \<and> view s' = replay (view s) (map (\<lambda>t. (lh_block s t, view s (log_block t s))) ts)
    \<and> disk s' = replay (disk s) (map (\<lambda>t. (lh_block s t, view s (log_block t s))) ts)
    \<and> dtrace s' = dtrace s @ map (\<lambda>t. (lh_block s t, view s (log_block t s))) ts)"
  using assms
proof (induction ts arbitrary: s)
  case Nil
  then show ?case by simp
next
  case (Cons t ts)
  let ?L = "log_block t s" and ?b = "lh_block s t"
  have room2: "?b \<in> pinset s \<or> card (insert ?L (pinset s)) < NBUF"
    using Cons.prems(9) by (auto simp: NBUF_eq split: if_splits)
  have rec: "recovering \<longleftrightarrow> ?b \<notin> pinset s" using Cons.prems(9) by (auto split: if_splits)
  show ?case
    unfolding install_loop.simps
  proof (rule runs_andthen [OF install_one_runs [OF Cons.prems(1-3) _ _ rec Cons.prems(6) room2]], goal_cases)
    case 1
    then show ?case using Cons.prems(7) by simp
  next
    case 2
    then show ?case using Cons.prems(8) by simp
  next
    case (3 u s1)
    then have p: "bc_inv s1" "log_frame s s1" "lockset s1 = {}" "pinset s1 = pinset s - {?b}"
      "view s1 = (view s)(?b := view s ?L)" "disk s1 = (disk s)(?b := view s ?L)"
      "dtrace s1 = dtrace s @ [(?b, view s ?L)]"
      by blast+
    have fr: "log_dev s1 = log_dev s" "lh_block s1 = lh_block s" "log_block x s1 = log_block x s" for x
      using p(2) by (simp_all add: log_frame_def log_block_def)
    have keep: "map (\<lambda>x. (lh_block s1 x, view s1 (log_block x s1))) ts
      = map (\<lambda>x. (lh_block s x, view s (log_block x s))) ts"
      using Cons.prems(7) by (intro map_cong) (auto simp: fr p(5))
    have "lh_block s x \<noteq> ?b" if "x \<in> set ts" for x
      using Cons.prems(4,5) that by (auto simp: inj_on_def)
    then have pin1: "if recovering then pinset s1 = {} else lh_block s1 ` set ts \<subseteq> pinset s1"
      using Cons.prems(9) by (auto simp: p(4) fr split: if_splits)
    have c1: "card (pinset s1) < NBUF"
      using Cons.prems(6) card_Diff1_le [of "pinset s" ?b] by (simp add: p(4))
    have "runs (install_loop recovering ts s1) (\<lambda>_ s'. bc_inv s' \<and> log_frame s1 s' \<and> lockset s' = {}
      \<and> pinset s' = pinset s1 - lh_block s1 ` set ts
      \<and> view s' = replay (view s1) (map (\<lambda>x. (lh_block s1 x, view s1 (log_block x s1))) ts)
      \<and> disk s' = replay (disk s1) (map (\<lambda>x. (lh_block s1 x, view s1 (log_block x s1))) ts)
      \<and> dtrace s' = dtrace s1 @ map (\<lambda>x. (lh_block s1 x, view s1 (log_block x s1))) ts)"
    proof (rule Cons.IH [OF p(1,3) _ _ _ c1 _ _ pin1])
      show "log_dev s1 = ROOTDEV" using Cons.prems(3) fr(1) by simp
      show "distinct ts" using Cons.prems(4) by simp
      show "inj_on (lh_block s1) (set ts)" using Cons.prems(5) fr(2) by simp
      show "log_block x s1 \<noteq> lh_block s1 y" if "x \<in> set ts" "y \<in> set ts" for x y
        using Cons.prems(7) that fr by simp
      show "log_block x s1 \<notin> pinset s1" if "x \<in> set ts" for x
        using Cons.prems(8) that fr p(4) by simp
    qed
    then show ?case
      unfolding keep unfolding fr unfolding p(4-7) by (rule runs_mono)
        (simp only: list.map replay_simps append.simps append_assoc list.set image_insert
          Diff_insert2 [symmetric] simp_thms log_frame_trans [OF p(2)])
  qed
qed

text \<open>The header written to disk.\<close>

definition head_bytes :: "int \<Rightarrow> (nat \<Rightarrow> u32) \<Rightarrow> bytes \<Rightarrow> bytes" where
  "head_bytes n blk d = write_head_loop [0..<nat n] blk (st32 d 0 (word_of_int n))"

lemma ld32_write_head_loop_below:
  "(\<And>i. i \<in> set is \<Longrightarrow> a + 4 \<le> 4 + 4 * i) \<Longrightarrow> ld32 (write_head_loop is blk d) a = ld32 d a"
  by (induction "is" arbitrary: d) (auto simp: ld32_st32_other)

lemma ld32_write_head_loop:
  "distinct is \<Longrightarrow> i \<in> set is \<Longrightarrow> ld32 (write_head_loop is blk d) (4 + 4 * i) = blk i"
proof (induction "is" arbitrary: d)
  case Nil
  then show ?case by simp
next
  case (Cons j js)
  have other: "ld32 (write_head_loop ks blk d) (4 + 4 * i) = ld32 d (4 + 4 * i)" if "i \<notin> set ks" for ks d
    using that
  proof (induction ks arbitrary: d)
    case (Cons k ks)
    then show ?case
      by (cases "i < k") (auto simp: ld32_st32_other)
  qed simp
  show ?case
  proof (cases "i = j")
    case True
    with Cons.prems have "i \<notin> set js" by simp
    with True other [of js] show ?thesis by (simp add: ld32_st32)
  next
    case False
    with Cons show ?thesis by simp
  qed
qed

lemma hdr_head_bytes:
  assumes "0 \<le> n" and "n \<le> int LOGSIZE"
  shows "hdr_n (head_bytes n blk d) = n"
    and "i < nat n \<Longrightarrow> hdr_block (head_bytes n blk d) i = blk i"
proof -
  have "ld32 (head_bytes n blk d) 0 = word_of_int n"
    by (simp add: head_bytes_def ld32_write_head_loop_below ld32_st32)
  moreover have "sint (word_of_int n :: u32) = n"
    using assms by (simp add: LOGSIZE_eq sint_sbintrunc' signed_take_bit_int_eq_self)
  ultimately show "hdr_n (head_bytes n blk d) = n" by (simp add: hdr_n_def)
  show "i < nat n \<Longrightarrow> hdr_block (head_bytes n blk d) i = blk i"
    by (simp add: head_bytes_def hdr_block_def ld32_write_head_loop)
qed

lemma write_head_runs:
  assumes inv: "bc_inv s" and ls: "lockset s = {}" and dev: "log_dev s = ROOTDEV"
    and np: "log_start s \<notin> pinset s" and room: "card (pinset s) < NBUF"
  defines "H \<equiv> head_bytes (lh_n s) (lh_block s) (view s (log_start s))"
  shows "runs (write_head s) (\<lambda>_ s'. bc_inv s' \<and> log_frame s s' \<and> lockset s' = {}
    \<and> pinset s' = pinset s \<and> view s' = (view s)(log_start s := H)
    \<and> disk s' = (disk s)(log_start s := H) \<and> dtrace s' = dtrace s @ [(log_start s, H)])"
proof -
  let ?b = "log_start s"
  obtain i s1 where e1: "bread ROOTDEV ?b s = Inr (i, s1)" and
    p1: "bc_inv s1" "held s1 i ?b" "view s1 = view s" "lockset s1 = {?b}" "pinset s1 = pinset s"
      "disk s1 = disk s" "dtrace s1 = dtrace s" "log_frame s s1"
    by (rule runsE [OF bread_l [of s ?b]]) (use inv ls room in auto)
  let ?f = "\<lambda>d. st32 d 0 (word_of_int (lh_n s))" and ?g = "write_head_loop [0..<nat (lh_n s)] (lh_block s)"
  let ?s2 = "modify_data i ?f s1"
  let ?s3 = "modify_data i ?g ?s2"
  note m = modify_data_runs [OF p1(1,2), where f = ?f]
  note m' = modify_data_runs [OF m(1,2), where f = ?g]
  have p3: "bc_inv ?s3" "held ?s3 i ?b" "view ?s3 = (view s)(?b := H)" "lockset ?s3 = {?b}"
    "pinset ?s3 = pinset s" "disk ?s3 = disk s" "dtrace ?s3 = dtrace s"
    using m m' p1 by (simp_all add: H_def head_bytes_def)
  have f3: "log_frame s ?s3"
    using p1(8) modify_data_l [OF p1(1,2), of ?f] modify_data_l [OF m(1,2), of ?g]
    by (blast intro: log_frame_trans)
  obtain u4 s4 where e4: "bwrite i ?s3 = Inr (u4, s4)" and
    p4: "bc_inv s4" "view s4 = (view s)(?b := H)" "lockset s4 = {?b}" "pinset s4 = pinset s"
      "disk s4 = (disk s)(?b := H)" "dtrace s4 = dtrace s @ [(?b, H)]" "log_frame ?s3 s4" "held s4 i ?b"
    by (rule runsE [OF bwrite_l [OF p3(1,2)]]) (use p3 in auto)
  obtain u5 s5 where e5: "brelse i s4 = Inr (u5, s5)" and
    p5: "bc_inv s5" "view s5 = view s4" "lockset s5 = {}" "pinset s5 = pinset s"
      "disk s5 = disk s4" "dtrace s5 = dtrace s4" "log_frame s4 s5"
    by (rule runsE [OF brelse_l [OF p4(1,8)]]) (use p4 in auto)
  have fr: "log_frame s s5"
    using f3 p4(7) p5(7) by (blast intro: log_frame_trans)
  have "lh_n s1 = lh_n s" "lh_n ?s2 = lh_n s" "lh_block ?s2 = lh_block s"
    using p1(8) modify_data_l [OF p1(1,2), of ?f] by (simp_all add: log_frame_def)
  then have "write_head s = Inr (u5, s5)"
    using e1 e4 e5 by (simp add: write_head_def dev Let_def)
  with p5 p4 fr show ?thesis by simp
qed

text \<open>The block writes of a commit: log slots, header, home blocks, cleared header.\<close>

definition slot_writes :: "'z lstate_scheme \<Rightarrow> (u32 \<times> bytes) list" where
  "slot_writes s = map (\<lambda>t. (log_block t s, view s (lh_block s t))) [0..<nat (lh_n s)]"

definition home_writes :: "'z lstate_scheme \<Rightarrow> (u32 \<times> bytes) list" where
  "home_writes s = map (\<lambda>t. (lh_block s t, view s (lh_block s t))) [0..<nat (lh_n s)]"

definition full_head :: "'z lstate_scheme \<Rightarrow> bytes" where
  "full_head s = head_bytes (lh_n s) (lh_block s) (view s (log_start s))"

definition commit_writes :: "'z lstate_scheme \<Rightarrow> (u32 \<times> bytes) list" where
  "commit_writes s = slot_writes s @ [(log_start s, full_head s)] @ home_writes s
     @ [(log_start s, head_bytes 0 (lh_block s) (full_head s))]"

lemma slot_writes_at:
  assumes "log_ok s" and "t < nat (lh_n s)"
  shows "replay d (slot_writes s) (log_block t s) = view s (lh_block s t)"
  by (rule replay_in)
    (use assms in \<open>auto simp: slot_writes_def dest!: log_block_inj [OF assms(1,2)]\<close>)

lemma slot_writes_out:
  "log_ok s \<Longrightarrow> b \<notin> log_area s \<or> b = log_start s \<Longrightarrow> replay d (slot_writes s) b = d b"
  using log_block_area(1,3) [of s]
  by (intro replay_notin) (fastforce simp: slot_writes_def)

lemma home_writes_at:
  assumes "t < nat (lh_n s)"
  shows "replay d (home_writes s) (lh_block s t) = view s (lh_block s t)"
  by (rule replay_in) (use assms in \<open>auto simp: home_writes_def\<close>)

lemma home_writes_out: "b \<notin> logged s \<Longrightarrow> replay d (home_writes s) b = d b"
  by (intro replay_notin) (auto simp: home_writes_def logged_def)

text \<open>
  A commit writes exactly these blocks, in this order, and leaves an empty log behind.
\<close>

lemma commit_runs:
  assumes idle: "log_idle s" and n: "0 < lh_n s"
  shows "runs (commit s) (\<lambda>_ s'. bc_inv s' \<and> lockset s' = {} \<and> pinset s' = {}
    \<and> log_frame (s\<lparr>lh_n := 0\<rparr>) s' \<and> view s' = replay (view s) (commit_writes s)
    \<and> disk s' = replay (disk s) (commit_writes s) \<and> dtrace s' = dtrace s @ commit_writes s)"
proof -
  have ok: "log_ok s" and dev: "log_dev s = ROOTDEV" and pin: "pinset s = logged s"
    and room: "card (logged s) < NBUF"
    using idle card_logged [of s] by (auto simp: log_idle_def log_ok_def)
  have st: "log_start s \<notin> logged s" using ok log_start_area [OF ok] by (auto simp: log_ok_def)
  obtain u1 s1 where e1: "write_log s = Inr (u1, s1)" and
    p1: "log_idle s1" "log_frame s s1" "pinset s1 = logged s" "view s1 = replay (view s) (slot_writes s)"
      "disk s1 = replay (disk s) (slot_writes s)" "dtrace s1 = dtrace s @ slot_writes s"
    unfolding write_log_def slot_writes_def pin [symmetric]
    by (rule runsE [OF write_log_loop_runs [OF idle]]) auto
  have f1: "log_dev s1 = ROOTDEV" "log_start s1 = log_start s" "lh_n s1 = lh_n s" "lh_block s1 = lh_block s"
    using p1(2) dev by (simp_all add: log_frame_def)
  have v1: "view s1 (log_start s1) = view s (log_start s)"
    by (simp add: p1(4) f1 slot_writes_out [OF ok])
  obtain u2 s2 where e2: "write_head s1 = Inr (u2, s2)" and
    p2: "bc_inv s2" "log_frame s1 s2" "lockset s2 = {}" "pinset s2 = logged s"
      "view s2 = (view s1)(log_start s := full_head s)" "disk s2 = (disk s1)(log_start s := full_head s)"
      "dtrace s2 = dtrace s1 @ [(log_start s, full_head s)]"
    by (rule runsE [OF write_head_runs [of s1]])
      (use p1 f1 v1 st room in \<open>auto simp: log_idle_def full_head_def\<close>)
  have fr2: "log_frame s s2" using p1(2) p2(2) by (rule log_frame_trans)
  have f2: "log_dev s2 = ROOTDEV" "log_start s2 = log_start s" "lh_n s2 = lh_n s" "lh_block s2 = lh_block s"
    using fr2 dev by (simp_all add: log_frame_def)
  let ?ts = "[0..<nat (lh_n s)]"
  have home: "map (\<lambda>t. (lh_block s2 t, view s2 (log_block t s2))) ?ts = home_writes s"
    unfolding home_writes_def
  proof (rule map_cong [OF refl])
    fix t
    assume "t \<in> set ?ts"
    then have "t < nat (lh_n s)" by simp
    then show "(lh_block s2 t, view s2 (log_block t s2)) = (lh_block s t, view s (lh_block s t))"
      using log_block_area(3) [OF ok] slot_writes_at [OF ok]
      by (simp add: p2(5) p1(4) f2 log_block_frame [OF fr2])
  qed
  have ne: "log_block t s \<noteq> lh_block s u" if "t < nat (lh_n s)" "u < nat (lh_n s)" for t u
    using log_block_area(2) [OF ok that(1)] lh_block_logged [OF that(2)] by auto
  have il: "runs (install_loop False ?ts s2) (\<lambda>_ s'. bc_inv s' \<and> log_frame s2 s' \<and> lockset s' = {}
      \<and> pinset s' = pinset s2 - lh_block s2 ` set ?ts \<and> view s' = replay (view s2) (home_writes s)
      \<and> disk s' = replay (disk s2) (home_writes s) \<and> dtrace s' = dtrace s2 @ home_writes s)"
    unfolding home [symmetric]
    by (rule install_loop_runs)
      (use p2 f2 room ok ne log_block_area(2) [OF ok] lh_block_logged [of _ s] in
        \<open>auto simp: log_ok_def log_block_frame [OF fr2] atLeast0LessThan\<close>)
  obtain u3 s3 where e3: "install_loop False ?ts s2 = Inr (u3, s3)" and
    p3: "bc_inv s3" "log_frame s2 s3" "lockset s3 = {}" "pinset s3 = logged s - lh_block s ` set ?ts"
      "view s3 = replay (view s2) (home_writes s)" "disk s3 = replay (disk s2) (home_writes s)"
      "dtrace s3 = dtrace s2 @ home_writes s"
    by (rule runsE [OF il]) (use p2(4) f2(4) in auto)
  have f3: "log_dev s3 = ROOTDEV" "log_start s3 = log_start s" "lh_block s3 = lh_block s" "lh_n s3 = lh_n s"
    using p3(2) f2 by (simp_all add: log_frame_def)
  have pin3: "pinset s3 = {}" by (auto simp: p3(4) logged_def)
  have v3: "view s3 (log_start s) = full_head s"
    by (simp add: p3(5) home_writes_out [OF st] p2(5))
  let ?s3 = "s3\<lparr>lh_n := 0\<rparr>"
  obtain u4 s4 where e4: "write_head ?s3 = Inr (u4, s4)" and
    p4: "bc_inv s4" "log_frame ?s3 s4" "lockset s4 = {}" "pinset s4 = {}"
      "view s4 = (view s3)(log_start s := head_bytes 0 (lh_block s) (full_head s))"
      "disk s4 = (disk s3)(log_start s := head_bytes 0 (lh_block s) (full_head s))"
      "dtrace s4 = dtrace s3 @ [(log_start s, head_bytes 0 (lh_block s) (full_head s))]"
    by (rule runsE [OF write_head_runs [of ?s3]])
      (use p3 f3 v3 pin3 in \<open>auto simp: NBUF_eq\<close>)
  have "commit s = Inr (u4, s4)"
    using n e1 e2 e3 e4 f2(3) by (simp add: commit_def install_trans_def)
  moreover have "log_frame (s\<lparr>lh_n := 0\<rparr>) s4"
    using fr2 p3(2) p4(2) by (simp add: log_frame_def)
  ultimately show ?thesis
    using p4 p3 p2 p1 by (simp add: commit_writes_def)
qed

section \<open>Recovery\<close>

lemma read_head_loop_at:
  "distinct is \<Longrightarrow> i \<in> set is \<Longrightarrow> read_head_loop is d blk i = hdr_block d i"
proof (induction "is" arbitrary: blk)
  case Nil
  then show ?case by simp
next
  case (Cons j js)
  have other: "read_head_loop ks d blk i = blk i" if "i \<notin> set ks" for ks blk
    using that by (induction ks arbitrary: blk) auto
  show ?case using Cons other [of js] by (cases "i = j") auto
qed

text \<open>The state of the kernel after a reboot: the cache is empty, only the disk survives.\<close>

definition booted :: "'z lstate_scheme \<Rightarrow> bool" where
  "booted r \<longleftrightarrow> bc_inv r \<and> lockset r = {} \<and> pinset r = {} \<and> log_dev r = ROOTDEV"

lemma booted_view: "booted r \<Longrightarrow> view r = disk r"
  by (rule ext) (simp add: booted_def unpinned_clean)

text \<open>A header whose blocks can be installed.\<close>

definition good_head :: "'z lstate_scheme \<Rightarrow> bool" where
  "good_head r \<longleftrightarrow> (let hd = disk r (log_start r); n = nat (hdr_n hd) in
     hdr_n hd \<le> int LOGSIZE \<and> inj_on (hdr_block hd) {..<n} \<and>
     (\<forall>t<n. \<forall>u<n. log_block t r \<noteq> hdr_block hd u))"

definition recovered :: "'z lstate_scheme \<Rightarrow> (u32 \<Rightarrow> bytes)" where
  "recovered r = (let hd = disk r (log_start r) in
     replay (disk r) (map (\<lambda>t. (hdr_block hd t, disk r (log_block t r))) [0..<nat (hdr_n hd)]))"

lemma read_head_runs:
  assumes b: "booted r" and n: "hdr_n (disk r (log_start r)) \<le> int LOGSIZE"
  shows "runs (read_head r) (\<lambda>_ r'. booted r' \<and> disk r' = disk r \<and> dtrace r' = dtrace r
    \<and> log_start r' = log_start r \<and> lh_n r' = hdr_n (disk r (log_start r))
    \<and> (\<forall>i<nat (lh_n r'). lh_block r' i = hdr_block (disk r (log_start r)) i))"
proof -
  let ?b = "log_start r" and ?d = "disk r (log_start r)"
  have dev: "log_dev r = ROOTDEV" using b by (simp add: booted_def)
  obtain i s1 where e1: "bread ROOTDEV ?b r = Inr (i, s1)" and
    p1: "bc_inv s1" "held s1 i ?b" "view s1 = view r" "lockset s1 = {?b}" "pinset s1 = {}"
      "disk s1 = disk r" "dtrace s1 = dtrace r" "log_frame r s1"
    by (rule runsE [OF bread_l [of r ?b]]) (use b in \<open>auto simp: booted_def NBUF_eq\<close>)
  have d: "bdata i s1 = ?d" using view_held [OF p1(1,2)] p1(3) booted_view [OF b] by simp
  let ?n = "hdr_n ?d"
  let ?s2 = "s1\<lparr>lh_n := ?n, lh_block := read_head_loop [0..<nat ?n] ?d (lh_block s1)\<rparr>"
  obtain u3 s3 where e3: "brelse i ?s2 = Inr (u3, s3)" and
    p3: "bc_inv s3" "lockset s3 = {}" "pinset s3 = {}" "disk s3 = disk r" "dtrace s3 = dtrace r"
      "log_frame ?s2 s3"
    by (rule runsE [OF brelse_l [of ?s2 i ?b]]) (use p1 booted_view [OF b] in auto)
  have "read_head r = Inr (u3, s3)"
    using e1 e3 d n by (simp add: read_head_def dev Let_def)
  with p3 p1(8) dev show ?thesis
    by (auto simp: booted_def log_frame_def read_head_loop_at)
qed

lemma recover_runs:
  assumes b: "booted r" and g: "good_head r"
  shows "runs (recover_from_log r) (\<lambda>_ r'. bc_inv r' \<and> lockset r' = {} \<and> pinset r' = {} \<and> lh_n r' = 0
    \<and> (\<forall>b. b \<noteq> log_start r \<longrightarrow> disk r' b = recovered r b))"
proof -
  let ?hd = "disk r (log_start r)"
  let ?n = "nat (hdr_n ?hd)"
  from g have n: "hdr_n ?hd \<le> int LOGSIZE" and inj: "inj_on (hdr_block ?hd) {..<?n}"
    and ne: "\<And>t u. t < ?n \<Longrightarrow> u < ?n \<Longrightarrow> log_block t r \<noteq> hdr_block ?hd u"
    by (auto simp: good_head_def Let_def)
  obtain u1 s1 where e1: "read_head r = Inr (u1, s1)" and
    p1: "booted s1" "disk s1 = disk r" "log_start s1 = log_start r" "lh_n s1 = hdr_n ?hd"
      "\<And>i. i < ?n \<Longrightarrow> lh_block s1 i = hdr_block ?hd i"
    by (rule runsE [OF read_head_runs [OF b n]]) auto
  have lb: "log_block t s1 = log_block t r" for t by (simp add: log_block_def p1(3))
  have home: "map (\<lambda>t. (lh_block s1 t, view s1 (log_block t s1))) [0..<?n]
    = map (\<lambda>t. (hdr_block ?hd t, disk r (log_block t r))) [0..<?n]"
    using p1(5) by (intro map_cong) (auto simp: lb booted_view [OF p1(1)] p1(2))
  have "inj_on (lh_block s1) {0..<?n}"
    using inj p1(5) by (simp add: inj_on_def)
  then have il: "runs (install_loop True [0..<?n] s1) (\<lambda>_ s'. bc_inv s' \<and> log_frame s1 s' \<and> lockset s' = {}
      \<and> pinset s' = pinset s1 - lh_block s1 ` set [0..<?n]
      \<and> view s' = replay (view s1) (map (\<lambda>t. (hdr_block ?hd t, disk r (log_block t r))) [0..<?n])
      \<and> disk s' = replay (disk s1) (map (\<lambda>t. (hdr_block ?hd t, disk r (log_block t r))) [0..<?n])
      \<and> dtrace s' = dtrace s1 @ map (\<lambda>t. (hdr_block ?hd t, disk r (log_block t r))) [0..<?n])"
    unfolding home [symmetric]
    by (intro install_loop_runs) (use p1(1,5) ne in \<open>auto simp: booted_def lb NBUF_eq\<close>)
  obtain u2 s2 where e2: "install_loop True [0..<?n] s1 = Inr (u2, s2)" and
    p2: "bc_inv s2" "log_frame s1 s2" "lockset s2 = {}" "pinset s2 = {}" "disk s2 = recovered r"
    by (rule runsE [OF il]) (use p1(1,2) in \<open>auto simp: booted_def recovered_def Let_def\<close>)
  have f2: "log_start s2 = log_start r" "log_dev s2 = ROOTDEV"
    using p2(2) p1(1,3) by (simp_all add: log_frame_def booted_def)
  let ?s2 = "s2\<lparr>lh_n := 0\<rparr>"
  obtain u3 s3 where e3: "write_head ?s2 = Inr (u3, s3)" and
    p3: "bc_inv s3" "log_frame ?s2 s3" "lockset s3 = {}" "pinset s3 = {}"
      "disk s3 = (disk s2)(log_start r := head_bytes 0 (lh_block s2) (view s2 (log_start r)))"
    by (rule runsE [OF write_head_runs [of ?s2]]) (use p2 f2 in \<open>auto simp: NBUF_eq\<close>)
  have "recover_from_log r = Inr (u3, s3)"
    using e1 e2 e3 p1(4) by (simp add: recover_from_log_def install_trans_def)
  with p3 p2(5) show ?thesis by (simp add: log_frame_def)
qed

end
