(* ===== verification/Crash.thy ===== *)
theory Crash
  imports Log
begin

text \<open>
  What the log promises its clients: a crash between any two disk writes of a commit loses
  the transaction or keeps it, and nothing else; \<open>log_write\<close> adds a block to the transaction
  at most once and only fails by the panics of the code; \<open>begin_op\<close> and \<open>end_op\<close> keep the
  reservation of log space.
\<close>

section \<open>Crashes during a commit\<close>

lemma recovered_empty:
  "hdr_n (disk r (log_start r)) \<le> 0 \<Longrightarrow> good_head r \<and> recovered r = disk r"
  by (simp add: good_head_def recovered_def Let_def LOGSIZE_eq)

lemma log_block_start: "log_start r = log_start s \<Longrightarrow> log_block t r = log_block t s"
  by (simp add: log_block_def)

lemma slot_writes_length [simp]: "length (slot_writes s) = nat (lh_n s)"
  by (simp add: slot_writes_def)

lemma home_writes_length [simp]: "length (home_writes s) = nat (lh_n s)"
  by (simp add: home_writes_def)

lemma commit_writes_length: "length (commit_writes s) = 2 * nat (lh_n s) + 2"
  by (simp add: commit_writes_def)

lemma take_slot_writes_out:
  assumes "log_ok s" and "b \<notin> log_area s \<or> b = log_start s"
  shows "replay d (take k (slot_writes s)) b = d b"
proof (rule replay_notin)
  have "b \<notin> fst ` set (slot_writes s)"
    using assms log_block_area(1,3) [OF assms(1)] by (fastforce simp: slot_writes_def)
  then show "b \<notin> fst ` set (take k (slot_writes s))"
    by (meson image_mono set_take_subset subsetD)
qed

lemma take_home_writes_out:
  assumes "b \<notin> logged s"
  shows "replay d (take k (home_writes s)) b = d b"
proof (rule replay_notin)
  have "b \<notin> fst ` set (home_writes s)" using assms by (auto simp: home_writes_def logged_def)
  then show "b \<notin> fst ` set (take k (home_writes s))"
    by (meson image_mono set_take_subset subsetD)
qed

lemma unlogged_clean: "log_idle s \<Longrightarrow> b \<notin> logged s \<Longrightarrow> view s b = disk s b"
  by (rule unpinned_clean) (auto simp: log_idle_def log_ok_def)

lemma full_head_read:
  assumes "log_ok s"
  shows "hdr_n (full_head s) = lh_n s"
    and "i < nat (lh_n s) \<Longrightarrow> hdr_block (full_head s) i = lh_block s i"
    and "hdr_n (head_bytes 0 (lh_block s) (full_head s)) = 0"
  using assms hdr_head_bytes [of "lh_n s"] hdr_head_bytes(1) [of 0]
  by (simp_all add: log_ok_def full_head_def)

text \<open>Before the header is written, recovery finds an empty log.\<close>

lemma crash_before_head:
  assumes idle: "log_idle s" and clean: "hdr_n (disk s (log_start s)) \<le> 0"
    and st: "log_start r = log_start s"
    and d: "disk r = replay (disk s) (take k (slot_writes s))"
  shows "good_head r" and "b \<notin> log_area s \<Longrightarrow> recovered r b = disk s b"
proof -
  have ok: "log_ok s" using idle by (simp add: log_idle_def)
  have "disk r (log_start r) = disk s (log_start s)"
    by (simp add: st d take_slot_writes_out [OF ok])
  with clean have "good_head r \<and> recovered r = disk r" by (intro recovered_empty) simp
  then show "good_head r" and "b \<notin> log_area s \<Longrightarrow> recovered r b = disk s b"
    by (simp_all add: d take_slot_writes_out [OF ok])
qed

text \<open>With the header on disk, recovery installs the whole transaction.\<close>

lemma crash_after_head:
  assumes idle: "log_idle s" and st: "log_start r = log_start s"
    and d: "disk r = replay ((replay (disk s) (slot_writes s))(log_start s := full_head s))
      (take j (home_writes s))"
  shows "good_head r" and "b \<notin> log_area s \<Longrightarrow> recovered r b = view s b"
proof -
  have ok: "log_ok s" using idle by (simp add: log_idle_def)
  have area: "c \<in> log_area s \<Longrightarrow> c \<notin> logged s" for c using ok by (auto simp: log_ok_def)
  have hd: "disk r (log_start r) = full_head s"
    by (simp add: st d take_home_writes_out [OF area [OF log_start_area [OF ok]]])
  note fh = full_head_read [OF ok]
  have slot: "disk r (log_block t r) = view s (lh_block s t)" if "t < nat (lh_n s)" for t
    by (simp add: log_block_start [OF st] d take_home_writes_out [OF log_block_area(2) [OF ok that]]
        log_block_area(3) [OF ok that] slot_writes_at [OF ok that])
  have ne: "log_block t s \<noteq> lh_block s u" if "t < nat (lh_n s)" "u < nat (lh_n s)" for t u
    using log_block_area(2) [OF ok that(1)] lh_block_logged [OF that(2)] by auto
  have "inj_on (hdr_block (full_head s)) {..<nat (lh_n s)}"
    using ok fh(2) by (simp add: log_ok_def inj_on_def)
  then show "good_head r"
    using ok fh(1,2) ne by (auto simp: good_head_def Let_def hd log_ok_def log_block_start [OF st])
  have "map (\<lambda>t. (hdr_block (full_head s) t, disk r (log_block t r))) [0..<nat (lh_n s)] = home_writes s"
    unfolding home_writes_def by (rule map_cong) (simp_all add: fh(2) slot)
  then have rec: "recovered r = replay (disk r) (home_writes s)"
    by (simp add: recovered_def Let_def hd fh(1))
  show "recovered r b = view s b" if b: "b \<notin> log_area s"
  proof (cases "b \<in> logged s")
    case True
    then show ?thesis by (auto simp: rec logged_def home_writes_at)
  next
    case False
    moreover have "b \<noteq> log_start s" using b log_start_area [OF ok] by auto
    ultimately show ?thesis
      using b unlogged_clean [OF idle]
      by (simp add: rec home_writes_out d take_home_writes_out slot_writes_out [OF ok])
  qed
qed

text \<open>After the header is cleared, there is nothing left to install.\<close>

lemma crash_after_clear:
  assumes idle: "log_idle s" and st: "log_start r = log_start s"
    and d: "disk r = replay (disk s) (commit_writes s)"
  shows "good_head r" and "b \<notin> log_area s \<Longrightarrow> recovered r b = view s b"
proof -
  have ok: "log_ok s" using idle by (simp add: log_idle_def)
  have "hdr_n (disk r (log_start r)) \<le> 0"
    by (simp add: st d commit_writes_def full_head_read(3) [OF ok])
  then have r: "good_head r \<and> recovered r = disk r" by (rule recovered_empty)
  then show "good_head r" by simp
  show "recovered r b = view s b" if b: "b \<notin> log_area s"
  proof -
    have "b \<noteq> log_start s" using b log_start_area [OF ok] by auto
    then show ?thesis
      using r b unlogged_clean [OF idle]
      by (cases "b \<in> logged s")
        (auto simp: d commit_writes_def home_writes_out slot_writes_out [OF ok] logged_def home_writes_at)
  qed
qed

lemma crash_recovered:
  assumes idle: "log_idle s" and clean: "hdr_n (disk s (log_start s)) \<le> 0"
    and k: "k \<le> length (commit_writes s)" and st: "log_start r = log_start s"
    and d: "disk r = replay (disk s) (take k (commit_writes s))"
  shows "good_head r \<and> (\<forall>b. b \<notin> log_area s \<longrightarrow>
    recovered r b = (if k \<le> nat (lh_n s) then disk s b else view s b))"
proof -
  let ?n = "nat (lh_n s)"
  consider "k \<le> ?n" | "?n < k" "k \<le> 2 * ?n + 1" | "k = 2 * ?n + 2"
    using k by (force simp: commit_writes_length)
  then show ?thesis
  proof cases
    case 1
    then have "take k (commit_writes s) = take k (slot_writes s)" by (simp add: commit_writes_def)
    with 1 d crash_before_head [OF idle clean st] show ?thesis by simp
  next
    case 2
    then obtain j where j: "k = Suc (?n + j)" by (auto dest!: less_imp_Suc_add)
    with 2 have "j \<le> ?n" by simp
    with j have "take k (commit_writes s)
      = slot_writes s @ (log_start s, full_head s) # take j (home_writes s)"
      by (simp add: commit_writes_def)
    with 2 d crash_after_head [OF idle st, of j] show ?thesis by simp
  next
    case 3
    then have "take k (commit_writes s) = commit_writes s" by (simp add: commit_writes_length)
    with 3 d crash_after_clear [OF idle st] show ?thesis by simp
  qed
qed

section \<open>Recording a block\<close>

text \<open>\<open>log_write\<close> records the block of a held buffer, and only once.\<close>

lemma log_write_runs:
  assumes inv: "bc_inv s" and ok: "log_ok s" and h: "held s i b" and out: "b \<notin> log_area s"
    and room: "lh_n s < int LOGSIZE" "lh_n s < log_size s - 1" and op: "1 \<le> log_outstanding s"
  shows "runs (log_write i s) (\<lambda>_ s'. bc_inv s' \<and> log_ok s' \<and> view s' = view s \<and> disk s' = disk s
    \<and> dtrace s' = dtrace s \<and> lockset s' = lockset s \<and> pinset s' = insert b (pinset s)
    \<and> logged s' = insert b (logged s) \<and> lh_n s' = lh_n s + of_bool (b \<notin> logged s)
    \<and> log_area s' = log_area s \<and> log_outstanding s' = log_outstanding s
    \<and> (\<forall>j c. held s j c \<longrightarrow> held s' j c))"
proof -
  let ?n = "nat (lh_n s)"
  have b: "b_blockno (bufs s i) = b" using held_caches [OF h] by (simp add: caches_def)
  have pin: "pinset s = logged s" using ok by (simp add: log_ok_def)
  show ?thesis
  proof (cases "b \<in> logged s")
    case True
    then obtain t where t: "first_index (\<lambda>i. lh_block s i = b) ?n = Some t"
      using first_index_Some_ex [of _ ?n "\<lambda>i. lh_block s i = b"] by (auto simp: logged_def)
    then have "t < ?n" and "lh_block s t = b" by (blast dest: first_index_SomeD)+
    then have "(lh_block s)(t := b) = lh_block s" by (simp add: fun_upd_idem)
    with t \<open>t < ?n\<close> have "log_write i s = Inr ((), s)"
      using room op by (simp add: log_write_def b Let_def)
    with True inv ok pin show ?thesis by (simp add: insert_absorb)
  next
    case False
    let ?s1 = "s\<lparr>lh_block := (lh_block s)(?n := b)\<rparr>"
    let ?s' = "(bpin i ?s1)\<lparr>lh_n := lh_n s + 1\<rparr>"
    have "first_index (\<lambda>i. lh_block s i = b) ?n = None"
      using False by (auto simp: first_index_None_iff logged_def)
    then have e: "log_write i s = Inr ((), ?s')"
      using room op by (simp add: log_write_def b Let_def bpin_def)
    have np: "b \<notin> pinset ?s1" using False pin by simp
    have inv1: "bc_inv ?s1" and h1: "held ?s1 i b" using inv h by simp_all
    note bp = bpin_runs [OF inv1 h1 np]
    have n0: "0 \<le> lh_n s" and inj: "inj_on (lh_block s) {..<?n}" using ok by (simp_all add: log_ok_def)
    have n': "nat (lh_n s + 1) = Suc ?n" using n0 by simp
    have lb: "lh_block ?s' = (lh_block s)(?n := b)" by (simp add: bpin_def)
    have lg: "logged ?s' = insert b (logged s)"
      by (auto simp: logged_def n' lb lessThan_Suc)
    have inj': "inj_on (lh_block ?s') {..<nat (lh_n ?s')}"
      using inj False by (auto simp: n' lb lessThan_Suc logged_def inj_on_def)
    have area: "log_area ?s' = log_area s" by (simp add: log_area_def bpin_def)
    have pin': "pinset ?s' = insert b (logged s)" using bp(4) pin by simp
    have "log_ok ?s'"
      unfolding log_ok_def area lg pin' using inj' ok out room
      by (simp add: log_ok_def bpin_def)
    then show ?thesis
      using e bp lg area pin pin' False by (simp add: bpin_def)
  qed
qed

section \<open>Reservation of log space\<close>

text \<open>The cache operations do not touch the fields of the log, whatever the state.\<close>

lemma bget_log: "bget dev b s = Inr (i, s') \<Longrightarrow> log_frame s s'"
  by (auto simp: bget_def lock_buf_def acquiresleep_def log_frame_def andthen_Inr_iff
      split: option.splits if_splits)

lemma bread_log: "bread dev b s = Inr (i, s') \<Longrightarrow> log_frame s s'"
  unfolding bread_def andthen_Inr_iff
  by (auto dest!: bget_log simp: log_frame_def disk_read_def modify_data_def split: if_splits)

lemma bwrite_log: "bwrite b s = Inr (u, s') \<Longrightarrow> log_frame s s'"
  by (auto simp: bwrite_def disk_write_def log_frame_def split: if_splits)

lemma brelse_log: "brelse b s = Inr (u, s') \<Longrightarrow> log_frame s s'"
  by (auto simp: brelse_def unlock_buf_def releasesleep_def log_frame_def Let_def split: if_splits)

lemma write_head_log: "write_head s = Inr (u, s') \<Longrightarrow> log_frame s s'"
  unfolding write_head_def andthen_Inr_iff Let_def
  by (auto dest!: bread_log bwrite_log brelse_log simp: log_frame_def modify_data_def)

lemma write_log_one_log: "write_log_one t s = Inr (u, s') \<Longrightarrow> log_frame s s'"
  unfolding write_log_one_def andthen_Inr_iff
  by (auto dest!: bread_log bwrite_log brelse_log simp: log_frame_def modify_data_def)

lemma write_log_loop_log: "write_log_loop ts s = Inr (u, s') \<Longrightarrow> log_frame s s'"
  by (induction ts arbitrary: s)
    (auto simp: andthen_Inr_iff dest!: write_log_one_log intro: log_frame_trans)

lemma install_one_log: "install_one rec t s = Inr (u, s') \<Longrightarrow> log_frame s s'"
  unfolding install_one_def andthen_Inr_iff
  by (auto dest!: bread_log bwrite_log brelse_log simp: log_frame_def modify_data_def bunpin_def
      split: if_splits)

lemma install_loop_log: "install_loop rec ts s = Inr (u, s') \<Longrightarrow> log_frame s s'"
  by (induction ts arbitrary: s)
    (auto simp: andthen_Inr_iff dest!: install_one_log intro: log_frame_trans)

lemma commit_log:
  assumes "commit s = Inr (u, s')"
  shows "log_outstanding s' = log_outstanding s \<and> log_size s' = log_size s \<and> lh_n s' = min 0 (lh_n s)"
proof (cases "0 < lh_n s")
  case True
  with assms obtain s1 s2 s3 where "write_log s = Inr ((), s1)" "write_head s1 = Inr ((), s2)"
    "install_trans False s2 = Inr ((), s3)" "write_head (s3\<lparr>lh_n := 0\<rparr>) = Inr (u, s')"
    by (auto simp: commit_def andthen_Inr_iff)
  then have "log_frame s s1" "log_frame s1 s2" "log_frame s2 s3" "log_frame (s3\<lparr>lh_n := 0\<rparr>) s'"
    unfolding write_log_def install_trans_def
    by (blast intro: write_log_loop_log write_head_log install_loop_log)+
  with True show ?thesis by (simp add: log_frame_def)
next
  case False
  with assms show ?thesis by (simp add: commit_def)
qed

text \<open>
  System calls interleave their transactions: \<open>w\<close> gives each process between \<open>begin_op\<close> and
  \<open>end_op\<close> the number of blocks it may still write, at most \<open>MAXOPBLOCKS\<close> in all. Between
  those calls anything may happen that leaves the fields of the log alone.
\<close>

inductive txn_step ::
  "(nat \<rightharpoonup> nat) \<Rightarrow> 'z lstate_scheme \<Rightarrow> (nat \<rightharpoonup> nat) \<Rightarrow> 'z lstate_scheme \<Rightarrow> bool" where
  txn_begin: "w p = None \<Longrightarrow> begin_op s = Inr ((), s') \<Longrightarrow> txn_step w s (w(p \<mapsto> MAXOPBLOCKS)) s'"
| txn_write: "w p = Some (Suc k) \<Longrightarrow> log_write b s = Inr ((), s') \<Longrightarrow> txn_step w s (w(p \<mapsto> k)) s'"
| txn_end: "w p = Some k \<Longrightarrow> end_op s = Inr ((), s') \<Longrightarrow> txn_step w s (w(p := None)) s'"
| txn_other: "log_frame s s' \<Longrightarrow> txn_step w s w s'"

inductive txn_reach :: "(nat \<rightharpoonup> nat) \<Rightarrow> 'z lstate_scheme \<Rightarrow> bool" where
  txn_init: "lh_n s = 0 \<Longrightarrow> log_outstanding s = 0 \<Longrightarrow> \<not> log_committing s \<Longrightarrow> txn_reach Map.empty s"
| txn_next: "txn_reach w s \<Longrightarrow> txn_step w s w' s' \<Longrightarrow> txn_reach w' s'"

definition reserved :: "(nat \<rightharpoonup> nat) \<Rightarrow> nat" where
  "reserved w = (\<Sum>p\<in>dom w. the (w p))"

lemma reserved_remove:
  assumes "finite (dom w)" and "w p = Some k"
  shows "reserved w = k + reserved (w(p := None))"
proof -
  have pd: "p \<in> dom w" using assms(2) by (rule domI)
  have "(\<Sum>q\<in>dom w. the (w q)) = the (w p) + (\<Sum>q\<in>dom w - {p}. the (w q))"
    by (rule sum.remove [OF assms(1) pd])
  moreover have "(\<Sum>q\<in>dom w - {p}. the (w q)) = (\<Sum>q\<in>dom (w(p := None)). the ((w(p := None)) q))"
    by (rule sum.cong) simp_all
  ultimately show ?thesis unfolding reserved_def assms(2) by (simp only: option.sel)
qed

lemma reserved_upd:
  assumes "finite (dom w)"
  shows "reserved (w(p \<mapsto> k)) = k + reserved (w(p := None))"
  using reserved_remove [of "w(p \<mapsto> k)" p k] assms by (simp add: fun_upd_upd)

lemma reserved_bound:
  assumes "\<And>p k. w p = Some k \<Longrightarrow> k \<le> m"
  shows "reserved w \<le> card (dom w) * m"
proof -
  have "(\<Sum>p\<in>dom w. the (w p)) \<le> of_nat (card (dom w)) * m"
    by (rule sum_bounded_above) (use assms in auto)
  then show ?thesis by (simp add: reserved_def)
qed

lemma card_dom_remove:
  assumes "finite (dom w)" and "w p = Some k"
  shows "card (dom w) = Suc (card (dom (w(p := None))))"
proof -
  have "dom w = insert p (dom (w(p := None)))" and "p \<notin> dom (w(p := None))" using assms by auto
  with assms(1) show ?thesis by (metis card_insert_disjoint finite_insert)
qed

lemma card_dom_insert:
  assumes "finite (dom w)" and "w p = None"
  shows "card (dom (w(p \<mapsto> k))) = Suc (card (dom w))"
proof -
  have "dom (w(p \<mapsto> k)) = insert p (dom w)" and "p \<notin> dom w" using assms(2) by auto
  with assms(1) show ?thesis by simp
qed

definition txn_inv :: "(nat \<rightharpoonup> nat) \<Rightarrow> 'z lstate_scheme \<Rightarrow> bool" where
  "txn_inv w s \<longleftrightarrow> finite (dom w) \<and> log_outstanding s = int (card (dom w)) \<and> \<not> log_committing s
     \<and> 0 \<le> lh_n s \<and> (\<forall>p k. w p = Some k \<longrightarrow> k \<le> 10)
     \<and> lh_n s + int (reserved w) \<le> 30"

lemma txn_inv_begin:
  assumes inv: "txn_inv w s" and p: "w p = None" and e: "begin_op s = Inr ((), s')"
  shows "txn_inv (w(p \<mapsto> MAXOPBLOCKS)) s'"
proof -
  have fin: "finite (dom w)" using inv by (simp add: txn_inv_def)
  have s': "s' = s\<lparr>log_outstanding := log_outstanding s + 1\<rparr>"
    and room: "lh_n s + (log_outstanding s + 1) * 10 \<le> 30"
    using e by (auto simp: begin_op_def LOGSIZE_eq split: if_splits)
  have "reserved w \<le> card (dom w) * 10"
    by (rule reserved_bound) (use inv in \<open>auto simp: txn_inv_def\<close>)
  moreover have "reserved (w(p \<mapsto> 10)) = 10 + reserved w"
    using reserved_upd [OF fin, of p 10] p by (simp add: fun_upd_idem)
  ultimately have "lh_n s + int (reserved (w(p \<mapsto> 10))) \<le> 30"
    using room inv by (simp add: txn_inv_def)
  moreover have "finite (dom (w(p \<mapsto> 10)))" using fin by simp
  ultimately show ?thesis
    using inv card_dom_insert [OF fin p] by (simp add: txn_inv_def s' del: dom_fun_upd)
qed

lemma txn_inv_write:
  assumes inv: "txn_inv w s" and p: "w p = Some (Suc k)" and e: "log_write b s = Inr ((), s')"
  shows "txn_inv (w(p \<mapsto> k)) s'"
proof -
  have fin: "finite (dom w)" using inv by (simp add: txn_inv_def)
  have d: "dom (w(p \<mapsto> k)) = dom w" using p by auto
  have s': "lh_n s' \<le> lh_n s + 1 \<and> 0 \<le> lh_n s' \<and> log_outstanding s' = log_outstanding s
      \<and> log_committing s' = log_committing s"
    using e inv by (auto simp: log_write_def Let_def bpin_def txn_inv_def split: if_splits)
  have "reserved w = Suc (reserved (w(p \<mapsto> k)))"
    using reserved_remove [OF fin p] reserved_upd [OF fin, of p k] by simp
  moreover have "Suc k \<le> 10" using inv p unfolding txn_inv_def by blast
  ultimately show ?thesis
    using inv s' unfolding txn_inv_def d by auto
qed

lemma txn_inv_end:
  assumes inv: "txn_inv w s" and p: "w p = Some k" and e: "end_op s = Inr ((), s')"
  shows "txn_inv (w(p := None)) s'"
proof -
  have fin: "finite (dom w)" using inv by (simp add: txn_inv_def)
  have "log_outstanding s' = log_outstanding s - 1 \<and> \<not> log_committing s' \<and> 0 \<le> lh_n s'
    \<and> lh_n s' \<le> lh_n s"
    using e inv
    by (auto simp: end_op_def Let_def andthen_Inr_iff txn_inv_def dest!: commit_log split: if_splits)
  moreover have "finite (dom (w(p := None)))" using fin by simp
  ultimately show ?thesis
    using inv reserved_remove [OF fin p] card_dom_remove [OF fin p]
    by (auto simp: txn_inv_def simp del: dom_fun_upd)
qed

lemma txn_inv_step:
  assumes "txn_step w s w' s'" and "txn_inv w s"
  shows "txn_inv w' s'"
  using assms(1)
proof cases
  case (txn_begin p)
  with assms(2) show ?thesis using txn_inv_begin by blast
next
  case (txn_write p k b)
  with assms(2) show ?thesis using txn_inv_write by blast
next
  case (txn_end p k)
  with assms(2) show ?thesis using txn_inv_end by blast
next
  case txn_other
  with assms(2) show ?thesis by (simp add: txn_inv_def log_frame_def)
qed

lemma txn_inv_reach: "txn_reach w s \<Longrightarrow> txn_inv w s"
  by (induction rule: txn_reach.induct) (simp_all add: txn_inv_step, simp add: txn_inv_def reserved_def)

lemma txn_room:
  assumes "txn_reach w s" and "w p = Some (Suc k)"
  shows "lh_n s < int LOGSIZE" and "1 \<le> log_outstanding s"
proof -
  have inv: "txn_inv w s" by (rule txn_inv_reach [OF assms(1)])
  then have fin: "finite (dom w)" by (simp add: txn_inv_def)
  show "lh_n s < int LOGSIZE"
    using inv reserved_remove [OF fin assms(2)] by (simp add: txn_inv_def LOGSIZE_eq)
  show "1 \<le> log_outstanding s"
    using inv card_dom_remove [OF fin assms(2)] by (simp add: txn_inv_def)
qed

section \<open>A concrete state\<close>

text \<open>
  The kernel after \<^verbatim>\<open>binit\<close> with an empty log of 31 blocks from block 2, on a zeroed disk; and
  with block 45 modified, recorded in the log and waiting to be committed.
\<close>

definition zero_l :: lstate where
  "zero_l = \<lparr>pmem = (\<lambda>_. 0), kend = 0x80022000, freelist = 0, procs = (\<lambda>_. zero_proc), curproc = 0, initproc = 0,
     nextpid = 1, bufs = (\<lambda>_. zero_buf), disk = (\<lambda>_ _. 0), dtrace = [],
     log_start = 2, log_size = 31, log_outstanding = 0, log_committing = False, log_dev = ROOTDEV,
     lh_n = 0, lh_block = (\<lambda>_. 0)\<rparr>"

definition fresh_l :: lstate where
  "fresh_l = binit zero_l"

definition dirty_l :: lstate where
  "dirty_l = (set_buf 0 (\<lambda>f. f\<lparr>b_dev := ROOTDEV, b_blockno := 45, b_valid := True, b_refcnt := 1,
     b_data := (\<lambda>_. 7)\<rparr>) fresh_l)\<lparr>lh_n := 1, lh_block := (\<lambda>_. 45)\<rparr>"

lemma fresh_inv: "bc_inv fresh_l" "lockset fresh_l = {}" "pinset fresh_l = {}" "view fresh_l = disk zero_l"
  unfolding fresh_l_def by (rule binit_inv; simp add: zero_l_def zero_buf_def)+

lemma binit_frame:
  "binit s = s\<lparr>bufs := bufs (binit s)\<rparr>"
  by (simp add: binit_def Let_def)

lemma fresh_fields [simp]:
  "log_start fresh_l = 2" "log_size fresh_l = 31" "log_outstanding fresh_l = 0"
  "\<not> log_committing fresh_l" "log_dev fresh_l = ROOTDEV" "lh_n fresh_l = 0" "disk fresh_l = (\<lambda>_ _. 0)"
  by (simp_all add: fresh_l_def binit_def Let_def zero_l_def)

lemma fresh_bufs:
  assumes "i < NBUF"
  shows "b_dev (bufs fresh_l i) = 0" "b_refcnt (bufs fresh_l i) = 0" "\<not> locked_buf (bufs fresh_l i)"
  using assms by (simp_all add: fresh_l_def binit_def Let_def binit_loop_fields zero_l_def zero_buf_def
      locked_buf_def initsleeplock_def)

lemma dirty_caches: "caches dirty_l i b \<longleftrightarrow> i = 0 \<and> b = 45"
  using fresh_bufs(1) by (auto simp: caches_def dirty_l_def NBUF_eq)

lemma dirty_idle: "log_idle dirty_l"
proof -
  have rg: "ring (bufs dirty_l) xs = ring (bufs fresh_l) xs" for xs
    by (rule ring_fields) (simp_all add: dirty_l_def)
  have ok: "buf_ok (disk dirty_l) (bufs dirty_l i)" if "i < NBUF" for i
    using fresh_bufs [OF that] fresh_bufs(3) [of 0]
    by (simp add: dirty_l_def buf_ok_def pinned_buf_def NBUF_eq locked_buf_def)
  have inv: "bc_inv dirty_l"
    unfolding bc_inv_def rg using fresh_inv(1) ok dirty_caches by (auto simp: bc_inv_def)
  have l: "\<not> locked_buf (bufs dirty_l 0)" "pinned_buf (bufs dirty_l 0)"
    using fresh_bufs(3) [of 0] by (auto simp: dirty_l_def locked_buf_def pinned_buf_def NBUF_eq)
  have "lockset dirty_l = {}" using l by (auto simp: lockset_def dirty_caches)
  moreover have "pinset dirty_l = {45}" using l by (auto simp: pinset_def dirty_caches)
  moreover have "logged dirty_l = {45}" by (auto simp: logged_def dirty_l_def)
  moreover have "log_area dirty_l \<inter> {45} = {}" by (auto simp: log_area_def dirty_l_def)
  ultimately show ?thesis
    using inv by (auto simp: log_idle_def log_ok_def dirty_l_def NBUF_eq LOGSIZE_eq inj_on_def)
qed

lemma hdr_n_zero [simp]: "hdr_n (\<lambda>_. 0) = 0"
  by (simp add: hdr_n_def ld32_def)

lemma dirty_fields [simp]:
  "log_start dirty_l = 2" "log_size dirty_l = 31" "lh_n dirty_l = 1" "disk dirty_l = (\<lambda>_ _. 0)"
  by (simp_all add: dirty_l_def)

lemma dirty_view: "view dirty_l 45 = (\<lambda>_. 7)"
  using view_caches [of dirty_l 0 45] dirty_idle dirty_caches
  by (simp add: log_idle_def) (simp add: dirty_l_def)

section \<open>Three full transactions\<close>

text \<open>
  Three processes with ten blocks each, written one after the other: \<open>three n\<close> is what they
  have left after \<open>n\<close> blocks.
\<close>

definition three :: "nat \<Rightarrow> (nat \<rightharpoonup> nat)" where
  "three n = (\<lambda>p. if p < 3 then Some (min 10 (10 * (p + 1) - n)) else None)"

definition packed_l :: lstate where
  "packed_l = fresh_l\<lparr>log_size := 30, bufs := (\<lambda>i. zero_buf\<lparr>b_blockno := of_nat (100 + i)\<rparr>)\<rparr>"

lemma three_at:
  assumes "p < 3" and "10 * p \<le> n" and "n < 10 * p + 10"
  shows "three n p = Some (Suc (10 * p + 9 - n))" and "three (Suc n) = (three n)(p \<mapsto> 10 * p + 9 - n)"
proof -
  have "min 10 (10 * (p + 1) - n) = Suc (10 * p + 9 - n)" using assms by arith
  with assms(1) show "three n p = Some (Suc (10 * p + 9 - n))" by (simp add: three_def)
  show "three (Suc n) = (three n)(p \<mapsto> 10 * p + 9 - n)"
  proof
    fix q
    show "three (Suc n) q = ((three n)(p \<mapsto> 10 * p + 9 - n)) q"
      using assms by (cases q p rule: linorder_cases) (auto simp: three_def min_def)
  qed
qed

lemma three_step:
  assumes "n < 30"
  obtains p k where "three n p = Some (Suc k)" and "three (Suc n) = (three n)(p \<mapsto> k)"
proof -
  have "n div 10 < 3" "10 * (n div 10) \<le> n" "n < 10 * (n div 10) + 10" using assms by linarith+
  with three_at [of "n div 10" n] that show thesis by blast
qed

lemma three_begins: "\<exists>s. txn_reach (three 0) s \<and> s = packed_l\<lparr>log_outstanding := 3\<rparr>"
proof -
  let ?s = "\<lambda>n. packed_l\<lparr>log_outstanding := n\<rparr>"
  have b: "begin_op (?s n) = Inr ((), ?s (n + 1))" if "0 \<le> n" "n \<le> 2" for n
    using that by (simp add: begin_op_def packed_l_def LOGSIZE_eq)
  have r0: "txn_reach Map.empty (?s 0)" by (rule txn_init) (simp_all add: packed_l_def)
  have r1: "txn_reach [0 \<mapsto> MAXOPBLOCKS] (?s 1)"
    by (rule txn_next [OF r0]) (use txn_begin [OF _ b [of 0], of Map.empty 0] in simp)
  have r2: "txn_reach [0 \<mapsto> MAXOPBLOCKS, 1 \<mapsto> MAXOPBLOCKS] (?s 2)"
    by (rule txn_next [OF r1]) (use txn_begin [OF _ b [of 1], of "[0 \<mapsto> MAXOPBLOCKS]" 1] in simp)
  have r3: "txn_reach [0 \<mapsto> MAXOPBLOCKS, 1 \<mapsto> MAXOPBLOCKS, 2 \<mapsto> MAXOPBLOCKS] (?s 3)"
    by (rule txn_next [OF r2])
      (use txn_begin [OF _ b [of 2], of "[0 \<mapsto> MAXOPBLOCKS, 1 \<mapsto> MAXOPBLOCKS]" 2] in simp)
  have "[0 \<mapsto> MAXOPBLOCKS, 1 \<mapsto> MAXOPBLOCKS, 2 \<mapsto> MAXOPBLOCKS] = three 0"
    by (rule ext) (auto simp: three_def min_def less_Suc_eq numeral_3_eq_3)
  with r3 show ?thesis by auto
qed

lemma three_writes:
  "n \<le> 29 \<Longrightarrow> \<exists>s :: lstate. txn_reach (three n) s \<and> lh_n s = int n \<and> log_size s = 30 \<and> log_outstanding s = 3
    \<and> (\<forall>i<n. lh_block s i = of_nat (100 + i)) \<and> (\<forall>i. b_blockno (bufs s i) = of_nat (100 + i))"
proof (induction n)
  case 0
  then show ?case using three_begins by (auto simp: packed_l_def)
next
  case (Suc n)
  then obtain s :: lstate where r: "txn_reach (three n) s" and n: "lh_n s = int n" "log_size s = 30"
    "log_outstanding s = 3" and bl: "\<And>i. i < n \<Longrightarrow> lh_block s i = of_nat (100 + i)"
    and bn: "\<And>i. b_blockno (bufs s i) = of_nat (100 + i)"
    by auto
  obtain p k where k: "three n p = Some (Suc k)" "three (Suc n) = (three n)(p \<mapsto> k)"
    by (rule three_step [of n]) (use Suc.prems in auto)
  have neq: "(of_nat (100 + i) :: u32) \<noteq> of_nat (100 + n)" if "i < n" for i
  proof
    assume "(of_nat (100 + i) :: u32) = of_nat (100 + n)"
    then have "unat (of_nat (100 + i) :: u32) = unat (of_nat (100 + n) :: u32)" by (rule arg_cong)
    then show False using that Suc.prems by (simp add: unat_of_nat del: of_nat_add)
  qed
  have "first_index (\<lambda>i. lh_block s i = of_nat (100 + n)) n = None"
    unfolding first_index_None_iff using bl neq by simp
  then have w: "log_write n s = Inr ((), (bpin n (s\<lparr>lh_block := (lh_block s)(n := of_nat (100 + n))\<rparr>))\<lparr>lh_n := int n + 1\<rparr>)"
    using n Suc.prems by (simp add: log_write_def bn LOGSIZE_eq Let_def del: of_nat_add)
  have "txn_reach (three (Suc n)) ((bpin n (s\<lparr>lh_block := (lh_block s)(n := of_nat (100 + n))\<rparr>))\<lparr>lh_n := int n + 1\<rparr>)"
    unfolding k(2) by (rule txn_next [OF r txn_write [where w = "three n", OF k(1) w]])
  then show ?case
    using n bl bn by (intro exI conjI) (assumption, auto simp: bpin_def less_Suc_eq)
qed

section \<open>Properties\<close>

text \<open>C1: Crash atomicity. A commit issues a list of block writes; if the machine stops after
  any number of them and the kernel boots on the disk they left, \<^verbatim>\<open>recover_from_log\<close> returns
  with an empty log and every block outside the log area is as before the transaction when
  the header had not reached the disk, and holds the transaction's data when it had.\<close>

theorem crash_atomic:
  assumes "log_idle s" and "0 < lh_n s" and "hdr_n (disk s (log_start s)) \<le> 0"
  shows "\<exists>s' ws. commit s = Inr ((), s') \<and> dtrace s' = dtrace s @ ws \<and> disk s' = replay (disk s) ws
    \<and> length ws = 2 * nat (lh_n s) + 2
    \<and> (\<forall>k\<le>length ws. \<forall>r :: 'r lstate_scheme. booted r \<longrightarrow> log_start r = log_start s \<longrightarrow>
        disk r = replay (disk s) (take k ws) \<longrightarrow>
        runs (recover_from_log r) (\<lambda>_ r'. bc_inv r' \<and> lh_n r' = 0 \<and> pinset r' = {} \<and>
          (\<forall>b. b \<notin> log_area s \<longrightarrow> disk r' b = (if k \<le> nat (lh_n s) then disk s b else view s b))))"
proof -
  obtain s' where c: "commit s = Inr ((), s')" "dtrace s' = dtrace s @ commit_writes s"
    "disk s' = replay (disk s) (commit_writes s)"
    by (rule runsE [OF commit_runs [OF assms(1,2)]]) auto
  have ok: "log_ok s" using assms(1) by (simp add: log_idle_def)
  have "runs (recover_from_log r) (\<lambda>_ r'. bc_inv r' \<and> lh_n r' = 0 \<and> pinset r' = {} \<and>
      (\<forall>b. b \<notin> log_area s \<longrightarrow> disk r' b = (if k \<le> nat (lh_n s) then disk s b else view s b)))"
    if "k \<le> length (commit_writes s)" "booted r" "log_start r = log_start s"
      "disk r = replay (disk s) (take k (commit_writes s))" for k and r :: "'r lstate_scheme"
  proof -
    have g: "good_head r" and rec: "\<And>b. b \<notin> log_area s \<Longrightarrow>
        recovered r b = (if k \<le> nat (lh_n s) then disk s b else view s b)"
      using crash_recovered [OF assms(1,3) that(1,3,4)] by auto
    have ne: "\<And>b. b \<notin> log_area s \<Longrightarrow> b \<noteq> log_start r" using log_start_area [OF ok] that(3) by auto
    show ?thesis
      by (rule runs_mono [OF recover_runs [OF that(2) g]]) (use rec ne in simp)
  qed
  with c show ?thesis by (auto simp: commit_writes_length)
qed

lemma crash_atomic_witness:
  "\<exists>s' ws. commit dirty_l = Inr ((), s') \<and> length ws = 4
    \<and> (\<forall>r :: lstate. booted r \<longrightarrow> log_start r = 2 \<longrightarrow> disk r = replay (\<lambda>_ _. 0) (take 2 ws) \<longrightarrow>
        runs (recover_from_log r) (\<lambda>_ r'. disk r' 45 = (\<lambda>_. 7)))"
proof -
  obtain s' ws where w: "commit dirty_l = Inr ((), s')" "length ws = 2 * nat (lh_n dirty_l) + 2"
    and c: "\<forall>k\<le>length ws. \<forall>r :: lstate. booted r \<longrightarrow> log_start r = log_start dirty_l \<longrightarrow>
        disk r = replay (disk dirty_l) (take k ws) \<longrightarrow>
        runs (recover_from_log r) (\<lambda>_ r'. bc_inv r' \<and> lh_n r' = 0 \<and> pinset r' = {} \<and>
          (\<forall>b. b \<notin> log_area dirty_l \<longrightarrow>
            disk r' b = (if k \<le> nat (lh_n dirty_l) then disk dirty_l b else view dirty_l b)))"
    using crash_atomic [where s = dirty_l and ?'r = unit, OF dirty_idle]
    unfolding dirty_fields by auto
  have a: "45 \<notin> log_area dirty_l" by (simp add: log_area_def)
  have "runs (recover_from_log r) (\<lambda>_ r'. disk r' 45 = (\<lambda>_. 7))"
    if "booted r" "log_start r = 2" "disk r = replay (\<lambda>_ _. 0) (take 2 ws)" for r :: lstate
    by (rule runs_mono [OF c [rule_format, of 2 r]]) (use that w dirty_view a in auto)
  with w show ?thesis by (intro exI [of _ s'] exI [of _ ws]) simp
qed

text \<open>C16: Group commit is safe from overflow by reservation: in every interleaving of
  transactions that each write at most \<open>MAXOPBLOCKS\<close> blocks, a process that still has budget
  finds room in the header's table, so when the log on disk has more than \<open>LOGSIZE\<close> blocks
  besides its header its \<^verbatim>\<open>log_write\<close> returns.\<close>

theorem log_reservation:
  assumes "txn_reach w s" and "w p = Some (Suc k)" and "int LOGSIZE < log_size s"
  shows "\<exists>s'. log_write b s = Inr ((), s') \<and> lh_n s' \<le> int LOGSIZE"
  using txn_room [OF assms(1,2)] assms(3) by (auto simp: log_write_def Let_def)

lemma log_reservation_witness:
  "\<exists>s'. log_write 0 (fresh_l\<lparr>log_outstanding := 1\<rparr>) = Inr ((), s') \<and> lh_n s' \<le> 30"
proof -
  have r: "txn_reach Map.empty fresh_l" by (rule txn_init) simp_all
  have b: "begin_op fresh_l = Inr ((), fresh_l\<lparr>log_outstanding := 1\<rparr>)"
    by (simp add: begin_op_def LOGSIZE_eq)
  have "txn_step Map.empty fresh_l (Map.empty(7 \<mapsto> MAXOPBLOCKS)) (fresh_l\<lparr>log_outstanding := 1\<rparr>)"
    by (rule txn_begin [OF _ b]) simp
  from txn_next [OF r this]
  have "txn_reach (Map.empty(7 \<mapsto> MAXOPBLOCKS)) (fresh_l\<lparr>log_outstanding := 1\<rparr>)" .
  from log_reservation [OF this, of 7 9 0] show ?thesis by (simp add: LOGSIZE_eq)
qed

text \<open>C17: The reservation of \<^verbatim>\<open>begin_op\<close> is one block too generous for a log of \<open>LOGSIZE\<close> blocks,
  the size \<^verbatim>\<open>mkfs\<close> gives it: three transactions that stay within their budget reach a state
  in which the next \<^verbatim>\<open>log_write\<close> panics, although its process still has budget.\<close>

theorem log_reservation_off_by_one:
  "\<exists>w (s :: lstate) p k b. txn_reach w s \<and> w p = Some (Suc k) \<and> log_size s = int LOGSIZE
     \<and> log_write b s = Inl (Panic ''too big a transaction'')"
proof -
  obtain s :: lstate where s: "txn_reach (three 29) s" "lh_n s = 29" "log_size s = 30"
    using three_writes [of 29] by auto
  have "three 29 2 = Some (Suc 0)" by (simp add: three_def)
  moreover have "log_write 0 s = Inl (Panic ''too big a transaction'')"
    using s by (simp add: log_write_def)
  ultimately show ?thesis using s LOGSIZE_eq by fastforce
qed

end
