(* ===== verification/Kstring.thy ===== *)
theory Kstring
  imports Prelude
begin

text \<open>
  The memory and string routines of the kernel (\<^verbatim>\<open>kernel/string.c\<close>). A memory is a map from
  addresses to bytes. \<open>memmove\<close> works inside one memory, so that its operands may overlap; the
  string routines read one memory and write another, since their operands never overlap. Each
  loop is shown equal to a closed form, which the other components use.
\<close>

section \<open>Routines\<close>

fun memset_loop :: "bytes \<Rightarrow> nat \<Rightarrow> int \<Rightarrow> nat \<Rightarrow> nat \<Rightarrow> bytes" where
  "memset_loop m dst c i 0 = m"
| "memset_loop m dst c i (Suc n) = memset_loop (m(dst + i := word_of_int c)) dst c (i + 1) n"

definition memset :: "bytes \<Rightarrow> nat \<Rightarrow> int \<Rightarrow> nat \<Rightarrow> bytes" where
  "memset m dst c n = memset_loop m dst c 0 n"

fun memcmp :: "bytes \<Rightarrow> nat \<Rightarrow> bytes \<Rightarrow> nat \<Rightarrow> nat \<Rightarrow> int" where
  "memcmp m1 s1 m2 s2 0 = 0"
| "memcmp m1 s1 m2 s2 (Suc n) =
     (if m1 s1 \<noteq> m2 s2 then uint (m1 s1) - uint (m2 s2) else memcmp m1 (s1 + 1) m2 (s2 + 1) n)"

text \<open>The two loops of \<open>memmove\<close>: \<open>*--d = *--s\<close> from the ends, and \<open>*d++ = *s++\<close>.\<close>

fun memmove_back :: "bytes \<Rightarrow> nat \<Rightarrow> nat \<Rightarrow> nat \<Rightarrow> bytes" where
  "memmove_back m d s 0 = m"
| "memmove_back m d s (Suc n) = memmove_back (m(d + n := m (s + n))) d s n"

fun memmove_forw :: "bytes \<Rightarrow> nat \<Rightarrow> nat \<Rightarrow> nat \<Rightarrow> bytes" where
  "memmove_forw m d s 0 = m"
| "memmove_forw m d s (Suc n) = memmove_forw (m(d := m s)) (d + 1) (s + 1) n"

definition memmove :: "bytes \<Rightarrow> nat \<Rightarrow> nat \<Rightarrow> nat \<Rightarrow> bytes" where
  "memmove m dst src n =
     (if n = 0 then m
      else if src < dst \<and> src + n > dst then memmove_back m dst src n
      else memmove_forw m dst src n)"

definition memcpy :: "bytes \<Rightarrow> nat \<Rightarrow> nat \<Rightarrow> nat \<Rightarrow> bytes" where
  "memcpy m dst src n = memmove m dst src n"

fun strncmp :: "bytes \<Rightarrow> nat \<Rightarrow> bytes \<Rightarrow> nat \<Rightarrow> nat \<Rightarrow> int" where
  "strncmp mp p mq q 0 = 0"
| "strncmp mp p mq q (Suc n) =
     (if mp p \<noteq> 0 \<and> mp p = mq q then strncmp mp (p + 1) mq (q + 1) n
      else uint (mp p) - uint (mq q))"

fun strncpy_copy :: "bytes \<Rightarrow> nat \<Rightarrow> bytes \<Rightarrow> nat \<Rightarrow> nat \<Rightarrow> bytes \<times> nat \<times> nat" where
  "strncpy_copy ms s mt t 0 = (ms, s, 0)"
| "strncpy_copy ms s mt t (Suc n) =
     (let ms = ms(s := mt t) in
      if mt t \<noteq> 0 then strncpy_copy ms (s + 1) mt (t + 1) n else (ms, s + 1, n))"

fun strncpy_pad :: "bytes \<Rightarrow> nat \<Rightarrow> nat \<Rightarrow> bytes" where
  "strncpy_pad ms s 0 = ms"
| "strncpy_pad ms s (Suc n) = strncpy_pad (ms(s := 0)) (s + 1) n"

definition strncpy :: "bytes \<Rightarrow> nat \<Rightarrow> bytes \<Rightarrow> nat \<Rightarrow> int \<Rightarrow> bytes" where
  "strncpy ms s mt t n = (case strncpy_copy ms s mt t (nat n) of (ms, s, n) \<Rightarrow> strncpy_pad ms s n)"

text \<open>The loop of \<^verbatim>\<open>safestrcpy\<close> returns the position at which the terminator is stored.\<close>

fun safestrcpy_copy :: "bytes \<Rightarrow> nat \<Rightarrow> bytes \<Rightarrow> nat \<Rightarrow> nat \<Rightarrow> bytes \<times> nat" where
  "safestrcpy_copy ms s mt t 0 = (ms, s)"
| "safestrcpy_copy ms s mt t (Suc n) =
     (let ms = ms(s := mt t) in
      if mt t \<noteq> 0 then safestrcpy_copy ms (s + 1) mt (t + 1) n else (ms, s + 1))"

definition safestrcpy :: "bytes \<Rightarrow> nat \<Rightarrow> bytes \<Rightarrow> nat \<Rightarrow> int \<Rightarrow> bytes" where
  "safestrcpy ms s mt t n =
     (if n \<le> 0 then ms
      else case safestrcpy_copy ms s mt t (nat (n - 1)) of (ms, s) \<Rightarrow> ms(s := 0))"

text \<open>A walk that never meets a NUL is \<open>None\<close>.\<close>

partial_function (option) strlen_from :: "bytes \<Rightarrow> nat \<Rightarrow> nat \<Rightarrow> nat option" where
  "strlen_from m s n = (if m (s + n) = 0 then Some n else strlen_from m s (n + 1))"

definition strlen :: "bytes \<Rightarrow> nat \<Rightarrow> nat option" where
  "strlen m s = strlen_from m s 0"

section \<open>Closed forms\<close>

lemma memset_loop_eq:
  "memset_loop m dst c i n = (\<lambda>a. if dst + i \<le> a \<and> a < dst + i + n then word_of_int c else m a)"
  by (induction n arbitrary: m i) (auto simp: fun_eq_iff)

lemma memset_eq: "memset m dst c n = (\<lambda>a. if dst \<le> a \<and> a < dst + n then word_of_int c else m a)"
  by (simp add: memset_def memset_loop_eq)

lemma memmove_back_eq: "d \<ge> s \<Longrightarrow> memmove_back m d s n = blit m d m s n"
proof (induction n arbitrary: m)
  case 0
  then show ?case by simp
next
  case (Suc n)
  show ?case
  proof
    fix i
    show "memmove_back m d s (Suc n) i = blit m d m s (Suc n) i"
      using Suc.prems by (auto simp: Suc.IH [OF Suc.prems] blit_def)
  qed
qed

lemma memmove_forw_eq: "d \<le> s \<or> s + n \<le> d \<Longrightarrow> memmove_forw m d s n = blit m d m s n"
proof (induction n arbitrary: m d s)
  case 0
  then show ?case by simp
next
  case (Suc n)
  have "memmove_forw (m(d := m s)) (d + 1) (s + 1) n = blit (m(d := m s)) (d + 1) (m(d := m s)) (s + 1) n"
    by (rule Suc.IH) (use Suc.prems in auto)
  moreover have "blit (m(d := m s)) (d + 1) (m(d := m s)) (s + 1) n i = blit m d m s (Suc n) i" for i
  proof (cases "d + 1 \<le> i \<and> i < d + 1 + n")
    case True
    then obtain j where "i = d + 1 + j" and "j < n" by (auto simp: nat_le_iff_add)
    then show ?thesis using Suc.prems by (auto simp: blit_def)
  qed (auto simp: blit_def)
  ultimately show ?case by auto
qed

lemma memmove_blit: "memmove m dst src n = blit m dst m src n"
  by (auto simp: memmove_def memmove_back_eq memmove_forw_eq)

text \<open>The C string at an address, cut off after \<open>n\<close> bytes.\<close>

fun cstr :: "bytes \<Rightarrow> nat \<Rightarrow> nat \<Rightarrow> u8 list" where
  "cstr m a 0 = []"
| "cstr m a (Suc n) = (if m a = 0 then [] else m a # cstr m (a + 1) n)"

lemma uint_eq: "uint a = uint b \<longleftrightarrow> a = b"
  by (simp add: word_uint_eq_iff)

lemma strncmp_0_iff: "strncmp mp p mq q n = 0 \<longleftrightarrow> cstr mp p n = cstr mq q n"
  by (induction n arbitrary: p q) (auto simp: uint_0_iff uint_eq)

lemma memcmp_0_iff: "memcmp m1 s1 m2 s2 n = 0 \<longleftrightarrow> (\<forall>i<n. m1 (s1 + i) = m2 (s2 + i))"
proof (induction n arbitrary: s1 s2)
  case (Suc n)
  have "(\<forall>i<Suc n. m1 (s1 + i) = m2 (s2 + i)) \<longleftrightarrow>
      m1 s1 = m2 s2 \<and> (\<forall>i<n. m1 (s1 + 1 + i) = m2 (s2 + 1 + i))"
    by (auto simp: All_less_Suc2)
  with Suc show ?case by (cases "m1 s1 = m2 s2") (simp_all add: uint_eq)
qed simp

lemma strncpy_pad_eq: "strncpy_pad ms s n = (\<lambda>a. if s \<le> a \<and> a < s + n then 0 else ms a)"
  by (induction n arbitrary: ms s) (auto simp: fun_eq_iff)

lemma cstr_length: "length (cstr m a n) \<le> n"
  by (induction n arbitrary: a) (auto simp: le_SucI)

lemma cstr_nth: "i < length (cstr m a n) \<Longrightarrow> cstr m a n ! i = m (a + i) \<and> m (a + i) \<noteq> 0"
proof (induction n arbitrary: a i)
  case (Suc n)
  then show ?case using Suc.IH [of _ "a + 1"] by (cases i) (auto split: if_splits)
qed simp

lemma strncpy_copy_pad:
  "(case strncpy_copy ms s mt t n of (ms, s, n) \<Rightarrow> strncpy_pad ms s n) =
   (\<lambda>a. if s \<le> a \<and> a < s + n
        then (if a - s < length (cstr mt t n) then mt (t + (a - s)) else 0) else ms a)"
proof (induction n arbitrary: ms s t)
  case 0
  then show ?case by (auto simp: strncpy_pad_eq fun_eq_iff)
next
  case (Suc n)
  show ?case
  proof (cases "mt t = 0")
    case True
    then show ?thesis by (auto simp: strncpy_pad_eq fun_eq_iff)
  next
    case False
    have e: "mt (Suc (t + x - Suc s)) = mt (t + x - s)" if "Suc s \<le> x" for x
      using that by (intro arg_cong [where f = mt]) arith
    show ?thesis
      using False
      by (auto simp: Suc.IH Let_def fun_eq_iff Suc_diff_le not_less_eq_eq le_eq_less_or_eq [of s] e)
  qed
qed

text \<open>\<^verbatim>\<open>strncpy\<close> copies the string, cut off at \<open>n\<close> bytes, and pads it with zeros.\<close>

lemma strncpy_eq:
  "strncpy ms s mt t n = (\<lambda>a. if s \<le> a \<and> a < s + nat n
     then (if a - s < length (cstr mt t (nat n)) then mt (t + (a - s)) else 0) else ms a)"
  unfolding strncpy_def strncpy_copy_pad ..

lemma cstr_eqI:
  assumes "length xs \<le> n" and "\<And>i. i < length xs \<Longrightarrow> m (a + i) = xs ! i \<and> xs ! i \<noteq> 0"
    and "length xs < n \<Longrightarrow> m (a + length xs) = 0"
  shows "cstr m a n = xs"
  using assms
proof (induction n arbitrary: a xs)
  case 0
  then show ?case by simp
next
  case (Suc n)
  show ?case
  proof (cases xs)
    case Nil
    with Suc.prems(3) show ?thesis by simp
  next
    case (Cons y ys)
    have "cstr m (a + 1) n = ys"
    proof (rule Suc.IH)
      show "length ys \<le> n" using Suc.prems(1) Cons by simp
      show "m (a + 1 + i) = ys ! i \<and> ys ! i \<noteq> 0" if "i < length ys" for i
        using Suc.prems(2) [of "Suc i"] that Cons by simp
      show "length ys < n \<Longrightarrow> m (a + 1 + length ys) = 0" using Suc.prems(3) Cons by simp
    qed
    with Suc.prems(2) [of 0] Cons show ?thesis by auto
  qed
qed

lemma strncpy_cstr: "cstr (strncpy ms s mt t n) s (nat n) = cstr mt t (nat n)"
proof (rule cstr_eqI)
  show "length (cstr mt t (nat n)) \<le> nat n" by (rule cstr_length)
next
  fix i
  assume i: "i < length (cstr mt t (nat n))"
  with cstr_length [of mt t "nat n"] have "i < nat n" by simp
  with i cstr_nth [OF i]
  show "strncpy ms s mt t n (s + i) = cstr mt t (nat n) ! i \<and> cstr mt t (nat n) ! i \<noteq> 0"
    by (simp add: strncpy_eq)
qed (simp add: strncpy_eq)

lemma safestrcpy_copy_spec:
  "safestrcpy_copy ms s mt t n = (ms', e) \<Longrightarrow>
   cstr (ms'(e := 0)) s (Suc n) = cstr mt t n \<and> s \<le> e \<and> e \<le> s + n
   \<and> (\<forall>a. a < s \<or> s + n < a \<longrightarrow> ms' a = ms a) \<and> (\<forall>a < s. ms' a = ms a)"
proof (induction n arbitrary: ms s t)
  case 0
  then show ?case by auto
next
  case (Suc n)
  show ?case
  proof (cases "mt t = 0")
    case True
    with Suc.prems show ?thesis by (auto simp: Let_def)
  next
    case False
    with Suc.prems have e: "safestrcpy_copy (ms(s := mt t)) (s + 1) mt (t + 1) n = (ms', e)"
      by (simp add: Let_def)
    note IH = Suc.IH [OF e]
    then have "ms' s = mt t" by simp
    with IH False show ?thesis by auto
  qed
qed

lemma strlen_from_eq:
  assumes "m (s + n + k) = 0" and "\<And>j. j < k \<Longrightarrow> m (s + n + j) \<noteq> 0"
  shows "strlen_from m s n = Some (n + k)"
  using assms
proof (induction k arbitrary: n)
  case 0
  then show ?case by (simp add: strlen_from.simps)
next
  case (Suc k)
  have "strlen_from m s (n + 1) = Some (n + 1 + k)"
    by (rule Suc.IH) (use Suc.prems(1) Suc.prems(2) [of "Suc j" for j] in auto)
  with Suc.prems(2) [of 0] show ?case by (simp add: strlen_from.simps [of m s n])
qed

lemma strlen_eq: "m (s + k) = 0 \<Longrightarrow> (\<And>j. j < k \<Longrightarrow> m (s + j) \<noteq> 0) \<Longrightarrow> strlen m s = Some k"
  using strlen_from_eq [of m s 0 k] by (simp add: strlen_def)

section \<open>Properties\<close>

text \<open>\<^verbatim>\<open>memmove\<close> copies \<open>n\<close> bytes correctly whatever the overlap of source and destination:
  afterwards the destination holds the bytes the source held before, and every other byte is
  unchanged.\<close>

theorem memmove_overlap:
  "memmove m dst src n =
     (\<lambda>a. if dst \<le> a \<and> a < dst + n then m (src + (a - dst)) else m a)"
  by (simp add: memmove_blit blit_def)

text \<open>\<^verbatim>\<open>safestrcpy\<close> with a positive size always leaves a terminated string: the longest prefix
  of the source that fits with its terminator; it writes nothing outside the \<open>n\<close> bytes.\<close>

theorem safestrcpy_terminates:
  assumes "0 < n"
  shows "cstr (safestrcpy ms s mt t n) s (nat n) = cstr mt t (nat n - 1)
    \<and> (\<exists>k<nat n. safestrcpy ms s mt t n (s + k) = 0)
    \<and> (\<forall>a. a < s \<or> s + nat n \<le> a \<longrightarrow> safestrcpy ms s mt t n a = ms a)"
proof -
  obtain ms' e where e: "safestrcpy_copy ms s mt t (nat (n - 1)) = (ms', e)" by fastforce
  have n: "Suc (nat (n - 1)) = nat n" "nat (n - 1) = nat n - 1" using assms by auto
  have r: "safestrcpy ms s mt t n = ms'(e := 0)" using assms e by (simp add: safestrcpy_def)
  note sp = safestrcpy_copy_spec [OF e, unfolded n]
  have "\<exists>k<nat n. (ms'(e := 0)) (s + k) = 0"
    by (rule exI [of _ "e - s"]) (use sp assms in auto)
  with sp n show ?thesis unfolding r by auto
qed

lemma safestrcpy_terminates_witness:
  "cstr (safestrcpy (\<lambda>_. 9) 2 (\<lambda>_. 5) 0 4) 2 4 = [5, 5, 5]"
  using safestrcpy_terminates [of 4 "\<lambda>_. 9" 2 "\<lambda>_. 5" 0] by (simp add: numeral_3_eq_3)

end
