(* ===== verification/Kalloc.thy ===== *)
theory Kalloc
  imports Kstate Kstring
begin

text \<open>
  The physical page allocator (\<^verbatim>\<open>kernel/kalloc.c\<close>): a stack of free pages, linked through their
  first eight bytes. \<open>kmem_ok s xs\<close> says that the list in memory is \<open>xs\<close>; allocation pops it,
  freeing pushes, and \<^verbatim>\<open>kinit\<close> fills it with every page between the kernel and the end of
  memory. The interface the rest of the kernel uses is the locale \<open>page_allocator\<close>.
\<close>

section \<open>Operations\<close>

definition PGSIZE :: u64 where "PGSIZE = 4096"
definition KERNBASE :: u64 where "KERNBASE = 0x80000000"
definition PHYSTOP :: u64 where "PHYSTOP = KERNBASE + 128 * 1024 * 1024"
definition PGROUNDUP :: "u64 \<Rightarrow> u64" where "PGROUNDUP sz = (sz + PGSIZE - 1) AND NOT (PGSIZE - 1)"
definition PGROUNDDOWN :: "u64 \<Rightarrow> u64" where "PGROUNDDOWN a = a AND NOT (PGSIZE - 1)"

definition kfree :: "u64 \<Rightarrow> 'z kstate_scheme \<Rightarrow> (unit, 'z kstate_scheme) res" where
  "kfree pa s =
     (if pa mod PGSIZE \<noteq> 0 \<or> pa < kend s \<or> pa \<ge> PHYSTOP then Inl (Panic ''kfree'')
      else let m = memset (pmem s) (unat pa) 1 (unat PGSIZE);
               m = st64 m (unat pa) (freelist s)
           in Inr ((), s\<lparr>pmem := m, freelist := pa\<rparr>))"

definition kalloc :: "'z kstate_scheme \<Rightarrow> u64 \<times> 'z kstate_scheme" where
  "kalloc s =
     (let r = freelist s;
          s = (if r \<noteq> 0 then s\<lparr>freelist := ld64 (pmem s) (unat r)\<rparr> else s);
          s = (if r \<noteq> 0 then s\<lparr>pmem := memset (pmem s) (unat r) 5 (unat PGSIZE)\<rparr> else s)
      in (r, s))"

text \<open>
  The loop of \<^verbatim>\<open>freerange\<close>, over the \<open>n\<close> pages that fit below \<open>pa_end\<close>; the pointer of the C
  loop does not wrap, because \<^verbatim>\<open>pa_end\<close> is below \<open>2^64 - 4096\<close>.
\<close>

fun freerange_loop :: "nat \<Rightarrow> u64 \<Rightarrow> 'z kstate_scheme \<Rightarrow> (unit, 'z kstate_scheme) res" where
  "freerange_loop 0 p s = Inr ((), s)"
| "freerange_loop (Suc n) p s = andthen (kfree p s) (\<lambda>_ s. freerange_loop n (p + PGSIZE) s)"

definition freerange :: "u64 \<Rightarrow> u64 \<Rightarrow> 'z kstate_scheme \<Rightarrow> (unit, 'z kstate_scheme) res" where
  "freerange pa_start pa_end s =
     (let p = PGROUNDUP pa_start
      in freerange_loop ((unat pa_end - unat p) div unat PGSIZE) p s)"

definition kinit :: "'z kstate_scheme \<Rightarrow> (unit, 'z kstate_scheme) res" where
  "kinit s = freerange (kend s) PHYSTOP s"

section \<open>The free list\<close>

lemma PGSIZE_unat [simp]: "unat PGSIZE = 4096"
  by (simp add: PGSIZE_def)

lemma PHYSTOP_unat: "unat PHYSTOP = 2281701376"
  by (simp add: PHYSTOP_def KERNBASE_def)

text \<open>A page that may be freed, and the list of free pages in memory.\<close>

definition page :: "'z kstate_scheme \<Rightarrow> u64 \<Rightarrow> bool" where
  "page s pa \<longleftrightarrow> pa mod PGSIZE = 0 \<and> kend s \<le> pa \<and> pa < PHYSTOP \<and> pa \<noteq> 0"

fun free_chain :: "bytes \<Rightarrow> u64 \<Rightarrow> u64 list \<Rightarrow> bool" where
  "free_chain m fl [] \<longleftrightarrow> fl = 0"
| "free_chain m fl (x # xs) \<longleftrightarrow> fl = x \<and> free_chain m (ld64 m (unat x)) xs"

definition kmem_ok :: "'z kstate_scheme \<Rightarrow> u64 list \<Rightarrow> bool" where
  "kmem_ok s xs \<longleftrightarrow> free_chain (pmem s) (freelist s) xs \<and> distinct xs \<and> (\<forall>x\<in>set xs. page s x)"

text \<open>The bytes of a page; different pages do not overlap.\<close>

definition in_page :: "u64 \<Rightarrow> nat \<Rightarrow> bool" where
  "in_page pa a \<longleftrightarrow> unat pa \<le> a \<and> a < unat pa + 4096"

lemma page_aligned: "pa mod PGSIZE = 0 \<longleftrightarrow> 4096 dvd unat pa"
proof -
  have "unat (pa mod PGSIZE) = unat pa mod 4096" by (simp add: unat_mod_distrib)
  then show ?thesis by (metis dvd_eq_mod_eq_0 unat_0 unat_eq_0)
qed

lemma pages_disjoint:
  assumes "p mod PGSIZE = 0" and "q mod PGSIZE = 0" and "in_page p a" and "in_page q a"
  shows "p = q"
proof -
  have "unat p = unat q"
    using assms unfolding page_aligned in_page_def by (auto elim!: dvdE)
  then show ?thesis by (simp add: word_unat_eq_iff)
qed

lemma free_chain_cong:
  assumes "\<And>x a. x \<in> set xs \<Longrightarrow> in_page x a \<Longrightarrow> m' a = m a"
  shows "free_chain m' fl xs \<longleftrightarrow> free_chain m fl xs"
  using assms
proof (induction xs arbitrary: fl)
  case Nil
  then show ?case by simp
next
  case (Cons x xs)
  have "ld64 m' (unat x) = ld64 m (unat x)"
    by (rule ld64_cong) (use Cons.prems [of x] in \<open>auto simp: in_page_def\<close>)
  moreover have "free_chain m' f xs \<longleftrightarrow> free_chain m f xs" for f
    by (rule Cons.IH) (use Cons.prems in auto)
  ultimately show ?case by simp
qed

text \<open>Stores outside the free pages keep the list.\<close>

lemma kmem_ok_cong:
  assumes "kmem_ok s xs" and "freelist s' = freelist s" and "kend s' = kend s"
    and "\<And>x a. x \<in> set xs \<Longrightarrow> in_page x a \<Longrightarrow> pmem s' a = pmem s a"
  shows "kmem_ok s' xs"
  using assms free_chain_cong [of xs "pmem s'" "pmem s"]
  by (auto simp: kmem_ok_def page_def)

lemma kalloc_empty: "kmem_ok s [] \<Longrightarrow> kalloc s = (0, s)"
  by (simp add: kmem_ok_def kalloc_def)

lemma memset_5: "memset m dst 5 n = (\<lambda>a. if dst \<le> a \<and> a < dst + n then 5 else m a)"
  by (simp add: memset_eq fun_eq_iff)

lemma kalloc_pop:
  assumes "kmem_ok s (x # xs)"
  shows "kalloc s = (x, s\<lparr>freelist := ld64 (pmem s) (unat x),
      pmem := (\<lambda>a. if in_page x a then 5 else pmem s a)\<rparr>)"
    and "kmem_ok (snd (kalloc s)) xs" and "x \<noteq> 0" and "page s x"
proof -
  have x: "page s x" "x \<notin> set xs" "freelist s = x" "distinct xs"
    and ch: "free_chain (pmem s) (ld64 (pmem s) (unat x)) xs"
    using assms by (simp_all add: kmem_ok_def)
  have pg: "page s y" if "y \<in> set xs" for y
    using assms that by (simp add: kmem_ok_def)
  show "page s x" by (rule x(1))
  from x(1) show n0: "x \<noteq> 0" unfolding page_def by blast
  show e: "kalloc s = (x, s\<lparr>freelist := ld64 (pmem s) (unat x),
      pmem := (\<lambda>a. if in_page x a then 5 else pmem s a)\<rparr>)"
    unfolding kalloc_def in_page_def x(3) using n0 by (simp add: memset_5 Let_def)
  have "free_chain (\<lambda>a. if in_page x a then 5 else pmem s a) fl xs \<longleftrightarrow> free_chain (pmem s) fl xs" for fl
  proof (rule free_chain_cong)
    fix y a
    assume y: "y \<in> set xs" and a: "in_page y a"
    have "\<not> in_page x a"
    proof
      assume "in_page x a"
      with a x(1) pg [OF y] have "y = x" by (intro pages_disjoint [of y x a]) (auto simp: page_def)
      with x(2) y show False by simp
    qed
    then show "(if in_page x a then 5 else pmem s a) = pmem s a" by simp
  qed
  then have "free_chain (\<lambda>a. if in_page x a then 5 else pmem s a) (ld64 (pmem s) (unat x)) xs"
    using ch by blast
  then show "kmem_ok (snd (kalloc s)) xs"
    unfolding e snd_conv kmem_ok_def using x(4) pg by (simp add: page_def)
qed

lemma kfree_push:
  assumes ok: "kmem_ok s xs" and pg: "page s p" and new: "p \<notin> set xs"
  shows "\<exists>s'. kfree p s = Inr ((), s') \<and> kmem_ok s' (p # xs) \<and> kend s' = kend s
    \<and> (\<forall>a. \<not> in_page p a \<longrightarrow> pmem s' a = pmem s a)
    \<and> s' = s\<lparr>pmem := pmem s', freelist := p\<rparr>"
proof -
  let ?m = "st64 (memset (pmem s) (unat p) 1 4096) (unat p) (freelist s)"
  let ?s = "s\<lparr>pmem := ?m, freelist := p\<rparr>"
  have e: "kfree p s = Inr ((), ?s)"
    using pg by (simp add: kfree_def page_def not_less not_le)
  have out: "?m a = pmem s a" if "\<not> in_page p a" for a
    using that by (auto simp: st64_other memset_eq in_page_def)
  have "free_chain ?m (freelist s) xs \<longleftrightarrow> free_chain (pmem s) (freelist s) xs"
  proof (rule free_chain_cong)
    fix x a
    assume "x \<in> set xs" and "in_page x a"
    then have "\<not> in_page p a"
      using ok pg new pages_disjoint [of x p a] by (auto simp: kmem_ok_def page_def)
    then show "?m a = pmem s a" by (rule out)
  qed
  then have "kmem_ok ?s (p # xs)"
    using ok pg new by (simp add: kmem_ok_def page_def mem_simps)
  with e out show ?thesis by auto
qed

section \<open>The interface of the allocator\<close>

text \<open>
  What the kernel relies on: an available page is handed out once, a page given back becomes
  available. \<open>avail s xs\<close> lists the available pages in the order they will be handed out.
\<close>

text \<open>Allocating \<open>n\<close> times, and giving a list of pages back.\<close>

primrec alloc_many :: "('s \<Rightarrow> u64 \<times> 's) \<Rightarrow> nat \<Rightarrow> 's \<Rightarrow> u64 list \<times> 's" where
  "alloc_many alloc 0 s = ([], s)"
| "alloc_many alloc (Suc n) s = (let (x, s) = alloc s; (ys, s) = alloc_many alloc n s in (x # ys, s))"

primrec release_many :: "(u64 \<Rightarrow> 's \<Rightarrow> (unit, 's) res) \<Rightarrow> u64 list \<Rightarrow> 's \<Rightarrow> (unit, 's) res" where
  "release_many release [] s = Inr ((), s)"
| "release_many release (p # ps) s = andthen (release p s) (\<lambda>_ s. release_many release ps s)"

locale page_allocator =
  fixes alloc :: "'s \<Rightarrow> u64 \<times> 's"
    and release :: "u64 \<Rightarrow> 's \<Rightarrow> (unit, 's) res"
    and avail :: "'s \<Rightarrow> u64 list \<Rightarrow> bool"
    and frame :: "'s \<Rightarrow> u64 \<Rightarrow> bool"
  assumes alloc_none: "avail s [] \<Longrightarrow> alloc s = (0, s)"
    and alloc_some: "avail s (x # xs) \<Longrightarrow> \<exists>s'. alloc s = (x, s') \<and> avail s' xs \<and> frame s' = frame s"
    and release_ok: "avail s xs \<Longrightarrow> frame s p \<Longrightarrow> p \<notin> set xs \<Longrightarrow>
      \<exists>s'. release p s = Inr ((), s') \<and> avail s' (p # xs) \<and> frame s' = frame s"
    and avail_frames: "avail s xs \<Longrightarrow> distinct xs \<and> 0 \<notin> set xs \<and> (\<forall>x\<in>set xs. frame s x)"
begin

lemma alloc_many_prefix:
  "avail s (xs @ ys) \<Longrightarrow> \<exists>s'. alloc_many alloc (length xs) s = (xs, s') \<and> avail s' ys \<and> frame s' = frame s"
proof (induction xs arbitrary: s)
  case Nil
  then show ?case by simp
next
  case (Cons x xs)
  then obtain s1 where "alloc s = (x, s1)" "avail s1 (xs @ ys)" "frame s1 = frame s"
    using alloc_some [of s x "xs @ ys"] by auto
  with Cons.IH [of s1] show ?case by auto
qed

text \<open>Pages handed out are distinct frames, none is null, and the memory runs out exactly.\<close>

lemma alloc_many_distinct:
  assumes "avail s zs" and "n \<le> length zs"
  shows "\<exists>s'. alloc_many alloc n s = (take n zs, s') \<and> avail s' (drop n zs) \<and> distinct (take n zs)
    \<and> 0 \<notin> set (take n zs) \<and> (\<forall>p\<in>set (take n zs). frame s' p)"
proof -
  have "avail s (take n zs @ drop n zs)" using assms by simp
  then obtain s' where s': "alloc_many alloc (length (take n zs)) s = (take n zs, s')"
    "avail s' (drop n zs)" "frame s' = frame s"
    using alloc_many_prefix by blast
  have "distinct zs \<and> 0 \<notin> set zs \<and> (\<forall>x\<in>set zs. frame s x)" by (rule avail_frames [OF assms(1)])
  with s' assms(2) show ?thesis by (auto dest: in_set_takeD)
qed

lemma release_many_ok:
  "avail s xs \<Longrightarrow> distinct ps \<Longrightarrow> set ps \<inter> set xs = {} \<Longrightarrow> (\<forall>p\<in>set ps. frame s p) \<Longrightarrow>
   \<exists>s'. release_many release ps s = Inr ((), s') \<and> avail s' (rev ps @ xs) \<and> frame s' = frame s"
proof (induction ps arbitrary: s xs)
  case Nil
  then show ?case by simp
next
  case (Cons p ps)
  then obtain s1 where s1: "release p s = Inr ((), s1)" "avail s1 (p # xs)" "frame s1 = frame s"
    using release_ok [of s xs p] by auto
  have "\<exists>s'. release_many release ps s1 = Inr ((), s') \<and> avail s' (rev ps @ p # xs) \<and> frame s' = frame s1"
    by (rule Cons.IH [OF s1(2)]) (use Cons.prems s1(3) in auto)
  with s1 show ?case by auto
qed

text \<open>Giving back what was taken, in any order, restores the set of available pages.\<close>

lemma alloc_release_many:
  assumes "avail s zs" and "n \<le> length zs" and "set ps = set (take n zs)" and "distinct ps"
  shows "\<exists>s1 s2. alloc_many alloc n s = (take n zs, s1) \<and> release_many release ps s1 = Inr ((), s2)
    \<and> avail s2 (rev ps @ drop n zs) \<and> set (rev ps @ drop n zs) = set zs"
proof -
  obtain s1 where s1: "alloc_many alloc n s = (take n zs, s1)" "avail s1 (drop n zs)"
    "\<forall>p\<in>set (take n zs). frame s1 p"
    using alloc_many_distinct [OF assms(1,2)] by blast
  have "distinct zs" using avail_frames [OF assms(1)] by simp
  then have "set ps \<inter> set (drop n zs) = {}"
    unfolding assms(3) by (rule set_take_disj_set_drop_if_distinct) simp
  with release_many_ok [OF s1(2) assms(4)] s1(3) assms(3) obtain s2
    where "release_many release ps s1 = Inr ((), s2)" "avail s2 (rev ps @ drop n zs)" by auto
  moreover have "set (rev ps @ drop n zs) = set zs"
    using assms(3) by (metis append_take_drop_id set_append set_rev)
  ultimately show ?thesis using s1 by blast
qed

end

interpretation km: page_allocator kalloc kfree kmem_ok page
proof
  fix s :: "'z kstate_scheme" and x xs p
  show "kmem_ok s [] \<Longrightarrow> kalloc s = (0, s)" by (rule kalloc_empty)
  show "kmem_ok s (x # xs) \<Longrightarrow> \<exists>s'. kalloc s = (x, s') \<and> kmem_ok s' xs \<and> page s' = page s"
    using kalloc_pop(1,2) [of s x xs] by (auto simp: page_def fun_eq_iff)
  show "kmem_ok s xs \<Longrightarrow> page s p \<Longrightarrow> p \<notin> set xs \<Longrightarrow>
      \<exists>s'. kfree p s = Inr ((), s') \<and> kmem_ok s' (p # xs) \<and> page s' = page s"
    using kfree_push [of s xs p] by (auto simp: page_def fun_eq_iff)
  show "kmem_ok s xs \<Longrightarrow> distinct xs \<and> 0 \<notin> set xs \<and> (\<forall>x\<in>set xs. page s x)"
    by (auto simp: kmem_ok_def page_def)
qed


section \<open>Properties\<close>

text \<open>The pages between an aligned address and the end of memory, from the bottom.\<close>

definition pages_from :: "nat \<Rightarrow> u64 \<Rightarrow> u64 list" where
  "pages_from n p = map (\<lambda>i. p + of_nat i * PGSIZE) [0..<n]"

lemma pages_from_Suc: "pages_from (Suc n) p = p # pages_from n (p + PGSIZE)"
  unfolding pages_from_def map_upt_Suc by (simp add: algebra_simps)

lemma add_PGSIZE:
  assumes "unat p + 4096 \<le> unat PHYSTOP" and "p mod PGSIZE = 0"
  shows "unat (p + PGSIZE) = unat p + 4096" and "(p + PGSIZE) mod PGSIZE = 0"
proof -
  show u: "unat (p + PGSIZE) = unat p + 4096"
    using assms(1) by (simp add: PHYSTOP_unat unat_word_ariths)
  show "(p + PGSIZE) mod PGSIZE = 0" using assms(2) by (simp add: page_aligned u)
qed

lemma freerange_loop_ok:
  "kmem_ok s xs \<Longrightarrow> p mod PGSIZE = 0 \<Longrightarrow> kend s \<le> p \<Longrightarrow> 0 < kend s \<Longrightarrow>
   unat p + 4096 * n \<le> unat PHYSTOP \<Longrightarrow> (\<forall>x\<in>set xs. x < p) \<Longrightarrow>
   \<exists>s'. freerange_loop n p s = Inr ((), s') \<and> kmem_ok s' (rev (pages_from n p) @ xs)"
proof (induction n arbitrary: p s xs)
  case 0
  then show ?case by (simp add: pages_from_def)
next
  case (Suc n)
  have b: "unat p + 4096 \<le> unat PHYSTOP" using Suc.prems(5) by simp
  note p' = add_PGSIZE [OF b Suc.prems(2)]
  have "page s p"
    using Suc.prems(2-4) b by (auto simp: page_def word_less_nat_alt)
  moreover have "p \<notin> set xs" using Suc.prems(6) by auto
  ultimately obtain s1 where s1: "kfree p s = Inr ((), s1)" "kmem_ok s1 (p # xs)" "kend s1 = kend s"
    using kfree_push [OF Suc.prems(1)] by blast
  have lt: "p < p + PGSIZE" by (simp add: word_less_nat_alt p')
  have "\<exists>s'. freerange_loop n (p + PGSIZE) s1 = Inr ((), s')
      \<and> kmem_ok s' (rev (pages_from n (p + PGSIZE)) @ p # xs)"
  proof (rule Suc.IH [OF s1(2) p'(2)])
    show "kend s1 \<le> p + PGSIZE" using s1(3) Suc.prems(3) lt by (simp add: order.trans less_imp_le)
    show "0 < kend s1" using s1(3) Suc.prems(4) by simp
    show "unat (p + PGSIZE) + 4096 * n \<le> unat PHYSTOP" using Suc.prems(5) p'(1) by simp
    show "\<forall>x\<in>set (p # xs). x < p + PGSIZE" using Suc.prems(6) lt by auto
  qed
  with s1(1) show ?case by (simp add: pages_from_Suc)
qed

lemma unat_numeral_4096: "unat (4096 :: u64) = 4096"
  by simp

lemma PGROUNDUP_props:
  assumes "unat a \<le> unat PHYSTOP"
  shows "PGROUNDUP a mod PGSIZE = 0" and "a \<le> PGROUNDUP a" and "unat (PGROUNDUP a) \<le> unat PHYSTOP"
    and "unat (PGROUNDUP a) = (unat a + 4095) div 4096 * 4096"
proof -
  let ?x = "a + PGSIZE - 1"
  have x: "?x = a + 4095" by (simp add: PGSIZE_def)
  have ux: "unat (a + 4095) = unat a + 4095"
    using assms by (simp add: PHYSTOP_unat unat_word_ariths)
  have m: "(PGSIZE - 1 :: u64) = mask 12" by (simp add: PGSIZE_def mask_eq_exp_minus_1)
  have r: "PGROUNDUP a = push_bit 12 (drop_bit 12 (a + 4095))"
    unfolding PGROUNDUP_def x m by (rule bit_word_eqI) (auto simp: bit_simps)
  have q: "unat ((a + 4095) div 4096) = (unat a + 4095) div 4096"
    unfolding unat_div_distrib ux by (simp only: unat_numeral_4096)
  have "(unat a + 4095) div 4096 * 4096 < 2 ^ 64" using assms by (simp add: PHYSTOP_unat)
  then have "unat ((a + 4095) div 4096 * 4096) = (unat a + 4095) div 4096 * 4096"
    unfolding unat_word_ariths(2) q unat_numeral_4096 by simp
  moreover have "PGROUNDUP a = (a + 4095) div 4096 * 4096"
    by (simp add: r push_bit_eq_mult drop_bit_eq_div)
  ultimately show u: "unat (PGROUNDUP a) = (unat a + 4095) div 4096 * 4096" by simp
  show "PGROUNDUP a mod PGSIZE = 0" by (simp add: page_aligned u)
  show "a \<le> PGROUNDUP a"
    unfolding word_le_nat_alt u
    using div_mult_mod_eq [of "unat a + 4095" 4096] mod_less_divisor [of 4096 "unat a + 4095"]
    by linarith
  have "unat a + 4095 \<le> 2281705471" using assms by (simp add: PHYSTOP_unat)
  then have "(unat a + 4095) div 4096 \<le> 2281705471 div 4096" by (rule div_le_mono)
  then have "(unat a + 4095) div 4096 \<le> 557056" by simp
  then show "unat (PGROUNDUP a) \<le> unat PHYSTOP" by (simp add: u PHYSTOP_unat)
qed

text \<open>C27: \<^verbatim>\<open>kinit\<close> returns and leaves a well-formed free list that holds exactly the aligned pages
  between the end of the kernel and the end of memory, each once.\<close>

theorem kinit_frees_all:
  assumes "0 < kend s" and "kend s \<le> PHYSTOP" and "freelist s = 0"
  shows "\<exists>s' xs. kinit s = Inr ((), s') \<and> kmem_ok s' xs
    \<and> set xs = {p. p mod PGSIZE = 0 \<and> kend s \<le> p \<and> p < PHYSTOP}"
proof -
  let ?p = "PGROUNDUP (kend s)" and ?n = "(unat PHYSTOP - unat (PGROUNDUP (kend s))) div 4096"
  have le: "unat (kend s) \<le> unat PHYSTOP" using assms(2) by (simp add: word_le_nat_alt)
  note r = PGROUNDUP_props [OF le]
  have al: "4096 dvd unat ?p" using r(1) by (simp add: page_aligned)
  have n: "unat ?p + 4096 * ?n = unat PHYSTOP"
    using al r(3) by (auto simp: PHYSTOP_unat elim!: dvdE)
  have "kmem_ok s []" using assms(3) by (simp add: kmem_ok_def)
  then obtain s' where s': "freerange_loop ?n ?p s = Inr ((), s')"
    "kmem_ok s' (rev (pages_from ?n ?p) @ [])"
    using freerange_loop_ok [of s "[]" ?p ?n] r assms(1) n by fastforce
  have nth: "unat (?p + of_nat i * PGSIZE) = unat ?p + i * 4096" if "i \<le> ?n" for i
  proof -
    have "unat ?p + i * 4096 \<le> unat PHYSTOP" using that n by simp
    then have "unat (of_nat (unat ?p + i * 4096) :: u64) = unat ?p + i * 4096"
      by (simp add: unat_of_nat PHYSTOP_unat del: of_nat_add of_nat_mult)
    then show ?thesis by (simp add: PGSIZE_def)
  qed
  have "set (pages_from ?n ?p) = {p. p mod PGSIZE = 0 \<and> kend s \<le> p \<and> p < PHYSTOP}"
  proof (rule set_eqI, rule iffI)
    fix q
    assume "q \<in> set (pages_from ?n ?p)"
    then obtain i where i: "i < ?n" "q = ?p + of_nat i * PGSIZE" by (auto simp: pages_from_def)
    then have u: "unat q = unat ?p + i * 4096" using nth by simp
    show "q \<in> {p. p mod PGSIZE = 0 \<and> kend s \<le> p \<and> p < PHYSTOP}"
      using i(1) n al r(2) by (simp add: page_aligned word_le_nat_alt word_less_nat_alt u)
  next
    fix q
    assume q: "q \<in> {p. p mod PGSIZE = 0 \<and> kend s \<le> p \<and> p < PHYSTOP}"
    then have "4096 dvd unat q" "unat (kend s) \<le> unat q" "unat q < unat PHYSTOP"
      by (auto simp: page_aligned word_le_nat_alt word_less_nat_alt)
    moreover have "unat ?p \<le> unat q" using calculation r(4) by (auto elim!: dvdE)
    moreover obtain u v where uv: "unat ?p = 4096 * u" "unat q = 4096 * v"
      using al calculation(1) by (auto elim!: dvdE)
    ultimately have "u \<le> v" "v < 557056" by (auto simp: PHYSTOP_unat)
    moreover have "?n = 557056 - u" using uv(1) by (simp add: PHYSTOP_unat)
    ultimately obtain i where i: "unat q = unat ?p + i * 4096" "i < ?n"
      using uv that [of "v - u"] by simp
    then have "unat (?p + of_nat i * PGSIZE) = unat q" using nth by simp
    then have "q = ?p + of_nat i * PGSIZE" by (simp add: word_unat_eq_iff)
    with i show "q \<in> set (pages_from ?n ?p)" by (auto simp: pages_from_def)
  qed
  then show ?thesis
    using s' by (intro exI [of _ s'] exI [of _ "rev (pages_from ?n ?p)"])
      (simp add: kinit_def freerange_def Let_def)
qed

text \<open>A kernel that has just started: nothing allocated, the free list empty.\<close>

definition zero_k :: kstate where
  "zero_k = \<lparr>pmem = (\<lambda>_. 0), kend = 0x80022000, freelist = 0, procs = (\<lambda>_. zero_proc),
     curproc = 0, initproc = 0, nextpid = 1\<rparr>"

lemma kinit_frees_all_witness:
  "\<exists>s' xs. kinit zero_k = Inr ((), s') \<and> kmem_ok s' xs \<and> 0x80023000 \<in> set xs"
proof -
  obtain s' xs where "kinit zero_k = Inr ((), s')" "kmem_ok s' xs"
    "set xs = {p. p mod PGSIZE = 0 \<and> kend zero_k \<le> p \<and> p < PHYSTOP}"
    using kinit_frees_all [of zero_k] by (auto simp: zero_k_def PHYSTOP_def KERNBASE_def)
  then show ?thesis
    by (intro exI [of _ s'] exI [of _ xs]) (simp add: zero_k_def PHYSTOP_def KERNBASE_def PGSIZE_def)
qed

text \<open>C26: Pages are neither lost nor handed out twice: taking \<open>n\<close> pages one after the other gives
  \<open>n\<close> different frames, and freeing them in any order brings back the same set of free pages.\<close>

theorem kalloc_kfree_roundtrip:
  assumes "kmem_ok s zs" and "n \<le> length zs" and "set ps = set (take n zs)" and "distinct ps"
  shows "\<exists>s1 s2. alloc_many kalloc n s = (take n zs, s1) \<and> distinct (take n zs) \<and> 0 \<notin> set (take n zs)
    \<and> release_many kfree ps s1 = Inr ((), s2)
    \<and> kmem_ok s2 (rev ps @ drop n zs) \<and> set (rev ps @ drop n zs) = set zs"
  using km.alloc_release_many [OF assms] km.alloc_many_distinct [OF assms(1,2)] by auto

lemma kalloc_kfree_roundtrip_witness:
  "\<exists>s1 s2. alloc_many kalloc 1 (zero_k\<lparr>freelist := 0x80023000\<rparr>) = ([0x80023000], s1)
    \<and> release_many kfree [0x80023000] s1 = Inr ((), s2) \<and> kmem_ok s2 [0x80023000]"
proof -
  have ld0: "ld64 (\<lambda>_. 0) a = 0" for a by (simp add: ld64_def ld32_def)
  have "kmem_ok (zero_k\<lparr>freelist := 0x80023000\<rparr>) [0x80023000]"
    by (simp add: kmem_ok_def page_def zero_k_def PHYSTOP_def KERNBASE_def PGSIZE_def ld0)
  from kalloc_kfree_roundtrip [OF this, of 1 "[0x80023000]"] show ?thesis by auto
qed

end
