(* ===== verification/Pagetable.thy ===== *)
theory Pagetable
  imports Vm
begin

text \<open>
  Page tables as maps. \<open>pt_inv m root T lev\<close>: the pages \<open>T\<close> of the table at \<open>root\<close> form a tree
  of three levels, each page below the root having one parent entry. \<open>leafval\<close> is the entry
  found for a virtual address, 0 if there is none. The lemmas show that \<open>walk\<close> finds this
  entry, that \<open>walk\<close> with allocation changes no translation, and that \<open>mappages\<close> changes the
  translation of the page it maps only.
\<close>

section \<open>Entries of a table\<close>

definition node :: "u64 \<Rightarrow> bool" where
  "node p \<longleftrightarrow> p mod PGSIZE = 0 \<and> p \<noteq> 0 \<and> unat p + 4096 \<le> 2 ^ 55"

definition entry :: "bytes \<Rightarrow> u64 \<Rightarrow> nat \<Rightarrow> u64" where
  "entry m p i = ld64 m (unat p + 8 * i)"

definition valid :: "bytes \<Rightarrow> u64 \<Rightarrow> nat \<Rightarrow> bool" where
  "valid m p i \<longleftrightarrow> entry m p i AND PTE_V \<noteq> 0"

definition child :: "bytes \<Rightarrow> u64 \<Rightarrow> nat \<Rightarrow> u64" where
  "child m p i = PTE2PA (entry m p i)"

definition idx :: "nat \<Rightarrow> u64 \<Rightarrow> nat" where
  "idx l va = unat (PX l va)"

fun leafpage :: "bytes \<Rightarrow> nat \<Rightarrow> u64 \<Rightarrow> u64 \<Rightarrow> u64 option" where
  "leafpage m 0 p va = Some p"
| "leafpage m (Suc l) p va =
     (if valid m p (idx (Suc l) va) then leafpage m l (child m p (idx (Suc l) va)) va else None)"

definition leafval :: "bytes \<Rightarrow> nat \<Rightarrow> u64 \<Rightarrow> u64 \<Rightarrow> u64" where
  "leafval m l p va = (case leafpage m l p va of None \<Rightarrow> 0 | Some q \<Rightarrow> entry m q (idx 0 va))"

definition pt_inv :: "bytes \<Rightarrow> u64 \<Rightarrow> u64 set \<Rightarrow> (u64 \<Rightarrow> nat) \<Rightarrow> bool" where
  "pt_inv m root T lev \<longleftrightarrow> root \<in> T \<and> lev root = 2 \<and> (\<forall>p\<in>T. node p)
     \<and> (\<forall>p\<in>T. \<forall>i<512. lev p \<noteq> 0 \<longrightarrow> valid m p i \<longrightarrow> child m p i \<in> T \<and> Suc (lev (child m p i)) = lev p)
     \<and> (\<forall>p\<in>T. \<forall>q\<in>T. \<forall>i<512. \<forall>j<512. lev p \<noteq> 0 \<longrightarrow> lev q \<noteq> 0 \<longrightarrow> valid m p i \<longrightarrow> valid m q j \<longrightarrow>
          child m p i = child m q j \<longrightarrow> p = q \<and> i = j)"

lemma pt_inv_child:
  assumes "pt_inv m root T lev" and "p \<in> T" and "lev p = Suc l" and "valid m p i" and "i < 512"
  shows "child m p i \<in> T" and "lev (child m p i) = l"
proof -
  have "lev p \<noteq> 0" using assms(3) by simp
  with assms(1,2,4,5) have "child m p i \<in> T \<and> Suc (lev (child m p i)) = lev p"
    unfolding pt_inv_def by blast
  with assms(3) show "child m p i \<in> T" and "lev (child m p i) = l" by simp_all
qed

lemma pt_inv_node: "pt_inv m root T lev \<Longrightarrow> p \<in> T \<Longrightarrow> node p"
  unfolding pt_inv_def by blast

lemma flag_1_iff: "x AND PTE_V \<noteq> 0 \<longleftrightarrow> bit x 0" for x :: u64
  by (simp add: PTE_V_def and_one_eq bit_0 odd_iff_mod_2_eq_one mod2_eq_if)

lemma valid_iff: "valid m p i \<longleftrightarrow> bit (entry m p i) 0"
  by (simp add: valid_def flag_1_iff)

lemma idx_less [simp]: "idx l va < 512"
proof -
  have "PX l va = take_bit 9 (drop_bit (PXSHIFT l) va)"
    by (simp add: PX_def PXMASK_def take_bit_eq_mask mask_eq_exp_minus_1)
  then have "idx l va = take_bit 9 (unat (drop_bit (PXSHIFT l) va))"
    by (simp add: idx_def unsigned_take_bit_eq)
  then show ?thesis by (simp add: take_bit_eq_mod)
qed

lemma pte_addr_unat:
  assumes "node p" and "unat i < 512"
  shows "unat (pte_addr p i) = unat p + 8 * unat i"
proof -
  have "unat (8 * i) = 8 * unat i"
    using assms(2) by (simp add: unat_word_ariths)
  then show ?thesis
    using assms by (simp add: pte_addr_def unat_word_ariths node_def)
qed

lemma pte_addr_PX: "node p \<Longrightarrow> unat (pte_addr p (PX l va)) = unat p + 8 * idx l va"
  using pte_addr_unat [of p "PX l va"] idx_less [of l va] by (simp add: idx_def)

lemma load_pte_entry: "node p \<Longrightarrow> load_pte (pte_addr p (PX l va)) s = entry (pmem s) p (idx l va)"
  by (simp add: load_pte_def entry_def pte_addr_PX)

lemma pte_addr_neq_0: "node p \<Longrightarrow> pte_addr p (PX l va) \<noteq> 0"
proof
  assume n: "node p" and "pte_addr p (PX l va) = 0"
  then have "unat p + 8 * idx l va = 0" using pte_addr_PX [OF n, of l va] by simp
  with n show False by (simp add: node_def unat_eq_0)
qed

lemma node_sep: "node p \<Longrightarrow> node q \<Longrightarrow> p \<noteq> q \<Longrightarrow> unat p + 4096 \<le> unat q \<or> unat q + 4096 \<le> unat p"
proof -
  assume n: "node p" "node q" "p \<noteq> q"
  obtain u v where uv: "unat p = 4096 * u" "unat q = 4096 * v"
    using n by (auto simp: node_def page_aligned elim!: dvdE)
  have "unat p \<noteq> unat q" using n(3) by (simp add: word_unat_eq_iff)
  with uv show ?thesis by auto
qed

lemma entry_store:
  assumes "node p" and "node q" and "i < 512" and "j < 512"
  shows "entry (st64 m (unat p + 8 * i) v) q j = (if p = q \<and> i = j then v else entry m q j)"
proof (cases "p = q")
  case True
  show ?thesis
  proof (cases "i = j")
    case True
    with \<open>p = q\<close> show ?thesis by (simp add: entry_def mem_simps)
  next
    case False
    then have "8 * i + 8 \<le> 8 * j \<or> 8 * j + 8 \<le> 8 * i" by auto
    with True False show ?thesis by (auto simp: entry_def ld64_st64_other)
  qed
next
  case False
  with node_sep [OF assms(1,2)] assms(3,4) have "unat p + 8 * i + 8 \<le> unat q + 8 * j
    \<or> unat q + 8 * j + 8 \<le> unat p + 8 * i" by auto
  with False show ?thesis by (simp add: entry_def ld64_st64_other)
qed

lemma ld64_zero: "(\<And>i. a \<le> i \<Longrightarrow> i < a + 8 \<Longrightarrow> m i = 0) \<Longrightarrow> ld64 m a = 0"
  using ld64_cong [of a m "\<lambda>_. 0"] by (simp add: ld64_def ld32_def)

lemma entry_zero_page:
  assumes "node p" and "node q" and "j < 512"
  shows "entry (memset m (unat p) 0 4096) q j = (if p = q then 0 else entry m q j)"
proof (cases "p = q")
  case True
  then show ?thesis
    using assms(3) by (auto simp: entry_def memset_eq intro!: ld64_zero)
next
  case False
  then show ?thesis
    using node_sep [OF assms(1,2)] assms(3)
    by (auto simp: entry_def memset_eq intro!: ld64_cong)
qed

lemma PTE2PA_new:
  assumes "node n" and "flags AND NOT 0x3FF = 0"
  shows "PTE2PA (PA2PTE n OR flags) = n"
proof (rule bit_word_eqI)
  fix k :: nat
  assume k: "k < LENGTH(64)"
  have "4096 dvd unat n" and lt: "unat n < 2 ^ 55" using assms(1) by (auto simp: node_def page_aligned)
  then have low: "take_bit 12 (unat n) = 0" by (simp add: take_bit_eq_mod dvd_eq_mod_eq_0)
  have b0: "\<not> bit n k" if "k < 12"
  proof
    assume "bit n k"
    then have "bit (unat n) k" by (simp add: bit_unsigned_iff)
    with that have "bit (take_bit 12 (unat n)) k" by (simp add: bit_take_bit_iff)
    with low show False by simp
  qed
  have hi: "\<not> bit n k" if "55 \<le> k"
  proof -
    have "take_bit 55 (unat n) = unat n" using lt by (simp add: take_bit_nat_eq_self)
    moreover have "\<not> bit (take_bit 55 (unat n)) k" using that by (simp add: bit_take_bit_iff)
    ultimately show ?thesis by (simp add: bit_unsigned_iff)
  qed
  have f: "\<not> bit flags j" if "10 \<le> j" "j < 64" for j
  proof -
    have "0x3FF = (mask 10 :: u64)" by (simp add: mask_eq_exp_minus_1)
    moreover have "\<not> bit (mask 10 :: u64) j" using that unfolding bit_mask_iff by simp
    ultimately have "\<not> bit (0x3FF :: u64) j" by metis
    then have "bit (flags AND NOT 0x3FF) j \<longleftrightarrow> bit flags j"
      using that by (simp add: bit_simps)
    with assms(2) show ?thesis by simp
  qed
  show "bit (PTE2PA (PA2PTE n OR flags)) k = bit n k"
  proof (cases "k < 12")
    case True
    then show ?thesis using b0 by (simp add: PTE2PA_def PA2PTE_def bit_simps)
  next
    case False
    then obtain j where "k = 12 + j" by (auto simp: not_less nat_le_iff_add)
    then show ?thesis using k hi f [of "10 + j"] by (auto simp: PTE2PA_def PA2PTE_def bit_simps)
  qed
qed

section \<open>Growing a table\<close>

lemma leafpage_in:
  "pt_inv m root T lev \<Longrightarrow> p \<in> T \<Longrightarrow> lev p = l \<Longrightarrow> leafpage m l p va = Some q \<Longrightarrow> q \<in> T \<and> lev q = 0"
proof (induction l arbitrary: p)
  case 0
  then show ?case by simp
next
  case (Suc l)
  then show ?case
    using pt_inv_child [of m root T lev p l "idx (Suc l) va"] by (auto split: if_splits)
qed

text \<open>The table after a new page \<open>n\<close> is hung below entry \<open>i\<close> of page \<open>p\<close>.\<close>

lemma hang_entries:
  fixes m :: bytes and p n :: u64 and i :: nat
  assumes "node p" and "node n" and "p \<noteq> n" and "i < 512"
  defines "m' \<equiv> st64 (memset m (unat n) 0 4096) (unat p + 8 * i) (PA2PTE n OR PTE_V)"
  shows "entry m' p i = PA2PTE n OR PTE_V" and "valid m' p i" and "child m' p i = n"
    and "j < 512 \<Longrightarrow> entry m' n j = 0"
    and "node q \<Longrightarrow> q \<noteq> n \<Longrightarrow> j < 512 \<Longrightarrow> (q, j) \<noteq> (p, i) \<Longrightarrow> entry m' q j = entry m q j"
proof -
  show e: "entry m' p i = PA2PTE n OR PTE_V" using assms by (simp add: entry_store)
  have "bit (PA2PTE n OR PTE_V) 0" by (simp add: PTE_V_def bit_simps)
  then show "valid m' p i" by (simp add: valid_iff e)
  show "child m' p i = n" using PTE2PA_new [OF assms(2), of PTE_V] by (simp add: child_def e PTE_V_def)
  show "j < 512 \<Longrightarrow> entry m' n j = 0"
    using assms by (simp add: entry_store entry_zero_page)
  show "node q \<Longrightarrow> q \<noteq> n \<Longrightarrow> j < 512 \<Longrightarrow> (q, j) \<noteq> (p, i) \<Longrightarrow> entry m' q j = entry m q j"
    using assms by (auto simp: entry_store entry_zero_page)
qed

lemma valid_entry: "entry m' q j = entry m q j \<Longrightarrow> valid m' q j = valid m q j \<and> child m' q j = child m q j"
  by (simp add: valid_def child_def)

lemma valid_zero: "entry m q j = 0 \<Longrightarrow> \<not> valid m q j"
  by (simp add: valid_def)

lemma hang_inv:
  fixes m :: bytes and p n :: u64 and i :: nat
  assumes inv: "pt_inv m root T lev" and p: "p \<in> T" "lev p = Suc l" and n: "node n" "n \<notin> T"
    and i: "i < 512" and nv: "\<not> valid m p i"
  defines "m' \<equiv> st64 (memset m (unat n) 0 4096) (unat p + 8 * i) (PA2PTE n OR PTE_V)"
  shows "pt_inv m' root (insert n T) (lev(n := l))"
proof -
  have np: "node p" and pn: "p \<noteq> n" using inv p(1) n(2) by (auto dest: pt_inv_node)
  note h = hang_entries [OF np n(1) pn i, where m = m, folded m'_def]
  have old: "valid m' q j = valid m q j \<and> child m' q j = child m q j"
    if "q \<in> T" "j < 512" "(q, j) \<noteq> (p, i)" for q j
    using that inv n(2) by (intro valid_entry h(5)) (auto dest: pt_inv_node)
  have new: "\<not> valid m' n j" if "j < 512" for j using valid_zero [OF h(4) [OF that]] .
  have ch: "child m q j \<noteq> n" if "q \<in> T" "lev q \<noteq> 0" "j < 512" "valid m q j" for q j
    using pt_inv_child(1) [OF inv that(1) _ that(4,3), of "lev q - 1"] that(2) n(2) by auto
  show ?thesis
    unfolding pt_inv_def
  proof (intro conjI ballI allI impI)
    show "root \<in> insert n T" and "(lev(n := l)) root = 2" using inv n(2) by (auto simp: pt_inv_def)
    show "node q" if "q \<in> insert n T" for q using that n(1) inv by (auto dest: pt_inv_node)
  next
    fix q j
    assume q: "q \<in> insert n T" "j < 512" "(lev(n := l)) q \<noteq> 0" "valid m' q j"
    then have qT: "q \<in> T" and qn: "q \<noteq> n" using new n(2) by auto
    have "child m' q j \<in> insert n T \<and> Suc ((lev(n := l)) (child m' q j)) = (lev(n := l)) q"
    proof (cases "(q, j) = (p, i)")
      case True
      then show ?thesis using h(3) p(2) pn by simp
    next
      case False
      with old [OF qT q(2)] q(4) have v: "valid m q j" "child m' q j = child m q j" by auto
      then have "child m q j \<in> T \<and> Suc (lev (child m q j)) = lev q"
        using inv qT q(2,3) qn unfolding pt_inv_def by auto
      with v(2) qn n(2) show ?thesis by auto
    qed
    then show "child m' q j \<in> insert n T"
      and "Suc ((lev(n := l)) (child m' q j)) = (lev(n := l)) q" by simp_all
  next
    fix q r j k
    assume a: "q \<in> insert n T" "r \<in> insert n T" "j < 512" "k < 512" "(lev(n := l)) q \<noteq> 0"
      "(lev(n := l)) r \<noteq> 0" "valid m' q j" "valid m' r k" "child m' q j = child m' r k"
    then have T: "q \<in> T" "r \<in> T" and lv: "lev q \<noteq> 0" "lev r \<noteq> 0"
      using new n(2) by (auto split: if_splits)
    have "q = r \<and> j = k"
    proof (cases "(q, j) = (p, i)")
      case True
      have "(r, k) = (p, i)"
      proof (rule ccontr)
        assume "(r, k) \<noteq> (p, i)"
        then have "valid m r k" "child m r k = n"
          using old [OF T(2) a(4)] a(8,9) True h(3) by auto
        with ch [OF T(2) lv(2) a(4)] show False by simp
      qed
      with True show ?thesis by simp
    next
      case False
      have F2: "(r, k) \<noteq> (p, i)"
      proof
        assume "(r, k) = (p, i)"
        then have "valid m q j" "child m q j = n"
          using old [OF T(1) a(3) False] a(7,9) h(3) by auto
        with ch [OF T(1) lv(1) a(3)] show False by simp
      qed
      from old [OF T(1) a(3) False] old [OF T(2) a(4) F2] a(7-9)
      have "valid m q j" "valid m r k" "child m q j = child m r k" by auto
      with inv T lv a(3,4) show ?thesis unfolding pt_inv_def by blast
    qed
    then show "q = r" and "j = k" by simp_all
  qed
qed

text \<open>Hanging an empty page changes no translation.\<close>

lemma hang_leafval:
  fixes m :: bytes and p n :: u64 and i :: nat
  assumes inv: "pt_inv m root T lev" and p: "p \<in> T" "lev p = Suc l" and n: "node n" "n \<notin> T"
    and i: "i < 512" and nv: "\<not> valid m p i"
  defines "m' \<equiv> st64 (memset m (unat n) 0 4096) (unat p + 8 * i) (PA2PTE n OR PTE_V)"
  shows "q \<in> T \<Longrightarrow> lev q = k \<Longrightarrow> leafval m' k q vb = leafval m k q vb"
proof (induction k arbitrary: q)
  case 0
  have np: "node p" and pn: "p \<noteq> n" using inv p(1) n(2) by (auto dest: pt_inv_node)
  have "entry m' q (idx 0 vb) = entry m q (idx 0 vb)"
    unfolding m'_def by (rule hang_entries(5) [OF np n(1) pn i])
      (use 0 p(2) n(2) inv in \<open>auto dest: pt_inv_node\<close>)
  then show ?case by (simp add: leafval_def)
next
  case (Suc k)
  have np: "node p" and pn: "p \<noteq> n" using inv p(1) n(2) by (auto dest: pt_inv_node)
  note h = hang_entries [OF np n(1) pn i, where m = m, folded m'_def]
  let ?j = "idx (Suc k) vb"
  show ?case
  proof (cases "(q, ?j) = (p, i)")
    case True
    have "leafval m' k n vb = 0"
      using valid_zero [OF h(4)] by (cases k) (simp_all add: leafval_def h(4))
    with True nv h(2,3) show ?thesis by (simp add: leafval_def)
  next
    case False
    have "valid m' q ?j = valid m q ?j \<and> child m' q ?j = child m q ?j"
      by (intro valid_entry h(5)) (use Suc.prems False n(2) inv in \<open>auto dest: pt_inv_node\<close>)
    with Suc.IH [of "child m q ?j"] pt_inv_child [OF inv Suc.prems(1,2), of ?j] show ?thesis
      by (simp add: leafval_def)
  qed
qed

section \<open>\<open>walk\<close>\<close>

lemma walk_false:
  "pt_inv (pmem s) root T lev \<Longrightarrow> p \<in> T \<Longrightarrow> lev p = l \<Longrightarrow>
   walk_loop l p va False s
     = (case leafpage (pmem s) l p va of None \<Rightarrow> 0 | Some q \<Rightarrow> pte_addr q (PX 0 va), s)"
proof (induction l arbitrary: p)
  case 0
  then show ?case by simp
next
  case (Suc l)
  let ?i = "idx (Suc l) va"
  have e: "load_pte (pte_addr p (PX (Suc l) va)) s = entry (pmem s) p ?i"
    by (rule load_pte_entry) (rule pt_inv_node [OF Suc.prems(1,2)])
  show ?case
  proof (cases "valid (pmem s) p ?i")
    case True
    then have c: "child (pmem s) p ?i \<in> T" "lev (child (pmem s) p ?i) = l"
      using pt_inv_child [OF Suc.prems(1-3)] by simp_all
    have "walk_loop (Suc l) p va False s = walk_loop l (child (pmem s) p ?i) va False s"
      using True by (simp add: e valid_def child_def Let_def)
    also have "\<dots> = (case leafpage (pmem s) l (child (pmem s) p ?i) va of
        None \<Rightarrow> 0 | Some q \<Rightarrow> pte_addr q (PX 0 va), s)"
      by (rule Suc.IH [OF Suc.prems(1) c])
    finally show ?thesis using True by simp
  next
    case False
    then show ?thesis by (simp add: e valid_def Let_def)
  qed
qed

text \<open>
  What an allocating walk, or any other operation that only adds empty tables, preserves: the
  free pages it takes become pages of the table, every translation stays.
\<close>

definition grown ::
  "'z kstate_scheme \<Rightarrow> u64 \<Rightarrow> u64 set \<Rightarrow> (u64 \<Rightarrow> nat) \<Rightarrow> u64 list \<Rightarrow>
   'z kstate_scheme \<Rightarrow> u64 set \<Rightarrow> (u64 \<Rightarrow> nat) \<Rightarrow> u64 list \<Rightarrow> bool" where
  "grown s root T lev xs s' T' lev' xs' \<longleftrightarrow>
     kmem_ok s' xs' \<and> pt_inv (pmem s') root T' lev' \<and> T \<subseteq> T' \<and> (\<forall>q\<in>T. lev' q = lev q)
     \<and> T' \<inter> set xs' = {} \<and> T' \<union> set xs' = T \<union> set xs
     \<and> (\<forall>vb. leafval (pmem s') 2 root vb = leafval (pmem s) 2 root vb)
     \<and> (\<forall>a. (\<forall>q\<in>T \<union> set xs. \<not> in_page q a) \<longrightarrow> pmem s' a = pmem s a)
     \<and> s' = s\<lparr>pmem := pmem s', freelist := freelist s'\<rparr>"

lemma grown_refl:
  "kmem_ok s xs \<Longrightarrow> pt_inv (pmem s) root T lev \<Longrightarrow> T \<inter> set xs = {} \<Longrightarrow> grown s root T lev xs s T lev xs"
  by (simp add: grown_def)

lemma grown_trans:
  assumes "grown s root T lev xs s1 T1 lev1 xs1" and "grown s1 root T1 lev1 xs1 s2 T2 lev2 xs2"
  shows "grown s root T lev xs s2 T2 lev2 xs2"
proof -
  have a: "T \<subseteq> T1" "\<forall>q\<in>T. lev1 q = lev q" "T1 \<union> set xs1 = T \<union> set xs"
    "\<And>vb. leafval (pmem s1) 2 root vb = leafval (pmem s) 2 root vb"
    "\<And>c. (\<forall>q\<in>T \<union> set xs. \<not> in_page q c) \<Longrightarrow> pmem s1 c = pmem s c"
    "s1 = s\<lparr>pmem := pmem s1, freelist := freelist s1\<rparr>"
    using assms(1) unfolding grown_def by blast+
  have b: "T1 \<subseteq> T2" "\<forall>q\<in>T1. lev2 q = lev1 q" "T2 \<union> set xs2 = T1 \<union> set xs1"
    "\<And>vb. leafval (pmem s2) 2 root vb = leafval (pmem s1) 2 root vb"
    "\<And>c. (\<forall>q\<in>T1 \<union> set xs1. \<not> in_page q c) \<Longrightarrow> pmem s2 c = pmem s1 c"
    "s2 = s1\<lparr>pmem := pmem s2, freelist := freelist s2\<rparr>"
    "kmem_ok s2 xs2" "pt_inv (pmem s2) root T2 lev2" "T2 \<inter> set xs2 = {}"
    using assms(2) unfolding grown_def by blast+
  have "pmem s2 c = pmem s c" if "\<forall>q\<in>T \<union> set xs. \<not> in_page q c" for c
    using b(5) [of c] a(5) [of c] that unfolding a(3) by simp
  moreover have "s2 = s\<lparr>pmem := pmem s2, freelist := freelist s2\<rparr>"
  proof -
    have "s1\<lparr>pmem := x, freelist := y\<rparr> = s\<lparr>pmem := x, freelist := y\<rparr>" for x y
      by (subst a(6)) simp
    with b(6) show ?thesis by simp
  qed
  moreover have "\<forall>q\<in>T. lev2 q = lev q" using a(1,2) b(2) by auto
  moreover have "T2 \<union> set xs2 = T \<union> set xs" using a(3) b(3) by simp
  moreover have "T \<subseteq> T2" using a(1) b(1) by (rule subset_trans)
  ultimately show ?thesis unfolding grown_def using b(7-9) a(4) b(4) by simp
qed

lemma node_page: "page s n \<Longrightarrow> node n"
  by (auto simp: page_def node_def word_less_nat_alt PHYSTOP_unat page_aligned elim!: dvdE)

lemma memset_memset: "memset (\<lambda>a. if in_page n a then v else m a) (unat n) 0 4096 = memset m (unat n) 0 4096"
  by (auto simp: memset_eq in_page_def)

text \<open>One new table below entry \<open>i\<close> of \<open>p\<close>.\<close>

lemma grow_one:
  fixes s :: "'z kstate_scheme"
  assumes km: "kmem_ok s (n # xs)" and inv: "pt_inv (pmem s) root T lev" and dis: "T \<inter> set (n # xs) = {}"
    and p: "p \<in> T" "lev p = Suc l" and nv: "\<not> valid (pmem s) p (idx (Suc l) va)"
  defines "s' \<equiv> store_pte (pte_addr p (PX (Suc l) va)) (PA2PTE n OR PTE_V) (zero_page n (snd (kalloc s)))"
  shows "grown s root T lev (n # xs) s' (insert n T) (lev(n := l)) xs"
    and "valid (pmem s') p (idx (Suc l) va)" and "child (pmem s') p (idx (Suc l) va) = n"
    and "\<And>q j. q \<in> T \<Longrightarrow> q \<noteq> p \<Longrightarrow> j < 512 \<Longrightarrow> entry (pmem s') q j = entry (pmem s) q j"
proof -
  let ?i = "idx (Suc l) va"
  have np: "node p" using inv p(1) by (rule pt_inv_node)
  have nn: "node n" using kalloc_pop(4) [OF km] by (rule node_page)
  have nT: "n \<notin> T" and pn: "p \<noteq> n" using dis p(1) by auto
  have m: "pmem s' = st64 (memset (pmem s) (unat n) 0 4096) (unat p + 8 * ?i) (PA2PTE n OR PTE_V)"
    by (simp add: s'_def store_pte_def zero_page_def pte_addr_PX [OF np] kalloc_pop(1) [OF km] memset_memset)
  have fr: "s' = s\<lparr>pmem := pmem s', freelist := freelist s'\<rparr>"
    by (simp add: s'_def store_pte_def zero_page_def kalloc_pop(1) [OF km])
  have out: "pmem s' a = pmem s a" if "\<not> in_page n a" "\<not> in_page p a" for a
  proof -
    have "a < unat p + 8 * ?i \<or> unat p + 8 * ?i + 8 \<le> a"
      using that(2) idx_less [of "Suc l" va] unfolding in_page_def by linarith
    then have "pmem s' a = memset (pmem s) (unat n) 0 4096 a" unfolding m by (rule st64_other)
    with that(1) show ?thesis by (auto simp: memset_eq in_page_def)
  qed
  have "kmem_ok s' xs"
  proof (rule kmem_ok_cong [OF kalloc_pop(2) [OF km]])
    show "freelist s' = freelist (snd (kalloc s))" "kend s' = kend (snd (kalloc s))"
      by (simp_all add: s'_def store_pte_def zero_page_def)
    fix x a
    assume x: "x \<in> set xs" "in_page x a"
    have px: "page s x" and xn: "x \<noteq> n" using km x(1) by (auto simp: kmem_ok_def)
    have "\<not> in_page n a" "\<not> in_page p a"
      using pages_disjoint [of x n a] pages_disjoint [of x p a] x px xn dis p(1) np nn
      by (auto simp: page_def node_def)
    then show "pmem s' a = pmem (snd (kalloc s)) a"
      using out by (simp add: kalloc_pop(1) [OF km])
  qed
  moreover have "pt_inv (pmem s') root (insert n T) (lev(n := l))"
    unfolding m by (rule hang_inv [OF inv p nn nT idx_less nv])
  moreover have "leafval (pmem s') 2 root vb = leafval (pmem s) 2 root vb" for vb
    unfolding m by (rule hang_leafval [OF inv p nn nT idx_less nv]) (use inv in \<open>auto simp: pt_inv_def\<close>)
  moreover have "n \<notin> set xs" using km by (simp add: kmem_ok_def)
  ultimately show "grown s root T lev (n # xs) s' (insert n T) (lev(n := l)) xs"
    unfolding grown_def using fr out p(1) dis nT by auto
  note h = hang_entries [OF np nn pn, of ?i, where m = "pmem s", folded m]
  show "valid (pmem s') p ?i" and "child (pmem s') p ?i = n" using h(2,3) by simp_all
  show "entry (pmem s') q j = entry (pmem s) q j" if "q \<in> T" "q \<noteq> p" "j < 512" for q j
    using h(5) [of q j] that nT inv by (auto dest: pt_inv_node)
qed

lemma walk_true:
  "kmem_ok s xs \<Longrightarrow> pt_inv (pmem s) root T lev \<Longrightarrow> T \<inter> set xs = {} \<Longrightarrow> p \<in> T \<Longrightarrow> lev p = l \<Longrightarrow>
   \<exists>a s' T' lev' xs'. walk_loop l p va True s = (a, s') \<and> grown s root T lev xs s' T' lev' xs'
     \<and> (\<forall>q\<in>T. lev q > l \<longrightarrow> (\<forall>j<512. entry (pmem s') q j = entry (pmem s) q j))
     \<and> (if a = 0 then xs' = []
        else \<exists>q\<in>T'. lev' q = 0 \<and> a = pte_addr q (PX 0 va) \<and> leafpage (pmem s') l p va = Some q)"
proof (induction l arbitrary: p s T lev xs)
  case 0
  have "node p" using 0 by (auto dest: pt_inv_node)
  with 0 show ?case by (auto intro!: exI [of _ T] grown_refl exI [of _ lev] exI [of _ xs] simp: pte_addr_neq_0)
next
  case (Suc l)
  let ?i = "idx (Suc l) va"
  have np: "node p" by (rule pt_inv_node [OF Suc.prems(2,4)])
  note e = load_pte_entry [OF np, of "Suc l" va s]
  show ?case
  proof (cases "valid (pmem s) p ?i")
    case True
    then have c: "child (pmem s) p ?i \<in> T" "lev (child (pmem s) p ?i) = l"
      using pt_inv_child [OF Suc.prems(2,4,5)] by simp_all
    from Suc.IH [OF Suc.prems(1-3) c] obtain a s' T' lev' xs' where
      w: "walk_loop l (child (pmem s) p ?i) va True s = (a, s')" and g: "grown s root T lev xs s' T' lev' xs'"
      and up: "\<forall>q\<in>T. lev q > l \<longrightarrow> (\<forall>j<512. entry (pmem s') q j = entry (pmem s) q j)"
      and r: "if a = 0 then xs' = [] else \<exists>q\<in>T'. lev' q = 0 \<and> a = pte_addr q (PX 0 va)
        \<and> leafpage (pmem s') l (child (pmem s) p ?i) va = Some q"
      by blast
    have "entry (pmem s') p ?i = entry (pmem s) p ?i" using up Suc.prems(4,5) by simp
    then have "valid (pmem s') p ?i = valid (pmem s) p ?i \<and> child (pmem s') p ?i = child (pmem s) p ?i"
      by (rule valid_entry)
    with r True have r': "if a = 0 then xs' = [] else \<exists>q\<in>T'. lev' q = 0 \<and> a = pte_addr q (PX 0 va)
        \<and> leafpage (pmem s') (Suc l) p va = Some q" by simp
    have w': "walk_loop (Suc l) p va True s = (a, s')"
      using True w by (simp add: e valid_def child_def Let_def)
    have up': "\<forall>q\<in>T. lev q > Suc l \<longrightarrow> (\<forall>j<512. entry (pmem s') q j = entry (pmem s) q j)"
      using up by simp
    show ?thesis using w' g up' r' by blast
  next
    case False
    show ?thesis
    proof (cases xs)
      case Nil
      then have "walk_loop (Suc l) p va True s = (0, s)"
        using False Suc.prems(1) kalloc_empty [of s] by (simp add: e valid_def Let_def)
      moreover have "grown s root T lev xs s T lev xs" by (rule grown_refl [OF Suc.prems(1-3)])
      ultimately show ?thesis using Nil by (metis (full_types))
    next
      case (Cons n ys)
      define s1 where "s1 = store_pte (pte_addr p (PX (Suc l) va)) (PA2PTE n OR PTE_V) (zero_page n (snd (kalloc s)))"
      note g1 = grow_one [OF Suc.prems(1-3) [unfolded Cons] Suc.prems(4,5) False, folded s1_def]
      have i1: "kmem_ok s1 ys" "pt_inv (pmem s1) root (insert n T) (lev(n := l))" "insert n T \<inter> set ys = {}"
        using g1(1) by (simp_all add: grown_def)
      have nT: "n \<notin> T" using Suc.prems(3) Cons by auto
      from Suc.IH [OF i1 insertI1 fun_upd_same] obtain a s' T' lev' xs' where
        w: "walk_loop l n va True s1 = (a, s')" and g: "grown s1 root (insert n T) (lev(n := l)) ys s' T' lev' xs'"
        and up: "\<forall>q\<in>insert n T. (lev(n := l)) q > l \<longrightarrow> (\<forall>j<512. entry (pmem s') q j = entry (pmem s1) q j)"
        and r: "if a = 0 then xs' = [] else \<exists>q\<in>T'. lev' q = 0 \<and> a = pte_addr q (PX 0 va)
          \<and> leafpage (pmem s') l n va = Some q"
        by blast
      have "p \<noteq> n" using Suc.prems(4) nT by auto
      then have "entry (pmem s') p ?i = entry (pmem s1) p ?i" using up Suc.prems(4,5) by simp
      then have "valid (pmem s') p ?i = valid (pmem s1) p ?i \<and> child (pmem s') p ?i = child (pmem s1) p ?i"
        by (rule valid_entry)
      with r g1(2,3) have r': "if a = 0 then xs' = [] else \<exists>q\<in>T'. lev' q = 0 \<and> a = pte_addr q (PX 0 va)
          \<and> leafpage (pmem s') (Suc l) p va = Some q" by simp
      have k: "fst (kalloc s) = n" "n \<noteq> 0"
        using kalloc_pop(1,3) [OF Suc.prems(1) [unfolded Cons]] by simp_all
      have "walk_loop (Suc l) p va True s = walk_loop l n va True s1"
        using False k by (simp add: e valid_def Let_def s1_def case_prod_unfold)
      with w have w': "walk_loop (Suc l) p va True s = (a, s')" by simp
      have "entry (pmem s') q j = entry (pmem s) q j" if "q \<in> T" "lev q > Suc l" "j < 512" for q j
      proof -
        have "q \<noteq> n" "q \<noteq> p" using that nT Suc.prems(5) by auto
        with up that have "entry (pmem s') q j = entry (pmem s1) q j" by auto
        with g1(4) [OF that(1) \<open>q \<noteq> p\<close> that(3)] show ?thesis by simp
      qed
      then have up': "\<forall>q\<in>T. lev q > Suc l \<longrightarrow> (\<forall>j<512. entry (pmem s') q j = entry (pmem s) q j)"
        by blast
      have "grown s root T lev xs s' T' lev' xs'" using grown_trans [OF g1(1) g] Cons by simp
      with w' up' r' show ?thesis by blast
    qed
  qed
qed

section \<open>Page numbers\<close>

text \<open>The number of the page of an address, and the first address of a page.\<close>

definition pn :: "u64 \<Rightarrow> nat" where
  "pn va = unat va div 4096"

definition pg :: "nat \<Rightarrow> u64" where
  "pg i = of_nat (4096 * i)"

lemma unat_pg: "i < 2 ^ 52 \<Longrightarrow> unat (pg i) = 4096 * i"
  by (simp add: pg_def unat_of_nat del: of_nat_mult)

lemma pn_pg [simp]: "i < 2 ^ 52 \<Longrightarrow> pn (pg i) = i"
  by (simp add: pn_def unat_pg)

lemma pg_Suc: "pg (Suc i) = pg i + PGSIZE"
  by (simp add: pg_def PGSIZE_def)

lemma pg_add: "pg (i + k) = pg i + of_nat k * PGSIZE"
  by (simp add: pg_def PGSIZE_def algebra_simps)

lemma MAXVA_unat: "unat MAXVA = 2 ^ 38"
  by (simp add: MAXVA_def)

lemma pn_less: "va < MAXVA \<Longrightarrow> pn va < 2 ^ 26"
  by (simp add: pn_def word_less_nat_alt MAXVA_unat)

lemma pg_less: "i < 2 ^ 26 \<Longrightarrow> pg i < MAXVA"
  by (simp add: word_less_nat_alt MAXVA_unat unat_pg)

lemma PGROUNDDOWN_pg: "PGROUNDDOWN va = pg (pn va)"
proof -
  have m: "PGSIZE - 1 = mask 12" by (simp add: PGSIZE_def mask_eq_exp_minus_1)
  have "PGROUNDDOWN va = push_bit 12 (drop_bit 12 va)"
    unfolding PGROUNDDOWN_def m by (rule bit_word_eqI) (auto simp: bit_simps)
  also have "\<dots> = (va div 4096) * 4096" by (simp add: push_bit_eq_mult drop_bit_eq_div)
  also have "va div 4096 = of_nat (unat va div 4096)"
  proof -
    have "unat va div 4096 < 2 ^ LENGTH(64)"
      by (rule le_less_trans [OF div_le_dividend]) (rule unsigned_less)
    then have "unat (of_nat (unat va div 4096) :: u64) = unat va div 4096"
      by (simp only: unat_of_nat mod_less)
    then show ?thesis by (simp add: word_unat_eq_iff unat_div_distrib)
  qed
  finally show ?thesis by (simp add: pg_def pn_def mult.commute)
qed

lemma idx_pn: "idx l va = pn va div 2 ^ (9 * l) mod 512"
proof -
  have "PX l va = take_bit 9 (drop_bit (12 + 9 * l) va)"
    by (simp add: PX_def PXMASK_def PXSHIFT_def take_bit_eq_mask mask_eq_exp_minus_1)
  then have "idx l va = take_bit 9 (drop_bit (12 + 9 * l) (unat va))"
    by (simp add: idx_def unsigned_take_bit_eq unat_drop_bit_eq)
  also have "\<dots> = unat va div 2 ^ (12 + 9 * l) mod 512"
    by (simp add: take_bit_eq_mod drop_bit_eq_div)
  also have "unat va div 2 ^ (12 + 9 * l) = pn va div 2 ^ (9 * l)"
    by (simp add: pn_def power_add div_mult2_eq)
  finally show ?thesis .
qed

lemma idx_same: "pn va = pn vb \<Longrightarrow> idx l va = idx l vb"
  by (simp add: idx_pn)

lemma leafpage_pn: "pn va = pn vb \<Longrightarrow> leafpage m k r va = leafpage m k r vb"
proof (induction k arbitrary: r)
  case (Suc k)
  show ?case using Suc.IH [OF Suc.prems] idx_same [OF Suc.prems, of "Suc k"] by simp
qed simp

lemma idx_eq_pn:
  assumes "va < MAXVA" and "vb < MAXVA" and "idx 0 va = idx 0 vb" "idx 1 va = idx 1 vb" "idx 2 va = idx 2 vb"
  shows "pn va = pn vb"
proof -
  have digits: "x = x div 262144 mod 512 * 262144 + x div 512 mod 512 * 512 + x mod 512"
    if "x < 2 ^ 26" for x :: nat
  proof -
    have "x div 512 div 512 = x div 262144" by (simp add: div_mult2_eq [symmetric])
    moreover have "x div 262144 < 512" using that by (simp add: div_less_iff_less_mult)
    moreover have "x = 512 * a + c \<Longrightarrow> a = 512 * b + d \<Longrightarrow> x = b * 262144 + d * 512 + c" for a b c d :: nat
      by simp
    from this [OF mult_div_mod_eq [symmetric] mult_div_mod_eq [symmetric]]
    have "x = x div 512 div 512 * 262144 + x div 512 mod 512 * 512 + x mod 512" .
    ultimately show ?thesis by simp
  qed
  have "pn va < 2 ^ 26" "pn vb < 2 ^ 26" using assms pn_less by auto
  with digits [of "pn va"] digits [of "pn vb"] assms(3-5) show ?thesis
    by (simp add: idx_pn)
qed

section \<open>Changing one leaf\<close>

lemma leafpage_unique:
  "pt_inv m root T lev \<Longrightarrow> r \<in> T \<Longrightarrow> r' \<in> T \<Longrightarrow> lev r = k \<Longrightarrow> lev r' = k \<Longrightarrow>
   leafpage m k r va = Some q \<Longrightarrow> leafpage m k r' vb = Some q \<Longrightarrow>
   r = r' \<and> (\<forall>j. 0 < j \<longrightarrow> j \<le> k \<longrightarrow> idx j va = idx j vb)"
proof (induction k arbitrary: r r')
  case 0
  then show ?case by simp
next
  case (Suc k)
  let ?i = "idx (Suc k) va" and ?j = "idx (Suc k) vb"
  have v: "valid m r ?i" "valid m r' ?j" and l: "leafpage m k (child m r ?i) va = Some q"
    "leafpage m k (child m r' ?j) vb = Some q"
    using Suc.prems(6,7) by (auto split: if_splits)
  note c = pt_inv_child [OF Suc.prems(1,2,4) v(1)] and c' = pt_inv_child [OF Suc.prems(1,3,5) v(2)]
  have IH: "child m r ?i = child m r' ?j \<and> (\<forall>j. 0 < j \<longrightarrow> j \<le> k \<longrightarrow> idx j va = idx j vb)"
    by (rule Suc.IH [OF Suc.prems(1) _ _ _ _ l]) (use c c' in simp_all)
  have lv: "lev r \<noteq> 0" "lev r' \<noteq> 0" using Suc.prems(4,5) by simp_all
  have "r = r' \<and> ?i = ?j"
    using Suc.prems(1) Suc.prems(2,3) lv v conjunct1 [OF IH] idx_less unfolding pt_inv_def by blast
  with IH show ?case by (auto simp: le_Suc_eq)
qed

lemma set_leaf:
  fixes m :: bytes and va v :: u64
  assumes inv: "pt_inv m root T lev" and q: "q \<in> T" "lev q = 0"
  defines "m' \<equiv> st64 m (unat q + 8 * idx 0 va) v"
  shows "pt_inv m' root T lev" and "r \<in> T \<Longrightarrow> lev r = k \<Longrightarrow> leafpage m' k r vb = leafpage m k r vb"
proof -
  have e: "entry m' r j = entry m r j" if "r \<in> T" "lev r \<noteq> 0" "j < 512" for r j
    using that q pt_inv_node [OF inv] by (auto simp: m'_def entry_store)
  then have vc: "valid m' r j = valid m r j \<and> child m' r j = child m r j"
    if "r \<in> T" "lev r \<noteq> 0" "j < 512" for r j
    using that by (intro valid_entry)
  show "pt_inv m' root T lev"
    unfolding pt_inv_def
  proof (intro conjI ballI allI impI)
    show "root \<in> T" "lev root = 2" using inv by (simp_all add: pt_inv_def)
    show "node p" if "p \<in> T" for p by (rule pt_inv_node [OF inv that])
  next
    fix p i
    assume a: "p \<in> T" "i < 512" "lev p \<noteq> 0" "valid m' p i"
    with vc [OF a(1,3,2)] inv have "child m' p i \<in> T \<and> Suc (lev (child m' p i)) = lev p"
      unfolding pt_inv_def by auto
    then show "child m' p i \<in> T" and "Suc (lev (child m' p i)) = lev p" by simp_all
  next
    fix p r i j
    assume a: "p \<in> T" "r \<in> T" "i < 512" "j < 512" "lev p \<noteq> 0" "lev r \<noteq> 0" "valid m' p i" "valid m' r j"
      "child m' p i = child m' r j"
    then have "valid m p i" "valid m r j" "child m p i = child m r j"
      using vc [OF a(1,5,3)] vc [OF a(2,6,4)] by simp_all
    with a(1-6) inv have "p = r \<and> i = j" unfolding pt_inv_def by blast
    then show "p = r" and "i = j" by simp_all
  qed
  show "r \<in> T \<Longrightarrow> lev r = k \<Longrightarrow> leafpage m' k r vb = leafpage m k r vb"
  proof (induction k arbitrary: r)
    case 0
    then show ?case by simp
  next
    case (Suc k)
    then show ?case
      using vc [of r "idx (Suc k) vb"] pt_inv_child [OF inv Suc.prems, of "idx (Suc k) vb"] by simp
  qed
qed

lemma set_leaf_val:
  fixes m :: bytes
  assumes inv: "pt_inv m root T lev" and q: "leafpage m 2 root va = Some q"
    and va: "va < MAXVA" and vb: "vb < MAXVA"
  shows "leafval (st64 m (unat q + 8 * idx 0 va) v) 2 root vb
    = (if pn vb = pn va then v else leafval m 2 root vb)"
proof -
  let ?m = "st64 m (unat q + 8 * idx 0 va) v"
  have rt: "root \<in> T" "lev root = 2" using inv by (auto simp: pt_inv_def)
  have qT: "q \<in> T" "lev q = 0" using leafpage_in [OF inv rt q] by simp_all
  have lp: "leafpage ?m 2 root vb = leafpage m 2 root vb" by (rule set_leaf(2) [OF inv qT rt])
  show ?thesis
  proof (cases "leafpage m 2 root vb")
    case None
    have "pn vb \<noteq> pn va"
    proof
      assume "pn vb = pn va"
      from leafpage_pn [OF this, of m 2 root] None q show False by simp
    qed
    with None lp show ?thesis by (simp add: leafval_def)
  next
    case (Some r)
    have rT: "r \<in> T" "lev r = 0" using leafpage_in [OF inv rt Some] by simp_all
    have nn: "node q" "node r" using inv qT rT by (auto dest: pt_inv_node)
    have eq: "q = r \<and> idx 0 va = idx 0 vb \<longleftrightarrow> pn vb = pn va"
    proof
      assume a: "q = r \<and> idx 0 va = idx 0 vb"
      then have "leafpage m 2 root vb = Some q" using Some by simp
      from leafpage_unique [OF inv rt(1) rt(1) rt(2) rt(2) q this]
      have "idx 1 va = idx 1 vb" "idx 2 va = idx 2 vb" by simp_all
      with a idx_eq_pn [OF va vb] show "pn vb = pn va" by simp
    next
      assume p: "pn vb = pn va"
      from leafpage_pn [OF p, of m 2 root] Some q idx_same [OF p, of 0] show "q = r \<and> idx 0 va = idx 0 vb" by simp
    qed
    show ?thesis
      using Some lp eq by (auto simp: leafval_def entry_store [OF nn])
  qed
qed

section \<open>\<open>mappages\<close>\<close>

text \<open>The leaf entries after the first \<open>k\<close> pages from page number \<open>i\<close> have been mapped.\<close>

definition mapped :: "(u64 \<Rightarrow> u64) \<Rightarrow> nat \<Rightarrow> nat \<Rightarrow> u64 \<Rightarrow> u64 \<Rightarrow> u64 \<Rightarrow> u64" where
  "mapped old i k pa perm vb =
     (if i \<le> pn vb \<and> pn vb < i + k
      then PA2PTE (pa + of_nat (pn vb - i) * PGSIZE) OR perm OR PTE_V else old vb)"

text \<open>A page table together with the free pages, and everything but memory unchanged.\<close>

definition pt_state :: "'z kstate_scheme \<Rightarrow> u64 \<Rightarrow> 'z kstate_scheme \<Rightarrow> u64 set \<Rightarrow> u64 set \<Rightarrow> u64 list \<Rightarrow> bool" where
  "pt_state s root s' P T xs \<longleftrightarrow> kmem_ok s' xs \<and> (\<exists>lev. pt_inv (pmem s') root T lev)
     \<and> T \<inter> set xs = {} \<and> T \<union> set xs = P
     \<and> (\<forall>a. (\<forall>q\<in>P. \<not> in_page q a) \<longrightarrow> pmem s' a = pmem s a)
     \<and> s' = s\<lparr>pmem := pmem s', freelist := freelist s'\<rparr>"

lemma pt_state_walk:
  assumes ps: "pt_state s root s1 P T xs" and va: "va < MAXVA"
  shows "runs (walk root va True s1) (\<lambda>a s2. \<exists>T2 xs2. pt_state s root s2 P T2 xs2
    \<and> (\<forall>vb. leafval (pmem s2) 2 root vb = leafval (pmem s1) 2 root vb)
    \<and> (if a = 0 then xs2 = [] else load_pte a s2 = leafval (pmem s2) 2 root va
         \<and> (\<forall>v. pt_state s root (store_pte a v s2) P T2 xs2
             \<and> (\<forall>vb<MAXVA. leafval (pmem (store_pte a v s2)) 2 root vb
                  = (if pn vb = pn va then v else leafval (pmem s2) 2 root vb)))))"
proof -
  obtain lev where inv: "pt_inv (pmem s1) root T lev" and km: "kmem_ok s1 xs" and dis: "T \<inter> set xs = {}"
    and P: "T \<union> set xs = P" and fr: "\<And>a. \<forall>q\<in>P. \<not> in_page q a \<Longrightarrow> pmem s1 a = pmem s a"
    and st: "s1 = s\<lparr>pmem := pmem s1, freelist := freelist s1\<rparr>"
    using ps unfolding pt_state_def by blast
  have rt: "root \<in> T" "lev root = 2" using inv by (simp_all add: pt_inv_def)
  obtain a s2 T2 lev2 xs2 where w: "walk_loop 2 root va True s1 = (a, s2)"
    and g: "grown s1 root T lev xs s2 T2 lev2 xs2"
    and r: "if a = 0 then xs2 = [] else \<exists>q\<in>T2. lev2 q = 0 \<and> a = pte_addr q (PX 0 va)
      \<and> leafpage (pmem s2) 2 root va = Some q"
    using walk_true [OF km inv dis rt] by blast
  have i2: "pt_inv (pmem s2) root T2 lev2" "kmem_ok s2 xs2" "T2 \<inter> set xs2 = {}" "T2 \<union> set xs2 = P"
    and lv: "\<forall>vb. leafval (pmem s2) 2 root vb = leafval (pmem s1) 2 root vb"
    and fr2: "\<And>a. \<forall>q\<in>P. \<not> in_page q a \<Longrightarrow> pmem s2 a = pmem s a"
    using g fr unfolding grown_def P by auto
  have "s2 = s1\<lparr>pmem := pmem s2, freelist := freelist s2\<rparr>" using g by (simp add: grown_def)
  moreover have "s1\<lparr>pmem := x, freelist := y\<rparr> = s\<lparr>pmem := x, freelist := y\<rparr>" for x y
    by (subst st) simp
  ultimately have st2: "s2 = s\<lparr>pmem := pmem s2, freelist := freelist s2\<rparr>" by simp
  have ps2: "pt_state s root s2 P T2 xs2"
    unfolding pt_state_def using i2 fr2 st2 by blast
  have "load_pte a s2 = leafval (pmem s2) 2 root va \<and> (\<forall>v. pt_state s root (store_pte a v s2) P T2 xs2
     \<and> (\<forall>vb<MAXVA. leafval (pmem (store_pte a v s2)) 2 root vb
          = (if pn vb = pn va then v else leafval (pmem s2) 2 root vb)))" if nz: "a \<noteq> 0"
  proof -
    obtain q where q: "q \<in> T2" "lev2 q = 0" "a = pte_addr q (PX 0 va)" "leafpage (pmem s2) 2 root va = Some q"
      using r nz by auto
    have nq: "node q" by (rule pt_inv_node [OF i2(1) q(1)])
    have m: "pmem (store_pte a v s2) = st64 (pmem s2) (unat q + 8 * idx 0 va) v" for v
      by (simp add: store_pte_def q(3) pte_addr_PX [OF nq])
    have out: "pmem (store_pte a v s2) c = pmem s2 c" if "\<not> in_page q c" for c v
    proof -
      have "c < unat q + 8 * idx 0 va \<or> unat q + 8 * idx 0 va + 8 \<le> c"
        using that idx_less [of 0 va] unfolding in_page_def by linarith
      then show ?thesis unfolding m by (rule st64_other)
    qed
    have "kmem_ok (store_pte a v s2) xs2" for v
    proof (rule kmem_ok_cong [OF i2(2)])
      show "freelist (store_pte a v s2) = freelist s2" "kend (store_pte a v s2) = kend s2"
        by (simp_all add: store_pte_def)
      fix x c
      assume x: "x \<in> set xs2" "in_page x c"
      have "\<not> in_page q c"
        using pages_disjoint [of x q c] x i2(2,3) q(1) nq by (auto simp: kmem_ok_def page_def node_def)
      then show "pmem (store_pte a v s2) c = pmem s2 c" by (rule out)
    qed
    moreover have "pt_inv (pmem (store_pte a v s2)) root T2 lev2" for v
      unfolding m by (rule set_leaf(1) [OF i2(1) q(1,2)])
    moreover have "pmem (store_pte a v s2) c = pmem s c" if "\<forall>q\<in>P. \<not> in_page q c" for c v
    proof -
      have "\<not> in_page q c" using that q(1) i2(4) by auto
      with fr2 [OF that] out [of c v] show ?thesis by simp
    qed
    moreover have "store_pte a v s2 = s\<lparr>pmem := pmem (store_pte a v s2), freelist := freelist (store_pte a v s2)\<rparr>" for v
      unfolding store_pte_def by (subst st2) simp
    moreover have "load_pte a s2 = leafval (pmem s2) 2 root va"
      using q(4) by (simp add: q(3) load_pte_entry [OF nq] leafval_def)
    ultimately show ?thesis
      unfolding pt_state_def using i2(3,4) set_leaf_val [OF i2(1) q(4) va, folded m] by blast
  qed
  with w ps2 lv r va show ?thesis
    by (auto simp: walk_def not_le split: if_splits)
qed

lemma mapped_0 [simp]: "mapped old i 0 pa perm vb = old vb"
  by (auto simp: mapped_def)

lemma mapped_Suc:
  "mapped old i (Suc k) pa perm vb = (if pn vb = i + k then PA2PTE (pa + of_nat k * PGSIZE) OR perm OR PTE_V
     else mapped old i k pa perm vb)"
  by (auto simp: mapped_def)

lemma mappages_loop:
  assumes ps: "pt_state s root s P T xs" and n: "i + n < 2 ^ 26"
    and free: "\<And>vb. vb < MAXVA \<Longrightarrow> i \<le> pn vb \<Longrightarrow> pn vb \<le> i + n \<Longrightarrow> leafval (pmem s) 2 root vb AND PTE_V = 0"
  shows "runs (loop (n + 1) (mappages_step root (pg (i + n)) perm) (pg i, pa) s)
    (\<lambda>r s'. \<exists>T' xs' k. pt_state s root s' P T' xs'
      \<and> (\<forall>vb<MAXVA. leafval (pmem s') 2 root vb = mapped (leafval (pmem s) 2 root) i k pa perm vb)
      \<and> (r = 0 \<and> k = n + 1 \<or> r = - 1 \<and> k \<le> n \<and> xs' = []))"
proof (rule loop_runs [where f = "\<lambda>(a, _). i + n - pn a" and I = "\<lambda>(a, q) st. \<exists>k T' xs'. k \<le> n \<and> a = pg (i + k)
    \<and> q = pa + of_nat k * PGSIZE \<and> pt_state s root st P T' xs'
    \<and> (\<forall>vb<MAXVA. leafval (pmem st) 2 root vb = mapped (leafval (pmem s) 2 root) i k pa perm vb)"], goal_cases)
  case 1
  have "pg i = pg (i + 0) \<and> pa = pa + of_nat 0 * PGSIZE" by simp
  with ps show ?case by (auto intro!: exI [of _ "0 :: nat"])
next
  case 2
  then show ?case using n by simp
next
  case (3 x st)
  then obtain k T1 xs1 where k: "k \<le> n" and x: "x = (pg (i + k), pa + of_nat k * PGSIZE)"
    and st: "pt_state s root st P T1 xs1"
    and lf: "\<And>vb. vb < MAXVA \<Longrightarrow> leafval (pmem st) 2 root vb = mapped (leafval (pmem s) 2 root) i k pa perm vb"
    by (cases x) auto
  have va: "pg (i + k) < MAXVA" using n k by (intro pg_less) simp
  have pk: "pn (pg (i + k)) = i + k" using n k by (intro pn_pg) simp
  obtain a s2 T2 xs2 where w: "walk root (pg (i + k)) True st = Inr (a, s2)"
    and p2: "pt_state s root s2 P T2 xs2" and l2: "\<forall>vb. leafval (pmem s2) 2 root vb = leafval (pmem st) 2 root vb"
    and r: "if a = 0 then xs2 = [] else load_pte a s2 = leafval (pmem s2) 2 root (pg (i + k))
         \<and> (\<forall>v. pt_state s root (store_pte a v s2) P T2 xs2
             \<and> (\<forall>vb<MAXVA. leafval (pmem (store_pte a v s2)) 2 root vb
                  = (if pn vb = pn (pg (i + k)) then v else leafval (pmem s2) 2 root vb)))"
    by (rule runsE [OF pt_state_walk [OF st va]]) blast
  show ?case
  proof (cases "a = 0")
    case True
    then have "mappages_step root (pg (i + n)) perm x st = Inr (Ret (- 1), s2)"
      by (simp add: mappages_step_def x w)
    moreover have "xs2 = []" using r True by simp
    ultimately show ?thesis using p2 l2 lf k by auto
  next
    case False
    let ?v = "PA2PTE (pa + of_nat k * PGSIZE) OR perm OR PTE_V"
    let ?s3 = "store_pte a ?v s2"
    have unm: "leafval (pmem st) 2 root (pg (i + k)) AND PTE_V = 0"
      using lf [OF va] free [OF va] k by (simp add: mapped_def pk)
    have p3: "pt_state s root ?s3 P T2 xs2" and lp: "load_pte a s2 AND PTE_V = 0"
      using r False unm l2 by auto
    have l3: "leafval (pmem ?s3) 2 root vb = mapped (leafval (pmem s) 2 root) i (Suc k) pa perm vb"
      if "vb < MAXVA" for vb
      using r False that l2 lf [OF that] by (simp add: mapped_Suc pk)
    have e: "mappages_step root (pg (i + n)) perm x st = (if pg (i + k) = pg (i + n)
        then Inr (Ret 0, ?s3) else Inr (Next (pg (i + k) + PGSIZE, pa + of_nat k * PGSIZE + PGSIZE), ?s3))"
      by (simp add: mappages_step_def x w False lp Let_def)
    show ?thesis
    proof (cases "k = n")
      case True
      then show ?thesis using e p3 l3 by auto
    next
      case neq: False
      then have "pn (pg (i + k)) \<noteq> pn (pg (i + n))" using n pk by simp
      then have ne: "pg (i + k) \<noteq> pg (i + n)" by auto
      have nx: "pg (i + k) + PGSIZE = pg (i + Suc k)"
        "pa + of_nat k * PGSIZE + PGSIZE = pa + of_nat (Suc k) * PGSIZE"
        by (simp_all add: pg_Suc algebra_simps)
      have "pn (pg (i + Suc k)) = i + Suc k" using n neq k by (intro pn_pg) simp
      then have ms: "i + n - pn (pg (i + Suc k)) < i + n - pn (pg (i + k))" using pk neq k by simp
      have e': "mappages_step root (pg (i + n)) perm x st
        = Inr (Next (pg (i + Suc k), pa + of_nat (Suc k) * PGSIZE), ?s3)"
        using e ne nx by simp
      have "Suc k \<le> n" using k neq by simp
      then have "\<exists>k' T' xs'. k' \<le> n \<and> pg (i + Suc k) = pg (i + k')
          \<and> pa + of_nat (Suc k) * PGSIZE = pa + of_nat k' * PGSIZE \<and> pt_state s root ?s3 P T' xs'
          \<and> (\<forall>vb<MAXVA. leafval (pmem ?s3) 2 root vb = mapped (leafval (pmem s) 2 root) i k' pa perm vb)"
        using p3 l3 by blast
      then show ?thesis
        using ms unfolding e' unfolding x by (simp only: runs_Inr ctl.case prod.case simp_thms)
    qed
  qed
qed

lemma walkaddr_leafval:
  assumes "pt_inv (pmem s) root T lev"
  shows "walkaddr root va s = (if va < MAXVA \<and> leafval (pmem s) 2 root va AND PTE_V \<noteq> 0
      \<and> leafval (pmem s) 2 root va AND PTE_U \<noteq> 0 then PTE2PA (leafval (pmem s) 2 root va) else 0)"
proof (cases "va < MAXVA")
  case True
  then have nle: "\<not> MAXVA \<le> va" by simp
  have rt: "root \<in> T" "lev root = 2" using assms by (simp_all add: pt_inv_def)
  note w = walk_false [OF assms rt, of va]
  show ?thesis
  proof (cases "leafpage (pmem s) 2 root va")
    case None
    then show ?thesis using True w by (simp add: walkaddr_def leafval_def not_le)
  next
    case (Some q)
    have "node q" using leafpage_in [OF assms rt Some] pt_inv_node [OF assms] by blast
    then show ?thesis
      using True w Some nle
      by (simp add: walkaddr_def leafval_def load_pte_entry pte_addr_neq_0 Let_def)
  qed
next
  case False
  then have "MAXVA \<le> va" by simp
  with False show ?thesis by (simp add: walkaddr_def)
qed

lemma last_page:
  assumes sz: "0 < sz" and bound: "unat va + unat sz \<le> unat MAXVA"
  shows "pn va \<le> pn (va + sz - 1)" and "va + sz - 1 < MAXVA"
proof -
  have u: "unat (va + sz - 1) = unat va + unat sz - 1"
  proof -
    have s0: "0 < unat sz" using sz by (simp add: word_less_nat_alt)
    have "unat (sz - 1) = unat sz - 1" using sz by (simp add: unat_minus_one word_gt_0)
    moreover have "unat va + unat (sz - 1) < 2 ^ LENGTH(64)" using calculation bound by (simp add: MAXVA_unat)
    then have "unat (va + (sz - 1)) = unat va + unat (sz - 1)" by (simp only: unat_add_lem)
    moreover have e: "va + sz - 1 = va + (sz - 1)" by simp
    ultimately show ?thesis unfolding e using s0 by simp
  qed
  have "unat va \<le> unat va + unat sz - 1" using sz by (simp add: word_less_nat_alt)
  then show "pn va \<le> pn (va + sz - 1)" unfolding pn_def u by (rule div_le_mono)
  show "va + sz - 1 < MAXVA" using u bound sz by (simp add: word_less_nat_alt)
qed

section \<open>Properties\<close>

text \<open>C6: \<^verbatim>\<open>mappages\<close> refines the update of a map. On a well-formed page table whose tree is
  disjoint from the free list, mapping an unmapped range of pages returns 0 with exactly the
  entries of the range changed, to consecutive frames with the given permissions, or -1 with
  a prefix of the range mapped when the last free page is gone. The tables stay a tree, no
  page is lost, and no byte outside the tables and free pages changes.\<close>

theorem mappages_refines:
  assumes km: "kmem_ok s xs" and inv: "pt_inv (pmem s) root T lev" and dis: "T \<inter> set xs = {}"
    and va: "va < MAXVA" and sz: "0 < sz" and bound: "unat va + unat sz \<le> unat MAXVA"
    and free: "\<forall>vb<MAXVA. pn va \<le> pn vb \<longrightarrow> pn vb \<le> pn (va + sz - 1) \<longrightarrow> leafval (pmem s) 2 root vb AND PTE_V = 0"
  shows "runs (mappages root va sz pa perm s) (\<lambda>r s'. \<exists>T' lev' xs' k.
    kmem_ok s' xs' \<and> pt_inv (pmem s') root T' lev' \<and> T' \<inter> set xs' = {} \<and> T' \<union> set xs' = T \<union> set xs
    \<and> (\<forall>a. (\<forall>q\<in>T \<union> set xs. \<not> in_page q a) \<longrightarrow> pmem s' a = pmem s a)
    \<and> (\<forall>vb<MAXVA. leafval (pmem s') 2 root vb = mapped (leafval (pmem s) 2 root) (pn va) k pa perm vb)
    \<and> (r = 0 \<and> k = pn (va + sz - 1) - pn va + 1 \<or> r = - 1 \<and> k \<le> pn (va + sz - 1) - pn va \<and> xs' = []))"
proof -
  have ps: "pt_state s root s (T \<union> set xs) T xs"
    unfolding pt_state_def using km inv dis by auto
  let ?n = "pn (va + sz - 1) - pn va"
  note le = last_page(1) [OF sz bound]
  have lt: "pn va + ?n < 2 ^ 26" using le pn_less [OF last_page(2) [OF sz bound]] by simp
  have eq: "pn va + ?n = pn (va + sz - 1)" using le by simp
  have fuel: "unat (pg (pn (va + sz - 1)) - pg (pn va)) div 4096 + 1 = ?n + 1"
  proof -
    have "pg (pn (va + sz - 1)) = pg (pn va) + pg ?n" by (simp add: pg_def le flip: of_nat_add add_mult_distrib2)
    then show ?thesis using lt by (simp add: unat_pg)
  qed
  have "runs (loop (?n + 1) (mappages_step root (pg (pn va + ?n)) perm) (pg (pn va), pa) s)
    (\<lambda>r s'. \<exists>T' xs' k. pt_state s root s' (T \<union> set xs) T' xs'
      \<and> (\<forall>vb<MAXVA. leafval (pmem s') 2 root vb = mapped (leafval (pmem s) 2 root) (pn va) k pa perm vb)
      \<and> (r = 0 \<and> k = ?n + 1 \<or> r = - 1 \<and> k \<le> ?n \<and> xs' = []))"
    by (rule mappages_loop [OF ps lt]) (use free eq in auto)
  moreover have sz0: "sz \<noteq> 0" using sz by auto
  moreover have "mappages root va sz pa perm s
    = loop (?n + 1) (mappages_step root (pg (pn va + ?n)) perm) (pg (pn va), pa) s"
    unfolding mappages_def PGROUNDDOWN_pg Let_def fuel eq using sz0 by (simp only: if_False)
  ultimately have "runs (mappages root va sz pa perm s) (\<lambda>r s'. \<exists>T' xs' k. pt_state s root s' (T \<union> set xs) T' xs'
      \<and> (\<forall>vb<MAXVA. leafval (pmem s') 2 root vb = mapped (leafval (pmem s) 2 root) (pn va) k pa perm vb)
      \<and> (r = 0 \<and> k = ?n + 1 \<or> r = - 1 \<and> k \<le> ?n \<and> xs' = []))"
    by simp
  then show ?thesis
  proof (rule runs_mono)
    fix r and s' :: "'a kstate_scheme"
    assume "\<exists>T' xs' k. pt_state s root s' (T \<union> set xs) T' xs'
      \<and> (\<forall>vb<MAXVA. leafval (pmem s') 2 root vb = mapped (leafval (pmem s) 2 root) (pn va) k pa perm vb)
      \<and> (r = 0 \<and> k = ?n + 1 \<or> r = - 1 \<and> k \<le> ?n \<and> xs' = [])"
    then show "\<exists>T' lev' xs' k.
      kmem_ok s' xs' \<and> pt_inv (pmem s') root T' lev' \<and> T' \<inter> set xs' = {} \<and> T' \<union> set xs' = T \<union> set xs
      \<and> (\<forall>a. (\<forall>q\<in>T \<union> set xs. \<not> in_page q a) \<longrightarrow> pmem s' a = pmem s a)
      \<and> (\<forall>vb<MAXVA. leafval (pmem s') 2 root vb = mapped (leafval (pmem s) 2 root) (pn va) k pa perm vb)
      \<and> (r = 0 \<and> k = ?n + 1 \<or> r = - 1 \<and> k \<le> ?n \<and> xs' = [])"
      unfolding pt_state_def by blast
  qed
qed

text \<open>A page table with one empty page, and one free page after it.\<close>

definition demo_pt :: kstate where
  "demo_pt = zero_k\<lparr>freelist := 0x80024000\<rparr>"

lemma ld64_zeros: "ld64 (\<lambda>_. 0) a = 0"
  by (rule ld64_zero) simp

lemma demo_pt_inv:
  "kmem_ok demo_pt [0x80024000]" "pt_inv (pmem demo_pt) 0x80023000 {0x80023000} (\<lambda>_. 2)"
  "leafval (pmem demo_pt) 2 0x80023000 vb = 0"
proof -
  have e: "entry (pmem demo_pt) p i = 0" for p i
    by (simp add: entry_def demo_pt_def zero_k_def ld64_zeros)
  show "kmem_ok demo_pt [0x80024000]"
    by (simp add: kmem_ok_def page_def demo_pt_def zero_k_def PHYSTOP_def KERNBASE_def PGSIZE_def ld64_zeros)
  show "pt_inv (pmem demo_pt) 0x80023000 {0x80023000} (\<lambda>_. 2)"
    by (simp add: pt_inv_def valid_zero [OF e] node_def PGSIZE_def)
  show "leafval (pmem demo_pt) 2 0x80023000 vb = 0"
    by (simp add: leafval_def e split: option.split)
qed

lemma mappages_refines_witness:
  "runs (mappages 0x80023000 0 4096 0x80026000 PTE_U demo_pt) (\<lambda>r s'. r = 0 \<or> r = - 1)"
proof -
  have "runs (mappages 0x80023000 0 4096 0x80026000 PTE_U demo_pt) (\<lambda>r s'. \<exists>T' lev' xs' k.
    kmem_ok s' xs' \<and> pt_inv (pmem s') 0x80023000 T' lev' \<and> T' \<inter> set xs' = {}
    \<and> T' \<union> set xs' = {0x80023000} \<union> set [0x80024000]
    \<and> (\<forall>a. (\<forall>q\<in>{0x80023000} \<union> set [0x80024000]. \<not> in_page q a) \<longrightarrow> pmem s' a = pmem demo_pt a)
    \<and> (\<forall>vb<MAXVA. leafval (pmem s') 2 0x80023000 vb
         = mapped (leafval (pmem demo_pt) 2 0x80023000) (pn 0) k 0x80026000 PTE_U vb)
    \<and> (r = 0 \<and> k = pn (0 + 4096 - 1) - pn 0 + 1 \<or> r = - 1 \<and> k \<le> pn (0 + 4096 - 1) - pn 0 \<and> xs' = []))"
    by (rule mappages_refines [OF demo_pt_inv(1,2)])
      (simp_all add: demo_pt_inv(3) word_less_nat_alt MAXVA_unat)
  then show ?thesis by (rule runs_mono) auto
qed

text \<open>C28: After a successful \<^verbatim>\<open>mappages\<close> with user permission, \<^verbatim>\<open>walkaddr\<close> translates every address
  of the range to its frame, and still translates every address outside the range as before.\<close>

theorem mappages_walkaddr:
  assumes km: "kmem_ok s xs" and inv: "pt_inv (pmem s) root T lev" and dis: "T \<inter> set xs = {}"
    and va: "va < MAXVA" and sz: "0 < sz" and bound: "unat va + unat sz \<le> unat MAXVA"
    and free: "\<forall>vb<MAXVA. pn va \<le> pn vb \<longrightarrow> pn vb \<le> pn (va + sz - 1) \<longrightarrow> leafval (pmem s) 2 root vb AND PTE_V = 0"
    and pa: "\<forall>k\<le>pn (va + sz - 1) - pn va. node (pa + of_nat k * PGSIZE)"
    and r: "mappages root va sz pa (perm OR PTE_U) s = Inr (0, s')" and perm: "perm AND NOT 0x3FF = 0"
    and vb: "vb < MAXVA"
  shows "walkaddr root vb s' = (if pn va \<le> pn vb \<and> pn vb \<le> pn (va + sz - 1)
    then pa + of_nat (pn vb - pn va) * PGSIZE else walkaddr root vb s)"
proof -
  let ?k = "pn (va + sz - 1) - pn va + 1"
  from mappages_refines [OF km inv dis va sz bound free, of pa "perm OR PTE_U"] r obtain T' lev'
    where inv': "pt_inv (pmem s') root T' lev'"
      and lf: "leafval (pmem s') 2 root vb = mapped (leafval (pmem s) 2 root) (pn va) ?k pa (perm OR PTE_U) vb"
    using vb unfolding runs_def by auto
  show ?thesis
  proof (cases "pn va \<le> pn vb \<and> pn vb \<le> pn (va + sz - 1)")
    case False
    then have "leafval (pmem s') 2 root vb = leafval (pmem s) 2 root vb"
      using lf last_page(1) [OF sz bound] by (auto simp: mapped_def)
    with False show ?thesis by (auto simp: walkaddr_leafval [OF inv] walkaddr_leafval [OF inv'])
  next
    case True
    let ?f = "pa + of_nat (pn vb - pn va) * PGSIZE" and ?fl = "perm OR PTE_U OR PTE_V"
    have "pn vb - pn va \<le> pn (va + sz - 1) - pn va" using True by (simp add: diff_le_mono)
    with pa have nf: "node ?f" by blast
    have le: "leafval (pmem s') 2 root vb = PA2PTE ?f OR ?fl"
      using lf True by (auto simp: mapped_def or.assoc)
    have "PTE_U AND NOT 0x3FF = 0" "PTE_V AND NOT 0x3FF = 0" by (simp_all add: PTE_U_def PTE_V_def)
    with perm have fl: "?fl AND NOT 0x3FF = 0" by (simp add: bit.conj_disj_distrib2)
    have "bit (PA2PTE ?f OR ?fl) 0" by (simp add: PTE_V_def bit_simps)
    then have v: "(PA2PTE ?f OR ?fl) AND PTE_V \<noteq> 0" by (simp only: flag_1_iff)
    have b4: "bit ((PA2PTE ?f OR ?fl) AND PTE_U) 4" by (simp add: PTE_U_def bit_simps)
    have u: "(PA2PTE ?f OR ?fl) AND PTE_U \<noteq> 0"
    proof
      assume "(PA2PTE ?f OR ?fl) AND PTE_U = 0"
      with b4 show False by simp
    qed
    show ?thesis
      using True vb v u by (simp add: walkaddr_leafval [OF inv'] le PTE2PA_new [OF nf fl] del: of_nat_diff)
  qed
qed

text \<open>A page table whose three pages for address 0 exist.\<close>

definition demo_pt3 :: kstate where
  "demo_pt3 = zero_k\<lparr>pmem := st64 (st64 (\<lambda>_. 0) 0x80023000 0x20009001) 0x80024000 0x20009401\<rparr>"

lemma demo_pt3_entries:
  assumes "node p" and "i < 512"
  shows "entry (pmem demo_pt3) p i = (if p = 0x80024000 \<and> i = 0 then 0x20009401
    else if p = 0x80023000 \<and> i = 0 then 0x20009001 else 0)"
proof -
  have n: "node 0x80024000" "node 0x80023000" by (simp_all add: node_def PGSIZE_def)
  have "entry (\<lambda>_. 0) p i = 0" by (simp add: entry_def ld64_zeros)
  then show ?thesis
    using entry_store [OF n(1) assms(1), of 0 i] entry_store [OF n(2) assms(1), of 0 i] assms(2)
    by (auto simp: demo_pt3_def)
qed

lemma demo_pt3_inv:
  "kmem_ok demo_pt3 []"
  "pt_inv (pmem demo_pt3) 0x80023000 {0x80023000, 0x80024000, 0x80025000}
     (\<lambda>p. if p = 0x80023000 then 2 else if p = 0x80024000 then 1 else 0)"
proof -
  show "kmem_ok demo_pt3 []" by (simp add: kmem_ok_def demo_pt3_def zero_k_def)
  have n: "node 0x80023000" "node 0x80024000" "node 0x80025000" by (simp_all add: node_def PGSIZE_def)
  have c: "PTE2PA 0x20009401 = 0x80025000" "PTE2PA 0x20009001 = 0x80024000" by (simp_all add: PTE2PA_def)
  show "pt_inv (pmem demo_pt3) 0x80023000 {0x80023000, 0x80024000, 0x80025000}
     (\<lambda>p. if p = 0x80023000 then 2 else if p = 0x80024000 then 1 else 0)"
    unfolding pt_inv_def valid_def child_def
    using n c by (auto simp: demo_pt3_entries split: if_splits)
qed

lemma walk_loop_2: "walk_loop 2 pt va al s = walk_loop (Suc (Suc 0)) pt va al s"
  and leafpage_2: "leafpage m 2 p va = leafpage m (Suc (Suc 0)) p va"
  by (simp_all only: numeral_2_eq_2)

lemma demo_pt3_map: "\<exists>s'. mappages 0x80023000 0 4096 0x80026000 (PTE_R OR PTE_U) demo_pt3 = Inr (0, s')"
proof -
  have n: "node 0x80023000" "node 0x80024000" "node 0x80025000" by (simp_all add: node_def PGSIZE_def)
  have px: "PX l 0 = 0" for l by (simp add: PX_def)
  have e: "load_pte (pte_addr p 0) demo_pt3 = entry (pmem demo_pt3) p 0" for p
    by (simp add: load_pte_def pte_addr_def entry_def)
  have "walk_loop 2 0x80023000 0 True demo_pt3 = (0x80025000, demo_pt3)"
    using n by (simp add: walk_loop_2 px e demo_pt3_entries PTE_V_def PTE2PA_def) (simp add: pte_addr_def)
  then show ?thesis
    using n e
    by (simp add: mappages_def PGROUNDDOWN_def PGSIZE_def mappages_step_def walk_def MAXVA_def
        demo_pt3_entries pte_addr_def)
qed

lemma mappages_walkaddr_witness:
  "\<exists>s'. mappages 0x80023000 0 4096 0x80026000 (PTE_R OR PTE_U) demo_pt3 = Inr (0, s')
    \<and> walkaddr 0x80023000 0x123 s' = 0x80026000"
proof -
  obtain s' where r: "mappages 0x80023000 0 4096 0x80026000 (PTE_R OR PTE_U) demo_pt3 = Inr (0, s')"
    using demo_pt3_map by blast
  have p0: "pn 0 = 0" "pn (0 + 4096 - 1) = 0" "pn 0x123 = 0" by (simp_all add: pn_def)
  have lf: "leafval (pmem demo_pt3) 2 0x80023000 vb AND PTE_V = 0" if "vb < MAXVA" "pn vb \<le> 0" for vb
  proof -
    have i: "idx l vb = 0" for l using that by (simp add: idx_pn)
    have n: "node 0x80023000" "node 0x80024000" "node 0x80025000" by (simp_all add: node_def PGSIZE_def)
    then show ?thesis
      by (simp add: leafval_def leafpage_2 i valid_def child_def demo_pt3_entries PTE_V_def PTE2PA_def)
  qed
  have "walkaddr 0x80023000 0x123 s' = (if pn 0 \<le> pn 0x123 \<and> pn 0x123 \<le> pn (0 + 4096 - 1)
    then 0x80026000 + of_nat (pn 0x123 - pn 0) * PGSIZE else walkaddr 0x80023000 0x123 demo_pt3)"
  proof (rule mappages_walkaddr [OF demo_pt3_inv(1,2) _ _ _ _ _ _ r])
    show "\<forall>k\<le>pn (0 + 4096 - 1) - pn 0. node (0x80026000 + of_nat k * PGSIZE)"
      unfolding p0 by (simp add: node_def PGSIZE_def)
    show "\<forall>vb<MAXVA. pn 0 \<le> pn vb \<longrightarrow> pn vb \<le> pn (0 + 4096 - 1) \<longrightarrow>
      leafval (pmem demo_pt3) 2 0x80023000 vb AND PTE_V = 0"
      unfolding p0 using lf by blast
  qed (simp_all add: word_less_nat_alt MAXVA_unat PTE_R_def)
  with r show ?thesis unfolding p0 by simp
qed

end
