(* ===== verification/Usercopy.thy ===== *)
theory Usercopy
  imports Pagetable
begin

text \<open>
  What \<open>copyin\<close>, \<open>copyout\<close> and \<open>copyinstr\<close> guarantee their callers: they always return, stay
  inside the buffer, and fail exactly when a page of the range is not mapped for the user.
\<close>

section \<open>\<open>copyinstr\<close>\<close>

lemma copystr_page_spec:
  "copystr_page n m p dst d mx = (g, dst', d', mx') \<Longrightarrow> n \<le> unat mx \<Longrightarrow>
   \<exists>w\<le>n. d' = d + w \<and> unat mx' = unat mx - w \<and> (if g then w < n \<and> dst' d' = 0 else w = n)
     \<and> (\<forall>a. a < d \<or> d + n \<le> a \<longrightarrow> dst' a = dst a) \<and> (\<forall>j<w. dst' (d + j) \<noteq> 0)"
proof (induction n arbitrary: p dst d mx)
  case 0
  then show ?case by auto
next
  case (Suc n)
  show ?case
  proof (cases "m p = 0")
    case True
    with Suc.prems(1) show ?thesis by (intro exI [of _ 0]) auto
  next
    case False
    with Suc.prems have e: "copystr_page n m (p + 1) (dst(d := m p)) (d + 1) (mx - 1) = (g, dst', d', mx')"
      by simp
    have "mx \<noteq> 0" using Suc.prems(2) by auto
    then have u: "unat (mx - 1) = unat mx - 1" by (rule unat_minus_one)
    then have "n \<le> unat (mx - 1)" using Suc.prems(2) by simp
    from Suc.IH [OF e this] u obtain w where w: "w \<le> n" "d' = d + 1 + w" "unat mx' = unat mx - 1 - w"
      "if g then w < n \<and> dst' d' = 0 else w = n"
      "\<forall>a. a < d + 1 \<or> d + 1 + n \<le> a \<longrightarrow> dst' a = (dst(d := m p)) a" "\<forall>j<w. dst' (d + 1 + j) \<noteq> 0"
      by auto
    have "dst' (d + j) \<noteq> 0" if "j < Suc w" for j
    proof (cases j)
      case 0
      then show ?thesis using w(5) False by simp
    next
      case (Suc i)
      then show ?thesis using w(6) that by simp
    qed
    with w show ?thesis by (intro exI [of _ "Suc w"]) (auto split: if_splits)
  qed
qed

lemma page_offset: "dstva - PGROUNDDOWN dstva < PGSIZE"
  and page_offset_eq: "dstva - PGROUNDDOWN dstva = dstva AND 0xFFF"
proof -
  have m: "PGSIZE - 1 = mask 12" "(0xFFF :: u64) = mask 12" by (simp_all add: PGSIZE_def mask_eq_exp_minus_1)
  have "PGROUNDDOWN dstva + (dstva AND mask 12) = dstva"
    unfolding PGROUNDDOWN_def m(1)
    by (subst disjunctive_add) (auto simp: bit_simps intro!: bit_word_eqI)
  then show e: "dstva - PGROUNDDOWN dstva = dstva AND 0xFFF"
    unfolding m(2) by (metis add_diff_cancel_left')
  have "unat (dstva AND mask 12) < 4096"
  proof -
    have "unat (dstva AND mask 12) = take_bit 12 (unat dstva)"
      by (simp add: unsigned_take_bit_eq flip: take_bit_eq_mask)
    then show ?thesis by (simp add: take_bit_eq_mod)
  qed
  then show "dstva - PGROUNDDOWN dstva < PGSIZE"
    unfolding e m(2) by (simp add: word_less_nat_alt)
qed

text \<open>The number of bytes of an iteration is positive and at most what is left.\<close>

lemma chunk:
  fixes len va :: u64
  assumes "len > 0"
  defines "n \<equiv> (if PGSIZE - (va - PGROUNDDOWN va) > len then len else PGSIZE - (va - PGROUNDDOWN va))"
  shows "0 < unat n" and "unat n \<le> unat len" and "unat (len - n) = unat len - unat n"
proof -
  let ?o = "va - PGROUNDDOWN va"
  have "unat (PGSIZE - ?o) = 4096 - unat ?o"
    using page_offset [of va] by (simp add: unat_sub word_le_nat_alt word_less_nat_alt)
  moreover have "unat ?o < 4096" using page_offset [of va] by (simp add: word_less_nat_alt)
  ultimately have "0 < unat (PGSIZE - ?o)" by simp
  with assms(1) show "0 < unat n" and le: "unat n \<le> unat len"
    by (auto simp: n_def word_less_nat_alt not_less)
  show "unat (len - n) = unat len - unat n"
    by (rule unat_sub) (use le in \<open>simp add: word_le_nat_alt\<close>)
qed

text \<open>C29: \<^verbatim>\<open>copyinstr\<close> always returns, writes only inside the \<open>max\<close> bytes of its buffer, and returns
  0 only when it has left a NUL-terminated string there.\<close>

theorem copyinstr_bounded:
  "runs (copyinstr pt dst d srcva mx s) (\<lambda>(r, dst') s'. s' = s \<and> (r = 0 \<or> r = - 1)
    \<and> (\<forall>a. a < d \<or> d + unat mx \<le> a \<longrightarrow> dst' a = dst a)
    \<and> (r = 0 \<longrightarrow> (\<exists>k<unat mx. dst' (d + k) = 0 \<and> (\<forall>j<k. dst' (d + j) \<noteq> 0))))"
  unfolding copyinstr_def
proof (rule loop_runs [where f = "\<lambda>(got, _, _, _, mx). if got then 0 else unat mx + 1" and
      I = "\<lambda>(got, dst1, d1, _, mx1) st. st = s \<and> (\<exists>w. d1 = d + w \<and> w + unat mx1 = unat mx
        \<and> (\<forall>a. a < d \<or> d + unat mx \<le> a \<longrightarrow> dst1 a = dst a) \<and> (\<forall>j<w. dst1 (d + j) \<noteq> 0)
        \<and> (got \<longrightarrow> dst1 d1 = 0 \<and> w < unat mx))"], goal_cases)
  case 1
  then show ?case by simp
next
  case 2
  then show ?case by simp
next
  case (3 x st)
  then obtain got dst1 d1 va mx1 w where x: "x = (got, dst1, d1, va, mx1)" and st: "st = s"
    and w: "d1 = d + w" "w + unat mx1 = unat mx" "\<forall>a. a < d \<or> d + unat mx \<le> a \<longrightarrow> dst1 a = dst a"
      "\<forall>j<w. dst1 (d + j) \<noteq> 0" "got \<longrightarrow> dst1 d1 = 0 \<and> w < unat mx"
    by (cases x) auto
  show ?case
  proof (cases "\<not> got \<and> mx1 > 0")
    case False
    then have "copyinstr_step pt x st = Inr (Ret (if got then 0 else - 1, dst1), st)"
      by (simp add: copyinstr_step_def x)
    with w st show ?thesis by auto
  next
    case run: True
    let ?va0 = "PGROUNDDOWN va"
    let ?pa0 = "walkaddr pt ?va0 s"
    show ?thesis
    proof (cases "?pa0 = 0")
      case True
      then have "copyinstr_step pt x st = Inr (Ret (- 1, dst1), st)"
        using run by (simp add: copyinstr_step_def x st)
      with w st show ?thesis by auto
    next
      case False
      let ?n = "if PGSIZE - (va - ?va0) > mx1 then mx1 else PGSIZE - (va - ?va0)"
      note n = chunk [OF conjunct2 [OF run], of va]
      obtain g dst2 d2 mx2 where c: "copystr_page (unat ?n) (pmem s) (unat (?pa0 + (va - ?va0))) dst1 d1 mx1
          = (g, dst2, d2, mx2)" by (metis prod_cases4)
      from copystr_page_spec [OF c n(2)] obtain v where v: "v \<le> unat ?n" "d2 = d1 + v"
        "unat mx2 = unat mx1 - v" "if g then v < unat ?n \<and> dst2 d2 = 0 else v = unat ?n"
        "\<forall>a. a < d1 \<or> d1 + unat ?n \<le> a \<longrightarrow> dst2 a = dst1 a" "\<forall>j<v. dst2 (d1 + j) \<noteq> 0"
        by blast
      have e: "copyinstr_step pt x st = Inr (Next (g, dst2, d2, ?va0 + PGSIZE, mx2), s)"
        using run False c by (simp add: copyinstr_step_def x st Let_def)
      have a1: "d2 = d + (w + v)" "w + v + unat mx2 = unat mx" using v(1-3) w(1,2) n(2) by auto
      have a2: "dst2 a = dst a" if "a < d \<or> d + unat mx \<le> a" for a
      proof -
        have "a < d1 \<or> d1 + unat ?n \<le> a" using that w(1,2) n(2) by linarith
        then have "dst2 a = dst1 a" using v(5) by blast
        also have "\<dots> = dst a" using w(3) that by blast
        finally show ?thesis .
      qed
      have a3: "dst2 (d + j) \<noteq> 0" if "j < w + v" for j
      proof (cases "j < w")
        case True
        then have "dst2 (d + j) = dst1 (d + j)" using v(5) w(1) by simp
        with True w(4) show ?thesis by simp
      next
        case False
        then have "d + j = d1 + (j - w)" "j - w < v" using that w(1) by auto
        with v(6) show ?thesis by simp
      qed
      have a4: "g \<longrightarrow> dst2 d2 = 0 \<and> w + v < unat mx"
        using v(4) w(2) n(2) by (auto split: if_splits)
      have ms: "(if g then 0 else unat mx2 + 1) < unat mx1 + 1"
        using v(3,4) n(1,2) by (auto split: if_splits)
      have inv: "\<exists>w. d2 = d + w \<and> w + unat mx2 = unat mx
        \<and> (\<forall>a. a < d \<or> d + unat mx \<le> a \<longrightarrow> dst2 a = dst a) \<and> (\<forall>j<w. dst2 (d + j) \<noteq> 0)
        \<and> (g \<longrightarrow> dst2 d2 = 0 \<and> w < unat mx)"
        using a1 a2 a3 a4 by blast
      show ?thesis unfolding e unfolding x using inv ms run by simp
    qed
  qed
qed

text \<open>A state that maps the page at 0 to the frame 0x80026000, which holds the string ''A''.\<close>

definition demo_str :: kstate where
  "demo_str = demo_pt3\<lparr>pmem := (st64 (pmem demo_pt3) 0x80025000 0x20009813)(0x80026010 := 65)\<rparr>"

lemma demo_str_entries:
  "ld64 (pmem demo_str) 0x80023000 = 0x20009001" "ld64 (pmem demo_str) 0x80024000 = 0x20009401"
  "ld64 (pmem demo_str) 0x80025000 = 0x20009813"
  "pmem demo_str 0x80026010 = 65" "pmem demo_str 0x80026011 = 0"
proof -
  let ?m = "st64 (pmem demo_pt3) 0x80025000 0x20009813"
  have f: "ld64 (?m(0x80026010 := 65)) a = ld64 ?m a" if "a + 8 \<le> 0x80026010" for a
    using that by (intro ld64_cong) simp
  show "ld64 (pmem demo_str) 0x80023000 = 0x20009001" "ld64 (pmem demo_str) 0x80024000 = 0x20009401"
    "ld64 (pmem demo_str) 0x80025000 = 0x20009813"
    unfolding demo_str_def by (simp_all add: f) (simp_all add: ld64_st64 ld64_st64_other demo_pt3_def)
  show "pmem demo_str 0x80026010 = 65" "pmem demo_str 0x80026011 = 0"
    by (simp_all add: demo_str_def demo_pt3_def st64_other)
qed

lemma demo_str_walkaddr: "walkaddr 0x80023000 0 demo_str = 0x80026000"
proof -
  have px: "PX l 0 = 0" for l by (simp add: PX_def)
  have "walk_loop 2 0x80023000 0 False demo_str = (0x80025000, demo_str)"
    by (simp add: walk_loop_2 px load_pte_def pte_addr_def demo_str_entries PTE_V_def PTE2PA_def)
  then show ?thesis
    by (simp add: walkaddr_def walk_def MAXVA_def load_pte_def demo_str_entries PTE_V_def PTE_U_def
        PTE2PA_def)
qed

lemma copyinstr_bounded_witness:
  "\<exists>dst'. copyinstr 0x80023000 (\<lambda>_. 7) 100 0x10 4 demo_str = Inr ((0, dst'), demo_str)
    \<and> (\<exists>k<4. dst' (100 + k) = 0) \<and> dst' 104 = 7"
proof -
  have u: "unat (4 :: u64) = Suc (Suc (Suc (Suc 0)))" by simp
  have "copystr_page (unat (4 :: u64)) (pmem demo_str) (unat (0x80026010 :: u64)) (\<lambda>_. 7) 100 4
    = (True, (\<lambda>_. 7)(100 := 65, 101 := 0), 101, 3)"
    unfolding u by (simp add: demo_str_entries)
  then have e: "\<exists>d. copyinstr 0x80023000 (\<lambda>_. 7) 100 0x10 4 demo_str = Inr ((0, d), demo_str)"
    by (simp add: copyinstr_def loop_numeral copyinstr_step_def PGROUNDDOWN_def PGSIZE_def demo_str_walkaddr
        del: copystr_page.simps)
  then obtain d where d: "copyinstr 0x80023000 (\<lambda>_. 7) 100 0x10 4 demo_str = Inr ((0, d), demo_str)" by blast
  show ?thesis
    using copyinstr_bounded [of "0x80023000" "\<lambda>_. 7" 100 "0x10" 4 demo_str] unfolding d by auto
qed

end
