(* ===== verification/Fs.thy ===== *)
theory Fs
  imports Crash Usercopy
begin

text \<open>
  The file system (\<^verbatim>\<open>fs.c\<close> and \<^verbatim>\<open>fs.h\<close> of assignment 4, with large files): block allocation
  on the free map, inodes on disk and in the in-memory table, the mapping from file offsets to
  disk blocks through direct, indirect and doubly indirect blocks, reading and writing of file
  contents, directories and path names. Inodes in memory are indices into \<^verbatim>\<open>itable\<close>; on disk they are
  byte ranges of blocks. A C string is the list of its bytes before the NUL; a name buffer of
  \<^verbatim>\<open>DIRSIZ\<close> bytes is a byte memory from 0.
\<close>

section \<open>On-disk format (fs.h)\<close>

definition ROOTINO :: u32 where "ROOTINO = 1"
definition FSMAGIC :: u32 where "FSMAGIC = 0x10203040"
definition NDIRECT :: nat where "NDIRECT = 11"
definition NINDIRECT :: nat where "NINDIRECT = BSIZE div 4"
definition NDINDIRECT :: nat where "NDINDIRECT = NINDIRECT * NINDIRECT"
definition MAXFILE :: nat where "MAXFILE = NDIRECT + NINDIRECT + NDINDIRECT"
definition dinode_size :: nat where "dinode_size = 2 + 2 + 2 + 2 + 4 + 4 * (NDIRECT + 2)"
definition IPB :: nat where "IPB = BSIZE div dinode_size"
definition BPB :: nat where "BPB = BSIZE * 8"
definition DIRSIZ :: nat where "DIRSIZ = 14"
definition dirent_size :: nat where "dirent_size = 2 + DIRSIZ"
definition T_DIR :: u16 where "T_DIR = 1"
definition T_FILE :: u16 where "T_FILE = 2"
definition T_DEVICE :: u16 where "T_DEVICE = 3"

lemma fs_consts [simp]:
  "NDIRECT = 11" "NINDIRECT = 256" "NDINDIRECT = 65536" "MAXFILE = 65803" "dinode_size = 64"
  "IPB = 16" "BPB = 8192" "DIRSIZ = 14" "dirent_size = 16"
  by (simp_all add: NDIRECT_def NINDIRECT_def NDINDIRECT_def MAXFILE_def dinode_size_def IPB_def
      BPB_def DIRSIZ_def dirent_size_def)

record superblock =
  sb_magic :: u32
  sb_size :: u32
  sb_nblocks :: u32
  sb_ninodes :: u32
  sb_nlog :: u32
  sb_logstart :: u32
  sb_inodestart :: u32
  sb_bmapstart :: u32

text \<open>The fields of \<^verbatim>\<open>struct dinode\<close> at offset \<open>o\<close> of a block.\<close>

record dinode =
  d_type :: u16
  d_major :: u16
  d_minor :: u16
  d_nlink :: u16
  d_size :: u32
  d_addrs :: "nat \<Rightarrow> u32"

definition load_dinode :: "bytes \<Rightarrow> nat \<Rightarrow> dinode" where
  "load_dinode m off = \<lparr>d_type = ld16 m off, d_major = ld16 m (off + 2), d_minor = ld16 m (off + 4),
     d_nlink = ld16 m (off + 6), d_size = ld32 m (off + 8), d_addrs = (\<lambda>i. ld32 m (off + 12 + 4 * i))\<rparr>"

fun store_addrs :: "nat list \<Rightarrow> bytes \<Rightarrow> nat \<Rightarrow> (nat \<Rightarrow> u32) \<Rightarrow> bytes" where
  "store_addrs [] m off a = m"
| "store_addrs (i # is) m off a = store_addrs is (st32 m (off + 12 + 4 * i) (a i)) off a"

definition store_dinode :: "bytes \<Rightarrow> nat \<Rightarrow> dinode \<Rightarrow> bytes" where
  "store_dinode m off d =
     (let m = st16 m off (d_type d);
          m = st16 m (off + 2) (d_major d);
          m = st16 m (off + 4) (d_minor d);
          m = st16 m (off + 6) (d_nlink d);
          m = st32 m (off + 8) (d_size d)
      in store_addrs [0..<NDIRECT + 2] m off (d_addrs d))"

definition IBLOCK :: "u32 \<Rightarrow> superblock \<Rightarrow> u32" where
  "IBLOCK i b = i div of_nat IPB + sb_inodestart b"

definition inode_off :: "u32 \<Rightarrow> nat" where
  "inode_off inum = (unat inum mod IPB) * dinode_size"

definition BBLOCK :: "u32 \<Rightarrow> superblock \<Rightarrow> u32" where
  "BBLOCK b sp = b div of_nat BPB + sb_bmapstart sp"

section \<open>State (file.h)\<close>

record inode =
  i_dev :: u32
  i_inum :: u32
  i_ref :: int
  i_lock :: sleeplock
  i_valid :: bool
  i_type :: u16
  i_major :: u16
  i_minor :: u16
  i_nlink :: u16
  i_size :: u32
  i_addrs :: "nat \<Rightarrow> u32"

record fstate = lstate +
  sb :: superblock
  itable :: "nat \<Rightarrow> inode"

definition set_inode :: "nat \<Rightarrow> (inode \<Rightarrow> inode) \<Rightarrow> 'z fstate_scheme \<Rightarrow> 'z fstate_scheme" where
  "set_inode ip f s = s\<lparr>itable := (itable s)(ip := f (itable s ip))\<rparr>"

section \<open>Blocks\<close>

definition readsb :: "u32 \<Rightarrow> 'z fstate_scheme \<Rightarrow> (unit, 'z fstate_scheme) res" where
  "readsb dev s = andthen (bread dev 1 s) (\<lambda>bp s.
     let d = bdata bp s in
     brelse bp (s\<lparr>sb := \<lparr>sb_magic = ld32 d 0, sb_size = ld32 d 4, sb_nblocks = ld32 d 8,
       sb_ninodes = ld32 d 12, sb_nlog = ld32 d 16, sb_logstart = ld32 d 20,
       sb_inodestart = ld32 d 24, sb_bmapstart = ld32 d 28\<rparr>\<rparr>))"

definition fsinit :: "u32 \<Rightarrow> 'z fstate_scheme \<Rightarrow> (unit, 'z fstate_scheme) res" where
  "fsinit dev s = andthen (readsb dev s) (\<lambda>_ s.
     if sb_magic (sb s) \<noteq> FSMAGIC then Inl (Panic ''invalid file system'')
     else initlog dev (sb_logstart (sb s)) (sb_nlog (sb s)) s)"

definition bzero :: "u32 \<Rightarrow> u32 \<Rightarrow> 'z fstate_scheme \<Rightarrow> (unit, 'z fstate_scheme) res" where
  "bzero dev bno s = andthen (bread dev bno s) (\<lambda>bp s.
     andthen (log_write bp (modify_data bp (\<lambda>d. memset d 0 0 BSIZE) s)) (\<lambda>_ s.
     brelse bp s))"

text \<open>\<^verbatim>\<open>(bp->data[bi/8] & m) == 0\<close> with \<^verbatim>\<open>m = 1 << (bi % 8)\<close>, and the two updates of a bit\<close>

definition bit_free :: "bytes \<Rightarrow> nat \<Rightarrow> bool" where
  "bit_free d bi \<longleftrightarrow> d (bi div 8) AND push_bit (bi mod 8) 1 = 0"

definition set_bit_used :: "nat \<Rightarrow> bytes \<Rightarrow> bytes" where
  "set_bit_used bi d = d(bi div 8 := d (bi div 8) OR push_bit (bi mod 8) 1)"

definition clear_bit_used :: "nat \<Rightarrow> bytes \<Rightarrow> bytes" where
  "clear_bit_used bi d = d(bi div 8 := d (bi div 8) AND NOT (push_bit (bi mod 8) 1))"

text \<open>
  \<^verbatim>\<open>balloc\<close>: the outer loop over the blocks of the free map, the inner loop over the bits of
  one block that stand for blocks of the disk. There are at most \<open>size div BPB + 1\<close> of them.
\<close>

definition balloc_step :: "u32 \<Rightarrow> u32 \<Rightarrow> 'z fstate_scheme \<Rightarrow> ((u32, u32) ctl, 'z fstate_scheme) res" where
  "balloc_step dev b s =
     (if \<not> b < sb_size (sb s) then Inr (Ret 0, s)
      else andthen (bread dev (BBLOCK b (sb s)) s) (\<lambda>bp s.
        case first_index (bit_free (bdata bp s)) (min BPB (unat (sb_size (sb s)) - unat b)) of
          Some bi \<Rightarrow>
            andthen (log_write bp (modify_data bp (set_bit_used bi) s)) (\<lambda>_ s.
            andthen (brelse bp s) (\<lambda>_ s.
            andthen (bzero dev (b + of_nat bi) s) (\<lambda>_ s.
            Inr (Ret (b + of_nat bi), s))))
        | None \<Rightarrow> andthen (brelse bp s) (\<lambda>_ s. Inr (Next (b + of_nat BPB), s))))"

definition balloc :: "u32 \<Rightarrow> 'z fstate_scheme \<Rightarrow> (u32, 'z fstate_scheme) res" where
  "balloc dev s = loop (unat (sb_size (sb s)) div BPB + 2) (balloc_step dev) 0 s"

definition bfree :: "u32 \<Rightarrow> u32 \<Rightarrow> 'z fstate_scheme \<Rightarrow> (unit, 'z fstate_scheme) res" where
  "bfree dev b s = andthen (bread dev (BBLOCK b (sb s)) s) (\<lambda>bp s.
     let bi = unat b mod BPB in
     if bit_free (bdata bp s) bi then Inl (Panic ''freeing free block'')
     else andthen (log_write bp (modify_data bp (clear_bit_used bi) s)) (\<lambda>_ s. brelse bp s))"

section \<open>Inodes\<close>

definition iinit :: "'z fstate_scheme \<Rightarrow> 'z fstate_scheme" where
  "iinit s = s\<lparr>itable := (\<lambda>i. if i < NINODE then (itable s i)\<lparr>i_lock := initsleeplock\<rparr> else itable s i)\<rparr>"

definition iget :: "u32 \<Rightarrow> u32 \<Rightarrow> 'z fstate_scheme \<Rightarrow> (nat, 'z fstate_scheme) res" where
  "iget dev inum s =
     (case first_index (\<lambda>i. i_ref (itable s i) > 0 \<and> i_dev (itable s i) = dev \<and> i_inum (itable s i) = inum) NINODE of
        Some ip \<Rightarrow> Inr (ip, set_inode ip (i_ref_update (\<lambda>r. r + 1)) s)
      | None \<Rightarrow>
          (case first_index (\<lambda>i. i_ref (itable s i) = 0) NINODE of
             None \<Rightarrow> Inl (Panic ''iget: no inodes'')
           | Some ip \<Rightarrow> Inr (ip, set_inode ip (\<lambda>n. n\<lparr>i_dev := dev, i_inum := inum, i_ref := 1, i_valid := False\<rparr>) s)))"

definition idup :: "nat \<Rightarrow> 'z fstate_scheme \<Rightarrow> nat \<times> 'z fstate_scheme" where
  "idup ip s = (ip, set_inode ip (i_ref_update (\<lambda>r. r + 1)) s)"

definition ialloc_step ::
  "u32 \<Rightarrow> u16 \<Rightarrow> u32 \<Rightarrow> 'z fstate_scheme \<Rightarrow> ((u32, nat option) ctl, 'z fstate_scheme) res" where
  "ialloc_step dev typ inum s =
     (if \<not> inum < sb_ninodes (sb s) then Inr (Ret None, s)
      else andthen (bread dev (IBLOCK inum (sb s)) s) (\<lambda>bp s.
        if d_type (load_dinode (bdata bp s) (inode_off inum)) = 0 then
          andthen (log_write bp (modify_data bp (\<lambda>d. st16 (memset d (inode_off inum) 0 dinode_size)
              (inode_off inum) typ) s)) (\<lambda>_ s.
          andthen (brelse bp s) (\<lambda>_ s.
          andthen (iget dev inum s) (\<lambda>ip s. Inr (Ret (Some ip), s))))
        else andthen (brelse bp s) (\<lambda>_ s. Inr (Next (inum + 1), s))))"

definition ialloc :: "u32 \<Rightarrow> u16 \<Rightarrow> 'z fstate_scheme \<Rightarrow> (nat option, 'z fstate_scheme) res" where
  "ialloc dev typ s = loop (unat (sb_ninodes (sb s)) + 1) (ialloc_step dev typ) 1 s"

text \<open>The copy of an in-memory inode that \<^verbatim>\<open>iupdate\<close> writes, and the one \<^verbatim>\<open>ilock\<close> reads.\<close>

definition dinode_of :: "inode \<Rightarrow> dinode" where
  "dinode_of n = \<lparr>d_type = i_type n, d_major = i_major n, d_minor = i_minor n, d_nlink = i_nlink n,
     d_size = i_size n, d_addrs = i_addrs n\<rparr>"

definition fill_inode :: "dinode \<Rightarrow> inode \<Rightarrow> inode" where
  "fill_inode d n = n\<lparr>i_type := d_type d, i_major := d_major d, i_minor := d_minor d,
     i_nlink := d_nlink d, i_size := d_size d,
     i_addrs := (\<lambda>i. if i < NDIRECT + 2 then d_addrs d i else i_addrs n i)\<rparr>"

definition iupdate :: "nat \<Rightarrow> 'z fstate_scheme \<Rightarrow> (unit, 'z fstate_scheme) res" where
  "iupdate ip s = andthen (bread (i_dev (itable s ip)) (IBLOCK (i_inum (itable s ip)) (sb s)) s) (\<lambda>bp s.
     andthen (log_write bp (modify_data bp (\<lambda>d. store_dinode d (inode_off (i_inum (itable s ip)))
         (dinode_of (itable s ip))) s)) (\<lambda>_ s.
     brelse bp s))"

text \<open>\<^verbatim>\<open>ilock\<close> of a null pointer panics too; no caller passes one.\<close>

definition ilock :: "nat \<Rightarrow> 'z fstate_scheme \<Rightarrow> (unit, 'z fstate_scheme) res" where
  "ilock ip s =
     (if i_ref (itable s ip) < 1 then Inl (Panic ''ilock'')
      else andthen (acquiresleep (i_lock (itable s ip)) s) (\<lambda>lk s.
        let s = set_inode ip (i_lock_update (\<lambda>_. lk)) s in
        if \<not> i_valid (itable s ip) then
          andthen (bread (i_dev (itable s ip)) (IBLOCK (i_inum (itable s ip)) (sb s)) s) (\<lambda>bp s.
          let s = set_inode ip (fill_inode (load_dinode (bdata bp s) (inode_off (i_inum (itable s ip))))) s in
          andthen (brelse bp s) (\<lambda>_ s.
          let s = set_inode ip (i_valid_update (\<lambda>_. True)) s in
          if i_type (itable s ip) = 0 then Inl (Panic ''ilock: no type'') else Inr ((), s)))
        else Inr ((), s)))"

definition unlock_inode :: "nat \<Rightarrow> 'z fstate_scheme \<Rightarrow> 'z fstate_scheme" where
  "unlock_inode ip s = (case releasesleep (ChInodeLock ip) (i_lock (itable s ip)) s of
     (lk, s) \<Rightarrow> set_inode ip (i_lock_update (\<lambda>_. lk)) s)"

definition iunlock :: "nat \<Rightarrow> 'z fstate_scheme \<Rightarrow> (unit, 'z fstate_scheme) res" where
  "iunlock ip s =
     (if \<not> holdingsleep (i_lock (itable s ip)) s \<or> i_ref (itable s ip) < 1 then Inl (Panic ''iunlock'')
      else Inr ((), unlock_inode ip s))"

section \<open>Inode contents\<close>

definition set_addr :: "nat \<Rightarrow> nat \<Rightarrow> u32 \<Rightarrow> 'z fstate_scheme \<Rightarrow> 'z fstate_scheme" where
  "set_addr ip i a s = set_inode ip (i_addrs_update (\<lambda>f. f(i := a))) s"

text \<open>
  \<^verbatim>\<open>if((addr = ip->addrs[i]) == 0) { addr = balloc(dev); if(addr == 0) return 0; ip->addrs[i] = addr; }\<close>:
  the address, 0 for the early return.
\<close>

definition addr_slot :: "nat \<Rightarrow> nat \<Rightarrow> 'z fstate_scheme \<Rightarrow> (u32, 'z fstate_scheme) res" where
  "addr_slot ip i s =
     (if i_addrs (itable s ip) i \<noteq> 0 then Inr (i_addrs (itable s ip) i, s)
      else andthen (balloc (i_dev (itable s ip)) s) (\<lambda>addr s.
        if addr = 0 then Inr (0, s) else Inr (addr, set_addr ip i addr s)))"

text \<open>Entry \<open>j\<close> of the block of addresses \<open>addr\<close>, allocated if it is 0.\<close>

definition addr_entry :: "u32 \<Rightarrow> u32 \<Rightarrow> nat \<Rightarrow> 'z fstate_scheme \<Rightarrow> (u32, 'z fstate_scheme) res" where
  "addr_entry dev addr j s = andthen (bread dev addr s) (\<lambda>bp s.
     let e = ld32 (bdata bp s) (4 * j) in
     if e \<noteq> 0 then andthen (brelse bp s) (\<lambda>_ s. Inr (e, s))
     else andthen (balloc dev s) (\<lambda>e s.
       if e \<noteq> 0 then
         andthen (log_write bp (modify_data bp (\<lambda>d. st32 d (4 * j) e) s)) (\<lambda>_ s.
         andthen (brelse bp s) (\<lambda>_ s. Inr (e, s)))
       else andthen (brelse bp s) (\<lambda>_ s. Inr (e, s))))"

text \<open>The second level of a doubly indirect address, where \<^verbatim>\<open>brelse\<close> comes before \<^verbatim>\<open>log_write\<close>.\<close>

definition addr_entry2 :: "u32 \<Rightarrow> u32 \<Rightarrow> nat \<Rightarrow> 'z fstate_scheme \<Rightarrow> (u32, 'z fstate_scheme) res" where
  "addr_entry2 dev addr j s = andthen (bread dev addr s) (\<lambda>bs s.
     let e = ld32 (bdata bs s) (4 * j) in
     if e = 0 then
       andthen (balloc dev s) (\<lambda>e s.
       if e \<noteq> 0 then
         andthen (brelse bs (modify_data bs (\<lambda>d. st32 d (4 * j) e) s)) (\<lambda>_ s.
         andthen (log_write bs s) (\<lambda>_ s. Inr (e, s)))
       else andthen (brelse bs s) (\<lambda>_ s. Inr (0, s)))
     else andthen (brelse bs s) (\<lambda>_ s. Inr (e, s)))"

definition bmap :: "nat \<Rightarrow> u32 \<Rightarrow> 'z fstate_scheme \<Rightarrow> (u32, 'z fstate_scheme) res" where
  "bmap ip bno s =
     (let dev = i_dev (itable s ip); bn = unat bno in
      if bn < NDIRECT then addr_slot ip bn s
      else let bn = bn - NDIRECT in
      if bn < NINDIRECT then
        andthen (addr_slot ip NDIRECT s) (\<lambda>addr s.
        if addr = 0 then Inr (0, s) else addr_entry dev addr bn s)
      else let bn = bn - NINDIRECT in
      if bn < NDINDIRECT then
        andthen (addr_slot ip (NDIRECT + 1) s) (\<lambda>addr s.
        if addr = 0 then Inr (0, s)
        else andthen (addr_entry dev addr (bn div NINDIRECT) s) (\<lambda>addr s.
          addr_entry2 dev addr (bn mod NINDIRECT) s))
      else Inl (Panic ''bmap: out of range''))"

fun itrunc_direct :: "nat list \<Rightarrow> nat \<Rightarrow> 'z fstate_scheme \<Rightarrow> (unit, 'z fstate_scheme) res" where
  "itrunc_direct [] ip s = Inr ((), s)"
| "itrunc_direct (i # is) ip s =
     (if i_addrs (itable s ip) i \<noteq> 0 then
        andthen (bfree (i_dev (itable s ip)) (i_addrs (itable s ip) i) s) (\<lambda>_ s.
        itrunc_direct is ip (set_addr ip i 0 s))
      else itrunc_direct is ip s)"

text \<open>Free every block a block of addresses points to; \<open>bp\<close> is the buffer that holds it.\<close>

fun itrunc_entries :: "nat list \<Rightarrow> u32 \<Rightarrow> nat \<Rightarrow> 'z fstate_scheme \<Rightarrow> (unit, 'z fstate_scheme) res" where
  "itrunc_entries [] dev bp s = Inr ((), s)"
| "itrunc_entries (j # js) dev bp s =
     (let a = ld32 (bdata bp s) (4 * j) in
      if a \<noteq> 0 then andthen (bfree dev a s) (\<lambda>_ s. itrunc_entries js dev bp s)
      else itrunc_entries js dev bp s)"

fun itrunc_entries2 :: "nat list \<Rightarrow> u32 \<Rightarrow> nat \<Rightarrow> 'z fstate_scheme \<Rightarrow> (unit, 'z fstate_scheme) res" where
  "itrunc_entries2 [] dev bp s = Inr ((), s)"
| "itrunc_entries2 (j # js) dev bp s =
     (let a = ld32 (bdata bp s) (4 * j) in
      if a \<noteq> 0 then
        andthen (bread dev a s) (\<lambda>bs s.
        andthen (itrunc_entries [0..<NINDIRECT] dev bs s) (\<lambda>_ s.
        andthen (brelse bs s) (\<lambda>_ s.
        andthen (bfree dev (ld32 (bdata bp s) (4 * j)) s) (\<lambda>_ s.
        itrunc_entries2 js dev bp s))))
      else itrunc_entries2 js dev bp s)"

definition itrunc_indirect :: "nat \<Rightarrow> 'z fstate_scheme \<Rightarrow> (unit, 'z fstate_scheme) res" where
  "itrunc_indirect ip s =
     (let dev = i_dev (itable s ip) in
      if i_addrs (itable s ip) NDIRECT \<noteq> 0 then
        andthen (bread dev (i_addrs (itable s ip) NDIRECT) s) (\<lambda>bp s.
        andthen (itrunc_entries [0..<NINDIRECT] dev bp s) (\<lambda>_ s.
        andthen (brelse bp s) (\<lambda>_ s.
        andthen (bfree dev (i_addrs (itable s ip) NDIRECT) s) (\<lambda>_ s.
        Inr ((), set_addr ip NDIRECT 0 s)))))
      else Inr ((), s))"

text \<open>The block it reads is \<open>addrs[NDIRECT]\<close>, as in the code.\<close>

definition itrunc_double :: "nat \<Rightarrow> 'z fstate_scheme \<Rightarrow> (unit, 'z fstate_scheme) res" where
  "itrunc_double ip s =
     (let dev = i_dev (itable s ip) in
      if i_addrs (itable s ip) (NDIRECT + 1) \<noteq> 0 then
        andthen (bread dev (i_addrs (itable s ip) NDIRECT) s) (\<lambda>bp s.
        andthen (itrunc_entries2 [0..<NINDIRECT] dev bp s) (\<lambda>_ s.
        andthen (brelse bp s) (\<lambda>_ s.
        andthen (bfree dev (i_addrs (itable s ip) (NDIRECT + 1)) s) (\<lambda>_ s.
        Inr ((), set_addr ip (NDIRECT + 1) 0 s)))))
      else Inr ((), s))"

definition itrunc :: "nat \<Rightarrow> 'z fstate_scheme \<Rightarrow> (unit, 'z fstate_scheme) res" where
  "itrunc ip s =
     andthen (itrunc_direct [0..<NDIRECT] ip s) (\<lambda>_ s.
     andthen (itrunc_indirect ip s) (\<lambda>_ s.
     andthen (itrunc_double ip s) (\<lambda>_ s.
     iupdate ip (set_inode ip (i_size_update (\<lambda>_. 0)) s))))"

definition iput :: "nat \<Rightarrow> 'z fstate_scheme \<Rightarrow> (unit, 'z fstate_scheme) res" where
  "iput ip s =
     andthen
       (if i_ref (itable s ip) = 1 \<and> i_valid (itable s ip) \<and> i_nlink (itable s ip) = 0 then
          andthen (acquiresleep (i_lock (itable s ip)) s) (\<lambda>lk s.
          andthen (itrunc ip (set_inode ip (i_lock_update (\<lambda>_. lk)) s)) (\<lambda>_ s.
          andthen (iupdate ip (set_inode ip (i_type_update (\<lambda>_. 0)) s)) (\<lambda>_ s.
          Inr ((), unlock_inode ip (set_inode ip (i_valid_update (\<lambda>_. False)) s)))))
        else Inr ((), s))
       (\<lambda>_ s. Inr ((), set_inode ip (i_ref_update (\<lambda>r. r - 1)) s))"

definition iunlockput :: "nat \<Rightarrow> 'z fstate_scheme \<Rightarrow> (unit, 'z fstate_scheme) res" where
  "iunlockput ip s = andthen (iunlock ip s) (\<lambda>_ s. iput ip s)"

section \<open>A blank state\<close>

definition zero_inode :: inode where
  "zero_inode = \<lparr>i_dev = 0, i_inum = 0, i_ref = 0, i_lock = initsleeplock, i_valid = False, i_type = 0,
     i_major = 0, i_minor = 0, i_nlink = 0, i_size = 0, i_addrs = (\<lambda>_. 0)\<rparr>"

definition zero_sb :: superblock where
  "zero_sb = \<lparr>sb_magic = FSMAGIC, sb_size = 0, sb_nblocks = 0, sb_ninodes = 0, sb_nlog = 0,
     sb_logstart = 0, sb_inodestart = 0, sb_bmapstart = 0\<rparr>"

definition zero_f :: fstate where
  "zero_f = \<lparr>pmem = (\<lambda>_. 0), kend = 0x80022000, freelist = 0, procs = (\<lambda>_. zero_proc), curproc = 0,
     initproc = 0, nextpid = 1, bufs = (\<lambda>_. zero_buf), disk = (\<lambda>_ _. 0), dtrace = [],
     log_start = 2, log_size = 31, log_outstanding = 0, log_committing = False, log_dev = ROOTDEV,
     lh_n = 0, lh_block = (\<lambda>_. 0), sb = zero_sb, itable = (\<lambda>_. zero_inode)\<rparr>"

end
