(* ===== verification/Fsdir.thy ===== *)
theory Fsdir
  imports Fs
begin

text \<open>
  Reading and writing of inode contents, directories and path names (second half of
  \<^verbatim>\<open>fs.c\<close>), with the copies between kernel and user space of \<^verbatim>\<open>proc.c\<close> they rest on. The C results
  \<^verbatim>\<open>-1\<close> and byte counts are kept as 32-bit words.
\<close>

section \<open>Copies to and from user or kernel memory (proc.c)\<close>

text \<open>
  The destination or source of a copy: a user virtual address, a kernel address of physical
  memory, or an offset in a local variable of the caller, whose bytes are passed along.
\<close>

datatype uptr = User u64 | Kern u64 | Local nat

fun uptr_add :: "uptr \<Rightarrow> u32 \<Rightarrow> uptr" where
  "uptr_add (User a) m = User (a + ucast m)"
| "uptr_add (Kern a) m = Kern (a + ucast m)"
| "uptr_add (Local a) m = Local (a + unat m)"

fun either_copyout ::
  "uptr \<Rightarrow> bytes \<Rightarrow> bytes \<Rightarrow> nat \<Rightarrow> u64 \<Rightarrow> 'z kstate_scheme \<Rightarrow> (int \<times> bytes, 'z kstate_scheme) res" where
  "either_copyout (User dst) loc src so len s =
     andthen (copyout (p_pagetable (myproc s)) dst src so len s) (\<lambda>r s. Inr ((r, loc), s))"
| "either_copyout (Kern dst) loc src so len s =
     Inr ((0, loc), s\<lparr>pmem := blit (pmem s) (unat dst) src so (unat len)\<rparr>)"
| "either_copyout (Local dst) loc src so len s = Inr ((0, blit loc dst src so (unat len)), s)"

text \<open>\<^verbatim>\<open>either_copyin\<close> returns the new contents of the kernel buffer it copies to.\<close>

fun either_copyin ::
  "bytes \<Rightarrow> nat \<Rightarrow> uptr \<Rightarrow> bytes \<Rightarrow> u64 \<Rightarrow> 'z kstate_scheme \<Rightarrow> (int \<times> bytes, 'z kstate_scheme) res" where
  "either_copyin dst d (User src) loc len s = copyin (p_pagetable (myproc s)) dst d src len s"
| "either_copyin dst d (Kern src) loc len s = Inr ((0, blit dst d (pmem s) (unat src) (unat len)), s)"
| "either_copyin dst d (Local src) loc len s = Inr ((0, blit dst d loc src (unat len)), s)"

section \<open>Inode contents\<close>

record stat =
  st_dev :: u32
  st_ino :: u32
  st_type :: u16
  st_nlink :: u16
  st_size :: u64

definition stati :: "nat \<Rightarrow> 'z fstate_scheme \<Rightarrow> stat" where
  "stati ip s = \<lparr>st_dev = i_dev (itable s ip), st_ino = i_inum (itable s ip),
     st_type = i_type (itable s ip), st_nlink = i_nlink (itable s ip),
     st_size = ucast (i_size (itable s ip))\<rparr>"

text \<open>The bytes of this iteration: \<^verbatim>\<open>min(n - tot, BSIZE - off%BSIZE)\<close>.\<close>

definition io_chunk :: "u32 \<Rightarrow> u32 \<Rightarrow> u32 \<Rightarrow> u32" where
  "io_chunk n tot off = (if n - tot < of_nat BSIZE - off mod of_nat BSIZE then n - tot
     else of_nat BSIZE - off mod of_nat BSIZE)"

text \<open>Loop variables: \<^verbatim>\<open>tot\<close>, \<^verbatim>\<open>off\<close>, \<^verbatim>\<open>dst\<close> and the local variable it may point to. Every iteration moves at least one byte.\<close>

definition readi_step ::
  "nat \<Rightarrow> u32 \<Rightarrow> u32 \<times> u32 \<times> uptr \<times> bytes \<Rightarrow> 'z fstate_scheme \<Rightarrow>
   ((u32 \<times> u32 \<times> uptr \<times> bytes, u32 \<times> bytes) ctl, 'z fstate_scheme) res" where
  "readi_step ip n = (\<lambda>(tot, off, dst, loc) s.
     if \<not> tot < n then Inr (Ret (tot, loc), s)
     else andthen (bmap ip (off div of_nat BSIZE) s) (\<lambda>addr s.
       if addr = 0 then Inr (Ret (tot, loc), s)
       else andthen (bread (i_dev (itable s ip)) addr s) (\<lambda>bp s.
         let m = io_chunk n tot off in
         andthen (either_copyout dst loc (bdata bp s) (unat (off mod of_nat BSIZE)) (ucast m) s) (\<lambda>(r, loc) s.
         andthen (brelse bp s) (\<lambda>_ s.
         if r = - 1 then Inr (Ret (- 1, loc), s)
         else Inr (Next (tot + m, off + m, uptr_add dst m, loc), s))))))"

definition readi ::
  "nat \<Rightarrow> uptr \<Rightarrow> bytes \<Rightarrow> u32 \<Rightarrow> u32 \<Rightarrow> 'z fstate_scheme \<Rightarrow> (u32 \<times> bytes, 'z fstate_scheme) res" where
  "readi ip dst loc off n s =
     (if off > i_size (itable s ip) \<or> off + n < off then Inr ((0, loc), s)
      else let n = (if off + n > i_size (itable s ip) then i_size (itable s ip) - off else n)
           in loop (unat n + 1) (readi_step ip n) (0, off, dst, loc) s)"

definition writei_step ::
  "nat \<Rightarrow> u32 \<Rightarrow> bytes \<Rightarrow> u32 \<times> u32 \<times> uptr \<Rightarrow> 'z fstate_scheme \<Rightarrow>
   ((u32 \<times> u32 \<times> uptr, u32 \<times> u32) ctl, 'z fstate_scheme) res" where
  "writei_step ip n loc = (\<lambda>(tot, off, src) s.
     if \<not> tot < n then Inr (Ret (tot, off), s)
     else andthen (bmap ip (off div of_nat BSIZE) s) (\<lambda>addr s.
       if addr = 0 then Inr (Ret (tot, off), s)
       else andthen (bread (i_dev (itable s ip)) addr s) (\<lambda>bp s.
         let m = io_chunk n tot off in
         andthen (either_copyin (bdata bp s) (unat (off mod of_nat BSIZE)) src loc (ucast m) s) (\<lambda>(r, d) s.
         let s = modify_data bp (\<lambda>_. d) s in
         if r = - 1 then andthen (brelse bp s) (\<lambda>_ s. Inr (Ret (tot, off), s))
         else andthen (log_write bp s) (\<lambda>_ s.
           andthen (brelse bp s) (\<lambda>_ s.
           Inr (Next (tot + m, off + m, uptr_add src m), s)))))))"

text \<open>\<^verbatim>\<open>off + n > MAXFILE*BSIZE\<close> compares in 64 bits, because \<^verbatim>\<open>NINDIRECT\<close> is a \<^verbatim>\<open>size_t\<close>.\<close>

definition writei :: "nat \<Rightarrow> uptr \<Rightarrow> bytes \<Rightarrow> u32 \<Rightarrow> u32 \<Rightarrow> 'z fstate_scheme \<Rightarrow> (u32, 'z fstate_scheme) res" where
  "writei ip src loc off n s =
     (if off > i_size (itable s ip) \<or> off + n < off then Inr (- 1, s)
      else if unat (off + n) > MAXFILE * BSIZE then Inr (- 1, s)
      else andthen (loop (unat n + 1) (writei_step ip n loc) (0, off, src) s) (\<lambda>(tot, off) s.
        let s = (if off > i_size (itable s ip) then set_inode ip (i_size_update (\<lambda>_. off)) s else s) in
        andthen (iupdate ip s) (\<lambda>_ s. Inr (tot, s))))"

section \<open>Directories\<close>

text \<open>\<^verbatim>\<open>struct dirent\<close>: the inode number at offset 0, the name at offset 2.\<close>

definition de_inum :: "bytes \<Rightarrow> u16" where "de_inum de = ld16 de 0"

definition namecmp :: "bytes \<Rightarrow> nat \<Rightarrow> bytes \<Rightarrow> nat \<Rightarrow> int" where
  "namecmp ms s mt t = strncmp ms s mt t DIRSIZ"

text \<open>\<^verbatim>\<open>readi(dp, 0, (uint64)&de, off, sizeof(de))\<close> into a local \<^verbatim>\<open>struct dirent\<close>\<close>

definition read_dirent :: "nat \<Rightarrow> bytes \<Rightarrow> u32 \<Rightarrow> 'z fstate_scheme \<Rightarrow> (u32 \<times> bytes, 'z fstate_scheme) res" where
  "read_dirent dp de off s = readi dp (Local 0) de off (of_nat dirent_size) s"

definition dirlookup_step ::
  "nat \<Rightarrow> bytes \<Rightarrow> u32 \<times> bytes \<Rightarrow> 'z fstate_scheme \<Rightarrow>
   ((u32 \<times> bytes, (nat \<times> u32) option) ctl, 'z fstate_scheme) res" where
  "dirlookup_step dp name = (\<lambda>(off, de) s.
     if \<not> off < i_size (itable s dp) then Inr (Ret None, s)
     else andthen (read_dirent dp de off s) (\<lambda>(r, de) s.
       if r \<noteq> of_nat dirent_size then Inl (Panic ''dirlookup read'')
       else if de_inum de = 0 then Inr (Next (off + of_nat dirent_size, de), s)
       else if namecmp name 0 de 2 = 0 then
         andthen (iget (i_dev (itable s dp)) (ucast (de_inum de)) s) (\<lambda>ip s. Inr (Ret (Some (ip, off)), s))
       else Inr (Next (off + of_nat dirent_size, de), s)))"

text \<open>
  The result is the inode and the offset for \<^verbatim>\<open>*poff\<close>, which callers that pass a null pointer
  ignore.
\<close>

definition dirlookup :: "nat \<Rightarrow> bytes \<Rightarrow> 'z fstate_scheme \<Rightarrow> ((nat \<times> u32) option, 'z fstate_scheme) res" where
  "dirlookup dp name s =
     (if i_type (itable s dp) \<noteq> T_DIR then Inl (Panic ''dirlookup not DIR'')
      else loop (unat (i_size (itable s dp)) div dirent_size + 2) (dirlookup_step dp name) (0, \<lambda>_. 0) s)"

definition dirlink_step ::
  "nat \<Rightarrow> u32 \<times> bytes \<Rightarrow> 'z fstate_scheme \<Rightarrow> ((u32 \<times> bytes, u32 \<times> bytes) ctl, 'z fstate_scheme) res" where
  "dirlink_step dp = (\<lambda>(off, de) s.
     if \<not> off < i_size (itable s dp) then Inr (Ret (off, de), s)
     else andthen (read_dirent dp de off s) (\<lambda>(r, de) s.
       if r \<noteq> of_nat dirent_size then Inl (Panic ''dirlink read'')
       else if de_inum de = 0 then Inr (Ret (off, de), s)
       else Inr (Next (off + of_nat dirent_size, de), s)))"

definition dirlink :: "nat \<Rightarrow> bytes \<Rightarrow> u32 \<Rightarrow> 'z fstate_scheme \<Rightarrow> (int, 'z fstate_scheme) res" where
  "dirlink dp name inum s =
     andthen (dirlookup dp name s) (\<lambda>found s.
     case found of
       Some (ip, _) \<Rightarrow> andthen (iput ip s) (\<lambda>_ s. Inr (- 1, s))
     | None \<Rightarrow>
         andthen (loop (unat (i_size (itable s dp)) div dirent_size + 2) (dirlink_step dp) (0, \<lambda>_. 0) s) (\<lambda>(off, de) s.
         let de = strncpy de 2 name 0 (int DIRSIZ);
             de = st16 de 0 (ucast inum) in
         andthen (writei dp (Local 0) de off (of_nat dirent_size) s) (\<lambda>r s.
         if r \<noteq> of_nat dirent_size then Inr (- 1, s) else Inr (0, s))))"

section \<open>Paths\<close>

definition SLASH :: u8 where "SLASH = 47"

fun skip_slashes :: "u8 list \<Rightarrow> u8 list" where
  "skip_slashes [] = []"
| "skip_slashes (c # cs) = (if c = SLASH then skip_slashes cs else c # cs)"

text \<open>The two halves of the loop to the end of the element: its bytes, and the rest.\<close>

fun elem_len :: "u8 list \<Rightarrow> nat" where
  "elem_len [] = 0"
| "elem_len (c # cs) = (if c = SLASH then 0 else Suc (elem_len cs))"

definition list_bytes :: "u8 list \<Rightarrow> bytes" where
  "list_bytes xs = (\<lambda>i. if i < List.length xs then xs ! i else 0)"

text \<open>\<^verbatim>\<open>skipelem\<close> returns the rest of the path and the new contents of the name buffer.\<close>

definition skipelem :: "u8 list \<Rightarrow> bytes \<Rightarrow> (u8 list \<times> bytes) option" where
  "skipelem path name =
     (let path = skip_slashes path in
      if path = [] then None
      else let s = path;
               len = elem_len path;
               path = drop len path;
               name = (if len \<ge> DIRSIZ then blit name 0 (list_bytes s) 0 DIRSIZ
                       else (blit name 0 (list_bytes s) 0 len)(len := 0))
           in Some (skip_slashes path, name))"

definition namex_step ::
  "bool \<Rightarrow> nat \<times> u8 list \<times> bytes \<Rightarrow> 'z fstate_scheme \<Rightarrow>
   ((nat \<times> u8 list \<times> bytes, nat option \<times> bytes) ctl, 'z fstate_scheme) res" where
  "namex_step nameiparent = (\<lambda>(ip, path, name) s.
     case skipelem path name of
       None \<Rightarrow>
         if nameiparent then andthen (iput ip s) (\<lambda>_ s. Inr (Ret (None, name), s))
         else Inr (Ret (Some ip, name), s)
     | Some (path, name) \<Rightarrow>
         andthen (ilock ip s) (\<lambda>_ s.
         if i_type (itable s ip) \<noteq> T_DIR then andthen (iunlockput ip s) (\<lambda>_ s. Inr (Ret (None, name), s))
         else if nameiparent \<and> path = [] then andthen (iunlock ip s) (\<lambda>_ s. Inr (Ret (Some ip, name), s))
         else andthen (dirlookup ip name s) (\<lambda>found s.
           case found of
             None \<Rightarrow> andthen (iunlockput ip s) (\<lambda>_ s. Inr (Ret (None, name), s))
           | Some (nxt, _) \<Rightarrow> andthen (iunlockput ip s) (\<lambda>_ s. Inr (Next (nxt, path, name), s)))))"

text \<open>Every iteration consumes an element of the path. A null current directory is undefined.\<close>

definition namex :: "u8 list \<Rightarrow> bool \<Rightarrow> bytes \<Rightarrow> 'z fstate_scheme \<Rightarrow> (nat option \<times> bytes, 'z fstate_scheme) res" where
  "namex path nameiparent name s =
     andthen
       (if path \<noteq> [] \<and> hd path = SLASH then iget ROOTDEV ROOTINO s
        else case p_cwd (myproc s) of
            None \<Rightarrow> Inl (Undefined ''cwd'')
          | Some cwd \<Rightarrow> Inr (idup cwd s))
       (\<lambda>ip s. loop (List.length path + 2) (namex_step nameiparent) (ip, path, name) s)"

definition namei :: "u8 list \<Rightarrow> 'z fstate_scheme \<Rightarrow> (nat option, 'z fstate_scheme) res" where
  "namei path s = andthen (namex path False (\<lambda>_. 0) s) (\<lambda>(ip, _) s. Inr (ip, s))"

definition nameiparent :: "u8 list \<Rightarrow> bytes \<Rightarrow> 'z fstate_scheme \<Rightarrow> (nat option \<times> bytes, 'z fstate_scheme) res" where
  "nameiparent path name s = namex path True name s"

end
