(* ===== verification/Ring.thy ===== *)
theory Ring
  imports Prelude
begin

text \<open>
  Circular buffers with free-running counters, as pipes, the console and the serial port use
  them: \<^verbatim>\<open>buf[w++ % N]\<close> stores, \<^verbatim>\<open>buf[r++ % N]\<close> fetches, and \<open>w - r\<close> in the width of the counters is
  the number of entries held (bytes there, descriptor numbers in the disk driver's queues). The size \<open>N\<close> divides the range of the counters, so wrapping is
  harmless. The interface is the locale \<open>fifo\<close>: a bounded first-in first-out queue.
\<close>

section \<open>The entries held\<close>

definition ring_items :: "nat \<Rightarrow> (nat \<Rightarrow> 'c) \<Rightarrow> 'a::len word \<Rightarrow> 'a word \<Rightarrow> 'c list" where
  "ring_items N buf r w = map (\<lambda>i. buf (unat (r + of_nat i) mod N)) [0..<unat (w - r)]"

definition ring_put :: "nat \<Rightarrow> 'c \<Rightarrow> (nat \<Rightarrow> 'c) \<Rightarrow> 'a::len word \<Rightarrow> (nat \<Rightarrow> 'c)" where
  "ring_put N c buf w = buf(unat w mod N := c)"

definition ring_get :: "nat \<Rightarrow> (nat \<Rightarrow> 'c) \<Rightarrow> 'a::len word \<Rightarrow> 'c" where
  "ring_get N buf r = buf (unat r mod N)"

lemma ring_items_length [simp]: "length (ring_items N buf r w) = unat (w - r)"
  by (simp add: ring_items_def)

lemma ring_items_empty: "ring_items N buf r w = [] \<longleftrightarrow> w = r"
  by (simp add: ring_items_def unat_eq_0)

lemma ring_items_self [simp]: "ring_items N buf r r = []"
  by (simp add: ring_items_empty)

lemma unat_add_of_nat_mod:
  fixes r :: "'a::len word"
  assumes "N dvd 2 ^ LENGTH('a)"
  shows "unat (r + of_nat i) mod N = (unat r + i) mod N"
proof -
  have "unat (r + of_nat i) = (unat r + i) mod 2 ^ LENGTH('a)"
    by (simp add: unat_word_ariths unat_of_nat mod_simps)
  then show ?thesis using assms by (simp add: mod_mod_cancel)
qed

lemma ring_items_get:
  fixes r w :: "'a::len word"
  assumes "r \<noteq> w"
  shows "ring_items N buf r w = ring_get N buf r # ring_items N buf (r + 1) w"
proof -
  have nz: "w - r \<noteq> 0" using assms by simp
  have "unat (w - r) = Suc (unat (w - r - 1))"
  proof -
    have "unat (w - r) \<noteq> 0" using nz by (simp only: unat_eq_0 not_False_eq_True)
    then show ?thesis using unat_minus_one [OF nz] by simp
  qed
  also have "w - r - 1 = w - (r + 1)" by simp
  finally have "ring_items N buf r w = map (\<lambda>i. buf (unat (r + of_nat i) mod N)) [0..<Suc (unat (w - (r + 1)))]"
    by (simp add: ring_items_def)
  also have "\<dots> = ring_get N buf r # ring_items N buf (r + 1) w"
    unfolding map_upt_Suc ring_items_def ring_get_def by (simp add: add.assoc)
  finally show ?thesis .
qed

lemma ring_items_put:
  fixes r w :: "'a::len word"
  assumes N: "N dvd 2 ^ LENGTH('a)" and room: "unat (w - r) < N" and big: "N < 2 ^ LENGTH('a)"
  shows "ring_items N (ring_put N c buf w) r (w + 1) = ring_items N buf r w @ [c]"
proof -
  let ?k = "unat (w - r)"
  have w: "w = r + of_nat ?k" by simp
  have "unat (w - r + 1) = Suc ?k"
    using room big by (simp add: unat_word_ariths)
  then have k: "unat (w + 1 - r) = Suc ?k" by (simp add: algebra_simps)
  have ne: "unat (r + of_nat i) mod N \<noteq> unat w mod N" if "i < ?k" for i
  proof
    assume "unat (r + of_nat i) mod N = unat w mod N"
    then have "(unat r + i) mod N = (unat r + ?k) mod N"
      using unat_add_of_nat_mod [OF N, of r i] unat_add_of_nat_mod [OF N, of r ?k] by simp
    then have "N dvd (unat r + ?k) - (unat r + i)" by (metis mod_eq_dvd_iff_nat add_le_mono1 that less_imp_le nat_add_left_cancel_le)
    then have "N dvd ?k - i" by simp
    then show False using that room by (auto dest!: dvd_imp_le)
  qed
  have "map (\<lambda>i. ring_put N c buf w (unat (r + of_nat i) mod N)) [0..<?k]
    = map (\<lambda>i. buf (unat (r + of_nat i) mod N)) [0..<?k]"
    using ne by (intro map_cong) (auto simp: ring_put_def)
  then show ?thesis
    by (simp add: ring_items_def k) (simp add: ring_put_def)
qed

text \<open>A byte stored at \<open>e\<close> leaves the bytes from \<open>r\<close> up to \<open>w\<close> alone when \<open>w\<close> is not after \<open>e\<close>.\<close>

lemma ring_items_put_other:
  fixes r w e :: "'a::len word"
  assumes N: "N dvd 2 ^ LENGTH('a)" and room: "unat (e - r) < N" and le: "unat (w - r) \<le> unat (e - r)"
  shows "ring_items N (ring_put N c buf e) r w = ring_items N buf r w"
proof -
  have "unat (r + of_nat i) mod N \<noteq> unat e mod N" if "i < unat (w - r)" for i
  proof
    assume "unat (r + of_nat i) mod N = unat e mod N"
    moreover have "unat e mod N = (unat r + unat (e - r)) mod N"
      using unat_add_of_nat_mod [OF N, of r "unat (e - r)"] by simp
    ultimately have eq: "(unat r + unat (e - r)) mod N = (unat r + i) mod N"
      using unat_add_of_nat_mod [OF N, of r i] by simp
    have i: "i < unat (e - r)" using that le by simp
    from eq have "N dvd unat r + unat (e - r) - (unat r + i)"
      using i by (metis mod_eq_dvd_iff_nat add_le_mono1 less_imp_le nat_add_left_cancel_le)
    then have "N dvd unat (e - r) - i" by simp
    then show False using i room by (auto dest!: dvd_imp_le)
  qed
  then show ?thesis unfolding ring_items_def by (intro map_cong) (auto simp: ring_put_def)
qed

lemma unat_pred_diff: "w \<noteq> r \<Longrightarrow> unat (w - r) = Suc (unat (w - 1 - r))" for w r :: "'a::len word"
proof -
  assume "w \<noteq> r"
  then have "w - r \<noteq> 0" by simp
  then have "unat (w - r - 1) = unat (w - r) - 1" "unat (w - r) \<noteq> 0"
    using unat_minus_one unat_eq_0 by blast+
  moreover have "w - r - 1 = w - 1 - r" by simp
  ultimately show ?thesis by simp
qed

lemma ring_items_unput:
  fixes r w :: "'a::len word"
  assumes "w \<noteq> r"
  shows "ring_items N buf r (w - 1) = butlast (ring_items N buf r w)"
  by (simp add: ring_items_def unat_pred_diff [OF assms])

lemma ring_items_last:
  fixes r w :: "'a::len word"
  assumes "w \<noteq> r"
  shows "last (ring_items N buf r w) = buf (unat (w - 1) mod N)"
  by (simp add: ring_items_def unat_pred_diff [OF assms])

text \<open>When the read index is at most the write index and that at most the edit index, the bytes
  up to the edit index are the lines followed by the edited line.\<close>

lemma ring_items_append:
  fixes r w e :: "'a::len word"
  assumes "unat (w - r) + unat (e - w) = unat (e - r)"
  shows "ring_items N buf r e = ring_items N buf r w @ ring_items N buf w e"
proof -
  have "map (\<lambda>i. buf (unat (r + of_nat i) mod N)) [unat (w - r)..<unat (w - r) + unat (e - w)]
      = map (\<lambda>i. buf (unat (r + of_nat (i + unat (w - r))) mod N)) [0..<unat (e - w)]"
    by (simp add: map_add_upt [symmetric] add.commute)
  also have "\<dots> = ring_items N buf w e"
    by (simp add: ring_items_def algebra_simps)
  finally show ?thesis
    by (simp add: ring_items_def [of N buf r e] assms [symmetric] upt_add_eq_append [of 0])
      (simp add: ring_items_def)
qed

section \<open>Bounded queues\<close>

text \<open>Fetching \<open>n\<close> times.\<close>

primrec get_many :: "('s \<Rightarrow> 'c \<times> 's) \<Rightarrow> nat \<Rightarrow> 's \<Rightarrow> 'c list \<times> 's" where
  "get_many get 0 s = ([], s)"
| "get_many get (Suc n) s = (let (c, s) = get s; (cs, s) = get_many get n s in (c # cs, s))"

locale fifo =
  fixes put :: "'c \<Rightarrow> 's \<Rightarrow> 's"
    and get :: "'s \<Rightarrow> 'c \<times> 's"
    and items :: "'s \<Rightarrow> 'c list"
    and room :: "'s \<Rightarrow> nat"
    and ok :: "'s \<Rightarrow> bool"
  assumes put_items: "ok s \<Longrightarrow> 0 < room s \<Longrightarrow> items (put c s) = items s @ [c] \<and> ok (put c s)"
    and put_room: "ok s \<Longrightarrow> 0 < room s \<Longrightarrow> room (put c s) = room s - 1"
    and get_items: "ok s \<Longrightarrow> items s = c # cs \<Longrightarrow> \<exists>s'. get s = (c, s') \<and> items s' = cs \<and> ok s'"
begin

lemma put_many:
  "ok s \<Longrightarrow> length cs \<le> room s \<Longrightarrow> items (fold put cs s) = items s @ cs \<and> ok (fold put cs s)"
proof (induction cs arbitrary: s)
  case Nil
  then show ?case by simp
next
  case (Cons c cs)
  then have "0 < room s" by auto
  with Cons.prems(1) have p: "items (put c s) = items s @ [c]" "ok (put c s)" "room (put c s) = room s - 1"
    using put_items put_room by auto
  moreover have "length cs \<le> room (put c s)" using Cons.prems(2) p(3) by simp
  ultimately show ?case using Cons.IH [of "put c s"] by simp
qed

lemma get_many_items:
  "ok s \<Longrightarrow> items s = xs @ ys \<Longrightarrow> \<exists>s'. get_many get (length xs) s = (xs, s') \<and> items s' = ys \<and> ok s'"
proof (induction xs arbitrary: s)
  case Nil
  then show ?case by simp
next
  case (Cons x xs)
  then obtain s1 where "get s = (x, s1)" "items s1 = xs @ ys" "ok s1"
    using get_items [of s x "xs @ ys"] by auto
  with Cons.IH [of s1] show ?case by auto
qed

text \<open>First in, first out: what was held comes first, then what was put, in order.\<close>

lemma fifo_order:
  assumes "ok s" and "length cs \<le> room s"
  shows "\<exists>s'. get_many get (length (items s) + length cs) (fold put cs s) = (items s @ cs, s') \<and> items s' = []"
  using put_many [OF assms] get_many_items [of "fold put cs s" "items s @ cs" "[]"] by auto

end

end
