(* ===== verification/Printf.thy ===== *)
theory Printf
  imports Prelude
begin

text \<open>
  The number and format printers of the kernel (\<^verbatim>\<open>kernel/printf.c\<close>) and of user programs
  (\<^verbatim>\<open>user/printf.c\<close>), as the bytes they print, and the number parser of the user library
  (\<^verbatim>\<open>atoi\<close> of \<^verbatim>\<open>user/ulib.c\<close>). An argument is an integer, a pointer or a string; a missing or
  mistyped argument is undefined behaviour, the result \<open>None\<close>.
\<close>

section \<open>Characters\<close>

definition bstr :: "string \<Rightarrow> u8 list" where
  "bstr cs = map of_char cs"

definition digits :: "nat \<Rightarrow> u8" where
  "digits d = bstr ''0123456789abcdef'' ! d"

definition digitsU :: "nat \<Rightarrow> u8" where
  "digitsU d = bstr ''0123456789ABCDEF'' ! d"

section \<open>Numbers\<close>

text \<open>The loop \<^verbatim>\<open>do { buf[i++] = digits[x % base]; } while((x /= base) != 0)\<close>: the digits, lowest first.\<close>

function digit_loop :: "nat \<Rightarrow> nat \<Rightarrow> nat list" where
  "digit_loop base x = (if base \<le> 1 then [] else
     if x div base = 0 then [x mod base] else x mod base # digit_loop base (x div base))"
  by auto
termination
proof (relation "measure snd")
  fix base x :: nat
  assume "\<not> base \<le> 1" "x div base \<noteq> 0"
  then have "1 < base" "0 < x" by (auto intro: gr0I)
  then show "((base, x div base), (base, x)) \<in> measure snd" by simp
qed simp

declare digit_loop.simps [simp del]

text \<open>\<^verbatim>\<open>printint(xx, base, sign)\<close>; \<^verbatim>\<open>x = -xx\<close> is the negation of the 32-bit word.\<close>

definition printint_with :: "(nat \<Rightarrow> u8) \<Rightarrow> u32 \<Rightarrow> nat \<Rightarrow> bool \<Rightarrow> u8 list" where
  "printint_with dig xx base sign =
     (let neg = (sign \<and> xx <s 0);
          x = (if neg then - xx else xx);
          buf = map dig (digit_loop base (unat x)) @ (if neg then bstr ''-'' else [])
      in rev buf)"

definition printint :: "u32 \<Rightarrow> nat \<Rightarrow> bool \<Rightarrow> u8 list" where
  "printint = printint_with digits"

definition printintU :: "u32 \<Rightarrow> nat \<Rightarrow> bool \<Rightarrow> u8 list" where
  "printintU = printint_with digitsU"

fun ptr_loop :: "(nat \<Rightarrow> u8) \<Rightarrow> nat \<Rightarrow> u64 \<Rightarrow> u8 list" where
  "ptr_loop dig 0 x = []"
| "ptr_loop dig (Suc n) x = dig (unat (drop_bit 60 x)) # ptr_loop dig n (push_bit 4 x)"

definition printptr :: "u64 \<Rightarrow> u8 list" where
  "printptr x = bstr ''0x'' @ ptr_loop digits 16 x"

definition printptrU :: "u64 \<Rightarrow> u8 list" where
  "printptrU x = bstr ''0x'' @ ptr_loop digitsU 16 x"

section \<open>Formats\<close>

datatype parg = PInt u32 | PLong u64 | PPtr u64 | PStr "u8 list option"

text \<open>Prefixing the output of one step.\<close>

definition emit :: "u8 list \<Rightarrow> u8 list option \<Rightarrow> u8 list option" where
  "emit xs r = map_option ((@) xs) r"

definition PERCENT :: u8 where "PERCENT = 37"

text \<open>
  The kernel's \<^verbatim>\<open>printf\<close>: \<^verbatim>\<open>%d\<close>, \<^verbatim>\<open>%x\<close>, \<^verbatim>\<open>%p\<close>, \<^verbatim>\<open>%s\<close> and \<^verbatim>\<open>%%\<close>. The format ends before its NUL.
\<close>

fun printf_out :: "u8 list \<Rightarrow> parg list \<Rightarrow> u8 list option" where
  "printf_out [] args = Some []"
| "printf_out (c # cs) args =
     (if c \<noteq> PERCENT then emit [c] (printf_out cs args)
      else case cs of
          [] \<Rightarrow> Some []
        | f # fs \<Rightarrow>
            if f = of_char (CHR ''d'') then
              (case args of PInt x # as \<Rightarrow> emit (printint x 10 True) (printf_out fs as) | _ \<Rightarrow> None)
            else if f = of_char (CHR ''x'') then
              (case args of PInt x # as \<Rightarrow> emit (printint x 16 True) (printf_out fs as) | _ \<Rightarrow> None)
            else if f = of_char (CHR ''p'') then
              (case args of PPtr x # as \<Rightarrow> emit (printptr x) (printf_out fs as) | _ \<Rightarrow> None)
            else if f = of_char (CHR ''s'') then
              (case args of
                 PStr (Some t) # as \<Rightarrow> emit t (printf_out fs as)
               | PStr None # as \<Rightarrow> emit (bstr ''(null)'') (printf_out fs as)
               | _ \<Rightarrow> None)
            else if f = PERCENT then emit [PERCENT] (printf_out fs args)
            else emit [PERCENT, f] (printf_out fs args))"

text \<open>
  The user library's \<^verbatim>\<open>vprintf\<close>: a state machine with state 0 or \<^verbatim>\<open>'%'\<close>, and the conversions
  \<^verbatim>\<open>%l\<close> and \<^verbatim>\<open>%c\<close> besides; \<open>pct\<close> is the state.
\<close>

fun vprintf_out :: "bool \<Rightarrow> u8 list \<Rightarrow> parg list \<Rightarrow> u8 list option" where
  "vprintf_out pct [] args = Some []"
| "vprintf_out pct (c # cs) args =
     (if \<not> pct then
        (if c = PERCENT then vprintf_out True cs args else emit [c] (vprintf_out False cs args))
      else if c = of_char (CHR ''d'') then
        (case args of PInt x # as \<Rightarrow> emit (printintU x 10 True) (vprintf_out False cs as) | _ \<Rightarrow> None)
      else if c = of_char (CHR ''l'') then
        (case args of PLong x # as \<Rightarrow> emit (printintU (ucast x) 10 False) (vprintf_out False cs as) | _ \<Rightarrow> None)
      else if c = of_char (CHR ''x'') then
        (case args of PInt x # as \<Rightarrow> emit (printintU x 16 False) (vprintf_out False cs as) | _ \<Rightarrow> None)
      else if c = of_char (CHR ''p'') then
        (case args of PPtr x # as \<Rightarrow> emit (printptrU x) (vprintf_out False cs as) | _ \<Rightarrow> None)
      else if c = of_char (CHR ''s'') then
        (case args of
           PStr (Some t) # as \<Rightarrow> emit t (vprintf_out False cs as)
         | PStr None # as \<Rightarrow> emit (bstr ''(null)'') (vprintf_out False cs as)
         | _ \<Rightarrow> None)
      else if c = of_char (CHR ''c'') then
        (case args of PInt x # as \<Rightarrow> emit [ucast x] (vprintf_out False cs as) | _ \<Rightarrow> None)
      else if c = PERCENT then emit [PERCENT] (vprintf_out False cs args)
      else emit [PERCENT, c] (vprintf_out False cs args))"

section \<open>Parsing numbers (ulib.c)\<close>

fun atoi_loop :: "u8 list \<Rightarrow> u32 \<Rightarrow> u32" where
  "atoi_loop [] n = n"
| "atoi_loop (c # cs) n = (if 48 \<le> c \<and> c \<le> 57 then atoi_loop cs (n * 10 + ucast c - 48) else n)"

definition atoi :: "u8 list \<Rightarrow> u32" where
  "atoi s = atoi_loop s 0"

section \<open>What is printed\<close>

text \<open>The value of a list of digits, lowest first.\<close>

fun digits_value :: "nat \<Rightarrow> nat list \<Rightarrow> nat" where
  "digits_value base [] = 0"
| "digits_value base (d # ds) = d + base * digits_value base ds"

lemma digit_loop_value: "1 < base \<Longrightarrow> digits_value base (digit_loop base x) = x"
proof (induction base x rule: digit_loop.induct)
  case (1 base x)
  show ?case
  proof (cases "x div base = 0")
    case True
    then have "x mod base = x" by (metis div_mult_mod_eq mult_zero_left add_0)
    with True 1 show ?thesis by (subst digit_loop.simps) simp
  next
    case False
    with 1 have "digits_value base (digit_loop base (x div base)) = x div base" by simp
    with False 1 show ?thesis by (subst digit_loop.simps) simp
  qed
qed

lemma digit_loop_less: "1 < base \<Longrightarrow> d \<in> set (digit_loop base x) \<Longrightarrow> d < base"
proof (induction base x rule: digit_loop.induct)
  case (1 base x)
  from "1.prems"(2) have "d \<in> set (if x div base = 0 then [x mod base] else x mod base # digit_loop base (x div base))"
    using "1.prems"(1) by (subst (asm) digit_loop.simps) simp
  then show ?case using 1 by (auto split: if_splits)
qed

lemma digit_loop_length: "1 < base \<Longrightarrow> 0 < k \<Longrightarrow> x < base ^ k \<Longrightarrow> length (digit_loop base x) \<le> k"
proof (induction k arbitrary: x)
  case 0
  then show ?case by simp
next
  case (Suc k)
  show ?case
  proof (cases "x div base = 0")
    case True
    with Suc.prems show ?thesis by (subst digit_loop.simps) simp
  next
    case False
    have "x div base < base ^ k" using Suc.prems by (simp add: div_less_iff_less_mult mult.commute)
    moreover have "0 < k" using False \<open>x div base < base ^ k\<close> by (cases k) auto
    ultimately have "length (digit_loop base (x div base)) \<le> k" using Suc by blast
    with False Suc.prems show ?thesis by (subst digit_loop.simps) simp
  qed
qed

lemma digitsU_decimal: "d < 10 \<Longrightarrow> digitsU d = 48 + of_nat d"
proof -
  have "\<forall>d<10. digitsU d = 48 + of_nat d" by (simp add: All_less_Suc digitsU_def bstr_def numeral_eq_Suc)
  then show "d < 10 \<Longrightarrow> ?thesis" by blast
qed

lemma digits_decimal: "d < 10 \<Longrightarrow> digits d = 48 + of_nat d"
proof -
  have "\<forall>d<10. digits d = 48 + of_nat d" by (simp add: All_less_Suc digits_def bstr_def numeral_eq_Suc)
  then show "d < 10 \<Longrightarrow> ?thesis" by blast
qed

text \<open>\<^verbatim>\<open>atoi\<close> of digits, highest first, is the number they write, modulo \<open>2 ^ 32\<close>.\<close>

lemma atoi_loop_digits:
  "(\<And>d. d \<in> set ds \<Longrightarrow> d < 10) \<Longrightarrow> (c = [] \<or> \<not> (48 \<le> hd c \<and> hd c \<le> 57)) \<Longrightarrow>
   atoi_loop (map (\<lambda>d. 48 + of_nat d) ds @ c) n = foldl (\<lambda>n d. n * 10 + of_nat d) n ds"
proof (induction ds arbitrary: n)
  case Nil
  then show ?case by (cases c) auto
next
  case (Cons d ds)
  have d: "d < 10" using Cons.prems(1) by simp
  have u: "unat (48 + of_nat d :: u8) = 48 + d" using d by (simp add: unat_word_ariths unat_of_nat)
  then have le: "(48 :: u8) \<le> 48 + of_nat d" "(48 + of_nat d :: u8) \<le> 57" using d by (simp_all add: word_le_nat_alt)
  have "d = 0 \<or> d = 1 \<or> d = 2 \<or> d = 3 \<or> d = 4 \<or> d = 5 \<or> d = 6 \<or> d = 7 \<or> d = 8 \<or> d = 9" using d by arith
  then have "(ucast (48 + of_nat d :: u8) :: u32) = 48 + of_nat d" by (elim disjE) simp_all
  then have e: "n * 10 + ucast (48 + of_nat d :: u8) - 48 = n * 10 + of_nat d" for n :: u32 by simp
  have "atoi_loop (map (\<lambda>d. 48 + of_nat d) (d # ds) @ c) n = atoi_loop (map (\<lambda>d. 48 + of_nat d) ds @ c) (n * 10 + of_nat d)"
    using le by (simp only: list.map append_Cons atoi_loop.simps e simp_thms if_True)
  then show ?case using Cons by simp
qed

lemma foldl_digits:
  "foldl (\<lambda>n d. n * 10 + of_nat d) n (rev ds) = n * 10 ^ length ds + of_nat (digits_value 10 ds)" for n :: u32
proof (induction ds)
  case (Cons d ds)
  have "foldl (\<lambda>n d. n * 10 + of_nat d) n (rev (d # ds)) = (n * 10 ^ length ds + of_nat (digits_value 10 ds)) * 10 + of_nat d"
    using Cons by simp
  also have "\<dots> = n * 10 ^ length (d # ds) + of_nat (digits_value 10 (d # ds))"
    by (simp add: algebra_simps)
  finally show ?case .
qed simp

text \<open>Printing an unsigned decimal with the user library's \<^verbatim>\<open>printint\<close> and reading it back with \<^verbatim>\<open>atoi\<close> gives the number
  when a full stop follows; the text is at most ten digits, so the buffer of 16 bytes is large enough.\<close>

theorem printint_atoi_roundtrip:
  "atoi (printintU x 10 False @ bstr ''.'') = x \<and> length (printintU x 10 False) \<le> 10"
proof -
  let ?ds = "digit_loop 10 (unat x)"
  have ds: "d < 10" if "d \<in> set (rev ?ds)" for d using digit_loop_less [of 10 d "unat x"] that by simp
  have p: "printintU x 10 False = map (\<lambda>d. 48 + of_nat d) (rev ?ds)"
    using ds digitsU_decimal by (auto simp: printintU_def printint_with_def rev_map)
  have "atoi (printintU x 10 False @ bstr ''.'') = foldl (\<lambda>n d. n * 10 + of_nat d) 0 (rev ?ds)"
    unfolding atoi_def p by (rule atoi_loop_digits [OF ds]) (simp_all add: bstr_def)
  also have "\<dots> = x" unfolding foldl_digits by (simp add: digit_loop_value)
  finally have "atoi (printintU x 10 False @ bstr ''.'') = x" .
  moreover have "length ?ds \<le> 10"
    by (rule digit_loop_length) (use unsigned_less [of x, where 'a = nat] in simp_all)
  ultimately show ?thesis by (simp add: p)
qed

text \<open>The kernel's signed decimal of a 32-bit number is a minus sign exactly for the negative ones and then the
  decimal digits of its absolute value, the most negative number included; its text fits the buffer of 16 bytes.\<close>

theorem printint_signed:
  "\<exists>ds. printint x 10 True = (if sint x < 0 then bstr ''-'' else []) @ map digits (rev ds)
    \<and> int (digits_value 10 ds) = \<bar>sint x\<bar> \<and> list_all (\<lambda>d. d < 10) ds \<and> length (printint x 10 True) \<le> 11"
proof -
  define y where "y = (if sint x < 0 then - x else x)"
  have neg: "x <s 0 \<longleftrightarrow> sint x < 0" by (simp add: word_sless_alt)
  have abs: "int (unat y) = \<bar>sint x\<bar>"
  proof (cases "sint x < 0")
    case True
    have "- (2 ^ 31) \<le> sint x" using sint_ge [of x] by simp
    then have "(- sint x) mod 2 ^ LENGTH(32) = - sint x" using True by (simp add: mod_pos_pos_trivial)
    moreover have "- x = word_of_int (- sint x)" by simp
    ultimately have "uint (- x) = - sint x" by (metis uint_word_of_int)
    then show ?thesis using True by (simp add: y_def)
  next
    case False
    moreover have "sint x < 2 ^ 31" using sint_lt [of x] by simp
    ultimately have "(sint x) mod 2 ^ LENGTH(32) = sint x" by (simp add: mod_pos_pos_trivial)
    moreover have "x = word_of_int (sint x)" by simp
    ultimately have "uint x = sint x" by (metis uint_word_of_int)
    then show ?thesis using False by (simp add: y_def)
  qed
  have len: "length (digit_loop 10 (unat y)) \<le> 10"
    by (rule digit_loop_length) (use unsigned_less [of y, where 'a = nat] in simp_all)
  show ?thesis
    by (rule exI [of _ "digit_loop 10 (unat y)"])
      (use abs len neg in \<open>auto simp: printint_def printint_with_def Let_def y_def digit_loop_value rev_map bstr_def list_all_iff
        dest: digit_loop_less [rotated]\<close>)
qed

end
