(* ===== verification/Console.thy ===== *)
theory Console
  imports Fsdir Ring Printf
begin

text \<open>
  The serial port (\<^verbatim>\<open>uart.c\<close>) and the console (\<^verbatim>\<open>console.c\<close>), with the process listing they
  print (\<^verbatim>\<open>procdump\<close> of \<^verbatim>\<open>proc.c\<close>). The device is what the driver sees of it: the bytes waiting in
  its receive register, the answers its status register gives about the transmitter, and the
  writes to its registers in order. The transmitter answers busy only finitely often: after the listed
  answers it is idle.
\<close>

section \<open>State\<close>

record cstate = fstate +
  uart_in :: "u8 list"                 \<comment> \<open>bytes received and not read from RHR\<close>
  uart_idle :: "bool list"             \<comment> \<open>next answers of LSR_TX_IDLE\<close>
  uart_writes :: "(nat \<times> u8) list"     \<comment> \<open>register writes, oldest first\<close>
  uart_tx_buf :: "nat \<Rightarrow> u8"
  uart_tx_w :: u64
  uart_tx_r :: u64
  cons_buf :: "nat \<Rightarrow> u8"
  cons_r :: u32
  cons_w :: u32
  cons_e :: u32

section \<open>The serial port (uart.c)\<close>

definition RHR :: nat where "RHR = 0"
definition THR :: nat where "THR = 0"
definition IER :: nat where "IER = 1"
definition IER_RX_ENABLE :: u8 where "IER_RX_ENABLE = 1"
definition IER_TX_ENABLE :: u8 where "IER_TX_ENABLE = 2"
definition FCR :: nat where "FCR = 2"
definition FCR_FIFO_ENABLE :: u8 where "FCR_FIFO_ENABLE = 1"
definition FCR_FIFO_CLEAR :: u8 where "FCR_FIFO_CLEAR = 6"
definition LCR :: nat where "LCR = 3"
definition LCR_EIGHT_BITS :: u8 where "LCR_EIGHT_BITS = 3"
definition LCR_BAUD_LATCH :: u8 where "LCR_BAUD_LATCH = 128"
definition UART_TX_BUF_SIZE :: nat where "UART_TX_BUF_SIZE = 32"

definition WriteReg :: "nat \<Rightarrow> u8 \<Rightarrow> 'z cstate_scheme \<Rightarrow> 'z cstate_scheme" where
  "WriteReg reg v s = s\<lparr>uart_writes := uart_writes s @ [(reg, v)]\<rparr>"

text \<open>\<^verbatim>\<open>ReadReg(LSR) & LSR_TX_IDLE\<close>\<close>

definition tx_idle :: "'z cstate_scheme \<Rightarrow> bool \<times> 'z cstate_scheme" where
  "tx_idle s = (case uart_idle s of [] \<Rightarrow> (True, s) | b # bs \<Rightarrow> (b, s\<lparr>uart_idle := bs\<rparr>))"

definition uartinit :: "'z cstate_scheme \<Rightarrow> 'z cstate_scheme" where
  "uartinit s =
     (let s = WriteReg IER 0 s;
          s = WriteReg LCR LCR_BAUD_LATCH s;
          s = WriteReg 0 3 s;
          s = WriteReg 1 0 s;
          s = WriteReg LCR LCR_EIGHT_BITS s;
          s = WriteReg FCR (FCR_FIFO_ENABLE OR FCR_FIFO_CLEAR) s
      in WriteReg IER (IER_TX_ENABLE OR IER_RX_ENABLE) s)"

text \<open>The fetch of the transmit buffer: \<^verbatim>\<open>uart_tx_buf[uart_tx_r % UART_TX_BUF_SIZE]; uart_tx_r += 1\<close>\<close>

definition uart_tx_get :: "'z cstate_scheme \<Rightarrow> u8 \<times> 'z cstate_scheme" where
  "uart_tx_get s = (ring_get UART_TX_BUF_SIZE (uart_tx_buf s) (uart_tx_r s), s\<lparr>uart_tx_r := uart_tx_r s + 1\<rparr>)"

definition uart_tx_put :: "u8 \<Rightarrow> 'z cstate_scheme \<Rightarrow> 'z cstate_scheme" where
  "uart_tx_put c s = s\<lparr>uart_tx_buf := ring_put UART_TX_BUF_SIZE c (uart_tx_buf s) (uart_tx_w s),
     uart_tx_w := uart_tx_w s + 1\<rparr>"

definition uartstart_step ::
  "unit \<Rightarrow> 'z cstate_scheme \<Rightarrow> ((unit, unit) ctl, 'z cstate_scheme) res" where
  "uartstart_step _ s =
     (if uart_tx_w s = uart_tx_r s then Inr (Ret (), s)
      else case tx_idle s of
          (False, s) \<Rightarrow> Inr (Ret (), s)
        | (True, s) \<Rightarrow>
            (case uart_tx_get s of
               (c, s) \<Rightarrow> Inr (Next (), WriteReg THR c (wakeup ChUart s))))"

text \<open>At most one iteration for each byte held, and one to see that none is left.\<close>

definition uartstart :: "'z cstate_scheme \<Rightarrow> (unit, 'z cstate_scheme) res" where
  "uartstart s = loop (unat (uart_tx_w s - uart_tx_r s) + 1) uartstart_step () s"

definition uartputc :: "u8 \<Rightarrow> 'z cstate_scheme \<Rightarrow> (unit, 'z cstate_scheme) res" where
  "uartputc c s =
     (if uart_tx_w s = uart_tx_r s + of_nat UART_TX_BUF_SIZE then Inl (Blocked ''uartputc'')
      else uartstart (uart_tx_put c s))"

text \<open>The spin consumes the busy answers and the idle one that ends it.\<close>

definition uartputc_sync :: "u8 \<Rightarrow> 'z cstate_scheme \<Rightarrow> 'z cstate_scheme" where
  "uartputc_sync c s = WriteReg THR c (s\<lparr>uart_idle := drop 1 (dropWhile Not (uart_idle s))\<rparr>)"

definition uartgetc :: "'z cstate_scheme \<Rightarrow> u8 option \<times> 'z cstate_scheme" where
  "uartgetc s = (case uart_in s of [] \<Rightarrow> (None, s) | c # cs \<Rightarrow> (Some c, s\<lparr>uart_in := cs\<rparr>))"

section \<open>The console (console.c)\<close>

definition INPUT_BUF_SIZE :: nat where "INPUT_BUF_SIZE = 128"

text \<open>\<^verbatim>\<open>C(x)\<close>: the control character of a letter\<close>

definition Ctl :: "char \<Rightarrow> u8" where "Ctl x = of_char x - 64"

text \<open>A character, or \<^verbatim>\<open>BACKSPACE\<close>, which is outside the range of a byte.\<close>

datatype outchar = BACKSPACE | Chr u8

fun consputc :: "outchar \<Rightarrow> 'z cstate_scheme \<Rightarrow> 'z cstate_scheme" where
  "consputc BACKSPACE s = uartputc_sync 8 (uartputc_sync 32 (uartputc_sync 8 s))"
| "consputc (Chr c) s = uartputc_sync c s"

text \<open>The kernel's \<^verbatim>\<open>printf\<close> sends its output to the console.\<close>

definition kprintf :: "string \<Rightarrow> parg list \<Rightarrow> 'z cstate_scheme \<Rightarrow> (unit, 'z cstate_scheme) res" where
  "kprintf fmt args s = (case printf_out (bstr fmt) args of
       None \<Rightarrow> Inl (Undefined ''printf'')
     | Some out \<Rightarrow> Inr ((), fold (\<lambda>c. consputc (Chr c)) out s))"

text \<open>\<^verbatim>\<open>procdump\<close> (proc.c): one line for each process in use.\<close>

fun state_name :: "procstate \<Rightarrow> string" where
  "state_name UNUSED = ''unused''"
| "state_name USED = ''used''"
| "state_name SLEEPING = ''sleep ''"
| "state_name RUNNABLE = ''runble''"
| "state_name RUNNING = ''run   ''"
| "state_name ZOMBIE = ''zombie''"

fun procdump_loop :: "nat list \<Rightarrow> 'z cstate_scheme \<Rightarrow> (unit, 'z cstate_scheme) res" where
  "procdump_loop [] s = Inr ((), s)"
| "procdump_loop (i # is) s =
     (let p = procs s i in
      if p_state p = UNUSED then procdump_loop is s
      else andthen (kprintf ''%d %s %s'' [PInt (p_pid p), PStr (Some (bstr (state_name (p_state p)))),
             PStr (Some (takeWhile (\<lambda>c. c \<noteq> 0) (p_name p)))] s) (\<lambda>_ s.
           andthen (kprintf [CHR 0x0A] [] s) (\<lambda>_ s. procdump_loop is s)))"

definition procdump :: "'z cstate_scheme \<Rightarrow> (unit, 'z cstate_scheme) res" where
  "procdump s = andthen (kprintf [CHR 0x0A] [] s) (\<lambda>_ s. procdump_loop [0..<NPROC] s)"

text \<open>
  An operation that may sleep and be resumed: it is finished, or asleep on a channel with
  the loop variables it resumes from.
\<close>

datatype ('x, 'r) act = Fin 'r | Asleep chan 'x

definition await :: "string \<Rightarrow> (('x, 'r) act, 's) res \<Rightarrow> ('r, 's) res" where
  "await name m = andthen m (\<lambda>a s. case a of Fin r \<Rightarrow> Inr (r, s) | Asleep ch x \<Rightarrow> Inl (Blocked name))"

lemma await_simps [simp]:
  "await name (Inr (Fin r, s)) = Inr (r, s)"
  "await name (Inr (Asleep ch x, s)) = Inl (Blocked name)"
  "await name (Inl e) = Inl e"
  by (simp_all add: await_def)

definition consolewrite_step ::
  "uptr \<Rightarrow> bytes \<Rightarrow> int \<Rightarrow> int \<Rightarrow> 'z cstate_scheme \<Rightarrow> ((int, int) ctl, 'z cstate_scheme) res" where
  "consolewrite_step src loc n i s =
     (if \<not> i < n then Inr (Ret i, s)
      else andthen (either_copyin (\<lambda>_. 0) 0 (uptr_add src (word_of_int i)) loc 1 s) (\<lambda>(r, c) s.
        if r = - 1 then Inr (Ret i, s)
        else andthen (uartputc (c 0) s) (\<lambda>_ s. Inr (Next (i + 1), s))))"

definition consolewrite :: "uptr \<Rightarrow> bytes \<Rightarrow> int \<Rightarrow> 'z cstate_scheme \<Rightarrow> (int, 'z cstate_scheme) res" where
  "consolewrite src loc n s = loop (nat n + 1) (consolewrite_step src loc n) 0 s"

definition cons_get :: "'z cstate_scheme \<Rightarrow> u8 \<times> 'z cstate_scheme" where
  "cons_get s = (ring_get INPUT_BUF_SIZE (cons_buf s) (cons_r s), s\<lparr>cons_r := cons_r s + 1\<rparr>)"

text \<open>One iteration of \<^verbatim>\<open>consoleread\<close>; \<^verbatim>\<open>target\<close> is the count asked for.\<close>

definition consoleread_step ::
  "int \<Rightarrow> uptr \<times> bytes \<times> int \<Rightarrow> 'z cstate_scheme \<Rightarrow>
   ((uptr \<times> bytes \<times> int, (uptr \<times> bytes \<times> int, int \<times> bytes) act) ctl, 'z cstate_scheme) res" where
  "consoleread_step target = (\<lambda>(dst, loc, n) s.
     if \<not> 0 < n then Inr (Ret (Fin (target - n, loc)), s)
     else if cons_r s = cons_w s then
       (if p_killed (myproc s) then Inr (Ret (Fin (- 1, loc)), s) else Inr (Ret (Asleep ChCons (dst, loc, n)), s))
     else case cons_get s of (c, s) \<Rightarrow>
       if c = Ctl CHR ''D'' then
         Inr (Ret (Fin (target - n, loc)), if n < target then s\<lparr>cons_r := cons_r s - 1\<rparr> else s)
       else andthen (either_copyout dst loc (\<lambda>_. c) 0 1 s) (\<lambda>(r, loc) s.
         if r = - 1 then Inr (Ret (Fin (target - n, loc)), s)
         else if c = 10 then Inr (Ret (Fin (target - (n - 1), loc)), s)
         else Inr (Next (uptr_add dst 1, loc, n - 1), s)))"

text \<open>The loop from given loop variables, until it finishes or sleeps; a negative count reads nothing.\<close>

definition consoleread_from ::
  "int \<Rightarrow> uptr \<times> bytes \<times> int \<Rightarrow> 'z cstate_scheme \<Rightarrow>
   ((uptr \<times> bytes \<times> int, int \<times> bytes) act, 'z cstate_scheme) res" where
  "consoleread_from target = (\<lambda>(dst, loc, n). loop (nat n + 1) (consoleread_step target) (dst, loc, n))"

definition consoleread :: "uptr \<Rightarrow> bytes \<Rightarrow> int \<Rightarrow> 'z cstate_scheme \<Rightarrow> (int \<times> bytes, 'z cstate_scheme) res" where
  "consoleread dst loc n s = await ''consoleread'' (consoleread_from n (dst, loc, n) s)"

text \<open>\<^verbatim>\<open>case C('U')\<close>: erase back to the start of the line\<close>

definition kill_line_step :: "unit \<Rightarrow> 'z cstate_scheme \<Rightarrow> ((unit, unit) ctl, 'z cstate_scheme) res" where
  "kill_line_step _ s =
     (if cons_e s \<noteq> cons_w s \<and> cons_buf s (unat (cons_e s - 1) mod INPUT_BUF_SIZE) \<noteq> 10
      then Inr (Next (), consputc BACKSPACE (s\<lparr>cons_e := cons_e s - 1\<rparr>)) else Inr (Ret (), s))"

definition cons_put :: "u8 \<Rightarrow> 'z cstate_scheme \<Rightarrow> 'z cstate_scheme" where
  "cons_put c s = s\<lparr>cons_buf := ring_put INPUT_BUF_SIZE c (cons_buf s) (cons_e s), cons_e := cons_e s + 1\<rparr>"

definition consoleintr :: "u8 \<Rightarrow> 'z cstate_scheme \<Rightarrow> (unit, 'z cstate_scheme) res" where
  "consoleintr c s =
     (if c = Ctl CHR ''P'' then procdump s
      else if c = Ctl CHR ''U'' then loop (unat (cons_e s - cons_w s) + 1) kill_line_step () s
      else if c = Ctl CHR ''H'' \<or> c = 0x7F then
        (if cons_e s \<noteq> cons_w s then Inr ((), consputc BACKSPACE (s\<lparr>cons_e := cons_e s - 1\<rparr>)) else Inr ((), s))
      else if c \<noteq> 0 \<and> cons_e s - cons_r s < of_nat INPUT_BUF_SIZE then
        (let c = (if c = 13 then 10 else c);
             s = consputc (Chr c) s;
             s = cons_put c s
         in if c = 10 \<or> c = Ctl CHR ''D'' \<or> cons_e s - cons_r s = of_nat INPUT_BUF_SIZE
            then Inr ((), wakeup ChCons (s\<lparr>cons_w := cons_e s\<rparr>)) else Inr ((), s))
      else Inr ((), s))"

definition uartintr_step :: "unit \<Rightarrow> 'z cstate_scheme \<Rightarrow> ((unit, unit) ctl, 'z cstate_scheme) res" where
  "uartintr_step _ s = (case uartgetc s of
       (None, s) \<Rightarrow> Inr (Ret (), s)
     | (Some c, s) \<Rightarrow> andthen (consoleintr c s) (\<lambda>_ s. Inr (Next (), s)))"

definition uartintr :: "'z cstate_scheme \<Rightarrow> (unit, 'z cstate_scheme) res" where
  "uartintr s = andthen (loop (List.length (uart_in s) + 1) uartintr_step () s) (\<lambda>_ s. uartstart s)"

section \<open>A blank state\<close>

definition zero_c :: cstate where
  "zero_c = \<lparr>pmem = (\<lambda>_. 0), kend = 0x80022000, freelist = 0, procs = (\<lambda>_. zero_proc), curproc = 0,
     initproc = 0, nextpid = 1, bufs = (\<lambda>_. zero_buf), disk = (\<lambda>_ _. 0), dtrace = [],
     log_start = 2, log_size = 31, log_outstanding = 0, log_committing = False, log_dev = ROOTDEV,
     lh_n = 0, lh_block = (\<lambda>_. 0), sb = zero_sb, itable = (\<lambda>_. zero_inode),
     uart_in = [], uart_idle = [], uart_writes = [], uart_tx_buf = (\<lambda>_. 0), uart_tx_w = 0, uart_tx_r = 0,
     cons_buf = (\<lambda>_. 0), cons_r = 0, cons_w = 0, cons_e = 0\<rparr>"

section \<open>The transmit buffer is a queue\<close>

definition uart_items :: "'z cstate_scheme \<Rightarrow> u8 list" where
  "uart_items s = ring_items UART_TX_BUF_SIZE (uart_tx_buf s) (uart_tx_r s) (uart_tx_w s)"

definition uart_room :: "'z cstate_scheme \<Rightarrow> nat" where
  "uart_room s = UART_TX_BUF_SIZE - unat (uart_tx_w s - uart_tx_r s)"

definition uart_ok :: "'z cstate_scheme \<Rightarrow> bool" where
  "uart_ok s \<longleftrightarrow> unat (uart_tx_w s - uart_tx_r s) \<le> UART_TX_BUF_SIZE"

text \<open>The bytes sent to the transmit holding register, oldest first.\<close>

definition thr_out :: "'z cstate_scheme \<Rightarrow> u8 list" where
  "thr_out s = map snd (filter (\<lambda>w. fst w = THR) (uart_writes s))"

lemma unat_Suc_diff: "w \<noteq> r \<Longrightarrow> unat (w - (r + 1)) = unat (w - r) - 1" for w r :: "'a::len word"
  using unat_minus_one [of "w - r"] by (simp add: algebra_simps)

lemma unat_diff_Suc: "unat (w - r) < 2 ^ LENGTH('a) - 1 \<Longrightarrow> unat (w + 1 - r) = unat (w - r) + 1" for w r :: "'a::len word"
  using unat_word_ariths(1) [of "w - r" 1] by (simp add: algebra_simps less_diff_conv)

interpretation uart: fifo uart_tx_put uart_tx_get uart_items uart_room uart_ok
proof (unfold_locales, goal_cases)
  case (1 s c)
  then have "unat (uart_tx_w s - uart_tx_r s) < UART_TX_BUF_SIZE" by (simp add: uart_room_def)
  then show ?case
    using unat_diff_Suc [of "uart_tx_w s" "uart_tx_r s"]
    by (simp add: uart_items_def uart_tx_put_def uart_ok_def ring_items_put UART_TX_BUF_SIZE_def)
next
  case (2 s c)
  then have "unat (uart_tx_w s - uart_tx_r s) < UART_TX_BUF_SIZE" by (simp add: uart_room_def)
  then show ?case
    using unat_diff_Suc [of "uart_tx_w s" "uart_tx_r s"]
    by (simp add: uart_room_def uart_tx_put_def UART_TX_BUF_SIZE_def)
next
  case (3 s c cs)
  then have "uart_tx_r s \<noteq> uart_tx_w s" by (metis uart_items_def ring_items_empty list.distinct(1))
  with 3 show ?case
    using unat_Suc_diff [of "uart_tx_w s" "uart_tx_r s"] ring_items_get [of "uart_tx_r s" "uart_tx_w s" _ "uart_tx_buf s"]
    by (simp add: uart_items_def uart_tx_get_def uart_ok_def)
qed

lemma uart_sel_WriteReg [simp]:
  "uart_items (WriteReg reg v s) = uart_items s" "uart_ok (WriteReg reg v s) = uart_ok s"
  "uart_idle (WriteReg reg v s) = uart_idle s" "uart_tx_w (WriteReg reg v s) = uart_tx_w s"
  "uart_tx_r (WriteReg reg v s) = uart_tx_r s"
  "thr_out (WriteReg reg v s) = thr_out s @ (if reg = THR then [v] else [])"
  by (simp_all add: WriteReg_def uart_items_def uart_ok_def thr_out_def)

lemma uart_sel_procs [simp]:
  "uart_items (s\<lparr>procs := q\<rparr>) = uart_items s" "uart_ok (s\<lparr>procs := q\<rparr>) = uart_ok s"
  "thr_out (s\<lparr>procs := q\<rparr>) = thr_out s"
  by (simp_all add: uart_items_def uart_ok_def thr_out_def)

lemma uart_sel_wakeup [simp]:
  "uart_items (wakeup ch s) = uart_items s" "uart_ok (wakeup ch s) = uart_ok s"
  "thr_out (wakeup ch s) = thr_out s" "uart_idle (wakeup ch s) = uart_idle s"
  by (simp_all add: wakeup_def)

lemma uart_sel_idle [simp]:
  "uart_items (s\<lparr>uart_idle := b\<rparr>) = uart_items s" "uart_ok (s\<lparr>uart_idle := b\<rparr>) = uart_ok s"
  "thr_out (s\<lparr>uart_idle := b\<rparr>) = thr_out s"
  by (simp_all add: uart_items_def uart_ok_def thr_out_def)

lemma tx_idle_frame:
  assumes "tx_idle s = (b, s')"
  shows "uart_items s' = uart_items s" "uart_ok s' = uart_ok s" "thr_out s' = thr_out s"
    "list_all id (uart_idle s) \<Longrightarrow> b \<and> list_all id (uart_idle s')"
  using assms by (auto simp: tx_idle_def split: list.splits)

text \<open>\<^verbatim>\<open>uartstart\<close> moves bytes from the buffer to the device in order, all of them when it stays idle.\<close>

lemma uartstart_runs:
  assumes "uart_ok s"
  shows "runs (uartstart s) (\<lambda>_ s'. thr_out s' @ uart_items s' = thr_out s @ uart_items s \<and> uart_ok s'
    \<and> (list_all id (uart_idle s) \<longrightarrow> uart_items s' = []))"
  unfolding uartstart_def
proof (rule loop_runs_state [where f = "\<lambda>_ t. length (uart_items t)"
      and I = "\<lambda>_ t. thr_out t @ uart_items t = thr_out s @ uart_items s \<and> uart_ok t
        \<and> (list_all id (uart_idle s) \<longrightarrow> list_all id (uart_idle t))"], goal_cases)
  case 1
  then show ?case using assms by simp
next
  case 2
  then show ?case by (simp add: uart_items_def)
next
  case (3 x t)
  show ?case
  proof (cases "uart_tx_w t = uart_tx_r t")
    case True
    then show ?thesis using 3 by (simp add: uartstart_step_def uart_items_def ring_items_empty)
  next
    case False
    obtain b t1 where t1: "tx_idle t = (b, t1)" by (cases "tx_idle t") auto
    note fr = tx_idle_frame [OF t1]
    show ?thesis
    proof (cases b)
      case b: False
      then show ?thesis using 3 fr False by (auto simp: uartstart_step_def t1)
    next
      case b: True
      obtain c cs where items: "uart_items t1 = c # cs"
        using False fr(1) by (metis uart_items_def ring_items_empty list.exhaust)
      then obtain t2 where t2: "uart_tx_get t1 = (c, t2)" "uart_items t2 = cs" "uart_ok t2"
        using uart.get_items [of t1 c cs] fr(2) 3 by auto
      moreover have "thr_out t2 = thr_out t1" "uart_idle t2 = uart_idle t1"
        using t2(1) by (auto simp: uart_tx_get_def thr_out_def)
      moreover have "length (uart_items t) = Suc (length cs)" using items fr(1) by simp
      ultimately show ?thesis using 3 fr False b items
        by (auto simp: uartstart_step_def t1)
    qed
  qed
qed

lemma uart_room_items: "uart_room s = UART_TX_BUF_SIZE - length (uart_items s)"
  by (simp add: uart_room_def uart_items_def)

lemma uart_full:
  assumes "uart_ok s" and "uart_room s = 0"
  shows "length (uart_items s) = UART_TX_BUF_SIZE" "uart_tx_w s = uart_tx_r s + of_nat UART_TX_BUF_SIZE"
proof -
  have d: "unat (uart_tx_w s - uart_tx_r s) = UART_TX_BUF_SIZE" using assms by (simp add: uart_ok_def uart_room_def)
  then show "length (uart_items s) = UART_TX_BUF_SIZE" by (simp add: uart_items_def)
  have "uart_tx_w s - uart_tx_r s = of_nat UART_TX_BUF_SIZE" 
    by (rule word_unat_eq_iff [THEN iffD2]) (use d in \<open>simp add: UART_TX_BUF_SIZE_def\<close>)
  then show "uart_tx_w s = uart_tx_r s + of_nat UART_TX_BUF_SIZE" by (simp add: algebra_simps)
qed

definition uart_waiters :: "'z cstate_scheme \<Rightarrow> nat set" where
  "uart_waiters s = {p. p < NPROC \<and> p \<noteq> curproc s \<and> p_state (procs s p) = SLEEPING \<and> p_chan (procs s p) = Some ChUart}"

lemma uart_waiters_wakeup: "uart_waiters (wakeup ChUart s) = {}"
  using wakeup_none_left [of _ s ChUart] by (auto simp: uart_waiters_def)

text \<open>If the device is idle \<^verbatim>\<open>uartstart\<close> sends at least one byte and wakes whoever waits for room.\<close>

lemma uartstart_room:
  assumes "uart_ok s" and "uart_items s \<noteq> []" and "fst (tx_idle s)"
  shows "runs (uartstart s) (\<lambda>_ t. length (uart_items t) < length (uart_items s) \<and> uart_waiters t = {})"
  unfolding uartstart_def
proof (rule loop_runs_state [where f = "\<lambda>_ t. length (uart_items t)"
      and I = "\<lambda>_ t. uart_ok t \<and> (t = s \<or> length (uart_items t) < length (uart_items s) \<and> uart_waiters t = {})"], goal_cases)
  case 1
  then show ?case using assms by simp
next
  case 2
  then show ?case by (simp add: uart_items_def)
next
  case (3 x t)
  then have ok: "uart_ok t" and d: "t = s \<or> length (uart_items t) < length (uart_items s) \<and> uart_waiters t = {}" by auto
  obtain b t1 where t1: "tx_idle t = (b, t1)" by (cases "tx_idle t") auto
  note fr = tx_idle_frame [OF t1]
  have w1: "uart_waiters t1 = uart_waiters t" using t1 by (auto simp: tx_idle_def uart_waiters_def split: list.splits)
  show ?case
  proof (cases "uart_tx_w t \<noteq> uart_tx_r t \<and> b")
    case False
    have "t \<noteq> s" using False t1 assms(2,3) by (auto simp: uart_items_def ring_items_empty)
    then show ?thesis using False d fr(1) w1 by (cases b) (auto simp: uartstart_step_def t1)
  next
    case True
    then obtain c cs where items: "uart_items t1 = c # cs"
      using fr(1) by (metis uart_items_def ring_items_empty list.exhaust)
    then obtain t2 where t2: "uart_tx_get t1 = (c, t2)" "uart_items t2 = cs" "uart_ok t2"
      using uart.get_items [of t1 c cs] fr(2) ok by auto
    have "uart_waiters (WriteReg THR c (wakeup ChUart t2)) = {}"
      using uart_waiters_wakeup [of t2] by (simp add: uart_waiters_def WriteReg_def)
    then show ?thesis using True t2 items fr(1) d by (auto simp: uartstart_step_def t1)
  qed
qed

text \<open>C38: No byte written to the console is lost, doubled or reordered. With room in the transmit buffer \<^verbatim>\<open>uartputc\<close>
  returns, the bytes sent to the device followed by the bytes buffered are the old ones with the new byte at the end,
  and if the device is idle all of them are sent. With a full buffer it waits and overwrites nothing; when the device is
  idle again, the interrupt's \<^verbatim>\<open>uartstart\<close> keeps the order of all bytes, makes room and wakes every process that waits.\<close>

theorem uartputc_fifo:
  assumes ok: "uart_ok s"
  shows "if uart_room s = 0
    then uartputc c s = Inl (Blocked ''uartputc'')
      \<and> runs (uartstart s) (\<lambda>_ t. thr_out t @ uart_items t = thr_out s @ uart_items s \<and> uart_ok t
          \<and> (fst (tx_idle s) \<longrightarrow> 0 < uart_room t \<and> uart_waiters t = {}))
    else runs (uartputc c s) (\<lambda>_ s'. thr_out s' @ uart_items s' = thr_out s @ uart_items s @ [c] \<and> uart_ok s'
      \<and> (list_all id (uart_idle s) \<longrightarrow> uart_items s' = []))"
proof (cases "uart_room s = 0")
  case True
  have full: "length (uart_items s) = UART_TX_BUF_SIZE" and w: "uart_tx_w s = uart_tx_r s + of_nat UART_TX_BUF_SIZE"
    by (rule uart_full [OF ok True])+
  have b: "uartputc c s = Inl (Blocked ''uartputc'')" by (simp add: uartputc_def w)
  have r: "runs (uartstart s) (\<lambda>_ t. thr_out t @ uart_items t = thr_out s @ uart_items s \<and> uart_ok t
          \<and> (fst (tx_idle s) \<longrightarrow> 0 < uart_room t \<and> uart_waiters t = {}))"
  proof (cases "fst (tx_idle s)")
    case i: True
    have "uart_items s \<noteq> []" using full by (auto simp: UART_TX_BUF_SIZE_def)
    from uartstart_room [OF ok this i] uartstart_runs [OF ok] full show ?thesis
      by (auto simp: runs_def uart_room_items)
  next
    case False
    then show ?thesis by (intro runs_mono [OF uartstart_runs [OF ok]]) auto
  qed
  show ?thesis unfolding if_P [OF True] using b r by blast
next
  case False
  then have room: "0 < uart_room s" by simp
  have p: "uart_items (uart_tx_put c s) = uart_items s @ [c]" "uart_ok (uart_tx_put c s)"
    using uart.put_items [OF ok room] by auto
  have f: "thr_out (uart_tx_put c s) = thr_out s" "uart_idle (uart_tx_put c s) = uart_idle s"
    by (simp_all add: uart_tx_put_def thr_out_def)
  have "uart_tx_w s \<noteq> uart_tx_r s + of_nat UART_TX_BUF_SIZE"
  proof
    assume "uart_tx_w s = uart_tx_r s + of_nat UART_TX_BUF_SIZE"
    then have "uart_room s = 0" by (simp add: uart_room_def UART_TX_BUF_SIZE_def)
    with room show False by simp
  qed
  then show ?thesis unfolding if_not_P [OF False]
    using uartstart_runs [OF p(2)] by (simp add: uartputc_def p f)
qed

text \<open>A buffer with one byte, and a full one.\<close>

lemma uartputc_fifo_witness:
  "(\<exists>s'. uartputc 66 (zero_c\<lparr>uart_tx_buf := (\<lambda>_. 65), uart_tx_w := 0, uart_tx_r := - 1\<rparr>) = Inr ((), s')
      \<and> thr_out s' = [65, 66])
    \<and> uartputc 66 (zero_c\<lparr>uart_tx_w := 5, uart_tx_r := - 27\<rparr>) = Inl (Blocked ''uartputc'')"
proof -
  let ?s = "zero_c\<lparr>uart_tx_buf := (\<lambda>_. 65), uart_tx_w := 0, uart_tx_r := - 1\<rparr>"
  let ?t = "zero_c\<lparr>uart_tx_w := 5, uart_tx_r := - 27\<rparr>"
  have s: "uart_ok ?s" "uart_room ?s \<noteq> 0" "uart_items ?s = [65]" "thr_out ?s = []" "list_all id (uart_idle ?s)"
    by (simp_all add: uart_ok_def uart_room_def UART_TX_BUF_SIZE_def zero_c_def uart_items_def
        ring_items_def thr_out_def)
  have t: "uart_ok ?t" "uart_room ?t = 0" by (simp_all add: uart_ok_def uart_room_def UART_TX_BUF_SIZE_def)
  have "\<exists>s'. uartputc 66 ?s = Inr ((), s') \<and> thr_out s' = [65, 66]"
    using uartputc_fifo [OF s(1), of 66, unfolded if_not_P [OF s(2)]] s by (auto elim!: runsE)
  moreover have "uartputc 66 ?t = Inl (Blocked ''uartputc'')"
    using uartputc_fifo [OF t(1), of 66, unfolded if_P [OF t(2)]] by blast
  ultimately show ?thesis by blast
qed

section \<open>Line editing\<close>

text \<open>
  The console's contract: the lines entered and not yet read, and the line being edited, which
  holds no newline.
\<close>

definition cons_lines :: "'z cstate_scheme \<Rightarrow> u8 list" where
  "cons_lines s = ring_items INPUT_BUF_SIZE (cons_buf s) (cons_r s) (cons_w s)"

definition cons_edit :: "'z cstate_scheme \<Rightarrow> u8 list" where
  "cons_edit s = ring_items INPUT_BUF_SIZE (cons_buf s) (cons_w s) (cons_e s)"

definition cons_ok :: "'z cstate_scheme \<Rightarrow> bool" where
  "cons_ok s \<longleftrightarrow> unat (cons_e s - cons_r s) \<le> INPUT_BUF_SIZE
     \<and> unat (cons_w s - cons_r s) + unat (cons_e s - cons_w s) = unat (cons_e s - cons_r s)
     \<and> 10 \<notin> set (cons_edit s)"

definition edit_spec :: "u8 \<Rightarrow> u8 list \<times> u8 list \<Rightarrow> u8 list \<times> u8 list" where
  "edit_spec c = (\<lambda>(lines, edit).
     if c = Ctl CHR ''P'' \<or> c = 0 then (lines, edit)
     else if c = Ctl CHR ''U'' then (lines, [])
     else if c = Ctl CHR ''H'' \<or> c = 0x7F then (lines, butlast edit)
     else if length (lines @ edit) = 128 then (lines, edit)
     else let c = (if c = 13 then 10 else c); edit = edit @ [c] in
       if c = 10 \<or> c = Ctl CHR ''D'' \<or> length (lines @ edit) = 128 then (lines @ edit, []) else (lines, edit))"

abbreviation cons_same :: "'z cstate_scheme \<Rightarrow> 'z cstate_scheme \<Rightarrow> bool" where
  "cons_same s t \<equiv> cons_buf t = cons_buf s \<and> cons_r t = cons_r s \<and> cons_w t = cons_w s \<and> cons_e t = cons_e s"

lemma consputc_same: "cons_same s (consputc c s)"
  by (cases c) (simp_all add: uartputc_sync_def WriteReg_def)

lemma consputc_same_simps [simp]:
  "cons_buf (consputc c s) = cons_buf s" "cons_r (consputc c s) = cons_r s"
  "cons_w (consputc c s) = cons_w s" "cons_e (consputc c s) = cons_e s"
  using consputc_same [of c s] by simp_all

lemma fold_consputc_same: "cons_same s (fold (\<lambda>c. consputc (Chr c)) out s)"
  by (induction out arbitrary: s) (simp_all del: consputc.simps)

lemma kprintf_same: "printf_out (bstr fmt) args \<noteq> None \<Longrightarrow> runs (kprintf fmt args s) (\<lambda>_ t. cons_same s t)"
  by (auto simp: kprintf_def fold_consputc_same)

lemma procdump_loop_same: "runs (procdump_loop ps s) (\<lambda>_ t. cons_same s t)"
proof (induction ps arbitrary: s)
  case Nil
  then show ?case by simp
next
  case (Cons i ps)
  have f: "printf_out (bstr ''%d %s %s'') [PInt x, PStr (Some y), PStr (Some z)] \<noteq> None"
    "printf_out (bstr [CHR 0x0A]) [] \<noteq> None" for x y z
    by (simp_all add: bstr_def PERCENT_def emit_def)
  show ?case
  proof (cases "p_state (procs s i) = UNUSED")
    case True
    then show ?thesis using Cons [of s] by simp
  next
    case False
    have "runs (procdump_loop (i # ps) s) (\<lambda>_ t. cons_same s t)"
      unfolding procdump_loop.simps Let_def if_not_P [OF False]
    proof (rule runs_andthen [OF kprintf_same [OF f(1)]], rule runs_andthen [OF kprintf_same [OF f(2)]], goal_cases)
      case (1 u t v t2)
      then show ?case using Cons [of t2] by simp
    qed
    then show ?thesis .
  qed
qed

lemma procdump_same: "runs (procdump s) (\<lambda>_ t. cons_same s t)"
  unfolding procdump_def
proof (rule runs_andthen [OF kprintf_same], goal_cases)
  case 1
  then show ?case by (simp add: bstr_def PERCENT_def emit_def)
next
  case (2 x t)
  then show ?case using procdump_loop_same [of "[0..<NPROC]" t] by simp
qed

text \<open>Erasing one character.\<close>

lemma cons_ok_same: "cons_same s t \<Longrightarrow> cons_ok t = cons_ok s \<and> cons_lines t = cons_lines s \<and> cons_edit t = cons_edit s"
  by (simp add: cons_ok_def cons_lines_def cons_edit_def)

lemma cons_back:
  assumes ok: "cons_ok s" and ne: "cons_e s \<noteq> cons_w s"
  defines "t \<equiv> consputc BACKSPACE (s\<lparr>cons_e := cons_e s - 1\<rparr>)"
  shows "cons_ok t" "cons_lines t = cons_lines s" "cons_edit t = butlast (cons_edit s)"
proof -
  note w = unat_pred_diff [OF ne]
  have "unat (cons_e s - cons_r s) \<noteq> 0" using ok w by (simp add: cons_ok_def)
  then have "cons_e s \<noteq> cons_r s" by auto
  note r = unat_pred_diff [OF this]
  show l: "cons_lines t = cons_lines s" by (simp add: cons_lines_def t_def del: consputc.simps)
  show e: "cons_edit t = butlast (cons_edit s)"
    by (simp add: cons_edit_def t_def ring_items_unput [OF ne] del: consputc.simps)
  have "10 \<notin> set (cons_edit t)" using ok in_set_butlastD unfolding e cons_ok_def by metis
  then show "cons_ok t" using ok w r unfolding cons_ok_def by (simp add: t_def del: consputc.simps)
qed

lemma kill_line_runs:
  assumes "cons_ok s"
  shows "runs (loop (unat (cons_e s - cons_w s) + 1) kill_line_step () s)
    (\<lambda>_ t. cons_ok t \<and> cons_lines t = cons_lines s \<and> cons_edit t = [])"
proof (rule loop_runs_state [where f = "\<lambda>_ t. length (cons_edit t)"
      and I = "\<lambda>_ t. cons_ok t \<and> cons_lines t = cons_lines s"], goal_cases)
  case 1
  then show ?case using assms by simp
next
  case 2
  then show ?case by (simp add: cons_edit_def)
next
  case (3 x t)
  show ?case
  proof (cases "cons_e t = cons_w t")
    case True
    then show ?thesis using 3 by (simp add: kill_line_step_def cons_edit_def ring_items_def)
  next
    case False
    have ne: "cons_edit t \<noteq> []" using False by (simp add: cons_edit_def ring_items_empty)
    have "last (cons_edit t) = cons_buf t (unat (cons_e t - 1) mod INPUT_BUF_SIZE)"
      using False by (simp add: cons_edit_def ring_items_last)
    then have "cons_buf t (unat (cons_e t - 1) mod INPUT_BUF_SIZE) \<noteq> 10"
      using 3 ne by (metis cons_ok_def last_in_set)
    then have "kill_line_step x t = Inr (Next (), consputc BACKSPACE (t\<lparr>cons_e := cons_e t - 1\<rparr>))"
      using False by (simp add: kill_line_step_def del: consputc.simps)
    then show ?thesis using 3 cons_back [of t] False ne by (simp del: consputc.simps)
  qed
qed

text \<open>Entering one character.\<close>

lemma unat_less_128: "x < of_nat INPUT_BUF_SIZE \<longleftrightarrow> unat x < INPUT_BUF_SIZE" for x :: u32
  by (simp add: word_less_nat_alt INPUT_BUF_SIZE_def)

lemma cons_put_abs:
  fixes c :: u8
  assumes ok: "cons_ok s" and room: "unat (cons_e s - cons_r s) < INPUT_BUF_SIZE"
  defines "t \<equiv> cons_put c s"
  shows "cons_lines t = cons_lines s" "cons_edit t = cons_edit s @ [c]" "cons_w t = cons_w s" "cons_r t = cons_r s"
    "unat (cons_e t - cons_r t) = unat (cons_e s - cons_r s) + 1"
    "unat (cons_e t - cons_w t) = unat (cons_e s - cons_w s) + 1"
proof -
  have d: "INPUT_BUF_SIZE dvd 2 ^ LENGTH(32)" "INPUT_BUF_SIZE < 2 ^ LENGTH(32)" by (simp_all add: INPUT_BUF_SIZE_def)
  have w: "unat (cons_e s - cons_w s) < INPUT_BUF_SIZE" "unat (cons_w s - cons_r s) \<le> unat (cons_e s - cons_r s)"
    using ok room by (auto simp: cons_ok_def)
  show "cons_w t = cons_w s" "cons_r t = cons_r s" by (simp_all add: t_def cons_put_def)
  show "cons_lines t = cons_lines s"
    using ring_items_put_other [OF d(1) room w(2), where buf = "cons_buf s"] by (simp add: cons_lines_def t_def cons_put_def)
  show "cons_edit t = cons_edit s @ [c]"
    using ring_items_put [OF d(1) w(1) d(2), where buf = "cons_buf s"] by (simp add: cons_edit_def t_def cons_put_def)
  show "unat (cons_e t - cons_r t) = unat (cons_e s - cons_r s) + 1"
    "unat (cons_e t - cons_w t) = unat (cons_e s - cons_w s) + 1"
    using unat_diff_Suc [of "cons_e s" "cons_r s"] unat_diff_Suc [of "cons_e s" "cons_w s"] room w
    by (simp_all add: t_def cons_put_def INPUT_BUF_SIZE_def)
qed

text \<open>C7: The console input handler implements line editing: on the lines entered and the line being
  edited it does exactly what \<open>edit_spec\<close> says (erase, kill, end of line, end of file, a full
  buffer), whatever the position of the indices in the circular buffer, and keeps the buffer's invariant.\<close>

theorem consoleintr_refines:
  assumes ok: "cons_ok s"
  shows "runs (consoleintr c s) (\<lambda>_ s'. cons_ok s' \<and>
    (cons_lines s', cons_edit s') = edit_spec c (cons_lines s, cons_edit s))"
proof -
  consider "c = Ctl CHR ''P''" | "c = Ctl CHR ''U''" | "c = Ctl CHR ''H'' \<or> c = 0x7F" | "c = 0"
    | "c \<notin> {Ctl CHR ''P'', Ctl CHR ''U'', Ctl CHR ''H'', 0x7F, 0}" by auto
  then show ?thesis
  proof cases
    case 1
    have "runs (procdump s) (\<lambda>_ s'. cons_ok s' \<and> cons_lines s' = cons_lines s \<and> cons_edit s' = cons_edit s)"
      by (rule runs_mono [OF procdump_same]) (use ok cons_ok_same in blast)
    with 1 show ?thesis by (simp add: consoleintr_def edit_spec_def)
  next
    case 2
    have "Ctl CHR ''U'' \<noteq> Ctl CHR ''P''" "Ctl CHR ''U'' \<noteq> 0" by (simp_all add: Ctl_def)
    with 2 show ?thesis using kill_line_runs [OF ok] by (simp add: consoleintr_def edit_spec_def)
  next
    case 3
    then have "c \<noteq> Ctl CHR ''P''" "c \<noteq> Ctl CHR ''U''" "c \<noteq> 0" by (auto simp: Ctl_def)
    with 3 show ?thesis
      using ok cons_back [OF ok] by (simp add: consoleintr_def edit_spec_def cons_edit_def ring_items_empty del: consputc.simps)
  next
    case 4
    then show ?thesis using ok by (simp add: consoleintr_def edit_spec_def Ctl_def)
  next
    case 5
    then have ne: "c \<noteq> Ctl CHR ''P''" "c \<noteq> Ctl CHR ''U''" "c \<noteq> Ctl CHR ''H''" "c \<noteq> 0x7F" "c \<noteq> 0" by auto
    have len: "length (cons_lines s @ cons_edit s) = unat (cons_e s - cons_r s)"
      using ok by (simp add: cons_ok_def cons_lines_def cons_edit_def)
    show ?thesis
    proof (cases "unat (cons_e s - cons_r s) < INPUT_BUF_SIZE")
      case False
      then have "length (cons_lines s @ cons_edit s) = 128" using ok len by (simp add: cons_ok_def INPUT_BUF_SIZE_def)
      with False ne ok show ?thesis by (simp add: consoleintr_def edit_spec_def unat_less_128)
    next
      case True
      define c' where "c' = (if c = 13 then 10 else c)"
      define s1 where "s1 = consputc (Chr c') s"
      define t where "t = cons_put c' s1"
      have same: "cons_ok s1" "cons_lines s1 = cons_lines s" "cons_edit s1 = cons_edit s"
          "cons_e s1 = cons_e s" "cons_r s1 = cons_r s" "cons_w s1 = cons_w s"
        using ok cons_ok_same [of s s1] by (simp_all add: s1_def del: consputc.simps)
      have room: "unat (cons_e s1 - cons_r s1) < INPUT_BUF_SIZE" using True same by simp
      note p = cons_put_abs [OF same(1) room, of c', folded t_def, unfolded same]
      have sum: "unat (cons_w t - cons_r t) + unat (cons_e t - cons_w t) = unat (cons_e t - cons_r t)"
        using ok p by (simp add: cons_ok_def)
      have app: "ring_items INPUT_BUF_SIZE (cons_buf t) (cons_r t) (cons_e t) = cons_lines s @ cons_edit s @ [c']"
        using ring_items_append [OF sum, of _ "cons_buf t"] p(1,2) by (simp add: cons_lines_def cons_edit_def)
      have full: "cons_e t - cons_r t = of_nat INPUT_BUF_SIZE \<longleftrightarrow> length (cons_lines s @ cons_edit s @ [c']) = 128"
        using len p(5) unat_eq_nat_uint by (simp add: word_unat_eq_iff INPUT_BUF_SIZE_def)
      have le: "unat (cons_e t - cons_r t) \<le> INPUT_BUF_SIZE" using True p(5) by simp
      define commit where "commit \<longleftrightarrow> c' = 10 \<or> c' = Ctl CHR ''D'' \<or> cons_e t - cons_r t = of_nat INPUT_BUF_SIZE"
      have e: "consoleintr c s = Inr ((), if commit then wakeup ChCons (t\<lparr>cons_w := cons_e t\<rparr>) else t)"
        using ne True unfolding consoleintr_def commit_def t_def s1_def c'_def
        by (simp add: unat_less_128 Let_def del: consputc.simps)
      have spec: "edit_spec c (cons_lines s, cons_edit s) = (if commit
          then (cons_lines s @ cons_edit s @ [c'], []) else (cons_lines s, cons_edit s @ [c']))"
        using ne len True full by (simp add: edit_spec_def commit_def c'_def [symmetric] Let_def INPUT_BUF_SIZE_def)
      show ?thesis
      proof (cases commit)
        case True
        then show ?thesis unfolding e spec
          using app le by (simp add: wakeup_def cons_ok_def cons_lines_def cons_edit_def ring_items_def [of _ _ "cons_e t" "cons_e t"])
      next
        case False
        then have "c' \<noteq> 10" by (simp add: commit_def)
        with False show ?thesis unfolding e spec
          using p(1,2) sum le ok by (simp add: cons_ok_def)
      qed
    qed
  qed
qed

lemma consoleintr_refines_witness:
  "\<exists>s'. consoleintr 13 (zero_c\<lparr>cons_buf := (\<lambda>_. 65), cons_e := 2\<rparr>) = Inr ((), s') \<and> cons_lines s' = [65, 65, 10]"
proof -
  let ?s = "zero_c\<lparr>cons_buf := (\<lambda>_. 65), cons_e := 2\<rparr>"
  have "cons_lines ?s = []" "cons_edit ?s = [65, 65]" "cons_ok ?s"
    by (simp_all add: cons_ok_def cons_lines_def cons_edit_def zero_c_def ring_items_def upt_rec INPUT_BUF_SIZE_def)
  then show ?thesis
    using consoleintr_refines [of ?s 13] by (auto simp: edit_spec_def Ctl_def elim!: runsE)
qed

end
