(* ===== verification/Pipe.thy ===== *)
theory Pipe
  imports Console
begin

text \<open>
  Pipes (\<^verbatim>\<open>pipe.c\<close>) and the state of the file table (\<^verbatim>\<open>file.h\<close>). A pipe occupies a page of its own,
  whose fields are kept in the map \<open>pipes\<close> by the address of the page; the page leaves the free
  list when the pipe is made and returns to it when both ends are closed. A C \<^verbatim>\<open>int\<close> that only counts bytes of
  a request is a HOL integer.
\<close>

section \<open>State\<close>

datatype ftype = FD_NONE | FD_PIPE | FD_INODE | FD_DEVICE

record kfile =
  f_type :: ftype
  f_ref :: int
  f_readable :: bool
  f_writable :: bool
  f_pipe :: u64
  f_ip :: "nat option"
  f_off :: u32
  f_major :: u16

record pipe =
  pi_data :: "nat \<Rightarrow> u8"
  pi_nread :: u32
  pi_nwrite :: u32
  pi_readopen :: bool
  pi_writeopen :: bool

text \<open>The only device driver is the console's.\<close>

datatype driver = ConsoleDriver

record devsw =
  dev_read :: "driver option"
  dev_write :: "driver option"

record ostate = cstate +
  files :: "nat \<Rightarrow> kfile"
  pipes :: "u64 \<Rightarrow> pipe"
  devsws :: "nat \<Rightarrow> devsw"
  ticks :: u32

definition set_file :: "nat \<Rightarrow> (kfile \<Rightarrow> kfile) \<Rightarrow> 'z ostate_scheme \<Rightarrow> 'z ostate_scheme" where
  "set_file f g s = s\<lparr>files := (files s)(f := g (files s f))\<rparr>"

definition set_pipe :: "u64 \<Rightarrow> (pipe \<Rightarrow> pipe) \<Rightarrow> 'z ostate_scheme \<Rightarrow> 'z ostate_scheme" where
  "set_pipe p g s = s\<lparr>pipes := (pipes s)(p := g (pipes s p))\<rparr>"

definition PIPESIZE :: nat where "PIPESIZE = 512"

section \<open>Pipe operations\<close>

definition pipeclose :: "u64 \<Rightarrow> bool \<Rightarrow> 'z ostate_scheme \<Rightarrow> (unit, 'z ostate_scheme) res" where
  "pipeclose pi writable s =
     (let s = (if writable then wakeup (ChPipeRead pi) (set_pipe pi (pi_writeopen_update (\<lambda>_. False)) s)
               else wakeup (ChPipeWrite pi) (set_pipe pi (pi_readopen_update (\<lambda>_. False)) s))
      in if \<not> pi_readopen (pipes s pi) \<and> \<not> pi_writeopen (pipes s pi) then kfree pi s else Inr ((), s))"

definition pipe_put :: "u8 \<Rightarrow> pipe \<Rightarrow> pipe" where
  "pipe_put c p = p\<lparr>pi_data := ring_put PIPESIZE c (pi_data p) (pi_nwrite p), pi_nwrite := pi_nwrite p + 1\<rparr>"

definition pipe_get :: "pipe \<Rightarrow> u8 \<times> pipe" where
  "pipe_get p = (ring_get PIPESIZE (pi_data p) (pi_nread p), p\<lparr>pi_nread := pi_nread p + 1\<rparr>)"

text \<open>
  One iteration of \<^verbatim>\<open>pipewrite\<close>. A full pipe wakes the readers and puts the writer to sleep; it
  resumes with the same \<^verbatim>\<open>i\<close>.
\<close>

definition pipewrite_step ::
  "u64 \<Rightarrow> u64 \<Rightarrow> int \<Rightarrow> int \<Rightarrow> 'z ostate_scheme \<Rightarrow> ((int, (int, int) act) ctl, 'z ostate_scheme) res" where
  "pipewrite_step pi addr n i s =
     (if \<not> i < n then Inr (Ret (Fin i), wakeup (ChPipeRead pi) s)
      else if \<not> pi_readopen (pipes s pi) \<or> p_killed (myproc s) then Inr (Ret (Fin (- 1)), s)
      else if pi_nwrite (pipes s pi) = pi_nread (pipes s pi) + of_nat PIPESIZE then
        Inr (Ret (Asleep (ChPipeWrite pi) i), wakeup (ChPipeRead pi) s)
      else andthen (copyin (p_pagetable (myproc s)) (\<lambda>_. 0) 0 (addr + word_of_int i) 1 s) (\<lambda>(r, ch) s.
        if r = - 1 then Inr (Ret (Fin i), wakeup (ChPipeRead pi) s)
        else Inr (Next (i + 1), set_pipe pi (pipe_put (ch 0)) s)))"

definition pipewrite_from ::
  "u64 \<Rightarrow> u64 \<Rightarrow> int \<Rightarrow> int \<Rightarrow> 'z ostate_scheme \<Rightarrow> ((int, int) act, 'z ostate_scheme) res" where
  "pipewrite_from pi addr n i s = loop (nat (n - i) + 1) (pipewrite_step pi addr n) i s"

definition pipewrite :: "u64 \<Rightarrow> u64 \<Rightarrow> int \<Rightarrow> 'z ostate_scheme \<Rightarrow> (int, 'z ostate_scheme) res" where
  "pipewrite pi addr n s = await ''pipewrite'' (pipewrite_from pi addr n 0 s)"

text \<open>The copying loop of \<^verbatim>\<open>piperead\<close>.\<close>

definition piperead_step ::
  "u64 \<Rightarrow> u64 \<Rightarrow> int \<Rightarrow> int \<Rightarrow> 'z ostate_scheme \<Rightarrow> ((int, int) ctl, 'z ostate_scheme) res" where
  "piperead_step pi addr n i s =
     (if \<not> i < n then Inr (Ret i, s)
      else if pi_nread (pipes s pi) = pi_nwrite (pipes s pi) then Inr (Ret i, s)
      else case pipe_get (pipes s pi) of (ch, p) \<Rightarrow>
        andthen (copyout (p_pagetable (myproc s)) (addr + word_of_int i) (\<lambda>_. ch) 0 1 (set_pipe pi (\<lambda>_. p) s)) (\<lambda>r s.
        if r = - 1 then Inr (Ret i, s) else Inr (Next (i + 1), s)))"

text \<open>\<^verbatim>\<open>piperead\<close>; it sleeps only before it has read anything.\<close>

definition piperead_from :: "u64 \<Rightarrow> u64 \<Rightarrow> int \<Rightarrow> 'z ostate_scheme \<Rightarrow> ((unit, int) act, 'z ostate_scheme) res" where
  "piperead_from pi addr n s =
     (if pi_nread (pipes s pi) = pi_nwrite (pipes s pi) \<and> pi_writeopen (pipes s pi) then
        (if p_killed (myproc s) then Inr (Fin (- 1), s) else Inr (Asleep (ChPipeRead pi) (), s))
      else andthen (loop (nat n + 1) (piperead_step pi addr n) 0 s) (\<lambda>i s.
        Inr (Fin i, wakeup (ChPipeWrite pi) s)))"

definition piperead :: "u64 \<Rightarrow> u64 \<Rightarrow> int \<Rightarrow> 'z ostate_scheme \<Rightarrow> (int, 'z ostate_scheme) res" where
  "piperead pi addr n s = await ''piperead'' (piperead_from pi addr n s)"

section \<open>A pipe is a queue\<close>

definition pipe_items :: "pipe \<Rightarrow> u8 list" where
  "pipe_items p = ring_items PIPESIZE (pi_data p) (pi_nread p) (pi_nwrite p)"

definition pipe_room :: "pipe \<Rightarrow> nat" where
  "pipe_room p = PIPESIZE - unat (pi_nwrite p - pi_nread p)"

definition pipe_ok :: "pipe \<Rightarrow> bool" where
  "pipe_ok p \<longleftrightarrow> unat (pi_nwrite p - pi_nread p) \<le> PIPESIZE"

interpretation pq: fifo pipe_put pipe_get pipe_items pipe_room pipe_ok
proof (unfold_locales, goal_cases)
  case (1 p c)
  then have "unat (pi_nwrite p - pi_nread p) < PIPESIZE" by (simp add: pipe_room_def)
  then show ?case
    using unat_diff_Suc [of "pi_nwrite p" "pi_nread p"]
    by (simp add: pipe_items_def pipe_put_def pipe_ok_def ring_items_put PIPESIZE_def)
next
  case (2 p c)
  then have "unat (pi_nwrite p - pi_nread p) < PIPESIZE" by (simp add: pipe_room_def)
  then show ?case
    using unat_diff_Suc [of "pi_nwrite p" "pi_nread p"]
    by (simp add: pipe_room_def pipe_put_def PIPESIZE_def)
next
  case (3 p c cs)
  then have "pi_nread p \<noteq> pi_nwrite p" by (metis pipe_items_def ring_items_empty list.distinct(1))
  with 3 show ?case
    using unat_Suc_diff [of "pi_nwrite p" "pi_nread p"] ring_items_get [of "pi_nread p" "pi_nwrite p" _ "pi_data p"]
    by (simp add: pipe_items_def pipe_get_def pipe_ok_def)
qed

definition zero_pipe :: pipe where
  "zero_pipe = \<lparr>pi_data = (\<lambda>_. 0), pi_nread = 0, pi_nwrite = 0, pi_readopen = True, pi_writeopen = True\<rparr>"

definition zero_file :: kfile where
  "zero_file = \<lparr>f_type = FD_NONE, f_ref = 0, f_readable = False, f_writable = False, f_pipe = 0,
     f_ip = None, f_off = 0, f_major = 0\<rparr>"

definition zero_o :: ostate where
  "zero_o = \<lparr>pmem = (\<lambda>_. 0), kend = 0x80022000, freelist = 0, procs = (\<lambda>_. zero_proc), curproc = 0,
     initproc = 0, nextpid = 1, bufs = (\<lambda>_. zero_buf), disk = (\<lambda>_ _. 0), dtrace = [],
     log_start = 2, log_size = 31, log_outstanding = 0, log_committing = False, log_dev = ROOTDEV,
     lh_n = 0, lh_block = (\<lambda>_. 0), sb = zero_sb, itable = (\<lambda>_. zero_inode),
     uart_in = [], uart_idle = [], uart_writes = [], uart_tx_buf = (\<lambda>_. 0), uart_tx_w = 0, uart_tx_r = 0,
     cons_buf = (\<lambda>_. 0), cons_r = 0, cons_w = 0, cons_e = 0,
     files = (\<lambda>_. zero_file), pipes = (\<lambda>_. zero_pipe), devsws = (\<lambda>_. \<lparr>dev_read = None, dev_write = None\<rparr>), ticks = 0\<rparr>"

text \<open>A pipe delivers the bytes written to it in order: what it holds first, then what is
  written, when that fits, also when the 32-bit counters wrap around.\<close>

theorem pipe_fifo:
  assumes "pipe_ok p" and "length cs \<le> pipe_room p"
  shows "\<exists>p'. get_many pipe_get (length (pipe_items p) + length cs) (fold pipe_put cs p) = (pipe_items p @ cs, p')
    \<and> pipe_items p' = []"
  by (rule pq.fifo_order [OF assms])

lemma pipe_fifo_witness:
  "\<exists>p'. get_many pipe_get 3 (fold pipe_put [2, 3] (zero_pipe\<lparr>pi_data := (\<lambda>_. 1), pi_nread := - 1\<rparr>)) = ([1, 2, 3], p')"
proof -
  let ?p = "zero_pipe\<lparr>pi_data := (\<lambda>_. 1), pi_nread := - 1\<rparr>"
  have "pipe_ok ?p" "length [2, 3] \<le> pipe_room ?p" "pipe_items ?p = [1]"
    by (simp_all add: pipe_ok_def pipe_room_def pipe_items_def ring_items_def zero_pipe_def PIPESIZE_def)
  with pipe_fifo [of ?p "[2, 3]"] show ?thesis by (auto simp: numeral_eq_Suc)
qed

section \<open>Transfers\<close>

text \<open>The byte at a user virtual address, and one byte copied from it.\<close>

definition user_mapped :: "u64 \<Rightarrow> u64 \<Rightarrow> 'z kstate_scheme \<Rightarrow> bool" where
  "user_mapped pt va s \<longleftrightarrow> walkaddr pt (PGROUNDDOWN va) s \<noteq> 0"

definition user_byte :: "u64 \<Rightarrow> u64 \<Rightarrow> 'z kstate_scheme \<Rightarrow> u8" where
  "user_byte pt va s = pmem s (unat (walkaddr pt (PGROUNDDOWN va) s + (va - PGROUNDDOWN va)))"

lemma page_rest_ge_1: "(1 :: u64) \<le> PGSIZE - (va - PGROUNDDOWN va)"
proof -
  note o = page_offset [of va]
  then have "unat (va - PGROUNDDOWN va) < unat PGSIZE" by (simp only: word_less_nat_alt)
  then have "unat (PGSIZE - (va - PGROUNDDOWN va)) = unat PGSIZE - unat (va - PGROUNDDOWN va)"
    by (simp add: unat_sub word_le_nat_alt)
  then show ?thesis using \<open>unat (va - PGROUNDDOWN va) < unat PGSIZE\<close> by (simp add: word_le_nat_alt)
qed

lemma copyin_1:
  "copyin pt dst d va 1 s = Inr (if user_mapped pt va s then (0, dst(d := user_byte pt va s)) else (- 1, dst), s)"
proof -
  have n: "(if PGSIZE - (va - PGROUNDDOWN va) > 1 then 1 else PGSIZE - (va - PGROUNDDOWN va)) = (1 :: u64)"
    using page_rest_ge_1 [of va] by auto
  have b: "blit dst d m so (Suc 0) = dst(d := m so)" for m :: bytes and so
    by (rule ext) (simp add: blit_def)
  have u: "unat (1 :: u64) + 1 = Suc (Suc 0)" by simp
  show ?thesis
    unfolding copyin_def u
    by (simp add: copyin_step_def Let_def n user_mapped_def user_byte_def b)
qed

lemma copyout_1:
  "copyout pt va src so 1 s = Inr (if user_mapped pt va s
     then (0, s\<lparr>pmem := (pmem s)(unat (walkaddr pt (PGROUNDDOWN va) s + (va - PGROUNDDOWN va)) := src so)\<rparr>)
     else (- 1, s))"
proof -
  have n: "(if PGSIZE - (va - PGROUNDDOWN va) > 1 then 1 else PGSIZE - (va - PGROUNDDOWN va)) = (1 :: u64)"
    using page_rest_ge_1 [of va] by auto
  have b: "blit m d src so (Suc 0) = m(d := src so)" for m :: bytes and d
    by (rule ext) (simp add: blit_def)
  have u: "unat (1 :: u64) + 1 = Suc (Suc 0)" by simp
  show ?thesis
    unfolding copyout_def u
    by (simp add: copyout_step_def Let_def n user_mapped_def b)
qed

text \<open>Translation reads physical memory only.\<close>

lemma walk_loop_pmem: "pmem t = pmem s \<Longrightarrow> fst (walk_loop l pt va False t) = fst (walk_loop l pt va False s)"
  by (induction l arbitrary: pt) (simp_all add: Let_def load_pte_def)

lemma walkaddr_pmem: "pmem t = pmem s \<Longrightarrow> walkaddr pt va t = walkaddr pt va s"
  by (simp add: walkaddr_def walk_loop_pmem [of t s] Let_def load_pte_def)

lemma user_byte_pmem:
  "pmem t = pmem s \<Longrightarrow> user_byte pt va t = user_byte pt va s"
  "pmem t = pmem s \<Longrightarrow> user_mapped pt va t = user_mapped pt va s"
  by (simp_all add: user_byte_def user_mapped_def walkaddr_pmem [of t s])

lemma set_pipe_sel [simp]:
  "pipes (set_pipe p g s) p = g (pipes s p)" "pmem (set_pipe p g s) = pmem s"
  "procs (set_pipe p g s) = procs s" "myproc (set_pipe p g s) = myproc s" "curproc (set_pipe p g s) = curproc s"
  by (simp_all add: set_pipe_def myproc_def)

lemma pipes_wakeup [simp]: "pipes (wakeup ch s) = pipes s"
  by (simp add: wakeup_def)

lemma pipe_put_sel [simp]:
  "pi_readopen (pipe_put c p) = pi_readopen p" "pi_writeopen (pipe_put c p) = pi_writeopen p"
  by (simp_all add: pipe_put_def)

lemma pipe_items_length: "length (pipe_items p) = unat (pi_nwrite p - pi_nread p)"
  by (simp add: pipe_items_def)

lemma pipe_full_iff:
  assumes "pipe_ok p"
  shows "pi_nwrite p = pi_nread p + of_nat PIPESIZE \<longleftrightarrow> pipe_room p = 0"
proof -
  have "pi_nwrite p = pi_nread p + of_nat PIPESIZE \<longleftrightarrow> pi_nwrite p - pi_nread p = of_nat PIPESIZE"
    by (simp add: algebra_simps)
  also have "\<dots> \<longleftrightarrow> unat (pi_nwrite p - pi_nread p) = PIPESIZE"
    by (simp add: word_unat_eq_iff PIPESIZE_def)
  finally show ?thesis using assms by (auto simp: pipe_room_def pipe_ok_def)
qed

lemma set_pipe_set_pipe [simp]: "set_pipe p g (set_pipe p h s) = set_pipe p (\<lambda>q. g (h q)) s"
  by (simp add: set_pipe_def)

lemma set_pipe_same: "pipes s p = q \<Longrightarrow> set_pipe p (\<lambda>_. q) s = s"
  by (auto simp: set_pipe_def)

text \<open>A pipe with other contents: the two ends are open or closed as before.\<close>

definition same_ends :: "pipe \<Rightarrow> pipe \<Rightarrow> bool" where
  "same_ends p q \<longleftrightarrow> pi_readopen q = pi_readopen p \<and> pi_writeopen q = pi_writeopen p"

lemma same_ends_simps [simp]:
  "same_ends p p" "same_ends p (pipe_put c q) = same_ends p q" "same_ends p (q\<lparr>pi_nread := r\<rparr>) = same_ends p q"
  by (simp_all add: same_ends_def)

text \<open>C19: A run of \<^verbatim>\<open>pipewrite\<close> with bytes left to write, from where it stands until it returns or sleeps. When
  the reading end is closed or the process is killed it returns -1 and changes nothing. Otherwise it appends the
  user's next bytes to the pipe, in order, and no others, changes nothing else and wakes the readers; it returns
  the number of bytes written in all, which is \<open>n\<close> unless the next address is unmapped, or goes to sleep on the full
  pipe.\<close>

theorem pipewrite_spec:
  assumes ok: "pipe_ok (pipes s pi)" and i: "0 \<le> i" "i \<le> n"
  shows "runs (pipewrite_from pi addr n i s) (\<lambda>a s'.
    if i < n \<and> (\<not> pi_readopen (pipes s pi) \<or> p_killed (myproc s)) then a = Fin (- 1) \<and> s' = s
    else \<exists>k q. i \<le> k \<and> k \<le> n \<and> s' = wakeup (ChPipeRead pi) (set_pipe pi (\<lambda>_. q) s) \<and> pipe_ok q \<and> same_ends (pipes s pi) q
      \<and> pipe_items q = pipe_items (pipes s pi)
          @ map (\<lambda>j. user_byte (p_pagetable (myproc s)) (addr + word_of_int j) s) [i..k - 1]
      \<and> (\<forall>j. i \<le> j \<longrightarrow> j < k \<longrightarrow> user_mapped (p_pagetable (myproc s)) (addr + word_of_int j) s)
      \<and> (case a of
           Fin r \<Rightarrow> r = k \<and> (k = n \<or> \<not> user_mapped (p_pagetable (myproc s)) (addr + word_of_int k) s)
         | Asleep ch j \<Rightarrow> ch = ChPipeWrite pi \<and> j = k \<and> k < n \<and> pipe_room q = 0))"
  unfolding pipewrite_from_def
proof (rule loop_runs [where f = "\<lambda>k. nat (n - k)" and I = "\<lambda>k t. i \<le> k \<and> k \<le> n \<and> pipe_ok (pipes t pi)
      \<and> pipe_items (pipes t pi) = pipe_items (pipes s pi)
        @ map (\<lambda>j. user_byte (p_pagetable (myproc s)) (addr + word_of_int j) s) [i..k - 1]
      \<and> (\<forall>j. i \<le> j \<longrightarrow> j < k \<longrightarrow> user_mapped (p_pagetable (myproc s)) (addr + word_of_int j) s)
      \<and> t = set_pipe pi (\<lambda>_. pipes t pi) s \<and> same_ends (pipes s pi) (pipes t pi)
      \<and> (k \<noteq> i \<longrightarrow> pi_readopen (pipes s pi) \<and> \<not> p_killed (myproc s)) \<and> (k = i \<longrightarrow> t = s)"], goal_cases)
  case 1
  then show ?case using assms by (simp add: set_pipe_same)
next
  case 2
  then show ?case by simp
next
  case (3 k t)
  then have k: "i \<le> k" "k \<le> n" and okt: "pipe_ok (pipes t pi)"
    and items: "pipe_items (pipes t pi) = pipe_items (pipes s pi)
        @ map (\<lambda>j. user_byte (p_pagetable (myproc s)) (addr + word_of_int j) s) [i..k - 1]"
    and mp: "\<And>j. i \<le> j \<Longrightarrow> j < k \<Longrightarrow> user_mapped (p_pagetable (myproc s)) (addr + word_of_int j) s"
    and t: "t = set_pipe pi (\<lambda>_. pipes t pi) s" and en: "same_ends (pipes s pi) (pipes t pi)"
    and go: "k \<noteq> i \<Longrightarrow> pi_readopen (pipes s pi) \<and> \<not> p_killed (myproc s)" "k = i \<Longrightarrow> t = s" by auto
  have fr: "pmem t = pmem s" "myproc t = myproc s" by (subst t, simp)+
  have ro: "pi_readopen (pipes t pi) = pi_readopen (pipes s pi)" using en by (simp add: same_ends_def)
  note ub = user_byte_pmem [OF fr(1)]
  let ?pt = "p_pagetable (myproc s)"
  let ?bad = "\<not> pi_readopen (pipes s pi) \<or> p_killed (myproc s)"
  let ?w = "wakeup (ChPipeRead pi) t"
  have w: "?w = wakeup (ChPipeRead pi) (set_pipe pi (\<lambda>_. pipes t pi) s)" by (subst t) simp
  consider (fin) "\<not> k < n" | (bad) "k < n" "?bad" | (full) "k < n" "\<not> ?bad" "pipe_room (pipes t pi) = 0"
    | (put) "k < n" "\<not> ?bad" "0 < pipe_room (pipes t pi)" by auto
  then show ?case
  proof cases
    case fin
    have nb: "\<not> (i < n \<and> ?bad)"
    proof
      assume b: "i < n \<and> ?bad"
      then have "k \<noteq> i" using fin by auto
      then show False using go(1) b by blast
    qed
    have "pipewrite_step pi addr n k t = Inr (Ret (Fin k), ?w)" using fin by (simp add: pipewrite_step_def)
    then show ?thesis unfolding if_not_P [OF nb]
      using fin k okt items mp w en by (auto intro!: exI [of _ k] exI [of _ "pipes t pi"])
  next
    case bad
    have ki: "k = i" using go(1) bad(2) by blast
    have b: "i < n \<and> ?bad" using bad ki by simp
    show ?thesis unfolding if_P [OF b] using bad ki go(2) by (auto simp: pipewrite_step_def)
  next
    case full
    have nb: "\<not> (i < n \<and> ?bad)" using full(2) by blast
    have "pipewrite_step pi addr n k t = Inr (Ret (Asleep (ChPipeWrite pi) k), ?w)"
      using full pipe_full_iff [OF okt] ro fr by (simp add: pipewrite_step_def)
    then show ?thesis unfolding if_not_P [OF nb]
      using full k okt items mp w en by (auto intro!: exI [of _ k] exI [of _ "pipes t pi"])
  next
    case put
    have nb: "\<not> (i < n \<and> ?bad)" using put(2) by blast
    have nf: "pi_nwrite (pipes t pi) \<noteq> pi_nread (pipes t pi) + of_nat PIPESIZE"
      using put pipe_full_iff [OF okt] by simp
    show ?thesis
    proof (cases "user_mapped ?pt (addr + word_of_int k) s")
      case False
      then have "pipewrite_step pi addr n k t = Inr (Ret (Fin k), ?w)"
        using put nf ro fr by (simp add: pipewrite_step_def copyin_1 ub)
      then show ?thesis unfolding if_not_P [OF nb]
        using False k okt items mp w en by (auto intro!: exI [of _ k] exI [of _ "pipes t pi"])
    next
      case True
      let ?c = "user_byte ?pt (addr + word_of_int k) s"
      let ?t = "set_pipe pi (pipe_put ?c) t"
      have st: "pipewrite_step pi addr n k t = Inr (Next (k + 1), ?t)"
        using True put nf ro fr by (simp add: pipewrite_step_def copyin_1 ub)
      have "[i..k + 1 - 1] = [i..k - 1] @ [k]" using k by (simp add: upto_rec2)
      moreover have "?t = set_pipe pi (\<lambda>_. pipes ?t pi) s" by (subst t) simp
      moreover have "user_mapped ?pt (addr + word_of_int j) s" if "i \<le> j" "j < k + 1" for j
        using mp [OF that(1)] True that(2) by (cases "j = k") auto
      ultimately show ?thesis
        using put k okt items en pq.put_items [OF okt put(3)] by (simp add: st)
    qed
  qed
qed

definition demo_pipe :: ostate where
  "demo_pipe = zero_o\<lparr>pmem := pmem demo_str, procs := (\<lambda>_. zero_proc\<lparr>p_pagetable := 0x80023000\<rparr>)\<rparr>"

lemma demo_pipe_user: "user_mapped 0x80023000 0x10 demo_pipe" "user_byte 0x80023000 0x10 demo_pipe = 65"
proof -
  have "walkaddr 0x80023000 0 demo_pipe = 0x80026000"
    using walkaddr_pmem [of demo_pipe demo_str] demo_str_walkaddr by (simp add: demo_pipe_def)
  then show "user_mapped 0x80023000 0x10 demo_pipe" "user_byte 0x80023000 0x10 demo_pipe = 65"
    by (simp_all add: user_mapped_def user_byte_def PGROUNDDOWN_def PGSIZE_def)
      (simp add: demo_pipe_def demo_str_entries)
qed

lemma pipewrite_spec_witness:
  "\<exists>s'. pipewrite_from 0x80030000 0x10 1 0 demo_pipe = Inr (Fin 1, s') \<and> pipe_items (pipes s' 0x80030000) = [65]"
proof -
  let ?pi = "0x80030000" and ?s = "demo_pipe"
  have p: "pipes ?s ?pi = zero_pipe" "myproc ?s = zero_proc\<lparr>p_pagetable := 0x80023000\<rparr>"
    by (simp_all add: demo_pipe_def zero_o_def myproc_def)
  have ok: "pipe_ok (pipes ?s ?pi)" "pipe_items (pipes ?s ?pi) = []" "pi_readopen (pipes ?s ?pi)"
    unfolding p by (simp_all add: zero_pipe_def pipe_ok_def pipe_items_def ring_items_def PIPESIZE_def)
  have m: "user_mapped (p_pagetable (myproc ?s)) 0x10 ?s" "\<not> p_killed (myproc ?s)"
    using demo_pipe_user(1) by (simp_all add: p zero_proc_def)
  have nb: "\<not> ((0 :: int) < 1 \<and> (\<not> pi_readopen (pipes ?s ?pi) \<or> p_killed (myproc ?s)))" using ok(3) m(2) by simp
  note sp = pipewrite_spec [OF ok(1) order_refl zero_le_one, of "0x10", unfolded if_not_P [OF nb]]
  obtain a s' k q where r: "pipewrite_from ?pi 0x10 1 0 ?s = Inr (a, s')" and k: "0 \<le> k" "k \<le> 1"
    and s': "s' = wakeup (ChPipeRead ?pi) (set_pipe ?pi (\<lambda>_. q) ?s)"
    and items: "pipe_items q = pipe_items (pipes ?s ?pi)
        @ map (\<lambda>j. user_byte (p_pagetable (myproc ?s)) (0x10 + word_of_int j) ?s) [0..k - 1]"
    and c: "case a of
         Fin r \<Rightarrow> r = k \<and> (k = 1 \<or> \<not> user_mapped (p_pagetable (myproc ?s)) (0x10 + word_of_int k) ?s)
       | Asleep ch j \<Rightarrow> ch = ChPipeWrite ?pi \<and> j = k \<and> k < 1 \<and> pipe_room q = 0"
    using sp by (elim runsE exE conjE) (rule that)
  have "k = 1"
  proof (rule ccontr)
    assume "k \<noteq> 1"
    then have "k = 0" using k by simp
    then have "pipe_items q = []" using items ok by simp
    then have "pipe_room q = PIPESIZE" using pipe_items_length [of q] by (simp add: pipe_room_def)
    then show False using c \<open>k = 0\<close> m by (auto split: act.splits simp: PIPESIZE_def)
  qed
  moreover have "a = Fin 1" using c \<open>k = 1\<close> by (auto split: act.splits)
  ultimately show ?thesis using r items ok(2) demo_pipe_user(2) by (simp add: p s')
qed

text \<open>The bytes of a list put one after the other at a user address, each where the page table points then.\<close>

primrec put_user :: "u64 \<Rightarrow> u64 \<Rightarrow> u8 list \<Rightarrow> 'z kstate_scheme \<Rightarrow> 'z kstate_scheme" where
  "put_user pt va [] s = s"
| "put_user pt va (b # bs) s =
     put_user pt (va + 1) bs (s\<lparr>pmem := (pmem s)(unat (walkaddr pt (PGROUNDDOWN va) s + (va - PGROUNDDOWN va)) := b)\<rparr>)"

lemma put_user_snoc:
  "put_user pt va (bs @ [b]) s = (let t = put_user pt va bs s; va' = va + of_nat (length bs) in
     t\<lparr>pmem := (pmem t)(unat (walkaddr pt (PGROUNDDOWN va') t + (va' - PGROUNDDOWN va')) := b)\<rparr>)"
  by (induction bs arbitrary: va s) (simp_all add: Let_def algebra_simps)

text \<open>It changes memory only, and which memory depends on memory only.\<close>

lemma put_user_eq: "put_user pt va bs s = s\<lparr>pmem := pmem (put_user pt va bs s)\<rparr>"
  by (induction bs arbitrary: va s) (simp, metis kstate.surjective kstate.update_convs(1) put_user.simps(2))

lemma put_user_sel [simp]:
  "pipes (put_user pt va bs s) = pipes s" "procs (put_user pt va bs s) = procs s" "curproc (put_user pt va bs s) = curproc s"
  by (subst put_user_eq, simp)+

lemma put_user_set_pipe: "put_user pt va bs (set_pipe p g s) = set_pipe p g (put_user pt va bs s)"
proof (induction bs arbitrary: va s)
  case (Cons b bs)
  have "walkaddr pt (PGROUNDDOWN va) (set_pipe p g s) = walkaddr pt (PGROUNDDOWN va) s" by (rule walkaddr_pmem) simp
  moreover have "(set_pipe p g s)\<lparr>pmem := m\<rparr> = set_pipe p g (s\<lparr>pmem := m\<rparr>)" for m by (simp add: set_pipe_def)
  ultimately show ?case using Cons.IH by simp
qed simp

text \<open>C20: \<^verbatim>\<open>piperead\<close> on an empty pipe whose writing end is open returns -1 if the process is killed and sleeps
  otherwise, and changes nothing. Else it takes the oldest bytes of the pipe, as many as there are up to \<open>n\<close>, puts these
  very bytes in order at the user's buffer, wakes the writers, changes nothing else and returns their number. Only when
  the copy of a byte fails, because its address is not mapped, it stops early; that byte is gone from the pipe.\<close>

theorem piperead_spec:
  fixes s :: "'z ostate_scheme"
  assumes ok: "pipe_ok (pipes s pi)" and n: "0 \<le> n"
  defines "xs \<equiv> pipe_items (pipes s pi)" and "pt \<equiv> p_pagetable (myproc s)"
  shows "runs (piperead_from pi addr n s) (\<lambda>a s'.
    if xs = [] \<and> pi_writeopen (pipes s pi) then s' = s \<and> a = (if p_killed (myproc s) then Fin (- 1) else Asleep (ChPipeRead pi) ())
    else \<exists>r q. a = Fin (int r) \<and> r \<le> min (nat n) (length xs) \<and> pipe_ok q \<and> same_ends (pipes s pi) q
      \<and> s' = wakeup (ChPipeWrite pi) (set_pipe pi (\<lambda>_. q) (put_user pt addr (take r xs) s))
      \<and> (\<forall>j<r. user_mapped pt (addr + of_nat j) (put_user pt addr (take j xs) s))
      \<and> (if r = min (nat n) (length xs) then pipe_items q = drop r xs
         else \<not> user_mapped pt (addr + of_nat r) (put_user pt addr (take r xs) s) \<and> pipe_items q = drop (r + 1) xs))"
proof -
  have empty: "pi_nread p = pi_nwrite p \<longleftrightarrow> pipe_items p = []" for p
    unfolding pipe_items_def ring_items_empty by auto
  let ?m = "min (nat n) (length xs)"
  let ?T = "\<lambda>j. put_user pt addr (take j xs) s"
  let ?mp = "\<lambda>j. user_mapped pt (addr + of_nat j) (?T j)"
  let ?Q = "\<lambda>r q. r \<le> ?m \<and> pipe_ok q \<and> same_ends (pipes s pi) q \<and> (\<forall>j<r. ?mp j)
    \<and> (if r = ?m then pipe_items q = drop r xs else \<not> ?mp r \<and> pipe_items q = drop (r + 1) xs)"
  have l: "runs (loop (nat n + 1) (piperead_step pi addr n) 0 s)
    (\<lambda>i t. \<exists>r q. i = int r \<and> t = set_pipe pi (\<lambda>_. q) (?T r) \<and> ?Q r q)"
  proof (rule loop_runs [where f = "\<lambda>k. nat (n - k)" and I = "\<lambda>k t. \<exists>r q. k = int r \<and> t = set_pipe pi (\<lambda>_. q) (?T r) \<and> r \<le> ?m
      \<and> pipe_ok q \<and> same_ends (pipes s pi) q \<and> (\<forall>j<r. ?mp j) \<and> pipe_items q = drop r xs"], goal_cases)
    case 1
    show ?case using assms by (intro exI [of _ 0] exI [of _ "pipes s pi"]) (simp add: set_pipe_same)
  next
    case 2
    then show ?case by simp
  next
    case (3 k t)
    then obtain r q where k: "k = int r" and t: "t = set_pipe pi (\<lambda>_. q) (?T r)" and r: "r \<le> ?m"
      and q: "pipe_ok q" "same_ends (pipes s pi) q" "pipe_items q = drop r xs" and mp: "\<forall>j<r. ?mp j" by blast
    have tp: "pipes t pi = q" "p_pagetable (myproc t) = pt" by (simp_all add: t pt_def myproc_def)
    show ?case
    proof (cases "r = ?m")
      case True
      then have "\<not> k < n \<or> pi_nread q = pi_nwrite q" using q(3) by (auto simp: empty k min_def split: if_splits)
      then have "piperead_step pi addr n k t = Inr (Ret k, t)" by (auto simp: piperead_step_def tp)
      then show ?thesis using True k t q mp r by auto
    next
      case False
      then have lt: "k < n" "r < length xs" using r k by auto
      then have c: "pipe_items q = xs ! r # drop (r + 1) xs" using q(3) by (simp add: Cons_nth_drop_Suc)
      obtain q' where q': "pipe_get q = (xs ! r, q')" "pipe_items q' = drop (r + 1) xs" "pipe_ok q'"
        using pq.get_items [OF q(1) c] by auto
      have en: "same_ends (pipes s pi) q'" using q(2) q'(1) by (auto simp: pipe_get_def)
      have ne: "pi_nread q \<noteq> pi_nwrite q" using c by (simp add: empty)
      let ?u = "set_pipe pi (\<lambda>_. q') (?T r)"
      have um: "user_mapped pt va ?u = user_mapped pt va (?T r)" for va by (rule user_byte_pmem(2)) simp
      have st: "piperead_step pi addr n (int r) t = andthen (copyout pt (addr + of_nat r) (\<lambda>_. xs ! r) 0 1 ?u)
          (\<lambda>x s. if x = - 1 then Inr (Ret (int r), s) else Inr (Next (int r + 1), s))"
        using lt ne by (simp add: piperead_step_def tp q'(1) k) (simp add: t)
      show ?thesis
      proof (cases "?mp r")
        case False
        then have "piperead_step pi addr n k t = Inr (Ret k, ?u)" by (simp add: st copyout_1 um k)
        then show ?thesis using False k r q' en mp \<open>r \<noteq> ?m\<close> by auto
      next
        case True
        have "walkaddr pt (PGROUNDDOWN (addr + of_nat r)) ?u = walkaddr pt (PGROUNDDOWN (addr + of_nat r)) (?T r)"
          by (rule walkaddr_pmem) simp
        then have "?u\<lparr>pmem := (pmem ?u)(unat (walkaddr pt (PGROUNDDOWN (addr + of_nat r)) ?u
            + (addr + of_nat r - PGROUNDDOWN (addr + of_nat r))) := xs ! r)\<rparr> = set_pipe pi (\<lambda>_. q') (?T (Suc r))"
          using lt(2) by (simp add: take_Suc_conv_app_nth put_user_snoc Let_def) (simp add: set_pipe_def)
        then have e: "piperead_step pi addr n k t = Inr (Next (k + 1), set_pipe pi (\<lambda>_. q') (?T (Suc r)))"
          using True by (simp add: st copyout_1 um k)
        have "\<forall>j<Suc r. ?mp j" using mp True less_Suc_eq by auto
        then have "\<exists>x q. k + 1 = int x \<and> set_pipe pi (\<lambda>_. q') (?T (Suc r)) = set_pipe pi (\<lambda>_. q) (?T x) \<and> x \<le> ?m
            \<and> pipe_ok q \<and> same_ends (pipes s pi) q \<and> (\<forall>j<x. ?mp j) \<and> pipe_items q = drop x xs"
          using q' en r lt(2) False by (intro exI [of _ "Suc r"] exI [of _ q']) (simp add: k)
        moreover have "nat (n - (k + 1)) < nat (n - k)" using lt(1) by simp
        ultimately show ?thesis unfolding e by (simp only: runs_Inr ctl.case)
      qed
    qed
  qed
  show ?thesis
  proof (cases "xs = [] \<and> pi_writeopen (pipes s pi)")
    case True
    then show ?thesis using empty by (simp add: piperead_from_def xs_def)
  next
    case False
    then have nb: "\<not> (pi_nread (pipes s pi) = pi_nwrite (pipes s pi) \<and> pi_writeopen (pipes s pi))" by (simp add: empty xs_def)
    show ?thesis unfolding piperead_from_def if_not_P [OF nb] if_not_P [OF False]
    proof (rule runs_andthen [OF l], elim exE conjE, goal_cases)
      case (1 i t r q)
      then show ?case unfolding runs_Inr by (intro exI [of _ r] exI [of _ q] conjI) blast+
    qed
  qed
qed

text \<open>A pipe with two bytes and the reader's buffer on a mapped page.\<close>

definition demo_pipe2 :: ostate where
  "demo_pipe2 = demo_pipe\<lparr>pipes := (\<lambda>_. zero_pipe\<lparr>pi_data := (\<lambda>i. of_nat i + 7), pi_nwrite := 2\<rparr>)\<rparr>"

lemma piperead_spec_witness:
  "\<exists>s'. piperead_from 0x80030000 0x10 1 demo_pipe2 = Inr (Fin 1, s') \<and> pmem s' 0x80026010 = 7 \<and> pipe_items (pipes s' 0x80030000) = [8]"
proof -
  let ?pi = "0x80030000 :: u64" and ?s = demo_pipe2 and ?pt = "0x80023000 :: u64"
  let ?m = "\<lambda>va. walkaddr ?pt (PGROUNDDOWN va) ?s"
  have m: "?m 0x10 = 0x80026000"
    using walkaddr_pmem [of demo_pipe2 demo_str] demo_str_walkaddr
    by (simp add: demo_pipe2_def demo_pipe_def PGROUNDDOWN_def PGSIZE_def)
  have p: "p_pagetable (myproc ?s) = ?pt" "pipes ?s ?pi = zero_pipe\<lparr>pi_data := (\<lambda>i. of_nat i + 7), pi_nwrite := 2\<rparr>"
    by (simp_all add: demo_pipe2_def demo_pipe_def myproc_def)
  have xs: "pipe_items (pipes ?s ?pi) = [7, 8]"
    by (simp add: p(2) pipe_items_def ring_items_def zero_pipe_def PIPESIZE_def upt_rec)
  have ok: "pipe_ok (pipes ?s ?pi)" by (simp add: p(2) pipe_ok_def zero_pipe_def PIPESIZE_def)
  have nb: "\<not> (pipe_items (pipes ?s ?pi) = [] \<and> pi_writeopen (pipes ?s ?pi))" by (simp add: xs)
  note sp = piperead_spec [OF ok zero_le_one, of "0x10", unfolded if_not_P [OF nb], unfolded xs p(1)]
  obtain r q s' where r: "piperead_from ?pi 0x10 1 ?s = Inr (Fin (int r), s')" "r \<le> min (nat 1) (length [7 :: u8, 8])"
    and s': "s' = wakeup (ChPipeWrite ?pi) (set_pipe ?pi (\<lambda>_. q) (put_user ?pt 0x10 (take r [7, 8]) ?s))"
    and q: "if r = min (nat 1) (length [7 :: u8, 8]) then pipe_items q = drop r [7, 8]
      else \<not> user_mapped ?pt (0x10 + of_nat r) (put_user ?pt 0x10 (take r [7, 8]) ?s) \<and> pipe_items q = drop (r + 1) [7, 8]"
    using sp by (elim runsE exE conjE) (rule that, auto)
  have "r = 1"
  proof (rule ccontr)
    assume "r \<noteq> 1"
    then have "r = 0" using r(2) by simp
    then show False using q m by (simp add: user_mapped_def)
  qed
  then show ?thesis using r(1) q by (simp add: s' m) (simp add: PGROUNDDOWN_def PGSIZE_def)
qed

end
