(* ===== verification/File.thy ===== *)
theory File
  imports Pipe
begin

text \<open>
  Open files (\<^verbatim>\<open>file.c\<close>): the file table with its reference counts, reading and writing through a file to
  a pipe, the console or an inode, and the making of pipes (\<^verbatim>\<open>pipealloc\<close>), which needs the table.
\<close>

section \<open>The file table\<close>

text \<open>\<^verbatim>\<open>f->ip\<close>, dereferenced\<close>

definition file_ip :: "nat \<Rightarrow> 'z ostate_scheme \<Rightarrow> (nat, 'z ostate_scheme) res" where
  "file_ip f s = (case f_ip (files s f) of None \<Rightarrow> Inl (Undefined ''f->ip'') | Some ip \<Rightarrow> Inr (ip, s))"

definition filealloc :: "'z ostate_scheme \<Rightarrow> nat option \<times> 'z ostate_scheme" where
  "filealloc s = (case first_index (\<lambda>f. f_ref (files s f) = 0) NFILE of
       None \<Rightarrow> (None, s)
     | Some f \<Rightarrow> (Some f, set_file f (f_ref_update (\<lambda>_. 1)) s))"

definition filedup :: "nat \<Rightarrow> 'z ostate_scheme \<Rightarrow> (nat, 'z ostate_scheme) res" where
  "filedup f s = (if f_ref (files s f) < 1 then Inl (Panic ''filedup'')
     else Inr (f, set_file f (f_ref_update (\<lambda>r. r + 1)) s))"

definition fileclose :: "nat \<Rightarrow> 'z ostate_scheme \<Rightarrow> (unit, 'z ostate_scheme) res" where
  "fileclose f s =
     (if f_ref (files s f) < 1 then Inl (Panic ''fileclose'')
      else let s = set_file f (f_ref_update (\<lambda>r. r - 1)) s in
        if f_ref (files s f) > 0 then Inr ((), s)
        else let ff = files s f;
                 s = set_file f (\<lambda>g. g\<lparr>f_ref := 0, f_type := FD_NONE\<rparr>) s in
          if f_type ff = FD_PIPE then pipeclose (f_pipe ff) (f_writable ff) s
          else if f_type ff = FD_INODE \<or> f_type ff = FD_DEVICE then
            andthen (begin_op s) (\<lambda>_ s.
            andthen (case f_ip ff of None \<Rightarrow> Inl (Undefined ''f->ip'') | Some ip \<Rightarrow> iput ip s) (\<lambda>_ s. end_op s))
          else Inr ((), s))"

text \<open>\<^verbatim>\<open>struct stat\<close> as bytes; the padding at offset 12 is 0 here.\<close>

definition stat_bytes :: "stat \<Rightarrow> bytes" where
  "stat_bytes st = st64 (st16 (st16 (st32 (st32 (\<lambda>_. 0) 0 (st_dev st)) 4 (st_ino st)) 8 (st_type st))
     10 (st_nlink st)) 16 (st_size st)"

definition filestat :: "nat \<Rightarrow> u64 \<Rightarrow> 'z ostate_scheme \<Rightarrow> (int, 'z ostate_scheme) res" where
  "filestat f addr s =
     (if f_type (files s f) = FD_INODE \<or> f_type (files s f) = FD_DEVICE then
        (andthen (file_ip f s) (\<lambda>ip s.
         andthen (ilock ip s) (\<lambda>_ s.
         let st = stati ip s in
         andthen (iunlock ip s) (\<lambda>_ s.
         andthen (copyout (p_pagetable (myproc s)) addr (stat_bytes st) 0 24 s) (\<lambda>r s.
         Inr (if r < 0 then - 1 else 0, s))))))
      else Inr (- 1, s))"

text \<open>\<^verbatim>\<open>mapfile\<close> of assignment 3: a page of the file into a physical page, for a mapping.\<close>

definition mapfile :: "nat \<Rightarrow> u64 \<Rightarrow> u32 \<Rightarrow> 'z ostate_scheme \<Rightarrow> (unit, 'z ostate_scheme) res" where
  "mapfile f mem off s =
     andthen (kprintf (''off %d'' @ [CHR 0x0A]) [PInt off] s) (\<lambda>_ s.
     andthen (file_ip f s) (\<lambda>ip s.
     andthen (ilock ip s) (\<lambda>_ s.
     andthen (readi ip (Kern mem) (\<lambda>_. 0) off (ucast PGSIZE) s) (\<lambda>_ s.
     iunlock ip s))))"

text \<open>\<^verbatim>\<open>f->major < 0 || f->major >= NDEV || !devsw[f->major].read\<close>\<close>

definition dev_of :: "(devsw \<Rightarrow> driver option) \<Rightarrow> u16 \<Rightarrow> 'z ostate_scheme \<Rightarrow> driver option" where
  "dev_of sel major s = (if sint major < 0 \<or> sint major \<ge> int NDEV then None else sel (devsws s (nat (sint major))))"

definition fileread :: "nat \<Rightarrow> u64 \<Rightarrow> int \<Rightarrow> 'z ostate_scheme \<Rightarrow> (int, 'z ostate_scheme) res" where
  "fileread f addr n s =
     (if \<not> f_readable (files s f) then Inr (- 1, s)
      else case f_type (files s f) of
          FD_PIPE \<Rightarrow> piperead (f_pipe (files s f)) addr n s
        | FD_DEVICE \<Rightarrow>
            (case dev_of dev_read (f_major (files s f)) s of
               None \<Rightarrow> Inr (- 1, s)
             | Some ConsoleDriver \<Rightarrow> andthen (consoleread (User addr) (\<lambda>_. 0) n s) (\<lambda>(r, _) s. Inr (r, s)))
        | FD_INODE \<Rightarrow>
            andthen (file_ip f s) (\<lambda>ip s.
            andthen (ilock ip s) (\<lambda>_ s.
            andthen (readi ip (User addr) (\<lambda>_. 0) (f_off (files s f)) (word_of_int n) s) (\<lambda>(r, _) s.
            let s = (if 0 <s r then set_file f (f_off_update (\<lambda>x. x + r)) s else s) in
            andthen (iunlock ip s) (\<lambda>_ s. Inr (sint r, s)))))
        | FD_NONE \<Rightarrow> Inl (Panic ''fileread''))"

text \<open>The most one transaction writes: \<^verbatim>\<open>((MAXOPBLOCKS-1-1-2) / 2) * BSIZE\<close>.\<close>

definition filewrite_max :: int where
  "filewrite_max = (int MAXOPBLOCKS - 1 - 1 - 2) div 2 * int BSIZE"

definition filewrite_step ::
  "nat \<Rightarrow> u64 \<Rightarrow> int \<Rightarrow> int \<Rightarrow> 'z ostate_scheme \<Rightarrow> ((int, int) ctl, 'z ostate_scheme) res" where
  "filewrite_step f addr n i s =
     (if \<not> i < n then Inr (Ret i, s)
      else let n1 = n - i; n1 = (if n1 > filewrite_max then filewrite_max else n1) in
        andthen (begin_op s) (\<lambda>_ s.
        andthen (file_ip f s) (\<lambda>ip s.
        andthen (ilock ip s) (\<lambda>_ s.
        andthen (writei ip (User (addr + word_of_int i)) (\<lambda>_. 0) (f_off (files s f)) (word_of_int n1) s) (\<lambda>r s.
        let s = (if 0 <s r then set_file f (f_off_update (\<lambda>x. x + r)) s else s) in
        andthen (iunlock ip s) (\<lambda>_ s.
        andthen (end_op s) (\<lambda>_ s.
        if sint r \<noteq> n1 then Inr (Ret i, s) else Inr (Next (i + sint r), s))))))))"

definition filewrite :: "nat \<Rightarrow> u64 \<Rightarrow> int \<Rightarrow> 'z ostate_scheme \<Rightarrow> (int, 'z ostate_scheme) res" where
  "filewrite f addr n s =
     (if \<not> f_writable (files s f) then Inr (- 1, s)
      else case f_type (files s f) of
          FD_PIPE \<Rightarrow> pipewrite (f_pipe (files s f)) addr n s
        | FD_DEVICE \<Rightarrow>
            (case dev_of dev_write (f_major (files s f)) s of
               None \<Rightarrow> Inr (- 1, s)
             | Some ConsoleDriver \<Rightarrow> consolewrite (User addr) (\<lambda>_. 0) n s)
        | FD_INODE \<Rightarrow>
            andthen (loop (nat n + 1) (filewrite_step f addr n) 0 s) (\<lambda>i s.
            Inr (if i = n then n else - 1, s))
        | FD_NONE \<Rightarrow> Inl (Panic ''filewrite''))"

section \<open>Making a pipe (pipe.c)\<close>

text \<open>\<^verbatim>\<open>bad:\<close> closes the files that were allocated; no page is held when it is reached.\<close>

definition pipealloc_bad ::
  "nat option \<Rightarrow> nat option \<Rightarrow> 'z ostate_scheme \<Rightarrow> ((nat \<times> nat) option, 'z ostate_scheme) res" where
  "pipealloc_bad f0 f1 s =
     andthen (case f0 of None \<Rightarrow> Inr ((), s) | Some f \<Rightarrow> fileclose f s) (\<lambda>_ s.
     andthen (case f1 of None \<Rightarrow> Inr ((), s) | Some f \<Rightarrow> fileclose f s) (\<lambda>_ s.
     Inr (None, s)))"

definition pipealloc :: "'z ostate_scheme \<Rightarrow> ((nat \<times> nat) option, 'z ostate_scheme) res" where
  "pipealloc s = (case filealloc s of
       (None, s) \<Rightarrow> pipealloc_bad None None s
     | (Some f0, s) \<Rightarrow> (case filealloc s of
         (None, s) \<Rightarrow> pipealloc_bad (Some f0) None s
       | (Some f1, s) \<Rightarrow> (case kalloc s of (pi, s) \<Rightarrow>
           if pi = 0 then pipealloc_bad (Some f0) (Some f1) s
           else let s = set_pipe pi (\<lambda>p. p\<lparr>pi_readopen := True, pi_writeopen := True, pi_nwrite := 0, pi_nread := 0\<rparr>) s;
                    s = set_file f0 (\<lambda>f. f\<lparr>f_type := FD_PIPE, f_readable := True, f_writable := False, f_pipe := pi\<rparr>) s;
                    s = set_file f1 (\<lambda>f. f\<lparr>f_type := FD_PIPE, f_readable := False, f_writable := True, f_pipe := pi\<rparr>) s
                in Inr (Some (f0, f1), s))))"

section \<open>The console device (console.c)\<close>

definition CONSOLE :: nat where "CONSOLE = 1"

definition consoleinit :: "'z ostate_scheme \<Rightarrow> 'z ostate_scheme" where
  "consoleinit s = (let s = uartinit s in
     s\<lparr>devsws := (devsws s)(CONSOLE := \<lparr>dev_read = Some ConsoleDriver, dev_write = Some ConsoleDriver\<rparr>)\<rparr>)"

end
