(* ===== verification/Proc.thy ===== *)
theory Proc
  imports File
begin

text \<open>
  Processes (\<^verbatim>\<open>proc.c\<close> of assignment 3): allocation and release of a process with its page table and
  trap frame, fork, exit and wait, sleeping, waking, killing, and the scheduler. The C code
  switches between kernel stacks; here an operation that gives up the processor ends in the
  state in which the scheduler gets it, and \<open>dispatch\<close> is the scheduler's choice. The linker's symbols
  \<^verbatim>\<open>trampoline\<close> and \<^verbatim>\<open>forkret\<close> are parameters.
\<close>

section \<open>The trap frame\<close>

text \<open>\<^verbatim>\<open>struct trapframe\<close> lies in the page \<^verbatim>\<open>p->trapframe\<close>; the offsets of its fields.\<close>

definition TF_kernel_satp :: nat where "TF_kernel_satp = 0"
definition TF_kernel_sp :: nat where "TF_kernel_sp = 8"
definition TF_kernel_trap :: nat where "TF_kernel_trap = 16"
definition TF_epc :: nat where "TF_epc = 24"
definition TF_kernel_hartid :: nat where "TF_kernel_hartid = 32"
definition TF_sp :: nat where "TF_sp = 48"
definition TF_a :: "nat \<Rightarrow> nat" where "TF_a i = 112 + 8 * i"
definition TF_size :: nat where "TF_size = 288"

definition tf_get :: "nat \<Rightarrow> nat \<Rightarrow> 'z kstate_scheme \<Rightarrow> u64" where
  "tf_get p off s = ld64 (pmem s) (unat (p_trapframe (procs s p)) + off)"

definition tf_set :: "nat \<Rightarrow> nat \<Rightarrow> u64 \<Rightarrow> 'z kstate_scheme \<Rightarrow> 'z kstate_scheme" where
  "tf_set p off v s = s\<lparr>pmem := st64 (pmem s) (unat (p_trapframe (procs s p)) + off) v\<rparr>"

section \<open>Allocation\<close>

definition procinit :: "'z kstate_scheme \<Rightarrow> 'z kstate_scheme" where
  "procinit s = s\<lparr>procs := (\<lambda>p. if p < NPROC then (procs s p)\<lparr>p_state := UNUSED, p_kstack := KSTACK p\<rparr> else procs s p)\<rparr>"

definition allocpid :: "'z kstate_scheme \<Rightarrow> u32 \<times> 'z kstate_scheme" where
  "allocpid s = (nextpid s, s\<lparr>nextpid := nextpid s + 1\<rparr>)"

definition proc_pagetable :: "u64 \<Rightarrow> nat \<Rightarrow> 'z kstate_scheme \<Rightarrow> (u64, 'z kstate_scheme) res" where
  "proc_pagetable trampoline p s = (case uvmcreate s of (pagetable, s) \<Rightarrow>
     if pagetable = 0 then Inr (0, s)
     else andthen (mappages pagetable TRAMPOLINE PGSIZE trampoline (PTE_R OR PTE_X) s) (\<lambda>r s.
       if r < 0 then andthen (uvmfree pagetable 0 s) (\<lambda>_ s. Inr (0, s))
       else andthen (mappages pagetable TRAPFRAME PGSIZE (p_trapframe (procs s p)) (PTE_R OR PTE_W) s) (\<lambda>r s.
         if r < 0 then
           andthen (uvmunmap pagetable TRAMPOLINE 1 False s) (\<lambda>_ s.
           andthen (uvmfree pagetable 0 s) (\<lambda>_ s. Inr (0, s)))
         else Inr (pagetable, s))))"

definition proc_freepagetable :: "u64 \<Rightarrow> u64 \<Rightarrow> 'z kstate_scheme \<Rightarrow> (unit, 'z kstate_scheme) res" where
  "proc_freepagetable pagetable sz s =
     andthen (uvmunmap pagetable TRAMPOLINE 1 False s) (\<lambda>_ s.
     andthen (uvmunmap pagetable TRAPFRAME 1 False s) (\<lambda>_ s.
     uvmfree pagetable sz s))"

definition freeproc :: "nat \<Rightarrow> 'z kstate_scheme \<Rightarrow> (unit, 'z kstate_scheme) res" where
  "freeproc p s =
     andthen (if p_trapframe (procs s p) \<noteq> 0 then kfree (p_trapframe (procs s p)) s else Inr ((), s)) (\<lambda>_ s.
     let s = set_proc p (p_trapframe_update (\<lambda>_. 0)) s in
     andthen (if p_pagetable (procs s p) \<noteq> 0
       then proc_freepagetable (p_pagetable (procs s p)) (p_sz (procs s p)) s else Inr ((), s)) (\<lambda>_ s.
     Inr ((), set_proc p (\<lambda>q. q\<lparr>p_pagetable := 0, p_sz := 0, p_pid := 0, p_parent := None,
       p_name := (p_name q)[0 := 0], p_chan := None, p_killed := False, p_xstate := 0, p_state := UNUSED\<rparr>) s)))"

definition allocproc :: "u64 \<Rightarrow> u64 \<Rightarrow> 'z kstate_scheme \<Rightarrow> (nat option, 'z kstate_scheme) res" where
  "allocproc trampoline forkret s =
     (case first_index (\<lambda>p. p_state (procs s p) = UNUSED) NPROC of
        None \<Rightarrow> Inr (None, s)
      | Some p \<Rightarrow> (case allocpid s of (pid, s) \<Rightarrow>
          let s = set_proc p (\<lambda>q. q\<lparr>p_pid := pid, p_state := USED\<rparr>) s in
          (case kalloc s of (tf, s) \<Rightarrow>
             let s = set_proc p (p_trapframe_update (\<lambda>_. tf)) s in
             if tf = 0 then andthen (freeproc p s) (\<lambda>_ s. Inr (None, s))
             else andthen (proc_pagetable trampoline p s) (\<lambda>pt s.
               let s = set_proc p (p_pagetable_update (\<lambda>_. pt)) s in
               if pt = 0 then andthen (freeproc p s) (\<lambda>_ s. Inr (None, s))
               else Inr (Some p, set_proc p (\<lambda>q. q\<lparr>p_context :=
                 zero_context\<lparr>ctx_ra := forkret, ctx_sp := p_kstack q + PGSIZE\<rparr>\<rparr>) s)))))"

text \<open>\<^verbatim>\<open>safestrcpy(p->name, s, sizeof(p->name))\<close>\<close>

definition set_name :: "bytes \<Rightarrow> nat \<Rightarrow> proc \<Rightarrow> proc" where
  "set_name m a q = q\<lparr>p_name := map (safestrcpy (list_bytes (p_name q)) 0 m a 16) [0..<16]\<rparr>"

definition initcode :: "u8 list" where
  "initcode = [
    0x17, 0x05, 0x00, 0x00, 0x13, 0x05, 0x45, 0x02,
    0x97, 0x05, 0x00, 0x00, 0x93, 0x85, 0x35, 0x02,
    0x93, 0x08, 0x70, 0x00, 0x73, 0x00, 0x00, 0x00,
    0x93, 0x08, 0x20, 0x00, 0x73, 0x00, 0x00, 0x00,
    0xef, 0xf0, 0x9f, 0xff, 0x2f, 0x69, 0x6e, 0x69,
    0x74, 0x00, 0x00, 0x24, 0x00, 0x00, 0x00, 0x00,
    0x00, 0x00, 0x00, 0x00]"

definition userinit :: "u64 \<Rightarrow> u64 \<Rightarrow> 'z fstate_scheme \<Rightarrow> (unit, 'z fstate_scheme) res" where
  "userinit trampoline forkret s =
     andthen (allocproc trampoline forkret s) (\<lambda>r s. case r of
         None \<Rightarrow> Inl (Undefined ''userinit'')
       | Some p \<Rightarrow>
         let s = s\<lparr>initproc := p\<rparr> in
         andthen (uvmfirst (p_pagetable (procs s p)) (list_bytes initcode) (of_nat (List.length initcode)) s) (\<lambda>_ s.
         let s = set_proc p (p_sz_update (\<lambda>_. PGSIZE)) s;
             s = tf_set p TF_epc 0 s;
             s = tf_set p TF_sp PGSIZE s;
             s = set_proc p (set_name (list_bytes (bstr ''initcode'')) 0) s
         in andthen (namei [SLASH] s) (\<lambda>cwd s.
            Inr ((), set_proc p (\<lambda>q. q\<lparr>p_cwd := cwd, p_state := RUNNABLE\<rparr>) s))))"

definition growproc :: "int \<Rightarrow> 'z kstate_scheme \<Rightarrow> (int, 'z kstate_scheme) res" where
  "growproc n s =
     (let sz = p_sz (myproc s); pt = p_pagetable (myproc s) in
      if n > 0 then
        andthen (uvmalloc pt sz (sz + word_of_int n) PTE_W s) (\<lambda>sz s.
        if sz = 0 then Inr (- 1, s)
        else Inr (0, set_proc (curproc s) (p_sz_update (\<lambda>_. sz)) s))
      else if n < 0 then
        andthen (uvmdealloc pt sz (sz + word_of_int n) s) (\<lambda>sz s.
        Inr (0, set_proc (curproc s) (p_sz_update (\<lambda>_. sz)) s))
      else Inr (0, set_proc (curproc s) (p_sz_update (\<lambda>_. sz)) s))"

section \<open>Fork, exit and wait\<close>

text \<open>The loop that duplicates the open files into process \<open>np\<close>.\<close>

fun fork_files :: "nat list \<Rightarrow> nat \<Rightarrow> 'z ostate_scheme \<Rightarrow> (unit, 'z ostate_scheme) res" where
  "fork_files [] np s = Inr ((), s)"
| "fork_files (i # is) np s =
     (case p_ofile (myproc s) i of
        None \<Rightarrow> fork_files is np s
      | Some f \<Rightarrow> andthen (filedup f s) (\<lambda>f s.
          fork_files is np (set_proc np (p_ofile_update (\<lambda>g. g(i := Some f))) s)))"

definition fork :: "u64 \<Rightarrow> u64 \<Rightarrow> 'z ostate_scheme \<Rightarrow> (u32, 'z ostate_scheme) res" where
  "fork trampoline forkret s =
     andthen (allocproc trampoline forkret s) (\<lambda>r s. case r of
         None \<Rightarrow> Inr (- 1, s)
       | Some np \<Rightarrow>
         let p = curproc s in
         andthen (uvmcopy (p_pagetable (procs s p)) (p_pagetable (procs s np)) (p_sz (procs s p)) s) (\<lambda>r s.
         if r < 0 then andthen (freeproc np s) (\<lambda>_ s. Inr (- 1, s))
         else
           let s = set_proc np (p_sz_update (\<lambda>_. p_sz (procs s p))) s;
               s = s\<lparr>pmem := blit (pmem s) (unat (p_trapframe (procs s np)))
                 (pmem s) (unat (p_trapframe (procs s p))) TF_size\<rparr>;
               s = tf_set np (TF_a 0) 0 s
           in andthen (fork_files [0..<NOFILE] np s) (\<lambda>_ s.
              case p_cwd (procs s p) of
                None \<Rightarrow> Inl (Undefined ''cwd'')
              | Some d \<Rightarrow> (case idup d s of (d, s) \<Rightarrow>
                  let s = set_proc np (p_cwd_update (\<lambda>_. Some d)) s;
                      s = set_proc np (set_name (list_bytes (p_name (procs s p))) 0) s;
                      pid = p_pid (procs s np);
                      s = set_proc np (p_parent_update (\<lambda>_. Some p)) s;
                      s = set_proc np (p_state_update (\<lambda>_. RUNNABLE)) s
                  in Inr (pid, s)))))"

text \<open>\<^verbatim>\<open>reparent\<close>: the children of \<open>p\<close> in table order, init woken for each.\<close>

fun reparent_loop :: "nat list \<Rightarrow> nat \<Rightarrow> 'z kstate_scheme \<Rightarrow> 'z kstate_scheme" where
  "reparent_loop [] p s = s"
| "reparent_loop (pp # ps) p s = reparent_loop ps p
     (if p_parent (procs s pp) = Some p
      then wakeup (ChProc (initproc s)) (set_proc pp (p_parent_update (\<lambda>_. Some (initproc s))) s) else s)"

definition reparent :: "nat \<Rightarrow> 'z kstate_scheme \<Rightarrow> 'z kstate_scheme" where
  "reparent p s = reparent_loop [0..<NPROC] p s"

text \<open>\<^verbatim>\<open>sched\<close>; its checks of the locks held and of the interrupt flag are those of the lock model.\<close>

definition sched :: "'z kstate_scheme \<Rightarrow> (unit, 'z kstate_scheme) res" where
  "sched s = (if p_state (myproc s) = RUNNING then Inl (Panic ''sched running'') else Inr ((), s))"

fun exit_files :: "nat list \<Rightarrow> 'z ostate_scheme \<Rightarrow> (unit, 'z ostate_scheme) res" where
  "exit_files [] s = Inr ((), s)"
| "exit_files (fd # fds) s =
     (case p_ofile (myproc s) fd of
        None \<Rightarrow> exit_files fds s
      | Some f \<Rightarrow> andthen (fileclose f s) (\<lambda>_ s.
          exit_files fds (set_proc (curproc s) (p_ofile_update (\<lambda>g. g(fd := None))) s)))"

text \<open>The end of \<^verbatim>\<open>exit\<close>: hand the children over, wake the parent, become a zombie.\<close>

definition exit_zombie :: "u32 \<Rightarrow> 'z kstate_scheme \<Rightarrow> 'z kstate_scheme" where
  "exit_zombie status s =
     (let p = curproc s;
          s = reparent p s;
          s = (case p_parent (procs s p) of None \<Rightarrow> s | Some q \<Rightarrow> wakeup (ChProc q) s)
      in set_proc p (\<lambda>q. q\<lparr>p_xstate := status, p_state := ZOMBIE\<rparr>) s)"

text \<open>\<^verbatim>\<open>exit\<close> does not return; the result is the state in which the scheduler takes over.\<close>

definition exit :: "u32 \<Rightarrow> 'z ostate_scheme \<Rightarrow> (unit, 'z ostate_scheme) res" where
  "exit status s =
     (if curproc s = initproc s then Inl (Panic ''init exiting'')
      else andthen (exit_files [0..<NOFILE] s) (\<lambda>_ s.
        andthen (begin_op s) (\<lambda>_ s.
        andthen (case p_cwd (myproc s) of None \<Rightarrow> Inl (Undefined ''cwd'') | Some d \<Rightarrow> iput d s) (\<lambda>_ s.
        andthen (end_op s) (\<lambda>_ s.
        let s = set_proc (curproc s) (p_cwd_update (\<lambda>_. None)) s
        in sched (exit_zombie status s))))))"

text \<open>
  One round of \<^verbatim>\<open>wait\<close>: it reaps the first zombie child, or fails, or sleeps on the process.
\<close>

definition wait :: "u64 \<Rightarrow> 'z kstate_scheme \<Rightarrow> ((unit, u32) act, 'z kstate_scheme) res" where
  "wait addr s =
     (case first_index (\<lambda>pp. p_parent (procs s pp) = Some (curproc s) \<and> p_state (procs s pp) = ZOMBIE) NPROC of
        Some pp \<Rightarrow>
          let pid = p_pid (procs s pp) in
          andthen (if addr \<noteq> 0 then copyout (p_pagetable (myproc s)) addr (st32 (\<lambda>_. 0) 0 (p_xstate (procs s pp))) 0 4 s
                   else Inr (0, s)) (\<lambda>r s.
          if r < 0 then Inr (Fin (- 1), s)
          else andthen (freeproc pp s) (\<lambda>_ s. Inr (Fin pid, s)))
      | None \<Rightarrow>
          if (\<forall>pp<NPROC. p_parent (procs s pp) \<noteq> Some (curproc s)) \<or> p_killed (myproc s) then Inr (Fin (- 1), s)
          else Inr (Asleep (ChProc (curproc s)) (), s))"

section \<open>Scheduling\<close>

text \<open>\<^verbatim>\<open>scheduler\<close>: the next runnable process after position \<open>pos\<close> of the round-robin scan, made the running one.\<close>

definition next_runnable :: "nat \<Rightarrow> 'z kstate_scheme \<Rightarrow> nat option" where
  "next_runnable pos s = map_option (\<lambda>k. (pos + 1 + k) mod NPROC)
     (first_index (\<lambda>k. p_state (procs s ((pos + 1 + k) mod NPROC)) = RUNNABLE) NPROC)"

definition dispatch :: "nat \<Rightarrow> 'z kstate_scheme \<Rightarrow> 'z kstate_scheme" where
  "dispatch p s = (set_proc p (p_state_update (\<lambda>_. RUNNING)) s)\<lparr>curproc := p\<rparr>"

definition yield :: "'z kstate_scheme \<Rightarrow> (unit, 'z kstate_scheme) res" where
  "yield s = sched (set_proc (curproc s) (p_state_update (\<lambda>_. RUNNABLE)) s)"

text \<open>\<^verbatim>\<open>sleep\<close> up to the switch, and what it does when the process runs again.\<close>

definition sleep :: "chan \<Rightarrow> 'z kstate_scheme \<Rightarrow> (unit, 'z kstate_scheme) res" where
  "sleep ch s = sched (set_proc (curproc s) (\<lambda>q. q\<lparr>p_chan := Some ch, p_state := SLEEPING\<rparr>) s)"

definition sleep_resume :: "'z kstate_scheme \<Rightarrow> 'z kstate_scheme" where
  "sleep_resume s = set_proc (curproc s) (p_chan_update (\<lambda>_. None)) s"

definition kill :: "u32 \<Rightarrow> 'z kstate_scheme \<Rightarrow> int \<times> 'z kstate_scheme" where
  "kill pid s = (case first_index (\<lambda>p. p_pid (procs s p) = pid) NPROC of
       None \<Rightarrow> (- 1, s)
     | Some p \<Rightarrow> (0, set_proc p (\<lambda>q. q\<lparr>p_killed := True,
         p_state := (if p_state q = SLEEPING then RUNNABLE else p_state q)\<rparr>) s))"

definition setkilled :: "nat \<Rightarrow> 'z kstate_scheme \<Rightarrow> 'z kstate_scheme" where
  "setkilled p s = set_proc p (p_killed_update (\<lambda>_. True)) s"

definition killed :: "nat \<Rightarrow> 'z kstate_scheme \<Rightarrow> bool" where
  "killed p s = p_killed (procs s p)"

end
