(* ===== verification/Exec.thy ===== *)
theory Exec
  imports Proc
begin

text \<open>
  Fetching of system call arguments (\<^verbatim>\<open>syscall.c\<close>) and the loading of programs (\<^verbatim>\<open>exec.c\<close>,
  \<^verbatim>\<open>elf.h\<close>). A string argument is the list of its bytes before the NUL. An error of \<^verbatim>\<open>exec\<close> after the page table is made
  frees it; the process changes only when nothing can fail any more.
\<close>

section \<open>System call arguments (syscall.c)\<close>

definition MAXARG :: nat where "MAXARG = 32"
definition MAXPATH :: nat where "MAXPATH = 128"

definition fetchaddr :: "u64 \<Rightarrow> 'z kstate_scheme \<Rightarrow> (u64 option, 'z kstate_scheme) res" where
  "fetchaddr addr s =
     (if addr \<ge> p_sz (myproc s) \<or> addr + 8 > p_sz (myproc s) then Inr (None, s)
      else andthen (copyin (p_pagetable (myproc s)) (\<lambda>_. 0) 0 addr 8 s) (\<lambda>(r, b) s.
        Inr (if r \<noteq> 0 then None else Some (ld64 b 0), s)))"

text \<open>\<^verbatim>\<open>fetchstr\<close> into a local buffer of the caller.\<close>

definition fetchstr :: "u64 \<Rightarrow> nat \<Rightarrow> 'z kstate_scheme \<Rightarrow> (u8 list option, 'z kstate_scheme) res" where
  "fetchstr addr mx s =
     andthen (copyinstr (p_pagetable (myproc s)) (\<lambda>_. 0) 0 addr (of_nat mx) s) (\<lambda>(r, buf) s.
     if r < 0 then Inr (None, s)
     else case strlen buf 0 of None \<Rightarrow> Inl Diverges | Some n \<Rightarrow> Inr (Some (map buf [0..<n]), s))"

text \<open>The same into a page of the kernel; the result is whether it succeeded.\<close>

definition fetchstr_page :: "u64 \<Rightarrow> u64 \<Rightarrow> u64 \<Rightarrow> 'z kstate_scheme \<Rightarrow> (bool, 'z kstate_scheme) res" where
  "fetchstr_page addr pa mx s =
     andthen (copyinstr (p_pagetable (myproc s)) (pmem s) (unat pa) addr mx s) (\<lambda>(r, m) s.
     Inr (\<not> r < 0, s\<lparr>pmem := m\<rparr>))"

definition argraw :: "nat \<Rightarrow> 'z kstate_scheme \<Rightarrow> (u64, 'z kstate_scheme) res" where
  "argraw n s = (if n \<le> 5 then Inr (tf_get (curproc s) (TF_a n) s, s) else Inl (Panic ''argraw''))"

definition argint :: "nat \<Rightarrow> 'z kstate_scheme \<Rightarrow> (int, 'z kstate_scheme) res" where
  "argint n s = andthen (argraw n s) (\<lambda>x s. Inr (sint (ucast x :: u32), s))"

definition argaddr :: "nat \<Rightarrow> 'z kstate_scheme \<Rightarrow> (u64, 'z kstate_scheme) res" where
  "argaddr n s = argraw n s"

definition argstr :: "nat \<Rightarrow> nat \<Rightarrow> 'z kstate_scheme \<Rightarrow> (u8 list option, 'z kstate_scheme) res" where
  "argstr n mx s = andthen (argaddr n s) (\<lambda>a s. fetchstr a mx s)"

section \<open>Executable files (elf.h)\<close>

definition ELF_MAGIC :: u32 where "ELF_MAGIC = 0x464C457F"
definition ELF_PROG_LOAD :: u32 where "ELF_PROG_LOAD = 1"

record elfhdr =
  elf_magic :: u32
  elf_entry :: u64
  elf_phoff :: u64
  elf_phnum :: u16

definition elfhdr_size :: nat where "elfhdr_size = 64"

definition load_elfhdr :: "bytes \<Rightarrow> elfhdr" where
  "load_elfhdr m = \<lparr>elf_magic = ld32 m 0, elf_entry = ld64 m 24, elf_phoff = ld64 m 32, elf_phnum = ld16 m 56\<rparr>"

record proghdr =
  ph_type :: u32
  ph_flags :: u32
  ph_off :: u64
  ph_vaddr :: u64
  ph_filesz :: u64
  ph_memsz :: u64

definition proghdr_size :: nat where "proghdr_size = 56"

definition load_proghdr :: "bytes \<Rightarrow> proghdr" where
  "load_proghdr m = \<lparr>ph_type = ld32 m 0, ph_flags = ld32 m 4, ph_off = ld64 m 8, ph_vaddr = ld64 m 16,
     ph_filesz = ld64 m 32, ph_memsz = ld64 m 40\<rparr>"

section \<open>Loading (exec.c)\<close>

definition flags2perm :: "u32 \<Rightarrow> u64" where
  "flags2perm flags =
     (let perm = (if flags AND 1 \<noteq> 0 then PTE_X else 0)
      in if flags AND 2 \<noteq> 0 then perm OR PTE_W else perm)"

definition loadseg_step ::
  "u64 \<Rightarrow> u64 \<Rightarrow> nat \<Rightarrow> u32 \<Rightarrow> u32 \<Rightarrow> u32 \<Rightarrow> 'z fstate_scheme \<Rightarrow> ((u32, int) ctl, 'z fstate_scheme) res" where
  "loadseg_step pagetable va ip offset sz i s =
     (if \<not> i < sz then Inr (Ret 0, s)
      else let pa = walkaddr pagetable (va + ucast i) s in
        if pa = 0 then Inl (Panic ''loadseg: address should exist'')
        else let n = (if sz - i < ucast PGSIZE then sz - i else ucast PGSIZE) in
          andthen (readi ip (Kern pa) (\<lambda>_. 0) (offset + i) n s) (\<lambda>(r, _) s.
          if r \<noteq> n then Inr (Ret (- 1), s) else Inr (Next (i + ucast PGSIZE), s)))"

definition loadseg :: "u64 \<Rightarrow> u64 \<Rightarrow> nat \<Rightarrow> u32 \<Rightarrow> u32 \<Rightarrow> 'z fstate_scheme \<Rightarrow> (int, 'z fstate_scheme) res" where
  "loadseg pagetable va ip offset sz s =
     loop (unat sz div 4096 + 2) (loadseg_step pagetable va ip offset sz) 0 s"

text \<open>
  The loop over the program headers, with \<^verbatim>\<open>i\<close>, \<^verbatim>\<open>off\<close> and \<^verbatim>\<open>sz\<close>; it ends with \<^verbatim>\<open>sz\<close> and whether it did not
  jump to \<^verbatim>\<open>bad\<close>.
\<close>

definition exec_load_step ::
  "u64 \<Rightarrow> nat \<Rightarrow> u16 \<Rightarrow> nat \<times> u32 \<times> u64 \<Rightarrow> 'z fstate_scheme \<Rightarrow>
   ((nat \<times> u32 \<times> u64, bool \<times> u64) ctl, 'z fstate_scheme) res" where
  "exec_load_step pagetable ip phnum = (\<lambda>(i, off, sz) s.
     if \<not> i < unat phnum then Inr (Ret (True, sz), s)
     else andthen (readi ip (Local 0) (\<lambda>_. 0) off (of_nat proghdr_size) s) (\<lambda>(r, b) s.
       let ph = load_proghdr b in
       if r \<noteq> of_nat proghdr_size then Inr (Ret (False, sz), s)
       else if ph_type ph \<noteq> ELF_PROG_LOAD then Inr (Next (i + 1, off + of_nat proghdr_size, sz), s)
       else if ph_memsz ph < ph_filesz ph then Inr (Ret (False, sz), s)
       else if ph_vaddr ph + ph_memsz ph < ph_vaddr ph then Inr (Ret (False, sz), s)
       else if ph_vaddr ph mod PGSIZE \<noteq> 0 then Inr (Ret (False, sz), s)
       else andthen (uvmalloc pagetable sz (ph_vaddr ph + ph_memsz ph) (flags2perm (ph_flags ph)) s) (\<lambda>sz1 s.
         if sz1 = 0 then Inr (Ret (False, sz), s)
         else andthen (loadseg pagetable (ph_vaddr ph) ip (ucast (ph_off ph)) (ucast (ph_filesz ph)) s) (\<lambda>r s.
           if r < 0 then Inr (Ret (False, sz1), s)
           else Inr (Next (i + 1, off + of_nat proghdr_size, sz1), s)))))"

definition exec_load :: "u64 \<Rightarrow> nat \<Rightarrow> elfhdr \<Rightarrow> 'z fstate_scheme \<Rightarrow> (bool \<times> u64, 'z fstate_scheme) res" where
  "exec_load pagetable ip elf s =
     loop (unat (elf_phnum elf) + 1) (exec_load_step pagetable ip (elf_phnum elf)) (0, ucast (elf_phoff elf), 0) s"

text \<open>\<^verbatim>\<open>bad:\<close>\<close>

definition exec_bad :: "u64 \<Rightarrow> u64 \<Rightarrow> nat option \<Rightarrow> 'z fstate_scheme \<Rightarrow> (u32, 'z fstate_scheme) res" where
  "exec_bad pagetable sz ip s =
     andthen (if pagetable \<noteq> 0 then proc_freepagetable pagetable sz s else Inr ((), s)) (\<lambda>_ s.
     case ip of
       None \<Rightarrow> Inr (- 1, s)
     | Some ip \<Rightarrow> andthen (iunlockput ip s) (\<lambda>_ s. andthen (end_op s) (\<lambda>_ s. Inr (- 1, s))))"

text \<open>Pushing the argument strings; \<^verbatim>\<open>None\<close> is a jump to \<^verbatim>\<open>bad\<close>, and \<open>us\<close> is \<^verbatim>\<open>ustack\<close> so far.\<close>

fun exec_push ::
  "u64 \<Rightarrow> u64 \<Rightarrow> u64 list \<Rightarrow> u64 \<Rightarrow> u64 list \<Rightarrow> 'z kstate_scheme \<Rightarrow> ((u64 \<times> u64 list) option, 'z kstate_scheme) res" where
  "exec_push pagetable stackbase [] sp us s = Inr (Some (sp, us), s)"
| "exec_push pagetable stackbase (a # as) sp us s =
     (if List.length us \<ge> MAXARG then Inr (None, s)
      else case strlen (pmem s) (unat a) of
          None \<Rightarrow> Inl Diverges
        | Some n \<Rightarrow>
            let sp = sp - of_nat (n + 1);
                sp = sp - sp mod 16 in
            if sp < stackbase then Inr (None, s)
            else andthen (copyout pagetable sp (pmem s) (unat a) (of_nat (n + 1)) s) (\<lambda>r s.
              if r < 0 then Inr (None, s) else exec_push pagetable stackbase as sp (us @ [sp]) s))"

definition words_bytes :: "u64 list \<Rightarrow> bytes" where
  "words_bytes ws = (\<lambda>i. if i div 8 < List.length ws then ucast (drop_bit (8 * (i mod 8)) (ws ! (i div 8))) else 0)"

text \<open>The part of the path after the last slash.\<close>

definition last_elem :: "u8 list \<Rightarrow> u8 list" where
  "last_elem path = rev (takeWhile (\<lambda>c. c \<noteq> SLASH) (rev path))"

definition exec_commit ::
  "u64 \<Rightarrow> u64 \<Rightarrow> u64 \<Rightarrow> u64 \<Rightarrow> u8 list \<Rightarrow> elfhdr \<Rightarrow> 'z kstate_scheme \<Rightarrow> (unit, 'z kstate_scheme) res" where
  "exec_commit pagetable sz sp oldsz path elf s =
     (let p = curproc s;
          s = tf_set p (TF_a 1) sp s;
          s = set_proc p (set_name (list_bytes (last_elem path)) 0) s;
          oldpagetable = p_pagetable (procs s p);
          s = set_proc p (\<lambda>q. q\<lparr>p_pagetable := pagetable, p_sz := sz\<rparr>) s;
          s = tf_set p TF_epc (elf_entry elf) s;
          s = tf_set p TF_sp sp s
      in proc_freepagetable oldpagetable oldsz s)"

text \<open>From the stack on: the transaction is over and the inode released.\<close>

definition exec_stack ::
  "u64 \<Rightarrow> u64 \<Rightarrow> u8 list \<Rightarrow> u64 list \<Rightarrow> elfhdr \<Rightarrow> 'z fstate_scheme \<Rightarrow> (u32, 'z fstate_scheme) res" where
  "exec_stack pagetable sz path argv elf s =
     (let oldsz = p_sz (myproc s);
          sz = PGROUNDUP sz in
      andthen (uvmalloc pagetable sz (sz + 2 * PGSIZE) PTE_W s) (\<lambda>sz1 s.
      if sz1 = 0 then exec_bad pagetable sz None s
      else let sz = sz1 in
        andthen (uvmclear pagetable (sz - 2 * PGSIZE) s) (\<lambda>_ s.
        let stackbase = sz - PGSIZE in
        andthen (exec_push pagetable stackbase argv sz [] s) (\<lambda>pushed s.
        case pushed of
          None \<Rightarrow> exec_bad pagetable sz None s
        | Some (sp, us) \<Rightarrow>
            let argc = List.length us;
                us = us @ [0];
                sp = sp - of_nat (argc + 1) * 8;
                sp = sp - sp mod 16 in
            if sp < stackbase then exec_bad pagetable sz None s
            else andthen (copyout pagetable sp (words_bytes us) 0 (of_nat ((argc + 1) * 8)) s) (\<lambda>r s.
              if r < 0 then exec_bad pagetable sz None s
              else andthen (exec_commit pagetable sz sp oldsz path elf s) (\<lambda>_ s. Inr (of_nat argc, s)))))))"

definition exec :: "u64 \<Rightarrow> u8 list \<Rightarrow> u64 list \<Rightarrow> 'z fstate_scheme \<Rightarrow> (u32, 'z fstate_scheme) res" where
  "exec trampoline path argv s =
     andthen (begin_op s) (\<lambda>_ s.
     andthen (namei path s) (\<lambda>r s.
     case r of
       None \<Rightarrow> andthen (end_op s) (\<lambda>_ s. Inr (- 1, s))
     | Some ip \<Rightarrow>
       andthen (ilock ip s) (\<lambda>_ s.
       andthen (readi ip (Local 0) (\<lambda>_. 0) 0 (of_nat elfhdr_size) s) (\<lambda>(r, b) s.
       let elf = load_elfhdr b in
       if r \<noteq> of_nat elfhdr_size \<or> elf_magic elf \<noteq> ELF_MAGIC then exec_bad 0 0 (Some ip) s
       else andthen (proc_pagetable trampoline (curproc s) s) (\<lambda>pagetable s.
         if pagetable = 0 then exec_bad 0 0 (Some ip) s
         else andthen (exec_load pagetable ip elf s) (\<lambda>(ok, sz) s.
           if \<not> ok then exec_bad pagetable sz (Some ip) s
           else andthen (iunlockput ip s) (\<lambda>_ s.
             andthen (end_op s) (\<lambda>_ s.
             exec_stack pagetable sz path argv elf s))))))))"

end
