(* ===== verification/Sysfile.thy ===== *)
theory Sysfile
  imports Exec
begin

text \<open>
  The system calls on files (\<^verbatim>\<open>sysfile.c\<close> of assignment 4) and on memory mappings (\<^verbatim>\<open>sysfile.c\<close> of
  assignment 3). A result is the 64-bit value for the user's register \<^verbatim>\<open>a0\<close>. The symbolic-link branch of \<^verbatim>\<open>sys_open\<close> has
  an empty body in the source and is left out.
\<close>

section \<open>Descriptors\<close>

text \<open>\<^verbatim>\<open>argfd\<close>: the descriptor and its file\<close>

definition argfd :: "nat \<Rightarrow> 'z kstate_scheme \<Rightarrow> ((nat \<times> nat) option, 'z kstate_scheme) res" where
  "argfd n s = andthen (argint n s) (\<lambda>fd s.
     Inr (if fd < 0 \<or> fd \<ge> int NOFILE then None
          else map_option (Pair (nat fd)) (p_ofile (myproc s) (nat fd)), s))"

definition set_ofile :: "nat \<Rightarrow> nat option \<Rightarrow> 'z kstate_scheme \<Rightarrow> 'z kstate_scheme" where
  "set_ofile fd f s = set_proc (curproc s) (p_ofile_update (\<lambda>g. g(fd := f))) s"

definition fdalloc :: "nat \<Rightarrow> 'z kstate_scheme \<Rightarrow> nat option \<times> 'z kstate_scheme" where
  "fdalloc f s = (case first_index (\<lambda>fd. p_ofile (myproc s) fd = None) NOFILE of
       None \<Rightarrow> (None, s)
     | Some fd \<Rightarrow> (Some fd, set_ofile fd (Some f) s))"

definition sys_dup :: "'z ostate_scheme \<Rightarrow> (u64, 'z ostate_scheme) res" where
  "sys_dup s = andthen (argfd 0 s) (\<lambda>r s. case r of
       None \<Rightarrow> Inr (- 1, s)
     | Some (_, f) \<Rightarrow> (case fdalloc f s of
         (None, s) \<Rightarrow> Inr (- 1, s)
       | (Some fd, s) \<Rightarrow> andthen (filedup f s) (\<lambda>_ s. Inr (of_nat fd, s))))"

definition sys_read :: "'z ostate_scheme \<Rightarrow> (u64, 'z ostate_scheme) res" where
  "sys_read s =
     andthen (argaddr 1 s) (\<lambda>p s. andthen (argint 2 s) (\<lambda>n s. andthen (argfd 0 s) (\<lambda>r s. case r of
       None \<Rightarrow> Inr (- 1, s)
     | Some (_, f) \<Rightarrow> andthen (fileread f p n s) (\<lambda>r s. Inr (word_of_int r, s)))))"

definition sys_write :: "'z ostate_scheme \<Rightarrow> (u64, 'z ostate_scheme) res" where
  "sys_write s =
     andthen (argaddr 1 s) (\<lambda>p s. andthen (argint 2 s) (\<lambda>n s. andthen (argfd 0 s) (\<lambda>r s. case r of
       None \<Rightarrow> Inr (- 1, s)
     | Some (_, f) \<Rightarrow> andthen (filewrite f p n s) (\<lambda>r s. Inr (word_of_int r, s)))))"

definition sys_close :: "'z ostate_scheme \<Rightarrow> (u64, 'z ostate_scheme) res" where
  "sys_close s = andthen (argfd 0 s) (\<lambda>r s. case r of
       None \<Rightarrow> Inr (- 1, s)
     | Some (fd, f) \<Rightarrow> andthen (fileclose f (set_ofile fd None s)) (\<lambda>_ s. Inr (0, s)))"

definition sys_fstat :: "'z ostate_scheme \<Rightarrow> (u64, 'z ostate_scheme) res" where
  "sys_fstat s = andthen (argaddr 1 s) (\<lambda>st s. andthen (argfd 0 s) (\<lambda>r s. case r of
       None \<Rightarrow> Inr (- 1, s)
     | Some (_, f) \<Rightarrow> andthen (filestat f st s) (\<lambda>r s. Inr (word_of_int r, s))))"

section \<open>Links\<close>

definition add_nlink :: "u16 \<Rightarrow> nat \<Rightarrow> 'z fstate_scheme \<Rightarrow> 'z fstate_scheme" where
  "add_nlink k ip s = set_inode ip (i_nlink_update (\<lambda>x. x + k)) s"

definition link_bad :: "nat \<Rightarrow> 'z fstate_scheme \<Rightarrow> (u64, 'z fstate_scheme) res" where
  "link_bad ip s =
     andthen (ilock ip s) (\<lambda>_ s.
     andthen (iupdate ip (add_nlink (- 1) ip s)) (\<lambda>_ s.
     andthen (iunlockput ip s) (\<lambda>_ s.
     andthen (end_op s) (\<lambda>_ s. Inr (- 1, s)))))"

definition sys_link :: "'z ostate_scheme \<Rightarrow> (u64, 'z ostate_scheme) res" where
  "sys_link s =
     andthen (argstr 0 MAXPATH s) (\<lambda>old s. case old of None \<Rightarrow> Inr (- 1, s) | Some old \<Rightarrow>
     andthen (argstr 1 MAXPATH s) (\<lambda>new s. case new of None \<Rightarrow> Inr (- 1, s) | Some new \<Rightarrow>
     andthen (begin_op s) (\<lambda>_ s.
     andthen (namei old s) (\<lambda>r s. case r of
       None \<Rightarrow> andthen (end_op s) (\<lambda>_ s. Inr (- 1, s))
     | Some ip \<Rightarrow>
       andthen (ilock ip s) (\<lambda>_ s.
       if i_type (itable s ip) = T_DIR then
         andthen (iunlockput ip s) (\<lambda>_ s. andthen (end_op s) (\<lambda>_ s. Inr (- 1, s)))
       else
         andthen (iupdate ip (add_nlink 1 ip s)) (\<lambda>_ s.
         andthen (iunlock ip s) (\<lambda>_ s.
         andthen (nameiparent new (\<lambda>_. 0) s) (\<lambda>(r, name) s. case r of
           None \<Rightarrow> link_bad ip s
         | Some dp \<Rightarrow>
           andthen (ilock dp s) (\<lambda>_ s.
           andthen (if i_dev (itable s dp) \<noteq> i_dev (itable s ip) then Inr (- 1, s)
                    else dirlink dp name (i_inum (itable s ip)) s) (\<lambda>r s.
           if r < 0 then andthen (iunlockput dp s) (\<lambda>_ s. link_bad ip s)
           else
             andthen (iunlockput dp s) (\<lambda>_ s.
             andthen (iput ip s) (\<lambda>_ s.
             andthen (end_op s) (\<lambda>_ s. Inr (0, s))))))))))))))"

definition isdirempty_step ::
  "nat \<Rightarrow> u32 \<times> bytes \<Rightarrow> 'z fstate_scheme \<Rightarrow> ((u32 \<times> bytes, bool) ctl, 'z fstate_scheme) res" where
  "isdirempty_step dp = (\<lambda>(off, de) s.
     if \<not> off < i_size (itable s dp) then Inr (Ret True, s)
     else andthen (read_dirent dp de off s) (\<lambda>(r, de) s.
       if r \<noteq> of_nat dirent_size then Inl (Panic ''isdirempty: readi'')
       else if de_inum de \<noteq> 0 then Inr (Ret False, s)
       else Inr (Next (off + of_nat dirent_size, de), s)))"

definition isdirempty :: "nat \<Rightarrow> 'z fstate_scheme \<Rightarrow> (bool, 'z fstate_scheme) res" where
  "isdirempty dp s = loop (unat (i_size (itable s dp)) div dirent_size + 2) (isdirempty_step dp)
     (of_nat (2 * dirent_size), \<lambda>_. 0) s"

definition unlink_bad :: "nat \<Rightarrow> 'z fstate_scheme \<Rightarrow> (u64, 'z fstate_scheme) res" where
  "unlink_bad dp s = andthen (iunlockput dp s) (\<lambda>_ s. andthen (end_op s) (\<lambda>_ s. Inr (- 1, s)))"

definition unlink_entry :: "nat \<Rightarrow> nat \<Rightarrow> u32 \<Rightarrow> 'z fstate_scheme \<Rightarrow> (u64, 'z fstate_scheme) res" where
  "unlink_entry dp ip off s =
     andthen (writei dp (Local 0) (\<lambda>_. 0) off (of_nat dirent_size) s) (\<lambda>r s.
     if r \<noteq> of_nat dirent_size then Inl (Panic ''unlink: writei'')
     else
       andthen (if i_type (itable s ip) = T_DIR then iupdate dp (add_nlink (- 1) dp s) else Inr ((), s)) (\<lambda>_ s.
       andthen (iunlockput dp s) (\<lambda>_ s.
       andthen (iupdate ip (add_nlink (- 1) ip s)) (\<lambda>_ s.
       andthen (iunlockput ip s) (\<lambda>_ s.
       andthen (end_op s) (\<lambda>_ s. Inr (0, s)))))))"

definition sys_unlink :: "'z ostate_scheme \<Rightarrow> (u64, 'z ostate_scheme) res" where
  "sys_unlink s =
     andthen (argstr 0 MAXPATH s) (\<lambda>path s. case path of None \<Rightarrow> Inr (- 1, s) | Some path \<Rightarrow>
     andthen (begin_op s) (\<lambda>_ s.
     andthen (nameiparent path (\<lambda>_. 0) s) (\<lambda>(r, name) s. case r of
       None \<Rightarrow> andthen (end_op s) (\<lambda>_ s. Inr (- 1, s))
     | Some dp \<Rightarrow>
       andthen (ilock dp s) (\<lambda>_ s.
       if namecmp name 0 (list_bytes (bstr ''.'')) 0 = 0 \<or> namecmp name 0 (list_bytes (bstr ''..'')) 0 = 0
       then unlink_bad dp s
       else andthen (dirlookup dp name s) (\<lambda>r s. case r of
         None \<Rightarrow> unlink_bad dp s
       | Some (ip, off) \<Rightarrow>
         andthen (ilock ip s) (\<lambda>_ s.
         if i_nlink (itable s ip) <s 1 then Inl (Panic ''unlink: nlink < 1'')
         else andthen (if i_type (itable s ip) = T_DIR then isdirempty ip s else Inr (True, s)) (\<lambda>empty s.
           if \<not> empty then andthen (iunlockput ip s) (\<lambda>_ s. unlink_bad dp s)
           else unlink_entry dp ip off s)))))))"

section \<open>Creating and opening\<close>

definition create_fail :: "nat \<Rightarrow> nat \<Rightarrow> 'z fstate_scheme \<Rightarrow> (nat option, 'z fstate_scheme) res" where
  "create_fail ip dp s =
     andthen (iupdate ip (set_inode ip (i_nlink_update (\<lambda>_. 0)) s)) (\<lambda>_ s.
     andthen (iunlockput ip s) (\<lambda>_ s.
     andthen (iunlockput dp s) (\<lambda>_ s. Inr (None, s))))"

text \<open>\<^verbatim>\<open>dirlink(ip, ".", ip->inum) < 0 || dirlink(ip, "..", dp->inum) < 0\<close>\<close>

definition create_dots :: "nat \<Rightarrow> nat \<Rightarrow> 'z fstate_scheme \<Rightarrow> (bool, 'z fstate_scheme) res" where
  "create_dots ip dp s =
     andthen (dirlink ip (list_bytes (bstr ''.'')) (i_inum (itable s ip)) s) (\<lambda>r s.
     if r < 0 then Inr (True, s)
     else andthen (dirlink ip (list_bytes (bstr ''..'')) (i_inum (itable s dp)) s) (\<lambda>r s. Inr (r < 0, s)))"

definition create_new ::
  "nat \<Rightarrow> nat \<Rightarrow> bytes \<Rightarrow> u16 \<Rightarrow> u16 \<Rightarrow> u16 \<Rightarrow> 'z fstate_scheme \<Rightarrow> (nat option, 'z fstate_scheme) res" where
  "create_new ip dp name typ major minor s =
     andthen (ilock ip s) (\<lambda>_ s.
     andthen (iupdate ip (set_inode ip (\<lambda>n. n\<lparr>i_major := major, i_minor := minor, i_nlink := 1\<rparr>) s)) (\<lambda>_ s.
     andthen (if typ = T_DIR then create_dots ip dp s else Inr (False, s)) (\<lambda>fail s.
     if fail then create_fail ip dp s
     else andthen (dirlink dp name (i_inum (itable s ip)) s) (\<lambda>r s.
       if r < 0 then create_fail ip dp s
       else andthen (if typ = T_DIR then iupdate dp (add_nlink 1 dp s) else Inr ((), s)) (\<lambda>_ s.
         andthen (iunlockput dp s) (\<lambda>_ s. Inr (Some ip, s)))))))"

text \<open>\<^verbatim>\<open>create\<close> returns the new or found inode locked.\<close>

definition create :: "u8 list \<Rightarrow> u16 \<Rightarrow> u16 \<Rightarrow> u16 \<Rightarrow> 'z fstate_scheme \<Rightarrow> (nat option, 'z fstate_scheme) res" where
  "create path typ major minor s =
     andthen (nameiparent path (\<lambda>_. 0) s) (\<lambda>(r, name) s. case r of
       None \<Rightarrow> Inr (None, s)
     | Some dp \<Rightarrow>
       andthen (ilock dp s) (\<lambda>_ s.
       andthen (dirlookup dp name s) (\<lambda>r s. case r of
         Some (ip, _) \<Rightarrow>
           andthen (iunlockput dp s) (\<lambda>_ s.
           andthen (ilock ip s) (\<lambda>_ s.
           if typ = T_FILE \<and> (i_type (itable s ip) = T_FILE \<or> i_type (itable s ip) = T_DEVICE) then Inr (Some ip, s)
           else andthen (iunlockput ip s) (\<lambda>_ s. Inr (None, s))))
       | None \<Rightarrow>
           andthen (ialloc (i_dev (itable s dp)) typ s) (\<lambda>r s. case r of
             None \<Rightarrow> andthen (iunlockput dp s) (\<lambda>_ s. Inr (None, s))
           | Some ip \<Rightarrow> create_new ip dp name typ major minor s))))"

text \<open>The common error exit of \<^verbatim>\<open>sys_open\<close>.\<close>

definition open_bad :: "nat \<Rightarrow> 'z fstate_scheme \<Rightarrow> (u64, 'z fstate_scheme) res" where
  "open_bad ip s = andthen (iunlockput ip s) (\<lambda>_ s. andthen (end_op s) (\<lambda>_ s. Inr (- 1, s)))"

text \<open>From the test for a device on, with the inode locked.\<close>

definition open_inode :: "nat \<Rightarrow> u32 \<Rightarrow> 'z ostate_scheme \<Rightarrow> (u64, 'z ostate_scheme) res" where
  "open_inode ip omode s =
     (if i_type (itable s ip) = T_DEVICE
         \<and> (i_major (itable s ip) <s 0 \<or> sint (i_major (itable s ip)) \<ge> int NDEV) then open_bad ip s
      else case filealloc s of
          (None, s) \<Rightarrow> open_bad ip s
        | (Some f, s) \<Rightarrow> (case fdalloc f s of
            (None, s) \<Rightarrow> andthen (fileclose f s) (\<lambda>_ s. open_bad ip s)
          | (Some fd, s) \<Rightarrow>
              let s = (if i_type (itable s ip) = T_DEVICE
                    then set_file f (\<lambda>g. g\<lparr>f_type := FD_DEVICE, f_major := i_major (itable s ip)\<rparr>) s
                    else set_file f (\<lambda>g. g\<lparr>f_type := FD_INODE, f_off := 0\<rparr>) s);
                  s = set_file f (\<lambda>g. g\<lparr>f_ip := Some ip, f_readable := (omode AND O_WRONLY = 0),
                    f_writable := (omode AND O_WRONLY \<noteq> 0 \<or> omode AND O_RDWR \<noteq> 0)\<rparr>) s
              in andthen (if omode AND O_TRUNC \<noteq> 0 \<and> i_type (itable s ip) = T_FILE then itrunc ip s
                          else Inr ((), s)) (\<lambda>_ s.
                 andthen (iunlock ip s) (\<lambda>_ s.
                 andthen (end_op s) (\<lambda>_ s. Inr (of_nat fd, s))))))"

definition sys_open :: "'z ostate_scheme \<Rightarrow> (u64, 'z ostate_scheme) res" where
  "sys_open s =
     andthen (argint 1 s) (\<lambda>m s. let omode = word_of_int m in
     andthen (argstr 0 MAXPATH s) (\<lambda>path s. case path of None \<Rightarrow> Inr (- 1, s) | Some path \<Rightarrow>
     andthen (begin_op s) (\<lambda>_ s.
     if omode AND O_CREATE \<noteq> 0 then
       andthen (create path T_FILE 0 0 s) (\<lambda>r s. case r of
         None \<Rightarrow> andthen (end_op s) (\<lambda>_ s. Inr (- 1, s))
       | Some ip \<Rightarrow> open_inode ip omode s)
     else
       andthen (namei path s) (\<lambda>r s. case r of
         None \<Rightarrow> andthen (end_op s) (\<lambda>_ s. Inr (- 1, s))
       | Some ip \<Rightarrow>
         andthen (ilock ip s) (\<lambda>_ s.
         if i_type (itable s ip) = T_DIR \<and> omode \<noteq> O_RDONLY then open_bad ip s
         else open_inode ip omode s)))))"

definition sys_mkdir :: "'z ostate_scheme \<Rightarrow> (u64, 'z ostate_scheme) res" where
  "sys_mkdir s =
     andthen (begin_op s) (\<lambda>_ s.
     andthen (argstr 0 MAXPATH s) (\<lambda>path s.
     andthen (case path of None \<Rightarrow> Inr (None, s) | Some path \<Rightarrow> create path T_DIR 0 0 s) (\<lambda>r s. case r of
       None \<Rightarrow> andthen (end_op s) (\<lambda>_ s. Inr (- 1, s))
     | Some ip \<Rightarrow> andthen (iunlockput ip s) (\<lambda>_ s. andthen (end_op s) (\<lambda>_ s. Inr (0, s))))))"

definition sys_mknod :: "'z ostate_scheme \<Rightarrow> (u64, 'z ostate_scheme) res" where
  "sys_mknod s =
     andthen (begin_op s) (\<lambda>_ s.
     andthen (argint 1 s) (\<lambda>major s.
     andthen (argint 2 s) (\<lambda>minor s.
     andthen (argstr 0 MAXPATH s) (\<lambda>path s.
     andthen (case path of None \<Rightarrow> Inr (None, s)
              | Some path \<Rightarrow> create path T_DEVICE (word_of_int major) (word_of_int minor) s) (\<lambda>r s. case r of
       None \<Rightarrow> andthen (end_op s) (\<lambda>_ s. Inr (- 1, s))
     | Some ip \<Rightarrow> andthen (iunlockput ip s) (\<lambda>_ s. andthen (end_op s) (\<lambda>_ s. Inr (0, s))))))))"

definition sys_chdir :: "'z ostate_scheme \<Rightarrow> (u64, 'z ostate_scheme) res" where
  "sys_chdir s =
     andthen (begin_op s) (\<lambda>_ s.
     andthen (argstr 0 MAXPATH s) (\<lambda>path s.
     andthen (case path of None \<Rightarrow> Inr (None, s) | Some path \<Rightarrow> namei path s) (\<lambda>r s. case r of
       None \<Rightarrow> andthen (end_op s) (\<lambda>_ s. Inr (- 1, s))
     | Some ip \<Rightarrow>
       andthen (ilock ip s) (\<lambda>_ s.
       if i_type (itable s ip) \<noteq> T_DIR then open_bad ip s
       else
         andthen (iunlock ip s) (\<lambda>_ s.
         andthen (case p_cwd (myproc s) of None \<Rightarrow> Inl (Undefined ''cwd'') | Some d \<Rightarrow> iput d s) (\<lambda>_ s.
         andthen (end_op s) (\<lambda>_ s.
         Inr (0, set_proc (curproc s) (p_cwd_update (\<lambda>_. Some ip)) s))))))))"

section \<open>exec and pipe\<close>

text \<open>
  The loop of \<^verbatim>\<open>sys_exec\<close> over the user's argument array: the pages filled so far, and whether it
  ended at a null pointer rather than with a jump to \<^verbatim>\<open>bad\<close>. A page that was allocated is in the list even
  when its string could not be fetched.
\<close>

definition exec_args_step ::
  "u64 \<Rightarrow> u64 list \<Rightarrow> 'z kstate_scheme \<Rightarrow> ((u64 list, bool \<times> u64 list) ctl, 'z kstate_scheme) res" where
  "exec_args_step uargv pages s =
     (if List.length pages \<ge> MAXARG then Inr (Ret (False, pages), s)
      else andthen (fetchaddr (uargv + of_nat (8 * List.length pages)) s) (\<lambda>r s. case r of
        None \<Rightarrow> Inr (Ret (False, pages), s)
      | Some uarg \<Rightarrow>
          if uarg = 0 then Inr (Ret (True, pages), s)
          else case kalloc s of (pa, s) \<Rightarrow>
            if pa = 0 then Inr (Ret (False, pages), s)
            else andthen (fetchstr_page uarg pa PGSIZE s) (\<lambda>ok s.
              if ok then Inr (Next (pages @ [pa]), s) else Inr (Ret (False, pages @ [pa]), s))))"

fun free_pages :: "u64 list \<Rightarrow> 'z kstate_scheme \<Rightarrow> (unit, 'z kstate_scheme) res" where
  "free_pages [] s = Inr ((), s)"
| "free_pages (p # ps) s = andthen (kfree p s) (\<lambda>_ s. free_pages ps s)"

definition sys_exec :: "u64 \<Rightarrow> 'z ostate_scheme \<Rightarrow> (u64, 'z ostate_scheme) res" where
  "sys_exec trampoline s =
     andthen (argaddr 1 s) (\<lambda>uargv s.
     andthen (argstr 0 MAXPATH s) (\<lambda>path s. case path of None \<Rightarrow> Inr (- 1, s) | Some path \<Rightarrow>
     andthen (loop (MAXARG + 1) (exec_args_step uargv) [] s) (\<lambda>(ok, pages) s.
     if \<not> ok then andthen (free_pages pages s) (\<lambda>_ s. Inr (- 1, s))
     else andthen (exec trampoline path pages s) (\<lambda>ret s.
       andthen (free_pages pages s) (\<lambda>_ s. Inr (scast ret, s))))))"

definition pipe_bad :: "nat \<Rightarrow> nat \<Rightarrow> 'z ostate_scheme \<Rightarrow> (u64, 'z ostate_scheme) res" where
  "pipe_bad rfile wfile s = andthen (fileclose rfile s) (\<lambda>_ s. andthen (fileclose wfile s) (\<lambda>_ s. Inr (- 1, s)))"

definition sys_pipe :: "'z ostate_scheme \<Rightarrow> (u64, 'z ostate_scheme) res" where
  "sys_pipe s =
     andthen (argaddr 0 s) (\<lambda>fdarray s.
     andthen (pipealloc s) (\<lambda>r s. case r of
       None \<Rightarrow> Inr (- 1, s)
     | Some (rfile, wfile) \<Rightarrow> (case fdalloc rfile s of
         (None, s) \<Rightarrow> pipe_bad rfile wfile s
       | (Some fd0, s) \<Rightarrow> (case fdalloc wfile s of
           (None, s) \<Rightarrow> pipe_bad rfile wfile (set_ofile fd0 None s)
         | (Some fd1, s) \<Rightarrow>
             andthen (copyout (p_pagetable (myproc s)) fdarray (st32 (\<lambda>_. 0) 0 (of_nat fd0)) 0 4 s) (\<lambda>r s.
             andthen (if r < 0 then Inr (r, s)
               else copyout (p_pagetable (myproc s)) (fdarray + 4) (st32 (\<lambda>_. 0) 0 (of_nat fd1)) 0 4 s) (\<lambda>r s.
             if r < 0 then pipe_bad rfile wfile (set_ofile fd1 None (set_ofile fd0 None s))
             else Inr (0, s)))))))"

definition sys_symlink :: "'z ostate_scheme \<Rightarrow> (u64, 'z ostate_scheme) res" where
  "sys_symlink s = Inr (- 1, s)"

section \<open>Memory mappings (assignment 3)\<close>

text \<open>\<^verbatim>\<open>vma_searching\<close>; -1 is \<open>None\<close>.\<close>

definition vma_searching :: "nat \<Rightarrow> 'z kstate_scheme \<Rightarrow> nat option" where
  "vma_searching p s = first_index (\<lambda>i. mapped_file (p_vma (procs s p) i) = None
     \<and> mapped_length (p_vma (procs s p) i) = 0) VMASIZE"

definition get_file_from_fd :: "int \<Rightarrow> nat \<Rightarrow> 'z ostate_scheme \<Rightarrow> (nat option, 'z ostate_scheme) res" where
  "get_file_from_fd fd p s =
     (if fd < 0 \<or> fd \<ge> int NOFILE then Inr (None, s)
      else case p_ofile (procs s p) (nat fd) of
          None \<Rightarrow> Inr (None, s)
        | Some f \<Rightarrow> andthen (filedup f s) (\<lambda>_ s. Inr (Some f, s)))"

definition memory_flag_generator :: "u32 \<Rightarrow> u32" where
  "memory_flag_generator map_flags =
     (let page_flags = ucast (PTE_U OR PTE_V);
          page_flags = (if map_flags AND 1 \<noteq> 0 then page_flags OR ucast PTE_R else page_flags);
          page_flags = (if map_flags AND 2 \<noteq> 0 then page_flags OR ucast PTE_W else page_flags)
      in if map_flags AND 4 \<noteq> 0 then page_flags OR ucast PTE_X else page_flags)"

definition set_vma ::
  "nat \<Rightarrow> u32 \<Rightarrow> u32 \<Rightarrow> u32 \<Rightarrow> u32 \<Rightarrow> nat \<Rightarrow> nat \<Rightarrow> 'z kstate_scheme \<Rightarrow> 'z kstate_scheme" where
  "set_vma n len memory_flags0 shared_flags offset f p s =
     set_proc p (p_vma_update (\<lambda>v. v(n := (v n)\<lparr>mapped_file := Some f, mapped_length := len,
       memory_flags := memory_flag_generator memory_flags0, mapped_flags := shared_flags,
       mapped_starting_address := MAXVA - 2 * PGSIZE - of_nat (n + 1) * 8 * PGSIZE,
       vma_offset := offset, used_length := 0\<rparr>))) s"

text \<open>With no empty slot \<^verbatim>\<open>vma[-1]\<close> is written, which is undefined.\<close>

definition sys_mmap :: "'z ostate_scheme \<Rightarrow> (u64, 'z ostate_scheme) res" where
  "sys_mmap s =
     andthen (argint 1 s) (\<lambda>len s. andthen (argint 2 s) (\<lambda>mflags s. andthen (argint 3 s) (\<lambda>sharing s.
     andthen (argint 4 s) (\<lambda>fd s. andthen (argint 5 s) (\<lambda>offset s.
     let p = curproc s; slot = vma_searching p s; mf = word_of_int mflags :: u32 in
     andthen (get_file_from_fd fd p s) (\<lambda>f s. case f of
       None \<Rightarrow> andthen (kprintf (''loading file structure failed'' @ [CHR 0x0A]) [] s) (\<lambda>_ s. Inr (- 1, s))
     | Some f \<Rightarrow>
         if sharing = 1 \<and> (mf AND 2 \<noteq> 0 \<and> \<not> f_writable (files s f)
             \<or> mf AND 1 \<noteq> 0 \<and> \<not> f_readable (files s f)) then Inr (- 1, s)
         else case slot of
             None \<Rightarrow> Inl (Undefined ''vma[-1]'')
           | Some n \<Rightarrow>
               let s = set_vma n (word_of_int len) mf (word_of_int sharing) (word_of_int offset) f p s
               in Inr (mapped_starting_address (p_vma (procs s p) n), s)))))))"

definition find_unmap_vma :: "u64 \<Rightarrow> nat \<Rightarrow> 'z kstate_scheme \<Rightarrow> nat option" where
  "find_unmap_vma a p s = first_index (\<lambda>i. a \<ge> mapped_starting_address (p_vma (procs s p) i)
     \<and> mapped_starting_address (p_vma (procs s p) i) + 8 * PGSIZE > a) VMASIZE"

text \<open>The write-back loop: one page of the mapping at a time to the file, from page \<open>i\<close> on.\<close>

fun munmap_write :: "nat list \<Rightarrow> nat \<Rightarrow> u64 \<Rightarrow> 'z ostate_scheme \<Rightarrow> (unit, 'z ostate_scheme) res" where
  "munmap_write [] f va s = Inr ((), s)"
| "munmap_write (i # is) f va s =
     andthen (filewrite f (va + PGSIZE * of_nat i) (uint PGSIZE) s) (\<lambda>_ s. munmap_write is f va s)"

text \<open>\<^verbatim>\<open>length/PGSIZE\<close> of a negative length rounds towards zero; \<^verbatim>\<open>uvmunmap\<close> gets it as an unsigned number.\<close>

definition sys_munmap :: "'z ostate_scheme \<Rightarrow> (u64, 'z ostate_scheme) res" where
  "sys_munmap s =
     andthen (argaddr 0 s) (\<lambda>va s. andthen (argint 1 s) (\<lambda>len s.
     let p = curproc s in
     case find_unmap_vma va p s of
       None \<Rightarrow> andthen (kprintf ''there is no mapping vma'' [] s) (\<lambda>_ s. Inr (- 1, s))
     | Some v \<Rightarrow>
         let n = sgn len * (\<bar>len\<bar> div 4096) in
         andthen (case mapped_file (p_vma (procs s p) v) of
            None \<Rightarrow> if 0 < n then Inl (Undefined ''mapped_file'') else Inr ((), s)
          | Some f \<Rightarrow> munmap_write [0..<nat n] f va s) (\<lambda>_ s.
         andthen (uvmunmap (p_pagetable (procs s p)) va (word_of_int n) True s) (\<lambda>_ s.
         let s = set_proc p (p_vma_update (\<lambda>w. w(v := (w v)\<lparr>mapped_length := mapped_length (w v) - word_of_int len\<rparr>))) s in
         if sint (mapped_length (p_vma (procs s p) v)) \<le> 0 then
           andthen (case mapped_file (p_vma (procs s p) v) of
               None \<Rightarrow> Inl (Undefined ''mapped_file'') | Some f \<Rightarrow> fileclose f s) (\<lambda>_ s.
           Inr (0, set_proc p (p_vma_update (\<lambda>w. w(v := (w v)\<lparr>mapped_file := None, mapped_length := 0\<rparr>))) s))
         else Inr (0, s)))))"

end
