(* ===== verification/Syscall.thy ===== *)
theory Syscall
  imports Sysfile
begin

text \<open>
  The system calls on processes (\<^verbatim>\<open>sysproc.c\<close>) and the dispatch of system calls (\<^verbatim>\<open>syscall.c\<close>). A call that ends the
  process has no result; one that would sleep with nothing to wake it is \<open>Blocked\<close> for the sequential model.
\<close>

section \<open>Processes and time (sysproc.c)\<close>

definition sys_exit :: "'z ostate_scheme \<Rightarrow> (u64 option, 'z ostate_scheme) res" where
  "sys_exit s = andthen (argint 0 s) (\<lambda>n s. andthen (exit (word_of_int n) s) (\<lambda>_ s. Inr (None, s)))"

definition sys_getpid :: "'z kstate_scheme \<Rightarrow> (u64, 'z kstate_scheme) res" where
  "sys_getpid s = Inr (scast (p_pid (myproc s)), s)"

definition sys_fork :: "u64 \<Rightarrow> u64 \<Rightarrow> 'z ostate_scheme \<Rightarrow> (u64, 'z ostate_scheme) res" where
  "sys_fork trampoline forkret s = andthen (fork trampoline forkret s) (\<lambda>r s. Inr (scast r, s))"

definition sys_wait :: "'z kstate_scheme \<Rightarrow> (u64, 'z kstate_scheme) res" where
  "sys_wait s = andthen (argaddr 0 s) (\<lambda>p s. andthen (await ''wait'' (wait p s)) (\<lambda>r s. Inr (scast r, s)))"

definition sys_sbrk :: "'z kstate_scheme \<Rightarrow> (u64, 'z kstate_scheme) res" where
  "sys_sbrk s = andthen (argint 0 s) (\<lambda>n s.
     let addr = p_sz (myproc s) in
     andthen (growproc n s) (\<lambda>r s. Inr (if r < 0 then - 1 else addr, s)))"

text \<open>The loop of \<^verbatim>\<open>sys_sleep\<close>, entered and after every wake-up, with \<^verbatim>\<open>ticks0\<close> and \<^verbatim>\<open>n\<close>.\<close>

definition sleep_from :: "u32 \<Rightarrow> u32 \<Rightarrow> 'z ostate_scheme \<Rightarrow> ((u32 \<times> u32, u64) act, 'z ostate_scheme) res" where
  "sleep_from ticks0 n s =
     (if ticks s - ticks0 < n then
        (if p_killed (myproc s) then Inr (Fin (- 1), s) else Inr (Asleep ChTicks (ticks0, n), s))
      else Inr (Fin 0, s))"

definition sys_sleep :: "'z ostate_scheme \<Rightarrow> (u64, 'z ostate_scheme) res" where
  "sys_sleep s = andthen (argint 0 s) (\<lambda>n s.
     await ''sleep'' (sleep_from (ticks s) (if n < 0 then 0 else word_of_int n) s))"

definition sys_kill :: "'z kstate_scheme \<Rightarrow> (u64, 'z kstate_scheme) res" where
  "sys_kill s = andthen (argint 0 s) (\<lambda>pid s. case kill (word_of_int pid) s of (r, s) \<Rightarrow> Inr (word_of_int r, s))"

definition sys_uptime :: "'z ostate_scheme \<Rightarrow> (u64, 'z ostate_scheme) res" where
  "sys_uptime s = Inr (ucast (ticks s), s)"

section \<open>Dispatch (syscall.c)\<close>

definition returning :: "('a, 's) res \<Rightarrow> ('a option, 's) res" where
  "returning m = andthen m (\<lambda>v s. Inr (Some v, s))"

text \<open>The table \<^verbatim>\<open>syscalls\<close>; a number outside it is \<open>None\<close>.\<close>

definition syscalls ::
  "u64 \<Rightarrow> u64 \<Rightarrow> int \<Rightarrow> ('z ostate_scheme \<Rightarrow> (u64 option, 'z ostate_scheme) res) option" where
  "syscalls trampoline forkret num =
     (if num = 1 then Some (\<lambda>s. returning (sys_fork trampoline forkret s))
      else if num = 2 then Some sys_exit
      else if num = 3 then Some (\<lambda>s. returning (sys_wait s))
      else if num = 4 then Some (\<lambda>s. returning (sys_pipe s))
      else if num = 5 then Some (\<lambda>s. returning (sys_read s))
      else if num = 6 then Some (\<lambda>s. returning (sys_kill s))
      else if num = 7 then Some (\<lambda>s. returning (sys_exec trampoline s))
      else if num = 8 then Some (\<lambda>s. returning (sys_fstat s))
      else if num = 9 then Some (\<lambda>s. returning (sys_chdir s))
      else if num = 10 then Some (\<lambda>s. returning (sys_dup s))
      else if num = 11 then Some (\<lambda>s. returning (sys_getpid s))
      else if num = 12 then Some (\<lambda>s. returning (sys_sbrk s))
      else if num = 13 then Some (\<lambda>s. returning (sys_sleep s))
      else if num = 14 then Some (\<lambda>s. returning (sys_uptime s))
      else if num = 15 then Some (\<lambda>s. returning (sys_open s))
      else if num = 16 then Some (\<lambda>s. returning (sys_write s))
      else if num = 17 then Some (\<lambda>s. returning (sys_mknod s))
      else if num = 18 then Some (\<lambda>s. returning (sys_unlink s))
      else if num = 19 then Some (\<lambda>s. returning (sys_link s))
      else if num = 20 then Some (\<lambda>s. returning (sys_mkdir s))
      else if num = 21 then Some (\<lambda>s. returning (sys_close s))
      else if num = 22 then Some (\<lambda>s. returning (sys_mmap s))
      else if num = 23 then Some (\<lambda>s. returning (sys_munmap s))
      else None)"

text \<open>The result is whether the process goes on.\<close>

definition syscall :: "u64 \<Rightarrow> u64 \<Rightarrow> 'z ostate_scheme \<Rightarrow> (bool, 'z ostate_scheme) res" where
  "syscall trampoline forkret s =
     (let p = curproc s;
          num = sint (ucast (tf_get p (TF_a 7) s) :: u32) in
      case syscalls trampoline forkret num of
        Some f \<Rightarrow> andthen (f s) (\<lambda>r s. case r of
            None \<Rightarrow> Inr (False, s)
          | Some v \<Rightarrow> Inr (True, tf_set p (TF_a 0) v s))
      | None \<Rightarrow>
          andthen (kprintf (''%d %s: unknown sys call %d'' @ [CHR 0x0A])
            [PInt (p_pid (procs s p)), PStr (Some (takeWhile (\<lambda>c. c \<noteq> 0) (p_name (procs s p)))),
             PInt (word_of_int num)] s) (\<lambda>_ s.
          Inr (True, tf_set p (TF_a 0) (- 1) s)))"

end
