(* ===== verification/Trap.thy ===== *)
theory Trap
  imports Syscall
begin

text \<open>
  Traps (\<^verbatim>\<open>trap.c\<close> of assignment 3): system calls, device and timer interrupts, and the page faults that
  load pages of mapped files. What the hardware provides is a record of register values; the interrupt controller's
  answer is part of it, and the completion of a disk request has no effect in the model because disk
  transfers are synchronous.
\<close>

section \<open>Page faults on mapped files\<close>

definition find_trap_vma :: "u64 \<Rightarrow> nat \<Rightarrow> 'z kstate_scheme \<Rightarrow> nat option" where
  "find_trap_vma a p s = first_index (\<lambda>i. a \<ge> mapped_starting_address (p_vma (procs s p) i)
     \<and> mapped_starting_address (p_vma (procs s p) i) + 8 * PGSIZE > a) VMASIZE"

definition set_vma_slot :: "nat \<Rightarrow> nat \<Rightarrow> (vma \<Rightarrow> vma) \<Rightarrow> 'z kstate_scheme \<Rightarrow> 'z kstate_scheme" where
  "set_vma_slot p v f s = set_proc p (p_vma_update (\<lambda>w. w(v := f (w v)))) s"

text \<open>\<^verbatim>\<open>memory_mapping\<close> loads the next page of the mapping, wherever in it the fault was.\<close>

definition memory_mapping :: "nat \<Rightarrow> nat \<Rightarrow> 'z ostate_scheme \<Rightarrow> (int, 'z ostate_scheme) res" where
  "memory_mapping v p s = (case kalloc s of (mem, s) \<Rightarrow>
     if mem = 0 then andthen (kprintf (''we have out of memory!'' @ [CHR 0x0A]) [] s) (\<lambda>_ s. Inr (- 1, s))
     else
       let s = zero_page mem s; vm = p_vma (procs s p) v in
       case mapped_file vm of
         None \<Rightarrow> Inl (Undefined ''mapped_file'')
       | Some f \<Rightarrow>
         if f_ip (files s f) = None then
           andthen (kfree mem s) (\<lambda>_ s.
           andthen (kprintf (''File is not open.'' @ [CHR 0x0A]) [] s) (\<lambda>_ s. Inr (- 3, s)))
         else
           andthen (mapfile f mem (used_length vm + vma_offset vm) s) (\<lambda>_ s.
           andthen (mappages (p_pagetable (procs s p)) (mapped_starting_address vm + scast (used_length vm)) PGSIZE mem
             (scast (memory_flags vm)) s) (\<lambda>r s.
           if r \<noteq> 0 then
             andthen (kfree mem s) (\<lambda>_ s.
             andthen (kprintf ''we fail to map the page'' [] s) (\<lambda>_ s. Inr (- 3, s)))
           else Inr (0, set_vma_slot p v (used_length_update (\<lambda>l. l + ucast PGSIZE)) s))))"

definition vma_searching_trap :: "nat \<Rightarrow> 'z kstate_scheme \<Rightarrow> nat option" where
  "vma_searching_trap p s = first_index (\<lambda>i. mapped_file (p_vma (procs s p) i) = None
     \<and> mapped_length (p_vma (procs s p) i) = 0) VMASIZE"

definition memory_flag_generator_trap :: "u32 \<Rightarrow> u32" where
  "memory_flag_generator_trap map_flags =
     (let page_flags = ucast (PTE_U OR PTE_V);
          page_flags = (if map_flags AND 1 \<noteq> 0 then page_flags OR ucast PTE_R else page_flags);
          page_flags = (if map_flags AND 2 \<noteq> 0 then page_flags OR ucast PTE_W else page_flags)
      in if map_flags AND 4 \<noteq> 0 then page_flags OR ucast PTE_X else page_flags)"

text \<open>\<^verbatim>\<open>lazy_copy(parents_vma, child)\<close>, where the slot of the parent is slot \<open>v\<close> of process \<open>q\<close>.\<close>

definition lazy_copy :: "nat \<Rightarrow> nat \<Rightarrow> nat \<Rightarrow> 'z ostate_scheme \<Rightarrow> (int, 'z ostate_scheme) res" where
  "lazy_copy q v p s = (case vma_searching_trap p s of
       None \<Rightarrow> Inl (Undefined ''child_vma'')
     | Some w \<Rightarrow>
         let pv = p_vma (procs s q) v;
             s = set_vma_slot p w (\<lambda>c. c\<lparr>mapped_file := mapped_file pv, memory_flags := memory_flags pv,
               mapped_flags := mapped_flags pv, mapped_length := mapped_length pv,
               mapped_starting_address := mapped_starting_address pv, max_page_length := max_page_length pv,
               vma_offset := vma_offset pv, used_length := 0\<rparr>) s
         in case mapped_file pv of
              None \<Rightarrow> Inl (Undefined ''mapped_file'')
            | Some f \<Rightarrow> andthen (filedup f s) (\<lambda>_ s. memory_mapping w p s))"

section \<open>Interrupts\<close>

record hw =
  hw_spp :: bool          \<comment> \<open>SSTATUS_SPP: the trap came from supervisor mode\<close>
  hw_sie :: bool          \<comment> \<open>SSTATUS_SIE: interrupts are enabled\<close>
  hw_sepc :: u64
  hw_scause :: u64
  hw_stval :: u64
  hw_irq :: u32           \<comment> \<open>what plic_claim answers\<close>
  hw_hart :: u64          \<comment> \<open>the register tp\<close>
  hw_satp :: u64

definition UART0_IRQ :: u32 where "UART0_IRQ = 10"
definition VIRTIO0_IRQ :: u32 where "VIRTIO0_IRQ = 1"

definition clockintr :: "'z ostate_scheme \<Rightarrow> 'z ostate_scheme" where
  "clockintr s = wakeup ChTicks (s\<lparr>ticks := ticks s + 1\<rparr>)"

definition devintr :: "hw \<Rightarrow> 'z ostate_scheme \<Rightarrow> (nat, 'z ostate_scheme) res" where
  "devintr h s =
     (let scause = hw_scause h in
      if scause AND 0x8000000000000000 \<noteq> 0 \<and> scause AND 0xff = 9 then
        andthen
          (if hw_irq h = UART0_IRQ then uartintr s
           else if hw_irq h = VIRTIO0_IRQ then Inr ((), s)
           else if hw_irq h \<noteq> 0 then kprintf (''unexpected interrupt irq=%d'' @ [CHR 0x0A]) [PInt (hw_irq h)] s
           else Inr ((), s)) (\<lambda>_ s. Inr (1, s))
      else if scause = 0x8000000000000001 then
        Inr (2, if hw_hart h = 0 then clockintr s else s)
      else Inr (0, s))"

section \<open>Traps from user space\<close>

definition MAKE_SATP :: "u64 \<Rightarrow> u64" where
  "MAKE_SATP pagetable = push_bit 60 8 OR drop_bit 12 pagetable"

text \<open>
  \<^verbatim>\<open>usertrapret\<close>: the trap frame for the next trap; the result is the program counter and the
  page-table register user mode resumes with. \<open>usertrap_addr\<close> is the address of \<^verbatim>\<open>usertrap\<close>.
\<close>

definition usertrapret :: "u64 \<Rightarrow> hw \<Rightarrow> 'z kstate_scheme \<Rightarrow> (u64 \<times> u64) \<times> 'z kstate_scheme" where
  "usertrapret usertrap_addr h s =
     (let p = curproc s;
          s = tf_set p TF_kernel_satp (hw_satp h) s;
          s = tf_set p TF_kernel_sp (p_kstack (procs s p) + PGSIZE) s;
          s = tf_set p TF_kernel_trap usertrap_addr s;
          s = tf_set p TF_kernel_hartid (hw_hart h) s
      in ((tf_get p TF_epc s, MAKE_SATP (p_pagetable (procs s p))), s))"

text \<open>How a trap ends: back in user mode, with the processor given up, or with the process gone.\<close>

datatype trapout = Resumes | Yields | Exits

text \<open>The page-fault branch. A fault outside every mapping looks at the parent's slots.\<close>

definition usertrap_fault :: "hw \<Rightarrow> 'z ostate_scheme \<Rightarrow> (bool, 'z ostate_scheme) res" where
  "usertrap_fault h s =
     (let p = curproc s; va = hw_stval h in
      case find_trap_vma va p s of
        None \<Rightarrow>
          (case p_parent (procs s p) of
             None \<Rightarrow> Inl (Undefined ''p->parent'')
           | Some q \<Rightarrow>
               (case find_trap_vma va q s of
                  None \<Rightarrow> Inl (Undefined ''trap_vma'')
                | Some v \<Rightarrow> andthen (lazy_copy q v p s) (\<lambda>_ s. Inr (True, s))))
      | Some v \<Rightarrow>
          andthen (memory_mapping v p s) (\<lambda>r s.
          if r \<noteq> 0 then
            andthen (kprintf (''handeling falied'' @ [CHR 0x0A]) [] s) (\<lambda>_ s.
            andthen (exit (- 1) s) (\<lambda>_ s. Inr (False, s)))
          else Inr (True, s)))"

definition usertrap_err :: "hw \<Rightarrow> 'z ostate_scheme \<Rightarrow> (unit, 'z ostate_scheme) res" where
  "usertrap_err h s =
     andthen (kprintf (''usertrap(): unexpected scause %p pid=%d'' @ [CHR 0x0A])
       [PPtr (hw_scause h), PInt (p_pid (myproc s))] s) (\<lambda>_ s.
     andthen (kprintf (''            sepc=%p stval=%p'' @ [CHR 0x0A]) [PPtr (hw_sepc h), PPtr (hw_stval h)] s) (\<lambda>_ s.
     Inr ((), setkilled (curproc s) s)))"

text \<open>The end of \<^verbatim>\<open>usertrap\<close>.\<close>

definition usertrap_end :: "nat \<Rightarrow> 'z ostate_scheme \<Rightarrow> (trapout, 'z ostate_scheme) res" where
  "usertrap_end which_dev s =
     (if p_killed (myproc s) then andthen (exit (- 1) s) (\<lambda>_ s. Inr (Exits, s))
      else if which_dev = 2 then andthen (yield s) (\<lambda>_ s. Inr (Yields, s))
      else Inr (Resumes, s))"

definition usertrap :: "u64 \<Rightarrow> u64 \<Rightarrow> hw \<Rightarrow> 'z ostate_scheme \<Rightarrow> (trapout, 'z ostate_scheme) res" where
  "usertrap trampoline forkret h s =
     (if hw_spp h then Inl (Panic ''usertrap: not from user mode'')
      else
        let p = curproc s; s = tf_set p TF_epc (hw_sepc h) s in
        if hw_scause h = 8 then
          (if p_killed (myproc s) then andthen (exit (- 1) s) (\<lambda>_ s. Inr (Exits, s))
           else
             let s = tf_set p TF_epc (tf_get p TF_epc s + 4) s in
             andthen (syscall trampoline forkret s) (\<lambda>goes_on s.
             if \<not> goes_on then Inr (Exits, s) else usertrap_end 0 s))
        else
          andthen (devintr h s) (\<lambda>which_dev s.
          if which_dev \<noteq> 0 then usertrap_end which_dev s
          else if hw_scause h = 13 \<or> hw_scause h = 15 then
            andthen (usertrap_fault h s) (\<lambda>goes_on s.
            if \<not> goes_on then Inr (Exits, s) else usertrap_end 0 s)
          else andthen (usertrap_err h s) (\<lambda>_ s. usertrap_end 0 s)))"

section \<open>Traps from the kernel\<close>

definition kerneltrap :: "hw \<Rightarrow> 'z ostate_scheme \<Rightarrow> (trapout, 'z ostate_scheme) res" where
  "kerneltrap h s =
     (if \<not> hw_spp h then Inl (Panic ''kerneltrap: not from supervisor mode'')
      else if hw_sie h then Inl (Panic ''kerneltrap: interrupts enabled'')
      else andthen (devintr h s) (\<lambda>which_dev s.
        if which_dev = 0 then
          andthen (kprintf (''scause %p'' @ [CHR 0x0A]) [PPtr (hw_scause h)] s) (\<lambda>_ s.
          andthen (kprintf (''sepc=%p stval=%p'' @ [CHR 0x0A]) [PPtr (hw_sepc h), PPtr (hw_stval h)] s) (\<lambda>_ s.
          Inl (Panic ''kerneltrap'')))
        else if which_dev = 2 \<and> p_state (myproc s) = RUNNING then andthen (yield s) (\<lambda>_ s. Inr (Yields, s))
        else Inr (Resumes, s)))"

text \<open>\<^verbatim>\<open>forkret\<close>: the first process initialises the file system; \<open>first\<close> is its static variable.\<close>

definition forkret_body :: "bool \<Rightarrow> u64 \<Rightarrow> hw \<Rightarrow> 'z fstate_scheme \<Rightarrow> (bool \<times> u64 \<times> u64, 'z fstate_scheme) res" where
  "forkret_body first usertrap_addr h s =
     andthen (if first then fsinit ROOTDEV s else Inr ((), s)) (\<lambda>_ s.
     case usertrapret usertrap_addr h s of (r, s) \<Rightarrow> Inr ((False, r), s))"

end
