(* ===== verification/Frame.thy ===== *)
theory Frame
  imports Trap
begin

text \<open>
  What kernel operations leave alone. The locale \<open>frame\<close> takes a property of the state that survives a
  write to memory, to the buffers, the disk, the log, the inode table, the devices, and the waking of
  sleeping processes; every operation of the lower layers keeps it. Instances are given where a
  property of the process table or of the open files is proved.
\<close>

definition keeps :: "('s \<Rightarrow> bool) \<Rightarrow> ('a, 's) res \<Rightarrow> bool" where
  "keeps P m \<longleftrightarrow> (\<forall>x s. m = Inr (x, s) \<longrightarrow> P s)"

named_theorems keeps \<open>operations that keep a property of the state\<close>

lemma keeps_Inr_snd [keeps]: "P (snd r) \<Longrightarrow> keeps P (Inr r)"
  by (cases r) (simp add: keeps_def)

lemma keeps_Inr [keeps]: "P s \<Longrightarrow> keeps P (Inr (x, s))"
  and keeps_Inl [keeps]: "keeps P (Inl e)"
  and keeps_andthen [keeps]: "keeps P m \<Longrightarrow> (\<And>x s. P s \<Longrightarrow> keeps P (f x s)) \<Longrightarrow> keeps P (andthen m f)"
  and keepsD: "keeps P m \<Longrightarrow> m = Inr (x, s) \<Longrightarrow> P s"
  by (auto simp: keeps_def andthen_Inr_iff)

lemma keeps_seq: "keeps P m \<Longrightarrow> (\<And>x s. P s \<Longrightarrow> keeps Q (f x s)) \<Longrightarrow> keeps Q (andthen m f)"
  by (auto simp: keeps_def andthen_Inr_iff)

lemma keeps_if [keeps]: "(b \<Longrightarrow> keeps P m) \<Longrightarrow> (\<not> b \<Longrightarrow> keeps P m') \<Longrightarrow> keeps P (if b then m else m')"
  by simp

lemma keeps_option [keeps]:
  "(r = None \<Longrightarrow> keeps P m) \<Longrightarrow> (\<And>y. r = Some y \<Longrightarrow> keeps P (f y)) \<Longrightarrow> keeps P (case r of None \<Rightarrow> m | Some y \<Rightarrow> f y)"
  by (simp split: option.split)

lemma keeps_let [keeps]: "(\<And>x. keeps P (f x)) \<Longrightarrow> keeps P (Let v f)"
  by (simp add: Let_def)

lemma keeps_let_state [keeps]: "P v \<Longrightarrow> (\<And>x. P x \<Longrightarrow> keeps P (f x)) \<Longrightarrow> keeps P (Let v f)"
  by (simp add: Let_def)

lemma keeps_act [keeps]:
  "(\<And>r. a = Fin r \<Longrightarrow> keeps P (f r)) \<Longrightarrow> (\<And>ch x. a = Asleep ch x \<Longrightarrow> keeps P (g ch x)) \<Longrightarrow>
   keeps P (case a of Fin r \<Rightarrow> f r | Asleep ch x \<Rightarrow> g ch x)"
  by (simp split: act.split)

lemma keeps_loop [keeps]:
  assumes "P s" and "\<And>x s. P s \<Longrightarrow> keeps P (b x s)"
  shows "keeps P (loop n b x s)"
  using assms(1)
proof (induction n arbitrary: x s)
  case 0
  then show ?case by (simp add: keeps_def)
next
  case (Suc n)
  have b: "keeps P (b x s)" using assms(2) Suc.prems by blast
  show ?case unfolding loop.simps
    by (rule keeps_andthen [OF b]) (auto split: ctl.split intro: keeps_Inr Suc.IH)
qed

lemma keeps_await [keeps]: "keeps P m \<Longrightarrow> keeps P (await name m)"
  unfolding await_def by (rule keeps_andthen, assumption) (auto split: act.split intro: keeps)

locale frame =
  fixes P :: "'z ostate_scheme \<Rightarrow> bool"
  assumes pmem [keeps]: "P s \<Longrightarrow> P (s\<lparr>pmem := m\<rparr>)"
    and freelist [keeps]: "P s \<Longrightarrow> P (s\<lparr>freelist := a\<rparr>)"
    and bufs [keeps]: "P s \<Longrightarrow> P (s\<lparr>bufs := bf\<rparr>)"
    and disk [keeps]: "P s \<Longrightarrow> P (s\<lparr>disk := d, dtrace := tr\<rparr>)"
    and lh_n [keeps]: "P s \<Longrightarrow> P (s\<lparr>lh_n := n\<rparr>)"
    and lh_block [keeps]: "P s \<Longrightarrow> P (s\<lparr>lh_block := blk\<rparr>)"
    and outstanding [keeps]: "P s \<Longrightarrow> P (s\<lparr>log_outstanding := n\<rparr>)"
    and committing [keeps]: "P s \<Longrightarrow> P (s\<lparr>log_committing := c\<rparr>)"
    and log_place [keeps]: "P s \<Longrightarrow> P (s\<lparr>log_start := l, log_size := n, log_dev := dv\<rparr>)"
    and sb [keeps]: "P s \<Longrightarrow> P (s\<lparr>sb := b\<rparr>)"
    and itable [keeps]: "P s \<Longrightarrow> P (s\<lparr>itable := it\<rparr>)"
    and wakeup [keeps]: "P s \<Longrightarrow> P (wakeup ch s)"
begin

lemma cond [keeps]: "P a \<Longrightarrow> P b \<Longrightarrow> P (if c then a else b)"
  by simp

text \<open>Pages and page tables.\<close>

lemma kalloc [keeps]: "P s \<Longrightarrow> P (snd (kalloc s))"
  unfolding kalloc_def Let_def snd_conv by (assumption | rule keeps)+

lemma kfree [keeps]: "P s \<Longrightarrow> keeps P (kfree pa s)"
  unfolding kfree_def Let_def by (assumption | rule keeps)+

lemma store_pte [keeps]: "P s \<Longrightarrow> P (store_pte a v s)"
  unfolding store_pte_def by (rule keeps)

lemma zero_page [keeps]: "P s \<Longrightarrow> P (zero_page a s)"
  unfolding zero_page_def by (rule keeps)

lemma walk_loop [keeps]: "P s \<Longrightarrow> P (snd (walk_loop l pt va al s))"
proof (induction l arbitrary: pt s)
  case (Suc l)
  then show ?case by (cases al) (simp_all add: Let_def case_prod_beta keeps)
qed simp

lemma walk [keeps]: "P s \<Longrightarrow> keeps P (walk pt va al s)"
  using walk_loop [of s 2 pt va al] by (auto simp: walk_def keeps_def)

lemma mappages [keeps]: "P s \<Longrightarrow> keeps P (mappages pt va sz pa perm s)"
  unfolding mappages_def mappages_step_def case_prod_beta by (assumption | rule keeps)+

lemma uvmunmap [keeps]: "P s \<Longrightarrow> keeps P (uvmunmap pt va n fr s)"
  unfolding uvmunmap_def uvmunmap_step_def by (assumption | rule keeps)+

lemma uvmcreate [keeps]: "P s \<Longrightarrow> P (snd (uvmcreate s))"
  unfolding uvmcreate_def Let_def case_prod_beta by (simp add: keeps)

lemma uvmdealloc [keeps]: "P s \<Longrightarrow> keeps P (uvmdealloc pt a b s)"
  unfolding uvmdealloc_def by (assumption | rule keeps)+

lemma uvmalloc [keeps]: "P s \<Longrightarrow> keeps P (uvmalloc pt a b x s)"
  unfolding uvmalloc_def uvmalloc_step_def case_prod_beta by (assumption | rule keeps)+

lemma freewalk_loop: "(\<And>pt s. P s \<Longrightarrow> keeps P (rec pt s)) \<Longrightarrow> P s \<Longrightarrow> keeps P (freewalk_loop rec is pt s)"
  by (induction "is" arbitrary: s) (auto simp: Let_def intro!: keeps)

lemma freewalk [keeps]: "P s \<Longrightarrow> keeps P (freewalk pt s)"
proof -
  have "P s \<Longrightarrow> keeps P (freewalk_depth n pt s)" for n
    by (induction n arbitrary: pt s) (auto intro!: keeps freewalk_loop)
  then show "P s \<Longrightarrow> keeps P (freewalk pt s)" by (simp add: freewalk_def)
qed

lemma uvmfree [keeps]: "P s \<Longrightarrow> keeps P (uvmfree pt sz s)"
  unfolding uvmfree_def by (assumption | rule keeps)+

lemma uvmcopy [keeps]: "P s \<Longrightarrow> keeps P (uvmcopy old new sz s)"
  unfolding uvmcopy_def uvmcopy_step_def uvmcopy_err_def case_prod_beta by (assumption | rule keeps)+

lemma uvmclear [keeps]: "P s \<Longrightarrow> keeps P (uvmclear pt va s)"
  unfolding uvmclear_def by (assumption | rule keeps)+

lemma copyout [keeps]: "P s \<Longrightarrow> keeps P (copyout pt va src so len s)"
  unfolding copyout_def copyout_step_def case_prod_beta by (assumption | rule keeps)+

lemma copyin [keeps]: "P s \<Longrightarrow> keeps P (copyin pt dst d va len s)"
  unfolding copyin_def copyin_step_def case_prod_beta by (assumption | rule keeps)+

lemma copyinstr [keeps]: "P s \<Longrightarrow> keeps P (copyinstr pt dst d va mx s)"
  unfolding copyinstr_def copyinstr_step_def case_prod_beta by (assumption | rule keeps)+

lemma either_copyout [keeps]: "P s \<Longrightarrow> keeps P (either_copyout u loc src so len s)"
  by (cases u) (auto intro!: keeps)

lemma either_copyin [keeps]: "P s \<Longrightarrow> keeps P (either_copyin dst d u loc len s)"
  by (cases u) (auto intro!: keeps)

text \<open>The buffer cache.\<close>

lemma acquiresleep [keeps]: "P s \<Longrightarrow> keeps P (acquiresleep l s)"
  unfolding acquiresleep_def by (assumption | rule keeps)+

lemma releasesleep [keeps]: "P s \<Longrightarrow> P (snd (releasesleep ch l s))"
  unfolding releasesleep_def snd_conv by (rule keeps)

lemma set_buf [keeps]: "P s \<Longrightarrow> P (set_buf i f s)" and modify_data [keeps]: "P s \<Longrightarrow> P (modify_data i g s)"
  unfolding set_buf_def modify_data_def by (rule keeps, assumption)+

lemma bread [keeps]: "P s \<Longrightarrow> keeps P (bread d b s)"
  unfolding bread_def bget_def lock_buf_def disk_read_def by (assumption | rule keeps)+

lemma bwrite [keeps]: "P s \<Longrightarrow> keeps P (bwrite b s)"
  unfolding bwrite_def disk_write_def by (assumption | rule keeps)+

lemma brelse [keeps]: "P s \<Longrightarrow> keeps P (brelse b s)"
  unfolding brelse_def unlock_buf_def case_prod_beta by (assumption | rule keeps)+

lemma bpin [keeps]: "P s \<Longrightarrow> P (bpin b s)" and bunpin [keeps]: "P s \<Longrightarrow> P (bunpin b s)"
  unfolding bpin_def bunpin_def by (rule keeps, assumption)+

text \<open>The log.\<close>

lemma install_trans [keeps]: "P s \<Longrightarrow> keeps P (install_trans rec s)"
proof -
  have "P s \<Longrightarrow> keeps P (install_loop rec ts s)" for ts
    by (induction ts arbitrary: s) (auto simp: install_one_def intro!: keeps)
  then show "P s \<Longrightarrow> keeps P (install_trans rec s)" by (simp add: install_trans_def)
qed

lemma lh_pair: "P s \<Longrightarrow> P (s\<lparr>lh_n := n, lh_block := blk\<rparr>)"
  by (drule lh_n [of _ n], drule lh_block [of _ blk]) simp

lemma read_head [keeps]: "P s \<Longrightarrow> keeps P (read_head s)"
  unfolding read_head_def by (assumption | rule keeps lh_pair)+

lemma write_head [keeps]: "P s \<Longrightarrow> keeps P (write_head s)"
  unfolding write_head_def by (assumption | rule keeps)+

lemma recover_from_log [keeps]: "P s \<Longrightarrow> keeps P (recover_from_log s)"
  unfolding recover_from_log_def by (assumption | rule keeps)+

lemma initlog [keeps]: "P s \<Longrightarrow> keeps P (initlog d a n s)"
  unfolding initlog_def by (assumption | rule keeps)+

lemma begin_op [keeps]: "P s \<Longrightarrow> keeps P (begin_op s)"
  unfolding begin_op_def by (assumption | rule keeps)+

lemma write_log [keeps]: "P s \<Longrightarrow> keeps P (write_log s)"
proof -
  have "P s \<Longrightarrow> keeps P (write_log_loop ts s)" for ts
    by (induction ts arbitrary: s) (auto simp: write_log_one_def intro!: keeps)
  then show "P s \<Longrightarrow> keeps P (write_log s)" by (simp add: write_log_def)
qed

lemma commit [keeps]: "P s \<Longrightarrow> keeps P (commit s)"
  unfolding commit_def by (assumption | rule keeps)+

lemma end_op [keeps]: "P s \<Longrightarrow> keeps P (end_op s)"
  unfolding end_op_def by (assumption | rule keeps)+

lemma log_write [keeps]: "P s \<Longrightarrow> keeps P (log_write b s)"
  unfolding log_write_def by (assumption | rule keeps)+

text \<open>The file system.\<close>

lemma set_inode [keeps]: "P s \<Longrightarrow> P (set_inode ip f s)" and set_addr [keeps]: "P s \<Longrightarrow> P (set_addr ip i a s)"
  unfolding set_inode_def set_addr_def by (rule keeps, assumption)+

lemma readsb [keeps]: "P s \<Longrightarrow> keeps P (readsb d s)"
  unfolding readsb_def by (assumption | rule keeps)+

lemma fsinit [keeps]: "P s \<Longrightarrow> keeps P (fsinit d s)"
  unfolding fsinit_def by (assumption | rule keeps)+

lemma bzero [keeps]: "P s \<Longrightarrow> keeps P (bzero d b s)"
  unfolding bzero_def by (assumption | rule keeps)+

lemma balloc [keeps]: "P s \<Longrightarrow> keeps P (balloc d s)"
  unfolding balloc_def balloc_step_def by (assumption | rule keeps)+

lemma bfree [keeps]: "P s \<Longrightarrow> keeps P (bfree d b s)"
  unfolding bfree_def by (assumption | rule keeps)+

lemma iget [keeps]: "P s \<Longrightarrow> keeps P (iget d n s)"
  unfolding iget_def by (assumption | rule keeps)+

lemma idup [keeps]: "P s \<Longrightarrow> P (snd (idup ip s))"
  unfolding idup_def snd_conv by (rule keeps)

lemma ialloc [keeps]: "P s \<Longrightarrow> keeps P (ialloc d t s)"
  unfolding ialloc_def ialloc_step_def by (assumption | rule keeps)+

lemma iupdate [keeps]: "P s \<Longrightarrow> keeps P (iupdate ip s)"
  unfolding iupdate_def by (assumption | rule keeps)+

lemma ilock [keeps]: "P s \<Longrightarrow> keeps P (ilock ip s)"
  unfolding ilock_def by (assumption | rule keeps)+

lemma unlock_inode [keeps]: "P s \<Longrightarrow> P (unlock_inode ip s)"
  unfolding unlock_inode_def case_prod_beta by (assumption | rule keeps)+

lemma iunlock [keeps]: "P s \<Longrightarrow> keeps P (iunlock ip s)"
  unfolding iunlock_def by (assumption | rule keeps)+

lemma addr_slot [keeps]: "P s \<Longrightarrow> keeps P (addr_slot ip i s)"
  unfolding addr_slot_def by (assumption | rule keeps)+

lemma addr_entry [keeps]: "P s \<Longrightarrow> keeps P (addr_entry d a j s)"
  unfolding addr_entry_def by (assumption | rule keeps)+

lemma addr_entry2 [keeps]: "P s \<Longrightarrow> keeps P (addr_entry2 d a j s)"
  unfolding addr_entry2_def by (assumption | rule keeps)+

lemma bmap [keeps]: "P s \<Longrightarrow> keeps P (bmap ip b s)"
  unfolding bmap_def by (assumption | rule keeps)+

lemma itrunc_direct [keeps]: "P s \<Longrightarrow> keeps P (itrunc_direct is ip s)"
  by (induction "is" arbitrary: s) (auto intro!: keeps)

lemma itrunc_entries [keeps]: "P s \<Longrightarrow> keeps P (itrunc_entries js d bp s)"
  by (induction js arbitrary: s) (auto simp: Let_def intro!: keeps)

lemma itrunc_entries2 [keeps]: "P s \<Longrightarrow> keeps P (itrunc_entries2 js d bp s)"
  by (induction js arbitrary: s) (auto simp: Let_def simp del: upt_Suc intro!: keeps)

lemma itrunc [keeps]: "P s \<Longrightarrow> keeps P (itrunc ip s)"
  unfolding itrunc_def itrunc_indirect_def itrunc_double_def by (assumption | rule keeps)+

lemma iput [keeps]: "P s \<Longrightarrow> keeps P (iput ip s)"
  unfolding iput_def by (assumption | rule keeps)+

lemma iunlockput [keeps]: "P s \<Longrightarrow> keeps P (iunlockput ip s)"
  unfolding iunlockput_def by (assumption | rule keeps)+

lemma readi [keeps]: "P s \<Longrightarrow> keeps P (readi ip u loc off n s)"
  unfolding readi_def readi_step_def case_prod_beta by (assumption | rule keeps)+

lemma writei [keeps]: "P s \<Longrightarrow> keeps P (writei ip u loc off n s)"
  unfolding writei_def writei_step_def case_prod_beta by (assumption | rule keeps)+

lemma dirlookup [keeps]: "P s \<Longrightarrow> keeps P (dirlookup dp nm s)"
  unfolding dirlookup_def dirlookup_step_def read_dirent_def case_prod_beta by (assumption | rule keeps)+

lemma dirlink [keeps]: "P s \<Longrightarrow> keeps P (dirlink dp nm i s)"
  unfolding dirlink_def dirlink_step_def read_dirent_def case_prod_beta by (assumption | rule keeps)+

lemma namex [keeps]: "P s \<Longrightarrow> keeps P (namex path np nm s)"
  unfolding namex_def namex_step_def case_prod_beta by (assumption | rule keeps)+

lemma namei [keeps]: "P s \<Longrightarrow> keeps P (namei path s)"
  unfolding namei_def case_prod_beta by (assumption | rule keeps)+

lemma nameiparent [keeps]: "P s \<Longrightarrow> keeps P (nameiparent path nm s)"
  unfolding nameiparent_def by (assumption | rule keeps)+

text \<open>Page tables of processes.\<close>

lemma proc_pagetable [keeps]: "P s \<Longrightarrow> keeps P (proc_pagetable tr p s)"
  unfolding proc_pagetable_def case_prod_beta by (assumption | rule keeps)+

lemma proc_freepagetable [keeps]: "P s \<Longrightarrow> keeps P (proc_freepagetable pt sz s)"
  unfolding proc_freepagetable_def by (assumption | rule keeps)+

lemma tf_set [keeps]: "P s \<Longrightarrow> P (tf_set p off v s)"
  unfolding tf_set_def by (rule keeps)

end

text \<open>With files and pipes, closing a file keeps the property too.\<close>

locale file_frame = frame P for P :: "'z ostate_scheme \<Rightarrow> bool" +
  assumes files [keeps]: "P s \<Longrightarrow> P (s\<lparr>files := fs\<rparr>)"
    and pipes [keeps]: "P s \<Longrightarrow> P (s\<lparr>pipes := ps\<rparr>)"
begin

lemma set_file [keeps]: "P s \<Longrightarrow> P (set_file f g s)" and set_pipe [keeps]: "P s \<Longrightarrow> P (set_pipe q h s)"
  unfolding set_file_def set_pipe_def by (rule keeps, assumption)+

lemma filedup [keeps]: "P s \<Longrightarrow> keeps P (filedup f s)"
  unfolding filedup_def by (assumption | rule keeps)+

lemma pipeclose [keeps]: "P s \<Longrightarrow> keeps P (pipeclose q w s)"
  unfolding pipeclose_def by (assumption | rule keeps)+

lemma fileclose [keeps]: "P s \<Longrightarrow> keeps P (fileclose f s)"
  unfolding fileclose_def by (assumption | rule keeps)+

end

end
