(* ===== verification/Procprop.thy ===== *)
theory Procprop
  imports Frame
begin

text \<open>
  What processes can rely on: the scheduler is fair, an exiting process leaves no children behind and wakes
  its parent, and the process table stays well formed.
\<close>

section \<open>Fairness of the scheduler\<close>

lemma next_runnable_SomeD:
  assumes "next_runnable pos s = Some p"
  obtains k where "k < NPROC" "p = (pos + 1 + k) mod NPROC" "p_state (procs s p) = RUNNABLE"
    "\<forall>j<k. p_state (procs s ((pos + 1 + j) mod NPROC)) \<noteq> RUNNABLE"
proof -
  obtain k where k: "first_index (\<lambda>k. p_state (procs s ((pos + 1 + k) mod NPROC)) = RUNNABLE) NPROC = Some k"
    "p = (pos + 1 + k) mod NPROC"
    using assms by (auto simp: next_runnable_def)
  show ?thesis using first_index_SomeD [OF k(1)] k(2) that by blast
qed

lemma mod_distance: "q < 64 \<Longrightarrow> \<exists>d<64. (a + d) mod 64 = q" for a q :: nat
proof -
  assume q: "q < 64"
  have "(a + (q + (64 - a mod 64)) mod 64) mod 64 = (a mod 64 + (q + (64 - a mod 64))) mod 64"
    by (simp only: mod_simps)
  also have "a mod 64 + (q + (64 - a mod 64)) = q + 64" using mod_less_divisor [of 64 a] by linarith
  finally have "(a + (q + (64 - a mod 64)) mod 64) mod 64 = q" using q by simp
  then show ?thesis by (intro exI [of _ "(q + (64 - a mod 64)) mod 64"]) simp
qed

lemma next_runnable_ex:
  assumes "p < NPROC" and "p_state (procs s p) = RUNNABLE"
  shows "\<exists>q. next_runnable pos s = Some q"
proof -
  obtain d where "d < 64" "(pos + 1 + d) mod 64 = p" using mod_distance [of p "pos + 1"] assms(1) by auto
  then have "\<exists>k<NPROC. p_state (procs s ((pos + 1 + k) mod NPROC)) = RUNNABLE"
    using assms(2) by (intro exI [of _ d]) simp
  then show ?thesis using first_index_Some_ex by (fastforce simp: next_runnable_def)
qed

text \<open>C22: Round-robin scheduling starves nobody: in any sequence of scheduling decisions, with
  whatever the dispatched processes do in between, a process that stays runnable is dispatched
  within \<open>NPROC\<close> decisions.\<close>

theorem round_robin:
  assumes q: "q < NPROC" and run: "\<And>i. i \<le> NPROC \<Longrightarrow> p_state (procs (st i) q) = RUNNABLE"
    and nxt: "\<And>i. i < NPROC \<Longrightarrow> next_runnable (pos i) (st i) = Some (pos (Suc i))"
  shows "\<exists>i<NPROC. pos (Suc i) = q"
proof (rule ccontr)
  assume "\<not> (\<exists>i<NPROC. pos (Suc i) = q)"
  then have no: "pos (Suc i) \<noteq> q" if "i < 64" for i using that by auto
  have "i \<le> 64 \<Longrightarrow> \<exists>d. d + i < 64 \<and> (pos i + 1 + d) mod 64 = q" for i
  proof (induction i)
    case 0
    show ?case using mod_distance [of q "pos 0 + 1"] q by simp
  next
    case (Suc i)
    then obtain d where d: "d + i < 64" "(pos i + 1 + d) mod 64 = q" by auto
    have n: "next_runnable (pos i) (st i) = Some (pos (Suc i))" using nxt [of i] Suc.prems by simp
    obtain k where k: "k < NPROC" "pos (Suc i) = (pos i + 1 + k) mod NPROC"
        "\<forall>j<k. p_state (procs (st i) ((pos i + 1 + j) mod NPROC)) \<noteq> RUNNABLE"
      using next_runnable_SomeD [OF n] by blast
    have "p_state (procs (st i) ((pos i + 1 + d) mod NPROC)) = RUNNABLE" using d(2) run [of i] Suc.prems by simp
    then have "k \<le> d" using k(3) by (meson not_le_imp_less)
    moreover have "k \<noteq> d" using k(2) d(2) no [of i] Suc.prems by auto
    ultimately have kd: "k < d" by simp
    have "(pos (Suc i) + (1 + (d - k - 1))) mod 64 = (pos i + 1 + k + (1 + (d - k - 1))) mod 64"
      unfolding k(2) by (simp only: NPROC_def mod_add_left_eq)
    also have "pos i + 1 + k + (1 + (d - k - 1)) = pos i + 1 + d" using kd by simp
    finally show ?case using d kd by (intro exI [of _ "d - k - 1"]) (simp add: add.assoc)
  qed
  from this [of 64] show False by auto
qed

lemma round_robin_witness: "\<exists>i<NPROC. Suc i mod 64 = 5"
proof (rule round_robin [where st = "\<lambda>_. zero_k\<lparr>procs := (\<lambda>_. zero_proc\<lparr>p_state := RUNNABLE\<rparr>)\<rparr>" and pos = "\<lambda>i. i mod 64"])
  show "next_runnable (i mod 64) (zero_k\<lparr>procs := (\<lambda>_. zero_proc\<lparr>p_state := RUNNABLE\<rparr>)\<rparr>) = Some (Suc i mod 64)" for i
    by (simp add: next_runnable_def first_index_eqI [of 0] mod_simps)
qed simp_all

section \<open>Exit and wait\<close>

lemma set_proc_sel [simp]:
  "procs (set_proc p f s) q = (if q = p then f (procs s p) else procs s q)" "curproc (set_proc p f s) = curproc s"
  "initproc (set_proc p f s) = initproc s" "pmem (set_proc p f s) = pmem s"
  by (simp_all add: set_proc_def)

lemma reparent_loop_spec:
  "distinct ps \<Longrightarrow> initproc s \<noteq> p \<Longrightarrow>
   initproc (reparent_loop ps p s) = initproc s \<and> curproc (reparent_loop ps p s) = curproc s
   \<and> (\<forall>q. p_parent (procs (reparent_loop ps p s) q) =
        (if q \<in> set ps \<and> p_parent (procs s q) = Some p then Some (initproc s) else p_parent (procs s q)))
   \<and> (\<forall>q. p_chan (procs (reparent_loop ps p s) q) = p_chan (procs s q) \<and> p_pid (procs (reparent_loop ps p s) q) = p_pid (procs s q))
   \<and> (\<forall>q. p_state (procs (reparent_loop ps p s) q) = p_state (procs s q)
        \<or> p_state (procs s q) = SLEEPING \<and> q \<noteq> curproc s \<and> p_state (procs (reparent_loop ps p s) q) = RUNNABLE)"
proof (induction ps arbitrary: s)
  case Nil
  then show ?case by simp
next
  case (Cons a ps)
  define s1 where "s1 = (if p_parent (procs s a) = Some p
      then wakeup (ChProc (initproc s)) (set_proc a (p_parent_update (\<lambda>_. Some (initproc s))) s) else s)"
  have s1: "initproc s1 = initproc s" "curproc s1 = curproc s"
      "p_parent (procs s1 q) = (if q = a \<and> p_parent (procs s a) = Some p then Some (initproc s) else p_parent (procs s q))"
      "p_chan (procs s1 q) = p_chan (procs s q)" "p_pid (procs s1 q) = p_pid (procs s q)"
      "p_state (procs s1 q) = p_state (procs s q) \<or> p_state (procs s q) = SLEEPING \<and> q \<noteq> curproc s \<and> p_state (procs s1 q) = RUNNABLE" for q
    by (auto simp: s1_def wakeup_proc_frame) (auto simp: wakeup_def split: if_splits)
  have IH: "initproc (reparent_loop ps p s1) = initproc s1 \<and> curproc (reparent_loop ps p s1) = curproc s1
   \<and> (\<forall>q. p_parent (procs (reparent_loop ps p s1) q) =
        (if q \<in> set ps \<and> p_parent (procs s1 q) = Some p then Some (initproc s1) else p_parent (procs s1 q)))
   \<and> (\<forall>q. p_chan (procs (reparent_loop ps p s1) q) = p_chan (procs s1 q) \<and> p_pid (procs (reparent_loop ps p s1) q) = p_pid (procs s1 q))
   \<and> (\<forall>q. p_state (procs (reparent_loop ps p s1) q) = p_state (procs s1 q)
        \<or> p_state (procs s1 q) = SLEEPING \<and> q \<noteq> curproc s1 \<and> p_state (procs (reparent_loop ps p s1) q) = RUNNABLE)"
    by (rule Cons.IH) (use Cons.prems s1 in auto)
  have r: "reparent_loop (a # ps) p s = reparent_loop ps p s1" by (simp add: s1_def)
  note I = IH [THEN conjunct1] IH [THEN conjunct2, THEN conjunct1] IH [THEN conjunct2, THEN conjunct2, THEN conjunct1, rule_format]
    IH [THEN conjunct2, THEN conjunct2, THEN conjunct2, THEN conjunct1, rule_format]
    IH [THEN conjunct2, THEN conjunct2, THEN conjunct2, THEN conjunct2, rule_format]
  have par: "p_parent (procs (reparent_loop ps p s1) q) =
        (if q \<in> set (a # ps) \<and> p_parent (procs s q) = Some p then Some (initproc s) else p_parent (procs s q))" for q
    unfolding I(3) s1 using Cons.prems by auto
  have st: "p_state (procs (reparent_loop ps p s1) q) = p_state (procs s q)
        \<or> p_state (procs s q) = SLEEPING \<and> q \<noteq> curproc s \<and> p_state (procs (reparent_loop ps p s1) q) = RUNNABLE" for q
    using I(5) [of q] s1(2) s1(6) [of q] by metis
  show ?case unfolding r using I(1,2,4) s1 par st by simp
qed

text \<open>It changes neither a process that is nobody's child nor one that does not sleep.\<close>

lemma reparent_loop_other:
  "p_parent (procs s q) \<noteq> Some p \<Longrightarrow> p_state (procs s q) \<noteq> SLEEPING \<Longrightarrow> procs (reparent_loop ps p s) q = procs s q"
proof (induction ps arbitrary: s)
  case (Cons a ps)
  define s1 where "s1 = (if p_parent (procs s a) = Some p
      then wakeup (ChProc (initproc s)) (set_proc a (p_parent_update (\<lambda>_. Some (initproc s))) s) else s)"
  have "procs s1 q = procs s q" using Cons.prems by (auto simp: s1_def wakeup_def)
  then show ?case using Cons.IH [of s1] Cons.prems by (simp add: s1_def [symmetric])
qed simp

lemma exit_zombie_other:
  assumes "q \<noteq> curproc s" and "p_parent (procs s q) \<noteq> Some (curproc s)" and "p_state (procs s q) \<noteq> SLEEPING"
  shows "procs (exit_zombie status s) q = procs s q"
  using assms reparent_loop_other [OF assms(2,3), of "[0..<NPROC]"]
  by (auto simp: exit_zombie_def reparent_def Let_def wakeup_def split: option.splits)

text \<open>What the end of \<^verbatim>\<open>exit\<close> does to every process: children go to init, the parent and init are woken.\<close>

lemma wakeup_state:
  "p_state (procs (wakeup ch s) q) = p_state (procs s q)
   \<or> p_state (procs s q) = SLEEPING \<and> q \<noteq> curproc s \<and> p_state (procs (wakeup ch s) q) = RUNNABLE"
  by (auto simp: wakeup_def)

lemma exit_zombie_spec:
  fixes status :: u32
  assumes ne: "curproc s \<noteq> initproc s"
  defines "t \<equiv> exit_zombie status s"
  shows "p_parent (procs t q) = (if q < NPROC \<and> p_parent (procs s q) = Some (curproc s) then Some (initproc s) else p_parent (procs s q))"
    and "p_state (procs t (curproc s)) = ZOMBIE" and "p_xstate (procs t (curproc s)) = status"
    and "p_pid (procs t q) = p_pid (procs s q)" and "p_chan (procs t q) = p_chan (procs s q)"
    and "q \<noteq> curproc s \<Longrightarrow> p_state (procs t q) = p_state (procs s q)
        \<or> p_state (procs s q) = SLEEPING \<and> p_state (procs t q) = RUNNABLE"
    and "p_parent (procs s (curproc s)) = Some q \<Longrightarrow> q < NPROC \<Longrightarrow> q \<noteq> curproc s \<Longrightarrow>
      \<not> (p_state (procs t q) = SLEEPING \<and> p_chan (procs t q) = Some (ChProc q))"
    and "initproc t = initproc s" and "curproc t = curproc s"
proof -
  let ?p = "curproc s"
  define s1 where "s1 = reparent ?p s"
  define s2 where "s2 = (case p_parent (procs s1 ?p) of None \<Rightarrow> s1 | Some q \<Rightarrow> wakeup (ChProc q) s1)"
  have t: "t = set_proc ?p (\<lambda>q. q\<lparr>p_xstate := status, p_state := ZOMBIE\<rparr>) s2"
    by (simp add: t_def exit_zombie_def Let_def s2_def s1_def cong: option.case_cong)
  have R: "initproc s1 = initproc s" "curproc s1 = ?p"
      "p_parent (procs s1 q) = (if q < NPROC \<and> p_parent (procs s q) = Some ?p then Some (initproc s) else p_parent (procs s q))"
      "p_chan (procs s1 q) = p_chan (procs s q)" "p_pid (procs s1 q) = p_pid (procs s q)"
      "p_state (procs s1 q) = p_state (procs s q) \<or> p_state (procs s q) = SLEEPING \<and> q \<noteq> ?p \<and> p_state (procs s1 q) = RUNNABLE" for q
    using reparent_loop_spec [of "[0..<NPROC]" s ?p] ne by (simp_all add: s1_def reparent_def)
  have S: "initproc s2 = initproc s" "curproc s2 = ?p" "p_parent (procs s2 q) = p_parent (procs s1 q)"
      "p_chan (procs s2 q) = p_chan (procs s1 q)" "p_pid (procs s2 q) = p_pid (procs s1 q)"
      "p_state (procs s2 q) = p_state (procs s1 q) \<or> p_state (procs s1 q) = SLEEPING \<and> q \<noteq> ?p \<and> p_state (procs s2 q) = RUNNABLE" for q
    using wakeup_state [of _ s1 q] by (auto simp: s2_def R wakeup_proc_frame split: option.splits)
  show "p_parent (procs t q) = (if q < NPROC \<and> p_parent (procs s q) = Some ?p then Some (initproc s) else p_parent (procs s q))"
    "p_state (procs t ?p) = ZOMBIE" "p_xstate (procs t ?p) = status" "p_pid (procs t q) = p_pid (procs s q)"
    "p_chan (procs t q) = p_chan (procs s q)" "initproc t = initproc s" "curproc t = curproc s"
    by (auto simp: t S R)
  show "q \<noteq> ?p \<Longrightarrow> p_state (procs t q) = p_state (procs s q)
        \<or> p_state (procs s q) = SLEEPING \<and> p_state (procs t q) = RUNNABLE"
    using R(6) [of q] S(6) [of q] by (simp add: t) metis
  assume par: "p_parent (procs s ?p) = Some q" and q: "q < NPROC" "q \<noteq> ?p"
  have "p_parent (procs s1 ?p) = Some q" using par q R(3) [of ?p] by auto
  then have "s2 = wakeup (ChProc q) s1" by (simp add: s2_def)
  then have "\<not> (p_state (procs s2 q) = SLEEPING \<and> p_chan (procs s2 q) = Some (ChProc q))"
    using wakeup_none_left [of q s1 "ChProc q"] q R(2) by simp
  then show "\<not> (p_state (procs t q) = SLEEPING \<and> p_chan (procs t q) = Some (ChProc q))"
    using q by (simp add: t)
qed

text \<open>C21: A parent that sleeps in \<^verbatim>\<open>wait\<close> cannot miss the exit of a child: when the child has exited the parent
  is runnable, and when it runs again its next round of \<^verbatim>\<open>wait\<close> does not sleep but reaps a zombie child and
  returns its process number.\<close>

theorem exit_wakes_wait:
  assumes cur: "curproc s < NPROC" "curproc s \<noteq> initproc s" and par: "p_parent (procs s (curproc s)) = Some p"
    and p: "p < NPROC" "p \<noteq> curproc s" and slp: "p_state (procs s p) = SLEEPING" "p_chan (procs s p) = Some (ChProc p)"
    and t: "t = sleep_resume (dispatch p (exit_zombie status s))"
  shows "p_state (procs (exit_zombie status s) p) = RUNNABLE
    \<and> (\<exists>c<NPROC. p_parent (procs t c) = Some p \<and> p_state (procs t c) = ZOMBIE
        \<and> wait 0 t = andthen (freeproc c t) (\<lambda>_ u. Inr (Fin (p_pid (procs t c)), u)))"
proof -
  let ?c = "curproc s" and ?e = "exit_zombie status s"
  note E = exit_zombie_spec [OF cur(2), where status = status]
  have run: "p_state (procs ?e p) = RUNNABLE"
    using E(6) [OF p(2)] E(7) [OF par p] E(5) [of p] slp by metis
  have t': "curproc t = p" "p_parent (procs t q) = p_parent (procs ?e q)"
      "q \<noteq> p \<Longrightarrow> p_state (procs t q) = p_state (procs ?e q)" for q
    by (auto simp: t sleep_resume_def dispatch_def set_proc_def)
  have "p_parent (procs t ?c) = Some p" "p_state (procs t ?c) = ZOMBIE"
    using E(1) [of ?c] E(2) par p t' by auto
  then obtain c where c: "first_index (\<lambda>q. p_parent (procs t q) = Some (curproc t) \<and> p_state (procs t q) = ZOMBIE) NPROC = Some c"
    using first_index_Some_ex [of ?c NPROC "\<lambda>q. p_parent (procs t q) = Some (curproc t) \<and> p_state (procs t q) = ZOMBIE"] cur(1) t'(1)
    by auto
  note C = first_index_SomeD [OF c]
  have "wait 0 t = andthen (freeproc c t) (\<lambda>_ u. Inr (Fin (p_pid (procs t c)), u))"
    using c by (simp add: wait_def)
  with run C t'(1) show ?thesis by auto
qed

definition family :: kstate where
  "family = zero_k\<lparr>curproc := 2, procs := (\<lambda>_. zero_proc)
     (1 := zero_proc\<lparr>p_state := SLEEPING, p_chan := Some (ChProc 1), p_pid := 2, p_parent := Some 0\<rparr>,
      2 := zero_proc\<lparr>p_state := RUNNING, p_pid := 3, p_parent := Some 1\<rparr>)\<rparr>"

lemma exit_wakes_wait_witness: "p_state (procs (exit_zombie 7 family) 1) = RUNNABLE"
  using exit_wakes_wait [of family 1 _ 7, OF _ _ _ _ _ _ _ refl] by (simp add: family_def zero_k_def)

section \<open>What happens to the process table\<close>

text \<open>
  The process table while process \<open>c\<close> runs and one slot \<open>q0\<close> is being worked on: every other slot is as in
  \<open>pr\<close>, or has been woken.
\<close>

definition woken :: "nat \<Rightarrow> nat \<Rightarrow> proc \<Rightarrow> proc \<Rightarrow> bool" where
  "woken c q a b \<longleftrightarrow> b = a \<or> q \<noteq> c \<and> p_state a = SLEEPING \<and> b = a\<lparr>p_state := RUNNABLE\<rparr>"

definition others_woken :: "nat \<Rightarrow> (proc \<Rightarrow> bool) \<Rightarrow> (nat \<Rightarrow> proc) \<Rightarrow> nat \<Rightarrow> nat \<Rightarrow> 'z ostate_scheme \<Rightarrow> bool" where
  "others_woken q0 Q pr c i s \<longleftrightarrow> curproc s = c \<and> initproc s = i \<and> (\<forall>q. q \<noteq> q0 \<longrightarrow> woken c q (pr q) (procs s q))
     \<and> Q (procs s q0) \<and> p_state (procs s q0) \<noteq> SLEEPING"

lemma woken_wakeup:
  "woken (curproc s) q a (procs s q) \<Longrightarrow> woken (curproc s) q a (procs (wakeup ch s) q)"
  by (auto simp: woken_def wakeup_def)

interpretation ow: file_frame "others_woken q0 Q pr c i" for q0 Q pr c i
proof (unfold_locales, goal_cases)
  case (12 s ch)
  have "procs (wakeup ch s) q0 = procs s q0" using 12 by (auto simp: others_woken_def wakeup_def)
  then show ?case using 12 woken_wakeup [of s] by (simp add: others_woken_def)
qed (simp_all add: others_woken_def)

lemma ow_set_proc:
  "others_woken q0 Q pr c i s \<Longrightarrow> R (f (procs s q0)) \<Longrightarrow> p_state (f (procs s q0)) \<noteq> SLEEPING \<Longrightarrow>
   others_woken q0 R pr c i (set_proc q0 f s)"
  by (auto simp: others_woken_def)

lemma ow_mono: "others_woken q0 Q pr c i s \<Longrightarrow> (\<And>x. Q x \<Longrightarrow> R x) \<Longrightarrow> others_woken q0 R pr c i s"
  by (auto simp: others_woken_def)

text \<open>A free slot with everything cleared that \<^verbatim>\<open>freeproc\<close> clears; with \<open>z\<close> it may be marked killed.\<close>

definition fresh_slot :: "bool \<Rightarrow> proc \<Rightarrow> bool" where
  "fresh_slot z x \<longleftrightarrow> p_state x = UNUSED \<and> p_parent x = None \<and> p_pid x = 0 \<and> p_trapframe x = 0 \<and> p_pagetable x = 0
     \<and> p_sz x = 0 \<and> p_chan x = None \<and> p_xstate x = 0 \<and> (p_name x = [] \<or> p_name x ! 0 = 0) \<and> (z \<or> \<not> p_killed x)"

lemma fresh_slotD: "fresh_slot z x \<Longrightarrow> p_state x = UNUSED \<and> p_parent x = None \<and> p_pid x = 0"
  by (simp add: fresh_slot_def)

lemma freeproc_ow:
  assumes "others_woken p Q pr c i s"
  shows "keeps (others_woken p (fresh_slot z) pr c i) (freeproc p s)"
proof -
  let ?N = "others_woken p (\<lambda>x. p_trapframe x = 0) pr c i"
  have any: "others_woken p (\<lambda>_. True) pr c i s" using assms by (rule ow_mono) simp
  have st: "?N (set_proc p (p_trapframe_update (\<lambda>_. 0)) t)"
    if "others_woken p (\<lambda>_. True) pr c i t" for t :: "'a ostate_scheme"
    by (rule ow_set_proc [OF that]) (use that in \<open>auto simp: others_woken_def\<close>)
  have "p_name x = [] \<or> (p_name x)[0 := 0] ! 0 = 0" for x by (cases "p_name x") simp_all
  then have fin: "others_woken p (fresh_slot z) pr c i (set_proc p (\<lambda>q. q\<lparr>p_pagetable := 0, p_sz := 0, p_pid := 0, p_parent := None,
       p_name := (p_name q)[0 := 0], p_chan := None, p_killed := False, p_xstate := 0, p_state := UNUSED\<rparr>) t)"
    if "?N t" for t :: "'a ostate_scheme"
    by (intro ow_set_proc [OF that]) (use that in \<open>simp_all add: fresh_slot_def others_woken_def\<close>)
  have m1: "keeps (others_woken p (\<lambda>_. True) pr c i)
      (if p_trapframe (procs s p) \<noteq> 0 then kfree (p_trapframe (procs s p)) s else Inr ((), s))"
    by (rule keeps any)+
  have m2: "keeps ?N (if b then proc_freepagetable pt sz t else Inr ((), t))"
    if "?N t" for t :: "'a ostate_scheme" and b pt sz
    by (rule keeps that)+
  show ?thesis
    unfolding freeproc_def Let_def
    by (rule keeps_seq [OF m1], rule keeps_seq [OF m2 [OF st]], assumption) (rule keeps_Inr, rule fin)
qed

lemma allocproc_ow:
  assumes "others_woken p (fresh_slot z) pr c i s" and "p_state (procs s p) = UNUSED"
    and fi: "first_index (\<lambda>q. p_state (procs s q) = UNUSED) NPROC = Some p"
    and r: "allocproc trampoline forkret s = Inr (x, s')"
  shows "x = None \<and> others_woken p (fresh_slot z) pr c i s'
    \<or> x = Some p \<and> others_woken p (\<lambda>x. p_state x = USED \<and> p_parent x = None) pr c i s'"
proof -
  let ?U = "others_woken p (\<lambda>x. p_state x = USED \<and> p_parent x = None) pr c i"
  define s1 where "s1 = set_proc p (\<lambda>q. q\<lparr>p_pid := nextpid s, p_state := USED\<rparr>) (s\<lparr>nextpid := nextpid s + 1\<rparr>)"
  have s1: "?U s1" using assms(1) by (auto simp: s1_def others_woken_def dest: fresh_slotD)
  define s2 where "s2 = set_proc p (p_trapframe_update (\<lambda>_. fst (kalloc s1))) (snd (kalloc s1))"
  have k: "?U (snd (kalloc s1))" by (rule keeps s1)+
  have s2: "?U s2" unfolding s2_def by (rule ow_set_proc [OF k]) (use k in \<open>auto simp: others_woken_def\<close>)
  have e: "allocproc trampoline forkret s = (if fst (kalloc s1) = 0 then andthen (freeproc p s2) (\<lambda>_ s. Inr (None, s))
      else andthen (proc_pagetable trampoline p s2) (\<lambda>pt s.
               let s = set_proc p (p_pagetable_update (\<lambda>_. pt)) s in
               if pt = 0 then andthen (freeproc p s) (\<lambda>_ s. Inr (None, s))
               else Inr (Some p, set_proc p (\<lambda>q. q\<lparr>p_context :=
                 zero_context\<lparr>ctx_ra := forkret, ctx_sp := p_kstack q + PGSIZE\<rparr>\<rparr>) s)))"
    unfolding allocproc_def fi option.case allocpid_def prod.case s1_def s2_def by (simp add: Let_def case_prod_beta)
  have up: "?U (set_proc p f t)" if "?U t" "\<And>x. p_state (f x) = p_state x" "\<And>x. p_parent (f x) = p_parent x" for f t
    by (rule ow_set_proc [OF that(1)]) (use that in \<open>auto simp: others_woken_def\<close>)
  show ?thesis
  proof (cases "fst (kalloc s1) = 0")
    case True
    then show ?thesis using r e freeproc_ow [OF s2] by (auto simp: andthen_Inr_iff dest: keepsD)
  next
    case False
    then obtain pt t where t: "proc_pagetable trampoline p s2 = Inr (pt, t)" using r e by (auto simp: andthen_Inr_iff)
    have "?U t" by (rule keepsD [OF _ t]) (rule keeps s2)+
    then have t1: "?U (set_proc p (p_pagetable_update (\<lambda>_. pt)) t)" by (rule up) simp_all
    show ?thesis
    proof (cases "pt = 0")
      case True
      then show ?thesis using r e False t freeproc_ow [OF t1] by (auto simp: andthen_Inr_iff dest: keepsD)
    next
      case pt: False
      have "?U (set_proc p (\<lambda>q. q\<lparr>p_context := zero_context\<lparr>ctx_ra := forkret, ctx_sp := p_kstack q + PGSIZE\<rparr>\<rparr>)
          (set_proc p (p_pagetable_update (\<lambda>_. pt)) t))"
        by (rule up [OF t1]) simp_all
      then show ?thesis using r e False t pt by auto
    qed
  qed
qed

abbreviation used_slot :: "procstate \<Rightarrow> nat option \<Rightarrow> proc \<Rightarrow> bool" where
  "used_slot st par x \<equiv> p_state x = st \<and> p_parent x = par"

lemma ow_update:
  assumes "others_woken p (used_slot st par) pr c i t" and "\<And>x. p_state (f x) = p_state x" "\<And>x. p_parent (f x) = p_parent x"
  shows "others_woken p (used_slot st par) pr c i (set_proc p f t)"
  by (rule ow_set_proc [OF assms(1)]) (use assms in \<open>auto simp: others_woken_def\<close>)

lemma set_name_sel [simp]: "p_state (set_name m a x) = p_state x" "p_parent (set_name m a x) = p_parent x"
  "p_pid (set_name m a x) = p_pid x"
  by (simp_all add: set_name_def)

lemma fork_files_ow:
  "others_woken np (used_slot st par) pr c i s \<Longrightarrow> keeps (others_woken np (used_slot st par) pr c i) (fork_files is np s)"
proof (induction "is" arbitrary: s)
  case (Cons j js)
  show ?case
  proof (cases "p_ofile (myproc s) j")
    case (Some f)
    show ?thesis unfolding fork_files.simps Some option.case
      by (rule keeps_seq [OF ow.filedup [OF Cons.prems]], rule Cons.IH, rule ow_update) simp_all
  qed (use Cons in simp)
qed (simp add: keeps)

text \<open>\<^verbatim>\<open>fork\<close> uses a free slot, if anything, and leaves it free again or holding a runnable child of the caller.\<close>

lemma fork_ow:
  assumes "\<forall>q<NPROC. p_state (procs s q) = UNUSED \<longrightarrow> fresh_slot z (procs s q)"
    and r: "fork trampoline forkret s = Inr (x, s')"
  shows "s' = s \<or> (\<exists>np<NPROC. p_state (procs s np) = UNUSED \<and>
      (others_woken np (fresh_slot z) (procs s) (curproc s) (initproc s) s'
       \<or> others_woken np (used_slot RUNNABLE (Some (curproc s))) (procs s) (curproc s) (initproc s) s'))"
proof (cases "first_index (\<lambda>q. p_state (procs s q) = UNUSED) NPROC")
  case None
  then have "allocproc trampoline forkret s = Inr (None, s)" unfolding allocproc_def by simp
  then show ?thesis using r by (simp add: fork_def)
next
  case (Some np)
  let ?OW = "\<lambda>Q. others_woken np Q (procs s) (curproc s) (initproc s)"
  have np: "np < NPROC" "p_state (procs s np) = UNUSED" using first_index_SomeD [OF Some] by auto
  have s: "?OW (fresh_slot z) s" using assms(1) np by (simp add: others_woken_def woken_def)
  obtain y s1 where a: "allocproc trampoline forkret s = Inr (y, s1)" using r by (auto simp: fork_def andthen_Inr_iff)
  note A = allocproc_ow [OF s np(2) Some a]
  show ?thesis
  proof (cases y)
    case None
    then show ?thesis using A np a r by (auto simp: fork_def)
  next
    case y: (Some np')
    then have [simp]: "np' = np" and s1: "?OW (used_slot USED None) s1" using A by auto
    let ?p = "curproc s1"
    obtain u s2 where u: "uvmcopy (p_pagetable (procs s1 ?p)) (p_pagetable (procs s1 np)) (p_sz (procs s1 ?p)) s1 = Inr (u, s2)"
      using r a y by (auto simp: fork_def Let_def andthen_Inr_iff)
    have s2: "?OW (used_slot USED None) s2" by (rule keepsD [OF ow.uvmcopy [OF s1] u])
    have cur: "?p = curproc s" using s1 by (simp add: others_woken_def)
    show ?thesis
    proof (cases "u < 0")
      case True
      then obtain w where "freeproc np s2 = Inr (w, s')" using r a y u by (auto simp: fork_def Let_def andthen_Inr_iff)
      then have "?OW (fresh_slot z) s'" by (rule keepsD [OF freeproc_ow [OF s2]])
      then show ?thesis using np by blast
    next
      case False
      define s3 where "s3 = set_proc np (p_sz_update (\<lambda>_. p_sz (procs s2 ?p))) s2"
      define s4 where "s4 = tf_set np (TF_a 0) 0 (s3\<lparr>pmem := blit (pmem s3) (unat (p_trapframe (procs s3 np)))
                 (pmem s3) (unat (p_trapframe (procs s3 ?p))) TF_size\<rparr>)"
      have s3: "?OW (used_slot USED None) s3" unfolding s3_def by (rule ow_update [OF s2]) simp_all
      have s4: "?OW (used_slot USED None) s4" unfolding s4_def by (rule ow.tf_set [OF ow.pmem [OF s3]])
      obtain v s5 where v: "fork_files [0..<NOFILE] np s4 = Inr (v, s5)"
        and rest: "(case p_cwd (procs s5 ?p) of
                None \<Rightarrow> Inl (Undefined ''cwd'')
              | Some d \<Rightarrow> (case idup d s5 of (d, s) \<Rightarrow>
                  let s = set_proc np (p_cwd_update (\<lambda>_. Some d)) s;
                      s = set_proc np (set_name (list_bytes (p_name (procs s ?p))) 0) s;
                      pid = p_pid (procs s np);
                      s = set_proc np (p_parent_update (\<lambda>_. Some ?p)) s;
                      s = set_proc np (p_state_update (\<lambda>_. RUNNABLE)) s
                  in Inr (pid, s))) = Inr (x, s')"
        using r a y u False unfolding fork_def by (simp add: Let_def andthen_Inr_iff s3_def s4_def) blast
      have s5: "?OW (used_slot USED None) s5" by (rule keepsD [OF fork_files_ow [OF s4] v])
      obtain d where d: "p_cwd (procs s5 ?p) = Some d" using rest by (auto split: option.splits)
      define s6 where "s6 = set_proc np (p_cwd_update (\<lambda>_. Some d)) (snd (idup d s5))"
      define s7 where "s7 = set_proc np (set_name (list_bytes (p_name (procs s6 ?p))) 0) s6"
      have s6: "?OW (used_slot USED None) s6" unfolding s6_def by (rule ow_update [OF ow.idup [OF s5]]) simp_all
      have s7: "?OW (used_slot USED None) s7" unfolding s7_def by (rule ow_update [OF s6]) simp_all
      have "s' = set_proc np (p_state_update (\<lambda>_. RUNNABLE)) (set_proc np (p_parent_update (\<lambda>_. Some ?p)) s7)"
        using rest by (simp add: d Let_def s7_def s6_def idup_def)
      then have "?OW (used_slot RUNNABLE (Some (curproc s))) s'"
        using s7 by (simp add: others_woken_def cur)
      then show ?thesis using np by blast
    qed
  qed
qed

lemma exit_files_ow:
  "others_woken c (used_slot st par) pr c i s \<Longrightarrow> keeps (others_woken c (used_slot st par) pr c i) (exit_files fds s)"
proof (induction fds arbitrary: s)
  case (Cons fd fds)
  show ?case
  proof (cases "p_ofile (myproc s) fd")
    case (Some f)
    have "others_woken c (used_slot st par) pr c i (set_proc (curproc t) g t)"
      if "others_woken c (used_slot st par) pr c i t" "\<And>x. p_state (g x) = p_state x" "\<And>x. p_parent (g x) = p_parent x"
      for g and t :: "'a ostate_scheme"
      using ow_update [OF that] that(1) by (auto simp: others_woken_def)
    then show ?thesis unfolding exit_files.simps Some option.case
      by (intro keeps_seq [OF ow.fileclose [OF Cons.prems]] Cons.IH) simp_all
  qed (use Cons in simp)
qed (simp add: keeps)

lemma exit_ow:
  assumes run: "p_state (procs s (curproc s)) = RUNNING" and r: "exit status s = Inr ((), s')"
  obtains t where "s' = exit_zombie status t" "curproc s \<noteq> initproc s"
    "others_woken (curproc s) (used_slot RUNNING (p_parent (procs s (curproc s)))) (procs s) (curproc s) (initproc s) t"
proof -
  let ?P = "others_woken (curproc s) (used_slot RUNNING (p_parent (procs s (curproc s)))) (procs s) (curproc s) (initproc s)"
  have ne: "curproc s \<noteq> initproc s" using r by (auto simp: exit_def)
  have s: "?P s" using run by (simp add: others_woken_def woken_def)
  obtain s1 where s1: "exit_files [0..<NOFILE] s = Inr ((), s1)"
    and r1: "andthen (begin_op s1) (\<lambda>_ s.
        andthen (case p_cwd (myproc s) of None \<Rightarrow> Inl (Undefined ''cwd'') | Some d \<Rightarrow> iput d s) (\<lambda>_ s.
        andthen (end_op s) (\<lambda>_ s.
        let s = set_proc (curproc s) (p_cwd_update (\<lambda>_. None)) s
        in sched (exit_zombie status s)))) = Inr ((), s')"
    using r ne by (auto simp: exit_def andthen_Inr_iff)
  have p1: "?P s1" by (rule keepsD [OF exit_files_ow [OF s] s1])
  obtain s2 where s2: "begin_op s1 = Inr ((), s2)"
    and r2: "andthen (case p_cwd (myproc s2) of None \<Rightarrow> Inl (Undefined ''cwd'') | Some d \<Rightarrow> iput d s2) (\<lambda>_ s.
        andthen (end_op s) (\<lambda>_ s.
        let s = set_proc (curproc s) (p_cwd_update (\<lambda>_. None)) s
        in sched (exit_zombie status s))) = Inr ((), s')"
    using r1 by (auto simp: andthen_Inr_iff)
  have p2: "?P s2" by (rule keepsD [OF ow.begin_op [OF p1] s2])
  obtain d s3 where s3: "iput d s2 = Inr ((), s3)"
    and r3: "andthen (end_op s3) (\<lambda>_ s.
        let s = set_proc (curproc s) (p_cwd_update (\<lambda>_. None)) s
        in sched (exit_zombie status s)) = Inr ((), s')"
    using r2 by (auto simp: andthen_Inr_iff split: option.splits)
  have p3: "?P s3" by (rule keepsD [OF ow.iput [OF p2] s3])
  obtain s4 where s4: "end_op s3 = Inr ((), s4)"
    and r4: "sched (exit_zombie status (set_proc (curproc s4) (p_cwd_update (\<lambda>_. None)) s4)) = Inr ((), s')"
    using r3 by (auto simp: andthen_Inr_iff Let_def)
  have p4: "?P s4" by (rule keepsD [OF ow.end_op [OF p3] s4])
  have "curproc s4 = curproc s" using p4 by (simp add: others_woken_def)
  then have "?P (set_proc (curproc s4) (p_cwd_update (\<lambda>_. None)) s4)" using ow_update [OF p4, of "p_cwd_update (\<lambda>_. None)"] by simp
  moreover have "s' = exit_zombie status (set_proc (curproc s4) (p_cwd_update (\<lambda>_. None)) s4)"
    using r4 by (simp add: sched_def split: if_splits)
  ultimately show ?thesis using that ne by blast
qed

section \<open>The process table stays well formed\<close>

abbreviation alive :: "proc \<Rightarrow> bool" where
  "alive x \<equiv> p_state x \<noteq> UNUSED \<and> p_state x \<noteq> ZOMBIE"

text \<open>
  Free slots are blank, only the current process runs, init lives, and the parent of every process lives: no
  process is orphaned, none waits for a slot that was given away.
\<close>

definition pt_ok :: "bool \<Rightarrow> 'z kstate_scheme \<Rightarrow> bool" where
  "pt_ok z s \<longleftrightarrow> curproc s < NPROC \<and> initproc s < NPROC \<and> alive (procs s (initproc s))
     \<and> (\<forall>q<NPROC. \<forall>p. p_parent (procs s q) = Some p \<longrightarrow> p < NPROC \<and> alive (procs s p))
     \<and> (\<forall>q<NPROC. p_state (procs s q) = UNUSED \<longrightarrow> fresh_slot z (procs s q))
     \<and> (\<forall>q<NPROC. p_state (procs s q) = RUNNING \<longrightarrow> q = curproc s)"

text \<open>
  A step of the kernel: a process dispatched when none runs, or an operation of the running process. Any operation of the
  lower layers changes the table as \<^verbatim>\<open>wakeup\<close> does, so wakeup stands for them. The flag says whether
  \<^verbatim>\<open>kill(0)\<close> occurs.
\<close>

inductive proc_step :: "bool \<Rightarrow> ostate \<Rightarrow> ostate \<Rightarrow> bool" where
  dispatches: "p_state (procs s (curproc s)) \<noteq> RUNNING \<Longrightarrow> next_runnable pos s = Some p \<Longrightarrow> proc_step z s (dispatch p s)"
| forks: "p_state (procs s (curproc s)) = RUNNING \<Longrightarrow> fork trampoline forkret s = Inr (r, t) \<Longrightarrow> proc_step z s t"
| exits: "p_state (procs s (curproc s)) = RUNNING \<Longrightarrow> exit status s = Inr ((), t) \<Longrightarrow> proc_step z s t"
| waits: "p_state (procs s (curproc s)) = RUNNING \<Longrightarrow> wait addr s = Inr (a, t) \<Longrightarrow> proc_step z s t"
| sleeps: "p_state (procs s (curproc s)) = RUNNING \<Longrightarrow> sleep ch s = Inr ((), t) \<Longrightarrow> proc_step z s t"
| resumes: "p_state (procs s (curproc s)) = RUNNING \<Longrightarrow> proc_step z s (sleep_resume s)"
| yields: "p_state (procs s (curproc s)) = RUNNING \<Longrightarrow> yield s = Inr ((), t) \<Longrightarrow> proc_step z s t"
| kills: "p_state (procs s (curproc s)) = RUNNING \<Longrightarrow> z \<or> pid \<noteq> 0 \<Longrightarrow> proc_step z s (snd (kill pid s))"
| faults: "p_state (procs s (curproc s)) = RUNNING \<Longrightarrow> proc_step z s (setkilled (curproc s) s)"
| wakes: "proc_step z s (wakeup ch s)"

lemma pt_okD:
  assumes "pt_ok z s"
  shows "curproc s < NPROC" "initproc s < NPROC" "alive (procs s (initproc s))"
    "q < NPROC \<Longrightarrow> p_parent (procs s q) = Some p \<Longrightarrow> p < NPROC \<and> alive (procs s p)"
    "q < NPROC \<Longrightarrow> p_state (procs s q) = UNUSED \<Longrightarrow> fresh_slot z (procs s q)"
    "q < NPROC \<Longrightarrow> p_state (procs s q) = RUNNING \<Longrightarrow> q = curproc s"
  using assms unfolding pt_ok_def by blast+

lemma pt_okI:
  assumes "curproc s < NPROC" "initproc s < NPROC" "alive (procs s (initproc s))"
    "\<And>q p. q < NPROC \<Longrightarrow> p_parent (procs s q) = Some p \<Longrightarrow> p < NPROC \<and> alive (procs s p)"
    "\<And>q. q < NPROC \<Longrightarrow> p_state (procs s q) = UNUSED \<Longrightarrow> fresh_slot z (procs s q)"
    "\<And>q. q < NPROC \<Longrightarrow> p_state (procs s q) = RUNNING \<Longrightarrow> q = curproc s"
  shows "pt_ok z s"
  using assms unfolding pt_ok_def by blast

lemma wokenD:
  assumes "woken c q a b"
  shows "p_parent b = p_parent a" "p_pid b = p_pid a" "alive b = alive a" "p_state b = UNUSED \<longleftrightarrow> p_state a = UNUSED"
    "p_state b = RUNNING \<longleftrightarrow> p_state a = RUNNING" "q = c \<Longrightarrow> b = a" "p_state b = UNUSED \<Longrightarrow> b = a"
  using assms by (auto simp: woken_def)

text \<open>The work on one slot that nobody's parent is in.\<close>

lemma pt_ok_slot:
  assumes inv: "pt_ok z s" and run: "p_state (procs s (curproc s)) = RUNNING" and q0: "\<not> alive (procs s q0)"
    and ow: "others_woken q0 Q (procs s) (curproc s) (initproc s) t"
    and Q: "Q (procs t q0) \<Longrightarrow> fresh_slot z (procs t q0) \<or> used_slot RUNNABLE (Some (curproc s)) (procs t q0)
      \<or> used_slot ZOMBIE (Some (curproc s)) (procs t q0)"
  shows "pt_ok z t"
proof -
  note D = pt_okD [OF inv]
  have o: "curproc t = curproc s" "initproc t = initproc s" "Q (procs t q0)"
      "\<And>q. q \<noteq> q0 \<Longrightarrow> woken (curproc s) q (procs s q) (procs t q)"
    using ow by (auto simp: others_woken_def)
  note W = wokenD [OF o(4)]
  have c0: "curproc s \<noteq> q0" using run q0 by auto
  have live: "alive (procs t q)" if "alive (procs s q)" for q using that q0 W(3) [of q] by metis
  have curl: "alive (procs t (curproc s))" using live [of "curproc s"] run by simp
  have par: "p < NPROC \<and> alive (procs t p)" if "q < NPROC" "p_parent (procs t q) = Some p" for q p
  proof (cases "q = q0")
    case True
    then show ?thesis using Q [OF o(3)] that curl D(1) fresh_slotD by fastforce
  next
    case False
    then show ?thesis using W(1) [of q] D(4) that live by metis
  qed
  have un: "fresh_slot z (procs t q)" if "q < NPROC" "p_state (procs t q) = UNUSED" for q
  proof (cases "q = q0")
    case True
    then show ?thesis using Q [OF o(3)] that fresh_slotD [of z] by auto
  next
    case False
    then show ?thesis using W(7) [of q] D(5) that by metis
  qed
  have rn: "q = curproc t" if "q < NPROC" "p_state (procs t q) = RUNNING" for q
  proof (cases "q = q0")
    case True
    then show ?thesis using Q [OF o(3)] that fresh_slotD [of z] by auto
  next
    case False
    then show ?thesis using W(5) [of q] D(6) that o(1) by metis
  qed
  show ?thesis
    by (rule pt_okI) (use D(1,2,3) live par un rn o(1,2) in metis)+
qed

lemma pt_ok_exit:
  assumes inv: "pt_ok z s" and run: "p_state (procs s (curproc s)) = RUNNING" and r: "exit status s = Inr ((), t)"
  shows "pt_ok z t"
proof -
  let ?c = "curproc s"
  obtain u where u: "t = exit_zombie status u" "?c \<noteq> initproc s"
    "others_woken ?c (used_slot RUNNING (p_parent (procs s ?c))) (procs s) ?c (initproc s) u"
    using exit_ow [OF run r] by blast
  note D = pt_okD [OF inv]
  have o: "curproc u = ?c" "initproc u = initproc s" "p_state (procs u ?c) = RUNNING" "p_parent (procs u ?c) = p_parent (procs s ?c)"
      "\<And>q. q \<noteq> ?c \<Longrightarrow> woken ?c q (procs s q) (procs u q)"
    using u(3) by (auto simp: others_woken_def)
  note W = wokenD [OF o(5)]
  have ne: "curproc u \<noteq> initproc u" using u(2) o(1,2) by simp
  note E = exit_zombie_spec [OF ne, where status = status, folded u(1), unfolded o(1,2)]
  have par_u: "p_parent (procs u q) = p_parent (procs s q)" for q using o(4) W(1) by metis
  have st: "alive (procs t q) = alive (procs s q)" "p_state (procs t q) = UNUSED \<longleftrightarrow> p_state (procs s q) = UNUSED"
      "p_state (procs t q) = RUNNING \<longleftrightarrow> p_state (procs s q) = RUNNING" if "q \<noteq> ?c" for q
    using E(6) [OF that] W(3,4,5) [OF that] by auto
  have pid: "p_pid (procs t q) = p_pid (procs s q)" if "q \<noteq> ?c" for q using E(4) [of q] W(2) [OF that] by simp
  have par: "p < NPROC \<and> alive (procs t p)" if q: "q < NPROC" "p_parent (procs t q) = Some p" for q p
  proof (cases "p_parent (procs s q) = Some ?c")
    case True
    then have "p = initproc s" using q E(1) [of q] par_u [of q] by simp
    then show ?thesis using D(2,3) st(1) [of p] u(2) by metis
  next
    case False
    then have "p_parent (procs s q) = Some p" "p \<noteq> ?c" using q E(1) [of q] par_u [of q] by auto
    then show ?thesis using D(4) [OF q(1)] st(1) [of p] by metis
  qed
  have un: "fresh_slot z (procs t q)" if "q < NPROC" "p_state (procs t q) = UNUSED" for q
  proof -
    have q: "q \<noteq> ?c" using that E(2) by auto
    then have f: "fresh_slot z (procs s q)" using st(2) that D(5) by blast
    have "procs u q = procs s q" using W(7) [OF q] W(4) [OF q] fresh_slotD [OF f] by simp
    moreover have "procs t q = procs u q"
      unfolding u(1) by (rule exit_zombie_other) (use q o(1) fresh_slotD [OF f] calculation in simp_all)
    ultimately show ?thesis using f by simp
  qed
  have rn: "q = curproc t" if "q < NPROC" "p_state (procs t q) = RUNNING" for q
  proof -
    have "q \<noteq> ?c" using that E(2) by auto
    then show ?thesis using st(3) that D(6) by blast
  qed
  show ?thesis
    by (rule pt_okI) (use D(1,2,3) st(1) [of "initproc s"] u(2) E(8,9) par un rn in metis)+
qed

lemma pt_ok_wait:
  fixes s :: "'a ostate_scheme"
  assumes inv: "pt_ok z s" and run: "p_state (procs s (curproc s)) = RUNNING" and r: "wait addr s = Inr (a, t)"
  shows "pt_ok z t"
proof (cases "first_index (\<lambda>pp. p_parent (procs s pp) = Some (curproc s) \<and> p_state (procs s pp) = ZOMBIE) NPROC")
  case None
  then have "t = s" using r unfolding wait_def by (auto split: if_splits)
  then show ?thesis using inv by simp
next
  case (Some pp)
  let ?P = "others_woken pp (used_slot ZOMBIE (Some (curproc s))) (procs s) (curproc s) (initproc s)"
  have pp: "pp < NPROC" "p_parent (procs s pp) = Some (curproc s)" "p_state (procs s pp) = ZOMBIE"
    using first_index_SomeD [OF Some] by auto
  have s: "?P s" using pp by (simp add: others_woken_def woken_def)
  obtain x s1 where x: "(if addr \<noteq> 0 then copyout (p_pagetable (myproc s)) addr (st32 (\<lambda>_. 0) 0 (p_xstate (procs s pp))) 0 4 s
       else Inr (0, s)) = Inr (x, s1)"
    and rest: "(if x < 0 then Inr (Fin (- 1), s1) else andthen (freeproc pp s1) (\<lambda>_ s. Inr (Fin (p_pid (procs s1 pp)), s))) = Inr (a, t)
        \<or> (if x < 0 then Inr (Fin (- 1), s1) else andthen (freeproc pp s1) (\<lambda>_ u. Inr (Fin (p_pid (procs s pp)), u))) = Inr (a, t)"
    using r unfolding wait_def Some option.case Let_def andthen_Inr_iff by blast
  have "keeps ?P (if addr \<noteq> 0 then copyout (p_pagetable (myproc s)) addr (st32 (\<lambda>_. 0) 0 (p_xstate (procs s pp))) 0 4 s
       else Inr (0, s))"
    by (rule keeps s)+
  then have s1: "?P s1" using x by (rule keepsD)
  have q0: "\<not> alive (procs s pp)" using pp by simp
  show ?thesis
  proof (cases "x < 0")
    case True
    then have "t = s1" using rest by auto
    with s1 have "?P t" by simp
    then show ?thesis by (rule pt_ok_slot [OF inv run q0]) simp
  next
    case False
    then obtain y where "freeproc pp s1 = Inr (y, t)" using rest by (auto simp: andthen_Inr_iff)
    then have "others_woken pp (fresh_slot z) (procs s) (curproc s) (initproc s) t" by (rule keepsD [OF freeproc_ow [OF s1]])
    then show ?thesis by (rule pt_ok_slot [OF inv run q0]) simp
  qed
qed

text \<open>Steps that change no more than which of the used processes run, sleep or wait to run.\<close>

lemma pt_ok_states:
  assumes inv: "pt_ok z s" and cur: "curproc t < NPROC" and ini: "initproc t = initproc s"
    and same: "\<And>q. p_parent (procs t q) = p_parent (procs s q) \<and> p_pid (procs t q) = p_pid (procs s q)
      \<and> alive (procs t q) = alive (procs s q) \<and> (p_state (procs t q) = UNUSED \<longleftrightarrow> p_state (procs s q) = UNUSED)"
    and fr: "\<And>q. fresh_slot z (procs s q) \<Longrightarrow> fresh_slot z (procs t q)"
    and run: "\<And>q. q < NPROC \<Longrightarrow> p_state (procs t q) = RUNNING \<Longrightarrow> q = curproc t"
  shows "pt_ok z t"
proof -
  note D = pt_okD [OF inv]
  show ?thesis
  proof (rule pt_okI)
    show "initproc t < NPROC" "alive (procs t (initproc t))" using D(2,3) ini same [of "initproc s"] by simp_all
    show "p < NPROC \<and> alive (procs t p)" if "q < NPROC" "p_parent (procs t q) = Some p" for q p
      using D(4) [OF that(1), of p] that(2) same [of q] same [of p] by metis
    show "fresh_slot z (procs t q)" if "q < NPROC" "p_state (procs t q) = UNUSED" for q
      using D(5) [OF that(1)] that(2) same [of q] fr [of q] by blast
  qed (use cur run in blast)+
qed

lemma pt_ok_states_cur:
  assumes inv: "pt_ok z s" and run: "p_state (procs s (curproc s)) = RUNNING" and cur: "curproc t = curproc s" "initproc t = initproc s"
    and same: "\<And>q. p_parent (procs t q) = p_parent (procs s q) \<and> p_pid (procs t q) = p_pid (procs s q)"
    and fr: "\<And>q. fresh_slot z (procs s q) \<Longrightarrow> fresh_slot z (procs t q)"
    and st: "\<And>q. p_state (procs t q) = p_state (procs s q) \<or> p_state (procs t q) \<in> {SLEEPING, RUNNABLE} \<and> p_state (procs s q) \<in> {RUNNING, SLEEPING}"
  shows "pt_ok z t"
proof (rule pt_ok_states [OF inv])
  show "q = curproc t" if "q < NPROC" "p_state (procs t q) = RUNNING" for q
    using pt_okD(6) [OF inv that(1)] that(2) st [of q] cur(1) by auto
  show "p_parent (procs t q) = p_parent (procs s q) \<and> p_pid (procs t q) = p_pid (procs s q)
      \<and> alive (procs t q) = alive (procs s q) \<and> (p_state (procs t q) = UNUSED \<longleftrightarrow> p_state (procs s q) = UNUSED)" for q
    using same [of q] st [of q] by auto
  show "fresh_slot z (procs t q)" if "fresh_slot z (procs s q)" for q using that by (rule fr)
qed (use cur pt_okD(1) [OF inv] in simp_all)

lemma pt_ok_step: "proc_step z s t \<Longrightarrow> pt_ok z s \<Longrightarrow> pt_ok z t"
proof (induction rule: proc_step.induct)
  case (dispatches s pos p z)
  obtain k where p: "p = (pos + 1 + k) mod NPROC" "p_state (procs s p) = RUNNABLE"
    using next_runnable_SomeD [OF dispatches(2)] by blast
  have nr: "p_state (procs s q) \<noteq> RUNNING" if "q < NPROC" for q
    using pt_okD(6) [OF dispatches(3) that] dispatches(1) by metis
  show ?case
    by (rule pt_ok_states [OF dispatches(3)]) (use p nr in \<open>auto simp: dispatch_def fresh_slot_def split: if_splits\<close>)
next
  case (forks s trampoline forkret r t z)
  have "\<forall>q<NPROC. p_state (procs s q) = UNUSED \<longrightarrow> fresh_slot z (procs s q)" using pt_okD(5) [OF forks(3)] by blast
  from fork_ow [OF this forks(2)] show ?case
  proof (elim disjE exE conjE)
    fix np
    assume np: "p_state (procs s np) = UNUSED"
    have q0: "\<not> alive (procs s np)" using np by simp
    show "pt_ok z t" if "others_woken np (fresh_slot z) (procs s) (curproc s) (initproc s) t"
      by (rule pt_ok_slot [OF forks(3,1) q0 that]) simp
    show "pt_ok z t" if "others_woken np (used_slot RUNNABLE (Some (curproc s))) (procs s) (curproc s) (initproc s) t"
      by (rule pt_ok_slot [OF forks(3,1) q0 that]) simp
  qed (use forks in simp)
next
  case (exits s status t z)
  then show ?case by (blast intro: pt_ok_exit)
next
  case (waits s addr a t z)
  then show ?case by (blast intro: pt_ok_wait)
next
  case (sleeps s ch t z)
  have t: "t = set_proc (curproc s) (\<lambda>q. q\<lparr>p_chan := Some ch, p_state := SLEEPING\<rparr>) s"
    using sleeps(2) by (simp add: sleep_def sched_def split: if_splits)
  show ?case
    by (rule pt_ok_states_cur [OF sleeps(3,1)]) (use sleeps(1) in \<open>auto simp: t fresh_slot_def\<close>)
next
  case (resumes s z)
  show ?case
    by (rule pt_ok_states_cur [OF resumes(2,1)]) (use resumes(1) in \<open>auto simp: sleep_resume_def fresh_slot_def\<close>)
next
  case (yields s t z)
  have t: "t = set_proc (curproc s) (p_state_update (\<lambda>_. RUNNABLE)) s"
    using yields(2) by (simp add: yield_def sched_def split: if_splits)
  show ?case
    by (rule pt_ok_states_cur [OF yields(3,1)]) (use yields(1) in \<open>auto simp: t fresh_slot_def\<close>)
next
  case (kills s z pid)
  have "fresh_slot z (procs (snd (kill pid s)) q)" if f: "fresh_slot z (procs s q)" for q
  proof (cases "first_index (\<lambda>p. p_pid (procs s p) = pid) NPROC")
    case (Some p)
    have "z \<or> p \<noteq> q" using first_index_SomeD(2) [OF Some] kills(2) f by (auto simp: fresh_slot_def)
    then show ?thesis using f Some by (auto simp: kill_def fresh_slot_def)
  qed (use f in \<open>simp add: kill_def\<close>)
  then show ?case
    by (intro pt_ok_states_cur [OF kills(3,1)]) (auto simp: kill_def split: option.splits)
next
  case (faults s z)
  show ?case
    by (rule pt_ok_states_cur [OF faults(2,1)]) (use faults(1) in \<open>auto simp: setkilled_def fresh_slot_def\<close>)
next
  case (wakes z s ch)
  have "woken (curproc s) q (procs s q) (procs (wakeup ch s) q)" for q
    by (rule woken_wakeup) (simp add: woken_def)
  note W = wokenD [OF this]
  have "q = curproc s" if "q < NPROC" "p_state (procs (wakeup ch s) q) = RUNNING" for q
    using pt_okD(6) [OF wakes that(1)] that(2) W(5) by metis
  moreover have "fresh_slot z (procs (wakeup ch s) q)" if "fresh_slot z (procs s q)" for q
    using that by (auto simp: fresh_slot_def wakeup_def)
  ultimately show ?case
    by (intro pt_ok_states [OF wakes]) (use pt_okD(1) [OF wakes] W(1,2,3,4) in simp_all)
qed

text \<open>C4: The process table stays well formed under every sequence of dispatching, fork, exit, wait, sleep, yield, kill of
  any process number, a fault's setkilled and wakeup: at most the current process runs, init lives, every process that
  has a parent has a living one, so no zombie is left whose parent can no longer wait for it, and a free slot has
  no parent, number, trap frame, page table, size, channel, exit status or name left. A free slot is not marked killed
  either if \<^verbatim>\<open>kill(0)\<close> never occurs; with it, it can be.\<close>

theorem process_table_invariant:
  assumes "(proc_step z)\<^sup>*\<^sup>* s t" and "pt_ok z s"
  shows "pt_ok z t"
  using assms by (induction rule: rtranclp_induct) (auto intro: pt_ok_step)

definition family_o :: ostate where
  "family_o = zero_o\<lparr>curproc := 2, procs := (\<lambda>_. zero_proc)
     (0 := zero_proc\<lparr>p_state := RUNNABLE, p_pid := 1\<rparr>,
      1 := zero_proc\<lparr>p_state := SLEEPING, p_chan := Some (ChProc 1), p_pid := 2, p_parent := Some 0\<rparr>,
      2 := zero_proc\<lparr>p_state := RUNNING, p_pid := 3, p_parent := Some 1\<rparr>)\<rparr>"

lemma process_table_invariant_witness: "\<exists>t. (proc_step False)\<^sup>*\<^sup>* family_o t \<and> p_state (procs t 1) = RUNNABLE \<and> pt_ok False t"
proof -
  have ok: "pt_ok False family_o"
    by (rule pt_okI) (auto simp: family_o_def zero_o_def zero_proc_def fresh_slot_def split: if_splits)
  have k: "first_index (\<lambda>p. p_pid (procs family_o p) = 2) NPROC = Some 1"
    by (rule first_index_eqI) (auto simp: family_o_def)
  have st: "proc_step False family_o (snd (kill 2 family_o))"
    by (rule proc_step.kills) (simp_all add: family_o_def)
  have "p_state (procs (snd (kill 2 family_o)) 1) = RUNNABLE"
    using k by (simp add: kill_def) (simp add: family_o_def)
  with st process_table_invariant [of False family_o "snd (kill 2 family_o)"] ok show ?thesis by blast
qed

section \<open>Killing a process that does not exist\<close>

lemma allocproc_killed:
  fixes s :: "'a ostate_scheme"
  assumes fi: "first_index (\<lambda>q. p_state (procs s q) = UNUSED) NPROC = Some p" and kd: "p_killed (procs s p)"
    and r: "allocproc trampoline forkret s = Inr (Some p', s')"
  shows "p' = p \<and> p_killed (procs s' p) \<and> p_state (procs s' p) = USED"
proof -
  let ?U = "others_woken p (\<lambda>x. p_killed x \<and> p_state x = USED) (procs s) (curproc s) (initproc s)"
  define s1 where "s1 = set_proc p (\<lambda>q. q\<lparr>p_pid := nextpid s, p_state := USED\<rparr>) (s\<lparr>nextpid := nextpid s + 1\<rparr>)"
  define s2 where "s2 = set_proc p (p_trapframe_update (\<lambda>_. fst (kalloc s1))) (snd (kalloc s1))"
  have s1: "?U s1" using kd by (auto simp: s1_def others_woken_def woken_def)
  have up: "?U (set_proc p f t)" if "?U t" "\<And>x. p_state (f x) = p_state x" "\<And>x. p_killed (f x) = p_killed x" for f t
    using that by (auto simp: others_woken_def)
  have s2: "?U s2" unfolding s2_def by (rule up, rule keeps, rule s1) simp_all
  have e: "allocproc trampoline forkret s = (if fst (kalloc s1) = 0 then andthen (freeproc p s2) (\<lambda>_ s. Inr (None, s))
      else andthen (proc_pagetable trampoline p s2) (\<lambda>pt s.
               let s = set_proc p (p_pagetable_update (\<lambda>_. pt)) s in
               if pt = 0 then andthen (freeproc p s) (\<lambda>_ s. Inr (None, s))
               else Inr (Some p, set_proc p (\<lambda>q. q\<lparr>p_context :=
                 zero_context\<lparr>ctx_ra := forkret, ctx_sp := p_kstack q + PGSIZE\<rparr>\<rparr>) s)))"
    unfolding allocproc_def fi option.case allocpid_def prod.case s1_def s2_def by (simp add: Let_def case_prod_beta)
  obtain pt t where t: "proc_pagetable trampoline p s2 = Inr (pt, t)" "p' = p"
    "s' = set_proc p (\<lambda>q. q\<lparr>p_context := zero_context\<lparr>ctx_ra := forkret, ctx_sp := p_kstack q + PGSIZE\<rparr>\<rparr>)
       (set_proc p (p_pagetable_update (\<lambda>_. pt)) t)"
    using r e by (auto simp: andthen_Inr_iff Let_def split: if_splits)
  have "?U t" by (rule keepsD [OF ow.proc_pagetable [OF s2] t(1)])
  then show ?thesis using t by (simp add: others_woken_def)
qed

text \<open>A free slot has process number 0, so \<^verbatim>\<open>kill(0)\<close> succeeds when the first slot with that number is free, and
  marks it killed; \<^verbatim>\<open>allocproc\<close> does not clear the mark, so a process made in that slot next is killed from birth.\<close>

theorem kill_zero_kills_unborn:
  fixes s :: "'a ostate_scheme"
  assumes free: "first_index (\<lambda>q. p_state (procs s q) = UNUSED) NPROC = Some p"
    and pid: "first_index (\<lambda>q. p_pid (procs s q) = 0) NPROC = Some p"
  shows "fst (kill 0 s) = 0 \<and> p_killed (procs (snd (kill 0 s)) p) \<and> p_state (procs (snd (kill 0 s)) p) = UNUSED
    \<and> (case allocproc trampoline forkret (snd (kill 0 s)) of
         Inr (Some p', s') \<Rightarrow> p' = p \<and> p_killed (procs s' p) \<and> p_state (procs s' p) = USED | _ \<Rightarrow> True)"
proof -
  let ?t = "snd (kill 0 s)"
  have st: "p_state (procs s p) = UNUSED" using first_index_SomeD [OF free] by blast
  have t: "?t = set_proc p (\<lambda>q. q\<lparr>p_killed := True,
         p_state := (if p_state q = SLEEPING then RUNNABLE else p_state q)\<rparr>) s" "fst (kill 0 s) = 0"
    unfolding kill_def pid by simp_all
  have "p_state (procs ?t q) = UNUSED \<longleftrightarrow> p_state (procs s q) = UNUSED" for q using st by (simp add: t(1))
  then have f: "first_index (\<lambda>q. p_state (procs ?t q) = UNUSED) NPROC = Some p" using free by presburger
  have k: "p_killed (procs ?t p)" "p_state (procs ?t p) = UNUSED" using st by (simp_all add: t(1))
  show ?thesis using t(2) k allocproc_killed [OF f k(1)] by (auto split: sum.split option.split)
qed

lemma kill_zero_kills_unborn_witness:
  "p_killed (procs (snd (kill 0 family_o)) 3) \<and> p_state (procs (snd (kill 0 family_o)) 3) = UNUSED"
proof -
  have u: "procs family_o q = (if q = 0 then zero_proc\<lparr>p_state := RUNNABLE, p_pid := 1\<rparr>
      else if q = 1 then zero_proc\<lparr>p_state := SLEEPING, p_chan := Some (ChProc 1), p_pid := 2, p_parent := Some 0\<rparr>
      else if q = 2 then zero_proc\<lparr>p_state := RUNNING, p_pid := 3, p_parent := Some 1\<rparr> else zero_proc)" for q
    by (simp add: family_o_def)
  have lt: "q < 3 \<longleftrightarrow> q = 0 \<or> q = 1 \<or> q = (2 :: nat)" for q by auto
  have "first_index (\<lambda>q. p_state (procs family_o q) = UNUSED) NPROC = Some 3"
    "first_index (\<lambda>q. p_pid (procs family_o q) = 0) NPROC = Some 3"
    by (rule first_index_eqI; auto simp: u lt zero_proc_def)+
  from kill_zero_kills_unborn [OF this] show ?thesis by blast
qed

end
