(* ===== verification/Spinlock.thy ===== *)
theory Spinlock
  imports Prelude
begin

text \<open>
  Spin locks and the nesting of interrupt disabling (\<^verbatim>\<open>spinlock.c\<close>, \<^verbatim>\<open>struct cpu\<close>), for several
  processors at once: this is where the atomicity that the other theories assume of critical sections comes from. A processor and a
  lock are numbers. \<^verbatim>\<open>acquire\<close> is three steps, because other processors run between them: disable interrupts
  and check, swap the lock word until it was free, record the owner.
\<close>

section \<open>State\<close>

record spinlock =
  lk_locked :: bool
  lk_cpu :: "nat option"

record cpu =
  c_noff :: int
  c_intena :: bool
  c_sie :: bool       \<comment> \<open>interrupts are enabled on the processor\<close>

text \<open>Where a processor is in \<^verbatim>\<open>acquire\<close>: outside, spinning for a lock, or with the lock word taken.\<close>

datatype pc = Outside | Spinning nat | Taken nat

record lkstate =
  lk :: "nat \<Rightarrow> spinlock"
  cpus :: "nat \<Rightarrow> cpu"
  pcs :: "nat \<Rightarrow> pc"

definition set_cpu :: "nat \<Rightarrow> (cpu \<Rightarrow> cpu) \<Rightarrow> lkstate \<Rightarrow> lkstate" where
  "set_cpu c f s = s\<lparr>cpus := (cpus s)(c := f (cpus s c))\<rparr>"

definition set_lk :: "nat \<Rightarrow> (spinlock \<Rightarrow> spinlock) \<Rightarrow> lkstate \<Rightarrow> lkstate" where
  "set_lk l f s = s\<lparr>lk := (lk s)(l := f (lk s l))\<rparr>"

definition set_pc :: "nat \<Rightarrow> pc \<Rightarrow> lkstate \<Rightarrow> lkstate" where
  "set_pc c q s = s\<lparr>pcs := (pcs s)(c := q)\<rparr>"

section \<open>Operations\<close>

definition initlock :: "nat \<Rightarrow> lkstate \<Rightarrow> lkstate" where
  "initlock l s = set_lk l (\<lambda>k. k\<lparr>lk_locked := False, lk_cpu := None\<rparr>) s"

definition push_off :: "nat \<Rightarrow> lkstate \<Rightarrow> lkstate" where
  "push_off c s =
     (let old = c_sie (cpus s c);
          s = set_cpu c (c_sie_update (\<lambda>_. False)) s;
          s = (if c_noff (cpus s c) = 0 then set_cpu c (c_intena_update (\<lambda>_. old)) s else s)
      in set_cpu c (c_noff_update (\<lambda>n. n + 1)) s)"

definition pop_off :: "nat \<Rightarrow> lkstate \<Rightarrow> (unit, lkstate) res" where
  "pop_off c s =
     (if c_sie (cpus s c) then Inl (Panic ''pop_off - interruptible'')
      else if c_noff (cpus s c) < 1 then Inl (Panic ''pop_off'')
      else let s = set_cpu c (c_noff_update (\<lambda>n. n - 1)) s in
        if c_noff (cpus s c) = 0 \<and> c_intena (cpus s c)
        then Inr ((), set_cpu c (c_sie_update (\<lambda>_. True)) s) else Inr ((), s))"

definition holding :: "nat \<Rightarrow> nat \<Rightarrow> lkstate \<Rightarrow> bool" where
  "holding c l s \<longleftrightarrow> lk_locked (lk s l) \<and> lk_cpu (lk s l) = Some c"

definition acquire_enter :: "nat \<Rightarrow> nat \<Rightarrow> lkstate \<Rightarrow> (unit, lkstate) res" where
  "acquire_enter c l s =
     (let s = push_off c s in
      if holding c l s then Inl (Panic ''acquire'') else Inr ((), set_pc c (Spinning l) s))"

text \<open>One atomic swap of the lock word; the old value 0 ends the spin.\<close>

definition acquire_swap :: "nat \<Rightarrow> nat \<Rightarrow> lkstate \<Rightarrow> lkstate" where
  "acquire_swap c l s =
     (let old = lk_locked (lk s l); s = set_lk l (lk_locked_update (\<lambda>_. True)) s
      in if old then s else set_pc c (Taken l) s)"

definition acquire_record :: "nat \<Rightarrow> nat \<Rightarrow> lkstate \<Rightarrow> lkstate" where
  "acquire_record c l s = set_pc c Outside (set_lk l (lk_cpu_update (\<lambda>_. Some c)) s)"

definition release :: "nat \<Rightarrow> nat \<Rightarrow> lkstate \<Rightarrow> (unit, lkstate) res" where
  "release c l s =
     (if \<not> holding c l s then Inl (Panic ''release'')
      else let s = set_lk l (lk_cpu_update (\<lambda>_. None)) s;
               s = set_lk l (lk_locked_update (\<lambda>_. False)) s
           in pop_off c s)"

section \<open>Nesting\<close>

primrec push_n :: "nat \<Rightarrow> nat \<Rightarrow> lkstate \<Rightarrow> lkstate" where
  "push_n 0 c s = s"
| "push_n (Suc n) c s = push_n n c (push_off c s)"

primrec pop_n :: "nat \<Rightarrow> nat \<Rightarrow> lkstate \<Rightarrow> (unit, lkstate) res" where
  "pop_n 0 c s = Inr ((), s)"
| "pop_n (Suc n) c s = andthen (pop_off c s) (\<lambda>_ s. pop_n n c s)"

lemma cpus_upd [simp]:
  "cpus (set_cpu c f s) = (cpus s)(c := f (cpus s c))" "cpus (set_lk l g s) = cpus s" "cpus (set_pc c q s) = cpus s"
  "lk (set_cpu c f s) = lk s" "lk (set_lk l g s) = (lk s)(l := g (lk s l))" "lk (set_pc c q s) = lk s"
  "pcs (set_cpu c f s) = pcs s" "pcs (set_lk l g s) = pcs s" "pcs (set_pc c q s) = (pcs s)(c := q)"
  by (simp_all add: set_cpu_def set_lk_def set_pc_def)

lemma push_off_cpu [simp]:
  "cpus (push_off c s) d = (if d = c then \<lparr>c_noff = c_noff (cpus s c) + 1,
     c_intena = (if c_noff (cpus s c) = 0 then c_sie (cpus s c) else c_intena (cpus s c)), c_sie = False\<rparr> else cpus s d)"
  "lk (push_off c s) = lk s" "pcs (push_off c s) = pcs s"
  by (simp_all add: push_off_def Let_def)

lemma push_n_cpu:
  "0 < n \<Longrightarrow> 0 \<le> c_noff (cpus s c) \<Longrightarrow> cpus (push_n n c s) d = (if d = c then \<lparr>c_noff = c_noff (cpus s c) + int n,
     c_intena = (if c_noff (cpus s c) = 0 then c_sie (cpus s c) else c_intena (cpus s c)), c_sie = False\<rparr> else cpus s d)"
proof (induction n arbitrary: s)
  case 0
  then show ?case by simp
next
  case (Suc n)
  then show ?case using Suc.IH [of "push_off c s"] by (cases "n = 0") auto
qed

lemma pop_off_runs:
  "\<not> c_sie (cpus s c) \<Longrightarrow> 1 \<le> c_noff (cpus s c) \<Longrightarrow>
   runs (pop_off c s) (\<lambda>_ t. lk t = lk s \<and> pcs t = pcs s \<and> (\<forall>d. cpus t d = (if d = c then
     \<lparr>c_noff = c_noff (cpus s c) - 1, c_intena = c_intena (cpus s c),
      c_sie = (c_noff (cpus s c) = 1 \<and> c_intena (cpus s c))\<rparr> else cpus s d)))"
  by (auto simp: pop_off_def Let_def)

lemma pop_n_runs:
  "\<not> c_sie (cpus s c) \<Longrightarrow> int n \<le> c_noff (cpus s c) \<Longrightarrow> 0 < n \<Longrightarrow>
   runs (pop_n n c s) (\<lambda>_ t. \<forall>d. cpus t d = (if d = c then
     \<lparr>c_noff = c_noff (cpus s c) - int n, c_intena = c_intena (cpus s c),
      c_sie = (c_noff (cpus s c) = int n \<and> c_intena (cpus s c))\<rparr> else cpus s d))"
proof (induction n arbitrary: s)
  case 0
  then show ?case by simp
next
  case (Suc n)
  have p: "\<not> c_sie (cpus s c)" "1 \<le> c_noff (cpus s c)" using Suc.prems by simp_all
  show ?case unfolding pop_n.simps
  proof (rule runs_andthen [OF pop_off_runs [OF p]], goal_cases)
    case (1 u t)
    show ?case
    proof (cases "n = 0")
      case True
      with 1 show ?thesis by simp
    next
      case False
      have "runs (pop_n n c t) (\<lambda>_ t'. \<forall>d. cpus t' d = (if d = c then
         \<lparr>c_noff = c_noff (cpus t c) - int n, c_intena = c_intena (cpus t c),
          c_sie = (c_noff (cpus t c) = int n \<and> c_intena (cpus t c))\<rparr> else cpus t d))"
        using 1 Suc.prems False by (intro Suc.IH) auto
      then show ?thesis by (rule runs_mono) (use 1 in auto)
    qed
  qed
qed

text \<open>\<^verbatim>\<open>push_off\<close> and \<^verbatim>\<open>pop_off\<close> nest: \<open>n\<close> of the one followed by \<open>n\<close> of the other never panic and leave the
  processor's nesting depth and its interrupt flag as they were, at whatever depth they start.\<close>

theorem push_pop_roundtrip:
  assumes "0 \<le> c_noff (cpus s c)" and "0 < c_noff (cpus s c) \<Longrightarrow> \<not> c_sie (cpus s c)"
  shows "runs (pop_n n c (push_n n c s)) (\<lambda>_ t. c_noff (cpus t c) = c_noff (cpus s c)
    \<and> c_sie (cpus t c) = c_sie (cpus s c) \<and> (\<forall>d. d \<noteq> c \<longrightarrow> cpus t d = cpus s d))"
proof (cases "n = 0")
  case False
  then have n: "0 < n" by simp
  note p = push_n_cpu [OF n assms(1)]
  show ?thesis
    by (rule runs_mono [OF pop_n_runs]) (use assms n in \<open>auto simp: p\<close>)
qed simp

definition one_cpu :: lkstate where
  "one_cpu = \<lparr>lk = (\<lambda>_. \<lparr>lk_locked = False, lk_cpu = None\<rparr>),
     cpus = (\<lambda>_. \<lparr>c_noff = 0, c_intena = False, c_sie = True\<rparr>), pcs = (\<lambda>_. Outside)\<rparr>"

lemma push_pop_roundtrip_witness:
  "runs (pop_n 3 0 (push_n 3 0 one_cpu)) (\<lambda>_ t. c_sie (cpus t 0))"
  by (rule runs_mono [OF push_pop_roundtrip]) (simp_all add: one_cpu_def)

section \<open>Mutual exclusion\<close>

text \<open>
  The processors' interleaved steps. Each calls \<^verbatim>\<open>push_off\<close>, \<^verbatim>\<open>pop_off\<close>, \<^verbatim>\<open>acquire\<close> and \<^verbatim>\<open>release\<close> as it likes, except that the counts
  of the steps match: \<open>depth\<close> counts the processor's own \<^verbatim>\<open>push_off\<close> calls, and \<^verbatim>\<open>pop_off\<close> undoes one of them.
  Interrupts may be switched on and off while the processor is in no critical section.
\<close>

inductive lkstep :: "lkstate \<times> (nat \<Rightarrow> nat) \<Rightarrow> lkstate \<times> (nat \<Rightarrow> nat) \<Rightarrow> bool" where
  push: "pcs s c = Outside \<Longrightarrow> lkstep (s, depth) (push_off c s, depth(c := depth c + 1))"
| pop: "pcs s c = Outside \<Longrightarrow> depth c = Suc k \<Longrightarrow> pop_off c s = Inr ((), t) \<Longrightarrow> lkstep (s, depth) (t, depth(c := k))"
| intr: "pcs s c = Outside \<Longrightarrow> c_noff (cpus s c) = 0 \<Longrightarrow>
    lkstep (s, depth) (set_cpu c (c_sie_update (\<lambda>_. b)) s, depth)"
| enter: "pcs s c = Outside \<Longrightarrow> acquire_enter c l s = Inr ((), t) \<Longrightarrow> lkstep (s, depth) (t, depth)"
| swap: "pcs s c = Spinning l \<Longrightarrow> lkstep (s, depth) (acquire_swap c l s, depth)"
| note_owner: "pcs s c = Taken l \<Longrightarrow> lkstep (s, depth) (acquire_record c l s, depth)"
| rel: "pcs s c = Outside \<Longrightarrow> release c l s = Inr ((), t) \<Longrightarrow> lkstep (s, depth) (t, depth)"

definition lkinit :: "lkstate \<times> (nat \<Rightarrow> nat) \<Rightarrow> bool" where
  "lkinit = (\<lambda>(s, depth). (\<forall>l. \<not> lk_locked (lk s l) \<and> lk_cpu (lk s l) = None)
     \<and> (\<forall>c. c_noff (cpus s c) = 0 \<and> pcs s c = Outside \<and> depth c = 0))"

inductive lkreach :: "lkstate \<times> (nat \<Rightarrow> nat) \<Rightarrow> bool" where
  start: "lkinit x \<Longrightarrow> lkreach x"
| more: "lkreach x \<Longrightarrow> lkstep x y \<Longrightarrow> lkreach y"

text \<open>The processor that has the lock: it took the lock word, recorded or not yet.\<close>

definition owner :: "lkstate \<Rightarrow> nat \<Rightarrow> nat \<Rightarrow> bool" where
  "owner s c l \<longleftrightarrow> pcs s c = Taken l \<or> holding c l s"

definition owned :: "lkstate \<Rightarrow> nat \<Rightarrow> nat set" where
  "owned s c = {l. owner s c l}"

definition lkinv :: "lkstate \<times> (nat \<Rightarrow> nat) \<Rightarrow> bool" where
  "lkinv = (\<lambda>(s, depth). (\<forall>l c d. owner s c l \<longrightarrow> owner s d l \<longrightarrow> c = d)
     \<and> (\<forall>l c. pcs s c = Taken l \<longrightarrow> lk_locked (lk s l) \<and> lk_cpu (lk s l) = None)
     \<and> (\<forall>l. \<not> lk_locked (lk s l) \<longrightarrow> lk_cpu (lk s l) = None)
     \<and> (\<forall>c. finite (owned s c))
     \<and> (\<forall>c. c_noff (cpus s c) = int (depth c) + int (card (owned s c)) + (if \<exists>l. pcs s c = Spinning l then 1 else 0))
     \<and> (\<forall>c. 0 < c_noff (cpus s c) \<longrightarrow> \<not> c_sie (cpus s c)))"

lemma lkinvD:
  assumes "lkinv (s, depth)"
  shows "owner s c l \<Longrightarrow> owner s d l \<Longrightarrow> c = d"
    and "pcs s c = Taken l \<Longrightarrow> lk_locked (lk s l)" and "pcs s c = Taken l \<Longrightarrow> lk_cpu (lk s l) = None"
    and "\<not> lk_locked (lk s l) \<Longrightarrow> lk_cpu (lk s l) = None"
    and "finite (owned s c)"
    and "c_noff (cpus s c) = int (depth c) + int (card (owned s c)) + (if \<exists>l. pcs s c = Spinning l then 1 else 0)"
    and "0 < c_noff (cpus s c) \<Longrightarrow> \<not> c_sie (cpus s c)"
  using assms unfolding lkinv_def by blast+

text \<open>A step that leaves the locks and their owners alone only has to keep the counts.\<close>

lemma lkinv_same_owners:
  assumes inv: "lkinv (s, depth)" and lk: "lk t = lk s"
    and tk: "\<And>d l. pcs t d = Taken l \<longleftrightarrow> pcs s d = Taken l"
    and n: "\<And>d. c_noff (cpus t d) = int (depth' d) + int (card (owned s d)) + (if \<exists>l. pcs t d = Spinning l then 1 else 0)"
    and sie: "\<And>d. 0 < c_noff (cpus t d) \<Longrightarrow> \<not> c_sie (cpus t d)"
  shows "lkinv (t, depth')"
proof -
  have o: "owner t d l = owner s d l" for d l by (simp add: owner_def holding_def lk tk)
  then have "owned t d = owned s d" for d by (simp add: owned_def)
  then show ?thesis using inv n sie unfolding lkinv_def by (simp add: o lk tk)
qed

lemma pop_off_cases:
  assumes "pop_off c s = Inr ((), t)"
  shows "\<not> c_sie (cpus s c)" "1 \<le> c_noff (cpus s c)" "lk t = lk s" "pcs t = pcs s"
    "cpus t d = (if d = c then \<lparr>c_noff = c_noff (cpus s c) - 1, c_intena = c_intena (cpus s c),
      c_sie = (c_noff (cpus s c) = 1 \<and> c_intena (cpus s c))\<rparr> else cpus s d)"
proof -
  show p: "\<not> c_sie (cpus s c)" "1 \<le> c_noff (cpus s c)"
    using assms by (auto simp: pop_off_def split: if_splits)
  show "lk t = lk s" "pcs t = pcs s" "cpus t d = (if d = c then \<lparr>c_noff = c_noff (cpus s c) - 1, c_intena = c_intena (cpus s c),
      c_sie = (c_noff (cpus s c) = 1 \<and> c_intena (cpus s c))\<rparr> else cpus s d)"
    using pop_off_runs [OF p] assms by auto
qed

lemma lkinv_swap:
  assumes inv: "lkinv (s, depth)" and pc: "pcs s c = Spinning l"
  shows "lkinv (acquire_swap c l s, depth)"
proof (cases "lk_locked (lk s l)")
  case True
  have "lk (acquire_swap c l s) = lk s" using True by (simp add: acquire_swap_def Let_def fun_eq_iff)
  then show ?thesis
    by (rule lkinv_same_owners [OF inv]) (use True lkinvD [OF inv] in \<open>simp_all add: acquire_swap_def Let_def\<close>)
next
  case False
  define t where "t = acquire_swap c l s"
  have t: "lk t = (lk s)(l := (lk s l)\<lparr>lk_locked := True\<rparr>)" "pcs t = (pcs s)(c := Taken l)" "cpus t = cpus s"
    using False by (simp_all add: t_def acquire_swap_def Let_def)
  note D = lkinvD [OF inv]
  have none: "\<not> owner s d l" for d using False D(2) by (auto simp: owner_def holding_def)
  have cpu: "lk_cpu (lk s l) = None" using False D(4) by blast
  have o: "owner t d m \<longleftrightarrow> owner s d m \<or> d = c \<and> m = l" for d m
    using none [of d] cpu pc by (auto simp: owner_def holding_def t)
  have "owned t d = (if d = c then insert l (owned s c) else owned s d)" for d
    by (auto simp: owned_def o)
  moreover have "l \<notin> owned s c" using none by (simp add: owned_def)
  moreover have "c_noff (cpus s c) = int (depth c) + int (card (owned s c)) + 1" using D(6) [of c] pc by simp
  ultimately have "lkinv (t, depth)"
    unfolding lkinv_def using D(1,2,3,4,5,6,7) none cpu pc
    by (auto simp: o t card_insert_if)
  then show ?thesis by (simp add: t_def)
qed

lemma lkinv_record:
  assumes inv: "lkinv (s, depth)" and pc: "pcs s c = Taken l"
  shows "lkinv (acquire_record c l s, depth)"
proof -
  define t where "t = acquire_record c l s"
  have t: "lk t = (lk s)(l := (lk s l)\<lparr>lk_cpu := Some c\<rparr>)" "pcs t = (pcs s)(c := Outside)" "cpus t = cpus s"
    by (simp_all add: t_def acquire_record_def)
  note D = lkinvD [OF inv]
  have l: "lk_locked (lk s l)" "lk_cpu (lk s l) = None" using D(2,3) pc by blast+
  have own: "owner s c l" using pc by (simp add: owner_def)
  have o: "owner t d m \<longleftrightarrow> owner s d m" for d m
  proof -
    have "pcs s d \<noteq> Taken l" if "d \<noteq> c" using D(1) [OF own, of d] that by (auto simp: owner_def)
    then show ?thesis using l pc by (auto simp: owner_def holding_def t)
  qed
  have "owned t d = owned s d" for d by (simp add: owned_def o)
  moreover have "pcs s d \<noteq> Taken l" if "d \<noteq> c" for d using D(1) [OF own, of d] that by (auto simp: owner_def)
  ultimately have "lkinv (t, depth)"
    unfolding lkinv_def using D l pc by (auto simp: o t)
  then show ?thesis by (simp add: t_def)
qed

lemma lkinv_release:
  assumes inv: "lkinv (s, depth)" and pc: "pcs s c = Outside" and r: "release c l s = Inr ((), t)"
  shows "lkinv (t, depth)"
proof -
  define s1 where "s1 = set_lk l (lk_locked_update (\<lambda>_. False)) (set_lk l (lk_cpu_update (\<lambda>_. None)) s)"
  have h: "holding c l s" and p: "pop_off c s1 = Inr ((), t)"
    using r by (auto simp: release_def s1_def Let_def split: if_splits)
  have s1: "lk s1 = (lk s)(l := (lk s l)\<lparr>lk_cpu := None, lk_locked := False\<rparr>)" "pcs s1 = pcs s" "cpus s1 = cpus s"
    by (simp_all add: s1_def)
  note P = pop_off_cases [OF p, unfolded s1] and D = lkinvD [OF inv]
  have own: "owner s c l" using h by (simp add: owner_def)
  have nt: "pcs s d \<noteq> Taken l" for d using D(1) [OF own, of d] pc by (auto simp: owner_def)
  have o: "owner t d m \<longleftrightarrow> owner s d m \<and> m \<noteq> l" for d m
    using nt [of d] by (auto simp: owner_def holding_def P)
  have "owned t d = owned s d - {l}" for d by (auto simp: owned_def o)
  moreover have "owned s d - {l} = owned s d" if "d \<noteq> c" for d
    using D(1) [OF own, of d] that by (auto simp: owned_def)
  moreover have "l \<in> owned s c" using own by (simp add: owned_def)
  moreover have "c_noff (cpus s c) = int (depth c) + int (card (owned s c))" using D(6) [of c] pc by simp
  moreover have "0 < card (owned s c)" using \<open>l \<in> owned s c\<close> D(5) [of c] by (auto simp: card_gt_0_iff)
  ultimately show ?thesis
    unfolding lkinv_def using D nt pc P(1,2)
    by (auto simp: o P card_Diff_singleton)
qed

lemma lkinv_step: "lkstep x y \<Longrightarrow> lkinv x \<Longrightarrow> lkinv y"
proof (induction rule: lkstep.induct)
  case (push s c depth)
  show ?case
    by (rule lkinv_same_owners [OF push(2)]) (use push lkinvD(6,7) [OF push(2)] in auto)
next
  case (pop s c depth k t)
  note P = pop_off_cases [OF pop(3)] and D = lkinvD [OF pop(4)]
  show ?case
    by (rule lkinv_same_owners [OF pop(4)]) (use pop(1,2) P D(6,7) in auto)
next
  case (intr s c depth b)
  show ?case
    by (rule lkinv_same_owners [OF intr(3)]) (use intr(1,2) lkinvD(6,7) [OF intr(3)] in auto)
next
  case (enter s c l t depth)
  have t: "t = set_pc c (Spinning l) (push_off c s)"
    using enter(2) by (auto simp: acquire_enter_def Let_def split: if_splits)
  show ?case
    by (rule lkinv_same_owners [OF enter(3)]) (use enter(1) lkinvD(6,7) [OF enter(3)] in \<open>auto simp: t\<close>)
next
  case (swap s c l depth)
  then show ?case by (rule lkinv_swap [rotated])
next
  case (note_owner s c l depth)
  then show ?case by (rule lkinv_record [rotated])
next
  case (rel s c l t depth)
  then show ?case by (blast intro: lkinv_release)
qed

lemma lkinv_init: "lkinit x \<Longrightarrow> lkinv x"
  by (auto simp: lkinit_def lkinv_def owner_def holding_def owned_def)

lemma lkinv_reach: "lkreach x \<Longrightarrow> lkinv x"
  by (induction rule: lkreach.induct) (auto intro: lkinv_init lkinv_step)

text \<open>C10: Spin locks exclude each other. In every state the processors can reach by interleaved steps of
  \<^verbatim>\<open>acquire\<close>, \<^verbatim>\<open>release\<close>, \<^verbatim>\<open>push_off\<close> and \<^verbatim>\<open>pop_off\<close>, a lock is had by at most one processor, a processor that
  has a lock runs with interrupts off, and it has exactly as many levels of disabling as it has
  \<^verbatim>\<open>push_off\<close> calls of its own, locks, and an acquire under way.\<close>

theorem spinlock_mutex:
  assumes "lkreach (s, depth)"
  shows "(owner s c l \<longrightarrow> (\<forall>d. owner s d l \<longrightarrow> d = c) \<and> \<not> c_sie (cpus s c))
    \<and> c_noff (cpus s c) = int (depth c) + int (card (owned s c)) + (if \<exists>l. pcs s c = Spinning l then 1 else 0)"
proof -
  note D = lkinvD [OF lkinv_reach [OF assms]]
  have n: "c_noff (cpus s c) = int (depth c) + int (card (owned s c)) + (if \<exists>l. pcs s c = Spinning l then 1 else 0)"
    by (rule D(6))
  have "\<not> c_sie (cpus s c)" if "owner s c l"
  proof -
    have "l \<in> owned s c" using that by (simp add: owned_def)
    then have "0 < card (owned s c)" using D(5) [of c] by (auto simp: card_gt_0_iff)
    with n have "0 < c_noff (cpus s c)" by (auto split: if_splits)
    then show ?thesis by (rule D(7))
  qed
  with n D(1) show ?thesis by blast
qed

lemma spinlock_mutex_witness:
  "\<exists>s depth. lkreach (s, depth) \<and> owner s 0 7 \<and> \<not> owner s 1 7 \<and> \<not> c_sie (cpus s 0) \<and> c_sie (cpus s 1)"
proof -
  define s1 where "s1 = set_pc 0 (Spinning 7) (push_off 0 one_cpu)"
  define s2 where "s2 = acquire_swap 0 7 s1"
  have r0: "lkreach (one_cpu, \<lambda>_. 0)" by (rule lkreach.start) (simp add: lkinit_def one_cpu_def)
  have "lkstep (one_cpu, \<lambda>_. 0) (s1, \<lambda>_. 0)"
    by (rule lkstep.enter [of _ 0 7]) (simp_all add: s1_def acquire_enter_def holding_def one_cpu_def)
  then have "lkreach (s1, \<lambda>_. 0)" by (rule lkreach.more [OF r0])
  moreover have "lkstep (s1, \<lambda>_. 0) (s2, \<lambda>_. 0)"
    unfolding s2_def by (rule lkstep.swap) (simp add: s1_def)
  ultimately have r: "lkreach (s2, \<lambda>_. 0)" by (rule lkreach.more)
  have "owner s2 0 7" "c_sie (cpus s2 1)"
    by (simp_all add: s2_def s1_def acquire_swap_def Let_def one_cpu_def owner_def)
  with r spinlock_mutex [OF r, of 0 7] show ?thesis by (metis one_neq_zero)
qed

end
