(* ===== verification/Fsprop.thy ===== *)
theory Fsprop
  imports Fsdir
begin

text \<open>
  Properties of the file system: the on-disk form of inodes, the free map, the table of inodes in use, and path names.
\<close>

section \<open>Inodes on disk\<close>

definition addrs_in :: "nat list \<Rightarrow> bool" where
  "addrs_in is \<longleftrightarrow> (\<forall>i\<in>set is. i < 13)"

lemma store_addrs_other:
  "b < off + 12 \<or> off + 64 \<le> b \<Longrightarrow> addrs_in is \<Longrightarrow> store_addrs is m off a b = m b"
proof (induction "is" arbitrary: m)
  case (Cons i js)
  then have "b < off + 12 + 4 * i \<or> off + 12 + 4 * i + 4 \<le> b" by (auto simp: addrs_in_def)
  then have "st32 m (off + 12 + 4 * i) (a i) b = m b" by (rule st32_other)
  then show ?case using Cons by (simp add: addrs_in_def)
qed simp

lemma store_addrs_not_in:
  "j \<notin> set is \<Longrightarrow> ld32 (store_addrs is m off a) (off + 12 + 4 * j) = ld32 m (off + 12 + 4 * j)"
proof (induction "is" arbitrary: m)
  case (Cons i js)
  then have "off + 12 + 4 * i + 4 \<le> off + 12 + 4 * j \<or> off + 12 + 4 * j + 4 \<le> off + 12 + 4 * i" by auto
  then show ?case using Cons by (simp add: ld32_st32_other)
qed simp

lemma store_addrs_in:
  "j \<in> set is \<Longrightarrow> distinct is \<Longrightarrow> ld32 (store_addrs is m off a) (off + 12 + 4 * j) = a j"
proof (induction "is" arbitrary: m)
  case (Cons i js)
  then show ?case by (cases "j = i") (auto simp: store_addrs_not_in ld32_st32)
qed simp

lemma addrs_in_upt: "addrs_in [0..<13]" by (simp add: addrs_in_def)

lemma ld16_cong: "m a = m' a \<Longrightarrow> m (a + 1) = m' (a + 1) \<Longrightarrow> ld16 m a = ld16 m' a"
  by (simp add: ld16_def)

lemma ld32_st16_other: "a + 2 \<le> b \<or> b + 4 \<le> a \<Longrightarrow> ld32 (st16 m a v) b = ld32 m b"
  and ld16_st32_other: "a + 4 \<le> b \<or> b + 2 \<le> a \<Longrightarrow> ld16 (st32 m a w) b = ld16 m b"
  and st16_other: "i < a \<or> a + 2 \<le> i \<Longrightarrow> st16 m a v i = m i"
  by (auto simp: ld32_def ld16_def st16_def st32_def)

text \<open>Storing an inode and loading it back, and what the store leaves alone.\<close>

lemma store_dinode_eq:
  "load_dinode (store_dinode m off d) off
     = d\<lparr>d_addrs := (\<lambda>i. if i < 13 then d_addrs d i else ld32 m (off + 12 + 4 * i))\<rparr>
   \<and> (\<forall>i. i < off \<or> off + 64 \<le> i \<longrightarrow> store_dinode m off d i = m i)"
proof -
  define m1 where "m1 = st32 (st16 (st16 (st16 (st16 m off (d_type d)) (off + 2) (d_major d)) (off + 4) (d_minor d))
     (off + 6) (d_nlink d)) (off + 8) (d_size d)"
  have sd: "store_dinode m off d = store_addrs [0..<13] m1 off (d_addrs d)"
    by (simp add: store_dinode_def m1_def Let_def del: upt_Suc)
  have lo: "store_dinode m off d b = m1 b" if "b < off + 12 \<or> off + 64 \<le> b" for b
    unfolding sd by (rule store_addrs_other [OF that addrs_in_upt])
  have f16: "ld16 (store_dinode m off d) b = ld16 m1 b" if "b + 2 \<le> off + 12" for b
    using that by (intro ld16_cong lo) auto
  have "ld32 (store_dinode m off d) (off + 8) = ld32 m1 (off + 8)"
    by (intro ld32_cong lo) auto
  then have hdr: "ld16 (store_dinode m off d) off = d_type d" "ld16 (store_dinode m off d) (off + 2) = d_major d"
      "ld16 (store_dinode m off d) (off + 4) = d_minor d" "ld16 (store_dinode m off d) (off + 6) = d_nlink d"
      "ld32 (store_dinode m off d) (off + 8) = d_size d"
    by (simp_all add: f16) (simp_all add: m1_def ld16_st32_other ld16_st16_other ld16_st16 ld32_st32)
  have hi: "m1 i = m i" if "off + 12 \<le> i" for i
    using that by (simp add: m1_def st32_other st16_other)
  have ad: "ld32 (store_dinode m off d) (off + 12 + 4 * i) = (if i < 13 then d_addrs d i else ld32 m (off + 12 + 4 * i))" for i
  proof (cases "i < 13")
    case True
    then show ?thesis unfolding sd by (simp add: store_addrs_in del: upt_Suc)
  next
    case False
    then have "ld32 (store_dinode m off d) (off + 12 + 4 * i) = ld32 m1 (off + 12 + 4 * i)"
      unfolding sd by (intro store_addrs_not_in) simp
    also have "\<dots> = ld32 m (off + 12 + 4 * i)" by (intro ld32_cong hi) simp
    finally show ?thesis using False by simp
  qed
  have "store_dinode m off d i = m i" if "i < off \<or> off + 64 \<le> i" for i
    using that lo [of i] by (auto simp: m1_def st32_other st16_other)
  moreover have "load_dinode (store_dinode m off d) off
     = d\<lparr>d_addrs := (\<lambda>i. if i < 13 then d_addrs d i else ld32 m (off + 12 + 4 * i))\<rparr>"
    unfolding load_dinode_def hdr ad by simp
  ultimately show ?thesis by blast
qed

lemma load_store_dinode: "load_dinode (store_dinode m off d) off
    = d\<lparr>d_addrs := (\<lambda>i. if i < 13 then d_addrs d i else ld32 m (off + 12 + 4 * i))\<rparr>"
  and store_dinode_other: "i < off \<or> off + 64 \<le> i \<Longrightarrow> store_dinode m off d i = m i"
  using store_dinode_eq by blast+

text \<open>C33: An inode written into a block and read back from the same place is the same inode, and the rest of the block,
  the other fifteen inodes in it included, is not touched.\<close>

theorem dinode_roundtrip:
  "load_dinode (store_dinode m off d) off
     = d\<lparr>d_addrs := (\<lambda>i. if i < 13 then d_addrs d i else ld32 m (off + 12 + 4 * i))\<rparr>
   \<and> {i. store_dinode m off d i \<noteq> m i} \<subseteq> {off..<off + 64}"
  using store_dinode_eq [of m off d] by (auto simp: load_store_dinode not_less) (metis not_le store_dinode_other)+

section \<open>Path names\<close>

text \<open>The elements of a path, by the reference definition: the nonempty pieces between slashes.\<close>

function path_elems :: "u8 list \<Rightarrow> u8 list list" where
  "path_elems [] = []"
| "path_elems (c # cs) =
     (if c = SLASH then path_elems cs
      else (c # takeWhile (\<lambda>x. x \<noteq> SLASH) cs) # path_elems (dropWhile (\<lambda>x. x \<noteq> SLASH) cs))"
  by pat_completeness auto
termination by (relation "measure length") (auto simp: less_Suc_eq_le length_dropWhile_le)

text \<open>What repeated \<^verbatim>\<open>skipelem\<close> finds in a path: the name buffers it leaves, as strings of at most \<^verbatim>\<open>DIRSIZ\<close> bytes.\<close>

definition buf_name :: "bytes \<Rightarrow> u8 list" where
  "buf_name b = takeWhile (\<lambda>c. c \<noteq> 0) (map b [0..<DIRSIZ])"

fun skip_all :: "nat \<Rightarrow> u8 list \<Rightarrow> bytes \<Rightarrow> u8 list list option" where
  "skip_all 0 path name = None"
| "skip_all (Suc n) path name = (case skipelem path name of
     None \<Rightarrow> Some []
   | Some (path, name) \<Rightarrow> map_option ((#) (buf_name name)) (skip_all n path name))"

lemma skip_slashes_dropWhile: "skip_slashes p = dropWhile (\<lambda>c. c = SLASH) p"
  by (induction p) auto

lemma elem_len_takeWhile: "elem_len p = length (takeWhile (\<lambda>c. c \<noteq> SLASH) p)"
  by (induction p) auto

lemma path_elems_skip: "path_elems (skip_slashes p) = path_elems p"
  by (induction p) auto

lemma skip_slashes_head: "skip_slashes p = c # cs \<Longrightarrow> c \<noteq> SLASH"
  by (induction p) (auto split: if_splits)

lemma skip_slashes_length: "length (skip_slashes p) \<le> length p"
  by (induction p) auto

lemma takeWhile_stop: "z \<notin> set e \<Longrightarrow> takeWhile (\<lambda>c. c \<noteq> z) (e @ z # zs) = e"
  by (induction e) auto

lemma buf_name_blit:
  assumes "0 \<notin> set e"
  shows "buf_name (if length e \<ge> DIRSIZ then blit b 0 (list_bytes (e @ r)) 0 DIRSIZ
      else (blit b 0 (list_bytes (e @ r)) 0 (length e))(length e := 0)) = take 14 e"
proof (cases "length e \<ge> 14")
  case True
  have m: "map (blit b 0 (list_bytes (e @ r)) 0 14) [0..<14] = take 14 e"
    using True by (intro nth_equalityI) (auto simp: blit_def list_bytes_def nth_append)
  have "takeWhile (\<lambda>c. c \<noteq> 0) (take 14 e) = take 14 e"
    using assms by (simp add: takeWhile_eq_all_conv) (metis in_set_takeD)
  then show ?thesis using True m by (simp add: buf_name_def)
next
  case False
  let ?b = "(blit b 0 (list_bytes (e @ r)) 0 (length e))(length e := 0)"
  have "[0..<14] = [0..<length e] @ length e # [Suc (length e)..<14]"
    using False upt_add_eq_append [of 0 "length e" "14 - length e"] upt_conv_Cons [of "length e" 14] by simp
  moreover have "map ?b [0..<length e] = e"
    by (intro nth_equalityI) (auto simp: blit_def list_bytes_def nth_append)
  ultimately have "takeWhile (\<lambda>c. c \<noteq> 0) (map ?b [0..<14]) = e"
    using assms by (simp add: takeWhile_stop)
  then show ?thesis using False by (simp add: buf_name_def)
qed

text \<open>C32: Iterating \<^verbatim>\<open>skipelem\<close> over a path ends after as many steps as the path has bytes and finds exactly its
  elements, the nonempty pieces between slashes, each cut to \<^verbatim>\<open>DIRSIZ\<close> bytes; leading, trailing and repeated
  slashes make no difference.\<close>

theorem skipelem_elements:
  assumes "0 \<notin> set path" and "length path < n"
  shows "skip_all n path name = Some (map (take 14) (path_elems path))"
  using assms
proof (induction n arbitrary: path name)
  case 0
  then show ?case by simp
next
  case (Suc n)
  show ?case
  proof (cases "skip_slashes path")
    case Nil
    then have "path_elems path = []" using path_elems_skip [of path] by simp
    then show ?thesis by (simp add: skipelem_def Nil)
  next
    case (Cons c cs)
    define e where "e = c # takeWhile (\<lambda>x. x \<noteq> SLASH) cs"
    define r where "r = dropWhile (\<lambda>x. x \<noteq> SLASH) cs"
    have c: "c \<noteq> SLASH" using skip_slashes_head [OF Cons] .
    have er: "skip_slashes path = e @ r" by (simp add: Cons e_def r_def)
    have len: "elem_len (skip_slashes path) = length e" unfolding Cons by (simp add: elem_len_takeWhile e_def c)
    have sub: "set (e @ r) \<subseteq> set path" unfolding er [symmetric] skip_slashes_dropWhile by (meson set_dropWhileD subsetI)
    have nz: "0 \<notin> set e" "0 \<notin> set (skip_slashes r)"
      using Suc.prems(1) sub by (auto simp: skip_slashes_dropWhile dest: set_dropWhileD)
    have pe: "path_elems path = e # path_elems (skip_slashes r)"
      using path_elems_skip [of path] c by (simp add: Cons e_def r_def path_elems_skip)
    have short: "length (skip_slashes r) < n"
    proof -
      have "length (e @ r) \<le> length path" using skip_slashes_length [of path] er by simp
      then show ?thesis using Suc.prems(2) skip_slashes_length [of r] by (simp add: e_def)
    qed
    let ?nm = "if length e \<ge> DIRSIZ then blit name 0 (list_bytes (e @ r)) 0 DIRSIZ
      else (blit name 0 (list_bytes (e @ r)) 0 (length e))(length e := 0)"
    have "skipelem path name = Some (skip_slashes r, ?nm)"
      unfolding skipelem_def Let_def len unfolding er by (simp add: e_def)
    then show ?thesis using Suc.IH [OF nz(2) short, of ?nm] buf_name_blit [OF nz(1), of name r] by (simp add: pe)
  qed
qed

lemma skipelem_elements_witness:
  "skip_all 9 [47, 97, 47, 47, 98, 98, 47] (\<lambda>_. 7) = Some [[97], [98, 98]]"
  using skipelem_elements [of "[47, 97, 47, 47, 98, 98, 47]" 9 "\<lambda>_. 7"] by (simp add: SLASH_def)

section \<open>The table of inodes in use\<close>

text \<open>No two entries in use stand for the same inode.\<close>

definition itable_ok :: "'z fstate_scheme \<Rightarrow> bool" where
  "itable_ok s \<longleftrightarrow> (\<forall>i<NINODE. 0 \<le> i_ref (itable s i))
     \<and> (\<forall>i<NINODE. \<forall>j<NINODE. 0 < i_ref (itable s i) \<longrightarrow> 0 < i_ref (itable s j)
         \<longrightarrow> i_dev (itable s i) = i_dev (itable s j) \<longrightarrow> i_inum (itable s i) = i_inum (itable s j) \<longrightarrow> i = j)"

definition in_use_for :: "u32 \<Rightarrow> u32 \<Rightarrow> 'z fstate_scheme \<Rightarrow> nat \<Rightarrow> bool" where
  "in_use_for dev inum s i \<longleftrightarrow> i < NINODE \<and> 0 < i_ref (itable s i) \<and> i_dev (itable s i) = dev \<and> i_inum (itable s i) = inum"

text \<open>C31: \<^verbatim>\<open>iget\<close> gives one table entry for an inode however often it is asked. If an entry is in use for the inode, it
  is the only one and the result, with one more reference and nothing else changed. Otherwise the result is the first
  entry without references, which now stands for the inode with one reference and contents not yet valid. No other
  entry and no other part of the state changes, and the entries in use stay distinct. It panics exactly when the inode
  has no entry and all entries are in use.\<close>

theorem iget_spec:
  assumes ok: "itable_ok s"
  shows "(case iget dev inum s of
      Inl e \<Rightarrow> e = Panic ''iget: no inodes'' \<and> (\<forall>i<NINODE. 0 < i_ref (itable s i) \<and> \<not> in_use_for dev inum s i)
    | Inr (ip, s') \<Rightarrow> ip < NINODE \<and> itable_ok s' \<and> in_use_for dev inum s' ip
        \<and> (if \<exists>i. in_use_for dev inum s i
           then (\<forall>i. in_use_for dev inum s i \<longleftrightarrow> i = ip)
             \<and> s' = s\<lparr>itable := (itable s)(ip := (itable s ip)\<lparr>i_ref := i_ref (itable s ip) + 1\<rparr>)\<rparr>
           else i_ref (itable s ip) = 0 \<and> (\<forall>i<ip. 0 < i_ref (itable s i))
             \<and> s' = s\<lparr>itable := (itable s)(ip :=
                 (itable s ip)\<lparr>i_dev := dev, i_inum := inum, i_ref := 1, i_valid := False\<rparr>)\<rparr>))"
proof -
  have pos: "0 \<le> i_ref (itable s i)" if "i < NINODE" for i using ok that unfolding itable_ok_def by blast
  have uq: "i = j" if "i < NINODE" "j < NINODE" "0 < i_ref (itable s i)" "0 < i_ref (itable s j)"
      "i_dev (itable s i) = i_dev (itable s j)" "i_inum (itable s i) = i_inum (itable s j)" for i j
    using ok that unfolding itable_ok_def by blast
  have uq': "i = j" if "in_use_for dev inum s i" "in_use_for dev inum s j" for i j
    using that by (intro uq) (simp_all add: in_use_for_def)
  let ?hit = "\<lambda>i. i_ref (itable s i) > 0 \<and> i_dev (itable s i) = dev \<and> i_inum (itable s i) = inum"
  show ?thesis
  proof (cases "first_index ?hit NINODE")
    case (Some ip)
    note H = first_index_SomeD [OF Some]
    let ?t = "set_inode ip (i_ref_update (\<lambda>r. r + 1)) s"
    have e: "iget dev inum s = Inr (ip, ?t)" unfolding iget_def Some by simp
    have u: "in_use_for dev inum s ip" using H by (simp add: in_use_for_def)
    then have "\<forall>i. in_use_for dev inum s i \<longleftrightarrow> i = ip" using uq' by blast
    moreover have "itable_ok ?t"
      unfolding itable_ok_def using H(1,2) pos uq by (auto simp: set_inode_def split: if_splits simp del: param_simps)
    moreover have "in_use_for dev inum ?t ip" using H by (simp add: in_use_for_def set_inode_def del: param_simps)
    moreover have "?t = s\<lparr>itable := (itable s)(ip := (itable s ip)\<lparr>i_ref := i_ref (itable s ip) + 1\<rparr>)\<rparr>"
      by (cases "itable s ip") (simp add: set_inode_def)
    moreover have ex: "\<exists>i. in_use_for dev inum s i" using u by blast
    ultimately show ?thesis unfolding e sum.case prod.case if_P [OF ex] using H(1) by blast
  next
    case None
    then have nohit: "\<not> ?hit i" if "i < NINODE" for i using that unfolding first_index_None_iff by blast
    then have no: "\<not> in_use_for dev inum s i" for i by (auto simp: in_use_for_def simp del: param_simps)
    show ?thesis
    proof (cases "first_index (\<lambda>i. i_ref (itable s i) = 0) NINODE")
      case none: None
      then have "iget dev inum s = Inl (Panic ''iget: no inodes'')" unfolding iget_def None by simp
      moreover have "0 < i_ref (itable s i)" if "i < NINODE" for i
        using none pos [OF that] that unfolding first_index_None_iff by force
      ultimately show ?thesis using no by simp
    next
      case (Some ip)
      note Z = first_index_SomeD [OF Some]
      let ?t = "set_inode ip (\<lambda>n. n\<lparr>i_dev := dev, i_inum := inum, i_ref := 1, i_valid := False\<rparr>) s"
      have e: "iget dev inum s = Inr (ip, ?t)" unfolding iget_def None Some by simp
      have "itable_ok ?t"
        unfolding itable_ok_def using Z(1,2) pos uq nohit by (auto simp: set_inode_def split: if_splits simp del: param_simps)
      moreover have "in_use_for dev inum ?t ip" using Z by (simp add: in_use_for_def set_inode_def del: param_simps)
      moreover have "0 < i_ref (itable s i)" if "i < ip" for i
        using Z(1,3) pos [of i] that by force
      moreover have nex: "\<not> (\<exists>i. in_use_for dev inum s i)" using no by blast
      moreover have "?t = s\<lparr>itable := (itable s)(ip :=
          (itable s ip)\<lparr>i_dev := dev, i_inum := inum, i_ref := 1, i_valid := False\<rparr>)\<rparr>"
        by (simp add: set_inode_def)
      ultimately show ?thesis unfolding e sum.case prod.case if_not_P [OF nex] using Z(1,2) by blast
    qed
  qed
qed

lemma iget_spec_witness:
  "\<exists>s'. iget 1 7 (zero_f\<lparr>itable := (\<lambda>_. zero_inode)(0 := zero_inode\<lparr>i_ref := 2, i_dev := 1, i_inum := 5\<rparr>)\<rparr>) = Inr (1, s')
    \<and> i_ref (itable s' 1) = 1 \<and> i_inum (itable s' 1) = 7 \<and> i_inum (itable s' 0) = 5"
proof -
  let ?T = "(\<lambda>_. zero_inode)(0 := zero_inode\<lparr>i_ref := 2, i_dev := 1, i_inum := 5\<rparr>)"
  let ?s = "zero_f\<lparr>itable := ?T\<rparr>"
  have ok: "itable_ok ?s" by (simp add: itable_ok_def zero_inode_def)
  have no: "\<not> in_use_for 1 7 ?s i" for i by (simp add: in_use_for_def zero_inode_def)
  show ?thesis
  proof (cases "iget 1 7 ?s")
    case (Inl e)
    then show ?thesis using iget_spec [OF ok, of 1 7] by (auto simp: zero_inode_def dest: spec [of _ 1])
  next
    case (Inr a)
    obtain ip s' where a: "a = (ip, s')" by (cases a)
    have z: "i_ref (?T i) = (if i = 0 then 2 else 0)" for i by (simp add: zero_inode_def)
    have nex: "\<not> (\<exists>i. in_use_for 1 7 ?s i)" using no by blast
    have it: "itable ?s = ?T" by simp
    note sp = iget_spec [OF ok, of 1 7, unfolded Inr a sum.case prod.case if_not_P [OF nex], unfolded it]
    have "i_ref (?T ip) = 0" "\<forall>i<ip. 0 < i_ref (?T i)"
      and s': "s' = ?s\<lparr>itable := ?T(ip := (?T ip)\<lparr>i_dev := 1, i_inum := 7, i_ref := 1, i_valid := False\<rparr>)\<rparr>"
      using sp by blast+
    then have "ip = 1" unfolding z by (cases ip) (force split: if_splits)+
    then show ?thesis using s' by (simp add: Inr a)
  qed
qed

end
