(* ===== verification/Fsblock.thy ===== *)
theory Fsblock
  imports Fs
begin

text \<open>
  The blocks of the file system inside a transaction: what \<^verbatim>\<open>bread\<close>, \<^verbatim>\<open>log_write\<close> and \<^verbatim>\<open>brelse\<close> do to the
  blocks as a client sees them (\<open>view\<close>), and on that basis \<^verbatim>\<open>bzero\<close>, \<^verbatim>\<open>balloc\<close> and \<^verbatim>\<open>bfree\<close> with the
  free map.
\<close>

section \<open>Frames and room\<close>

text \<open>
  What operations on blocks leave alone: everything but the buffers, the table of the log, and the state of
  processes they wake.
\<close>

definition fkeep :: "'z fstate_scheme \<Rightarrow> 'z fstate_scheme \<Rightarrow> bool" where
  "fkeep s s' \<longleftrightarrow> (\<exists>bf n bl pr. s' = s\<lparr>bufs := bf, lh_n := n, lh_block := bl, procs := pr\<rparr>
     \<and> (\<forall>p. \<exists>st. pr p = (procs s p)\<lparr>p_state := st\<rparr>))"

lemma fkeepI:
  "s' = s\<lparr>bufs := bf, lh_n := n, lh_block := bl, procs := pr\<rparr> \<Longrightarrow>
   (\<And>p. \<exists>st. pr p = (procs s p)\<lparr>p_state := st\<rparr>) \<Longrightarrow> fkeep s s'"
  unfolding fkeep_def by blast

lemma same_state: "\<exists>st. q = q\<lparr>p_state := st\<rparr>" for q :: proc
  by (rule exI [of _ "p_state q"]) simp

lemma fkeep_refl [simp]: "fkeep s s"
  by (rule fkeepI [where bf = "bufs s" and n = "lh_n s" and bl = "lh_block s" and pr = "procs s"])
    (simp_all add: same_state)

lemma fkeep_trans [trans]: "fkeep s t \<Longrightarrow> fkeep t u \<Longrightarrow> fkeep s u"
proof -
  assume "fkeep s t" and "fkeep t u"
  then obtain bf n bl pr bf' n' bl' pr' where t: "t = s\<lparr>bufs := bf, lh_n := n, lh_block := bl, procs := pr\<rparr>"
    "u = t\<lparr>bufs := bf', lh_n := n', lh_block := bl', procs := pr'\<rparr>"
    and p: "\<And>p. \<exists>st. pr p = (procs s p)\<lparr>p_state := st\<rparr>" "\<And>p. \<exists>st. pr' p = (procs t p)\<lparr>p_state := st\<rparr>"
    unfolding fkeep_def by blast
  show ?thesis
  proof (rule fkeepI)
    show "u = s\<lparr>bufs := bf', lh_n := n', lh_block := bl', procs := pr'\<rparr>" using t by simp
    show "\<exists>st. pr' q = (procs s q)\<lparr>p_state := st\<rparr>" for q
    proof -
      obtain st st' where "pr q = (procs s q)\<lparr>p_state := st\<rparr>" "pr' q = (procs t q)\<lparr>p_state := st'\<rparr>"
        using p [of q] by blast
      then have "pr' q = (procs s q)\<lparr>p_state := st'\<rparr>" by (simp add: t(1))
      then show ?thesis by blast
    qed
  qed
qed

lemma fkeep_bufs: "fkeep s (s\<lparr>bufs := bf\<rparr>)"
  by (rule fkeepI [where bf = bf and n = "lh_n s" and bl = "lh_block s" and pr = "procs s"])
    (simp_all add: same_state)

lemma only_bufs_fkeep: "only_bufs s s' \<Longrightarrow> fkeep s s'"
  by (erule only_bufsE) (simp add: fkeep_bufs)

lemma fkeep_wakeup: "fkeep s (wakeup ch s)"
  unfolding wakeup_def
  by (rule fkeepI [where bf = "bufs s" and n = "lh_n s" and bl = "lh_block s"]) (auto intro: same_state)

lemma fkeep_lh: "fkeep s (s\<lparr>lh_block := bl\<rparr>)" "fkeep s (s\<lparr>lh_n := n\<rparr>)"
  by (rule fkeepI [where bf = "bufs s" and n = "lh_n s" and bl = bl and pr = "procs s"];
      simp add: same_state)
    (rule fkeepI [where bf = "bufs s" and n = n and bl = "lh_block s" and pr = "procs s"];
      simp add: same_state)

lemma fkeepD:
  assumes "fkeep s s'"
  shows "sb s' = sb s" "itable s' = itable s" "disk s' = disk s" "dtrace s' = dtrace s"
    "log_start s' = log_start s" "log_size s' = log_size s" "log_dev s' = log_dev s"
    "log_outstanding s' = log_outstanding s" "log_committing s' = log_committing s"
    "log_area s' = log_area s" "pmem s' = pmem s" "curproc s' = curproc s" "kend s' = kend s"
    "freelist s' = freelist s" "p_pagetable (procs s' p) = p_pagetable (procs s p)"
    "p_pid (procs s' p) = p_pid (procs s p)" "p_sz (procs s' p) = p_sz (procs s p)"
proof -
  obtain bf n bl pr where t: "s' = s\<lparr>bufs := bf, lh_n := n, lh_block := bl, procs := pr\<rparr>"
    "\<exists>st. pr p = (procs s p)\<lparr>p_state := st\<rparr>"
    using assms unfolding fkeep_def by blast
  then show "sb s' = sb s" "itable s' = itable s" "disk s' = disk s" "dtrace s' = dtrace s"
    "log_start s' = log_start s" "log_size s' = log_size s" "log_dev s' = log_dev s"
    "log_outstanding s' = log_outstanding s" "log_committing s' = log_committing s"
    "log_area s' = log_area s" "pmem s' = pmem s" "curproc s' = curproc s" "kend s' = kend s"
    "freelist s' = freelist s" "p_pagetable (procs s' p) = p_pagetable (procs s p)"
    "p_pid (procs s' p) = p_pid (procs s p)" "p_sz (procs s' p) = p_sz (procs s p)"
    by (auto simp: log_area_def)
qed

text \<open>The cache and the log are in order; in a transaction, moreover, an operation is under way.\<close>

definition calm :: "'z lstate_scheme \<Rightarrow> bool" where
  "calm s \<longleftrightarrow> bc_inv s \<and> log_ok s"

definition txn :: "'z lstate_scheme \<Rightarrow> bool" where
  "txn s \<longleftrightarrow> bc_inv s \<and> log_ok s \<and> 1 \<le> log_outstanding s"

text \<open>\<open>k\<close> more blocks fit into the log and \<open>l\<close> more buffers can be taken.\<close>

definition room :: "nat \<Rightarrow> nat \<Rightarrow> 'z lstate_scheme \<Rightarrow> bool" where
  "room k l s \<longleftrightarrow> int (card (logged s)) + int k < log_size s \<and> card (logged s) + card (lockset s) + k + l \<le> NBUF"

lemma room_mono: "room k l s \<Longrightarrow> k' \<le> k \<Longrightarrow> l' \<le> l \<Longrightarrow> room k' l' s"
  by (auto simp: room_def)

lemma finite_lockset [simp]: "finite (lockset s)"
proof -
  have "lockset s \<subseteq> (\<lambda>i. b_blockno (bufs s i)) ` {..<NBUF}" by (auto simp: lockset_def caches_def)
  then show ?thesis by (rule finite_subset) simp
qed

lemma finite_logged [simp]: "finite (logged s)"
  by (simp add: logged_def)

lemma calmD: "calm s \<Longrightarrow> bc_inv s" "calm s \<Longrightarrow> log_ok s" "calm s \<Longrightarrow> pinset s = logged s"
  by (simp_all add: calm_def log_ok_def)

lemma txn_iff: "txn s \<longleftrightarrow> calm s \<and> 1 \<le> log_outstanding s"
  by (auto simp: txn_def calm_def)

lemma txnD: "txn s \<Longrightarrow> bc_inv s" "txn s \<Longrightarrow> log_ok s" "txn s \<Longrightarrow> pinset s = logged s"
  by (simp_all add: txn_def log_ok_def)

text \<open>Operations on buffers leave the log alone.\<close>

lemma only_bufs_log: "only_bufs s s' \<Longrightarrow> logged s' = logged s \<and> log_size s' = log_size s \<and> log_area s' = log_area s
    \<and> log_outstanding s' = log_outstanding s \<and> lh_n s' = lh_n s"
  by (erule only_bufsE) (simp add: logged_def log_area_def)

lemma log_ok_bufs: "only_bufs s s' \<Longrightarrow> pinset s' = pinset s \<Longrightarrow> log_ok s' = log_ok s"
  using log_ok_frame only_bufs_log_frame by blast

section \<open>One block\<close>

lemma bread_c:
  assumes "calm s" and "b \<notin> lockset s" and "room k (Suc l) s"
  shows "runs (bread ROOTDEV b s) (\<lambda>i s'. calm s' \<and> held s' i b \<and> view s' = view s
    \<and> lockset s' = insert b (lockset s) \<and> logged s' = logged s \<and> room k l s' \<and> fkeep s s'
    \<and> (\<forall>j c. held s j c \<longrightarrow> j \<noteq> i \<and> held s' j c))"
proof -
  have "card (lockset s \<union> pinset s) \<le> card (lockset s) + card (logged s)"
    unfolding calmD(3) [OF assms(1)] by (rule card_Un_le)
  then have "card (lockset s \<union> pinset s) < NBUF"
    using assms(3) unfolding room_def by linarith
  then have r: "card (lockset s \<union> pinset s) < NBUF \<or> b \<in> pinset s" by blast
  show ?thesis
  proof (rule runs_mono [OF bread_runs [OF calmD(1) [OF assms(1)] assms(2) r]])
    fix i s'
    assume "bc_inv s' \<and> held s' i b \<and> view s' = view s \<and> lockset s' = insert b (lockset s) \<and> pinset s' = pinset s
      \<and> disk s' = disk s \<and> dtrace s' = dtrace s \<and> only_bufs s s' \<and> (\<forall>j c. held s j c \<longrightarrow> j \<noteq> i \<and> held s' j c)"
    then have p: "bc_inv s'" "held s' i b" "view s' = view s" "lockset s' = insert b (lockset s)"
      "pinset s' = pinset s" "only_bufs s s'" "\<forall>j c. held s j c \<longrightarrow> j \<noteq> i \<and> held s' j c" by blast+
    note lg = only_bufs_log [OF p(6)]
    have "calm s'" using assms(1) p(1) lg log_ok_bufs [OF p(6,5)] by (simp add: calm_def)
    moreover have "room k l s'" using assms(2,3) lg by (simp add: room_def p(4))
    ultimately show "calm s' \<and> held s' i b \<and> view s' = view s \<and> lockset s' = insert b (lockset s)
      \<and> logged s' = logged s \<and> room k l s' \<and> fkeep s s' \<and> (\<forall>j c. held s j c \<longrightarrow> j \<noteq> i \<and> held s' j c)"
      using p lg only_bufs_fkeep [OF p(6)] by blast
  qed
qed

lemma bread_f:
  assumes "txn s" and "b \<notin> lockset s" and "room k (Suc l) s"
  shows "runs (bread ROOTDEV b s) (\<lambda>i s'. txn s' \<and> held s' i b \<and> view s' = view s
    \<and> lockset s' = insert b (lockset s) \<and> logged s' = logged s \<and> room k l s' \<and> fkeep s s'
    \<and> (\<forall>j c. held s j c \<longrightarrow> j \<noteq> i \<and> held s' j c))"
proof -
  have "calm s" using assms(1) by (simp add: txn_iff)
  then show ?thesis
    by (rule runs_mono [OF bread_c [OF _ assms(2,3)]]) (use assms(1) fkeepD(8) in \<open>force simp: txn_iff\<close>)
qed

lemma modify_f:
  fixes s :: "'z fstate_scheme" and f :: "bytes \<Rightarrow> bytes"
  assumes "txn s" and "held s i b"
  defines "s' \<equiv> modify_data i f s"
  shows "txn s'" "held s' i b" "view s' = (view s)(b := f (view s b))" "lockset s' = lockset s"
    "logged s' = logged s" "room k l s' = room k l s" "fkeep s s'" "\<And>j c. held s j c \<Longrightarrow> held s' j c"
proof -
  note m = modify_data_runs [OF txnD(1) [OF assms(1)] assms(2), where f = f, folded s'_def]
  note lg = only_bufs_log [OF m(6)]
  show "txn s'" using assms(1) m(1) lg log_ok_bufs [OF m(6,5)] by (simp add: txn_def)
  show "held s' i b" "view s' = (view s)(b := f (view s b))" "lockset s' = lockset s" "fkeep s s'"
    "\<And>j c. held s j c \<Longrightarrow> held s' j c" using m(2,3,4,9) only_bufs_fkeep [OF m(6)] by blast+
  show "logged s' = logged s" "room k l s' = room k l s" using lg m(4) by (simp_all add: room_def)
qed

lemma brelse_c:
  assumes "calm s" and "held s i b" and "b \<in> logged s \<or> view s b = disk s b" and "room k l s"
  shows "runs (brelse i s) (\<lambda>_ s'. calm s' \<and> view s' = view s \<and> lockset s' = lockset s - {b} \<and> logged s' = logged s
    \<and> room k (Suc l) s' \<and> fkeep s s' \<and> (\<forall>j c. j \<noteq> i \<longrightarrow> held s j c \<longrightarrow> held s' j c))"
proof -
  have cl: "b \<in> pinset s \<or> view s b = disk s b" using assms(3) calmD(3) [OF assms(1)] by simp
  show ?thesis
  proof (rule runs_mono [OF brelse_runs [OF calmD(1) [OF assms(1)] assms(2) cl]])
    fix u s'
    let ?w = "wakeup (ChBufLock i) s"
    assume "bc_inv s' \<and> view s' = view s \<and> lockset s' = lockset s - {b} \<and> pinset s' = pinset s \<and> disk s' = disk s
      \<and> dtrace s' = dtrace s \<and> only_bufs ?w s' \<and> (\<forall>j c. j \<noteq> i \<longrightarrow> held s j c \<longrightarrow> held s' j c)"
    then have p: "bc_inv s'" "view s' = view s" "lockset s' = lockset s - {b}" "pinset s' = pinset s"
      "only_bufs ?w s'" "\<forall>j c. j \<noteq> i \<longrightarrow> held s j c \<longrightarrow> held s' j c" by blast+
    have "logged ?w = logged s" by (simp add: logged_def)
    then have lg: "logged s' = logged s" "log_size s' = log_size s" "log_outstanding s' = log_outstanding s"
      using only_bufs_log [OF p(5)] by simp_all
    have fr: "log_frame s s'" using only_bufs_log_frame [OF p(5)] by (simp add: log_frame_wakeup)
    have b: "b \<in> lockset s" using assms(2) by (rule held_lockset)
    then have "card (lockset s) = Suc (card (lockset s - {b}))" using card.remove [of "lockset s" b] by simp
    then have "room k (Suc l) s'" using assms(4) lg by (simp add: room_def p(3))
    moreover have "calm s'" using assms(1) p(1) lg log_ok_frame [OF fr p(4)] by (simp add: calm_def)
    moreover have "fkeep s s'" using fkeep_wakeup only_bufs_fkeep [OF p(5)] by (rule fkeep_trans)
    ultimately show "calm s' \<and> view s' = view s \<and> lockset s' = lockset s - {b} \<and> logged s' = logged s
      \<and> room k (Suc l) s' \<and> fkeep s s' \<and> (\<forall>j c. j \<noteq> i \<longrightarrow> held s j c \<longrightarrow> held s' j c)"
      using p lg(1) by blast
  qed
qed

lemma brelse_f:
  assumes "txn s" and "held s i b" and "b \<in> logged s \<or> view s b = disk s b" and "room k l s"
  shows "runs (brelse i s) (\<lambda>_ s'. txn s' \<and> view s' = view s \<and> lockset s' = lockset s - {b} \<and> logged s' = logged s
    \<and> room k (Suc l) s' \<and> fkeep s s' \<and> (\<forall>j c. j \<noteq> i \<longrightarrow> held s j c \<longrightarrow> held s' j c))"
proof -
  have "calm s" using assms(1) by (simp add: txn_iff)
  then show ?thesis
    by (rule runs_mono [OF brelse_c [OF _ assms(2-4)]]) (use assms(1) fkeepD(8) in \<open>force simp: txn_iff\<close>)
qed

lemma bc_inv_lh [simp]:
  "room k l (s\<lparr>lh_block := bl\<rparr>) \<longleftrightarrow> int (card (bl ` {..<nat (lh_n s)})) + int k < log_size s
     \<and> card (bl ` {..<nat (lh_n s)}) + card (lockset s) + k + l \<le> NBUF"
  by (simp add: room_def logged_def)

text \<open>\<^verbatim>\<open>log_write\<close> of a block in the log's table and of a new one; only the number of the block matters.\<close>

lemma log_write_old:
  assumes "b_blockno (bufs s i) = b" and "b \<in> logged s" and "lh_n s = int (card (logged s))" and "1 \<le> log_outstanding s"
    and "int (card (logged s)) + 1 < log_size s" and "card (logged s) < LOGSIZE"
  shows "log_write i s = Inr ((), s)"
proof -
  let ?n = "nat (lh_n s)"
  obtain t where t: "t < ?n" "lh_block s t = b" using assms(2) by (auto simp: logged_def)
  obtain j where j: "first_index (\<lambda>i. lh_block s i = b) ?n = Some j"
    using first_index_Some_ex [of t ?n "\<lambda>i. lh_block s i = b"] t by blast
  note jd = first_index_SomeD [OF j]
  have lim: "\<not> lh_n s \<ge> int LOGSIZE" "\<not> lh_n s \<ge> log_size s - 1"
    using assms(3,5,6) by auto
  have "(lh_block s)(j := b) = lh_block s" using jd(2) by (auto simp: fun_eq_iff)
  then show ?thesis using lim assms(1,4) jd(1) by (simp add: log_write_def j Let_def)
qed

lemma log_write_new:
  assumes "b_blockno (bufs s i) = b" and "b \<notin> logged s" and "lh_n s = int (card (logged s))" and "1 \<le> log_outstanding s"
    and "int (card (logged s)) + 1 < log_size s" and "card (logged s) < LOGSIZE"
  shows "log_write i s = Inr ((), (bpin i (s\<lparr>lh_block := (lh_block s)(nat (lh_n s) := b)\<rparr>))\<lparr>lh_n := lh_n s + 1\<rparr>)"
proof -
  let ?n = "nat (lh_n s)"
  have "first_index (\<lambda>i. lh_block s i = b) ?n = None"
    using assms(2) unfolding first_index_None_iff by (auto simp: logged_def)
  moreover have "\<not> lh_n s \<ge> int LOGSIZE" "\<not> lh_n s \<ge> log_size s - 1"
    using assms(3,5,6) by auto
  ultimately show ?thesis using assms(1,4) by (simp add: log_write_def Let_def bpin_def set_buf_def)
qed

lemma log_write_room:
  assumes "txn s" and "held s i b" and "room (Suc k) l s"
  shows "b_blockno (bufs s i) = b" "lh_n s = int (card (logged s))" "1 \<le> log_outstanding s"
    "int (card (logged s)) + 1 < log_size s" "card (logged s) < LOGSIZE"
  using assms held_lockset [OF assms(2)] card_gt_0_iff [of "lockset s"] card_logged [of s]
  by (auto simp: held_def caches_def txn_def room_def log_ok_def LOGSIZE_eq NBUF_eq)

lemma log_write_f:
  assumes "txn s" and "held s i b" and "b \<notin> log_area s" and "room (Suc k) l s"
  shows "runs (log_write i s) (\<lambda>_ s'. txn s' \<and> view s' = view s \<and> lockset s' = lockset s
    \<and> logged s' = insert b (logged s) \<and> room k l s' \<and> fkeep s s' \<and> (\<forall>j c. held s j c \<longrightarrow> held s' j c))"
proof (cases "b \<in> logged s")
  case True
  note lr = log_write_room [OF assms(1,2,4)]
  show ?thesis using assms True log_write_old [OF lr(1) True lr(2-5)] room_mono [OF assms(4)]
    by (auto simp: insert_absorb)
next
  case False
  let ?n = "nat (lh_n s)"
  let ?s = "s\<lparr>lh_block := (lh_block s)(?n := b)\<rparr>"
  let ?t = "bpin i ?s"
  let ?u = "?t\<lparr>lh_n := lh_n s + 1\<rparr>"
  note lr = log_write_room [OF assms(1,2,4)]
  have ok: "log_ok s" and n: "0 \<le> lh_n s" using assms(1) by (simp_all add: txn_def log_ok_def)
  have inv: "bc_inv ?s" and h: "held ?s i b" and np: "b \<notin> pinset ?s"
    using assms(1,2) False txnD(3) [OF assms(1)] by (simp_all add: txn_def)
  note p = bpin_runs [OF inv h np]
  have ob: "only_bufs ?s ?t" by (rule p(5))
  have lt: "log_size ?t = log_size s" "log_area ?t = log_area s" "log_outstanding ?t = log_outstanding s"
      "log_start ?t = log_start s" "log_dev ?t = log_dev s" "lh_block ?t = (lh_block s)(?n := b)" "lh_n ?t = lh_n s"
    using ob by (auto elim!: only_bufsE simp: log_area_def)
  have ix: "{..<nat (lh_n s + 1)} = insert ?n {..<?n}" using n by auto
  have "(lh_block s)(?n := b) ` {..<?n} = lh_block s ` {..<?n}" by (intro image_cong) auto
  moreover have "lh_block ?u = (lh_block s)(?n := b)" "lh_n ?u = lh_n s + 1" by (simp_all add: lt)
  ultimately have lg: "logged ?u = insert b (logged s)" by (simp only: logged_def ix image_insert fun_upd_same)
  have cd: "card (insert b (logged s)) = Suc (card (logged s))" using False by simp
  have rm: "room k l ?u"
    using assms(4) by (simp add: room_def lg cd lt p(3))
  have "inj_on ((lh_block s)(?n := b)) (insert ?n {..<?n})"
    using ok False by (auto simp: log_ok_def logged_def inj_on_def)
  moreover have "lh_n s + 1 < log_size s" "lh_n s + 1 \<le> int LOGSIZE"
    using assms(4) held_lockset [OF assms(2)] card_logged [OF ok] n card_gt_0_iff [of "lockset s"]
    by (auto simp: room_def LOGSIZE_eq NBUF_eq)
  ultimately have "log_ok ?u"
    using ok n assms(3) txnD(3) [OF assms(1)] unfolding log_ok_def lg
    by (simp add: lt ix p(4)) (simp add: log_area_def lt)
  then have "txn ?u" using assms(1) p(1) by (simp add: txn_def lt)
  moreover have "fkeep s ?u"
  proof -
    have "fkeep s ?s" "fkeep ?s ?t" "fkeep ?t ?u" using fkeep_lh only_bufs_fkeep [OF ob] by blast+
    then show ?thesis by (blast intro: fkeep_trans)
  qed
  moreover have "held ?u j c" if "held s j c" for j c using p(8) [of j c] that by simp
  moreover have "view ?u = view s" "lockset ?u = lockset s" using p(2,3) by simp_all
  ultimately show ?thesis using log_write_new [OF lr(1) False lr(2-5)] rm lg by simp
qed

text \<open>Changing a block that is held, logging it and releasing it.\<close>

lemma log_release_runs:
  fixes s :: "'z fstate_scheme" and f :: "bytes \<Rightarrow> bytes"
  assumes t: "txn s" and h: "held s i b" and la: "b \<notin> log_area s" and r: "room (Suc k) l s"
  shows "runs (andthen (log_write i (modify_data i f s)) (\<lambda>_ s. brelse i s))
    (\<lambda>_ s'. txn s' \<and> view s' = (view s)(b := f (view s b)) \<and> lockset s' = lockset s - {b}
      \<and> logged s' = insert b (logged s) \<and> room k (Suc l) s' \<and> fkeep s s'
      \<and> (\<forall>j c. j \<noteq> i \<longrightarrow> held s j c \<longrightarrow> held s' j c))"
proof -
  note m = modify_f [OF t h, where f = f]
  have la': "b \<notin> log_area (modify_data i f s)" using la fkeepD(10) [OF m(7)] by simp
  have r': "room (Suc k) l (modify_data i f s)" using m(6) r by blast
  show ?thesis
  proof (rule runs_andthen [OF log_write_f [OF m(1,2) la' r']], goal_cases)
    case (1 u s2)
    then have q: "txn s2" "view s2 = view (modify_data i f s)" "lockset s2 = lockset (modify_data i f s)"
      "logged s2 = insert b (logged (modify_data i f s))" "room k l s2" "fkeep (modify_data i f s) s2"
      and h2: "\<And>j c. held (modify_data i f s) j c \<Longrightarrow> held s2 j c" by blast+
    have hb: "held s2 i b" using h2 m(2) by blast
    have bl: "b \<in> logged s2 \<or> view s2 b = disk s2 b" by (simp add: q(4))
    show ?case
    proof (rule runs_mono [OF brelse_f [OF q(1) hb bl q(5)]], goal_cases)
      case (1 u s3)
      then have w: "txn s3" "view s3 = view s2" "lockset s3 = lockset s2 - {b}" "logged s3 = logged s2"
        "room k (Suc l) s3" "fkeep s2 s3" and h3: "\<And>j c. j \<noteq> i \<Longrightarrow> held s2 j c \<Longrightarrow> held s3 j c" by blast+
      have "fkeep s s3" using m(7) q(6) w(6) by (blast intro: fkeep_trans)
      moreover have "held s3 j c" if "j \<noteq> i" "held s j c" for j c using m(8) h2 h3 that by blast
      ultimately show ?case using w q m(3-5) by simp
    qed
  qed
qed

text \<open>
  The same with \<^verbatim>\<open>brelse\<close> before \<^verbatim>\<open>log_write\<close>, as in \<^verbatim>\<open>bmap\<close>'s doubly indirect case. When no other process runs in
  between, only the place of the buffer in the list differs.
\<close>

lemma brelse_eq:
  assumes "held s i b"
  defines "S \<equiv> set_buf i (\<lambda>f. f\<lparr>b_lock := b_lock f\<lparr>sl_locked := False, sl_pid := 0\<rparr>, b_refcnt := b_refcnt f - 1\<rparr>)
    (wakeup (ChBufLock i) s)"
  shows "brelse i s = Inr ((), if b_refcnt (bufs s i) = 1 then S\<lparr>bufs := splice_front i (bufs S)\<rparr> else S)"
proof -
  have gf: "b_refcnt_update (\<lambda>r. r - 1) (f\<lparr>b_lock := b_lock f\<lparr>sl_locked := False, sl_pid := 0\<rparr>\<rparr>)
      = f\<lparr>b_lock := b_lock f\<lparr>sl_locked := False, sl_pid := 0\<rparr>, b_refcnt := b_refcnt f - 1\<rparr>" for f
    by (rule buf.equality) simp_all
  have st: "unlock_buf i s = set_buf i (\<lambda>f. f\<lparr>b_lock := b_lock f\<lparr>sl_locked := False, sl_pid := 0\<rparr>\<rparr>)
      (wakeup (ChBufLock i) s)"
    by (simp add: unlock_buf_def releasesleep_def set_buf_def)
  show ?thesis using assms(1) unfolding S_def by (simp add: brelse_def held_def st Let_def gf)
qed

lemma splice_front_refcnt:
  fixes F :: "nat \<Rightarrow> buf"
  shows "splice_front i (F(i := b_refcnt_update h (F i))) = (splice_front i F)(i := b_refcnt_update h (splice_front i F i))"
proof -
  define G :: "(nat \<Rightarrow> buf) \<Rightarrow> nat \<Rightarrow> buf" where "G = (\<lambda>F x. if x = i then b_refcnt_update h (F x) else F x)"
  have G: "G F = F(i := b_refcnt_update h (F i))" for F by (auto simp: G_def)
  have "set_next a b (G F) = G (set_next a b F)" "set_prev a b (G F) = G (set_prev a b F)"
    "b_next (G F x) = b_next (F x)" "b_prev (G F x) = b_prev (F x)" for a b x F
    by (auto simp: G_def set_next_def set_prev_def)
  then show ?thesis unfolding G [symmetric] by (simp add: splice_front_def Let_def)
qed

lemma splice_front_same:
  fixes s :: "'z fstate_scheme"
  assumes inv: "bc_inv s" and i: "i < NBUF"
  defines "s' \<equiv> s\<lparr>bufs := splice_front i (bufs s)\<rparr>"
  shows "bc_inv s'" "view s' = view s" "lockset s' = lockset s" "pinset s' = pinset s" "held s' j x = held s j x"
proof -
  obtain xs where xs: "ring (bufs s) xs" "set xs = {..<NBUF}" using inv by (auto simp: bc_inv_def)
  with i have "i \<in> set xs" by simp
  then obtain as bs where "xs = as @ i # bs" by (meson split_list)
  with xs have "\<exists>xs. ring (splice_front i (bufs s)) xs \<and> set xs = {..<NBUF}"
    using splice_front_ring [of "bufs s" as i bs] by (intro exI [of _ "i # as @ bs"]) auto
  note rl = relink [OF inv splice_front_fields [of i "bufs s"] this]
  then show "bc_inv s'" "view s' = view s" "lockset s' = lockset s" "pinset s' = pinset s" "held s' j x = held s j x"
    unfolding s'_def by blast+
qed

lemma release_log_runs:
  fixes s :: "'z fstate_scheme" and f :: "bytes \<Rightarrow> bytes"
  assumes t: "txn s" and h: "held s i b" and la: "b \<notin> log_area s" and r: "room (Suc k) l s"
  shows "runs (andthen (brelse i (modify_data i f s)) (\<lambda>_ s. log_write i s))
    (\<lambda>_ s'. txn s' \<and> view s' = (view s)(b := f (view s b)) \<and> lockset s' = lockset s - {b}
      \<and> logged s' = insert b (logged s) \<and> room k (Suc l) s' \<and> fkeep s s'
      \<and> (\<forall>j c. j \<noteq> i \<longrightarrow> held s j c \<longrightarrow> held s' j c))"
proof -
  let ?t = "modify_data i f s"
  note m = modify_f [OF t h, where f = f]
  note lr = log_write_room [OF m(1,2) r [folded m(6)]]
  let ?g = "\<lambda>f. f\<lparr>b_lock := b_lock f\<lparr>sl_locked := False, sl_pid := 0\<rparr>, b_refcnt := b_refcnt f - 1\<rparr>"
  let ?S = "set_buf i ?g (wakeup (ChBufLock i) ?t)"
  obtain u u1 where A: "andthen (log_write i ?t) (\<lambda>_ s. brelse i s) = Inr (u, u1)" and
    p: "txn u1" "view u1 = (view s)(b := f (view s b))" "lockset u1 = lockset s - {b}"
      "logged u1 = insert b (logged s)" "room k (Suc l) u1" "fkeep s u1"
    and h1: "\<And>j c. j \<noteq> i \<Longrightarrow> held s j c \<Longrightarrow> held u1 j c"
    by (rule runsE [OF log_release_runs [OF t h la r, of f]]) blast
  have c: "b_blockno (bufs s i) = b" using h by (simp add: held_def caches_def)
  show ?thesis
  proof (cases "b \<in> logged ?t")
    case True
    have rc: "b_refcnt (bufs ?t i) = 2"
      using held_buf_ok [OF txnD(1) [OF m(1)] m(2)] txnD(3) [OF m(1)] True by simp
    have e: "brelse i ?t = Inr ((), ?S)" using brelse_eq [OF m(2)] rc by simp
    then have "u1 = ?S" using A log_write_old [OF lr(1) True lr(2-5)] by simp
    then have bl: "b_blockno (bufs u1 i) = b" using lr(1) by simp
    have lg: "logged u1 = logged ?t" using p(4) True m(5) by auto
    have "log_write i u1 = Inr ((), u1)"
    proof (rule log_write_old [OF bl])
      show "b \<in> logged u1" "1 \<le> log_outstanding u1" using p(1,4) by (simp_all add: txn_def)
      show "lh_n u1 = int (card (logged u1))" using card_logged [of u1] p(1) by (simp add: txn_def log_ok_def)
      show "int (card (logged u1)) + 1 < log_size u1" "card (logged u1) < LOGSIZE"
        using lr(4,5) fkeepD(6) [OF p(6)] fkeepD(6) [OF m(7)] unfolding lg by simp_all
    qed
    then show ?thesis using e \<open>u1 = ?S\<close> p h1 by simp
  next
    case False
    let ?L = "(lh_block ?t)(nat (lh_n ?t) := b)" and ?N = "lh_n ?t + 1"
    have rc: "b_refcnt (bufs ?t i) = 1"
      using held_buf_ok [OF txnD(1) [OF m(1)] m(2)] txnD(3) [OF m(1)] False by auto
    have hp: "held ((bpin i (?t\<lparr>lh_block := ?L\<rparr>))\<lparr>lh_n := ?N\<rparr>) i b"
      using m(2) by (simp add: bpin_def held_def caches_def holdingsleep_def myproc_def set_buf_def)
    have u1: "u1 = set_buf i ?g (wakeup (ChBufLock i) ((bpin i (?t\<lparr>lh_block := ?L\<rparr>))\<lparr>lh_n := ?N\<rparr>))"
      using A log_write_new [OF lr(1) False lr(2-5)] brelse_eq [OF hp] rc by (simp add: bpin_def)
    let ?B = "?S\<lparr>bufs := splice_front i (bufs ?S)\<rparr>"
    let ?v = "u1\<lparr>bufs := splice_front i (bufs u1)\<rparr>"
    have eB: "brelse i ?t = Inr ((), ?B)" using brelse_eq [OF m(2)] rc by simp
    have "log_write i ?B = Inr ((), (bpin i (?B\<lparr>lh_block := (lh_block ?B)(nat (lh_n ?B) := b)\<rparr>))\<lparr>lh_n := lh_n ?B + 1\<rparr>)"
    proof (rule log_write_new)
      show "b_blockno (bufs ?B i) = b" using lr(1) by (simp add: splice_front_fields)
      have l: "logged ?B = logged ?t" by (simp add: logged_def)
      show "b \<notin> logged ?B" "card (logged ?B) < LOGSIZE" using False lr(5) unfolding l by simp_all
      show "int (card (logged ?B)) + 1 < log_size ?B" "1 \<le> log_outstanding ?B" using lr(3,4) unfolding l by simp_all
      show "lh_n ?B = int (card (logged ?B))" using lr(2) unfolding l by simp
    qed
    also have "(bpin i (?B\<lparr>lh_block := (lh_block ?B)(nat (lh_n ?B) := b)\<rparr>))\<lparr>lh_n := lh_n ?B + 1\<rparr> = ?v"
    proof -
      have "bufs u1 = (bufs ?S)(i := b_refcnt_update (\<lambda>r. r + 1) (bufs ?S i))"
        by (auto simp: u1 bpin_def fun_eq_iff intro!: buf.equality)
      then have sf: "splice_front i (bufs u1)
          = (splice_front i (bufs ?S))(i := b_refcnt_update (\<lambda>r. r + 1) (splice_front i (bufs ?S) i))"
        by (simp only: splice_front_refcnt)
      have v: "u1\<lparr>bufs := X\<rparr> = ?S\<lparr>lh_block := ?L, lh_n := ?N, bufs := X\<rparr>" for X
        by (simp add: u1 bpin_def set_buf_def wakeup_def cong: if_cong)
      show ?thesis unfolding sf v by (simp add: bpin_def set_buf_def)
    qed
    finally have eL: "log_write i ?B = Inr ((), ?v)" .
    have i: "i < NBUF" using h by (simp add: held_def caches_def)
    note q = splice_front_same [OF txnD(1) [OF p(1)] i]
    have ob: "only_bufs u1 ?v" by (simp add: only_bufs_def)
    note ol = only_bufs_log [OF ob]
    have "txn ?v" using p(1) q(1) log_ok_bufs [OF ob q(4)] by (simp add: txn_def)
    moreover have "room k (Suc l) ?v" using p(5) ol q(3) by (simp add: room_def)
    moreover have "fkeep s ?v" using p(6) only_bufs_fkeep [OF ob] by (rule fkeep_trans)
    moreover have "logged ?v = insert b (logged s)" using ol p(4) by simp
    ultimately show ?thesis unfolding eB andthen_simps eL runs_Inr using p(2,3) q(2,3,5) h1 by simp
  qed
qed

text \<open>The four steps most operations are made of: read a block, change it, log it, release it.\<close>

lemma update_block_runs:
  fixes s :: "'z fstate_scheme" and f :: "bytes \<Rightarrow> bytes"
  assumes t: "txn s" and nl: "b \<notin> lockset s" and la: "b \<notin> log_area s" and r: "room (Suc k) (Suc l) s"
  shows "runs (andthen (bread ROOTDEV b s) (\<lambda>i s. andthen (log_write i (modify_data i f s)) (\<lambda>_ s. brelse i s)))
    (\<lambda>_ s'. txn s' \<and> view s' = (view s)(b := f (view s b)) \<and> lockset s' = lockset s
      \<and> logged s' = insert b (logged s) \<and> room k (Suc l) s' \<and> fkeep s s' \<and> (\<forall>j c. held s j c \<longrightarrow> held s' j c))"
proof (rule runs_andthen [OF bread_f [OF t nl r]], goal_cases)
  case (1 i s1)
  then have p: "txn s1" "held s1 i b" "view s1 = view s" "lockset s1 = insert b (lockset s)" "logged s1 = logged s"
    "room (Suc k) l s1" "fkeep s s1" and h1: "\<And>j c. held s j c \<Longrightarrow> j \<noteq> i \<and> held s1 j c" by blast+
  have la': "b \<notin> log_area s1" using la fkeepD(10) [OF p(7)] by simp
  show ?case
  proof (rule runs_mono [OF log_release_runs [OF p(1,2) la' p(6)]], goal_cases)
    case (1 u s2)
    then have q: "txn s2" "view s2 = (view s1)(b := f (view s1 b))" "lockset s2 = lockset s1 - {b}"
      "logged s2 = insert b (logged s1)" "room k (Suc l) s2" "fkeep s1 s2"
      and h2: "\<And>j c. j \<noteq> i \<Longrightarrow> held s1 j c \<Longrightarrow> held s2 j c" by blast+
    have "fkeep s s2" using p(7) q(6) by (rule fkeep_trans)
    moreover have "lockset s2 = lockset s" using nl by (simp add: q(3) p(4))
    moreover have "held s2 j c" if "held s j c" for j c using h1 [OF that] h2 by blast
    ultimately show ?case using q p(3,5) by simp
  qed
qed

section \<open>The free map\<close>

text \<open>A block of the disk whose bit in the free map is clear, and the blocks after the free map.\<close>

definition free_blk :: "superblock \<Rightarrow> (u32 \<Rightarrow> bytes) \<Rightarrow> u32 \<Rightarrow> bool" where
  "free_blk sp v a \<longleftrightarrow> a < sb_size sp \<and> bit_free (v (BBLOCK a sp)) (unat a mod BPB)"

definition data_blk :: "superblock \<Rightarrow> u32 \<Rightarrow> bool" where
  "data_blk sp a \<longleftrightarrow> unat (sb_bmapstart sp) + unat (sb_size sp) div BPB < unat a \<and> a < sb_size sp"

text \<open>
  The layout \<^verbatim>\<open>mkfs\<close> makes: the log lies before the free map, the free map has a bit for every block, and
  everything up to the end of the free map is marked used. The size leaves room for the sum \<^verbatim>\<open>b + BPB\<close> in \<^verbatim>\<open>balloc\<close>.
\<close>

definition fs_ok :: "'z fstate_scheme \<Rightarrow> bool" where
  "fs_ok s \<longleftrightarrow> unat (sb_size (sb s)) + BPB \<le> 2 ^ 32
     \<and> unat (sb_bmapstart (sb s)) + unat (sb_size (sb s)) div BPB < unat (sb_size (sb s))
     \<and> (\<forall>b\<in>log_area s. b < sb_bmapstart (sb s))
     \<and> (\<forall>a. free_blk (sb s) (view s) a \<longrightarrow> data_blk (sb s) a)"

lemma BBLOCK_unat:
  assumes "fs_ok s" and "a < sb_size (sb s)"
  shows "unat (BBLOCK a (sb s)) = unat a div 8192 + unat (sb_bmapstart (sb s))"
proof -
  have d: "unat (a div 8192) = unat a div 8192" by (simp add: unat_div)
  have "unat a div 8192 \<le> unat (sb_size (sb s)) div 8192"
    using assms(2) by (intro div_le_mono) (simp add: word_less_nat_alt)
  moreover have "unat (sb_size (sb s)) < 2 ^ 32" using unsigned_less [of "sb_size (sb s)", where 'a = nat] by simp
  moreover have "unat (sb_bmapstart (sb s)) + unat (sb_size (sb s)) div 8192 < unat (sb_size (sb s))"
    using assms(1) by (simp add: fs_ok_def)
  ultimately have "unat (a div 8192) + unat (sb_bmapstart (sb s)) < 2 ^ LENGTH(32)" unfolding d by simp
  then show ?thesis using d by (simp add: BBLOCK_def unat_word_ariths)
qed

lemma BBLOCK_not_data: "fs_ok s \<Longrightarrow> a < sb_size (sb s) \<Longrightarrow> \<not> data_blk (sb s) (BBLOCK a (sb s))"
  using BBLOCK_unat [of s a] by (simp add: data_blk_def word_less_nat_alt div_le_mono leD)

lemma BBLOCK_not_log: "fs_ok s \<Longrightarrow> a < sb_size (sb s) \<Longrightarrow> BBLOCK a (sb s) \<notin> log_area s"
  using BBLOCK_unat [of s a] by (auto simp: fs_ok_def word_less_nat_alt)

lemma data_not_log: "fs_ok s \<Longrightarrow> data_blk (sb s) a \<Longrightarrow> a \<notin> log_area s"
  by (auto simp: fs_ok_def data_blk_def word_less_nat_alt)

lemma BBLOCK_eq_iff:
  assumes "fs_ok s" and "a < sb_size (sb s)" and "b < sb_size (sb s)"
  shows "BBLOCK a (sb s) = BBLOCK b (sb s) \<longleftrightarrow> unat a div 8192 = unat b div 8192"
  using BBLOCK_unat [OF assms(1,2)] BBLOCK_unat [OF assms(1,3)] by (metis add_right_cancel unsigned_word_eqI)

lemma bit_and_pow: "(x AND push_bit k 1 = 0) = (\<not> bit x k)" if "k < LENGTH('a)" for x :: "'a::len word"
proof -
  have b: "bit (x AND push_bit k 1) n = (bit x n \<and> n = k)" if "n < LENGTH('a)" for n
    using that by (auto simp: bit_simps)
  show ?thesis
  proof
    assume "x AND push_bit k 1 = 0"
    then show "\<not> bit x k" using b [OF that] by simp
  next
    assume n: "\<not> bit x k"
    show "x AND push_bit k 1 = 0"
    proof (rule bit_word_eqI)
      fix i assume "i < LENGTH('a)"
      then show "bit (x AND push_bit k 1) i = bit 0 i" using b [of i] n by (metis bit_0_eq bot_apply bot_bool_def)
    qed
  qed
qed

lemma bit_free_bit: "bit_free d bi = (\<not> bit (d (bi div 8)) (bi mod 8))"
  unfolding bit_free_def by (rule bit_and_pow) simp

lemma div_mod_8_eq: "a div 8 = b div 8 \<Longrightarrow> a mod 8 = b mod 8 \<Longrightarrow> a = b" for a b :: nat
  by (metis div_mult_mod_eq)

lemma bit_free_set: "bit_free (set_bit_used bi d) bj \<longleftrightarrow> bj \<noteq> bi \<and> bit_free d bj"
  using div_mod_8_eq [of bj bi] by (auto simp: bit_free_bit set_bit_used_def bit_simps)

lemma bit_free_clear: "bit_free (clear_bit_used bi d) bj \<longleftrightarrow> bj = bi \<or> bit_free d bj"
  using div_mod_8_eq [of bj bi] by (auto simp: bit_free_bit clear_bit_used_def bit_simps)

lemma bit_index_inj:
  "unat a div 8192 = unat b div 8192 \<Longrightarrow> unat a mod 8192 = unat b mod 8192 \<Longrightarrow> a = b" for a b :: u32
  by (metis div_mult_mod_eq unsigned_word_eqI)

text \<open>Taking a block and zeroing it, seen on the free map.\<close>

definition alloc_view :: "superblock \<Rightarrow> u32 \<Rightarrow> (u32 \<Rightarrow> bytes) \<Rightarrow> u32 \<Rightarrow> bytes" where
  "alloc_view sp a v = v(BBLOCK a sp := set_bit_used (unat a mod BPB) (v (BBLOCK a sp)), a := memset (v a) 0 0 BSIZE)"

lemma free_alloc_view:
  assumes "fs_ok s" and "free_blk (sb s) v a" and "data_blk (sb s) a"
  shows "free_blk (sb s) (alloc_view (sb s) a v) b \<longleftrightarrow> b \<noteq> a \<and> free_blk (sb s) v b"
proof (cases "b < sb_size (sb s)")
  case True
  have a: "a < sb_size (sb s)" using assms(2) by (simp add: free_blk_def)
  have "BBLOCK b (sb s) \<noteq> a" "BBLOCK a (sb s) \<noteq> a" using BBLOCK_not_data [OF assms(1)] True a assms(3) by metis+
  moreover have "unat b div 8192 = unat a div 8192 \<and> unat b mod 8192 = unat a mod 8192 \<longleftrightarrow> b = a"
    using bit_index_inj [of b a] by blast
  ultimately show ?thesis
    using True BBLOCK_eq_iff [OF assms(1) True a] by (auto simp: free_blk_def alloc_view_def bit_free_set)
qed (simp add: free_blk_def)

lemma alloc_view_other: "c \<noteq> a \<Longrightarrow> c \<noteq> BBLOCK a sp \<Longrightarrow> alloc_view sp a v c = v c"
  by (simp add: alloc_view_def)

lemma fs_ok_keep:
  assumes "fs_ok s" and "fkeep s s'" and "\<And>a. free_blk (sb s) (view s') a \<Longrightarrow> data_blk (sb s) a"
  shows "fs_ok s'"
  using assms fkeepD(1,10) [OF assms(2)] by (simp add: fs_ok_def)

lemma fs_ok_same_view: "fs_ok s \<Longrightarrow> fkeep s s' \<Longrightarrow> view s' = view s \<Longrightarrow> fs_ok s'"
  by (rule fs_ok_keep) (auto simp: fs_ok_def)

lemma bzero_runs:
  assumes "txn s" and "b \<notin> lockset s" and "b \<notin> log_area s" and "room (Suc k) (Suc l) s"
  shows "runs (bzero ROOTDEV b s) (\<lambda>_ s'. txn s' \<and> view s' = (view s)(b := memset (view s b) 0 0 BSIZE)
    \<and> lockset s' = lockset s \<and> logged s' = insert b (logged s) \<and> room k (Suc l) s' \<and> fkeep s s'
    \<and> (\<forall>j c. held s j c \<longrightarrow> held s' j c))"
  unfolding bzero_def by (rule update_block_runs [OF assms])

lemma bit_of_block:
  fixes a b :: u32
  assumes "unat b mod 8192 = 0" and "unat a = unat b + d" and "d < 8192"
  shows "unat a div 8192 = unat b div 8192" "unat a mod 8192 = d"
proof -
  obtain q where "unat b = 8192 * q" using assms(1) by (metis mod_0_imp_dvd dvdE)
  then show "unat a div 8192 = unat b div 8192" "unat a mod 8192 = d" using assms(2,3) by simp_all
qed

lemma balloc_step_runs:
  assumes t: "txn s" and ok: "fs_ok s" and r: "room (Suc (Suc k)) (Suc l) s"
    and lk: "\<And>c. c \<in> lockset s \<Longrightarrow> data_blk (sb s) c \<and> \<not> free_blk (sb s) (view s) c"
    and b: "unat b mod 8192 = 0"
  shows "runs (balloc_step ROOTDEV b s) (\<lambda>c s'. txn s' \<and> fkeep s s' \<and> lockset s' = lockset s
    \<and> (\<forall>j c. held s j c \<longrightarrow> held s' j c) \<and> (case c of
        Next b' \<Rightarrow> b < sb_size (sb s) \<and> unat b' = unat b + 8192 \<and> view s' = view s \<and> logged s' = logged s
          \<and> room (Suc (Suc k)) (Suc l) s' \<and> (\<forall>a. b \<le> a \<and> a < b' \<longrightarrow> \<not> free_blk (sb s) (view s) a)
      | Ret a \<Rightarrow> if b < sb_size (sb s) then free_blk (sb s) (view s) a \<and> view s' = alloc_view (sb s) a (view s)
            \<and> logged s' = insert a (insert (BBLOCK a (sb s)) (logged s)) \<and> room k (Suc l) s'
          else a = 0 \<and> s' = s))"
proof (cases "b < sb_size (sb s)")
  case False
  then show ?thesis using t by (simp add: balloc_step_def)
next
  case True
  let ?B = "BBLOCK b (sb s)" and ?sz = "sb_size (sb s)"
  have lim: "unat ?sz + 8192 \<le> 2 ^ 32" using ok by (simp add: fs_ok_def)
  have bl: "unat b < unat ?sz" using True by (simp add: word_less_nat_alt)
  have nl: "?B \<notin> lockset s" using lk BBLOCK_not_data [OF ok True] by blast
  have la: "?B \<notin> log_area s" by (rule BBLOCK_not_log [OF ok True])
  show ?thesis
    unfolding balloc_step_def
  proof (simp only: True not_True_eq_False if_False, rule runs_andthen [OF bread_f [OF t nl r]], goal_cases)
    case (1 i s1)
    then have p: "txn s1" "held s1 i ?B" "view s1 = view s" "lockset s1 = insert ?B (lockset s)" "logged s1 = logged s"
      "room (Suc (Suc k)) l s1" "fkeep s s1" and h1: "\<And>j c. held s j c \<Longrightarrow> j \<noteq> i \<and> held s1 j c" by blast+
    have sb1: "sb s1 = sb s" using fkeepD(1) [OF p(7)] .
    have bd: "bdata i s1 = view s ?B" using view_held [OF txnD(1) [OF p(1)] p(2)] p(3) by simp
    let ?n = "min BPB (unat ?sz - unat b)"
    show ?case
    proof (cases "first_index (bit_free (view s ?B)) ?n")
      case None
      have free: "\<not> free_blk (sb s) (view s) a" if "b \<le> a" "unat a < unat b + 8192" for a
      proof (cases "a < ?sz")
        case True
        define d where "d = unat a - unat b"
        have d: "unat a = unat b + d" "d < 8192" using that by (auto simp: d_def word_le_nat_alt)
        note e = bit_of_block [OF b d]
        have "BBLOCK a (sb s) = ?B" using BBLOCK_eq_iff [OF ok True \<open>b < ?sz\<close>] e(1) by simp
        moreover have "d < ?n" using d True by (simp add: word_less_nat_alt)
        ultimately show ?thesis using None e(2) unfolding first_index_None_iff by (simp add: free_blk_def)
      qed (simp add: free_blk_def)
      have cl: "?B \<in> logged s1 \<or> view s1 ?B = disk s1 ?B"
        using unpinned_clean [OF txnD(1) [OF t] nl] txnD(3) [OF t] fkeepD(3) [OF p(7)] p(3,5) by auto
      have b': "unat (b + of_nat BPB) = unat b + 8192"
        using lim bl by (simp add: unat_word_ariths)
      show ?thesis unfolding bd sb1 None option.case
      proof (rule runs_andthen [OF brelse_f [OF p(1,2) cl p(6)]], goal_cases)
        case (1 u s2)
        then have q: "txn s2" "view s2 = view s1" "lockset s2 = lockset s1 - {?B}" "logged s2 = logged s1"
          "room (Suc (Suc k)) (Suc l) s2" "fkeep s1 s2" and h2: "\<And>j c. j \<noteq> i \<Longrightarrow> held s1 j c \<Longrightarrow> held s2 j c" by blast+
        have "fkeep s s2" using p(7) q(6) by (rule fkeep_trans)
        moreover have "lockset s2 = lockset s" using nl by (simp add: q(3) p(4))
        moreover have "held s2 j c" if "held s j c" for j c using h1 [OF that] h2 by blast
        moreover have "\<not> free_blk (sb s) (view s) a" if "b \<le> a" "a < b + of_nat BPB" for a
          using free that b' by (simp add: word_less_nat_alt)
        ultimately show ?case using q p(3,5) True b' by simp
      qed
    next
      case (Some bi)
      let ?a = "b + of_nat bi"
      note d = first_index_SomeD [OF Some]
      have a: "unat ?a = unat b + bi" using d(1) lim bl by (simp add: unat_word_ariths unat_of_nat)
      have bi: "bi < 8192" using d(1) by simp
      note e = bit_of_block [OF b a bi]
      have alt: "?a < ?sz" unfolding word_less_nat_alt a using d(1) by (simp add: less_diff_conv add.commute)
      have Ba: "BBLOCK ?a (sb s) = ?B" using BBLOCK_eq_iff [OF ok alt True] e(1) by simp
      have fr: "free_blk (sb s) (view s) ?a" using d(2) alt Ba e(2) by (simp add: free_blk_def)
      then have da: "data_blk (sb s) ?a" using ok by (simp add: fs_ok_def)
      have anl: "?a \<notin> lockset s" using lk fr by blast
      have aB: "?a \<noteq> ?B" using BBLOCK_not_data [OF ok True] da by metis
      have la1: "?B \<notin> log_area s1" using la fkeepD(10) [OF p(7)] by simp
      show ?thesis unfolding bd sb1 Some option.case
      proof (subst andthen_assoc [symmetric], rule runs_andthen [OF log_release_runs [OF p(1,2) la1 p(6)]], goal_cases)
        case (1 u s2)
        then have q: "txn s2" "view s2 = (view s1)(?B := set_bit_used bi (view s1 ?B))" "lockset s2 = lockset s1 - {?B}"
          "logged s2 = insert ?B (logged s1)" "room (Suc k) (Suc l) s2" "fkeep s1 s2"
          and h2: "\<And>j c. j \<noteq> i \<Longrightarrow> held s1 j c \<Longrightarrow> held s2 j c" by blast+
        have f2: "fkeep s s2" using p(7) q(6) by (rule fkeep_trans)
        have l2: "lockset s2 = lockset s" using nl by (simp add: q(3) p(4))
        have anl2: "?a \<notin> lockset s2" "?a \<notin> log_area s2"
          using anl data_not_log [OF ok da] fkeepD(10) [OF f2] by (simp_all add: l2)
        show ?case
        proof (rule runs_andthen [OF bzero_runs [OF q(1) anl2 q(5)]], goal_cases)
          case (1 u s3)
          then have w: "txn s3" "view s3 = (view s2)(?a := memset (view s2 ?a) 0 0 BSIZE)" "lockset s3 = lockset s2"
            "logged s3 = insert ?a (logged s2)" "room k (Suc l) s3" "fkeep s2 s3"
            and h3: "\<And>j c. held s2 j c \<Longrightarrow> held s3 j c" by blast+
          have "fkeep s s3" using f2 w(6) by (rule fkeep_trans)
          moreover have "held s3 j c" if "held s j c" for j c using h1 [OF that] h2 h3 by blast
          moreover have "view s3 = alloc_view (sb s) ?a (view s)"
            using aB e(2) by (simp add: w(2) q(2) p(3) alloc_view_def Ba)
          ultimately show ?case using w q(4) p(5) True fr l2 Ba by simp
        qed
      qed
    qed
  qed
qed

text \<open>
  \<^verbatim>\<open>balloc\<close> as a whole: 0 exactly when no block is free (the model's fuel is enough), otherwise a free block, marked
  and zeroed, nothing else changed. Two blocks enter the log.
\<close>

lemma balloc_runs:
  assumes t: "txn s" and ok: "fs_ok s" and r: "room (Suc (Suc k)) (Suc l) s"
    and lk: "\<And>c. c \<in> lockset s \<Longrightarrow> data_blk (sb s) c \<and> \<not> free_blk (sb s) (view s) c"
  shows "runs (balloc ROOTDEV s) (\<lambda>a s'. txn s' \<and> fs_ok s' \<and> fkeep s s' \<and> lockset s' = lockset s
    \<and> (\<forall>j c. held s j c \<longrightarrow> held s' j c) \<and> room k (Suc l) s'
    \<and> (if a = 0 then (\<forall>b. \<not> free_blk (sb s) (view s) b) \<and> view s' = view s \<and> logged s' = logged s
       else free_blk (sb s) (view s) a \<and> data_blk (sb s) a \<and> view s' = alloc_view (sb s) a (view s)
         \<and> logged s' = insert a (insert (BBLOCK a (sb s)) (logged s))))"
    (is "runs _ ?Q")
proof -
  let ?sz = "sb_size (sb s)"
  let ?I = "\<lambda>b s'. txn s' \<and> fkeep s s' \<and> lockset s' = lockset s \<and> (\<forall>j c. held s j c \<longrightarrow> held s' j c)
    \<and> view s' = view s \<and> logged s' = logged s \<and> room (Suc (Suc k)) (Suc l) s' \<and> unat b mod 8192 = 0
    \<and> (\<forall>a<b. \<not> free_blk (sb s) (view s) a)"
  let ?f = "\<lambda>b :: u32. Suc (unat ?sz div 8192) - unat b div 8192"
  have zero: "a \<noteq> 0" if "data_blk (sb s) a" for a using that by (auto simp: data_blk_def)
  have data: "data_blk (sb s) a" if "free_blk (sb s) (view s) a" for a using ok that by (simp add: fs_ok_def)
  show ?thesis unfolding balloc_def
  proof (rule loop_runs [where I = ?I and f = ?f])
    show "?I 0 s" using t r by simp
    show "?f 0 < unat ?sz div BPB + 2" by simp
    fix b s'
    assume "?I b s'"
    then have p: "txn s'" "fkeep s s'" "lockset s' = lockset s" "view s' = view s" "logged s' = logged s"
      "room (Suc (Suc k)) (Suc l) s'" "unat b mod 8192 = 0" and no: "\<And>a. a < b \<Longrightarrow> \<not> free_blk (sb s) (view s) a"
      and h1: "\<And>j c. held s j c \<Longrightarrow> held s' j c" by blast+
    have sb1: "sb s' = sb s" using fkeepD(1) [OF p(2)] .
    have ok1: "fs_ok s'" using fs_ok_same_view [OF ok p(2,4)] .
    have lk1: "data_blk (sb s') c \<and> \<not> free_blk (sb s') (view s') c" if "c \<in> lockset s'" for c
      using lk that by (simp add: p(3,4) sb1)
    show "runs (balloc_step ROOTDEV b s') (\<lambda>c t. case c of Ret a \<Rightarrow> ?Q a t | Next b' \<Rightarrow> ?I b' t \<and> ?f b' < ?f b)"
    proof (rule runs_mono [OF balloc_step_runs [OF p(1) ok1 p(6) lk1 p(7)]], assumption, goal_cases)
      case (1 c s2)
      then have q: "txn s2" "fkeep s' s2" "lockset s2 = lockset s'" and h2: "\<And>j c. held s' j c \<Longrightarrow> held s2 j c" by blast+
      have f2: "fkeep s s2" using p(2) q(2) by (rule fkeep_trans)
      have l2: "lockset s2 = lockset s" using q(3) p(3) by simp
      have h: "held s2 j c" if "held s j c" for j c using h1 [OF that] h2 by blast
      show ?case
      proof (cases c)
        case (Next b')
        then have n: "b < ?sz" "unat b' = unat b + 8192" "view s2 = view s" "logged s2 = logged s"
          "room (Suc (Suc k)) (Suc l) s2" and no2: "\<And>a. b \<le> a \<Longrightarrow> a < b' \<Longrightarrow> \<not> free_blk (sb s) (view s) a"
          using 1 p(4,5) sb1 by auto
        have "\<not> free_blk (sb s) (view s) a" if "a < b'" for a
          using no [of a] no2 [of a] that by (cases "a < b") auto
        moreover have "unat b' mod 8192 = 0" using n(2) p(7) by simp
        moreover have "?f b' < ?f b"
        proof -
          have "unat b div 8192 \<le> unat ?sz div 8192"
            using n(1) by (intro div_le_mono) (simp add: word_less_nat_alt)
          then show ?thesis by (simp add: n(2))
        qed
        ultimately show ?thesis using Next q(1) f2 l2 h n by simp
      next
        case (Ret a)
        show ?thesis
        proof (cases "b < ?sz")
          case True
          then have a: "free_blk (sb s) (view s) a" "view s2 = alloc_view (sb s) a (view s)"
            "logged s2 = insert a (insert (BBLOCK a (sb s)) (logged s))" "room k (Suc l) s2"
            using 1 Ret p(4,5) sb1 by auto
          have d: "data_blk (sb s) a" using data [OF a(1)] .
          have "fs_ok s2"
            by (rule fs_ok_keep [OF ok f2]) (auto simp: a(2) free_alloc_view [OF ok a(1) d] dest: data)
          then show ?thesis using Ret q(1) f2 l2 h a d zero [OF d] by simp
        next
          case False
          then have a: "a = 0" "s2 = s'" using 1 Ret sb1 by auto
          have "\<not> free_blk (sb s) (view s) x" for x
            using no [of x] False by (auto simp: free_blk_def)
          then show ?thesis using Ret p f2 h1 a ok1 room_mono [OF p(6)] by simp
        qed
      qed
    qed
  qed
qed

lemma bfree_runs:
  assumes t: "txn s" and ok: "fs_ok s" and r: "room (Suc k) (Suc l) s" and a: "data_blk (sb s) a"
    and used: "\<not> free_blk (sb s) (view s) a" and nl: "BBLOCK a (sb s) \<notin> lockset s"
  shows "runs (bfree ROOTDEV a s) (\<lambda>_ s'. txn s' \<and> fs_ok s' \<and> fkeep s s' \<and> lockset s' = lockset s
    \<and> (\<forall>j c. held s j c \<longrightarrow> held s' j c) \<and> room k (Suc l) s'
    \<and> view s' = (view s)(BBLOCK a (sb s) := clear_bit_used (unat a mod BPB) (view s (BBLOCK a (sb s))))
    \<and> logged s' = insert (BBLOCK a (sb s)) (logged s)
    \<and> (\<forall>b. free_blk (sb s) (view s') b \<longleftrightarrow> b = a \<or> free_blk (sb s) (view s) b))"
proof -
  let ?B = "BBLOCK a (sb s)"
  have lt: "a < sb_size (sb s)" using a by (simp add: data_blk_def)
  have la: "?B \<notin> log_area s" by (rule BBLOCK_not_log [OF ok lt])
  have fr: "free_blk (sb s) ((view s)(?B := clear_bit_used (unat a mod BPB) (view s ?B))) b
      \<longleftrightarrow> b = a \<or> free_blk (sb s) (view s) b" for b
    using BBLOCK_eq_iff [OF ok lt, of b] bit_index_inj [of b a] lt
    by (auto simp: free_blk_def bit_free_clear)
  show ?thesis unfolding bfree_def
  proof (rule runs_andthen [OF bread_f [OF t nl r]], goal_cases)
    case (1 i s1)
    then have p: "txn s1" "held s1 i ?B" "view s1 = view s" "lockset s1 = insert ?B (lockset s)" "logged s1 = logged s"
      "room (Suc k) l s1" "fkeep s s1" and h1: "\<And>j c. held s j c \<Longrightarrow> j \<noteq> i \<and> held s1 j c" by blast+
    have bd: "bdata i s1 = view s ?B" using view_held [OF txnD(1) [OF p(1)] p(2)] p(3) by simp
    have nf: "\<not> bit_free (view s ?B) (unat a mod BPB)" using used lt by (simp add: free_blk_def)
    have la1: "?B \<notin> log_area s1" using la fkeepD(10) [OF p(7)] by simp
    show ?case unfolding bd Let_def if_not_P [OF nf]
    proof (rule runs_mono [OF log_release_runs [OF p(1,2) la1 p(6)]], goal_cases)
      case (1 u s2)
      then have q: "txn s2" "view s2 = (view s1)(?B := clear_bit_used (unat a mod BPB) (view s1 ?B))"
        "lockset s2 = lockset s1 - {?B}" "logged s2 = insert ?B (logged s1)" "room k (Suc l) s2" "fkeep s1 s2"
        and h2: "\<And>j c. j \<noteq> i \<Longrightarrow> held s1 j c \<Longrightarrow> held s2 j c" by blast+
      have f2: "fkeep s s2" using p(7) q(6) by (rule fkeep_trans)
      have v2: "view s2 = (view s)(?B := clear_bit_used (unat a mod BPB) (view s ?B))" by (simp add: q(2) p(3))
      have "fs_ok s2"
      proof (rule fs_ok_keep [OF ok f2])
        fix c
        assume "free_blk (sb s) (view s2) c"
        then have "c = a \<or> free_blk (sb s) (view s) c" unfolding v2 fr .
        then show "data_blk (sb s) c" using ok a by (auto simp: fs_ok_def)
      qed
      moreover have "lockset s2 = lockset s" using nl by (simp add: q(3) p(4))
      moreover have "held s2 j c" if "held s j c" for j c using h1 [OF that] h2 by blast
      ultimately show ?case using q(1,5) f2 v2 fr q(4) p(5) by auto
    qed
  qed
qed

end
