(* ===== verification/Fsmap.thy ===== *)
theory Fsmap
  imports Fsblock
begin

text \<open>
  The block map of an inode: \<^verbatim>\<open>bmap\<close> with its direct, indirect and doubly indirect blocks refines a finite map from
  block numbers of the file to blocks of the disk.
\<close>

section \<open>One entry of a block of addresses\<close>

lemma free_blk_upd:
  assumes "fs_ok s" and "data_blk (sb s) b"
  shows "free_blk (sb s) (v(b := x)) c \<longleftrightarrow> free_blk (sb s) v c"
  using BBLOCK_not_data [OF assms(1), of c] assms(2) by (auto simp: free_blk_def)

definition entry_post :: "u32 \<Rightarrow> nat \<Rightarrow> 'z fstate_scheme \<Rightarrow> u32 \<Rightarrow> 'z fstate_scheme \<Rightarrow> bool" where
  "entry_post b j s a s' \<longleftrightarrow> txn s' \<and> fs_ok s' \<and> fkeep s s' \<and> lockset s' = lockset s \<and>
     (if ld32 (view s b) (4 * j) \<noteq> 0 then a = ld32 (view s b) (4 * j) \<and> view s' = view s \<and> logged s' = logged s
      else if a = 0 then (\<forall>c. \<not> free_blk (sb s) (view s) c) \<and> view s' = view s \<and> logged s' = logged s
      else free_blk (sb s) (view s) a \<and> data_blk (sb s) a
        \<and> view s' = (alloc_view (sb s) a (view s))(b := st32 (view s b) (4 * j) a)
        \<and> logged s' = insert b (insert a (insert (BBLOCK a (sb s)) (logged s))))"

text \<open>The two orders of logging and releasing the block of addresses end alike.\<close>

lemma addr_entry_gen:
  fixes s :: "'z fstate_scheme"
  assumes t: "txn s" and ok: "fs_ok s" and r: "room (Suc (Suc (Suc k))) (Suc (Suc l)) s"
    and b: "data_blk (sb s) b" "\<not> free_blk (sb s) (view s) b" and lk: "lockset s = {}"
    and fin: "\<And>i s f. txn (s :: 'z fstate_scheme) \<Longrightarrow> held s i b \<Longrightarrow> b \<notin> log_area s \<Longrightarrow> room (Suc k) (Suc l) s \<Longrightarrow>
      runs (F i f s) (\<lambda>_ s'. txn s' \<and> view s' = (view s)(b := f (view s b)) \<and> lockset s' = lockset s - {b}
      \<and> logged s' = insert b (logged s) \<and> room k (Suc (Suc l)) s' \<and> fkeep s s'
      \<and> (\<forall>j c. j \<noteq> i \<longrightarrow> held s j c \<longrightarrow> held s' j c))"
  shows "runs (andthen (bread ROOTDEV b s) (\<lambda>i s.
      if ld32 (bdata i s) (4 * j) \<noteq> 0 then andthen (brelse i s) (\<lambda>_ s'. Inr (ld32 (bdata i s) (4 * j), s'))
      else andthen (balloc ROOTDEV s) (\<lambda>e s.
        if e \<noteq> 0 then andthen (F i (\<lambda>d. st32 d (4 * j) e) s) (\<lambda>_ s. Inr (e, s))
        else andthen (brelse i s) (\<lambda>_ s. Inr (e, s)))))
    (\<lambda>a s'. entry_post b j s a s' \<and> room k (Suc (Suc l)) s')"
proof -
  have nl: "b \<notin> lockset s" using lk by simp
  show ?thesis
  proof (rule runs_andthen [OF bread_f [OF t nl r]], goal_cases)
    case (1 i s1)
    then have p: "txn s1" "held s1 i b" "view s1 = view s" "lockset s1 = {b}" "logged s1 = logged s"
      "room (Suc (Suc (Suc k))) (Suc l) s1" "fkeep s s1" using lk by auto
    have sb1: "sb s1 = sb s" using fkeepD(1) [OF p(7)] .
    have ok1: "fs_ok s1" by (rule fs_ok_same_view [OF ok p(7,3)])
    have bd: "bdata i s1 = view s b" using view_held [OF txnD(1) [OF p(1)] p(2)] p(3) by simp
    have cl: "b \<in> logged s1 \<or> view s1 b = disk s1 b"
      using unpinned_clean [OF txnD(1) [OF t] nl] txnD(3) [OF t] fkeepD(3) [OF p(7)] p(3,5) by auto
    have lk1: "data_blk (sb s1) c \<and> \<not> free_blk (sb s1) (view s1) c" if "c \<in> lockset s1" for c
      using that b p(3,4) sb1 by simp
    show ?case
    proof (cases "ld32 (view s b) (4 * j) = 0")
      case False
      have r1: "room k (Suc l) s1" using room_mono [OF p(6)] by simp
      show ?thesis unfolding bd if_P [OF False]
      proof (rule runs_andthen [OF brelse_f [OF p(1,2) cl r1]], goal_cases)
        case (1 u s2)
        then have q: "txn s2" "view s2 = view s" "lockset s2 = {}" "logged s2 = logged s" "room k (Suc (Suc l)) s2" "fkeep s1 s2"
          using p(3,4,5) by auto
        have f2: "fkeep s s2" using p(7) q(6) by (rule fkeep_trans)
        show ?case using q f2 fs_ok_same_view [OF ok f2 q(2)] False lk by (simp add: entry_post_def)
      qed
    next
      case True
      have r1: "room (Suc (Suc (Suc k))) (Suc l) s1" by (rule p(6))
      show ?thesis unfolding bd True
      proof (simp only: simp_thms if_False, rule runs_andthen [OF balloc_runs [OF p(1) ok1 r1 lk1]], assumption, goal_cases)
        case (1 a s2)
        then have q: "txn s2" "fs_ok s2" "fkeep s1 s2" "lockset s2 = {b}" "room (Suc k) (Suc l) s2" "held s2 i b"
          and alt: "if a = 0 then (\<forall>b. \<not> free_blk (sb s) (view s) b) \<and> view s2 = view s \<and> logged s2 = logged s
            else free_blk (sb s) (view s) a \<and> data_blk (sb s) a \<and> view s2 = alloc_view (sb s) a (view s)
              \<and> logged s2 = insert a (insert (BBLOCK a (sb s)) (logged s))"
          using p(2-5) sb1 by auto
        have f2: "fkeep s s2" using p(7) q(3) by (rule fkeep_trans)
        show ?case
        proof (cases "a = 0")
          case z: True
          have cl2: "b \<in> logged s2 \<or> view s2 b = disk s2 b"
            using alt z cl fkeepD(3) [OF q(3)] p(3,5) by auto
          have r2: "room k (Suc l) s2" using room_mono [OF q(5)] by simp
          show ?thesis unfolding z
          proof (simp only: simp_thms if_False, rule runs_andthen [OF brelse_f [OF q(1,6) cl2 r2]], goal_cases)
            case (1 u s3)
            then have w: "txn s3" "view s3 = view s" "lockset s3 = {}" "logged s3 = logged s" "room k (Suc (Suc l)) s3" "fkeep s2 s3"
              using alt z q(4) by auto
            have f3: "fkeep s s3" using f2 w(6) by (rule fkeep_trans)
            show ?case using w f3 fs_ok_same_view [OF ok f3 w(2)] True lk alt z by (simp add: entry_post_def)
          qed
        next
          case nz: False
          then have a: "free_blk (sb s) (view s) a" "data_blk (sb s) a" "view s2 = alloc_view (sb s) a (view s)"
            "logged s2 = insert a (insert (BBLOCK a (sb s)) (logged s))" using alt by auto
          have lt: "a < sb_size (sb s)" using a(2) by (simp add: data_blk_def)
          have "b \<noteq> a" "b \<noteq> BBLOCK a (sb s)" using a(1) b BBLOCK_not_data [OF ok lt] by auto
          then have vb: "view s2 b = view s b" by (simp add: a(3) alloc_view_other)
          have la: "b \<notin> log_area s2" using data_not_log [OF ok b(1)] fkeepD(10) [OF f2] by simp
          show ?thesis unfolding if_P [OF nz]
          proof (rule runs_andthen [OF fin [OF q(1,6) la q(5)]], goal_cases)
            case (1 u s3)
            then have w: "txn s3" "view s3 = (alloc_view (sb s) a (view s))(b := st32 (view s b) (4 * j) a)"
              "lockset s3 = {}" "logged s3 = insert b (logged s2)" "room k (Suc (Suc l)) s3" "fkeep s2 s3"
              using q(4) vb a(3) by auto
            have f3: "fkeep s s3" using f2 w(6) by (rule fkeep_trans)
            have "fs_ok s3"
              by (rule fs_ok_keep [OF ok f3])
                (use ok in \<open>auto simp: w(2) free_blk_upd [OF ok b(1)] free_alloc_view [OF ok a(1,2)] fs_ok_def\<close>)
            then show ?case using w f3 True lk a nz by (simp add: entry_post_def)
          qed
        qed
      qed
    qed
  qed
qed

lemma addr_entry_runs:
  assumes "txn s" "fs_ok s" "room (Suc (Suc (Suc k))) (Suc (Suc l)) s" "data_blk (sb s) b"
    "\<not> free_blk (sb s) (view s) b" "lockset s = {}"
  shows "runs (addr_entry ROOTDEV b j s) (\<lambda>a s'. entry_post b j s a s' \<and> room k (Suc (Suc l)) s')"
  using addr_entry_gen [OF assms, of "\<lambda>i f s. andthen (log_write i (modify_data i f s)) (\<lambda>_ s. brelse i s)" j]
    log_release_runs unfolding addr_entry_def Let_def andthen_assoc by blast

lemma addr_entry2_runs:
  assumes "txn s" "fs_ok s" "room (Suc (Suc (Suc k))) (Suc (Suc l)) s" "data_blk (sb s) b"
    "\<not> free_blk (sb s) (view s) b" "lockset s = {}"
  shows "runs (addr_entry2 ROOTDEV b j s) (\<lambda>a s'. entry_post b j s a s' \<and> room k (Suc (Suc l)) s')"
proof -
  have if2: "(if e = 0 then x else y) = (if e \<noteq> 0 then y else x)" for e :: u32 and x y :: 'x by simp
  have if0: "(if e \<noteq> 0 then x else andthen m (\<lambda>_ s. Inr (0, s))) = (if e \<noteq> 0 then x else andthen m (\<lambda>_ s. Inr (e, s)))"
    for e :: u32 and x :: "(u32, 'z fstate_scheme) res" and m :: "(unit, 'z fstate_scheme) res" by simp
  show ?thesis
    using addr_entry_gen [OF assms, of "\<lambda>i f s. andthen (brelse i (modify_data i f s)) (\<lambda>_ s. log_write i s)" j]
      release_log_runs unfolding addr_entry2_def Let_def andthen_assoc if2 if0 by blast
qed

section \<open>The tree of addresses\<close>

text \<open>
  The places an inode keeps addresses in: the thirteen of the inode itself, the entries of the indirect block, those of
  the doubly indirect block, and those of the blocks the latter points to.
\<close>

datatype pos = Top nat | Ind nat | Dbl nat | Leaf nat nat

fun good :: "pos \<Rightarrow> bool" where
  "good (Top i) \<longleftrightarrow> i < NDIRECT + 2"
| "good (Ind j) \<longleftrightarrow> j < NINDIRECT"
| "good (Dbl j) \<longleftrightarrow> j < NINDIRECT"
| "good (Leaf j k) \<longleftrightarrow> j < NINDIRECT \<and> k < NINDIRECT"

text \<open>The address at a place, 0 if it or a block on the way to it is not there.\<close>

definition entry :: "(u32 \<Rightarrow> bytes) \<Rightarrow> u32 \<Rightarrow> nat \<Rightarrow> u32" where
  "entry v b k = (if b = 0 then 0 else ld32 (v b) (4 * k))"

fun at :: "(u32 \<Rightarrow> bytes) \<Rightarrow> (nat \<Rightarrow> u32) \<Rightarrow> pos \<Rightarrow> u32" where
  "at v A (Top i) = A i"
| "at v A (Ind j) = entry v (A NDIRECT) j"
| "at v A (Dbl j) = entry v (A (NDIRECT + 1)) j"
| "at v A (Leaf j k) = entry v (entry v (A (NDIRECT + 1)) j) k"

fun parent :: "pos \<Rightarrow> pos option" where
  "parent (Top i) = None"
| "parent (Ind j) = Some (Top NDIRECT)"
| "parent (Dbl j) = Some (Top (NDIRECT + 1))"
| "parent (Leaf j k) = Some (Dbl j)"

fun slot :: "pos \<Rightarrow> nat" where
  "slot (Top i) = i"
| "slot (Ind j) = j"
| "slot (Dbl j) = j"
| "slot (Leaf j k) = k"

lemma at_parent: "parent r = Some q \<Longrightarrow> at v A r = entry v (at v A q) (slot r)"
  by (cases r) auto

lemma good_parent: "good r \<Longrightarrow> parent r = Some q \<Longrightarrow> good q \<and> slot r < 256"
  by (cases r) auto

lemma parent_slot_inj: "parent r = Some q \<Longrightarrow> parent p = Some q \<Longrightarrow> slot r = slot p \<Longrightarrow> r = p"
  by (cases r; cases p) auto

text \<open>Where \<^verbatim>\<open>bmap\<close> keeps the address of block \<open>n\<close> of the file, and that address.\<close>

definition block_pos :: "nat \<Rightarrow> pos" where
  "block_pos n = (if n < NDIRECT then Top n
     else if n < NDIRECT + NINDIRECT then Ind (n - NDIRECT)
     else Leaf ((n - NDIRECT - NINDIRECT) div NINDIRECT) ((n - NDIRECT - NINDIRECT) mod NINDIRECT))"

lemma good_block_pos: "n < MAXFILE \<Longrightarrow> good (block_pos n)"
  by (auto simp: block_pos_def)

lemma block_pos_inj: "block_pos m = block_pos n \<longleftrightarrow> m = n"
proof
  assume e: "block_pos m = block_pos n"
  show "m = n"
  proof (cases "m < 267 \<or> n < 267")
    case True
    then show ?thesis using e by (auto simp: block_pos_def split: if_splits)
  next
    case False
    then have "(m - 267) div 256 = (n - 267) div 256" "(m - 267) mod 256 = (n - 267) mod 256"
      using e by (simp_all add: block_pos_def)
    then have "m - 267 = n - 267" by (metis div_mult_mod_eq)
    then show ?thesis using False by arith
  qed
qed simp

text \<open>The addresses of an inode are different blocks of data, marked used.\<close>

definition tree_ok :: "superblock \<Rightarrow> (u32 \<Rightarrow> bytes) \<Rightarrow> (nat \<Rightarrow> u32) \<Rightarrow> bool" where
  "tree_ok sp v A \<longleftrightarrow> (\<forall>p q. good p \<longrightarrow> good q \<longrightarrow> at v A p = at v A q \<longrightarrow> at v A p \<noteq> 0 \<longrightarrow> p = q)
     \<and> (\<forall>p. good p \<longrightarrow> at v A p \<noteq> 0 \<longrightarrow> data_blk sp (at v A p) \<and> \<not> free_blk sp v (at v A p))"

lemma tree_okD:
  assumes "tree_ok sp v A"
  shows "good p \<Longrightarrow> good q \<Longrightarrow> at v A p = at v A q \<Longrightarrow> at v A p \<noteq> 0 \<Longrightarrow> p = q"
    and "good p \<Longrightarrow> at v A p \<noteq> 0 \<Longrightarrow> data_blk sp (at v A p)"
    and "good p \<Longrightarrow> at v A p \<noteq> 0 \<Longrightarrow> \<not> free_blk sp v (at v A p)"
  using assms unfolding tree_ok_def by blast+

text \<open>Hanging a fresh block \<open>a\<close> at a place \<open>p\<close> that was empty.\<close>

definition hang_view :: "superblock \<Rightarrow> pos \<Rightarrow> u32 \<Rightarrow> (nat \<Rightarrow> u32) \<Rightarrow> (u32 \<Rightarrow> bytes) \<Rightarrow> u32 \<Rightarrow> bytes" where
  "hang_view sp p a A v = (case parent p of
       None \<Rightarrow> alloc_view sp a v
     | Some q \<Rightarrow> (alloc_view sp a v)(at v A q := st32 (v (at v A q)) (4 * slot p) a))"

definition hang_addrs :: "pos \<Rightarrow> u32 \<Rightarrow> (nat \<Rightarrow> u32) \<Rightarrow> nat \<Rightarrow> u32" where
  "hang_addrs p a A = (case parent p of None \<Rightarrow> A(slot p := a) | Some q \<Rightarrow> A)"

lemma entry_zeroed: "k < 256 \<Longrightarrow> v b = memset x 0 0 BSIZE \<Longrightarrow> entry v b k = 0"
  by (simp add: entry_def memset_eq ld32_def)

lemma hang_at:
  assumes ok: "fs_ok s" and tr: "tree_ok (sb s) v A" and a: "free_blk (sb s) v a" "data_blk (sb s) a"
    and p: "good p" "at v A p = 0" and q: "\<And>q. parent p = Some q \<Longrightarrow> at v A q \<noteq> 0"
    and r: "good r"
  shows "at (hang_view (sb s) p a A v) (hang_addrs p a A) r = (if r = p then a else at v A r)"
proof -
  let ?v = "hang_view (sb s) p a A v" and ?A = "hang_addrs p a A"
  have lt: "a < sb_size (sb s)" using a(2) by (simp add: data_blk_def)
  have a0: "a \<noteq> 0" using a(2) by (auto simp: data_blk_def)
  have ne: "at v A x \<noteq> a \<and> at v A x \<noteq> BBLOCK a (sb s)" if "good x" "at v A x \<noteq> 0" for x
    using tree_okD(2,3) [OF tr that] a(1) BBLOCK_not_data [OF ok lt] by metis
  have top: "at ?v ?A (Top i) = (if Top i = p then a else at v A (Top i))" for i
    by (cases p) (auto simp: hang_addrs_def)
  have step: "at ?v ?A r = (if r = p then a else at v A r)"
    if g: "good r" and pr: "parent r = Some x" and ih: "at ?v ?A x = (if x = p then a else at v A x)" for r x
  proof (cases "x = p")
    case True
    have "a \<noteq> BBLOCK a (sb s)" using BBLOCK_not_data [OF ok lt] a(2) by metis
    moreover have "at v A y \<noteq> a" if "parent p = Some y" for y
      using ne [of y] q [OF that] good_parent [OF p(1) that] by blast
    ultimately have "?v a = memset (v a) 0 0 BSIZE"
      by (cases "parent p") (auto simp: hang_view_def alloc_view_def)
    then have "at ?v ?A r = 0"
      using ih True entry_zeroed good_parent [OF g pr] by (simp add: at_parent [OF pr])
    moreover have "r \<noteq> p" using pr True q p(2) by auto
    moreover have "at v A r = 0" using p(2) True by (simp add: at_parent [OF pr] entry_def)
    ultimately show ?thesis by simp
  next
    case False
    have gx: "good x" and sl: "slot r < 256" using good_parent [OF g pr] by auto
    have e: "at ?v ?A r = entry ?v (at v A x) (slot r)" using ih False by (simp add: at_parent [OF pr])
    show ?thesis
    proof (cases "at v A x = 0")
      case True
      then have "r \<noteq> p" using pr q by blast
      then show ?thesis using True e by (simp add: at_parent [OF pr] entry_def)
    next
      case nz: False
      have vx: "alloc_view (sb s) a v (at v A x) = v (at v A x)" using ne [OF gx nz] by (simp add: alloc_view_other)
      show ?thesis
      proof (cases "parent p = Some x")
        case True
        then have "?v (at v A x) = st32 (v (at v A x)) (4 * slot p) a" by (simp add: hang_view_def)
        moreover have "slot r = slot p \<longleftrightarrow> r = p" using parent_slot_inj [OF pr True] by blast
        moreover have "ld32 (st32 m (4 * slot p) a) (4 * slot r) = ld32 m (4 * slot r)" if "slot r \<noteq> slot p" for m
          by (rule ld32_st32_other) (use that in arith)
        ultimately show ?thesis
          unfolding e using nz by (auto simp: entry_def at_parent [OF pr] ld32_st32)
      next
        case other: False
        have "at v A y \<noteq> at v A x" if "parent p = Some y" for y
        proof
          assume "at v A y = at v A x"
          then have "y = x" using tree_okD(1) [OF tr _ gx] good_parent [OF p(1) that] q [OF that] by blast
          then show False using other that by simp
        qed
        then have "?v (at v A x) = v (at v A x)" using vx by (cases "parent p") (auto simp: hang_view_def)
        moreover have "r \<noteq> p" using pr other by auto
        ultimately show ?thesis unfolding e using nz by (simp add: entry_def at_parent [OF pr])
      qed
    qed
  qed
  have mid: "at ?v ?A (Ind j) = (if Ind j = p then a else at v A (Ind j))" if "good (Ind j)" for j
    by (rule step [OF that _ top]) simp
  have mid2: "at ?v ?A (Dbl j) = (if Dbl j = p then a else at v A (Dbl j))" if "good (Dbl j)" for j
    by (rule step [OF that _ top]) simp
  show ?thesis
  proof (cases r)
    case (Leaf j k)
    then have gd: "good (Dbl j)" using r by simp
    show ?thesis by (rule step [OF r _ mid2 [OF gd]]) (simp add: Leaf)
  qed (use top mid mid2 r in blast)+
qed

lemma hang_free:
  assumes "fs_ok s" and "tree_ok (sb s) v A" and "free_blk (sb s) v a" "data_blk (sb s) a"
    and "good p" and "\<And>q. parent p = Some q \<Longrightarrow> at v A q \<noteq> 0"
  shows "free_blk (sb s) (hang_view (sb s) p a A v) c \<longleftrightarrow> c \<noteq> a \<and> free_blk (sb s) v c"
proof (cases "parent p")
  case None
  then show ?thesis by (simp add: hang_view_def free_alloc_view [OF assms(1,3,4)])
next
  case (Some q)
  have "data_blk (sb s) (at v A q)"
    using tree_okD(2) [OF assms(2)] good_parent [OF assms(5) Some] assms(6) [OF Some] by blast
  then show ?thesis using Some by (simp add: hang_view_def free_alloc_view [OF assms(1,3,4)] free_blk_upd [OF assms(1)])
qed

lemma hang_tree_ok:
  assumes "fs_ok s" and tr: "tree_ok (sb s) v A" and a: "free_blk (sb s) v a" "data_blk (sb s) a"
    and "good p" "at v A p = 0" and "\<And>q. parent p = Some q \<Longrightarrow> at v A q \<noteq> 0"
  shows "tree_ok (sb s) (hang_view (sb s) p a A v) (hang_addrs p a A)"
  unfolding tree_ok_def
  using hang_at [OF assms] hang_free [OF assms(1-5,7)] tree_okD [OF tr] a by auto metis+

section \<open>The operations on the tree\<close>

text \<open>Changes of the inode table do not concern the blocks.\<close>

lemma itable_frame [simp]:
  "view (s\<lparr>itable := I\<rparr>) = view s" "lockset (s\<lparr>itable := I\<rparr>) = lockset s" "bc_inv (s\<lparr>itable := I\<rparr>) = bc_inv s"
  "pinset (s\<lparr>itable := I\<rparr>) = pinset s" "logged (s\<lparr>itable := I\<rparr>) = logged s"
  "log_area (s\<lparr>itable := I\<rparr>) = log_area s" "held (s\<lparr>itable := I\<rparr>) i b = held s i b"
  by (simp_all add: abstraction_cong [of "s\<lparr>itable := I\<rparr>" s] logged_def log_area_def
      held_cong [of "s\<lparr>itable := I\<rparr>" s] myproc_def)

lemma itable_frame2 [simp]:
  "txn (s\<lparr>itable := I\<rparr>) = txn s" "room k l (s\<lparr>itable := I\<rparr>) = room k l s" "fs_ok (s\<lparr>itable := I\<rparr>) = fs_ok s"
  by (simp_all add: txn_def room_def log_ok_def fs_ok_def)

lemma fkeep_itable: "fkeep s t \<Longrightarrow> fkeep (s\<lparr>itable := I\<rparr>) (t\<lparr>itable := I\<rparr>)"
proof -
  assume "fkeep s t"
  then obtain bf n bl pr where t: "t = s\<lparr>bufs := bf, lh_n := n, lh_block := bl, procs := pr\<rparr>"
    and p: "\<And>p. \<exists>st. pr p = (procs s p)\<lparr>p_state := st\<rparr>"
    unfolding fkeep_def by blast
  show ?thesis
    by (rule fkeepI [where bf = bf and n = n and bl = bl and pr = pr]) (simp_all add: t p)
qed

text \<open>The frame of operations that may also change the addresses of inode \<open>ip\<close>.\<close>

definition mkeep :: "nat \<Rightarrow> 'z fstate_scheme \<Rightarrow> 'z fstate_scheme \<Rightarrow> bool" where
  "mkeep ip s s' \<longleftrightarrow> (\<exists>A. fkeep (s\<lparr>itable := (itable s)(ip := (itable s ip)\<lparr>i_addrs := A\<rparr>)\<rparr>) s')"

lemma fkeep_mkeep: "fkeep s s' \<Longrightarrow> mkeep ip s s'"
  unfolding mkeep_def by (rule exI [of _ "i_addrs (itable s ip)"]) simp

lemma mkeep_itable: "mkeep ip s s' \<Longrightarrow> itable s' = (itable s)(ip := (itable s ip)\<lparr>i_addrs := i_addrs (itable s' ip)\<rparr>)"
  unfolding mkeep_def by (auto dest: fkeepD(2))

lemma mkeep_trans: "mkeep ip s t \<Longrightarrow> mkeep ip t u \<Longrightarrow> mkeep ip s u"
proof -
  assume "mkeep ip s t" and "mkeep ip t u"
  then obtain A B where f: "fkeep (s\<lparr>itable := (itable s)(ip := (itable s ip)\<lparr>i_addrs := A\<rparr>)\<rparr>) t"
      "fkeep (t\<lparr>itable := (itable t)(ip := (itable t ip)\<lparr>i_addrs := B\<rparr>)\<rparr>) u"
    unfolding mkeep_def by blast
  let ?I = "(itable t)(ip := (itable t ip)\<lparr>i_addrs := B\<rparr>)"
  have "itable t = (itable s)(ip := (itable s ip)\<lparr>i_addrs := A\<rparr>)" using fkeepD(2) [OF f(1)] by simp
  then have I: "?I = (itable s)(ip := (itable s ip)\<lparr>i_addrs := B\<rparr>)" by simp
  have "fkeep (s\<lparr>itable := ?I\<rparr>) (t\<lparr>itable := ?I\<rparr>)" using fkeep_itable [OF f(1), of ?I] by simp
  then have "fkeep (s\<lparr>itable := ?I\<rparr>) u" using f(2) by (rule fkeep_trans)
  then show "mkeep ip s u" unfolding mkeep_def I by blast
qed

lemma mkeepD:
  assumes "mkeep ip s s'"
  shows "sb s' = sb s" "disk s' = disk s" "log_area s' = log_area s" "log_size s' = log_size s"
    "pmem s' = pmem s" "curproc s' = curproc s" "p_pagetable (procs s' p) = p_pagetable (procs s p)"
    "p_sz (procs s' p) = p_sz (procs s p)" "kend s' = kend s" "freelist s' = freelist s"
  using assms unfolding mkeep_def by (auto dest: fkeepD)

definition addr_of :: "nat \<Rightarrow> 'z fstate_scheme \<Rightarrow> pos \<Rightarrow> u32" where
  "addr_of ip s = at (view s) (i_addrs (itable s ip))"

text \<open>The state in which \<^verbatim>\<open>bmap\<close> is called: in a transaction, no buffer held, the inode's tree in order.\<close>

definition map_ok :: "nat \<Rightarrow> 'z fstate_scheme \<Rightarrow> bool" where
  "map_ok ip s \<longleftrightarrow> txn s \<and> fs_ok s \<and> lockset s = {} \<and> i_dev (itable s ip) = ROOTDEV
     \<and> tree_ok (sb s) (view s) (i_addrs (itable s ip))"

abbreviation free_in :: "'z fstate_scheme \<Rightarrow> u32 \<Rightarrow> bool" where
  "free_in s \<equiv> free_blk (sb s) (view s)"

definition nfree :: "'z fstate_scheme \<Rightarrow> nat" where
  "nfree s = card {c. free_in s c}"

lemma nfree_pos: "0 < nfree s \<Longrightarrow> \<exists>c. free_in s c"
  unfolding nfree_def by (auto simp: card_gt_0_iff)

text \<open>A block that holds neither data nor a part of the free map: the boot block, the super block, the log, the inodes.\<close>

definition fixed_blk :: "superblock \<Rightarrow> u32 \<Rightarrow> bool" where
  "fixed_blk sp c \<longleftrightarrow> \<not> data_blk sp c \<and> (\<forall>b. b < sb_size sp \<longrightarrow> c \<noteq> BBLOCK b sp)"

text \<open>Place \<open>p\<close> has an address afterwards, a fresh and zeroed block if it had none; nothing else in the tree changes.\<close>

definition ensured :: "nat \<Rightarrow> pos \<Rightarrow> 'z fstate_scheme \<Rightarrow> u32 \<Rightarrow> 'z fstate_scheme \<Rightarrow> bool" where
  "ensured ip p s a s' \<longleftrightarrow> map_ok ip s' \<and> mkeep ip s s' \<and> a = addr_of ip s' p \<and> a \<noteq> 0
     \<and> (\<forall>r. good r \<longrightarrow> r \<noteq> p \<longrightarrow> addr_of ip s' r = addr_of ip s r)
     \<and> (if addr_of ip s p \<noteq> 0 then a = addr_of ip s p \<and> view s' = view s
        else free_in s a \<and> (\<forall>i<BSIZE. view s' a i = 0) \<and> (\<forall>c. free_in s' c \<longleftrightarrow> c \<noteq> a \<and> free_in s c)
          \<and> (\<forall>c. data_blk (sb s) c \<longrightarrow> c \<noteq> a \<longrightarrow> (\<forall>q. parent p = Some q \<longrightarrow> c \<noteq> addr_of ip s q) \<longrightarrow> view s' c = view s c)
          \<and> (\<forall>c. fixed_blk (sb s) c \<longrightarrow> view s' c = view s c))"

lemma ensured_view:
  assumes "ensured ip p s a s'"
  shows "addr_of ip s p \<noteq> 0 \<Longrightarrow> view s' = view s" and "addr_of ip s p = 0 \<Longrightarrow> \<forall>i<BSIZE. view s' a i = 0"
  using assms unfolding ensured_def by argo+

lemma ensured_nfree:
  assumes "ensured ip p s a s'"
  shows "nfree s \<le> Suc (nfree s')"
proof (cases "addr_of ip s p = 0")
  case True
  then have "{c. free_in s' c} = {c. free_in s c} - {a}" using assms by (auto simp: ensured_def)
  then show ?thesis unfolding nfree_def using card_Suc_Diff1 [of "{c. free_in s c}" a] card_Diff1_le [of "{c. free_in s c}" a]
    by (cases "a \<in> {c. free_in s c}") simp_all
next
  case False
  then have "view s' = view s" "sb s' = sb s" using assms mkeepD(1) [of ip s s'] by (auto simp: ensured_def)
  then show ?thesis by (simp add: nfree_def)
qed

text \<open>Both ways of hanging a block into the tree end with the same facts.\<close>

lemma ensured_new:
  assumes m: "map_ok ip s" and p: "good p" "addr_of ip s p = 0" and q: "\<And>q. parent p = Some q \<Longrightarrow> addr_of ip s q \<noteq> 0"
    and a: "free_in s a" "data_blk (sb s) a"
    and t: "txn s'" "fs_ok s'" "lockset s' = {}" "mkeep ip s s'"
    and v: "view s' = hang_view (sb s) p a (i_addrs (itable s ip)) (view s)"
    and A: "i_addrs (itable s' ip) = hang_addrs p a (i_addrs (itable s ip))"
  shows "ensured ip p s a s'"
proof -
  have ok: "fs_ok s" and tr: "tree_ok (sb s) (view s) (i_addrs (itable s ip))" and dv: "i_dev (itable s ip) = ROOTDEV"
    using m by (simp_all add: map_ok_def)
  have q': "\<And>q. parent p = Some q \<Longrightarrow> at (view s) (i_addrs (itable s ip)) q \<noteq> 0" using q by (simp add: addr_of_def)
  have p0: "at (view s) (i_addrs (itable s ip)) p = 0" using p(2) by (simp add: addr_of_def)
  have lt: "a < sb_size (sb s)" and a0: "a \<noteq> 0" using a(2) by (auto simp: data_blk_def)
  have aB: "a \<noteq> BBLOCK a (sb s)" using BBLOCK_not_data [OF ok lt] a(2) by metis
  have qa: "addr_of ip s x \<noteq> a" if "parent p = Some x" for x
    using tree_okD(3) [OF tr, of x] good_parent [OF p(1) that] q' [OF that] a(1) by (auto simp: addr_of_def)
  have "addr_of ip s' r = (if r = p then a else addr_of ip s r)" if "good r" for r
    unfolding addr_of_def v A by (rule hang_at [OF ok tr a p(1) p0 q' that])
  moreover have "free_in s' c \<longleftrightarrow> c \<noteq> a \<and> free_in s c" for c
    unfolding v mkeepD(1) [OF t(4)] by (rule hang_free [OF ok tr a p(1) q'])
  moreover have "map_ok ip s'"
  proof -
    have "tree_ok (sb s') (view s') (i_addrs (itable s' ip))"
      unfolding v A mkeepD(1) [OF t(4)] by (rule hang_tree_ok [OF ok tr a p(1) p0 q'])
    moreover have "i_dev (itable s' ip) = ROOTDEV" using arg_cong [OF mkeep_itable [OF t(4)], of "\<lambda>f. i_dev (f ip)"] dv by simp
    ultimately show ?thesis using t(1-3) by (simp add: map_ok_def)
  qed
  moreover have "view s' a i = 0" if "i < BSIZE" for i
    using qa aB that by (cases "parent p") (auto simp: v hang_view_def alloc_view_def memset_eq addr_of_def)
  moreover have "view s' c = view s c" if "data_blk (sb s) c" "c \<noteq> a" "\<forall>q. parent p = Some q \<longrightarrow> c \<noteq> addr_of ip s q" for c
  proof -
    have "c \<noteq> BBLOCK a (sb s)" using BBLOCK_not_data [OF ok lt] that(1) by metis
    then show ?thesis using that(2,3) by (cases "parent p") (auto simp: v hang_view_def alloc_view_other addr_of_def)
  qed
  moreover have "view s' c = view s c" if c: "fixed_blk (sb s) c" for c
  proof -
    have "c \<noteq> a" "c \<noteq> BBLOCK a (sb s)" using c a(2) lt by (auto simp: fixed_blk_def)
    moreover have "at (view s) (i_addrs (itable s ip)) x \<noteq> c" if "parent p = Some x" for x
      using tree_okD(2) [OF tr, of x] good_parent [OF p(1) that] q' [OF that] c by (auto simp: fixed_blk_def)
    ultimately show ?thesis by (cases "parent p") (auto simp: v hang_view_def alloc_view_other)
  qed
  ultimately show ?thesis using p a a0 t(4) by (simp add: ensured_def)
qed

lemma ensured_old:
  assumes "map_ok ip s" and "addr_of ip s p \<noteq> 0" and "txn s'" "fkeep s s'" "lockset s' = {}" "view s' = view s"
  shows "ensured ip p s (addr_of ip s p) s'"
proof -
  have "addr_of ip s' = addr_of ip s" using assms(6) fkeepD(2) [OF assms(4)] by (simp add: addr_of_def)
  moreover have "map_ok ip s'"
    using assms(1,3,5,6) fs_ok_same_view [OF _ assms(4,6)] fkeepD(1,2) [OF assms(4)] by (simp add: map_ok_def)
  ultimately show ?thesis using assms(2,6) fkeep_mkeep [OF assms(4)] by (simp add: ensured_def)
qed

lemma addr_slot_ensured:
  assumes m: "map_ok ip s" and i: "i < 13" and r: "room (Suc (Suc k)) (Suc l) s" and fr: "0 < nfree s"
  shows "runs (addr_slot ip i s) (\<lambda>a s'. ensured ip (Top i) s a s' \<and> room k (Suc l) s')"
proof -
  have t: "txn s" and ok: "fs_ok s" and lk: "lockset s = {}" and dv: "i_dev (itable s ip) = ROOTDEV"
    using m by (simp_all add: map_ok_def)
  have e: "addr_of ip s (Top i) = i_addrs (itable s ip) i" by (simp add: addr_of_def)
  show ?thesis
  proof (cases "i_addrs (itable s ip) i = 0")
    case False
    have "ensured ip (Top i) s (addr_of ip s (Top i)) s"
      by (rule ensured_old [OF m]) (use False t lk in \<open>simp_all add: e\<close>)
    then show ?thesis using False room_mono [OF r] by (simp add: addr_slot_def e)
  next
    case True
    have lk': "data_blk (sb s) c \<and> \<not> free_blk (sb s) (view s) c" if "c \<in> lockset s" for c using that lk by simp
    show ?thesis unfolding addr_slot_def dv
    proof (simp only: True simp_thms if_False, rule runs_andthen [OF balloc_runs [OF t ok r lk']], assumption, goal_cases)
      case (1 a s1)
      then have a: "a \<noteq> 0" using nfree_pos [OF fr] by auto
      then have p: "txn s1" "fs_ok s1" "fkeep s s1" "lockset s1 = {}" "room k (Suc l) s1" "free_in s a" "data_blk (sb s) a"
        "view s1 = alloc_view (sb s) a (view s)" using 1 lk by auto
      let ?t = "set_addr ip i a s1"
      have it: "itable s1 = itable s" using fkeepD(2) [OF p(3)] .
      have te: "?t = s1\<lparr>itable := (itable s1)(ip := i_addrs_update (\<lambda>f. f(i := a)) (itable s1 ip))\<rparr>"
        by (simp add: set_addr_def set_inode_def)
      have A: "i_addrs (itable ?t ip) = hang_addrs (Top i) a (i_addrs (itable s ip))"
        by (simp add: te it hang_addrs_def)
      have "mkeep ip s ?t" unfolding mkeep_def
      proof (rule exI [of _ "i_addrs (itable ?t ip)"])
        have u: "i_addrs_update (\<lambda>f. f(i := a)) (itable s ip) = (itable s ip)\<lparr>i_addrs := (i_addrs (itable s ip))(i := a)\<rparr>"
          by (cases "itable s ip") simp
        have "i_addrs (itable ?t ip) = (i_addrs (itable s ip))(i := a)" by (simp add: te it)
        then have "(itable s)(ip := (itable s ip)\<lparr>i_addrs := i_addrs (itable ?t ip)\<rparr>)
            = (itable s)(ip := i_addrs_update (\<lambda>f. f(i := a)) (itable s ip))"
          by (simp only: u)
        also have "\<dots> = itable ?t" by (simp add: te it)
        finally have "(itable s)(ip := (itable s ip)\<lparr>i_addrs := i_addrs (itable ?t ip)\<rparr>) = itable ?t" .
        then show "fkeep (s\<lparr>itable := (itable s)(ip := (itable s ip)\<lparr>i_addrs := i_addrs (itable ?t ip)\<rparr>)\<rparr>) ?t"
          using fkeep_itable [OF p(3), of "itable ?t"] by (simp add: te)
      qed
      moreover have "view ?t = hang_view (sb s) (Top i) a (i_addrs (itable s ip)) (view s)"
        by (simp add: te p(8) hang_view_def)
      moreover have "txn ?t" "fs_ok ?t" "lockset ?t = {}" using p(1,2,4) by (simp_all add: te)
      ultimately have "ensured ip (Top i) s a ?t"
        using ensured_new [OF m, of "Top i" a ?t] i True p(6,7) A by (simp add: e)
      moreover have "room k (Suc l) ?t" using p(5) by (simp add: te)
      ultimately show ?case using a by simp
    qed
  qed
qed

lemma entry_ensured:
  assumes m: "map_ok ip s" and p: "good p" "parent p = Some q" and q: "addr_of ip s q \<noteq> 0" and fr: "0 < nfree s"
    and e: "entry_post (addr_of ip s q) (slot p) s a s'"
  shows "ensured ip p s a s'"
proof -
  let ?b = "addr_of ip s q"
  have tp: "addr_of ip s p = ld32 (view s ?b) (4 * slot p)"
    using q at_parent [OF p(2)] by (simp add: addr_of_def entry_def)
  have lk: "lockset s = {}" using m by (simp add: map_ok_def)
  have f: "fkeep s s'" "txn s'" "fs_ok s'" "lockset s' = {}" using e lk by (simp_all add: entry_post_def)
  show ?thesis
  proof (cases "addr_of ip s p = 0")
    case False
    then have "a = addr_of ip s p" "view s' = view s" using e by (simp_all add: entry_post_def tp)
    then show ?thesis using ensured_old [OF m False f(2,1,4)] by simp
  next
    case True
    have a: "a \<noteq> 0" using e True nfree_pos [OF fr] by (auto simp: entry_post_def tp)
    then have w: "free_in s a" "data_blk (sb s) a"
      "view s' = (alloc_view (sb s) a (view s))(?b := st32 (view s ?b) (4 * slot p) a)"
      using e True by (auto simp: entry_post_def tp)
    show ?thesis
    proof (rule ensured_new [OF m p(1) True _ w(1,2) f(2-4) fkeep_mkeep [OF f(1)]])
      show "addr_of ip s x \<noteq> 0" if "parent p = Some x" for x using that p(2) q by simp
      show "view s' = hang_view (sb s) p a (i_addrs (itable s ip)) (view s)"
        using w(3) p(2) by (simp add: hang_view_def addr_of_def)
      show "i_addrs (itable s' ip) = hang_addrs p a (i_addrs (itable s ip))"
        using fkeepD(2) [OF f(1)] p(2) by (simp add: hang_addrs_def)
    qed
  qed
qed

lemma addr_entry_ensured:
  assumes m: "map_ok ip s" and p: "good p" "parent p = Some q" and q: "addr_of ip s q \<noteq> 0" and fr: "0 < nfree s"
    and r: "room (Suc (Suc (Suc k))) (Suc (Suc l)) s"
  shows "runs (addr_entry ROOTDEV (addr_of ip s q) (slot p) s) (\<lambda>a s'. ensured ip p s a s' \<and> room k (Suc (Suc l)) s')"
    and "runs (addr_entry2 ROOTDEV (addr_of ip s q) (slot p) s) (\<lambda>a s'. ensured ip p s a s' \<and> room k (Suc (Suc l)) s')"
proof -
  have t: "txn s" and ok: "fs_ok s" and lk: "lockset s = {}" and tr: "tree_ok (sb s) (view s) (i_addrs (itable s ip))"
    using m by (simp_all add: map_ok_def)
  have gq: "good q" using good_parent [OF p] by simp
  have b: "data_blk (sb s) (addr_of ip s q)" "\<not> free_blk (sb s) (view s) (addr_of ip s q)"
    using tree_okD(2,3) [OF tr gq] q by (simp_all add: addr_of_def)
  show "runs (addr_entry ROOTDEV (addr_of ip s q) (slot p) s) (\<lambda>a s'. ensured ip p s a s' \<and> room k (Suc (Suc l)) s')"
    by (rule runs_mono [OF addr_entry_runs [OF t ok r b lk]]) (blast intro: entry_ensured [OF m p q fr])
  show "runs (addr_entry2 ROOTDEV (addr_of ip s q) (slot p) s) (\<lambda>a s'. ensured ip p s a s' \<and> room k (Suc (Suc l)) s')"
    by (rule runs_mono [OF addr_entry2_runs [OF t ok r b lk]]) (blast intro: entry_ensured [OF m p q fr])
qed

section \<open>The block map as a finite map\<close>

fun interior :: "pos \<Rightarrow> bool" where
  "interior (Top i) \<longleftrightarrow> i = NDIRECT \<or> i = NDIRECT + 1"
| "interior (Ind j) \<longleftrightarrow> False"
| "interior (Dbl j) \<longleftrightarrow> True"
| "interior (Leaf j k) \<longleftrightarrow> False"

lemma interior_parent: "parent r = Some q \<Longrightarrow> interior q"
  by (cases r) auto

lemma not_interior_block_pos: "\<not> interior (block_pos n)"
  by (simp add: block_pos_def)

text \<open>
  The state has grown at places of \<open>P\<close> only: addresses that were there stay, new ones are blocks that were free,
  and no block in use other than the inode's own blocks of addresses changes its contents.
\<close>

definition grown :: "nat \<Rightarrow> pos set \<Rightarrow> 'z fstate_scheme \<Rightarrow> 'z fstate_scheme \<Rightarrow> bool" where
  "grown ip P s s' \<longleftrightarrow> map_ok ip s' \<and> mkeep ip s s'
     \<and> (\<forall>r. good r \<longrightarrow> addr_of ip s r \<noteq> 0 \<or> r \<notin> P \<longrightarrow> addr_of ip s' r = addr_of ip s r)
     \<and> (\<forall>r. good r \<longrightarrow> addr_of ip s r = 0 \<longrightarrow> addr_of ip s' r \<noteq> 0 \<longrightarrow> free_in s (addr_of ip s' r))
     \<and> (\<forall>c. free_in s' c \<longrightarrow> free_in s c)
     \<and> (\<forall>c. data_blk (sb s) c \<longrightarrow> \<not> free_in s c \<longrightarrow> (\<forall>p. good p \<longrightarrow> interior p \<longrightarrow> addr_of ip s p \<noteq> c)
          \<longrightarrow> view s' c = view s c)
     \<and> (\<forall>c. fixed_blk (sb s) c \<longrightarrow> view s' c = view s c)
     \<and> (\<forall>c. free_in s c \<longrightarrow> \<not> free_in s' c \<longrightarrow> c \<noteq> 0 \<and> (\<exists>p. good p \<and> addr_of ip s' p = c))"

lemma bgrown_refl: "map_ok ip s \<Longrightarrow> grown ip {} s s"
  by (simp add: grown_def fkeep_mkeep)

lemma grownD:
  assumes "grown ip P s s'"
  shows "map_ok ip s'" "mkeep ip s s'"
    and "good r \<Longrightarrow> addr_of ip s r \<noteq> 0 \<Longrightarrow> addr_of ip s' r = addr_of ip s r"
    and "good r \<Longrightarrow> r \<notin> P \<Longrightarrow> addr_of ip s' r = addr_of ip s r"
    and "good r \<Longrightarrow> addr_of ip s r = 0 \<Longrightarrow> addr_of ip s' r \<noteq> 0 \<Longrightarrow> free_in s (addr_of ip s' r)"
    and "free_in s' c \<Longrightarrow> free_in s c"
    and "data_blk (sb s) c \<Longrightarrow> \<not> free_in s c \<Longrightarrow> (\<And>p. good p \<Longrightarrow> interior p \<Longrightarrow> addr_of ip s p \<noteq> c) \<Longrightarrow> view s' c = view s c"
    and "fixed_blk (sb s) c \<Longrightarrow> view s' c = view s c"
    and "free_in s c \<Longrightarrow> \<not> free_in s' c \<Longrightarrow> c \<noteq> 0 \<and> (\<exists>p. good p \<and> addr_of ip s' p = c)"
  using assms unfolding grown_def by blast+

lemma ensured_grown:
  assumes m: "map_ok ip s" and e: "ensured ip p s a s'" and g: "good p"
  shows "grown ip {p} s s'"
proof (cases "addr_of ip s p = 0")
  case False
  then have v: "view s' = view s" and a: "addr_of ip s' p = addr_of ip s p" and sb: "sb s' = sb s"
    and o: "\<And>r. good r \<Longrightarrow> r \<noteq> p \<Longrightarrow> addr_of ip s' r = addr_of ip s r"
    using e mkeepD(1) [of ip s s'] by (auto simp: ensured_def)
  then have "addr_of ip s' r = addr_of ip s r" if "good r" for r using that by (cases "r = p") auto
  then show ?thesis using e by (simp add: grown_def ensured_def v sb)
next
  case True
  then have a: "addr_of ip s' p = a" "a \<noteq> 0" "free_in s a" and o: "\<And>r. good r \<Longrightarrow> r \<noteq> p \<Longrightarrow> addr_of ip s' r = addr_of ip s r"
    and f: "\<And>c. free_in s' c \<longleftrightarrow> c \<noteq> a \<and> free_in s c"
    and x: "\<And>c. fixed_blk (sb s) c \<Longrightarrow> view s' c = view s c"
    and v: "\<And>c. data_blk (sb s) c \<Longrightarrow> c \<noteq> a \<Longrightarrow> (\<forall>q. parent p = Some q \<longrightarrow> c \<noteq> addr_of ip s q) \<Longrightarrow> view s' c = view s c"
    and k: "map_ok ip s'" "mkeep ip s s'"
    using e by (auto simp: ensured_def)
  have "view s' c = view s c"
    if "data_blk (sb s) c" "\<not> free_in s c" "\<forall>x. good x \<longrightarrow> interior x \<longrightarrow> addr_of ip s x \<noteq> c" for c
  proof (rule v [OF that(1)])
    show "c \<noteq> a" using that(2) a(3) by auto
    show "\<forall>q. parent p = Some q \<longrightarrow> c \<noteq> addr_of ip s q" using that(3) good_parent [OF g] interior_parent by metis
  qed
  moreover have "addr_of ip s' r = addr_of ip s r" if "good r" "addr_of ip s r \<noteq> 0 \<or> r \<notin> {p}" for r
    using o that True by auto
  moreover have "free_in s (addr_of ip s' r)" if "good r" "addr_of ip s r = 0" "addr_of ip s' r \<noteq> 0" for r
    using o [OF that(1)] that a by (cases "r = p") auto
  moreover have "c \<noteq> 0 \<and> (\<exists>r. good r \<and> addr_of ip s' r = c)" if "free_in s c" "\<not> free_in s' c" for c
    using that f a(1,2) g by auto
  ultimately show ?thesis using k f x by (simp add: grown_def)
qed

lemma bgrown_trans:
  assumes g: "grown ip P s t" and h: "grown ip Q t u"
  shows "grown ip (P \<union> Q) s u"
  unfolding grown_def
proof (intro conjI allI impI)
  show "map_ok ip u" by (rule grownD(1) [OF h])
  show "mkeep ip s u" using grownD(2) [OF g] grownD(2) [OF h] by (rule mkeep_trans)
  show "addr_of ip u r = addr_of ip s r" if "good r" "addr_of ip s r \<noteq> 0 \<or> r \<notin> P \<union> Q" for r
    using that grownD(3,4) [OF g that(1)] grownD(3,4) [OF h that(1)] by auto
  show "free_in s (addr_of ip u r)" if "good r" "addr_of ip s r = 0" "addr_of ip u r \<noteq> 0" for r
    using that grownD(5) [OF g that(1,2)] grownD(3,5) [OF h that(1)] grownD(6) [OF g]
    by (cases "addr_of ip t r = 0") auto
  show "free_in s c" if "free_in u c" for c using grownD(6) [OF g grownD(6) [OF h that]] .
  show "view u c = view s c"
    if c: "data_blk (sb s) c" "\<not> free_in s c" "\<forall>p. good p \<longrightarrow> interior p \<longrightarrow> addr_of ip s p \<noteq> c" for c
  proof -
    have sb: "sb t = sb s" using mkeepD(1) [OF grownD(2) [OF g]] .
    have "view u c = view t c"
    proof (rule grownD(7) [OF h])
      show "data_blk (sb t) c" using c(1) sb by simp
      show "\<not> free_in t c" using grownD(6) [OF g] c(2) by blast
      show "addr_of ip t p \<noteq> c" if "good p" "interior p" for p
        using c(2,3) that grownD(3,5) [OF g that(1)] c(1) by (cases "addr_of ip s p = 0"; cases "addr_of ip t p = 0") (auto simp: data_blk_def)
    qed
    also have "\<dots> = view s c" by (rule grownD(7) [OF g c(1,2)]) (use c(3) in blast)
    finally show ?thesis .
  qed
  show "view u c = view s c" if "fixed_blk (sb s) c" for c
    using grownD(8) [OF g that] grownD(8) [OF h, of c] that mkeepD(1) [OF grownD(2) [OF g]] by simp
  show "c \<noteq> 0" "\<exists>p. good p \<and> addr_of ip u p = c" if c: "free_in s c" "\<not> free_in u c" for c
  proof -
    have "c \<noteq> 0 \<and> (\<exists>p. good p \<and> addr_of ip u p = c)"
    proof (cases "free_in t c")
      case True
      then show ?thesis using grownD(9) [OF h] c(2) by blast
    next
      case False
      then show ?thesis using grownD(9) [OF g c(1)] grownD(3) [OF h] by metis
    qed
    then show "c \<noteq> 0" "\<exists>p. good p \<and> addr_of ip u p = c" by blast+
  qed
qed

definition file_addr :: "nat \<Rightarrow> 'z fstate_scheme \<Rightarrow> nat \<Rightarrow> u32" where
  "file_addr ip s n = addr_of ip s (block_pos n)"

fun path :: "pos \<Rightarrow> pos set" where
  "path (Top i) = {Top i}"
| "path (Ind j) = {Top NDIRECT, Ind j}"
| "path (Dbl j) = {Top (NDIRECT + 1), Dbl j}"
| "path (Leaf j k) = {Top (NDIRECT + 1), Dbl j, Leaf j k}"

lemma block_pos_path: "block_pos m \<in> path (block_pos n) \<longleftrightarrow> m = n"
proof -
  have "block_pos m \<in> path (block_pos n) \<Longrightarrow> block_pos m = block_pos n"
    using not_interior_block_pos [of m] by (cases "block_pos n") auto
  moreover have "block_pos n \<in> path (block_pos n)" by (cases "block_pos n") auto
  ultimately show ?thesis using block_pos_inj by metis
qed

text \<open>What a call of \<^verbatim>\<open>bmap\<close> for the place \<open>p\<close> does.\<close>

definition mapped :: "nat \<Rightarrow> pos \<Rightarrow> 'z fstate_scheme \<Rightarrow> u32 \<Rightarrow> 'z fstate_scheme \<Rightarrow> bool" where
  "mapped ip p s a s' \<longleftrightarrow> grown ip (path p) s s' \<and> a = addr_of ip s' p \<and> a \<noteq> 0 \<and> nfree s \<le> nfree s' + 3
     \<and> (if addr_of ip s p \<noteq> 0 then view s' = view s else \<forall>i<BSIZE. view s' a i = 0)"

lemma addr_of_parent: "parent p = Some q \<Longrightarrow> addr_of ip s p \<noteq> 0 \<Longrightarrow> addr_of ip s q \<noteq> 0"
  using at_parent [of p q] by (auto simp: addr_of_def entry_def)

lemma bmap_runs:
  assumes m: "map_ok ip s" and n: "unat bn < MAXFILE" and fr: "3 \<le> nfree s" and r: "room (k + 8) (Suc (Suc l)) s"
  shows "runs (bmap ip bn s) (\<lambda>a s'. mapped ip (block_pos (unat bn)) s a s' \<and> room k (Suc (Suc l)) s')"
proof -
  let ?n = "unat bn"
  have dv: "i_dev (itable s ip) = ROOTDEV" using m by (simp add: map_ok_def)
  have f1: "0 < nfree s" using fr by simp
  consider "?n < 11" | "11 \<le> ?n" "?n < 267" | "267 \<le> ?n" by linarith
  then show ?thesis
  proof cases
    case 1
    have p: "block_pos ?n = Top ?n" using 1 by (simp add: block_pos_def)
    have b: "bmap ip bn s = addr_slot ip ?n s" using 1 by (simp add: bmap_def Let_def)
    have r': "room (Suc (Suc k)) (Suc (Suc l)) s" by (rule room_mono [OF r]) simp_all
    have lt: "?n < 13" and g: "good (Top ?n)" using 1 by simp_all
    show ?thesis unfolding p b
    proof (rule runs_mono [OF addr_slot_ensured [OF m lt r' f1]], goal_cases)
      case (1 a s')
      then have e: "ensured ip (Top ?n) s a s'" and rm: "room k (Suc (Suc l)) s'" by blast+
      have "nfree s \<le> nfree s' + 3" using ensured_nfree [OF e] by simp
      then show ?case using ensured_grown [OF m e g] e rm by (auto simp: mapped_def ensured_def)
    qed
  next
    case 2
    let ?p = "Ind (?n - 11)" and ?q = "Top 11"
    have lt: "?n - 11 < 256" using 2 by linarith
    have p: "block_pos ?n = ?p" using 2 by (simp add: block_pos_def)
    have b: "bmap ip bn s = andthen (addr_slot ip 11 s) (\<lambda>addr s. if addr = 0 then Inr (0, s) else addr_entry ROOTDEV addr (slot ?p) s)"
      using 2 lt by (simp add: bmap_def Let_def dv cong: if_cong)
    have g: "good ?q" "good ?p" and pp: "parent ?p = Some ?q" using lt by auto
    have r': "room (Suc (Suc (k + 3))) (Suc (Suc l)) s" by (rule room_mono [OF r]) simp_all
    show ?thesis unfolding p b
    proof (rule runs_andthen [OF addr_slot_ensured [OF m _ r' f1]], simp, goal_cases)
      case (1 a s1)
      then have e: "ensured ip ?q s a s1" and rm: "room (k + 3) (Suc (Suc l)) s1" by blast+
      have a: "a = addr_of ip s1 ?q" "a \<noteq> 0" "map_ok ip s1" using e unfolding ensured_def by blast+
      have f: "0 < nfree s1" using ensured_nfree [OF e] fr by simp
      have r1: "room (Suc (Suc (Suc k))) (Suc (Suc l)) s1" using rm by (simp add: eval_nat_numeral)
      have q: "addr_of ip s1 ?q \<noteq> 0" using a by simp
      show ?case unfolding if_not_P [OF a(2)] unfolding a(1)
      proof (rule runs_mono [OF addr_entry_ensured(1) [OF a(3) g(2) pp q f r1]], goal_cases)
        case (1 c s2)
        then have e2: "ensured ip ?p s1 c s2" and rm2: "room k (Suc (Suc l)) s2" by blast+
        have "{?q} \<union> {?p} = path ?p" by auto
        with bgrown_trans [OF ensured_grown [OF m e g(1)] ensured_grown [OF a(3) e2 g(2)]]
        have "grown ip (path ?p) s s2" by simp
        moreover have "nfree s \<le> nfree s2 + 3" using ensured_nfree [OF e] ensured_nfree [OF e2] by simp
        moreover have "if addr_of ip s ?p \<noteq> 0 then view s2 = view s else \<forall>i<BSIZE. view s2 c i = 0"
        proof -
          have same: "addr_of ip s1 ?p = addr_of ip s ?p" using e g(2) by (simp add: ensured_def)
          show ?thesis
            using e e2 same addr_of_parent [OF pp, of ip s] by (auto simp: ensured_def split: if_splits)
        qed
        moreover have "c = addr_of ip s2 ?p" "c \<noteq> 0" using e2 unfolding ensured_def by blast+
        ultimately show ?case unfolding mapped_def using rm2 by blast
      qed
    qed
  next
    case 3
    let ?d = "(?n - 267) div 256" and ?k = "(?n - 267) mod 256"
    let ?p = "Leaf ?d ?k" and ?q = "Dbl ?d" and ?t = "Top 12"
    have lt: "\<not> ?n - 11 < 256" "?n - 267 < 65536" using 3 n by auto
    have d: "?d < 256" using lt(2) by auto
    have p: "block_pos ?n = ?p" using 3 by (simp add: block_pos_def)
    have b: "bmap ip bn s = andthen (addr_slot ip 12 s) (\<lambda>addr s. if addr = 0 then Inr (0, s)
        else andthen (addr_entry ROOTDEV addr (slot ?q) s) (\<lambda>addr s. addr_entry2 ROOTDEV addr (slot ?p) s))"
      using 3 lt by (simp add: bmap_def Let_def dv cong: if_cong)
    have g: "good ?t" "good ?q" "good ?p" and pp: "parent ?q = Some ?t" "parent ?p = Some ?q" using d by auto
    have r': "room (Suc (Suc (k + 6))) (Suc (Suc l)) s" by (rule room_mono [OF r]) simp_all
    show ?thesis unfolding p b
    proof (rule runs_andthen [OF addr_slot_ensured [OF m _ r' f1]], simp, goal_cases)
      case (1 a s1)
      then have e: "ensured ip ?t s a s1" and rm: "room (k + 6) (Suc (Suc l)) s1" by blast+
      have a: "a = addr_of ip s1 ?t" "a \<noteq> 0" "map_ok ip s1" using e unfolding ensured_def by blast+
      have f: "0 < nfree s1" using ensured_nfree [OF e] fr by simp
      have r1: "room (Suc (Suc (Suc (k + 3)))) (Suc (Suc l)) s1" using rm by (simp add: eval_nat_numeral)
      have q: "addr_of ip s1 ?t \<noteq> 0" using a by simp
      show ?case unfolding if_not_P [OF a(2)] unfolding a(1)
      proof (rule runs_andthen [OF addr_entry_ensured(1) [OF a(3) g(2) pp(1) q f r1]], goal_cases)
        case (1 c s2)
        then have e2: "ensured ip ?q s1 c s2" and rm2: "room (k + 3) (Suc (Suc l)) s2" by blast+
        have c: "c = addr_of ip s2 ?q" "c \<noteq> 0" "map_ok ip s2" using e2 unfolding ensured_def by blast+
        have f2: "0 < nfree s2" using ensured_nfree [OF e] ensured_nfree [OF e2] fr by simp
        have r2: "room (Suc (Suc (Suc k))) (Suc (Suc l)) s2" using rm2 by (simp add: eval_nat_numeral)
        have q2: "addr_of ip s2 ?q \<noteq> 0" using c by simp
        show ?case unfolding c(1)
        proof (rule runs_mono [OF addr_entry_ensured(2) [OF c(3) g(3) pp(2) q2 f2 r2]], goal_cases)
          case (1 x s3)
          then have e3: "ensured ip ?p s2 x s3" and rm3: "room k (Suc (Suc l)) s3" by blast+
          have "({?t} \<union> {?q}) \<union> {?p} = path ?p" by auto
          with bgrown_trans [OF bgrown_trans [OF ensured_grown [OF m e g(1)] ensured_grown [OF a(3) e2 g(2)]]
              ensured_grown [OF c(3) e3 g(3)]]
          have "grown ip (path ?p) s s3" by simp
          moreover have "nfree s \<le> nfree s3 + 3"
            using ensured_nfree [OF e] ensured_nfree [OF e2] ensured_nfree [OF e3] by simp
          moreover have "if addr_of ip s ?p \<noteq> 0 then view s3 = view s else \<forall>i<BSIZE. view s3 x i = 0"
          proof -
            have s1: "addr_of ip s1 ?p = addr_of ip s ?p" "addr_of ip s1 ?q = addr_of ip s ?q"
              using e g(2,3) by (simp_all add: ensured_def)
            moreover have "addr_of ip s2 ?p = addr_of ip s1 ?p" using e2 g(3) by (simp add: ensured_def)
            ultimately have z: "addr_of ip s2 ?p = addr_of ip s ?p" by simp
            show ?thesis
            proof (cases "addr_of ip s ?p = 0")
              case True
              then show ?thesis using ensured_view(2) [OF e3] z by simp
            next
              case False
              then have "addr_of ip s ?q \<noteq> 0" "addr_of ip s ?t \<noteq> 0"
                using addr_of_parent [OF pp(2), of ip s] addr_of_parent [OF pp(1), of ip s] by (auto simp: entry_def)
              then show ?thesis
                using ensured_view(1) [OF e] ensured_view(1) [OF e2] ensured_view(1) [OF e3] z False s1(2) by simp
            qed
          qed
          moreover have "x = addr_of ip s3 ?p" "x \<noteq> 0" using e3 unfolding ensured_def by blast+
          ultimately show ?case unfolding mapped_def using rm3 by blast
        qed
      qed
    qed
  qed
qed

end
