(* ===== verification/Fsio.thy ===== *)
theory Fsio
  imports Fsmap Fsdir
begin

text \<open>
  The contents of a file: \<^verbatim>\<open>readi\<close> and \<^verbatim>\<open>writei\<close> refine reading and updating an array of bytes, whatever
  blocks hold it.
\<close>

section \<open>Operations that change nothing a client sees\<close>

definition quiet :: "'z fstate_scheme \<Rightarrow> 'z fstate_scheme \<Rightarrow> bool" where
  "quiet s s' \<longleftrightarrow> calm s' \<and> view s' = view s \<and> lockset s' = {} \<and> logged s' = logged s \<and> fkeep s s'"

lemma quiet_refl: "calm s \<Longrightarrow> lockset s = {} \<Longrightarrow> quiet s s"
  by (simp add: quiet_def)

lemma quiet_trans: "quiet s t \<Longrightarrow> quiet t u \<Longrightarrow> quiet s u"
  by (auto simp: quiet_def intro: fkeep_trans)

lemma quietD:
  assumes "quiet s s'"
  shows "calm s'" "view s' = view s" "lockset s' = {}" "fkeep s s'" "itable s' = itable s" "sb s' = sb s"
    "lockset s = {} \<Longrightarrow> room k l s \<Longrightarrow> room k l s'" "addr_of ip s' = addr_of ip s"
    "file_addr ip s' = file_addr ip s"
  using assms fkeepD(1,2,6) [of s s'] by (auto simp: quiet_def room_def addr_of_def file_addr_def)

text \<open>A block read and released, with something computed from it in between.\<close>

lemma read_block_runs:
  fixes s :: "'z fstate_scheme"
  assumes c: "calm s" and lk: "lockset s = {}" and r: "room k (Suc l) s"
    and g: "\<And>i s1. bdata i s1 = view s b \<Longrightarrow> fkeep s s1 \<Longrightarrow> F i s1 = andthen (brelse i s1) (\<lambda>_ s. G s)"
    and G: "\<And>s'. quiet s s' \<Longrightarrow> room k (Suc l) s' \<Longrightarrow> runs (G s') Q"
  shows "runs (andthen (bread ROOTDEV b s) F) Q"
proof -
  have nl: "b \<notin> lockset s" using lk by simp
  show ?thesis
  proof (rule runs_andthen [OF bread_c [OF c nl r]], goal_cases)
    case (1 i s1)
    then have p: "calm s1" "held s1 i b" "view s1 = view s" "lockset s1 = {b}" "logged s1 = logged s" "room k l s1" "fkeep s s1"
      using lk by auto
    have bd: "bdata i s1 = view s b" using view_held [OF calmD(1) [OF p(1)] p(2)] p(3) by simp
    have cl: "b \<in> logged s1 \<or> view s1 b = disk s1 b"
      using unpinned_clean [OF calmD(1) [OF c] nl] calmD(3) [OF c] fkeepD(3) [OF p(7)] p(3,5) by auto
    show ?case unfolding g [OF bd p(7)]
    proof (rule runs_andthen [OF brelse_c [OF p(1,2) cl p(6)]], goal_cases)
      case (1 u s2)
      then have q: "calm s2" "view s2 = view s1" "lockset s2 = lockset s1 - {b}" "logged s2 = logged s1"
        "room k (Suc l) s2" "fkeep s1 s2" by blast+
      have "quiet s s2" using q(1-4) p(3-5) fkeep_trans [OF p(7) q(6)] by (simp add: quiet_def)
      then show ?case using G q(5) by blast
    qed
  qed
qed

section \<open>Looking up a block that is there\<close>

lemma addr_slot_present: "i_addrs (itable s ip) i \<noteq> 0 \<Longrightarrow> addr_slot ip i s = Inr (i_addrs (itable s ip) i, s)"
  by (simp add: addr_slot_def)

lemma entry_present:
  assumes "calm s" and "lockset s = {}" and "room k (Suc l) s" and "ld32 (view s b) (4 * j) \<noteq> 0"
  shows "runs (addr_entry ROOTDEV b j s) (\<lambda>a s'. a = ld32 (view s b) (4 * j) \<and> quiet s s' \<and> room k (Suc l) s')"
    and "runs (addr_entry2 ROOTDEV b j s) (\<lambda>a s'. a = ld32 (view s b) (4 * j) \<and> quiet s s' \<and> room k (Suc l) s')"
  unfolding addr_entry_def addr_entry2_def
  by (rule read_block_runs [OF assms(1-3), where G = "\<lambda>s'. Inr (ld32 (view s b) (4 * j), s')"];
      use assms(4) in \<open>simp add: Let_def\<close>)+

lemma bmap_present:
  assumes c: "calm s" and lk: "lockset s = {}" and dv: "i_dev (itable s ip) = ROOTDEV" and r: "room k (Suc l) s"
    and n: "unat bn < MAXFILE" and a: "file_addr ip s (unat bn) \<noteq> 0"
  shows "runs (bmap ip bn s) (\<lambda>a s'. a = file_addr ip s (unat bn) \<and> quiet s s')"
proof -
  let ?n = "unat bn"
  note defs = file_addr_def addr_of_def block_pos_def entry_def
  consider "?n < 11" | "11 \<le> ?n" "?n < 267" | "267 \<le> ?n" by linarith
  then show ?thesis
  proof cases
    case 1
    then have "i_addrs (itable s ip) ?n \<noteq> 0" using a by (simp add: defs)
    then show ?thesis using 1 quiet_refl [OF c lk] by (simp add: bmap_def Let_def addr_slot_present defs)
  next
    case 2
    then have lt: "?n - 11 < 256" by linarith
    let ?b = "i_addrs (itable s ip) 11"
    have b: "?b \<noteq> 0" "ld32 (view s ?b) (4 * (?n - 11)) \<noteq> 0" using a 2 by (auto simp: defs split: if_splits)
    show ?thesis
      using 2 lt b runs_mono [OF entry_present(1) [OF c lk r b(2)]]
      by (simp add: bmap_def Let_def dv addr_slot_present defs)
  next
    case 3
    then have lt: "\<not> ?n - 11 < 256" "?n - 267 < 65536" using n by auto
    let ?b = "i_addrs (itable s ip) 12" and ?d = "(?n - 267) div 256" and ?k = "(?n - 267) mod 256"
    let ?c = "ld32 (view s ?b) (4 * ?d)"
    have b: "?b \<noteq> 0" "?c \<noteq> 0" "ld32 (view s ?c) (4 * ?k) \<noteq> 0" using a 3 by (auto simp: defs split: if_splits)
    have e: "bmap ip bn s = andthen (addr_entry ROOTDEV ?b ?d s) (\<lambda>addr s. addr_entry2 ROOTDEV addr ?k s)"
      using 3 lt b(1) by (simp add: bmap_def Let_def dv addr_slot_present)
    have fa: "file_addr ip s ?n = ld32 (view s ?c) (4 * ?k)" using 3 b by (simp add: defs)
    show ?thesis unfolding e fa
    proof (rule runs_andthen [OF entry_present(1) [OF c lk r b(2)]], goal_cases)
      case (1 x s1)
      then have x: "x = ?c" and q: "quiet s s1" and r1: "room k (Suc l) s1" by blast+
      have b3: "ld32 (view s1 ?c) (4 * ?k) \<noteq> 0" using b(3) quietD(2) [OF q] by simp
      show ?case unfolding x
        by (rule runs_mono [OF entry_present(2) [OF quietD(1) [OF q] quietD(3) [OF q] r1 b3]])
          (use quiet_trans [OF q] quietD(2) [OF q] in auto)
    qed
  qed
qed

section \<open>Reading\<close>

text \<open>The bytes of the file; a block that is not there reads as zeros.\<close>

definition file_bytes :: "nat \<Rightarrow> 'z fstate_scheme \<Rightarrow> bytes" where
  "file_bytes ip s i = (let a = file_addr ip s (i div BSIZE) in if a = 0 then 0 else view s a (i mod BSIZE))"

lemma blit_append:
  "(\<And>j. j < m \<Longrightarrow> G (p + j) = F (q + t + j)) \<Longrightarrow> blit (blit l d F q t) (d + t) G p m = blit l d F q (t + m)"
proof (rule ext)
  fix i
  assume g: "\<And>j. j < m \<Longrightarrow> G (p + j) = F (q + t + j)"
  show "blit (blit l d F q t) (d + t) G p m i = blit l d F q (t + m) i"
  proof (cases "d + t \<le> i \<and> i < d + t + m")
    case True
    then have "G (p + (i - (d + t))) = F (q + t + (i - (d + t)))" by (intro g) arith
    moreover have "q + t + (i - (d + t)) = q + (i - d)" using True by arith
    ultimately show ?thesis using True by (simp add: blit_def)
  qed (auto simp: blit_def)
qed

lemma io_chunk_unat:
  assumes "tot < n"
  shows "unat (io_chunk n tot off) = min (unat n - unat tot) (1024 - unat off mod 1024)"
    and "0 < unat (io_chunk n tot off)"
proof -
  have a: "unat (n - tot) = unat n - unat tot" using assms by (simp add: unat_sub word_less_nat_alt less_imp_le word_le_nat_alt)
  have "unat (off mod 1024) = unat off mod 1024" by (simp add: unat_mod)
  then have le: "off mod 1024 \<le> 1024" by (simp add: word_le_nat_alt)
  have b: "unat (1024 - off mod 1024) = 1024 - unat off mod 1024"
    using unat_sub [OF le] by (simp add: unat_mod)
  show *: "unat (io_chunk n tot off) = min (unat n - unat tot) (1024 - unat off mod 1024)"
    using a b by (simp add: io_chunk_def word_less_nat_alt)
  have "unat off mod 1024 < 1024" by simp
  then show "0 < unat (io_chunk n tot off)" using assms unfolding * word_less_nat_alt by simp
qed

lemma same_block:
  fixes x j :: nat
  assumes "j < 1024 - x mod 1024"
  shows "(x + j) div 1024 = x div 1024" "(x + j) mod 1024 = x mod 1024 + j"
proof -
  define q r where "q = x div 1024" and "r = x mod 1024"
  have x: "x = r + 1024 * q" by (simp add: q_def r_def)
  have lt: "r + j < 1024" using assms by (simp add: r_def)
  have e: "x + j = (r + j) + 1024 * q" by (simp add: x)
  show "(x + j) div 1024 = x div 1024" unfolding e using lt by (simp add: q_def)
  show "(x + j) mod 1024 = x mod 1024 + j" unfolding e using lt by (simp add: r_def)
qed

lemma file_bytes_chunk:
  assumes "j < m" and "m \<le> 1024 - x mod 1024" and "file_addr ip s (x div 1024) \<noteq> 0"
  shows "view s (file_addr ip s (x div 1024)) (x mod 1024 + j) = file_bytes ip s (x + j)"
  using same_block [of j x] assms by (simp add: file_bytes_def Let_def)

text \<open>An inode whose blocks can be looked up: no operation of this process holds a buffer.\<close>

definition fcalm :: "nat \<Rightarrow> 'z fstate_scheme \<Rightarrow> bool" where
  "fcalm ip s \<longleftrightarrow> calm s \<and> lockset s = {} \<and> i_dev (itable s ip) = ROOTDEV"

lemma fcalm_quiet: "fcalm ip s \<Longrightarrow> quiet s s' \<Longrightarrow> fcalm ip s'"
  using quietD [of s s'] by (simp add: fcalm_def)

lemma unat_ucast_u32: "unat (ucast m :: u64) = unat m" for m :: u32
proof -
  have "unat m < 2 ^ 32" using unsigned_less [of m, where 'a = nat] by simp
  then have "unat m < 2 ^ LENGTH(64)" by simp
  then show ?thesis by (simp add: unsigned_ucast_eq take_bit_nat_eq_self)
qed

lemma readi_step_runs:
  assumes f: "fcalm ip s" and r: "room 0 (Suc 0) s" and lt: "tot < n"
    and x: "unat x div 1024 < MAXFILE" "file_addr ip s (unat x div 1024) \<noteq> 0"
  defines "m \<equiv> io_chunk n tot x"
  shows "runs (readi_step ip n (tot, x, Local d, loc) s) (\<lambda>c s'. quiet s s' \<and> (\<exists>loc'.
      c = Next (tot + m, x + m, Local (d + unat m), loc')
      \<and> loc' = blit loc d (view s (file_addr ip s (unat x div 1024))) (unat x mod 1024) (unat m)))"
proof -
  have c: "calm s" "lockset s = {}" "i_dev (itable s ip) = ROOTDEV" using f by (simp_all add: fcalm_def)
  have bn: "unat (x div of_nat BSIZE) = unat x div 1024" "unat (x mod of_nat BSIZE) = unat x mod 1024"
    by (simp_all add: unat_div unat_mod)
  let ?a = "file_addr ip s (unat x div 1024)"
  have p: "unat (x div of_nat BSIZE) < MAXFILE" "file_addr ip s (unat (x div of_nat BSIZE)) \<noteq> 0" using x bn by simp_all
  have um: "unat (ucast m :: u64) = unat m" by (rule unat_ucast_u32)
  show ?thesis
    unfolding readi_step_def prod.case
  proof (simp only: lt not_True_eq_False if_False, rule runs_andthen [OF bmap_present [OF c r p]], goal_cases)
    case (1 a s1)
    then have a: "a = ?a" and q: "quiet s s1" using bn by simp_all
    have a0: "a \<noteq> 0" using a x(2) by simp
    have dv: "i_dev (itable s1 ip) = ROOTDEV" using quietD(5) [OF q] c(3) by simp
    show ?case unfolding if_not_P [OF a0] dv
    proof (rule read_block_runs [OF quietD(1) [OF q] quietD(3) [OF q] quietD(7) [OF q c(2) r],
          where G = "\<lambda>s'. Inr (Next (tot + m, x + m, Local (d + unat m), blit loc d (view s ?a) (unat x mod 1024) (unat m)), s')"])
      fix i s2
      assume bd: "bdata i s2 = view s1 a"
      have v: "view s1 a = view s ?a" using quietD(2) [OF q] a by simp
      show "(let m = io_chunk n tot x in
          andthen (either_copyout (Local d) loc (bdata i s2) (unat (x mod of_nat BSIZE)) (ucast m) s2) (\<lambda>(r, loc) s.
          andthen (brelse i s) (\<lambda>_ s. if r = - 1 then Inr (Ret (- 1, loc), s)
            else Inr (Next (tot + m, x + m, uptr_add (Local d) m, loc), s))))
        = andthen (brelse i s2) (\<lambda>_ z. Inr (Next (tot + m, x + m, Local (d + unat m),
            blit loc d (view s ?a) (unat x mod 1024) (unat m)), z))"
        unfolding Let_def bd v m_def [symmetric] bn by (simp add: um)
    next
      show "runs (Inr (Next (tot + m, x + m, Local (d + unat m), blit loc d (view s ?a) (unat x mod 1024) (unat m)), s'))
        (\<lambda>c s'. quiet s s' \<and> (\<exists>loc'. c = Next (tot + m, x + m, Local (d + unat m), loc')
          \<and> loc' = blit loc d (view s ?a) (unat x mod 1024) (unat m)))" if "quiet s1 s'" for s'
        using quiet_trans [OF q that] by simp
    qed
  qed
qed

lemma readi_loop_runs:
  assumes f: "fcalm ip s" and r: "room 0 (Suc 0) s" and ov: "unat off + unat n < 2 ^ 32"
    and x: "\<And>k. k < (unat off + unat n + 1023) div 1024 \<Longrightarrow> file_addr ip s k \<noteq> 0"
    and mx: "unat off + unat n \<le> MAXFILE * BSIZE"
  shows "runs (loop (unat n + 1) (readi_step ip n) (0, off, Local d, loc) s)
    (\<lambda>(r, loc') s'. r = n \<and> loc' = blit loc d (file_bytes ip s) (unat off) (unat n) \<and> quiet s s')"
proof -
  let ?I = "\<lambda>(tot, x, dst, l) s'. quiet s s' \<and> tot \<le> n \<and> x = off + tot \<and> dst = Local (d + unat tot)
    \<and> l = blit loc d (file_bytes ip s) (unat off) (unat tot)"
  have c: "calm s" "lockset s = {}" using f by (simp_all add: fcalm_def)
  show ?thesis
  proof (rule loop_runs [where I = ?I and f = "\<lambda>(tot, x, dst, l). unat n - unat tot"])
    show "?I (0, off, Local d, loc) s" using quiet_refl [OF c] by simp
    show "(case (0 :: u32, off, Local d, loc) of (tot, x, dst, l) \<Rightarrow> unat n - unat tot) < unat n + 1" by simp
    fix v s'
    assume "?I v s'"
    then obtain tot where v: "v = (tot, off + tot, Local (d + unat tot), blit loc d (file_bytes ip s) (unat off) (unat tot))"
      and q: "quiet s s'" and le: "tot \<le> n" by (cases v) auto
    show "runs (readi_step ip n v s') (\<lambda>c t. case c of
        Ret r \<Rightarrow> (case r of (r, loc') \<Rightarrow> \<lambda>s'. r = n \<and> loc' = blit loc d (file_bytes ip s) (unat off) (unat n) \<and> quiet s s') t
      | Next v' \<Rightarrow> ?I v' t \<and> (case v' of (tot, x, dst, l) \<Rightarrow> unat n - unat tot) < (case v of (tot, x, dst, l) \<Rightarrow> unat n - unat tot))"
    proof (cases "tot < n")
      case False
      then have "tot = n" using le by simp
      then show ?thesis using q by (simp add: v readi_step_def)
    next
      case True
      let ?m = "io_chunk n tot (off + tot)"
      have ut: "unat (off + tot) = unat off + unat tot" using ov le by (simp add: unat_word_ariths word_le_nat_alt)
      have tn: "unat tot < unat n" using True by (simp add: word_less_nat_alt)
      let ?x = "unat off + unat tot"
      have kx: "?x div 1024 < (unat off + unat n + 1023) div 1024" using tn by (simp add: less_mult_imp_div_less)
      have bx: "?x div 1024 < MAXFILE" using tn mx by auto
      have ax: "file_addr ip s (?x div 1024) \<noteq> 0" by (rule x [OF kx])
      note m = io_chunk_unat [OF True, of "off + tot", unfolded ut]
      have um: "unat (tot + ?m) = unat tot + unat ?m" "tot + ?m \<le> n"
        using m(1) tn unsigned_less [of n, where 'a = nat] by (auto simp: unat_word_ariths word_le_nat_alt)
      have bl: "blit (blit loc d (file_bytes ip s) (unat off) (unat tot)) (d + unat tot)
          (view s (file_addr ip s (?x div 1024))) (?x mod 1024) (unat ?m)
        = blit loc d (file_bytes ip s) (unat off) (unat tot + unat ?m)"
        by (rule blit_append, rule file_bytes_chunk [where m = "unat ?m", OF _ _ ax]) (use m(1) in auto)
      have fa: "file_addr ip s' = file_addr ip s" and vs: "view s' = view s" using quietD [OF q] by blast+
      show ?thesis unfolding v
      proof (rule runs_mono [OF readi_step_runs [OF fcalm_quiet [OF f q] quietD(7) [OF q c(2) r] True,
              where x = "off + tot" and d = "d + unat tot"
              and loc = "blit loc d (file_bytes ip s) (unat off) (unat tot)"]], goal_cases)
        case 1
        show ?case using bx ut by simp
      next
        case 2
        show ?case using ax ut fa by simp
      next
        case (3 c t)
        then have "quiet s t" using quiet_trans [OF q] by blast
        moreover have "c = Next (tot + ?m, off + (tot + ?m), Local (d + unat (tot + ?m)),
            blit loc d (file_bytes ip s) (unat off) (unat (tot + ?m)))"
          using 3 unfolding ut fa vs bl by (auto simp: um(1) add.assoc)
        ultimately show ?case using um m(2) tn by simp
      qed
    qed
  qed
qed

lemma readi_runs:
  assumes f: "fcalm ip s" and r: "room 0 (Suc 0) s" and off: "off \<le> i_size (itable s ip)"
    and ov: "unat off + unat n < 2 ^ 32" and mx: "unat (i_size (itable s ip)) \<le> MAXFILE * BSIZE"
    and x: "\<And>k. k < (unat (i_size (itable s ip)) + 1023) div 1024 \<Longrightarrow> file_addr ip s k \<noteq> 0"
  defines "c \<equiv> min (unat n) (unat (i_size (itable s ip)) - unat off)"
  shows "runs (readi ip (Local d) loc off n s)
    (\<lambda>(r, loc') s'. unat r = c \<and> loc' = blit loc d (file_bytes ip s) (unat off) c \<and> quiet s s')"
proof -
  let ?sz = "i_size (itable s ip)"
  let ?n = "if off + n > ?sz then ?sz - off else n"
  have on: "unat (off + n) = unat off + unat n" using ov by (simp add: unat_word_ariths)
  have un: "unat ?n = c"
    using off on unat_sub [of off ?sz] by (auto simp: c_def word_less_nat_alt word_le_nat_alt min_def)
  have le: "unat off + unat ?n \<le> unat ?sz" using off unfolding un by (simp add: c_def word_le_nat_alt)
  have ng: "\<not> (off > ?sz \<or> off + n < off)" using off on by (simp add: word_less_nat_alt word_le_nat_alt)
  have lp: "runs (loop (unat ?n + 1) (readi_step ip ?n) (0, off, Local d, loc) s)
    (\<lambda>(r, loc') s'. r = ?n \<and> loc' = blit loc d (file_bytes ip s) (unat off) (unat ?n) \<and> quiet s s')"
  proof (rule readi_loop_runs [OF f r])
    show "unat off + unat ?n < 2 ^ 32" using le unsigned_less [of ?sz, where 'a = nat] by simp
    show "unat off + unat ?n \<le> MAXFILE * BSIZE" using le mx by simp
    show "file_addr ip s k \<noteq> 0" if "k < (unat off + unat ?n + 1023) div 1024" for k
    proof (rule x)
      have "(unat off + unat ?n + 1023) div 1024 \<le> (unat ?sz + 1023) div 1024" using le by (intro div_le_mono) simp
      then show "k < (unat ?sz + 1023) div 1024" using that by simp
    qed
  qed
  show ?thesis unfolding readi_def if_not_P [OF ng] Let_def by (rule runs_mono [OF lp]) (auto simp: un)
qed

section \<open>Writing\<close>

text \<open>
  What writing to inode \<open>ip\<close> leaves alone: addresses that were there stay, new ones are blocks that were free, and no
  block in use by anything else changes.
\<close>

definition wgrown :: "nat \<Rightarrow> 'z fstate_scheme \<Rightarrow> 'z fstate_scheme \<Rightarrow> bool" where
  "wgrown ip s s' \<longleftrightarrow> map_ok ip s' \<and> sb s' = sb s \<and> log_area s' = log_area s
     \<and> (\<forall>r. good r \<longrightarrow> addr_of ip s r \<noteq> 0 \<longrightarrow> addr_of ip s' r = addr_of ip s r)
     \<and> (\<forall>r. good r \<longrightarrow> addr_of ip s r = 0 \<longrightarrow> addr_of ip s' r \<noteq> 0 \<longrightarrow> free_in s (addr_of ip s' r))
     \<and> (\<forall>c. free_in s' c \<longrightarrow> free_in s c)
     \<and> (\<forall>c. data_blk (sb s) c \<longrightarrow> \<not> free_in s c \<longrightarrow> (\<forall>p. good p \<longrightarrow> addr_of ip s p \<noteq> c) \<longrightarrow> view s' c = view s c)
     \<and> (\<forall>c. free_in s c \<longrightarrow> \<not> free_in s' c \<longrightarrow> c \<noteq> 0 \<and> (\<exists>p. good p \<and> addr_of ip s' p = c))"

lemma wgrownD:
  assumes "wgrown ip s s'"
  shows "map_ok ip s'" "sb s' = sb s" "log_area s' = log_area s"
    and "good r \<Longrightarrow> addr_of ip s r \<noteq> 0 \<Longrightarrow> addr_of ip s' r = addr_of ip s r"
    and "good r \<Longrightarrow> addr_of ip s r = 0 \<Longrightarrow> addr_of ip s' r \<noteq> 0 \<Longrightarrow> free_in s (addr_of ip s' r)"
    and "free_in s' c \<Longrightarrow> free_in s c"
    and "data_blk (sb s) c \<Longrightarrow> \<not> free_in s c \<Longrightarrow> (\<And>p. good p \<Longrightarrow> addr_of ip s p \<noteq> c) \<Longrightarrow> view s' c = view s c"
    and "free_in s c \<Longrightarrow> \<not> free_in s' c \<Longrightarrow> c \<noteq> 0 \<and> (\<exists>p. good p \<and> addr_of ip s' p = c)"
  using assms unfolding wgrown_def by blast+

lemma wgrown_refl: "map_ok ip s \<Longrightarrow> wgrown ip s s"
  by (simp add: wgrown_def)

lemma wgrown_trans:
  assumes g: "wgrown ip s t" and h: "wgrown ip t u"
  shows "wgrown ip s u"
  unfolding wgrown_def
proof (intro conjI allI impI)
  show "map_ok ip u" "sb u = sb s" "log_area u = log_area s" using wgrownD(1-3) [OF g] wgrownD(1-3) [OF h] by auto
  show "addr_of ip u r = addr_of ip s r" if "good r" "addr_of ip s r \<noteq> 0" for r
    using that wgrownD(4) [OF g that] wgrownD(4) [OF h that(1)] by simp
  show "free_in s (addr_of ip u r)" if "good r" "addr_of ip s r = 0" "addr_of ip u r \<noteq> 0" for r
    using that wgrownD(5) [OF g that(1,2)] wgrownD(4,5) [OF h that(1)] wgrownD(6) [OF g]
    by (cases "addr_of ip t r = 0") auto
  show "free_in s c" if "free_in u c" for c using wgrownD(6) [OF g wgrownD(6) [OF h that]] .
  show "view u c = view s c"
    if c: "data_blk (sb s) c" "\<not> free_in s c" "\<forall>p. good p \<longrightarrow> addr_of ip s p \<noteq> c" for c
  proof -
    have "view u c = view t c"
    proof (rule wgrownD(7) [OF h])
      show "data_blk (sb t) c" using c(1) wgrownD(2) [OF g] by simp
      show "\<not> free_in t c" using wgrownD(6) [OF g] c(2) by blast
      show "addr_of ip t p \<noteq> c" if "good p" for p
        using c(2,3) that wgrownD(4,5) [OF g that(1)] c(1)
        by (cases "addr_of ip s p = 0"; cases "addr_of ip t p = 0") (auto simp: data_blk_def)
    qed
    also have "\<dots> = view s c" by (rule wgrownD(7) [OF g c(1,2)]) (use c(3) in blast)
    finally show ?thesis .
  qed
  show "c \<noteq> 0" "\<exists>p. good p \<and> addr_of ip u p = c" if c: "free_in s c" "\<not> free_in u c" for c
  proof -
    have "c \<noteq> 0 \<and> (\<exists>p. good p \<and> addr_of ip u p = c)"
    proof (cases "free_in t c")
      case True
      then show ?thesis using wgrownD(8) [OF h] c(2) by blast
    next
      case False
      then show ?thesis using wgrownD(8) [OF g c(1)] wgrownD(4) [OF h] by metis
    qed
    then show "c \<noteq> 0" "\<exists>p. good p \<and> addr_of ip u p = c" by blast+
  qed
qed

text \<open>
  The loop of \<^verbatim>\<open>writei\<close> keeps, beyond this, the boot block, the super block, the log and the blocks of the inodes.
\<close>

definition wrote :: "nat \<Rightarrow> 'z fstate_scheme \<Rightarrow> 'z fstate_scheme \<Rightarrow> bool" where
  "wrote ip s s' \<longleftrightarrow> wgrown ip s s' \<and> (\<forall>c. fixed_blk (sb s) c \<longrightarrow> view s' c = view s c)"

lemma wroteD:
  assumes "wrote ip s s'"
  shows "wgrown ip s s'" and "fixed_blk (sb s) c \<Longrightarrow> view s' c = view s c"
  using assms by (simp_all add: wrote_def)

lemma wrote_refl: "map_ok ip s \<Longrightarrow> wrote ip s s"
  by (simp add: wrote_def wgrown_refl)

lemma wrote_trans: "wrote ip s t \<Longrightarrow> wrote ip t u \<Longrightarrow> wrote ip s u"
  using wgrown_trans [of ip s t u] wgrownD(2) [of ip s t] by (simp add: wrote_def)

lemma grown_wrote: "grown ip P s s' \<Longrightarrow> wrote ip s s'"
  unfolding grown_def wrote_def wgrown_def using mkeepD(1,3) by blast

text \<open>A new contents for a block at a place that holds no addresses changes no address.\<close>

lemma at_upd:
  assumes tr: "tree_ok sp v A" and p: "good p" "\<not> interior p" "at v A p = c" "c \<noteq> 0" and r: "good r"
  shows "at (v(c := x)) A r = at v A r"
proof -
  have "at v A q \<noteq> c" if "good q" "interior q" for q
    using tree_okD(1) [OF tr that(1) p(1)] p that(2) by auto
  then have e: "entry (v(c := x)) (at v A q) k = entry v (at v A q) k" if "good q" "interior q" for q k
    using that by (auto simp: entry_def)
  note t = e [of "Top 11"] e [of "Top 12"]
  show ?thesis
  proof (cases r)
    case (Leaf j k)
    then have "good (Dbl j)" using r by simp
    then show ?thesis using t e [of "Dbl j" k] Leaf by simp
  qed (use t in simp_all)
qed

lemma tree_ok_upd:
  assumes "fs_ok s" and tr: "tree_ok (sb s) v A" and p: "good p" "\<not> interior p" "at v A p = c" "c \<noteq> 0"
  shows "tree_ok (sb s) (v(c := x)) A"
proof -
  have "data_blk (sb s) c" using tree_okD(2) [OF tr p(1)] p by simp
  then show ?thesis
    unfolding tree_ok_def using tree_okD [OF tr] at_upd [OF tr p, of _ x] free_blk_upd [OF assms(1)] by simp
qed

lemma tree_ok_upd_other:
  assumes "\<And>c. data_blk sp c \<Longrightarrow> v' c = v c" and "\<And>c. free_blk sp v' c \<Longrightarrow> free_blk sp v c" and tr: "tree_ok sp v A"
  shows "tree_ok sp v' A" and "good r \<Longrightarrow> at v' A r = at v A r"
proof -
  have e: "entry v' (at v A q) k = entry v (at v A q) k" if "good q" for q k
    using assms(1) tree_okD(2) [OF tr that] by (auto simp: entry_def)
  note t = e [of "Top 11"] e [of "Top 12"]
  show at: "at v' A r = at v A r" if "good r" for r
  proof (cases r)
    case (Leaf j k)
    then have "good (Dbl j)" using that by simp
    then show ?thesis using t e [of "Dbl j" k] Leaf by simp
  qed (use t in simp_all)
  show "tree_ok sp v' A"
    unfolding tree_ok_def by (simp add: at) (metis tree_okD [OF tr] assms(2))
qed

lemma file_addr_block: "k < MAXFILE \<Longrightarrow> good (block_pos k) \<and> \<not> interior (block_pos k)"
  by (simp add: good_block_pos not_interior_block_pos)

text \<open>\<^verbatim>\<open>bmap\<close> leaves the contents of the file as they are, because a new block is zeroed.\<close>

lemma mapped_file_bytes:
  assumes m: "map_ok ip s" and k: "k < MAXFILE" and mp: "mapped ip (block_pos k) s a s'" and i: "i < MAXFILE * BSIZE"
  shows "file_bytes ip s' i = file_bytes ip s i"
proof -
  have g: "grown ip (path (block_pos k)) s s'" and a: "a = addr_of ip s' (block_pos k)" "a \<noteq> 0"
    and alt: "if addr_of ip s (block_pos k) \<noteq> 0 then view s' = view s else \<forall>i<BSIZE. view s' a i = 0"
    using mp unfolding mapped_def by blast+
  have tr: "tree_ok (sb s) (view s) (i_addrs (itable s ip))" using m by (simp add: map_ok_def)
  let ?j = "i div 1024"
  have j: "?j < MAXFILE" using i by auto
  note gj = good_block_pos [OF j]
  show ?thesis
  proof (cases "?j = k")
    case True
    show ?thesis
    proof (cases "addr_of ip s (block_pos k) = 0")
      case False
      then have "addr_of ip s' (block_pos k) = addr_of ip s (block_pos k)" using grownD(3) [OF g gj] True by simp
      then show ?thesis using alt False by (simp add: file_bytes_def file_addr_def True)
    next
      case z: True
      then have "view s' a (i mod 1024) = 0" using alt by simp
      then show ?thesis using z a by (simp add: file_bytes_def file_addr_def True Let_def)
    qed
  next
    case False
    then have np: "block_pos ?j \<notin> path (block_pos k)" using block_pos_path by simp
    have e: "addr_of ip s' (block_pos ?j) = addr_of ip s (block_pos ?j)" by (rule grownD(4) [OF g gj np])
    have "view s' (addr_of ip s (block_pos ?j)) = view s (addr_of ip s (block_pos ?j))" if "addr_of ip s (block_pos ?j) \<noteq> 0"
    proof (rule grownD(7) [OF g])
      show "data_blk (sb s) (addr_of ip s (block_pos ?j))" "\<not> free_in s (addr_of ip s (block_pos ?j))"
        using tree_okD(2,3) [OF tr gj] that by (simp_all add: addr_of_def)
      show "addr_of ip s p \<noteq> addr_of ip s (block_pos ?j)" if "good p" "interior p" for p
        using tree_okD(1) [OF tr that(1) gj] \<open>addr_of ip s (block_pos ?j) \<noteq> 0\<close> that(2) not_interior_block_pos [of ?j]
        by (auto simp: addr_of_def)
    qed
    then show ?thesis by (simp add: file_bytes_def file_addr_def e Let_def)
  qed
qed

lemma wrote_upd:
  assumes m: "map_ok ip s" and p: "good p" "\<not> interior p" "addr_of ip s p = c" "c \<noteq> 0"
    and s': "txn s'" "lockset s' = {}" "fkeep s s'" "view s' = (view s)(c := x)"
  shows "wrote ip s s'" "addr_of ip s' r = addr_of ip s r \<or> \<not> good r" "nfree s' = nfree s"
proof -
  have ok: "fs_ok s" and tr: "tree_ok (sb s) (view s) (i_addrs (itable s ip))" and dv: "i_dev (itable s ip) = ROOTDEV"
    using m by (simp_all add: map_ok_def)
  have p3: "at (view s) (i_addrs (itable s ip)) p = c" using p(3) by (simp add: addr_of_def)
  have dc: "data_blk (sb s) c" using tree_okD(2) [OF tr p(1)] p3 p(4) by simp
  have fr: "free_in s' b = free_in s b" for b using free_blk_upd [OF ok dc] s'(4) fkeepD(1) [OF s'(3)] by simp
  have ad: "addr_of ip s' r = addr_of ip s r" if "good r" for r
    using at_upd [OF tr p(1,2) p3 p(4) that] s'(4) fkeepD(2) [OF s'(3)] by (simp add: addr_of_def)
  have "fs_ok s'" by (rule fs_ok_keep [OF ok s'(3)]) (use ok fr fkeepD(1) [OF s'(3)] in \<open>simp add: fs_ok_def\<close>)
  then have "map_ok ip s'"
    using tree_ok_upd [OF ok tr p(1,2) p3 p(4), of x] s' fkeepD(1,2) [OF s'(3)] dv by (simp add: map_ok_def)
  moreover have "view s' b = view s b" if "\<And>p. good p \<Longrightarrow> addr_of ip s p \<noteq> b" for b
    using that [OF p(1)] p(3) s'(4) by simp
  ultimately have "wgrown ip s s'" unfolding wgrown_def using ad fr fkeepD(1,10) [OF s'(3)] by auto
  moreover have "view s' b = view s b" if "fixed_blk (sb s) b" for b
    using that dc s'(4) by (auto simp: fixed_blk_def)
  ultimately show "wrote ip s s'" by (simp add: wrote_def)
  show "addr_of ip s' r = addr_of ip s r \<or> \<not> good r" using ad by blast
  show "nfree s' = nfree s" by (simp add: nfree_def fr)
qed

text \<open>One iteration of \<^verbatim>\<open>writei\<close>'s loop, from a buffer in kernel memory.\<close>

lemma writei_step_runs:
  assumes m: "map_ok ip s" and r: "room (k + 9) (Suc (Suc l)) s" and fr: "3 \<le> nfree s" and lt: "tot < n"
    and x: "unat x div 1024 < MAXFILE"
  defines "m \<equiv> io_chunk n tot x"
  shows "runs (writei_step ip n loc (tot, x, Local d) s) (\<lambda>c s'. c = Next (tot + m, x + m, Local (d + unat m))
    \<and> wrote ip s s' \<and> mkeep ip s s' \<and> room k (Suc (Suc l)) s' \<and> nfree s \<le> nfree s' + 3
    \<and> file_addr ip s' (unat x div 1024) \<noteq> 0
    \<and> (\<forall>i<MAXFILE * BSIZE. file_bytes ip s' i =
        (if unat x \<le> i \<and> i < unat x + unat m then loc (d + (i - unat x)) else file_bytes ip s i)))"
proof -
  have bn: "unat (x div of_nat BSIZE) = unat x div 1024" "unat (x mod of_nat BSIZE) = unat x mod 1024"
    by (simp_all add: unat_div unat_mod)
  have um: "unat (ucast m :: u64) = unat m" by (rule unat_ucast_u32)
  let ?k = "unat x div 1024"
  let ?o = "unat x mod 1024"
  have p: "unat (x div of_nat BSIZE) < MAXFILE" using x bn by simp
  have r': "room (Suc k + 8) (Suc (Suc l)) s" using r by (simp add: eval_nat_numeral)
  have mle: "unat m \<le> 1024 - ?o" using io_chunk_unat(1) [OF lt, of x] by (simp add: m_def)
  show ?thesis
    unfolding writei_step_def prod.case
  proof (simp only: lt not_True_eq_False if_False, rule runs_andthen [OF bmap_runs [OF m p fr r']], goal_cases)
    case (1 a s1)
    then have mp: "mapped ip (block_pos ?k) s a s1" and rm: "room (Suc k) (Suc (Suc l)) s1" using bn by simp_all
    then have g: "grown ip (path (block_pos ?k)) s s1" and a: "a = addr_of ip s1 (block_pos ?k)" "a \<noteq> 0" and nf: "nfree s \<le> nfree s1 + 3"
      unfolding mapped_def by blast+
    have m1: "map_ok ip s1" by (rule grownD(1) [OF g])
    then have t1: "txn s1" "lockset s1 = {}" and dv: "i_dev (itable s1 ip) = ROOTDEV" and ok1: "fs_ok s1"
      and tr1: "tree_ok (sb s1) (view s1) (i_addrs (itable s1 ip))"
      by (simp_all add: map_ok_def)
    note gk = file_addr_block [OF x]
    have da: "data_blk (sb s1) a" using tree_okD(2) [OF tr1, of "block_pos ?k"] gk a by (simp add: addr_of_def)
    have nl: "a \<notin> lockset s1" using t1 by simp
    let ?d = "blit (view s1 a) ?o loc d (unat m)"
    show ?case unfolding if_not_P [OF a(2)] dv
    proof (rule runs_andthen [OF bread_f [OF t1(1) nl rm]], goal_cases)
      case (1 i s2)
      then have q: "txn s2" "held s2 i a" "view s2 = view s1" "lockset s2 = {a}" "logged s2 = logged s1"
        "room (Suc k) (Suc l) s2" "fkeep s1 s2" using t1(2) by auto
      have bd: "bdata i s2 = view s1 a" using view_held [OF txnD(1) [OF q(1)] q(2)] q(3) by simp
      have la: "a \<notin> log_area s2" using data_not_log [OF ok1 da] fkeepD(10) [OF q(7)] by simp
      have e: "(let m = io_chunk n tot x in
          andthen (either_copyin (bdata i s2) (unat (x mod of_nat BSIZE)) (Local d) loc (ucast m) s2) (\<lambda>(r, d') s.
          let s = modify_data i (\<lambda>_. d') s in
          if r = - 1 then andthen (brelse i s) (\<lambda>_ s. Inr (Ret (tot, x), s))
          else andthen (log_write i s) (\<lambda>_ s. andthen (brelse i s) (\<lambda>_ s.
            Inr (Next (tot + m, x + m, uptr_add (Local d) m), s)))))
        = andthen (andthen (log_write i (modify_data i (\<lambda>_. ?d) s2)) (\<lambda>_ s. brelse i s)) (\<lambda>_ s.
            Inr (Next (tot + m, x + m, Local (d + unat m)), s))"
        unfolding Let_def bd m_def [symmetric] bn by (simp add: um andthen_assoc)
      show ?case unfolding e
      proof (rule runs_andthen [OF log_release_runs [OF q(1,2) la q(6)]], goal_cases)
        case (1 u s3)
        then have w: "txn s3" "view s3 = (view s1)(a := ?d)" "lockset s3 = {}" "room k (Suc (Suc l)) s3" "fkeep s2 s3"
          using q(3,4) by auto
        have f3: "fkeep s1 s3" using q(7) w(5) by (rule fkeep_trans)
        note wu = wrote_upd [OF m1 gk [THEN conjunct1] gk [THEN conjunct2] a(1) [symmetric] a(2) w(1,3) f3 w(2)]
        have wg: "wrote ip s s3" using grown_wrote [OF g] wu(1) by (rule wrote_trans)
        have mk: "mkeep ip s s3" using grownD(2) [OF g] fkeep_mkeep [OF f3] by (rule mkeep_trans)
        have fb: "file_bytes ip s3 i =
            (if unat x \<le> i \<and> i < unat x + unat m then loc (d + (i - unat x)) else file_bytes ip s i)"
          if i: "i < MAXFILE * BSIZE" for i
        proof -
          have ik: "i div 1024 < MAXFILE" using i by auto
          have ai: "file_addr ip s3 (i div 1024) = file_addr ip s1 (i div 1024)"
            using wu(2) [of "block_pos (i div 1024)"] good_block_pos [OF ik] by (simp add: file_addr_def)
          have a': "file_addr ip s1 ?k = a" by (simp add: file_addr_def a(1))
          have s1: "file_bytes ip s1 i = file_bytes ip s i" by (rule mapped_file_bytes [OF m x mp i])
          show ?thesis
          proof (cases "i div 1024 = ?k")
            case True
            have "i = 1024 * ?k + i mod 1024" "unat x = 1024 * ?k + ?o" using True by (metis mult_div_mod_eq)+
            then have c: "(unat x \<le> i \<and> i < unat x + unat m) \<longleftrightarrow> (?o \<le> i mod 1024 \<and> i mod 1024 < ?o + unat m)"
              and c2: "i - unat x = i mod 1024 - ?o" by linarith+
            have "file_bytes ip s3 i = ?d (i mod 1024)"
              using a(2) by (simp add: file_bytes_def ai [unfolded True] w(2) True a' Let_def)
            moreover have "file_bytes ip s1 i = view s1 a (i mod 1024)"
              using a(2) by (simp add: file_bytes_def True a' Let_def)
            ultimately show ?thesis using s1 unfolding c c2 by (simp add: blit_def)
          next
            case False
            have "\<not> (unat x \<le> i \<and> i < unat x + unat m)"
            proof
              assume b: "unat x \<le> i \<and> i < unat x + unat m"
              then have "i - unat x < 1024 - unat x mod 1024" using mle by linarith
              then have "(unat x + (i - unat x)) div 1024 = ?k" by (rule same_block(1))
              then show False using False b by simp
            qed
            moreover have "file_addr ip s1 (i div 1024) \<noteq> a" if "file_addr ip s1 (i div 1024) \<noteq> 0"
              using tree_okD(1) [OF tr1 good_block_pos [OF ik], of "block_pos ?k"] gk a False that block_pos_inj
              by (auto simp: file_addr_def addr_of_def)
            ultimately show ?thesis
              using s1 by (auto simp: file_bytes_def ai w(2) Let_def)
          qed
        qed
        have "file_addr ip s3 ?k \<noteq> 0" using wu(2) [of "block_pos ?k"] gk a by (simp add: file_addr_def)
        then show ?case using wg mk w(4) nf wu(3) fb by simp
      qed
    qed
  qed
qed

text \<open>The blocks from byte \<open>x\<close> up to byte \<open>e\<close>.\<close>

definition nblk :: "nat \<Rightarrow> nat \<Rightarrow> nat" where
  "nblk x e = (if x < e then (e - 1) div BSIZE - x div BSIZE + 1 else 0)"

lemma nblk_step:
  assumes "x < e"
  shows "nblk (x + min (e - x) (1024 - x mod 1024)) e + 1 \<le> nblk x e"
proof (cases "e - x \<le> 1024 - x mod 1024")
  case True
  then show ?thesis using assms by (simp add: nblk_def min_def)
next
  case False
  let ?y = "x + (1024 - x mod 1024)"
  define q r where "q = x div 1024" and "r = x mod 1024"
  have "x = r + 1024 * q" "r < 1024" by (simp_all add: q_def r_def)
  then have y: "?y = 1024 * (x div 1024 + 1)" unfolding q_def [symmetric] r_def [symmetric] by arith
  then have d: "?y div 1024 = x div 1024 + 1" by (metis nonzero_mult_div_cancel_left zero_neq_numeral)
  have "?y \<le> e - 1" using False by linarith
  then have "?y div 1024 \<le> (e - 1) div 1024" by (rule div_le_mono)
  moreover have "Suc (a - Suc b) \<le> a - b" if "Suc b \<le> a" for a b :: nat using that by arith
  ultimately show ?thesis using False assms d by (simp add: nblk_def min_def)
qed

lemma writei_loop_runs:
  assumes m: "map_ok ip s" and r: "room (9 * nblk (unat off) (unat off + unat n) + k) (Suc (Suc l)) s"
    and fr: "3 * nblk (unat off) (unat off + unat n) \<le> nfree s" and mx: "unat off + unat n \<le> MAXFILE * BSIZE"
  shows "runs (loop (unat n + 1) (writei_step ip n loc) (0, off, Local d) s)
    (\<lambda>(tot, x) s'. tot = n \<and> x = off + n \<and> wrote ip s s' \<and> mkeep ip s s' \<and> room k (Suc (Suc l)) s'
      \<and> (\<forall>i. unat off \<le> i \<longrightarrow> i < unat off + unat n \<longrightarrow> file_addr ip s' (i div 1024) \<noteq> 0)
      \<and> (\<forall>i<MAXFILE * BSIZE. file_bytes ip s' i =
          (if unat off \<le> i \<and> i < unat off + unat n then loc (d + (i - unat off)) else file_bytes ip s i)))"
proof -
  let ?e = "unat off + unat n"
  let ?J = "\<lambda>tot s'. wrote ip s s' \<and> mkeep ip s s' \<and> room (9 * nblk (unat off + unat tot) ?e + k) (Suc (Suc l)) s'
    \<and> 3 * nblk (unat off + unat tot) ?e \<le> nfree s'
    \<and> (\<forall>i. unat off \<le> i \<longrightarrow> i < unat off + unat tot \<longrightarrow> file_addr ip s' (i div 1024) \<noteq> 0) \<and> (\<forall>i<MAXFILE * BSIZE. file_bytes ip s' i =
      (if unat off \<le> i \<and> i < unat off + unat tot then loc (d + (i - unat off)) else file_bytes ip s i))"
  let ?I = "\<lambda>(tot, x, src) s'. tot \<le> n \<and> x = off + tot \<and> src = Local (d + unat tot) \<and> ?J tot s'"
  have ov: "?e < 2 ^ 32" using mx by simp
  show ?thesis
  proof (rule loop_runs [where I = ?I and f = "\<lambda>(tot, x, src). unat n - unat tot"])
    show "?I (0, off, Local d) s" using wrote_refl [OF m] fkeep_mkeep [of s s] r fr by auto
    show "(case (0 :: u32, off, Local d) of (tot, x, src) \<Rightarrow> unat n - unat tot) < unat n + 1" by simp
    fix v s'
    assume "?I v s'"
    then obtain tot where v: "v = (tot, off + tot, Local (d + unat tot))" and le: "tot \<le> n" and J: "?J tot s'"
      by (cases v) auto
    have w: "wrote ip s s'" and mk: "mkeep ip s s'" and rm: "room (9 * nblk (unat off + unat tot) ?e + k) (Suc (Suc l)) s'"
      and nf: "3 * nblk (unat off + unat tot) ?e \<le> nfree s'"
      and pr: "\<And>i. unat off \<le> i \<Longrightarrow> i < unat off + unat tot \<Longrightarrow> file_addr ip s' (i div 1024) \<noteq> 0"
      and fb: "\<And>i. i < MAXFILE * BSIZE \<Longrightarrow> file_bytes ip s' i =
        (if unat off \<le> i \<and> i < unat off + unat tot then loc (d + (i - unat off)) else file_bytes ip s i)"
      using J by blast+
    show "runs (writei_step ip n loc v s') (\<lambda>c t. case c of
        Ret r \<Rightarrow> (case r of (tot, x) \<Rightarrow> \<lambda>s'. tot = n \<and> x = off + n \<and> wrote ip s s' \<and> mkeep ip s s'
          \<and> room k (Suc (Suc l)) s'
          \<and> (\<forall>i. unat off \<le> i \<longrightarrow> i < unat off + unat n \<longrightarrow> file_addr ip s' (i div 1024) \<noteq> 0)
          \<and> (\<forall>i<MAXFILE * BSIZE. file_bytes ip s' i =
            (if unat off \<le> i \<and> i < unat off + unat n then loc (d + (i - unat off)) else file_bytes ip s i))) t
      | Next v' \<Rightarrow> ?I v' t \<and> (case v' of (tot, x, src) \<Rightarrow> unat n - unat tot) < (case v of (tot, x, src) \<Rightarrow> unat n - unat tot))"
    proof (cases "tot < n")
      case False
      then have tn: "tot = n" using le by simp
      have "room k (Suc (Suc l)) s'" by (rule room_mono [OF rm]) simp_all
      then show ?thesis using J by (simp add: v writei_step_def tn)
    next
      case True
      let ?m = "io_chunk n tot (off + tot)"
      let ?x = "unat off + unat tot"
      have ut: "unat (off + tot) = ?x" using ov le by (simp add: unat_word_ariths word_le_nat_alt)
      have tn: "unat tot < unat n" using True by (simp add: word_less_nat_alt)
      have lt: "?x < ?e" using tn by simp
      note mm = io_chunk_unat [OF True, of "off + tot", unfolded ut]
      have um: "unat (tot + ?m) = unat tot + unat ?m" "tot + ?m \<le> n"
        using mm(1) tn unsigned_less [of n, where 'a = nat] by (auto simp: unat_word_ariths word_le_nat_alt)
      have xm: "unat off + (unat tot + unat ?m) = ?x + min (?e - ?x) (1024 - ?x mod 1024)" using mm(1) by simp
      have nb: "nblk (unat off + (unat tot + unat ?m)) ?e + 1 \<le> nblk ?x ?e" unfolding xm by (rule nblk_step [OF lt])
      have bx: "unat (off + tot) div 1024 < MAXFILE" using lt mx unfolding ut by auto
      have r9: "room ((9 * nblk (unat off + (unat tot + unat ?m)) ?e + k) + 9) (Suc (Suc l)) s'"
        by (rule room_mono [OF rm]) (use nb in simp_all)
      have f3: "3 \<le> nfree s'" using nb nf by linarith
      show ?thesis unfolding v
      proof (rule runs_mono [OF writei_step_runs [OF wgrownD(1) [OF wroteD(1) [OF w]] r9 f3 True bx, where d = "d + unat tot" and loc = loc]], goal_cases)
        case (1 c t)
        then have c: "c = Next (tot + ?m, off + tot + ?m, Local (d + unat tot + unat ?m))" and w2: "wrote ip s' t"
          and mk2: "mkeep ip s' t" and r2: "room (9 * nblk (unat off + (unat tot + unat ?m)) ?e + k) (Suc (Suc l)) t"
          and nf2: "nfree s' \<le> nfree t + 3" and pr2: "file_addr ip t (?x div 1024) \<noteq> 0"
          and fb2: "\<And>i. i < MAXFILE * BSIZE \<Longrightarrow> file_bytes ip t i = (if ?x \<le> i \<and> i < ?x + unat ?m
            then loc (d + unat tot + (i - ?x)) else file_bytes ip s' i)"
          unfolding ut by blast+
        have "file_bytes ip t i = (if unat off \<le> i \<and> i < unat off + (unat tot + unat ?m)
            then loc (d + (i - unat off)) else file_bytes ip s i)" if "i < MAXFILE * BSIZE" for i
        proof (cases "?x \<le> i \<and> i < ?x + unat ?m")
          case True
          then have "d + unat tot + (i - ?x) = d + (i - unat off)" by arith
          then show ?thesis using True fb2 [OF that] by simp
        next
          case False
          then show ?thesis using fb2 [OF that] fb [OF that] by auto
        qed
        moreover have "file_addr ip t (i div 1024) \<noteq> 0" if i: "unat off \<le> i" "i < unat off + (unat tot + unat ?m)" for i
        proof (cases "i < ?x")
          case True
          have "i div 1024 < MAXFILE" using True lt mx by auto
          then show ?thesis
            using wgrownD(4) [OF wroteD(1) [OF w2] good_block_pos] pr [OF i(1) True] by (simp add: file_addr_def)
        next
          case False
          have "i - ?x < 1024 - ?x mod 1024" using i(2) False unfolding xm by linarith
          then have "(?x + (i - ?x)) div 1024 = ?x div 1024" by (rule same_block(1))
          then show ?thesis using pr2 False by simp
        qed
        moreover have "3 * nblk (unat off + (unat tot + unat ?m)) ?e \<le> nfree t" using nb nf nf2 by linarith
        ultimately have "?J (tot + ?m) t" unfolding um(1)
          using wrote_trans [OF w w2] mkeep_trans [OF mk mk2] r2 by blast
        then show ?case using um mm(2) tn by (simp add: c add.assoc)
      qed
    qed
  qed
qed

text \<open>The block of the inode itself lies outside the log and before the free map.\<close>

definition iblock_ok :: "nat \<Rightarrow> 'z fstate_scheme \<Rightarrow> bool" where
  "iblock_ok ip s \<longleftrightarrow> IBLOCK (i_inum (itable s ip)) (sb s) < sb_bmapstart (sb s)
     \<and> IBLOCK (i_inum (itable s ip)) (sb s) \<notin> log_area s"

lemma iupdate_runs:
  assumes m: "map_ok ip s" and ib: "iblock_ok ip s" and r: "room (Suc k) (Suc l) s"
  defines "b \<equiv> IBLOCK (i_inum (itable s ip)) (sb s)"
  shows "runs (iupdate ip s) (\<lambda>_ s'. wgrown ip s s' \<and> fkeep s s' \<and> room k (Suc l) s'
    \<and> view s' = (view s)(b := store_dinode (view s b) (inode_off (i_inum (itable s ip))) (dinode_of (itable s ip)))
    \<and> (\<forall>i<MAXFILE * BSIZE. file_bytes ip s' i = file_bytes ip s i))"
proof -
  have t: "txn s" and lk: "lockset s = {}" and dv: "i_dev (itable s ip) = ROOTDEV" and ok: "fs_ok s"
    and tr: "tree_ok (sb s) (view s) (i_addrs (itable s ip))"
    using m by (simp_all add: map_ok_def)
  have nl: "b \<notin> lockset s" and la: "b \<notin> log_area s" using lk ib by (simp_all add: iblock_ok_def b_def)
  have bl: "unat b < unat (sb_bmapstart (sb s))" using ib by (simp add: iblock_ok_def b_def word_less_nat_alt)
  then have nd: "\<not> data_blk (sb s) b" by (simp add: data_blk_def)
  have nb: "BBLOCK c (sb s) \<noteq> b" if "c < sb_size (sb s)" for c using BBLOCK_unat [OF ok that] bl by auto
  let ?f = "\<lambda>d. store_dinode d (inode_off (i_inum (itable s ip))) (dinode_of (itable s ip))"
  have e: "iupdate ip s = andthen (bread ROOTDEV b s) (\<lambda>i z. andthen (log_write i (modify_data i
      (\<lambda>d. store_dinode d (inode_off (i_inum (itable z ip))) (dinode_of (itable z ip))) z)) (\<lambda>_ z. brelse i z))"
    by (simp add: iupdate_def dv b_def)
  show ?thesis unfolding e
  proof (rule runs_andthen [OF bread_f [OF t nl r]], goal_cases)
    case (1 i s1)
    then have q: "txn s1" "held s1 i b" "view s1 = view s" "lockset s1 = {b}" "room (Suc k) l s1" "fkeep s s1"
      using lk by auto
    have it: "itable s1 = itable s" by (rule fkeepD(2) [OF q(6)])
    have la1: "b \<notin> log_area s1" using la fkeepD(10) [OF q(6)] by simp
    show ?case unfolding it
    proof (rule runs_mono [OF log_release_runs [OF q(1,2) la1 q(5), of ?f]], goal_cases)
      case (1 u s2)
      then have w: "txn s2" "view s2 = (view s)(b := ?f (view s b))" "lockset s2 = {}" "room k (Suc l) s2" "fkeep s1 s2"
        using q(3,4) by auto
      have f2: "fkeep s s2" using q(6) w(5) by (rule fkeep_trans)
      have sb: "sb s2 = sb s" and it2: "itable s2 = itable s" using fkeepD(1,2) [OF f2] by blast+
      have fr: "free_in s2 c = free_in s c" for c using nb by (auto simp: free_blk_def w(2) sb)
      have v: "view s2 c = view s c" if "data_blk (sb s) c" for c using nd that w(2) by auto
      have fi: "free_blk (sb s) (view s2) c \<Longrightarrow> free_blk (sb s) (view s) c" for c using fr [of c] sb by simp
      note to = tree_ok_upd_other [OF v fi tr]
      have ad: "addr_of ip s2 p = addr_of ip s p" if "good p" for p using to(2) that it2 by (simp add: addr_of_def)
      have "fs_ok s2" by (rule fs_ok_keep [OF ok f2]) (use ok fi in \<open>simp add: fs_ok_def\<close>)
      then have "map_ok ip s2" using w(1,3) to(1) dv by (simp add: map_ok_def sb it2)
      then have "wgrown ip s s2" unfolding wgrown_def using ad fr v sb fkeepD(10) [OF f2] by auto
      moreover have "file_bytes ip s2 j = file_bytes ip s j" if j: "j < MAXFILE * BSIZE" for j
      proof -
        have "j div 1024 < MAXFILE" using j by auto
        then have g: "good (block_pos (j div 1024))" by (rule good_block_pos)
        have "view s2 (addr_of ip s (block_pos (j div 1024))) = view s (addr_of ip s (block_pos (j div 1024)))"
          if "addr_of ip s (block_pos (j div 1024)) \<noteq> 0"
          using v tree_okD(2) [OF tr g] that by (simp add: addr_of_def)
        then show ?thesis by (auto simp: file_bytes_def file_addr_def ad [OF g] Let_def)
      qed
      ultimately show ?case using w(2,4) f2 by blast
    qed
  qed
qed

end
