(* ===== verification/Fsfile.thy ===== *)
theory Fsfile
  imports Fsio
begin

text \<open>
  Writing a file: \<^verbatim>\<open>writei\<close> updates the array of bytes the file is, its size and its inode on disk.
\<close>

section \<open>Changes of the size\<close>

lemma set_size_frame [simp]:
  fixes s :: "'z fstate_scheme"
  shows "map_ok ip (set_inode ip (i_size_update f) s) = map_ok ip s"
    "addr_of ip (set_inode ip (i_size_update f) s) = addr_of ip s"
    "file_bytes ip (set_inode ip (i_size_update f) s) = file_bytes ip s"
    "view (set_inode ip (i_size_update f) s) = view s" "sb (set_inode ip (i_size_update f) s) = sb s"
    "log_area (set_inode ip (i_size_update f) s) = log_area s"
    "room k l (set_inode ip (i_size_update f) s) = room k l s"
  by (simp_all add: set_inode_def map_ok_def addr_of_def file_bytes_def file_addr_def Let_def fun_eq_iff cong: if_cong)

lemma set_size_itable: "itable (set_inode ip f s) = (itable s)(ip := f (itable s ip))"
  by (simp add: set_inode_def)

lemma wrote_set_size: "wrote ip s (set_inode ip (i_size_update f) s') = wrote ip s s'"
  by (simp add: wrote_def wgrown_def)

lemma iblock_ok_mkeep: "mkeep ip s s' \<Longrightarrow> iblock_ok ip s' = iblock_ok ip s"
proof -
  assume m: "mkeep ip s s'"
  have "i_inum (itable s' ip) = i_inum (itable s ip)" by (subst mkeep_itable [OF m]) simp
  then show ?thesis by (simp add: iblock_ok_def mkeepD(1,3) [OF m])
qed

lemma iblock_fixed: "fs_ok s \<Longrightarrow> iblock_ok ip s \<Longrightarrow> fixed_blk (sb s) (IBLOCK (i_inum (itable s ip)) (sb s))"
  using BBLOCK_unat [of s] by (auto simp: iblock_ok_def fixed_blk_def data_blk_def word_less_nat_alt)

section \<open>The whole write\<close>

lemma writei_runs:
  assumes m: "map_ok ip s" and ib: "iblock_ok ip s"
    and r: "room (9 * nblk (unat off) (unat off + unat n) + Suc k) (Suc (Suc l)) s"
    and fr: "3 * nblk (unat off) (unat off + unat n) \<le> nfree s"
    and off: "off \<le> i_size (itable s ip)" and mx: "unat off + unat n \<le> MAXFILE * BSIZE"
  defines "N \<equiv> \<lambda>s'. (itable s ip)\<lparr>i_size := max (i_size (itable s ip)) (off + n), i_addrs := i_addrs (itable s' ip)\<rparr>"
  shows "runs (writei ip (Local d) loc off n s) (\<lambda>r s'. r = n \<and> wgrown ip s s' \<and> room k (Suc l) s'
    \<and> itable s' = (itable s)(ip := N s')
    \<and> (\<forall>i. unat off \<le> i \<longrightarrow> i < unat off + unat n \<longrightarrow> file_addr ip s' (i div 1024) \<noteq> 0)
    \<and> view s' (IBLOCK (i_inum (itable s ip)) (sb s)) = store_dinode (view s (IBLOCK (i_inum (itable s ip)) (sb s)))
        (inode_off (i_inum (itable s ip))) (dinode_of (N s'))
    \<and> (\<forall>c. fixed_blk (sb s) c \<longrightarrow> c \<noteq> IBLOCK (i_inum (itable s ip)) (sb s) \<longrightarrow> view s' c = view s c)
    \<and> (\<forall>i<MAXFILE * BSIZE. file_bytes ip s' i =
        (if unat off \<le> i \<and> i < unat off + unat n then loc (d + (i - unat off)) else file_bytes ip s i)))"
proof -
  have ibf: "fixed_blk (sb s) (IBLOCK (i_inum (itable s ip)) (sb s))"
    by (rule iblock_fixed [OF _ ib]) (use m in \<open>simp add: map_ok_def\<close>)
  have on: "unat (off + n) = unat off + unat n" using mx by (simp add: unat_word_ariths)
  have nov: "\<not> off + n < off" by (simp add: word_less_nat_alt on)
  have e: "writei ip (Local d) loc off n s = andthen (loop (unat n + 1) (writei_step ip n loc) (0, off, Local d) s)
      (\<lambda>(tot, off) s. let s = (if off > i_size (itable s ip) then set_inode ip (i_size_update (\<lambda>_. off)) s else s) in
        andthen (iupdate ip s) (\<lambda>_ s. Inr (tot, s)))"
    unfolding writei_def using off nov mx on by (simp add: linorder_not_less [symmetric] del: loop.simps)
  have r': "room (9 * nblk (unat off) (unat off + unat n) + Suc k) (Suc (Suc l)) s" using r by simp
  show ?thesis unfolding e
  proof (rule runs_andthen [OF writei_loop_runs [OF m r' fr mx, where d = d and loc = loc]], goal_cases)
    case (1 v s1)
    obtain tot x where v: "v = (tot, x)" by (cases v)
    have tx: "tot = n" "x = off + n" and w: "wrote ip s s1" and mk: "mkeep ip s s1" and rm: "room (Suc k) (Suc (Suc l)) s1"
      and fb: "\<And>i. i < MAXFILE * BSIZE \<Longrightarrow> file_bytes ip s1 i =
        (if unat off \<le> i \<and> i < unat off + unat n then loc (d + (i - unat off)) else file_bytes ip s i)"
      and pr: "\<And>i. unat off \<le> i \<Longrightarrow> i < unat off + unat n \<Longrightarrow> file_addr ip s1 (i div 1024) \<noteq> 0"
      using 1 unfolding v by (simp_all del: One_nat_def)
    obtain A where it: "itable s1 = (itable s)(ip := (itable s ip)\<lparr>i_addrs := A\<rparr>)" using mkeep_itable [OF mk] by blast
    then have sz1: "i_size (itable s1 ip) = i_size (itable s ip)" and in1: "i_inum (itable s1 ip) = i_inum (itable s ip)"
      by simp_all
    define s2 where "s2 = (if off + n > i_size (itable s1 ip) then set_inode ip (i_size_update (\<lambda>_. off + n)) s1 else s1)"
    have s2: "map_ok ip s2" "room (Suc k) (Suc l) s2" "wrote ip s s2" "iblock_ok ip s2" "sb s2 = sb s"
      "i_inum (itable s2 ip) = i_inum (itable s ip)" "file_bytes ip s2 = file_bytes ip s1"
      and it2: "itable s2 = (itable s)(ip := (itable s ip)\<lparr>i_size := max (i_size (itable s ip)) (off + n),
        i_addrs := i_addrs (itable s2 ip)\<rparr>)"
      subgoal using wgrownD(1) [OF wroteD(1) [OF w]] by (simp add: s2_def)
      subgoal using room_mono [OF rm, of "Suc k" "Suc l"] by (simp add: s2_def)
      subgoal using w by (simp add: s2_def wrote_set_size)
      subgoal using ib iblock_ok_mkeep [OF mk] by (simp add: s2_def iblock_ok_def set_size_itable)
      subgoal using wgrownD(2) [OF wroteD(1) [OF w]] by (simp add: s2_def)
      subgoal using in1 by (simp add: s2_def set_size_itable)
      subgoal by (simp add: s2_def)
      subgoal using it sz1 by (auto simp: s2_def set_size_itable max_def fun_eq_iff)
      done
    have e2: "(case v of (tot, off) \<Rightarrow> \<lambda>s. let s = (if off > i_size (itable s ip) then set_inode ip (i_size_update (\<lambda>_. off)) s else s) in
        andthen (iupdate ip s) (\<lambda>_ s. Inr (tot, s))) s1 = andthen (iupdate ip s2) (\<lambda>_ s. Inr (n, s))"
      by (simp add: v tx s2_def Let_def)
    show ?case unfolding e2
    proof (rule runs_andthen [OF iupdate_runs [OF s2(1,4,2)]], goal_cases)
      case (1 u s3)
      then have q: "wgrown ip s2 s3" "fkeep s2 s3" "room k (Suc l) s3"
          "view s3 = (view s2)(IBLOCK (i_inum (itable s2 ip)) (sb s2) := store_dinode (view s2 (IBLOCK (i_inum (itable s2 ip)) (sb s2)))
             (inode_off (i_inum (itable s2 ip))) (dinode_of (itable s2 ip)))"
        and fb3: "\<And>i. i < MAXFILE * BSIZE \<Longrightarrow> file_bytes ip s3 i = file_bytes ip s2 i"
        by blast+
      have i3: "itable s3 = itable s2" by (rule fkeepD(2) [OF q(2)])
      have n2: "itable s2 ip = N s3" unfolding N_def i3 by (subst it2) simp
      have "itable s3 = (itable s)(ip := N s3)" unfolding i3 using it2 n2 by (metis fun_upd_same)
      moreover have "wgrown ip s s3" by (rule wgrown_trans [OF wroteD(1) [OF s2(3)] q(1)])
      moreover have "view s3 (IBLOCK (i_inum (itable s ip)) (sb s)) = store_dinode (view s (IBLOCK (i_inum (itable s ip)) (sb s)))
          (inode_off (i_inum (itable s ip))) (dinode_of (N s3))"
        unfolding n2 [symmetric] q(4) s2(5,6) using wroteD(2) [OF s2(3) ibf] by simp
      moreover have "view s3 c = view s c" if "fixed_blk (sb s) c" "c \<noteq> IBLOCK (i_inum (itable s ip)) (sb s)" for c
        unfolding q(4) s2(5,6) using wroteD(2) [OF s2(3) that(1)] that(2) by simp
      moreover have "file_addr ip s3 (i div 1024) \<noteq> 0" if "unat off \<le> i" "i < unat off + unat n" for i
      proof -
        have "addr_of ip s2 = addr_of ip s1" by (simp add: s2_def)
        moreover have "i div 1024 < MAXFILE" using that mx by auto
        ultimately show ?thesis
          using pr [OF that] wgrownD(4) [OF q(1) good_block_pos] by (simp add: file_addr_def)
      qed
      ultimately show ?case using q(3) fb3 fb s2(7) by auto
    qed
  qed
qed

section \<open>Freeing a file\<close>

end
