(* ===== verification/Fstrunc.thy ===== *)
theory Fstrunc
  imports Fsfile
begin

text \<open>
  Discarding a file's contents: what \<^verbatim>\<open>itrunc\<close> frees, and what it does not.
\<close>

section \<open>Freeing one block\<close>

definition map_blocks :: "superblock \<Rightarrow> u32 set" where
  "map_blocks sp = (\<lambda>c. BBLOCK c sp) ` {c. c < sb_size sp}"

text \<open>Space in the log for every block of the free map that is not in it yet.\<close>

definition troom :: "nat \<Rightarrow> nat \<Rightarrow> 'z fstate_scheme \<Rightarrow> bool" where
  "troom k l s \<longleftrightarrow> room (k + card (map_blocks (sb s) - logged s)) l s"

definition freed :: "nat \<Rightarrow> u32 set \<Rightarrow> 'z fstate_scheme \<Rightarrow> 'z fstate_scheme \<Rightarrow> bool" where
  "freed ip F s s' \<longleftrightarrow> txn s' \<and> fs_ok s' \<and> mkeep ip s s' \<and> (\<forall>c. c \<notin> map_blocks (sb s) \<longrightarrow> view s' c = view s c)
     \<and> (\<forall>c. free_in s' c \<longleftrightarrow> c \<in> F \<or> free_in s c) \<and> logged s \<subseteq> logged s'"

lemma freedD:
  assumes "freed ip F s s'"
  shows "txn s'" "fs_ok s'" "mkeep ip s s'" "c \<notin> map_blocks (sb s) \<Longrightarrow> view s' c = view s c"
    "free_in s' c \<longleftrightarrow> c \<in> F \<or> free_in s c" "logged s \<subseteq> logged s'" "sb s' = sb s"
  using assms mkeepD(1) unfolding freed_def by blast+

lemma freed_refl: "txn s \<Longrightarrow> fs_ok s \<Longrightarrow> freed ip {} s s"
  by (simp add: freed_def fkeep_mkeep)

lemma freed_trans: "freed ip F s t \<Longrightarrow> freed ip G t u \<Longrightarrow> freed ip (F \<union> G) s u"
  using mkeep_trans [of ip s t u] mkeepD(1) [of ip s t] unfolding freed_def by auto

lemma freed_same:
  assumes "freed ip F s t" and "txn u" "fkeep t u" "view u = view t" "logged u = logged t"
  shows "freed ip F s u"
proof -
  have "fs_ok u" by (rule fs_ok_same_view [OF freedD(2) [OF assms(1)] assms(3,4)])
  then show ?thesis
    using assms mkeep_trans [OF freedD(3) [OF assms(1)] fkeep_mkeep [OF assms(3)]] fkeepD(1) [OF assms(3)]
    by (simp add: freed_def)
qed

lemma data_not_map: "fs_ok s \<Longrightarrow> data_blk (sb s) c \<Longrightarrow> c \<notin> map_blocks (sb s)"
  using BBLOCK_not_data [of s] by (auto simp: map_blocks_def)

lemma troom_insert:
  assumes "troom (Suc k) l s" and "B \<in> map_blocks (sb s)" and "logged s' = insert B (logged s)"
    and "lockset s' = lockset s" "log_size s' = log_size s" "sb s' = sb s"
  shows "troom (Suc k) l s'"
proof (cases "B \<in> logged s")
  case True
  then show ?thesis using assms by (simp add: troom_def room_def insert_absorb)
next
  case False
  let ?M = "map_blocks (sb s)"
  have f: "finite (?M - logged s)" by simp
  have "B \<in> ?M - logged s" using False assms(2) by simp
  moreover have "?M - logged s - {B} = ?M - insert B (logged s)" by blast
  ultimately have c: "card (?M - logged s) = Suc (card (?M - insert B (logged s)))"
    using card_Suc_Diff1 [OF f, of B] by simp
  have d: "card (insert B (logged s)) = Suc (card (logged s))" using False by simp
  show ?thesis using assms(1) unfolding troom_def room_def assms(3-6) c d by simp
qed

lemma troom_same:
  "troom k l s \<Longrightarrow> logged s' = logged s \<Longrightarrow> sb s' = sb s \<Longrightarrow> (\<And>k. room k l s \<Longrightarrow> room k l' s') \<Longrightarrow> troom k l' s'"
  by (simp add: troom_def)

lemma bfree_frees:
  assumes t: "txn s" and ok: "fs_ok s" and r: "troom (Suc k) (Suc l) s" and a: "data_blk (sb s) a"
    and used: "\<not> free_in s a" and nl: "lockset s \<inter> map_blocks (sb s) = {}"
  shows "runs (bfree ROOTDEV a s) (\<lambda>_ s'. freed ip {a} s s' \<and> lockset s' = lockset s
    \<and> (\<forall>j c. held s j c \<longrightarrow> held s' j c) \<and> fkeep s s' \<and> troom (Suc k) (Suc l) s')"
proof -
  let ?B = "BBLOCK a (sb s)"
  have B: "?B \<in> map_blocks (sb s)" using a by (simp add: map_blocks_def data_blk_def)
  have r1: "room (Suc k) (Suc l) s" by (rule room_mono [OF r [unfolded troom_def]]) simp_all
  have nB: "?B \<notin> lockset s" using B nl by blast
  show ?thesis
  proof (rule runs_mono [OF bfree_runs [OF t ok r1 a used nB]], goal_cases)
    case (1 u s')
    then have q: "txn s'" "fs_ok s'" "fkeep s s'" "lockset s' = lockset s" "\<forall>j c. held s j c \<longrightarrow> held s' j c"
      "\<And>c. c \<noteq> ?B \<Longrightarrow> view s' c = view s c" "logged s' = insert ?B (logged s)"
      "\<And>b. free_blk (sb s) (view s') b \<longleftrightarrow> b = a \<or> free_in s b" by auto
    have "view s' c = view s c" if "c \<notin> map_blocks (sb s)" for c using q(6) [of c] that B by blast
    moreover have "free_in s' c \<longleftrightarrow> c \<in> {a} \<or> free_in s c" for c using q(8) [of c] fkeepD(1) [OF q(3)] by simp
    ultimately have "freed ip {a} s s'" unfolding freed_def using q(1,2,7) fkeep_mkeep [OF q(3)] by blast
    moreover have "troom (Suc k) (Suc l) s'" using r B q(7,4) fkeepD(6,1) [OF q(3)] by (rule troom_insert)
    ultimately show ?case using q(3,4,5) by blast
  qed
qed

section \<open>Freeing what a block of addresses points to\<close>

lemma itrunc_entries_frees:
  fixes v :: "u32 \<Rightarrow> bytes"
  assumes "txn s" "fs_ok s" "troom (Suc k) (Suc l) s" "held s bp e" "data_blk (sb s) e" "lockset s = {e}"
    and "distinct js" and "\<And>j. j \<in> set js \<Longrightarrow> ld32 (view s e) (4 * j) \<noteq> 0 \<Longrightarrow>
      data_blk (sb s) (ld32 (view s e) (4 * j)) \<and> \<not> free_in s (ld32 (view s e) (4 * j))"
    and "\<And>i j. i \<in> set js \<Longrightarrow> j \<in> set js \<Longrightarrow> ld32 (view s e) (4 * i) \<noteq> 0 \<Longrightarrow>
      ld32 (view s e) (4 * i) = ld32 (view s e) (4 * j) \<Longrightarrow> i = j"
  shows "runs (itrunc_entries js ROOTDEV bp s) (\<lambda>_ s'. freed ip ((\<lambda>j. ld32 (view s e) (4 * j)) ` set js - {0}) s s'
    \<and> lockset s' = {e} \<and> held s' bp e \<and> itable s' = itable s \<and> troom (Suc k) (Suc l) s')"
  using assms
proof (induction js arbitrary: s)
  case Nil
  then show ?case by (simp add: freed_refl)
next
  case (Cons j js)
  let ?a = "ld32 (view s e) (4 * j)"
  have bd: "bdata bp s = view s e" using view_held [OF txnD(1) [OF Cons.prems(1)] Cons.prems(4)] by simp
  show ?case
  proof (cases "?a = 0")
    case True
    then have F: "(\<lambda>j. ld32 (view s e) (4 * j)) ` set (j # js) - {0} = (\<lambda>j. ld32 (view s e) (4 * j)) ` set js - {0}" by auto
    have "runs (itrunc_entries js ROOTDEV bp s) (\<lambda>_ s'. freed ip ((\<lambda>j. ld32 (view s e) (4 * j)) ` set js - {0}) s s'
      \<and> lockset s' = {e} \<and> held s' bp e \<and> itable s' = itable s \<and> troom (Suc k) (Suc l) s')"
    proof (rule Cons.IH [OF Cons.prems(1-6)], goal_cases)
      case 1 show ?case using Cons.prems(7) by simp
    next
      case (2 i) then show ?case using Cons.prems(8) [of i] by simp
    next
      case (3 i i') then show ?case using Cons.prems(9) [of i i'] by simp
    qed
    then show ?thesis unfolding F by (simp add: bd True Let_def)
  next
    case False
    have a: "data_blk (sb s) ?a" "\<not> free_in s ?a" using Cons.prems(8) [of j] False by simp_all
    have em: "e \<notin> map_blocks (sb s)" by (rule data_not_map [OF Cons.prems(2,5)])
    then have nl: "lockset s \<inter> map_blocks (sb s) = {}" using Cons.prems(6) by simp
    have e1: "itrunc_entries (j # js) ROOTDEV bp s = andthen (bfree ROOTDEV ?a s) (\<lambda>_ s. itrunc_entries js ROOTDEV bp s)"
      using False by (simp add: bd Let_def)
    show ?thesis unfolding e1
    proof (rule runs_andthen [OF bfree_frees [OF Cons.prems(1,2,3) a nl, of ip]], goal_cases)
      case (1 u t)
      then have f: "freed ip {?a} s t" and q: "lockset t = {e}" "held t bp e" "troom (Suc k) (Suc l) t"
        and fk: "fkeep s t" using Cons.prems(4,6) by auto
      have v: "view t e = view s e" using freedD(4) [OF f em] .
      have sb: "sb t = sb s" by (rule freedD(7) [OF f])
      have ne: "ld32 (view s e) (4 * i) \<noteq> ?a" if "i \<in> set js" for i
      proof
        assume "ld32 (view s e) (4 * i) = ?a"
        then have "j = i" by (intro Cons.prems(9)) (use that False in simp_all)
        then show False using that Cons.prems(7) by simp
      qed
      have "runs (itrunc_entries js ROOTDEV bp t) (\<lambda>_ s'. freed ip ((\<lambda>j. ld32 (view t e) (4 * j)) ` set js - {0}) t s'
        \<and> lockset s' = {e} \<and> held s' bp e \<and> itable s' = itable t \<and> troom (Suc k) (Suc l) s')"
      proof (rule Cons.IH [OF freedD(1,2) [OF f] q(3,2) _ q(1)], goal_cases)
        case 1 show ?case using Cons.prems(5) sb by simp
      next
        case 2 show ?case using Cons.prems(7) by simp
      next
        case (3 i) then show ?case using Cons.prems(8) [of i] ne [of i] freedD(5) [OF f] by (simp add: v sb)
      next
        case (4 i i') then show ?case using Cons.prems(9) [of i i'] by (simp add: v)
      qed
      then show ?case
      proof (rule runs_mono, goal_cases)
        case (1 w s')
        then have g: "freed ip ((\<lambda>j. ld32 (view t e) (4 * j)) ` set js - {0}) t s'" by blast
        have "{?a} \<union> ((\<lambda>j. ld32 (view t e) (4 * j)) ` set js - {0}) = (\<lambda>j. ld32 (view s e) (4 * j)) ` set (j # js) - {0}"
          using False by (auto simp: v)
        then show ?case using freed_trans [OF f g] 1 fkeepD(2) [OF fk] by simp
      qed
    qed
  qed
qed

section \<open>The direct blocks\<close>

lemma set_addr_eq: "set_addr ip i a t = t\<lparr>itable := (itable t)(ip := (itable t ip)\<lparr>i_addrs := (i_addrs (itable t ip))(i := a)\<rparr>)\<rparr>"
  by (cases "itable t ip") (simp add: set_addr_def set_inode_def)

lemma mkeep_addr: "mkeep ip s t \<Longrightarrow> mkeep ip s (set_addr ip i a t)"
proof (rule mkeep_trans, assumption)
  show "mkeep ip t (set_addr ip i a t)" unfolding mkeep_def set_addr_eq
    by (rule exI [of _ "(i_addrs (itable t ip))(i := a)"]) simp
qed

lemma set_addr_frame [simp]:
  "view (set_addr ip i a s) = view s" "lockset (set_addr ip i a s) = lockset s" "logged (set_addr ip i a s) = logged s"
  "sb (set_addr ip i a s) = sb s" "txn (set_addr ip i a s) = txn s" "fs_ok (set_addr ip i a s) = fs_ok s"
  "room k l (set_addr ip i a s) = room k l s" "held (set_addr ip i a s) j b = held s j b"
  "i_addrs (itable (set_addr ip i a s) ip) = (i_addrs (itable s ip))(i := a)"
  by (simp_all add: set_addr_def set_inode_def)

lemma troom_addr [simp]: "troom k l (set_addr ip i a s) = troom k l s"
  by (simp add: troom_def)

lemma freed_addr: "freed ip F s t \<Longrightarrow> freed ip F s (set_addr ip i a t)"
  using mkeep_addr [of ip s t] by (simp add: freed_def)

lemma mkeep_dev: "mkeep ip s t \<Longrightarrow> i_dev (itable t ip) = i_dev (itable s ip) \<and> i_inum (itable t ip) = i_inum (itable s ip)"
  by (drule mkeep_itable) (erule ssubst, simp)

text \<open>Addresses of blocks in use, all different.\<close>

definition used_addrs :: "nat set \<Rightarrow> (nat \<Rightarrow> u32) \<Rightarrow> 'z fstate_scheme \<Rightarrow> bool" where
  "used_addrs I f s \<longleftrightarrow> (\<forall>i\<in>I. f i \<noteq> 0 \<longrightarrow> data_blk (sb s) (f i) \<and> \<not> free_in s (f i))
     \<and> (\<forall>i\<in>I. \<forall>j\<in>I. f i \<noteq> 0 \<longrightarrow> f i = f j \<longrightarrow> i = j)"

lemma used_addrsD:
  assumes "used_addrs I f s"
  shows "i \<in> I \<Longrightarrow> f i \<noteq> 0 \<Longrightarrow> data_blk (sb s) (f i)" "i \<in> I \<Longrightarrow> f i \<noteq> 0 \<Longrightarrow> \<not> free_in s (f i)"
    "i \<in> I \<Longrightarrow> j \<in> I \<Longrightarrow> f i \<noteq> 0 \<Longrightarrow> f i = f j \<Longrightarrow> i = j"
  using assms unfolding used_addrs_def by blast+

lemma used_addrs_step:
  assumes "used_addrs I f s" and "freed ip F s t" and "J \<subseteq> I" and "\<And>j. j \<in> J \<Longrightarrow> f j \<noteq> 0 \<Longrightarrow> f j \<notin> F"
    and "\<And>j. j \<in> J \<Longrightarrow> g j = f j"
  shows "used_addrs J g t"
  using assms freedD(5,7) [OF assms(2)] unfolding used_addrs_def by (simp add: subset_iff)

lemma itrunc_direct_frees:
  assumes "txn s" "fs_ok s" "troom (Suc k) (Suc l) s" "lockset s = {}" "i_dev (itable s ip) = ROOTDEV"
    and "distinct is" and "used_addrs (set is) (i_addrs (itable s ip)) s"
  shows "runs (itrunc_direct is ip s) (\<lambda>_ s'. freed ip (i_addrs (itable s ip) ` set is - {0}) s s' \<and> lockset s' = {}
    \<and> troom (Suc k) (Suc l) s' \<and> i_addrs (itable s' ip) = (\<lambda>i. if i \<in> set is then 0 else i_addrs (itable s ip) i))"
  using assms
proof (induction "is" arbitrary: s)
  case Nil
  then show ?case by (simp add: freed_refl)
next
  case (Cons i js)
  let ?A = "i_addrs (itable s ip)"
  show ?case
  proof (cases "?A i = 0")
    case True
    then have F: "?A ` set (i # js) - {0} = ?A ` set js - {0}" by auto
    have e: "(\<lambda>j. if j \<in> set (i # js) then 0 else ?A j) = (\<lambda>j. if j \<in> set js then 0 else ?A j)" using True by auto
    have u: "used_addrs (set js) ?A s" using Cons.prems(7) unfolding used_addrs_def by simp
    have "distinct js" using Cons.prems(6) by simp
    then show ?thesis unfolding F e using Cons.IH [OF Cons.prems(1-5) _ u] by (simp add: True)
  next
    case False
    have a: "data_blk (sb s) (?A i)" "\<not> free_in s (?A i)" using used_addrsD [OF Cons.prems(7), of i] False by simp_all
    have nl: "lockset s \<inter> map_blocks (sb s) = {}" using Cons.prems(4) by simp
    have e: "itrunc_direct (i # js) ip s = andthen (bfree ROOTDEV (?A i) s) (\<lambda>_ s. itrunc_direct js ip (set_addr ip i 0 s))"
      using False by (simp add: Cons.prems(5))
    show ?thesis unfolding e
    proof (rule runs_andthen [OF bfree_frees [OF Cons.prems(1,2,3) a nl, of ip]], goal_cases)
      case (1 u t)
      let ?t = "set_addr ip i 0 t"
      from 1 have f: "freed ip {?A i} s ?t" by (simp add: freed_addr)
      have "itable t = itable s" using 1 fkeepD(2) by blast
      then have A: "i_addrs (itable ?t ip) = ?A(i := 0)" by simp
      have mk: "mkeep ip s ?t" by (rule freedD(3) [OF f])
      have q: "lockset ?t = {}" "troom (Suc k) (Suc l) ?t" using 1 Cons.prems(4) by simp_all
      have dv: "i_dev (itable ?t ip) = ROOTDEV" using mkeep_dev [OF mk] Cons.prems(5) by simp
      have ne: "i \<notin> set js" "distinct js" using Cons.prems(6) by simp_all
      have u: "used_addrs (set js) (i_addrs (itable ?t ip)) ?t"
      proof (rule used_addrs_step [OF Cons.prems(7) f])
        fix j assume j: "j \<in> set js"
        show "?A j \<notin> {?A i}" if "?A j \<noteq> 0" using used_addrsD(3) [OF Cons.prems(7), of j i] that j ne(1) by auto
        show "i_addrs (itable ?t ip) j = ?A j" using j ne(1) A by auto
      qed auto
      have I: "{?A i} \<union> (i_addrs (itable ?t ip) ` set js - {0}) = ?A ` set (i # js) - {0}" using False ne(1) A by auto
      have J: "(\<lambda>j. if j \<in> set js then 0 else i_addrs (itable ?t ip) j) = (\<lambda>j. if j \<in> set (i # js) then 0 else ?A j)"
        using A by auto
      show ?case using Cons.IH [OF freedD(1,2) [OF f] q(2,1) dv ne(2) u] unfolding J
        by (rule runs_mono) (use freed_trans [OF f] I in fastforce)
    qed
  qed
qed

section \<open>The indirect block\<close>

text \<open>A block that is read, looked at and released: what happens in between may free blocks.\<close>

lemma read_block_frees:
  assumes t: "txn s" and ok: "fs_ok s" and r: "troom (Suc k) (Suc (Suc l)) s" and lk: "lockset s = {}" and e: "e \<notin> map_blocks (sb s)"
    and body: "\<And>i t. fkeep s t \<Longrightarrow> txn t \<Longrightarrow> fs_ok t \<Longrightarrow> troom (Suc k) (Suc l) t \<Longrightarrow> held t i e \<Longrightarrow> lockset t = {e} \<Longrightarrow> view t = view s \<Longrightarrow>
      runs (B i t) (\<lambda>_ u. freed ip F t u \<and> lockset u = {e} \<and> held u i e \<and> itable u = itable t \<and> troom (Suc k) (Suc l) u)"
  shows "runs (andthen (bread ROOTDEV e s) (\<lambda>i s. andthen (B i s) (\<lambda>_ s. brelse i s)))
    (\<lambda>_ s'. freed ip F s s' \<and> lockset s' = {} \<and> itable s' = itable s \<and> troom (Suc k) (Suc (Suc l)) s')"
proof -
  have nl: "e \<notin> lockset s" using lk by simp
  show ?thesis
  proof (rule runs_andthen [OF bread_f [OF t nl r [unfolded troom_def]]], goal_cases)
    case (1 i s1)
    then have q: "txn s1" "held s1 i e" "view s1 = view s" "lockset s1 = {e}" "logged s1 = logged s" "fkeep s s1"
      and rm: "room (Suc k + card (map_blocks (sb s) - logged s)) (Suc l) s1" using lk by auto
    have sb1: "sb s1 = sb s" by (rule fkeepD(1) [OF q(6)])
    have tr: "troom (Suc k) (Suc l) s1" unfolding troom_def using rm q(5) sb1 by simp
    have ok1: "fs_ok s1" by (rule fs_ok_same_view [OF ok q(6,3)])
    have f1: "freed ip {} s s1" by (rule freed_same [OF freed_refl [OF t ok] q(1,6,3,5)])
    show ?case
    proof (rule runs_andthen [OF body [OF q(6,1) ok1 tr q(2,4,3)]], goal_cases)
      case (1 u s2)
      then have f2: "freed ip F s1 s2" and p: "lockset s2 = {e}" "held s2 i e" "itable s2 = itable s1"
        and tr2: "troom (Suc k) (Suc l) s2" by blast+
      have f: "freed ip F s s2" using freed_trans [OF f1 f2] by simp
      have "e \<in> logged s \<or> view s e = disk s e" using unpinned_clean [OF txnD(1) [OF t] nl] txnD(3) [OF t] by auto
      then have cl: "e \<in> logged s2 \<or> view s2 e = disk s2 e"
        using freedD(4,6) [OF f] e mkeepD(2) [OF freedD(3) [OF f]] by auto
      show ?case
      proof (rule runs_mono [OF brelse_f [OF freedD(1) [OF f] p(2) cl tr2 [unfolded troom_def]]], goal_cases)
        case (1 w s3)
        then have w: "txn s3" "view s3 = view s2" "lockset s3 = {}" "logged s3 = logged s2" "fkeep s2 s3"
          and rm: "room (Suc k + card (map_blocks (sb s2) - logged s2)) (Suc (Suc l)) s3" using p(1) by auto
        have "troom (Suc k) (Suc (Suc l)) s3" unfolding troom_def using rm w(4) fkeepD(1) [OF w(5)] by simp
        moreover have "itable s3 = itable s" using fkeepD(2) [OF w(5)] p(3) fkeepD(2) [OF q(6)] by simp
        ultimately show ?case using freed_same [OF f w(1,5,2,4)] w(3) by blast
      qed
    qed
  qed
qed

lemma itrunc_indirect_frees:
  assumes t: "txn s" and ok: "fs_ok s" and r: "troom (Suc k) (Suc (Suc l)) s" and lk: "lockset s = {}"
    and dv: "i_dev (itable s ip) = ROOTDEV"
  defines "e \<equiv> i_addrs (itable s ip) NDIRECT" and "f \<equiv> \<lambda>j. entry (view s) (i_addrs (itable s ip) NDIRECT) j"
  assumes e: "e \<noteq> 0 \<Longrightarrow> data_blk (sb s) e \<and> \<not> free_in s e" and u: "used_addrs {..<NINDIRECT} f s"
    and ne: "\<And>j. j < NINDIRECT \<Longrightarrow> f j \<noteq> 0 \<Longrightarrow> f j \<noteq> e"
  shows "runs (itrunc_indirect ip s) (\<lambda>_ s'. freed ip (insert e (f ` {..<NINDIRECT}) - {0}) s s' \<and> lockset s' = {}
    \<and> troom (Suc k) (Suc (Suc l)) s' \<and> i_addrs (itable s' ip) = (i_addrs (itable s ip))(NDIRECT := 0))"
proof (cases "e = 0")
  case True
  then have "f j = 0" for j by (simp add: f_def e_def entry_def)
  then have F: "insert e (f ` {..<NINDIRECT}) - {0} = {}" using True by auto
  have "(i_addrs (itable s ip))(NDIRECT := 0) = i_addrs (itable s ip)" using True by (auto simp: e_def)
  then show ?thesis unfolding F using True t ok r lk by (simp add: itrunc_indirect_def e_def freed_refl)
next
  case False
  let ?F = "f ` set [0..<NINDIRECT] - {0}"
  have d: "data_blk (sb s) e" "\<not> free_in s e" using e False by blast+
  have em: "e \<notin> map_blocks (sb s)" by (rule data_not_map [OF ok d(1)])
  have fe: "f j = ld32 (view s e) (4 * j)" for j using False by (simp add: f_def e_def entry_def)
  have eq: "itrunc_indirect ip s = andthen (andthen (bread ROOTDEV e s) (\<lambda>bp s.
      andthen (itrunc_entries [0..<NINDIRECT] ROOTDEV bp s) (\<lambda>_ s. brelse bp s))) (\<lambda>_ s.
      andthen (bfree ROOTDEV (i_addrs (itable s ip) NDIRECT) s) (\<lambda>_ s. Inr ((), set_addr ip NDIRECT 0 s)))"
    using False by (simp add: itrunc_indirect_def e_def dv andthen_assoc Let_def del: upt_Suc)
  show ?thesis unfolding eq
  proof (rule runs_andthen [OF read_block_frees [OF t ok r lk em, where ip = ip and F = ?F]], goal_cases)
    case (1 i s1)
    have fe1: "f j = ld32 (view s1 e) (4 * j)" for j using 1(7) fe by simp
    have sb1: "sb s1 = sb s" by (rule fkeepD(1) [OF 1(1)])
    have d1: "data_blk (sb s1) e" using d(1) sb1 by simp
    have u1: "j < NINDIRECT \<Longrightarrow> f j \<noteq> 0 \<Longrightarrow> data_blk (sb s1) (f j) \<and> \<not> free_in s1 (f j)" for j
      using used_addrsD(1,2) [OF u, of j] 1(7) sb1 by simp
    show ?case
      by (rule runs_mono [OF itrunc_entries_frees [OF 1(2-5) d1 1(6), of "[0..<NINDIRECT]" ip, folded fe1]])
        (use u1 used_addrsD(3) [OF u] in \<open>auto simp del: upt_Suc\<close>)
  next
    case (2 u s1)
    then have f1: "freed ip ?F s s1" and q: "lockset s1 = {}" "itable s1 = itable s" "troom (Suc k) (Suc (Suc l)) s1" by blast+
    have a: "i_addrs (itable s1 ip) NDIRECT = e" using q(2) by (simp add: e_def)
    have "e \<notin> ?F" using ne by (force simp del: upt_Suc)
    then have d1: "data_blk (sb s1) e" "\<not> free_in s1 e" using d freedD(5,7) [OF f1] by simp_all
    have nl: "lockset s1 \<inter> map_blocks (sb s1) = {}" using q(1) by simp
    show ?case unfolding a
    proof (rule runs_andthen [OF bfree_frees [OF freedD(1,2) [OF f1] q(3) d1 nl, of ip]], goal_cases)
      case (1 w s2)
      then have f2: "freed ip {e} s1 s2" and p: "lockset s2 = {}" "troom (Suc k) (Suc (Suc l)) s2" "itable s2 = itable s"
        using q(1,2) fkeepD(2) [of s1 s2] by auto
      have "?F \<union> {e} = insert e (f ` {..<NINDIRECT}) - {0}" using False by (auto simp del: upt_Suc)
      then have "freed ip (insert e (f ` {..<NINDIRECT}) - {0}) s (set_addr ip NDIRECT 0 s2)"
        using freed_addr [OF freed_trans [OF f1 f2]] by metis
      then show ?case using p by simp
    qed
  qed
qed

section \<open>The doubly indirect block\<close>

lemma itrunc_entries2_none:
  "(\<And>j. j \<in> set js \<Longrightarrow> ld32 (bdata bp s) (4 * j) = 0) \<Longrightarrow> itrunc_entries2 js dev bp s = Inr ((), s)"
  by (induction js) (simp_all add: Let_def)

text \<open>
  The addresses read are those in block 0, since \<^verbatim>\<open>addrs[NDIRECT]\<close> has just been cleared; \<^verbatim>\<open>mkfs\<close> leaves that
  block zero.
\<close>

lemma itrunc_double_frees:
  assumes t: "txn s" and ok: "fs_ok s" and r: "troom (Suc k) (Suc (Suc l)) s" and lk: "lockset s = {}"
    and dv: "i_dev (itable s ip) = ROOTDEV" and z: "i_addrs (itable s ip) NDIRECT = 0"
    and boot: "0 \<notin> map_blocks (sb s)" "\<And>j. j < NINDIRECT \<Longrightarrow> ld32 (view s 0) (4 * j) = 0"
  defines "e \<equiv> i_addrs (itable s ip) (NDIRECT + 1)"
  assumes e: "e \<noteq> 0 \<Longrightarrow> data_blk (sb s) e \<and> \<not> free_in s e"
  shows "runs (itrunc_double ip s) (\<lambda>_ s'. freed ip ({e} - {0}) s s' \<and> lockset s' = {}
    \<and> troom (Suc k) (Suc (Suc l)) s' \<and> i_addrs (itable s' ip) = (i_addrs (itable s ip))(NDIRECT + 1 := 0))"
proof (cases "e = 0")
  case True
  have "(i_addrs (itable s ip))(NDIRECT + 1 := 0) = i_addrs (itable s ip)" using True by (auto simp: e_def)
  then show ?thesis using True t ok r lk by (simp add: itrunc_double_def e_def freed_refl)
next
  case False
  have d: "data_blk (sb s) e" "\<not> free_in s e" using e False by blast+
  have eq: "itrunc_double ip s = andthen (andthen (bread ROOTDEV 0 s) (\<lambda>bp s.
      andthen (itrunc_entries2 [0..<NINDIRECT] ROOTDEV bp s) (\<lambda>_ s. brelse bp s))) (\<lambda>_ s.
      andthen (bfree ROOTDEV (i_addrs (itable s ip) (NDIRECT + 1)) s) (\<lambda>_ s. Inr ((), set_addr ip (NDIRECT + 1) 0 s)))"
    using False z by (simp add: itrunc_double_def e_def dv andthen_assoc Let_def del: upt_Suc)
  show ?thesis unfolding eq
  proof (rule runs_andthen [OF read_block_frees [OF t ok r lk boot(1), where ip = ip and F = "{}"]], goal_cases)
    case (1 i s1)
    have "bdata i s1 = view s 0" using view_held [OF txnD(1) [OF 1(2)] 1(5)] 1(7) by simp
    then have "itrunc_entries2 [0..<NINDIRECT] ROOTDEV i s1 = Inr ((), s1)"
      by (intro itrunc_entries2_none) (use boot(2) in \<open>simp del: upt_Suc\<close>)
    then show ?case using 1 by (simp add: freed_refl del: upt_Suc)
  next
    case (2 u s1)
    then have f1: "freed ip {} s s1" and q: "lockset s1 = {}" "itable s1 = itable s" "troom (Suc k) (Suc (Suc l)) s1" by blast+
    have a: "i_addrs (itable s1 ip) (NDIRECT + 1) = e" using q(2) by (simp add: e_def)
    have d1: "data_blk (sb s1) e" "\<not> free_in s1 e" using d freedD(5,7) [OF f1] by auto
    have nl: "lockset s1 \<inter> map_blocks (sb s1) = {}" using q(1) by simp
    show ?case unfolding a
    proof (rule runs_andthen [OF bfree_frees [OF freedD(1,2) [OF f1] q(3) d1 nl, of ip]], goal_cases)
      case (1 w s2)
      then have f2: "freed ip {e} s1 s2" and p: "lockset s2 = {}" "troom (Suc k) (Suc (Suc l)) s2" "itable s2 = itable s"
        using q(1,2) fkeepD(2) [of s1 s2] by auto
      have "freed ip ({e} - {0}) s (set_addr ip (NDIRECT + 1) 0 s2)"
        using freed_addr [OF freed_trans [OF f1 f2]] False by simp
      then show ?case using p by simp
    qed
  qed
qed

section \<open>The whole file\<close>

fun shallow :: "pos \<Rightarrow> bool" where
  "shallow (Top i) = True"
| "shallow (Ind j) = True"
| "shallow (Dbl j) = False"
| "shallow (Leaf j k) = False"

lemma at_zero: "(\<And>i. i < NDIRECT + 2 \<Longrightarrow> A i = 0) \<Longrightarrow> good p \<Longrightarrow> at v A p = 0"
  by (cases p) (auto simp: entry_def)

lemma shallow_addrs:
  "c \<noteq> 0 \<and> (\<exists>p. good p \<and> shallow p \<and> at v A p = c) \<longleftrightarrow>
   c \<in> (A ` set [0..<NDIRECT] - {0}) \<union> (insert (A NDIRECT) ((\<lambda>j. entry v (A NDIRECT) j) ` {..<NINDIRECT}) - {0})
     \<union> ({A (NDIRECT + 1)} - {0})" (is "_ = ?R")
proof
  assume "c \<noteq> 0 \<and> (\<exists>p. good p \<and> shallow p \<and> at v A p = c)"
  then obtain p where p: "c \<noteq> 0" "good p" "shallow p" "at v A p = c" by blast
  show ?R
  proof (cases p)
    case (Top i)
    then have "i < 11 \<or> i = 11 \<or> i = 12" using p(2) by auto
    then show ?thesis using p Top by auto
  qed (use p in auto)
next
  assume ?R
  then have c: "c \<noteq> 0"
    and r: "(\<exists>x<11. c = A x) \<or> c = A 11 \<or> c = A 12 \<or> (\<exists>j<NINDIRECT. c = at v A (Ind j))"
    by auto
  have "\<exists>i<NDIRECT + 2. c = at v A (Top i)" if "i < 13" "c = A i" for i using that by auto
  then have "(\<exists>i<NDIRECT + 2. c = at v A (Top i)) \<or> (\<exists>j<NINDIRECT. c = at v A (Ind j))"
    using r by (elim disjE exE conjE) force+
  with c show "c \<noteq> 0 \<and> (\<exists>p. good p \<and> shallow p \<and> at v A p = c)" by (metis good.simps(1,2) shallow.simps(1,2))
qed

lemma itrunc_runs:
  assumes m: "map_ok ip s" and ib: "iblock_ok ip s" and r: "troom (Suc (Suc k)) (Suc (Suc l)) s"
    and bm: "sb_bmapstart (sb s) \<noteq> 0" and boot: "\<And>j. j < NINDIRECT \<Longrightarrow> ld32 (view s 0) (4 * j) = 0"
  shows "runs (itrunc ip s) (\<lambda>_ s'. map_ok ip s' \<and> i_size (itable s' ip) = 0
    \<and> (\<forall>i<NDIRECT + 2. i_addrs (itable s' ip) i = 0)
    \<and> (\<forall>c. free_in s' c \<longleftrightarrow> free_in s c \<or> c \<noteq> 0 \<and> (\<exists>p. good p \<and> shallow p \<and> addr_of ip s p = c)))"
proof -
  let ?A = "i_addrs (itable s ip)"
  have t: "txn s" and ok: "fs_ok s" and lk: "lockset s = {}" and dv: "i_dev (itable s ip) = ROOTDEV"
    and tr: "tree_ok (sb s) (view s) ?A" using m by (simp_all add: map_ok_def)
  let ?M = "map_blocks (sb s)"
  have m0: "0 \<notin> ?M"
  proof
    assume "0 \<in> ?M"
    then obtain c where "c < sb_size (sb s)" "BBLOCK c (sb s) = 0" by (auto simp: map_blocks_def)
    then have "unat (sb_bmapstart (sb s)) = 0" using BBLOCK_unat [OF ok, of c] by simp
    then show False using bm by (simp add: unat_eq_zero)
  qed
  have used: "data_blk (sb s) (at (view s) ?A p) \<and> \<not> free_in s (at (view s) ?A p)"
    if "good p" "at (view s) ?A p \<noteq> 0" for p using tree_okD(2,3) [OF tr that] by blast
  have inj: "p = q" if "good p" "good q" "at (view s) ?A p = at (view s) ?A q" "at (view s) ?A p \<noteq> 0" for p q
    by (rule tree_okD(1) [OF tr that])
  have us: "used_addrs I f s" if "\<And>j. j \<in> I \<Longrightarrow> good (P j) \<and> f j = at (view s) ?A (P j)" "inj P"
    for f :: "nat \<Rightarrow> u32" and P I
    unfolding used_addrs_def using that used inj injD [OF that(2)] by metis
  have r1: "troom (Suc (Suc k)) (Suc (Suc l)) s" by (rule r)
  let ?F1 = "?A ` set [0..<NDIRECT] - {0}"
  have u1: "used_addrs (set [0..<NDIRECT]) ?A s" by (rule us [where P = Top]) (auto simp: inj_def)
  show ?thesis unfolding itrunc_def
  proof (rule runs_andthen [OF itrunc_direct_frees [OF t ok r lk dv _ u1]], simp, goal_cases)
    case (1 u s1)
    then have f1: "freed ip ?F1 s s1" and q: "lockset s1 = {}" "troom (Suc (Suc k)) (Suc (Suc l)) s1"
      and A1: "i_addrs (itable s1 ip) = (\<lambda>i. if i \<in> set [0..<NDIRECT] then 0 else ?A i)" by blast+
    have dv1: "i_dev (itable s1 ip) = ROOTDEV" using mkeep_dev [OF freedD(3) [OF f1]] dv by simp
    have sb1: "sb s1 = sb s" by (rule freedD(7) [OF f1])
    have a11: "i_addrs (itable s1 ip) NDIRECT = ?A NDIRECT" using A1 by simp
    have en: "entry (view s1) (?A NDIRECT) j = at (view s) ?A (Ind j)" for j
    proof (cases "?A NDIRECT = 0")
      case False
      then have "?A NDIRECT \<notin> ?M" using used [of "Top NDIRECT"] data_not_map [OF ok] by simp
      then show ?thesis using freedD(4) [OF f1] by (simp add: entry_def)
    qed (simp add: entry_def)
    have nF1: "at (view s) ?A p \<notin> ?F1" if "good p" "\<And>i. i < NDIRECT \<Longrightarrow> p \<noteq> Top i" "at (view s) ?A p \<noteq> 0" for p
    proof
      assume "at (view s) ?A p \<in> ?F1"
      then obtain i where i: "i < NDIRECT" "at (view s) ?A p = at (view s) ?A (Top i)" by auto
      then have "p = Top i" by (intro inj that(1,3)) simp_all
      then show False using that(2) [OF i(1)] by simp
    qed
    have u2: "used_addrs {..<NINDIRECT} (\<lambda>j. entry (view s1) (i_addrs (itable s1 ip) NDIRECT) j) s1"
    proof (rule used_addrs_step [OF us [where P = Ind and I = "{..<NINDIRECT}" and f = "\<lambda>j. at (view s) ?A (Ind j)"] f1], goal_cases)
      case (4 j) then show ?case using nF1 [of "Ind j"] by simp
    next
      case (5 j) show ?case unfolding a11 by (rule en)
    qed (auto simp: inj_def)
    have e2: "data_blk (sb s1) (?A NDIRECT) \<and> \<not> free_in s1 (?A NDIRECT)" if "?A NDIRECT \<noteq> 0"
      using used [of "Top NDIRECT"] nF1 [of "Top NDIRECT"] that freedD(5) [OF f1] sb1 by simp
    have ne2: "at (view s) ?A (Ind j) \<noteq> ?A NDIRECT" if "j < NINDIRECT" "at (view s) ?A (Ind j) \<noteq> 0" for j
      using inj [of "Ind j" "Top NDIRECT"] that by auto
    let ?F2 = "insert (?A NDIRECT) ((\<lambda>j. at (view s) ?A (Ind j)) ` {..<NINDIRECT}) - {0}"
    show ?case
    proof (rule runs_andthen [OF itrunc_indirect_frees [OF freedD(1,2) [OF f1] q(2,1) dv1 _ u2, unfolded a11 en]], goal_cases)
      case 1 then show ?case by (rule e2)
    next
      case (2 j) then show ?case using ne2 [of j] by simp
    next
      case (3 u s2)
      then have f2: "freed ip ?F2 s1 s2" and p: "lockset s2 = {}" "troom (Suc (Suc k)) (Suc (Suc l)) s2"
        and A2: "i_addrs (itable s2 ip) = (i_addrs (itable s1 ip))(NDIRECT := 0)" by blast+
      have f12: "freed ip (?F1 \<union> ?F2) s s2" by (rule freed_trans [OF f1 f2])
      have dv2: "i_dev (itable s2 ip) = ROOTDEV" using mkeep_dev [OF freedD(3) [OF f12]] dv by simp
      have sb2: "sb s2 = sb s" by (rule freedD(7) [OF f12])
      have z2: "i_addrs (itable s2 ip) NDIRECT = 0" using A2 by simp
      have a12: "i_addrs (itable s2 ip) (NDIRECT + 1) = ?A (NDIRECT + 1)" using A1 A2 by simp
      have b2: "ld32 (view s2 0) (4 * j) = 0" if "j < NINDIRECT" for j using boot [OF that] freedD(4) [OF f12 m0] by simp
      have m2: "0 \<notin> map_blocks (sb s2)" using m0 sb2 by simp
      have e3: "data_blk (sb s2) (?A (NDIRECT + 1)) \<and> \<not> free_in s2 (?A (NDIRECT + 1))" if nz: "?A (NDIRECT + 1) \<noteq> 0"
      proof -
        let ?p = "Top (NDIRECT + 1)"
        have n: "?A (NDIRECT + 1) \<noteq> at (view s) ?A q" if "good q" "q \<noteq> ?p" for q
          using inj [of ?p q] that nz by auto
        have "?A (NDIRECT + 1) \<notin> ?F2" using n [of "Top NDIRECT"] n [of "Ind j" for j] by auto
        moreover have "?A (NDIRECT + 1) \<notin> ?F1" using nF1 [of ?p] nz by simp
        ultimately show ?thesis using used [of ?p] nz freedD(5) [OF f12] sb2 by simp
      qed
      show ?case
      proof (rule runs_andthen [OF itrunc_double_frees [OF freedD(1,2) [OF f12] p(2,1) dv2 z2 m2 b2, unfolded a12]], assumption, goal_cases)
        case 1 then show ?case by (rule e3)
      next
        case (2 u s3)
        then have f3: "freed ip ({?A (NDIRECT + 1)} - {0}) s2 s3" and w: "lockset s3 = {}" "troom (Suc (Suc k)) (Suc (Suc l)) s3"
          and A3: "i_addrs (itable s3 ip) = (i_addrs (itable s2 ip))(NDIRECT + 1 := 0)" by blast+
        have f: "freed ip ((?F1 \<union> ?F2) \<union> ({?A (NDIRECT + 1)} - {0})) s s3" by (rule freed_trans [OF f12 f3])
        have z: "i_addrs (itable s3 ip) i = 0" if "i < NDIRECT + 2" for i
        proof -
          have "i < 11 \<or> i = 11 \<or> i = 12" using that by auto
          then show ?thesis unfolding A3 A2 A1 by auto
        qed
        let ?s = "set_inode ip (i_size_update (\<lambda>_. 0)) s3"
        have zp: "at v (i_addrs (itable s3 ip)) q = 0" if "good q" for v q by (rule at_zero [OF z that])
        have "map_ok ip s3"
          using freedD(1,2) [OF f] w(1) mkeep_dev [OF freedD(3) [OF f]] dv zp by (simp add: map_ok_def tree_ok_def)
        then have m3: "map_ok ip ?s" by simp
        have ib3: "iblock_ok ip ?s"
          using ib iblock_ok_mkeep [OF freedD(3) [OF f]] by (simp add: iblock_ok_def set_size_itable)
        have rm: "room (Suc k) (Suc l) ?s" using room_mono [OF w(2) [unfolded troom_def], of "Suc k" "Suc l"] by simp
        have fr: "free_in s3 c \<longleftrightarrow> free_in s c \<or> c \<noteq> 0 \<and> (\<exists>p. good p \<and> shallow p \<and> addr_of ip s p = c)" for c
          using freedD(5) [OF f, of c] shallow_addrs [where c = c and A = ?A and v = "view s"] by (simp only: addr_of_def at.simps) blast
        show ?case
        proof (rule runs_mono [OF iupdate_runs [OF m3 ib3 rm]], goal_cases)
          case (1 x s4)
          then have g: "wgrown ip ?s s4" "fkeep ?s s4" and v: "view s4 = (view s3)(IBLOCK (i_inum (itable ?s ip)) (sb s3) :=
              store_dinode (view s3 (IBLOCK (i_inum (itable ?s ip)) (sb s3))) (inode_off (i_inum (itable ?s ip))) (dinode_of (itable ?s ip)))"
            unfolding set_size_frame by blast+
          have "BBLOCK c (sb s3) \<noteq> IBLOCK (i_inum (itable ?s ip)) (sb s3)" if "c < sb_size (sb s3)" for c
            using BBLOCK_unat [OF freedD(2) [OF f] that] ib3 by (auto simp: iblock_ok_def word_less_nat_alt)
          then have "free_in s4 c = free_in s3 c" for c
            using v wgrownD(2) [OF g(1)] by (auto simp: free_blk_def)
          moreover have "itable s4 ip = (itable s3 ip)\<lparr>i_size := 0\<rparr>"
            using fkeepD(2) [OF g(2)] by (cases "itable s3 ip") (simp add: set_size_itable)
          ultimately show ?case using wgrownD(1) [OF g(1)] fr z by simp
        qed
      qed
    qed
  qed
qed

end
