(* ===== verification/Fscontents.thy ===== *)
theory Fscontents
  imports Fstrunc
begin

text \<open>
  What the file system promises about the contents of files, on a small disk where every promise applies.
\<close>

section \<open>A small disk\<close>

text \<open>
  A hundred blocks: the log in 2 to 32, an inode block 33, the free map 40 with the blocks 64 to 71 free. Inode 1 has a
  direct block 50 and, through the doubly indirect block 51 and its first block 52, the data block 53.
\<close>

definition demo_disk :: "u32 \<Rightarrow> bytes" where
  "demo_disk b = (if b = 40 then (\<lambda>i. if i = 8 then 0 else - 1)
     else if b = 50 then (\<lambda>i. if i < 5 then 104 + of_nat i else 0)
     else if b = 51 then st32 (\<lambda>_. 0) 0 52 else if b = 52 then st32 (\<lambda>_. 0) 0 53 else (\<lambda>_. 0))"

definition demo_inode :: inode where
  "demo_inode = zero_inode\<lparr>i_dev := ROOTDEV, i_inum := 1, i_ref := 1, i_valid := True, i_type := T_FILE, i_nlink := 1,
     i_size := 5, i_addrs := (\<lambda>_. 0)(0 := 50, 12 := 51)\<rparr>"

definition demo_fs :: fstate where
  "demo_fs = binit (zero_f\<lparr>disk := demo_disk, log_outstanding := 1, sb := zero_sb\<lparr>sb_size := 100, sb_bmapstart := 40,
     sb_inodestart := 33, sb_logstart := 2, sb_nlog := 31\<rparr>, itable := (\<lambda>_. demo_inode)\<rparr>)"

lemma demo_cache: "bc_inv demo_fs" "lockset demo_fs = {}" "pinset demo_fs = {}" "view demo_fs = demo_disk"
  unfolding demo_fs_def by (subst binit_inv; simp add: zero_f_def zero_buf_def)+

lemma demo_fields [simp]:
  "sb demo_fs = zero_sb\<lparr>sb_size := 100, sb_bmapstart := 40, sb_inodestart := 33, sb_logstart := 2, sb_nlog := 31\<rparr>"
  "itable demo_fs = (\<lambda>_. demo_inode)" "log_outstanding demo_fs = 1" "lh_n demo_fs = 0" "log_size demo_fs = 31"
  "log_start demo_fs = 2" "log_dev demo_fs = ROOTDEV"
  by (simp_all add: demo_fs_def binit_def Let_def zero_f_def)

lemma demo_log [simp]: "logged demo_fs = {}" "log_area demo_fs = {b. 2 \<le> uint b \<and> uint b < 33}" "log_ok demo_fs"
  by (simp_all add: logged_def log_area_def log_ok_def demo_cache)

lemma demo_room: "k + l \<le> NBUF \<Longrightarrow> k < 31 \<Longrightarrow> room k l demo_fs"
  by (simp add: room_def demo_cache)

lemma demo_txn: "txn demo_fs"
  by (simp add: txn_def demo_cache)

lemma demo_BBLOCK: "c < 100 \<Longrightarrow> BBLOCK c (sb demo_fs) = 40"
proof -
  assume "c < 100"
  then have "unat (c div 8192) = 0" by (simp add: unat_div word_less_nat_alt)
  then have "c div 8192 = 0" by (simp add: unat_eq_zero)
  then show ?thesis by (simp add: BBLOCK_def)
qed

lemma demo_free: "free_in demo_fs c \<longleftrightarrow> 64 \<le> unat c \<and> unat c < 72"
proof (cases "c < 100")
  case True
  have b: "BBLOCK c (sb demo_fs) = 40" by (rule demo_BBLOCK [OF True])
  have c: "unat c < 100" using True by (simp add: word_less_nat_alt)
  have n: "push_bit k 1 \<noteq> (0 :: u8)" if "k < 8" for k
  proof -
    have "k = 0 \<or> k = 1 \<or> k = 2 \<or> k = 3 \<or> k = 4 \<or> k = 5 \<or> k = 6 \<or> k = 7" using that by arith
    then show ?thesis by auto
  qed
  have "free_in demo_fs c \<longleftrightarrow> unat c div 8 = 8"
    unfolding free_blk_def b using True c n [of "unat c mod 8"] by (simp add: demo_cache demo_disk_def bit_free_def)
  also have "\<dots> \<longleftrightarrow> 64 \<le> unat c \<and> unat c < 72" by auto
  finally show ?thesis .
next
  case False
  then show ?thesis by (simp add: free_blk_def word_less_nat_alt)
qed

lemma demo_data: "data_blk (sb demo_fs) c \<longleftrightarrow> 40 < unat c \<and> unat c < 100"
  by (auto simp: data_blk_def word_less_nat_alt)

lemma demo_fs_ok: "fs_ok demo_fs"
  unfolding fs_ok_def using demo_free demo_data by (auto simp: word_less_def)

lemma demo_entry51: "entry (view demo_fs) 51 j = (if j = 0 then 52 else 0)"
  and demo_entry52: "entry (view demo_fs) 52 j = (if j = 0 then 53 else 0)"
  by (simp_all add: entry_def demo_cache demo_disk_def ld32_st32 ld32_st32_other) (simp_all add: ld32_def)

lemma demo_at: "good p \<Longrightarrow> addr_of ip demo_fs p =
    (if p = Top 0 then 50 else if p = Top 12 then 51 else if p = Dbl 0 then 52 else if p = Leaf 0 0 then 53 else 0)"
  unfolding addr_of_def demo_fields demo_inode_def
  by (cases p) (simp_all add: demo_entry51 demo_entry52, simp_all add: entry_def)

lemma demo_map_ok: "map_ok ip demo_fs"
proof -
  have "tree_ok (sb demo_fs) (view demo_fs) (i_addrs (itable demo_fs ip))"
    unfolding tree_ok_def addr_of_def [symmetric] using demo_at [of _ ip]
    by (auto simp: demo_data demo_free simp del: demo_fields split: if_splits)
  then show ?thesis by (simp add: map_ok_def demo_txn demo_fs_ok demo_cache) (simp add: demo_inode_def)
qed

lemma demo_nfree: "3 \<le> nfree demo_fs"
proof -
  have "card {64, 65, 66 :: u32} \<le> nfree demo_fs"
    unfolding nfree_def by (rule card_mono) (simp_all add: demo_free del: demo_fields)
  then show ?thesis by simp
qed

section \<open>Allocating and freeing blocks\<close>

text \<open>C25: \<^verbatim>\<open>balloc\<close> ends; it returns 0 only when the disk is full, otherwise a block that was free, now marked used
  and filled with zeros, and nothing but that block and its bit changes.\<close>

theorem balloc_spec:
  assumes "txn s" and "fs_ok s" and "lockset s = {}" and "room 2 1 s"
  shows "runs (balloc ROOTDEV s) (\<lambda>a s'. txn s' \<and> fs_ok s' \<and>
    (if a = 0 then (\<forall>b. \<not> free_in s b) \<and> view s' = view s
     else free_in s a \<and> (\<forall>c. free_in s' c \<longleftrightarrow> c \<noteq> a \<and> free_in s c) \<and> (\<forall>i<BSIZE. view s' a i = 0)
       \<and> (\<forall>c. c \<noteq> a \<longrightarrow> c \<noteq> BBLOCK a (sb s) \<longrightarrow> view s' c = view s c)))"
proof -
  have r: "room (Suc (Suc 0)) (Suc 0) s" using assms(4) by (simp add: eval_nat_numeral)
  have lk: "data_blk (sb s) c \<and> \<not> free_in s c" if "c \<in> lockset s" for c using that assms(3) by simp
  show ?thesis
  proof (rule runs_mono [OF balloc_runs [OF assms(1,2) r lk]], assumption, goal_cases)
    case (1 a s')
    then have q: "txn s'" "fs_ok s'" "sb s' = sb s" using fkeepD(1) by auto
    show ?case
    proof (cases "a = 0")
      case False
      then have a: "free_in s a" "data_blk (sb s) a" "view s' = alloc_view (sb s) a (view s)" using 1 by simp_all
      have ne: "BBLOCK a (sb s) \<noteq> a"
        using BBLOCK_not_data [OF assms(2)] a(2) by (metis data_blk_def)
      show ?thesis using False q a(1,2) ne free_alloc_view [OF assms(2) a(1,2)] unfolding a(3)
        by (simp add: alloc_view_def memset_eq del: BSIZE_def)
    qed (use 1 q in simp)
  qed
qed

lemma balloc_spec_witness:
  "runs (balloc ROOTDEV demo_fs) (\<lambda>a s'. txn s' \<and> fs_ok s' \<and>
    (if a = 0 then (\<forall>b. \<not> free_in demo_fs b) \<and> view s' = view demo_fs
     else free_in demo_fs a \<and> (\<forall>c. free_in s' c \<longleftrightarrow> c \<noteq> a \<and> free_in demo_fs c) \<and> (\<forall>i<BSIZE. view s' a i = 0)
       \<and> (\<forall>c. c \<noteq> a \<longrightarrow> c \<noteq> BBLOCK a (sb demo_fs) \<longrightarrow> view s' c = view demo_fs c)))"
  by (rule balloc_spec [OF demo_txn demo_fs_ok demo_cache(2) demo_room]) (simp_all add: NBUF_eq)

text \<open>Freeing a block that was just allocated gives back the free map there was before.\<close>

theorem balloc_bfree_roundtrip:
  assumes t: "txn s" and ok: "fs_ok s" and lk: "lockset s = {}" and r: "room 3 1 s" and fr: "free_in s b"
  shows "runs (andthen (balloc ROOTDEV s) (\<lambda>a s. bfree ROOTDEV a s)) (\<lambda>_ s'. \<forall>c. free_in s' c \<longleftrightarrow> free_in s c)"
proof -
  have r': "room (Suc (Suc (Suc 0))) (Suc 0) s" using r by (simp add: eval_nat_numeral)
  have lk': "data_blk (sb s) c \<and> \<not> free_in s c" if "c \<in> lockset s" for c using that lk by simp
  show ?thesis
  proof (rule runs_andthen [OF balloc_runs [OF t ok r' lk']], assumption, goal_cases)
    case (1 a s')
    then have q: "txn s'" "fs_ok s'" "fkeep s s'" "lockset s' = {}" "room (Suc 0) (Suc 0) s'"
      and a: "free_in s a" "data_blk (sb s) a" "view s' = alloc_view (sb s) a (view s)" using fr lk by (auto split: if_splits)
    have sb: "sb s' = sb s" by (rule fkeepD(1) [OF q(3)])
    have f: "free_in s' c \<longleftrightarrow> c \<noteq> a \<and> free_in s c" for c using free_alloc_view [OF ok a(1,2)] a(3) sb by simp
    have d: "data_blk (sb s') a" "\<not> free_in s' a" using a(2) f [of a] sb by simp_all
    have nl: "BBLOCK a (sb s') \<notin> lockset s'" using q(4) by simp
    show ?case
    proof (rule runs_mono [OF bfree_runs [OF q(1,2,5) d nl]], goal_cases)
      case (1 u s'')
      then have "fkeep s' s''" and b: "free_blk (sb s') (view s'') c \<longleftrightarrow> c = a \<or> free_in s' c" for c by blast+
      then have "sb s'' = sb s'" by (intro fkeepD(1))
      then show ?case using b f a(1) by auto
    qed
  qed
qed

lemma balloc_bfree_roundtrip_witness:
  "runs (andthen (balloc ROOTDEV demo_fs) (\<lambda>a s. bfree ROOTDEV a s)) (\<lambda>_ s'. \<forall>c. free_in s' c \<longleftrightarrow> free_in demo_fs c)"
  by (rule balloc_bfree_roundtrip [OF demo_txn demo_fs_ok demo_cache(2) demo_room, of 64])
    (simp_all add: demo_free NBUF_eq del: demo_fields)

section \<open>The blocks of a file\<close>

text \<open>C9: For every block number below \<^verbatim>\<open>MAXFILE\<close>, direct, indirect or doubly indirect, \<^verbatim>\<open>bmap\<close> returns the block
  of the file: the one that was there, with the disk unchanged, or a fresh block of zeros. The other blocks of the file
  keep their addresses, and no two blocks of the file share one.\<close>

theorem bmap_refines:
  assumes "map_ok ip s" and "unat bn < MAXFILE" and "3 \<le> nfree s" and "room 8 2 s"
  shows "runs (bmap ip bn s) (\<lambda>a s'. map_ok ip s' \<and> a \<noteq> 0 \<and> file_addr ip s' (unat bn) = a
    \<and> (if file_addr ip s (unat bn) \<noteq> 0 then a = file_addr ip s (unat bn) \<and> view s' = view s
       else free_in s a \<and> (\<forall>i<BSIZE. view s' a i = 0))
    \<and> (\<forall>n<MAXFILE. n \<noteq> unat bn \<longrightarrow> file_addr ip s' n = file_addr ip s n \<and> file_addr ip s' n \<noteq> a))"
proof -
  have r: "room (0 + 8) (Suc (Suc 0)) s" using assms(4) by (simp add: eval_nat_numeral)
  have g: "good (block_pos n)" if "n < MAXFILE" for n by (rule good_block_pos [OF that])
  show ?thesis
  proof (rule runs_mono [OF bmap_runs [OF assms(1,2,3) r]], goal_cases)
    case (1 a s')
    let ?p = "block_pos (unat bn)"
    have gr: "grown ip (path ?p) s s'" and a: "a = addr_of ip s' ?p" "a \<noteq> 0"
      and z: "if addr_of ip s ?p \<noteq> 0 then view s' = view s else \<forall>i<BSIZE. view s' a i = 0"
      using 1 unfolding mapped_def by blast+
    have m: "map_ok ip s'" by (rule grownD(1) [OF gr])
    have o1: "file_addr ip s' n = file_addr ip s n" if "n < MAXFILE" "n \<noteq> unat bn" for n
      unfolding file_addr_def by (rule grownD(4) [OF gr g [OF that(1)]]) (use that(2) block_pos_path in metis)
    have o2: "file_addr ip s' n \<noteq> a" if "n < MAXFILE" "n \<noteq> unat bn" for n
      using tree_okD(1) [of "sb s'" "view s'" "i_addrs (itable s' ip)" "block_pos n" ?p] m g [OF that(1)] g [OF assms(2)]
        that(2) a block_pos_inj [of n "unat bn"]
      by (auto simp: file_addr_def addr_of_def map_ok_def)
    show ?case
    proof (cases "addr_of ip s ?p = 0")
      case True
      then have "free_in s a" using grownD(5) [OF gr g [OF assms(2)]] a by simp
      then show ?thesis using True m a z o1 o2 by (simp add: file_addr_def)
    next
      case False
      then have "a = addr_of ip s ?p" using grownD(3) [OF gr g [OF assms(2)]] a by simp
      then show ?thesis using False m a z o1 o2 by (simp add: file_addr_def)
    qed
  qed
qed

lemma bmap_refines_witness:
  "runs (bmap 0 300 demo_fs) (\<lambda>a s'. map_ok 0 s' \<and> a \<noteq> 0 \<and> file_addr 0 s' (unat (300 :: u32)) = a
    \<and> (if file_addr 0 demo_fs (unat (300 :: u32)) \<noteq> 0 then a = file_addr 0 demo_fs (unat (300 :: u32)) \<and> view s' = view demo_fs
       else free_in demo_fs a \<and> (\<forall>i<BSIZE. view s' a i = 0))
    \<and> (\<forall>n<MAXFILE. n \<noteq> unat (300 :: u32) \<longrightarrow> file_addr 0 s' n = file_addr 0 demo_fs n \<and> file_addr 0 s' n \<noteq> a))"
  by (rule bmap_refines [OF demo_map_ok _ demo_nfree demo_room]) (simp_all add: NBUF_eq)

section \<open>Reading and writing\<close>

text \<open>C15: Reading a file copies its bytes from \<^verbatim>\<open>off\<close> on, as many as were asked for and the file has, whichever blocks
  hold them, returns their number and changes no block of the disk.\<close>

theorem readi_reads:
  assumes "map_ok ip s" and "room 0 1 s" and "off \<le> i_size (itable s ip)"
    and "unat off + unat n < 2 ^ 32" and "unat (i_size (itable s ip)) \<le> MAXFILE * BSIZE"
    and "\<forall>k < (unat (i_size (itable s ip)) + (BSIZE - 1)) div BSIZE. file_addr ip s k \<noteq> 0"
  shows "runs (readi ip (Local d) buf off n s) (\<lambda>(r, buf') s'.
      (let c = min (unat n) (unat (i_size (itable s ip)) - unat off) in
       unat r = c \<and> buf' = (\<lambda>i. if d \<le> i \<and> i < d + c then file_bytes ip s (unat off + (i - d)) else buf i))
    \<and> view s' = view s \<and> itable s' = itable s)"
proof -
  have f: "fcalm ip s" using assms(1) by (simp add: map_ok_def fcalm_def txn_iff)
  have r: "room 0 (Suc 0) s" using assms(2) by simp
  have x: "file_addr ip s k \<noteq> 0" if "k < (unat (i_size (itable s ip)) + 1023) div 1024" for k
    using assms(6) that by simp
  show ?thesis
  proof (rule runs_mono [OF readi_runs [OF f r assms(3,4,5) x]], assumption, goal_cases)
    case (1 v s')
    then show ?case using fkeepD(2) [of s s'] by (auto simp: quiet_def blit_def Let_def fun_eq_iff)
  qed
qed

lemma demo_addr: "n < MAXFILE \<Longrightarrow> file_addr ip demo_fs n = (if n = 0 then 50 else if n = 267 then 53 else 0)"
  unfolding file_addr_def using demo_at [OF good_block_pos, of n ip] by (auto simp: block_pos_def split: if_splits)

lemma readi_reads_witness:
  "runs (readi 0 (Local 7) (\<lambda>_. 0) 2 10 demo_fs) (\<lambda>(r, buf') s'.
      (let c = min (unat (10 :: u32)) (unat (i_size (itable demo_fs 0)) - unat (2 :: u32)) in
       unat r = c \<and> buf' = (\<lambda>i. if 7 \<le> i \<and> i < 7 + c then file_bytes 0 demo_fs (unat (2 :: u32) + (i - 7)) else 0))
    \<and> view s' = view demo_fs \<and> itable s' = itable demo_fs)"
  by (rule readi_reads [OF demo_map_ok demo_room]) (simp_all add: NBUF_eq demo_inode_def demo_addr)

text \<open>C2: Writing a file makes the bytes from \<^verbatim>\<open>off\<close> on the ones given and leaves all others as they were, sets the
  size to the end of the write if that is beyond it, and returns the number of bytes. The file's 64 bytes of its inode
  block hold the inode as it is now and the other inodes there stay as they were; the boot block, the super block, the
  log and all other inode blocks are unchanged; a block marked used afterwards that was free belongs to the file, no
  block becomes free, and the used data blocks of other files keep their contents. For a source buffer in kernel memory,
  with three free blocks per block written and nine blocks of room in the log for each of them, plus one.\<close>

theorem writei_writes:
  assumes "map_ok ip s" and "iblock_ok ip s" and "room (9 * nblk (unat off) (unat off + unat n) + 1) 2 s"
    and "3 * nblk (unat off) (unat off + unat n) \<le> nfree s"
    and "off \<le> i_size (itable s ip)" and "unat off + unat n \<le> MAXFILE * BSIZE"
  shows "runs (writei ip (Local d) buf off n s) (\<lambda>r s'. r = n \<and> map_ok ip s'
    \<and> i_size (itable s' ip) = max (i_size (itable s ip)) (off + n)
    \<and> (\<forall>i<MAXFILE * BSIZE. file_bytes ip s' i =
        (if unat off \<le> i \<and> i < unat off + unat n then buf (d + (i - unat off)) else file_bytes ip s i))
    \<and> view s' (IBLOCK (i_inum (itable s ip)) (sb s)) =
        store_dinode (view s (IBLOCK (i_inum (itable s ip)) (sb s))) (inode_off (i_inum (itable s ip))) (dinode_of (itable s' ip))
    \<and> (\<forall>c. fixed_blk (sb s) c \<longrightarrow> c \<noteq> IBLOCK (i_inum (itable s ip)) (sb s) \<longrightarrow> view s' c = view s c)
    \<and> (\<forall>c. free_in s' c \<longrightarrow> free_in s c)
    \<and> (\<forall>c. free_in s c \<longrightarrow> \<not> free_in s' c \<longrightarrow> c \<noteq> 0 \<and> (\<exists>p. good p \<and> addr_of ip s' p = c))
    \<and> (\<forall>r. good r \<longrightarrow> addr_of ip s r \<noteq> 0 \<longrightarrow> addr_of ip s' r = addr_of ip s r)
    \<and> (\<forall>c. data_blk (sb s) c \<longrightarrow> \<not> free_in s c \<longrightarrow> (\<forall>p. good p \<longrightarrow> addr_of ip s p \<noteq> c) \<longrightarrow> view s' c = view s c))"
proof -
  have r: "room (9 * nblk (unat off) (unat off + unat n) + Suc 0) (Suc (Suc 0)) s" using assms(3) by (simp add: eval_nat_numeral)
  show ?thesis
  proof (rule runs_mono [OF writei_runs [OF assms(1,2) r assms(4-6)]], goal_cases)
    case (1 v s')
    have w: "wgrown ip s s'" using 1 by blast
    have it: "itable s' ip = (itable s ip)\<lparr>i_size := max (i_size (itable s ip)) (off + n), i_addrs := i_addrs (itable s' ip)\<rparr>"
      using 1 by (metis fun_upd_same)
    have "i_size (itable s' ip) = max (i_size (itable s ip)) (off + n)" by (subst it) simp
    moreover have "view s' (IBLOCK (i_inum (itable s ip)) (sb s)) = store_dinode (view s (IBLOCK (i_inum (itable s ip)) (sb s)))
        (inode_off (i_inum (itable s ip))) (dinode_of (itable s' ip))"
      using 1 by (subst it) blast
    ultimately show ?case using 1 wgrownD(1,4,6,7,8) [OF w] by blast
  qed
qed

lemma demo_iblock: "iblock_ok ip demo_fs"
proof -
  have "IBLOCK 1 (sb demo_fs) = 33" by (simp add: IBLOCK_def)
  then show ?thesis by (simp add: iblock_ok_def demo_inode_def)
qed

lemma writei_writes_witness:
  "runs (writei 0 (Local 7) (\<lambda>i. of_nat i) 3 10 demo_fs) (\<lambda>r s'. r = 10 \<and> map_ok 0 s'
    \<and> i_size (itable s' 0) = max (i_size (itable demo_fs 0)) (3 + 10)
    \<and> (\<forall>i<MAXFILE * BSIZE. file_bytes 0 s' i =
        (if unat (3 :: u32) \<le> i \<and> i < unat (3 :: u32) + unat (10 :: u32) then of_nat (7 + (i - unat (3 :: u32)))
         else file_bytes 0 demo_fs i))
    \<and> view s' (IBLOCK (i_inum (itable demo_fs 0)) (sb demo_fs)) =
        store_dinode (view demo_fs (IBLOCK (i_inum (itable demo_fs 0)) (sb demo_fs)))
          (inode_off (i_inum (itable demo_fs 0))) (dinode_of (itable s' 0))
    \<and> (\<forall>c. fixed_blk (sb demo_fs) c \<longrightarrow> c \<noteq> IBLOCK (i_inum (itable demo_fs 0)) (sb demo_fs) \<longrightarrow> view s' c = view demo_fs c)
    \<and> (\<forall>c. free_in s' c \<longrightarrow> free_in demo_fs c)
    \<and> (\<forall>c. free_in demo_fs c \<longrightarrow> \<not> free_in s' c \<longrightarrow> c \<noteq> 0 \<and> (\<exists>p. good p \<and> addr_of 0 s' p = c))
    \<and> (\<forall>r. good r \<longrightarrow> addr_of 0 demo_fs r \<noteq> 0 \<longrightarrow> addr_of 0 s' r = addr_of 0 demo_fs r)
    \<and> (\<forall>c. data_blk (sb demo_fs) c \<longrightarrow> \<not> free_in demo_fs c \<longrightarrow> (\<forall>p. good p \<longrightarrow> addr_of 0 demo_fs p \<noteq> c)
        \<longrightarrow> view s' c = view demo_fs c))"
  by (rule writei_writes [OF demo_map_ok demo_iblock demo_room])
    (use demo_nfree in \<open>simp_all add: NBUF_eq nblk_def demo_inode_def\<close>)

text \<open>C11: What is written to a file is what is read from it: reading back the bytes just written, in the same
  transaction, returns their number and puts the very bytes into the reader's buffer and nothing else.\<close>

theorem write_read_roundtrip:
  assumes m: "map_ok ip s" and ib: "iblock_ok ip s" and r: "room (9 * nblk (unat off) (unat off + unat n) + 1) 2 s"
    and fr: "3 * nblk (unat off) (unat off + unat n) \<le> nfree s"
    and off: "off \<le> i_size (itable s ip)" and mx: "unat off + unat n \<le> MAXFILE * BSIZE"
    and sz: "unat (i_size (itable s ip)) \<le> MAXFILE * BSIZE"
    and pr: "\<forall>k < (unat (i_size (itable s ip)) + (BSIZE - 1)) div BSIZE. file_addr ip s k \<noteq> 0"
  shows "runs (andthen (writei ip (Local d) src off n s) (\<lambda>r s. readi ip (Local e) buf off n s))
    (\<lambda>(r, buf') _. r = n \<and> buf' = (\<lambda>i. if e \<le> i \<and> i < e + unat n then src (d + (i - e)) else buf i))"
proof -
  have r': "room (9 * nblk (unat off) (unat off + unat n) + Suc 0) (Suc (Suc 0)) s" using r by (simp add: eval_nat_numeral)
  have on: "unat (off + n) = unat off + unat n" using mx by (simp add: unat_word_ariths)
  show ?thesis
  proof (rule runs_andthen [OF writei_runs [OF m ib r' fr off mx, where d = d and loc = src]], goal_cases)
    case (1 v t)
    then have w: "wgrown ip s t" and rm: "room 0 (Suc 0) t"
      and it: "itable t = (itable s)(ip := (itable s ip)\<lparr>i_size := max (i_size (itable s ip)) (off + n), i_addrs := i_addrs (itable t ip)\<rparr>)"
      and p: "\<And>i. unat off \<le> i \<Longrightarrow> i < unat off + unat n \<Longrightarrow> file_addr ip t (i div 1024) \<noteq> 0"
      and fb: "\<And>i. i < MAXFILE * BSIZE \<Longrightarrow> file_bytes ip t i =
        (if unat off \<le> i \<and> i < unat off + unat n then src (d + (i - unat off)) else file_bytes ip s i)"
      by blast+
    obtain A where "itable t = (itable s)(ip := (itable s ip)\<lparr>i_size := max (i_size (itable s ip)) (off + n), i_addrs := A\<rparr>)"
      using it by blast
    then have "i_size (itable t ip) = max (i_size (itable s ip)) (off + n)" by simp
    then have us: "unat (i_size (itable t ip)) = max (unat (i_size (itable s ip))) (unat off + unat n)"
      using on by (simp add: max_def word_le_nat_alt)
    have f: "fcalm ip t" using wgrownD(1) [OF w] by (simp add: map_ok_def fcalm_def txn_iff)
    have o: "off \<le> i_size (itable t ip)" using us off by (simp add: word_le_nat_alt)
    have ov: "unat off + unat n < 2 ^ 32" using mx by simp
    have sz': "unat (i_size (itable t ip)) \<le> MAXFILE * BSIZE" using us sz mx by simp
    have x: "file_addr ip t k \<noteq> 0" if k: "k < (unat (i_size (itable t ip)) + 1023) div 1024" for k
    proof (cases "k < (unat (i_size (itable s ip)) + 1023) div 1024")
      case True
      have "k < MAXFILE" using k sz' by auto
      then show ?thesis using True pr wgrownD(4) [OF w good_block_pos] by (simp add: file_addr_def)
    next
      case False
      then have "unat (i_size (itable s ip)) \<le> k * 1024" "k * 1024 < unat (i_size (itable t ip))" using k by auto
      then have "unat off \<le> k * 1024" "k * 1024 < unat off + unat n" using off us by (auto simp: word_le_nat_alt)
      then show ?thesis using p [of "k * 1024"] by simp
    qed
    have c: "min (unat n) (unat (i_size (itable t ip)) - unat off) = unat n" using us by simp
    show ?case
    proof (rule runs_mono [OF readi_runs [OF f rm o ov sz' x, unfolded c]], assumption, goal_cases)
      case (1 q u)
      have "file_bytes ip t (unat off + (i - e)) = src (d + (i - e))" if "e \<le> i" "i < e + unat n" for i
        using that mx by (subst fb) auto
      then have "(\<lambda>i. if e \<le> i \<and> i < e + unat n then file_bytes ip t (unat off + (i - e)) else buf i)
          = (\<lambda>i. if e \<le> i \<and> i < e + unat n then src (d + (i - e)) else buf i)" by auto
      then show ?case using 1 by (auto simp: blit_def word_unat_eq_iff)
    qed
  qed
qed

lemma write_read_roundtrip_witness:
  "runs (andthen (writei 0 (Local 7) (\<lambda>i. of_nat i) 3 10 demo_fs) (\<lambda>r s. readi 0 (Local 2) (\<lambda>_. 0) 3 10 s))
    (\<lambda>(r, buf') _. r = 10 \<and> buf' = (\<lambda>i. if 2 \<le> i \<and> i < 2 + unat (10 :: u32) then of_nat (7 + (i - 2)) else 0))"
  by (rule write_read_roundtrip [OF demo_map_ok demo_iblock demo_room])
    (use demo_nfree in \<open>simp_all add: NBUF_eq nblk_def demo_inode_def demo_addr\<close>)

section \<open>Truncating\<close>

text \<open>C24: \<^verbatim>\<open>itrunc\<close> leaves an inode of size 0 with no addresses and frees the file's direct blocks, its indirect block,
  the blocks that one points to and the doubly indirect block, and no others: the blocks below the doubly indirect block
  stay marked used although nothing points to them any more.\<close>

theorem itrunc_frees:
  assumes m: "map_ok ip s" and ib: "iblock_ok ip s" and r: "troom 2 2 s"
    and bm: "sb_bmapstart (sb s) \<noteq> 0" and boot: "\<forall>j<NINDIRECT. ld32 (view s 0) (4 * j) = 0"
  shows "runs (itrunc ip s) (\<lambda>_ s'. i_size (itable s' ip) = 0 \<and> (\<forall>i<NDIRECT + 2. i_addrs (itable s' ip) i = 0)
    \<and> (\<forall>c. free_in s' c \<longleftrightarrow> free_in s c \<or> c \<noteq> 0 \<and> (\<exists>p. good p \<and> shallow p \<and> addr_of ip s p = c))
    \<and> (\<forall>p. good p \<longrightarrow> \<not> shallow p \<longrightarrow> addr_of ip s p \<noteq> 0 \<longrightarrow> \<not> free_in s' (addr_of ip s p)))"
proof -
  have r': "troom (Suc (Suc 0)) (Suc (Suc 0)) s" using r by (simp add: eval_nat_numeral)
  have b: "ld32 (view s 0) (4 * j) = 0" if "j < NINDIRECT" for j using boot that by blast
  have tr: "tree_ok (sb s) (view s) (i_addrs (itable s ip))" using m by (simp add: map_ok_def)
  show ?thesis
  proof (rule runs_mono [OF itrunc_runs [OF m ib r' bm b]], assumption, goal_cases)
    case (1 u s')
    have "\<not> free_in s' (addr_of ip s p)" if p: "good p" "\<not> shallow p" "addr_of ip s p \<noteq> 0" for p
    proof -
      have "\<not> free_in s (addr_of ip s p)" using tree_okD(3) [OF tr p(1)] p(3) by (simp add: addr_of_def)
      moreover have "addr_of ip s q \<noteq> addr_of ip s p" if "good q" "shallow q" for q
        using tree_okD(1) [OF tr that(1) p(1)] p(2,3) that(2) by (auto simp: addr_of_def)
      ultimately show ?thesis using 1 by blast
    qed
    then show ?case using 1 by blast
  qed
qed

lemma demo_boot: "ld32 (view demo_fs 0) (4 * j) = 0"
  by (simp add: demo_cache demo_disk_def ld32_def)

lemma demo_troom: "troom 2 2 demo_fs"
proof -
  have "map_blocks (sb demo_fs) \<subseteq> {40}" unfolding map_blocks_def using demo_BBLOCK by auto
  then have "card (map_blocks (sb demo_fs) - logged demo_fs) \<le> card {40 :: u32}" by (intro card_mono) auto
  then show ?thesis unfolding troom_def by (intro demo_room) (simp_all add: NBUF_eq)
qed

lemma itrunc_frees_witness:
  "runs (itrunc 0 demo_fs) (\<lambda>_ s'. i_size (itable s' 0) = 0 \<and> (\<forall>i<NDIRECT + 2. i_addrs (itable s' 0) i = 0)
    \<and> (\<forall>c. free_in s' c \<longleftrightarrow> free_in demo_fs c \<or> c \<noteq> 0 \<and> (\<exists>p. good p \<and> shallow p \<and> addr_of 0 demo_fs p = c))
    \<and> (\<forall>p. good p \<longrightarrow> \<not> shallow p \<longrightarrow> addr_of 0 demo_fs p \<noteq> 0 \<longrightarrow> \<not> free_in s' (addr_of 0 demo_fs p)))
   \<and> good (Leaf 0 0) \<and> \<not> shallow (Leaf 0 0) \<and> addr_of 0 demo_fs (Leaf 0 0) = 53"
  by (rule conjI [OF itrunc_frees [OF demo_map_ok demo_iblock demo_troom]]) (use demo_boot in \<open>simp_all add: demo_at\<close>)

end
