(* ===== verification/Mmap.thy ===== *)
theory Mmap
  imports Trap
begin

text \<open>
  Properties of memory-mapped files: where \<^verbatim>\<open>mmap\<close> puts a mapping, what a failed \<^verbatim>\<open>mmap\<close> leaves behind, and which
  slot a page fault finds.
\<close>

section \<open>The slots\<close>

definition vma_addr :: "nat \<Rightarrow> u64" where
  "vma_addr n = MAXVA - 2 * PGSIZE - of_nat (n + 1) * 8 * PGSIZE"

text \<open>A slot is empty or holds a mapping at the place of its own; one that was never used starts at address 0.\<close>

definition vmas_ok :: "nat \<Rightarrow> 'z kstate_scheme \<Rightarrow> bool" where
  "vmas_ok p s \<longleftrightarrow> (\<forall>i<VMASIZE. let v = p_vma (procs s p) i in
     (mapped_starting_address v = vma_addr i \<or> mapped_starting_address v = 0 \<and> mapped_file v = None)
     \<and> (mapped_file v = None \<longrightarrow> mapped_length v = 0))"

lemma vma_addr_unat: "n < VMASIZE \<Longrightarrow> unat (vma_addr n) + (n + 1) * 32768 = 274877898752"
proof -
  assume "n < VMASIZE"
  then have n: "n < 16" by (simp add: VMASIZE_def)
  have u: "unat (of_nat (n + 1) * 8 * PGSIZE :: u64) = (n + 1) * 32768"
    using n by (simp add: PGSIZE_def unat_word_ariths unat_of_nat)
  have m: "unat (MAXVA - 2 * PGSIZE) = 274877898752" by (simp add: MAXVA_def PGSIZE_def)
  have "of_nat (n + 1) * 8 * PGSIZE \<le> MAXVA - 2 * PGSIZE"
    unfolding word_le_nat_alt u m using n by simp
  then have "unat (vma_addr n) = 274877898752 - (n + 1) * 32768" unfolding vma_addr_def by (subst unat_sub) (simp_all only: u m)
  then show ?thesis using n by simp
qed

text \<open>The addresses of a slot: eight pages from its start.\<close>

definition in_slot :: "u64 \<Rightarrow> u64 \<Rightarrow> bool" where
  "in_slot a start \<longleftrightarrow> start \<le> a \<and> a < start + 8 * PGSIZE"

lemma in_slot_unat:
  assumes "n < VMASIZE"
  shows "in_slot a (vma_addr n) \<longleftrightarrow> unat (vma_addr n) \<le> unat a \<and> unat a < unat (vma_addr n) + 32768"
proof -
  have "n < 16" using assms by (simp add: VMASIZE_def)
  then have "unat (vma_addr n + 8 * PGSIZE) = unat (vma_addr n) + 32768"
    using vma_addr_unat [OF assms] by (simp add: PGSIZE_def unat_word_ariths)
  then show ?thesis by (simp add: in_slot_def word_le_nat_alt word_less_nat_alt)
qed

lemma in_slot_disjoint:
  assumes "m < VMASIZE" "n < VMASIZE" "in_slot a (vma_addr m)" "in_slot a (vma_addr n)"
  shows "m = n"
proof -
  have a: "unat (vma_addr m) \<le> unat a" "unat a < unat (vma_addr m) + 32768"
    "unat (vma_addr n) \<le> unat a" "unat a < unat (vma_addr n) + 32768"
    using assms(3,4) unfolding in_slot_unat [OF assms(1)] in_slot_unat [OF assms(2)] by simp_all
  have *: "\<not> k < l" if "x \<le> c" "c < x + 32768" "y \<le> c" "c < y + 32768" "x + (k + 1) * 32768 = e" "y + (l + 1) * 32768 = e"
    for k l x y c e :: nat using that by (simp add: algebra_simps)
  show ?thesis
    using * [OF a vma_addr_unat [OF assms(1)] vma_addr_unat [OF assms(2)]]
      * [OF a(3,4,1,2) vma_addr_unat [OF assms(2)] vma_addr_unat [OF assms(1)]] by simp
qed

lemma in_slot_high: "n < VMASIZE \<Longrightarrow> in_slot a (vma_addr n) \<Longrightarrow> \<not> in_slot a 0"
  using vma_addr_unat [of n] in_slot_unat [of n a]
  by (auto simp: in_slot_def PGSIZE_def VMASIZE_def word_less_nat_alt)

lemma find_trap_vma_eq: "find_trap_vma a p s = first_index (\<lambda>i. in_slot a (mapped_starting_address (p_vma (procs s p) i))) VMASIZE"
  by (simp add: find_trap_vma_def in_slot_def)

lemma find_trap_vma_slot:
  assumes "vmas_ok p s" and "n < VMASIZE" and "mapped_starting_address (p_vma (procs s p) n) = vma_addr n"
    and "in_slot a (vma_addr n)"
  shows "find_trap_vma a p s = Some n"
  unfolding find_trap_vma_eq
proof (rule first_index_eqI)
  show "n < VMASIZE" by (rule assms(2))
  show "in_slot a (mapped_starting_address (p_vma (procs s p) n))" using assms(3,4) by simp
  show "\<not> in_slot a (mapped_starting_address (p_vma (procs s p) j))" if j: "j < n" for j
  proof
    assume i: "in_slot a (mapped_starting_address (p_vma (procs s p) j))"
    have jv: "j < VMASIZE" using j assms(2) by simp
    then have "mapped_starting_address (p_vma (procs s p) j) = vma_addr j \<or> mapped_starting_address (p_vma (procs s p) j) = 0"
      using assms(1) unfolding vmas_ok_def Let_def by blast
    then show False
      using i in_slot_disjoint [OF jv assms(2)] in_slot_high [OF assms(2,4)] assms(4) j by auto
  qed
qed

section \<open>What printing leaves alone\<close>

lemma consputc_procs [simp]: "procs (consputc c s) = procs s" "curproc (consputc c s) = curproc s" "freelist (consputc c s) = freelist s"
  and consputc_files [simp]: "files (consputc c t) = files t"
  by (cases c; simp add: uartputc_sync_def WriteReg_def)+

lemma fold_consputc_procs:
  "procs (fold (\<lambda>c. consputc (Chr c)) out s) = procs s \<and> files (fold (\<lambda>c. consputc (Chr c)) out s) = files s"
  by (induction out arbitrary: s) (simp_all del: consputc.simps)

lemma kprintf_runs:
  fixes s :: "'z ostate_scheme"
  assumes "printf_out (bstr fmt) args \<noteq> None"
  shows "runs (kprintf fmt args s) (\<lambda>_ t. procs t = procs s \<and> files t = files s)"
  using assms by (auto simp: kprintf_def fold_consputc_procs)

section \<open>Mapping\<close>

text \<open>The file of a descriptor, as \<^verbatim>\<open>get_file_from_fd\<close> finds it.\<close>

definition fd_file :: "int \<Rightarrow> nat \<Rightarrow> 'z kstate_scheme \<Rightarrow> nat option" where
  "fd_file fd p s = (if fd < 0 \<or> fd \<ge> int NOFILE then None else p_ofile (procs s p) (nat fd))"

text \<open>A shared mapping asks for an access that the file was not opened for.\<close>

definition map_denied :: "u32 \<Rightarrow> int \<Rightarrow> kfile \<Rightarrow> bool" where
  "map_denied prot sharing f \<longleftrightarrow> sharing = 1 \<and> (prot AND 2 \<noteq> 0 \<and> \<not> f_writable f \<or> prot AND 1 \<noteq> 0 \<and> \<not> f_readable f)"

definition new_vma :: "nat \<Rightarrow> nat \<Rightarrow> u32 \<Rightarrow> u32 \<Rightarrow> u32 \<Rightarrow> u32 \<Rightarrow> vma \<Rightarrow> vma" where
  "new_vma n f len prot sharing off v = v\<lparr>mapped_file := Some f, mapped_length := len,
     memory_flags := memory_flag_generator prot, mapped_flags := sharing, mapped_starting_address := vma_addr n,
     vma_offset := off, used_length := 0\<rparr>"

lemma vmas_ok_new:
  assumes "vmas_ok p s"
  shows "vmas_ok p (set_proc p (p_vma_update (\<lambda>v. v(n := new_vma n f len prot sharing off (v n)))) s)"
  using assms by (auto simp: vmas_ok_def new_vma_def set_proc_def Let_def)

text \<open>An empty slot.\<close>

definition vma_free :: "nat \<Rightarrow> nat \<Rightarrow> 'z kstate_scheme \<Rightarrow> bool" where
  "vma_free p i s \<longleftrightarrow> mapped_file (p_vma (procs s p) i) = None \<and> mapped_length (p_vma (procs s p) i) = 0"

abbreviation vma_start :: "nat \<Rightarrow> nat \<Rightarrow> 'z kstate_scheme \<Rightarrow> u64" where
  "vma_start p i s \<equiv> mapped_starting_address (p_vma (procs s p) i)"

lemma vma_searching_first:
  assumes "n < VMASIZE" and "vma_free p n s" and "\<forall>i<n. \<not> vma_free p i s"
  shows "vma_searching p s = Some n"
  unfolding vma_searching_def using assms by (intro first_index_eqI) (auto simp: vma_free_def)

text \<open>The arguments of \<^verbatim>\<open>mmap\<close>, and the call with its arguments read.\<close>

abbreviation mmap_arg :: "nat \<Rightarrow> 'z kstate_scheme \<Rightarrow> u32" where
  "mmap_arg i s \<equiv> ucast (tf_get (curproc s) (TF_a i) s)"

lemma sys_mmap_eq:
  "sys_mmap s = andthen (get_file_from_fd (sint (mmap_arg 4 s)) (curproc s) s) (\<lambda>f t. case f of
       None \<Rightarrow> andthen (kprintf (''loading file structure failed'' @ [CHR 0x0A]) [] t) (\<lambda>_ t. Inr (- 1, t))
     | Some f \<Rightarrow>
         if sint (mmap_arg 3 s) = 1 \<and> (mmap_arg 2 s AND 2 \<noteq> 0 \<and> \<not> f_writable (files t f)
             \<or> mmap_arg 2 s AND 1 \<noteq> 0 \<and> \<not> f_readable (files t f)) then Inr (- 1, t)
         else case vma_searching (curproc s) s of
             None \<Rightarrow> Inl (Undefined ''vma[-1]'')
           | Some n \<Rightarrow> let t = set_vma n (mmap_arg 1 s) (mmap_arg 2 s) (mmap_arg 3 s) (mmap_arg 5 s) f (curproc s) t
               in Inr (mapped_starting_address (p_vma (procs t (curproc s)) n), t))"
proof -
  have arg: "argint i s = Inr (sint (mmap_arg i s), s)" if "i \<le> 5" for i using that by (simp add: argint_def argraw_def)
  have w: "(word_of_int (sint (mmap_arg i s)) :: u32) = mmap_arg i s" for i by simp
  show ?thesis
    unfolding sys_mmap_def by (simp add: arg w Let_def cong: if_cong option.case_cong del: One_nat_def)
qed

lemma get_file_from_fd_Some:
  assumes "fd_file fd p s = Some f" and "1 \<le> f_ref (files s f)"
  shows "get_file_from_fd fd p s = Inr (Some f, set_file f (f_ref_update (\<lambda>r. r + 1)) s)"
  using assms by (auto simp: get_file_from_fd_def fd_file_def filedup_def split: if_splits option.splits)

lemma set_file_access [simp]:
  "f_writable (files (set_file f (f_ref_update g) s) f) = f_writable (files s f)"
  "f_readable (files (set_file f (f_ref_update g) s) f) = f_readable (files s f)"
  by (simp_all add: set_file_def)

text \<open>C30: \<^verbatim>\<open>mmap\<close> takes the first empty slot of the process, leaves all other slots as they are, puts the mapping at the
  slot's own eight pages and takes a reference to the file. A fault at an address there is served from that slot exactly
  if no slot before it covers the address; where every slot in use is at its own place, as \<^verbatim>\<open>mmap\<close> itself leaves them,
  no other slot covers it and the slots remain so. A descriptor that is not open, or an access the file was not
  opened for, gives -1 and no mapping; but in the second case the reference stays taken.\<close>

theorem mmap_spec:
  fixes s :: "'z ostate_scheme"
  defines "p \<equiv> curproc s" and "arg \<equiv> \<lambda>i. mmap_arg i s"
  assumes n: "n < VMASIZE" "vma_free p n s" "\<forall>i<n. \<not> vma_free p i s"
    and refs: "\<And>f. fd_file (sint (arg 4)) p s = Some f \<Longrightarrow> 1 \<le> f_ref (files s f)"
  shows "runs (sys_mmap s) (\<lambda>r t. (vmas_ok p s \<longrightarrow> vmas_ok p t) \<and>
    (case fd_file (sint (arg 4)) p s of
       None \<Rightarrow> r = - 1 \<and> procs t = procs s \<and> files t = files s
     | Some f \<Rightarrow> files t = (files s)(f := f_ref_update (\<lambda>k. k + 1) (files s f)) \<and>
         (if map_denied (arg 2) (sint (arg 3)) (files s f) then r = - 1 \<and> procs t = procs s
          else r = vma_addr n
            \<and> procs t = (procs s)(p := p_vma_update (\<lambda>v. v(n := new_vma n f (arg 1) (arg 2) (arg 3) (arg 5) (v n))) (procs s p))
            \<and> (\<forall>a. in_slot a r \<longrightarrow> (find_trap_vma a p t = Some n \<longleftrightarrow> (\<forall>i<n. \<not> in_slot a (vma_start p i s)))
                \<and> (vmas_ok p s \<longrightarrow> (\<forall>i<VMASIZE. i \<noteq> n \<longrightarrow> \<not> in_slot a (vma_start p i s)))))))"
proof -
  have slot: "vma_searching (curproc s) s = Some n" using vma_searching_first [OF n] by (simp add: p_def)
  have arg: "mmap_arg i s = arg i" for i by (simp add: arg_def)
  note e = sys_mmap_eq [of s, unfolded slot option.case arg, folded p_def]
  show ?thesis
  proof (cases "fd_file (sint (arg 4)) p s")
    case None
    have "printf_out (bstr (''loading file structure failed'' @ [CHR 0x0A])) [] \<noteq> None" by code_simp
    note k = kprintf_runs [OF this, of s]
    have "get_file_from_fd (sint (arg 4)) p s = Inr (None, s)"
      using None by (auto simp: get_file_from_fd_def fd_file_def split: if_splits option.splits)
    then show ?thesis unfolding e None
      by (simp del: append.simps) (rule runs_andthen [OF k], simp add: vmas_ok_def)
  next
    case (Some f)
    let ?s = "set_file f (f_ref_update (\<lambda>r. r + 1)) s"
    note g = get_file_from_fd_Some [OF Some refs [OF Some]]
    show ?thesis
    proof (cases "map_denied (arg 2) (sint (arg 3)) (files s f)")
      case True
      then show ?thesis unfolding e g Some by (simp add: map_denied_def) (simp add: set_file_def vmas_ok_def)
    next
      case False
      let ?t = "set_proc p (p_vma_update (\<lambda>v. v(n := new_vma n f (arg 1) (arg 2) (arg 3) (arg 5) (v n)))) ?s"
      have sv: "set_vma n (arg 1) (arg 2) (arg 3) (arg 5) f p ?s = ?t"
        by (simp add: set_vma_def new_vma_def vma_addr_def)
      have ok': "vmas_ok p ?t" if "vmas_ok p s" by (rule vmas_ok_new) (use that in \<open>simp add: vmas_ok_def set_file_def\<close>)
      have st: "vma_start p i ?t = (if i = n then vma_addr n else vma_start p i s)" for i
        by (simp add: set_proc_def new_vma_def set_file_def)
      have fd: "find_trap_vma a p ?t = Some n \<longleftrightarrow> (\<forall>i<n. \<not> in_slot a (vma_start p i s))" if "in_slot a (vma_addr n)" for a
      proof
        assume "find_trap_vma a p ?t = Some n"
        then have "\<forall>j<n. \<not> in_slot a (vma_start p j ?t)" unfolding find_trap_vma_eq by (rule first_index_SomeD(3))
        then show "\<forall>i<n. \<not> in_slot a (vma_start p i s)" unfolding st by auto
      next
        assume no: "\<forall>i<n. \<not> in_slot a (vma_start p i s)"
        show "find_trap_vma a p ?t = Some n" unfolding find_trap_vma_eq
          by (rule first_index_eqI) (use n(1) no that in \<open>auto simp: st simp del: One_nat_def\<close>)
      qed
      have no: "\<not> in_slot a (vma_start p i s)" if ok: "vmas_ok p s" and a: "in_slot a (vma_addr n)" and i: "i < VMASIZE" "i \<noteq> n" for a i
      proof -
        have "vma_start p i s = vma_addr i \<or> vma_start p i s = 0" using ok i(1) unfolding vmas_ok_def Let_def by blast
        then show ?thesis using in_slot_disjoint [OF i(1) n(1)] in_slot_high [OF n(1) a] a i(2) by auto
      qed
      have nd: "\<not> (sint (arg 3) = 1 \<and> (arg 2 AND 2 \<noteq> 0 \<and> \<not> f_writable (files s f)
             \<or> arg 2 AND 1 \<noteq> 0 \<and> \<not> f_readable (files s f)))" using False by (simp add: map_denied_def)
      have "sys_mmap s = Inr (vma_addr n, ?t)"
        unfolding e g andthen_simps option.case set_file_access if_not_P [OF nd] sv Let_def st by simp
      moreover have "procs ?t = (procs s)(p := p_vma_update (\<lambda>v. v(n := new_vma n f (arg 1) (arg 2) (arg 3) (arg 5) (v n))) (procs s p))"
        and "files ?t = (files s)(f := f_ref_update (\<lambda>k. k + 1) (files s f))"
        by (simp_all add: set_proc_def set_file_def)
      ultimately show ?thesis using Some False ok' fd no by simp
    qed
  qed
qed

text \<open>A process with one file, open for reading, that maps a page of it for reading: \<^verbatim>\<open>mmap(0, 4096, 1, 1, 0, 0)\<close>.\<close>

definition demo_map :: ostate where
  "demo_map = zero_o\<lparr>pmem := (\<lambda>a. if a = TF_a 1 + 1 then 16 else if a = TF_a 2 \<or> a = TF_a 3 then 1 else 0),
     procs := (\<lambda>_. zero_proc\<lparr>p_ofile := (\<lambda>_. None)(0 := Some 5)\<rparr>),
     files := (\<lambda>_. zero_file\<lparr>f_ref := 1, f_readable := True\<rparr>)\<rparr>"

lemma demo_slots: "vmas_ok p demo_map" "vma_free p 0 demo_map" "curproc demo_map = 0"
  by (simp_all add: vmas_ok_def demo_map_def zero_o_def zero_proc_def zero_vma_def vma_free_def)

lemma demo_map_args:
  "tf_get 0 (TF_a 2) demo_map = 1" "tf_get 0 (TF_a 3) demo_map = 1" "tf_get 0 (TF_a 4) demo_map = 0"
  by (simp_all add: tf_get_def demo_map_def zero_o_def zero_proc_def TF_a_def ld64_def ld32_def)

lemma mmap_spec_witness:
  "runs (sys_mmap demo_map) (\<lambda>r t. r = vma_addr 0 \<and> f_ref (files t 5) = 2
     \<and> (\<forall>a. in_slot a (vma_addr 0) \<longrightarrow> find_trap_vma a 0 t = Some 0))"
proof -
  have fd: "fd_file (sint (ucast (tf_get (curproc demo_map) (TF_a 4) demo_map) :: u32)) (curproc demo_map) demo_map = Some 5"
    unfolding demo_slots(3) demo_map_args(3) by (simp add: fd_file_def demo_map_def NOFILE_def)
  have ref: "f_ref (files demo_map 5) = 1" "f_readable (files demo_map 5)" by (simp_all add: demo_map_def)
  have vf: "vma_free (curproc demo_map) 0 demo_map" by (rule demo_slots(2))
  have "runs (sys_mmap demo_map) (\<lambda>r t. r = vma_addr 0 \<and> f_ref (files t 5) = 2
     \<and> (\<forall>a. in_slot a r \<longrightarrow> find_trap_vma a 0 t = Some 0))"
    by (rule runs_mono [OF mmap_spec [of 0 demo_map]])
      (use fd ref vf in \<open>auto simp: VMASIZE_def map_denied_def demo_slots(3) demo_map_args\<close>)
  then show ?thesis by (rule runs_mono) simp
qed

section \<open>Mappings of a forked child\<close>

text \<open>
  \<^verbatim>\<open>lazy_copy\<close> stores the parent's address in whatever slot of the child is empty, so that slots of a child need not
  be at their own places. A child that first touches its parent's second mapping has it in its first slot; its own
  \<^verbatim>\<open>mmap\<close> then takes the second slot and returns the same addresses, where faults keep loading the parent's file.
\<close>

lemma lazy_copy_slot:
  assumes "vma_searching_trap p s = Some w" and "mapped_file (p_vma (procs s q) v) = Some f"
  shows "\<exists>t. lazy_copy q v p s = andthen (filedup f t) (\<lambda>_ t. memory_mapping w p t) \<and> vma_start p w t = vma_start q v s
    \<and> mapped_file (p_vma (procs t p) w) = Some f"
  unfolding lazy_copy_def assms option.case Let_def by (intro exI conjI, rule refl) (simp_all add: set_vma_slot_def set_proc_def)

lemma child_mapping_shadowed:
  fixes s :: "'z ostate_scheme"
  assumes "\<not> vma_free (curproc s) 0 s" and "vma_start (curproc s) 0 s = vma_addr 1" and "vma_free (curproc s) 1 s"
    and f: "fd_file (sint (mmap_arg 4 s)) (curproc s) s = Some f" "1 \<le> f_ref (files s f)"
    and "\<not> map_denied (mmap_arg 2 s) (sint (mmap_arg 3 s)) (files s f)"
  shows "runs (sys_mmap s) (\<lambda>r t. r = vma_addr 1 \<and> (\<forall>a. in_slot a r \<longrightarrow> find_trap_vma a (curproc s) t = Some 0))"
proof -
  have slot: "vma_searching (curproc s) s = Some 1"
    by (rule vma_searching_first) (use assms(1,3) in \<open>auto simp: VMASIZE_def\<close>)
  let ?t = "set_vma 1 (mmap_arg 1 s) (mmap_arg 2 s) (mmap_arg 3 s) (mmap_arg 5 s) f (curproc s) (set_file f (f_ref_update (\<lambda>r. r + 1)) s)"
  have st: "vma_start (curproc s) 1 ?t = vma_addr 1" "vma_start (curproc s) 0 ?t = vma_addr 1"
    using assms(2) by (simp_all add: set_vma_def set_proc_def set_file_def vma_addr_def)
  have nd: "\<not> (sint (mmap_arg 3 s) = 1 \<and> (mmap_arg 2 s AND 2 \<noteq> 0 \<and> \<not> f_writable (files s f)
             \<or> mmap_arg 2 s AND 1 \<noteq> 0 \<and> \<not> f_readable (files s f)))" using assms(6) by (simp add: map_denied_def)
  have "sys_mmap s = Inr (vma_addr 1, ?t)"
    unfolding sys_mmap_eq get_file_from_fd_Some [OF f] andthen_simps option.case set_file_access if_not_P [OF nd] slot Let_def st ..
  moreover have "find_trap_vma a (curproc s) ?t = Some 0" if "in_slot a (vma_addr 1)" for a
    unfolding find_trap_vma_eq by (rule first_index_eqI) (use that in \<open>simp_all add: VMASIZE_def st del: One_nat_def\<close>)
  ultimately show ?thesis by simp
qed

text \<open>With all sixteen slots in use \<^verbatim>\<open>mmap\<close> writes to \<^verbatim>\<open>vma[-1]\<close>.\<close>

lemma mmap_full_undefined:
  assumes "\<forall>i<VMASIZE. \<not> vma_free (curproc s) i s"
    and f: "fd_file (sint (mmap_arg 4 s)) (curproc s) s = Some f" "1 \<le> f_ref (files s f)"
    and "\<not> map_denied (mmap_arg 2 s) (sint (mmap_arg 3 s)) (files s f)"
  shows "sys_mmap s = Inl (Undefined ''vma[-1]'')"
proof -
  have slot: "vma_searching (curproc s) s = None"
    unfolding vma_searching_def first_index_None_iff using assms(1) by (auto simp: vma_free_def)
  have nd: "\<not> (sint (mmap_arg 3 s) = 1 \<and> (mmap_arg 2 s AND 2 \<noteq> 0 \<and> \<not> f_writable (files s f)
             \<or> mmap_arg 2 s AND 1 \<noteq> 0 \<and> \<not> f_readable (files s f)))" using assms(4) by (simp add: map_denied_def)
  show ?thesis
    unfolding sys_mmap_eq get_file_from_fd_Some [OF f] andthen_simps option.case set_file_access if_not_P [OF nd] slot ..
qed

text \<open>A fault outside every mapping of the process and of its parent makes the kernel read through a null pointer.\<close>

lemma wild_fault_undefined:
  assumes "find_trap_vma (hw_stval h) (curproc s) s = None"
    and "\<And>q. p_parent (procs s (curproc s)) = Some q \<Longrightarrow> find_trap_vma (hw_stval h) q s = None"
  shows "\<exists>m. usertrap_fault h s = Inl (Undefined m)"
  using assms by (auto simp: usertrap_fault_def Let_def split: option.splits)

section \<open>A fault at a low address\<close>

text \<open>C40: A user access to an unmapped address below eight pages, a stack overflow of a small program for instance, makes
  the page-fault handler dereference a null pointer inside the kernel as long as the process has a slot that was never
  used: the handler takes the slot's starting address 0 for a mapping.\<close>

theorem low_fault_undefined:
  fixes s :: "'z ostate_scheme"
  assumes ok: "vmas_ok (curproc s) s" and i: "i < VMASIZE" "mapped_starting_address (p_vma (procs s (curproc s)) i) = 0"
    and mem: "freelist s \<noteq> 0" and h: "\<not> hw_spp h" "hw_scause h = 13 \<or> hw_scause h = 15" "hw_stval h < 8 * PGSIZE"
  shows "usertrap trampoline forkret h s = Inl (Undefined ''mapped_file'')"
proof -
  let ?p = "curproc s"
  define t where "t = tf_set ?p TF_epc (hw_sepc h) s"
  have t: "procs t = procs s" "curproc t = ?p" "freelist t = freelist s" by (simp_all add: t_def tf_set_def)
  have in0: "in_slot (hw_stval h) 0" using h(3) by (simp add: in_slot_def)
  obtain v where v: "find_trap_vma (hw_stval h) ?p t = Some v"
    using first_index_Some_ex [of i VMASIZE "\<lambda>i. in_slot (hw_stval h) (mapped_starting_address (p_vma (procs s ?p) i))"] i in0
    by (auto simp: find_trap_vma_eq t)
  then have vl: "v < VMASIZE" and vi: "in_slot (hw_stval h) (mapped_starting_address (p_vma (procs s ?p) v))"
    unfolding find_trap_vma_eq t(1) by (blast dest: first_index_SomeD)+
  have "mapped_starting_address (p_vma (procs s ?p) v) \<noteq> vma_addr v" using in_slot_high [OF vl] vi in0 by metis
  then have nf: "mapped_file (p_vma (procs s ?p) v) = None" using ok vl unfolding vmas_ok_def Let_def by blast
  have "memory_mapping v ?p t = Inl (Undefined ''mapped_file'')"
    using mem nf by (simp add: memory_mapping_def kalloc_def t zero_page_def Let_def)
  then have f: "usertrap_fault h t = Inl (Undefined ''mapped_file'')" using v t by (simp add: usertrap_fault_def)
  have d: "devintr h t = Inr (0, t)" using h(2) by (auto simp: devintr_def Let_def)
  have ns: "hw_scause h \<noteq> 8" using h(2) by auto
  show ?thesis using h(1,2) ns d f by (simp add: usertrap_def t_def [symmetric] Let_def)
qed

lemma low_fault_undefined_witness:
  "usertrap 0 0 \<lparr>hw_spp = False, hw_sie = False, hw_sepc = 0, hw_scause = 15, hw_stval = 0x5000, hw_irq = 0, hw_hart = 0, hw_satp = 0\<rparr>
     (zero_o\<lparr>freelist := 0x80100000\<rparr>) = Inl (Undefined ''mapped_file'')"
  by (rule low_fault_undefined [where i = 0])
    (simp_all add: vmas_ok_def zero_o_def zero_proc_def zero_vma_def VMASIZE_def PGSIZE_def)

end
