(* ===== verification/Virtio.thy ===== *)
theory Virtio
  imports Ring
begin

text \<open>
  The disk driver (\<^verbatim>\<open>kernel/virtio_disk.c\<close>): the table of descriptors, the two queues it shares with the device, the
  processes inside \<^verbatim>\<open>virtio_disk_rw\<close> and the interrupt handler.

  A critical section under \<^verbatim>\<open>vdisk_lock\<close>, from \<^verbatim>\<open>acquire\<close> or the return of \<^verbatim>\<open>sleep\<close> to \<^verbatim>\<open>release\<close> or the next
  \<^verbatim>\<open>sleep\<close>, is one step of a process; the fence before \<^verbatim>\<open>avail->idx += 1\<close> makes the request whole before the device
  can see it. A pointer handed to the device is a value of \<open>vaddr\<close>. The device is not code of this repository: the step
  relation takes its behaviour as a parameter, and \<open>device_step\<close> says what the virtio specification promises.
\<close>

section \<open>Registers and shared structures (virtio.h)\<close>

definition NUM :: nat where "NUM = 8"

definition VRING_DESC_F_NEXT :: u16 where "VRING_DESC_F_NEXT = 1"
definition VRING_DESC_F_WRITE :: u16 where "VRING_DESC_F_WRITE = 2"
definition VIRTIO_BLK_T_IN :: u32 where "VIRTIO_BLK_T_IN = 0"
definition VIRTIO_BLK_T_OUT :: u32 where "VIRTIO_BLK_T_OUT = 1"

text \<open>The addresses of \<^verbatim>\<open>disk.ops[i]\<close>, of the data of a buffer and of \<^verbatim>\<open>disk.info[i].status\<close>.\<close>

datatype vaddr = Null | AReq nat | AData nat | AStatus nat

record virtq_desc =
  d_addr :: vaddr
  d_len :: u32
  d_flags :: u16
  d_next :: u16

definition zero_desc :: virtq_desc where
  "zero_desc = \<lparr>d_addr = Null, d_len = 0, d_flags = 0, d_next = 0\<rparr>"

record virtio_blk_req =
  r_type :: u32
  r_reserved :: u32
  r_sector :: u64

text \<open>\<^verbatim>\<open>disk.info[i]\<close>\<close>

record disk_info =
  i_b :: "nat option"
  i_status :: u8

text \<open>The fields of \<^verbatim>\<open>struct buf\<close> that the driver uses.\<close>

record dbuf =
  bu_blockno :: u32
  bu_disk :: bool
  bu_data :: bytes

text \<open>
  Where a process is: outside \<^verbatim>\<open>virtio_disk_rw\<close>, asleep on \<^verbatim>\<open>disk.free[0]\<close>, woken from there, asleep on its buffer
  (the number is \<^verbatim>\<open>idx[0]\<close>), woken from there.
\<close>

datatype vpc =
    Outside
  | WaitDesc nat bool
  | Retry nat bool
  | WaitDisk nat bool nat
  | Check nat bool nat

text \<open>
  \<^verbatim>\<open>struct disk\<close> with the queues, the buffers and the processes; the registers by which driver and device signal each
  other; then the device: how far it has read the available ring, the requests it works on, and the medium.
\<close>

record vstate =
  v_desc :: "nat \<Rightarrow> virtq_desc"
  v_avail_ring :: "nat \<Rightarrow> u16"
  v_avail_idx :: u16
  v_used_ring :: "nat \<Rightarrow> u32"   \<comment> \<open>the ids; the driver does not read the lengths\<close>
  v_used_idx :: u16              \<comment> \<open>\<^verbatim>\<open>disk.used->idx\<close>, written by the device\<close>
  v_free :: "nat \<Rightarrow> bool"
  v_last :: u16                  \<comment> \<open>\<^verbatim>\<open>disk.used_idx\<close>, the driver's own\<close>
  v_info :: "nat \<Rightarrow> disk_info"
  v_ops :: "nat \<Rightarrow> virtio_blk_req"
  v_bufs :: "nat \<Rightarrow> dbuf"
  v_pc :: "nat \<Rightarrow> vpc"
  v_notify :: bool               \<comment> \<open>\<^verbatim>\<open>QUEUE_NOTIFY\<close> was written and the device has not looked since\<close>
  v_isr :: u32                   \<comment> \<open>\<^verbatim>\<open>INTERRUPT_STATUS\<close>\<close>
  v_irq :: bool                  \<comment> \<open>an interrupt was raised and is not handled yet\<close>
  v_seen :: u16
  v_work :: "nat list"
  v_outcome :: "nat \<Rightarrow> u8 option" \<comment> \<open>the status of a request whose data has moved, until it is written\<close>
  v_medium :: bytes

section \<open>Descriptors\<close>

definition wakeup_free :: "vstate \<Rightarrow> vstate" where
  "wakeup_free s = s\<lparr>v_pc := (\<lambda>p. case v_pc s p of WaitDesc b w \<Rightarrow> Retry b w | c \<Rightarrow> c)\<rparr>"

definition wakeup_buf :: "nat \<Rightarrow> vstate \<Rightarrow> vstate" where
  "wakeup_buf b s = s\<lparr>v_pc := (\<lambda>p. case v_pc s p of WaitDisk b' w i \<Rightarrow> (if b' = b then Check b' w i else WaitDisk b' w i) | c \<Rightarrow> c)\<rparr>"

definition alloc_desc :: "vstate \<Rightarrow> nat option \<times> vstate" where
  "alloc_desc s = (case first_index (v_free s) NUM of
     Some i \<Rightarrow> (Some i, s\<lparr>v_free := (v_free s)(i := False)\<rparr>)
   | None \<Rightarrow> (None, s))"

definition free_desc :: "nat \<Rightarrow> vstate \<Rightarrow> (unit, vstate) res" where
  "free_desc i s =
     (if i \<ge> NUM then Inl (Panic ''free_desc 1'')
      else if v_free s i then Inl (Panic ''free_desc 2'')
      else Inr ((), wakeup_free (s\<lparr>v_desc := (v_desc s)(i := zero_desc), v_free := (v_free s)(i := True)\<rparr>)))"

text \<open>A chain of more than \<open>NUM\<close> descriptors would be freed twice somewhere, which panics.\<close>

definition free_chain_step :: "nat \<Rightarrow> vstate \<Rightarrow> ((nat, unit) ctl, vstate) res" where
  "free_chain_step i s = (let flag = d_flags (v_desc s i); nxt = unat (d_next (v_desc s i)) in
     andthen (free_desc i s) (\<lambda>_ s. Inr (if flag AND VRING_DESC_F_NEXT \<noteq> 0 then Next nxt else Ret (), s)))"

definition free_chain :: "nat \<Rightarrow> vstate \<Rightarrow> (unit, vstate) res" where
  "free_chain i s = loop (Suc NUM) free_chain_step i s"

primrec free_descs :: "nat list \<Rightarrow> vstate \<Rightarrow> (unit, vstate) res" where
  "free_descs [] s = Inr ((), s)"
| "free_descs (i # is) s = andthen (free_desc i s) (\<lambda>_. free_descs is)"

fun alloc3_loop :: "nat \<Rightarrow> nat list \<Rightarrow> vstate \<Rightarrow> (nat list option, vstate) res" where
  "alloc3_loop 0 idx s = Inr (Some idx, s)"
| "alloc3_loop (Suc n) idx s = (case alloc_desc s of
     (Some i, s) \<Rightarrow> alloc3_loop n (idx @ [i]) s
   | (None, s) \<Rightarrow> andthen (free_descs idx s) (\<lambda>_ s. Inr (None, s)))"

definition alloc3_desc :: "vstate \<Rightarrow> (nat list option, vstate) res" where
  "alloc3_desc s = alloc3_loop 3 [] s"

section \<open>Requests\<close>

definition set_desc :: "nat \<Rightarrow> virtq_desc \<Rightarrow> vstate \<Rightarrow> vstate" where
  "set_desc i d s = s\<lparr>v_desc := (v_desc s)(i := d)\<rparr>"

definition set_vpc :: "nat \<Rightarrow> vpc \<Rightarrow> vstate \<Rightarrow> vstate" where
  "set_vpc p c s = s\<lparr>v_pc := (v_pc s)(p := c)\<rparr>"

text \<open>\<^verbatim>\<open>uint64 sector = b->blockno * (BSIZE / 512)\<close>: the product is a 32-bit one.\<close>

definition sector_of :: "u32 \<Rightarrow> u64" where
  "sector_of blockno = ucast (blockno * 2)"

definition format_req :: "nat \<Rightarrow> bool \<Rightarrow> nat \<Rightarrow> nat \<Rightarrow> nat \<Rightarrow> vstate \<Rightarrow> vstate" where
  "format_req b write i0 i1 i2 s = (let
     s = s\<lparr>v_ops := (v_ops s)(i0 := \<lparr>r_type = (if write then VIRTIO_BLK_T_OUT else VIRTIO_BLK_T_IN),
       r_reserved = 0, r_sector = sector_of (bu_blockno (v_bufs s b))\<rparr>)\<rparr>;
     s = set_desc i0 \<lparr>d_addr = AReq i0, d_len = 16, d_flags = VRING_DESC_F_NEXT, d_next = of_nat i1\<rparr> s;
     s = set_desc i1 \<lparr>d_addr = AData b, d_len = 1024,
       d_flags = (if write then 0 else VRING_DESC_F_WRITE) OR VRING_DESC_F_NEXT, d_next = of_nat i2\<rparr> s;
     s = s\<lparr>v_info := (v_info s)(i0 := (v_info s i0)\<lparr>i_status := 0xff\<rparr>)\<rparr>
   in set_desc i2 \<lparr>d_addr = AStatus i0, d_len = 1, d_flags = VRING_DESC_F_WRITE, d_next = 0\<rparr> s)"

text \<open>The request is recorded for the interrupt handler and put on the available ring, and the device is told.\<close>

definition submit_req :: "nat \<Rightarrow> nat \<Rightarrow> vstate \<Rightarrow> vstate" where
  "submit_req b i0 s = s\<lparr>
     v_bufs := (v_bufs s)(b := (v_bufs s b)\<lparr>bu_disk := True\<rparr>),
     v_info := (v_info s)(i0 := (v_info s i0)\<lparr>i_b := Some b\<rparr>),
     v_avail_ring := ring_put NUM (of_nat i0) (v_avail_ring s) (v_avail_idx s),
     v_avail_idx := v_avail_idx s + 1,
     v_notify := True\<rparr>"

text \<open>From \<^verbatim>\<open>alloc3_desc\<close> to one of the two calls of \<^verbatim>\<open>sleep\<close>.\<close>

definition rw_alloc :: "nat \<Rightarrow> nat \<Rightarrow> bool \<Rightarrow> vstate \<Rightarrow> (unit, vstate) res" where
  "rw_alloc p b write s = andthen (alloc3_desc s) (\<lambda>r s. case r of
     Some [i0, i1, i2] \<Rightarrow> Inr ((), set_vpc p (WaitDisk b write i0) (submit_req b i0 (format_req b write i0 i1 i2 s)))
   | _ \<Rightarrow> Inr ((), set_vpc p (WaitDesc b write) s))"

text \<open>The end of \<^verbatim>\<open>virtio_disk_rw\<close>, from a return of the second \<^verbatim>\<open>sleep\<close>.\<close>

definition rw_finish :: "nat \<Rightarrow> nat \<Rightarrow> bool \<Rightarrow> nat \<Rightarrow> vstate \<Rightarrow> (unit, vstate) res" where
  "rw_finish p b write i0 s =
     (if bu_disk (v_bufs s b) then Inr ((), set_vpc p (WaitDisk b write i0) s)
      else andthen (free_chain i0 (s\<lparr>v_info := (v_info s)(i0 := (v_info s i0)\<lparr>i_b := None\<rparr>)\<rparr>))
        (\<lambda>_ s. Inr ((), set_vpc p Outside s)))"

section \<open>The interrupt handler\<close>

definition intr_step :: "unit \<Rightarrow> vstate \<Rightarrow> ((unit, unit) ctl, vstate) res" where
  "intr_step u s =
     (if v_last s = v_used_idx s then Inr (Ret (), s)
      else let id = unat (ring_get NUM (v_used_ring s) (v_last s)) in
        if id \<ge> NUM then Inl (Undefined ''info[id]'')
        else if i_status (v_info s id) \<noteq> 0 then Inl (Panic ''virtio_disk_intr status'')
        else case i_b (v_info s id) of
          None \<Rightarrow> Inl (Undefined ''b->disk'')
        | Some b \<Rightarrow> Inr (Next (), (wakeup_buf b (s\<lparr>v_bufs := (v_bufs s)(b := (v_bufs s b)\<lparr>bu_disk := False\<rparr>)\<rparr>))
            \<lparr>v_last := v_last s + 1\<rparr>))"

text \<open>\<^verbatim>\<open>*R(VIRTIO_MMIO_INTERRUPT_ACK) = v\<close> clears the bits of \<open>v\<close> in the interrupt status.\<close>

definition write_ack :: "u32 \<Rightarrow> vstate \<Rightarrow> vstate" where
  "write_ack v s = s\<lparr>v_isr := v_isr s AND NOT v\<rparr>"

definition virtio_disk_intr :: "vstate \<Rightarrow> (unit, vstate) res" where
  "virtio_disk_intr s = (let s = write_ack (v_isr s AND 3) s in
     loop (Suc (unat (v_used_idx s - v_last s))) intr_step () s)"

section \<open>Initialisation\<close>

text \<open>
  \<^verbatim>\<open>rd r\<close> is what a read of a register returns and \<^verbatim>\<open>after st\<close> what the status register reads after \<open>st\<close> was written to
  it; \<open>pages\<close> are the results of the three calls of \<^verbatim>\<open>kalloc\<close>. The result has the register writes in order.
\<close>

definition VIRTIO_MMIO_MAGIC_VALUE :: u32 where "VIRTIO_MMIO_MAGIC_VALUE = 0x000"
definition VIRTIO_MMIO_VERSION :: u32 where "VIRTIO_MMIO_VERSION = 0x004"
definition VIRTIO_MMIO_DEVICE_ID :: u32 where "VIRTIO_MMIO_DEVICE_ID = 0x008"
definition VIRTIO_MMIO_VENDOR_ID :: u32 where "VIRTIO_MMIO_VENDOR_ID = 0x00c"
definition VIRTIO_MMIO_DEVICE_FEATURES :: u32 where "VIRTIO_MMIO_DEVICE_FEATURES = 0x010"
definition VIRTIO_MMIO_DRIVER_FEATURES :: u32 where "VIRTIO_MMIO_DRIVER_FEATURES = 0x020"
definition VIRTIO_MMIO_QUEUE_SEL :: u32 where "VIRTIO_MMIO_QUEUE_SEL = 0x030"
definition VIRTIO_MMIO_QUEUE_NUM_MAX :: u32 where "VIRTIO_MMIO_QUEUE_NUM_MAX = 0x034"
definition VIRTIO_MMIO_QUEUE_NUM :: u32 where "VIRTIO_MMIO_QUEUE_NUM = 0x038"
definition VIRTIO_MMIO_QUEUE_READY :: u32 where "VIRTIO_MMIO_QUEUE_READY = 0x044"
definition VIRTIO_MMIO_STATUS :: u32 where "VIRTIO_MMIO_STATUS = 0x070"
definition VIRTIO_MMIO_QUEUE_DESC_LOW :: u32 where "VIRTIO_MMIO_QUEUE_DESC_LOW = 0x080"
definition VIRTIO_MMIO_QUEUE_DESC_HIGH :: u32 where "VIRTIO_MMIO_QUEUE_DESC_HIGH = 0x084"
definition VIRTIO_MMIO_DRIVER_DESC_LOW :: u32 where "VIRTIO_MMIO_DRIVER_DESC_LOW = 0x090"
definition VIRTIO_MMIO_DRIVER_DESC_HIGH :: u32 where "VIRTIO_MMIO_DRIVER_DESC_HIGH = 0x094"
definition VIRTIO_MMIO_DEVICE_DESC_LOW :: u32 where "VIRTIO_MMIO_DEVICE_DESC_LOW = 0x0a0"
definition VIRTIO_MMIO_DEVICE_DESC_HIGH :: u32 where "VIRTIO_MMIO_DEVICE_DESC_HIGH = 0x0a4"
definition VIRTIO_CONFIG_S_ACKNOWLEDGE :: u32 where "VIRTIO_CONFIG_S_ACKNOWLEDGE = 1"
definition VIRTIO_CONFIG_S_DRIVER :: u32 where "VIRTIO_CONFIG_S_DRIVER = 2"
definition VIRTIO_CONFIG_S_DRIVER_OK :: u32 where "VIRTIO_CONFIG_S_DRIVER_OK = 4"
definition VIRTIO_CONFIG_S_FEATURES_OK :: u32 where "VIRTIO_CONFIG_S_FEATURES_OK = 8"

text \<open>
  The features turned off: \<^verbatim>\<open>VIRTIO_BLK_F_RO\<close>, \<^verbatim>\<open>_SCSI\<close>, \<^verbatim>\<open>_CONFIG_WCE\<close>, \<^verbatim>\<open>_MQ\<close>, \<^verbatim>\<open>ANY_LAYOUT\<close>, \<^verbatim>\<open>EVENT_IDX\<close> and
  \<^verbatim>\<open>INDIRECT_DESC\<close>.
\<close>

definition features_off :: "nat list" where
  "features_off = [5, 7, 11, 12, 27, 29, 28]"

definition negotiate :: "u64 \<Rightarrow> u64" where
  "negotiate features = fold (\<lambda>n f. f AND NOT (push_bit n 1)) features_off features"

definition virtio_disk_init ::
  "(u32 \<Rightarrow> u32) \<Rightarrow> (u32 \<Rightarrow> u32) \<Rightarrow> u64 \<times> u64 \<times> u64 \<Rightarrow> vstate \<Rightarrow> ((u32 \<times> u32) list, vstate) res" where
  "virtio_disk_init rd after pages s = (case pages of (pd, pa, pu) \<Rightarrow> let
     st1 = VIRTIO_CONFIG_S_ACKNOWLEDGE;
     st2 = st1 OR VIRTIO_CONFIG_S_DRIVER;
     features = negotiate (ucast (rd VIRTIO_MMIO_DEVICE_FEATURES));
     st3 = st2 OR VIRTIO_CONFIG_S_FEATURES_OK;
     status = after st3
   in
     if rd VIRTIO_MMIO_MAGIC_VALUE \<noteq> 0x74726976 \<or> rd VIRTIO_MMIO_VERSION \<noteq> 2 \<or> rd VIRTIO_MMIO_DEVICE_ID \<noteq> 2
       \<or> rd VIRTIO_MMIO_VENDOR_ID \<noteq> 0x554d4551 then Inl (Panic ''could not find virtio disk'')
     else if status AND VIRTIO_CONFIG_S_FEATURES_OK = 0 then Inl (Panic ''virtio disk FEATURES_OK unset'')
     else if rd VIRTIO_MMIO_QUEUE_READY \<noteq> 0 then Inl (Panic ''virtio disk should not be ready'')
     else if rd VIRTIO_MMIO_QUEUE_NUM_MAX = 0 then Inl (Panic ''virtio disk has no queue 0'')
     else if rd VIRTIO_MMIO_QUEUE_NUM_MAX < of_nat NUM then Inl (Panic ''virtio disk max queue too short'')
     else if pd = 0 \<or> pa = 0 \<or> pu = 0 then Inl (Panic ''virtio disk kalloc'')
     else Inr (
       [(VIRTIO_MMIO_STATUS, 0), (VIRTIO_MMIO_STATUS, st1), (VIRTIO_MMIO_STATUS, st2),
        (VIRTIO_MMIO_DRIVER_FEATURES, ucast features), (VIRTIO_MMIO_STATUS, st3),
        (VIRTIO_MMIO_QUEUE_SEL, 0), (VIRTIO_MMIO_QUEUE_NUM, of_nat NUM),
        (VIRTIO_MMIO_QUEUE_DESC_LOW, ucast pd), (VIRTIO_MMIO_QUEUE_DESC_HIGH, ucast (drop_bit 32 pd)),
        (VIRTIO_MMIO_DRIVER_DESC_LOW, ucast pa), (VIRTIO_MMIO_DRIVER_DESC_HIGH, ucast (drop_bit 32 pa)),
        (VIRTIO_MMIO_DEVICE_DESC_LOW, ucast pu), (VIRTIO_MMIO_DEVICE_DESC_HIGH, ucast (drop_bit 32 pu)),
        (VIRTIO_MMIO_QUEUE_READY, 1), (VIRTIO_MMIO_STATUS, status OR VIRTIO_CONFIG_S_DRIVER_OK)],
       s\<lparr>v_desc := (\<lambda>_. zero_desc), v_avail_ring := (\<lambda>_. 0), v_avail_idx := 0, v_used_ring := (\<lambda>_. 0), v_used_idx := 0,
         v_free := (\<lambda>i. if i < NUM then True else v_free s i)\<rparr>))"

text \<open>The state before it: the zeros of the program's static data, no process inside, an idle device.\<close>

definition boot_disk :: "(nat \<Rightarrow> dbuf) \<Rightarrow> bytes \<Rightarrow> vstate" where
  "boot_disk bs m = \<lparr>v_desc = (\<lambda>_. zero_desc), v_avail_ring = (\<lambda>_. 0), v_avail_idx = 0, v_used_ring = (\<lambda>_. 0), v_used_idx = 0,
     v_free = (\<lambda>_. False), v_last = 0, v_info = (\<lambda>_. \<lparr>i_b = None, i_status = 0\<rparr>),
     v_ops = (\<lambda>_. \<lparr>r_type = 0, r_reserved = 0, r_sector = 0\<rparr>), v_bufs = bs, v_pc = (\<lambda>_. Outside),
     v_notify = False, v_isr = 0, v_irq = False, v_seen = 0, v_work = [], v_outcome = (\<lambda>_. None), v_medium = m\<rparr>"

section \<open>The device\<close>

text \<open>
  What the virtio specification promises (version 1.1, sections 2.6, 4.2 and 5.2): the device takes the entries of the
  available ring in order, works on the requests it has taken in any order, and for each reads its chain of three
  descriptors, moves the bytes, writes the status and adds the head of the chain to the used ring. The status is 0, or
  1 or 2 if the request failed; then the bytes it was to move have any value. The device may look at the available ring
  whenever it likes, and it forgets a notification only when it has taken all there is. After it has added to the used
  ring it sets bit 0 of the interrupt status, and it raises an interrupt if that bit was clear. The medium is addressed
  in bytes, 512 to a sector; that the bytes of one request move in one step is an assumption on the device, since the
  specification does not say what two requests under way for one sector do. With a chain of another form the device
  may do anything.
\<close>

definition next_desc :: "vstate \<Rightarrow> nat \<Rightarrow> nat" where
  "next_desc s i = unat (d_next (v_desc s i))"

definition dev_fetch :: "vstate \<Rightarrow> vstate" where
  "dev_fetch s = s\<lparr>v_work := v_work s @ [unat (ring_get NUM (v_avail_ring s) (v_seen s))], v_seen := v_seen s + 1\<rparr>"

definition chain_ok :: "vstate \<Rightarrow> nat \<Rightarrow> bool" where
  "chain_ok s h \<longleftrightarrow> (let d0 = v_desc s h; d1 = v_desc s (next_desc s h); d2 = v_desc s (next_desc s (next_desc s h)) in
     (case (d_addr d0, d_addr d1, d_addr d2) of
        (AReq k, AData b, AStatus j) \<Rightarrow>
          r_type (v_ops s k) \<in> {VIRTIO_BLK_T_IN, VIRTIO_BLK_T_OUT}
          \<and> d_flags d1 = (if r_type (v_ops s k) = VIRTIO_BLK_T_IN then VRING_DESC_F_WRITE else 0) OR VRING_DESC_F_NEXT
      | _ \<Rightarrow> False)
     \<and> d_len d0 = 16 \<and> d_flags d0 = VRING_DESC_F_NEXT \<and> d_len d2 = 1 \<and> d_flags d2 = VRING_DESC_F_WRITE)"

text \<open>The bytes moved by a request: into the medium or into the buffer.\<close>

definition dev_move :: "virtio_blk_req \<Rightarrow> nat \<Rightarrow> nat \<Rightarrow> vstate \<Rightarrow> vstate" where
  "dev_move r b n s = (let off = 512 * unat (r_sector r) in
     if r_type r = VIRTIO_BLK_T_OUT then s\<lparr>v_medium := blit (v_medium s) off (bu_data (v_bufs s b)) 0 n\<rparr>
     else s\<lparr>v_bufs := (v_bufs s)(b := (v_bufs s b)\<lparr>bu_data := blit (bu_data (v_bufs s b)) 0 (v_medium s) off n\<rparr>)\<rparr>)"

text \<open>A failed request: the bytes it was to write are those of \<open>d\<close>.\<close>

definition dev_damage :: "virtio_blk_req \<Rightarrow> nat \<Rightarrow> nat \<Rightarrow> bytes \<Rightarrow> vstate \<Rightarrow> vstate" where
  "dev_damage r b n d s = (let off = 512 * unat (r_sector r) in
     if r_type r = VIRTIO_BLK_T_OUT then s\<lparr>v_medium := blit (v_medium s) off d 0 n\<rparr>
     else s\<lparr>v_bufs := (v_bufs s)(b := (v_bufs s b)\<lparr>bu_data := blit (bu_data (v_bufs s b)) 0 d 0 n\<rparr>)\<rparr>)"

definition dev_perform :: "nat \<Rightarrow> u8 \<Rightarrow> bytes \<Rightarrow> vstate \<Rightarrow> vstate" where
  "dev_perform h st d s = (case (d_addr (v_desc s h), d_addr (v_desc s (next_desc s h))) of
     (AReq k, AData b) \<Rightarrow> (let n = unat (d_len (v_desc s (next_desc s h)));
         s' = (if st = 0 then dev_move (v_ops s k) b n s else dev_damage (v_ops s k) b n d s)
       in s'\<lparr>v_outcome := (v_outcome s')(h := Some st)\<rparr>)
   | _ \<Rightarrow> s)"

definition dev_complete :: "nat \<Rightarrow> u8 \<Rightarrow> vstate \<Rightarrow> vstate" where
  "dev_complete h st s = (case d_addr (v_desc s (next_desc s (next_desc s h))) of
     AStatus j \<Rightarrow>
       s\<lparr>v_info := (v_info s)(j := (v_info s j)\<lparr>i_status := st\<rparr>),
         v_outcome := (v_outcome s)(h := None),
         v_work := remove1 h (v_work s),
         v_used_ring := ring_put NUM (of_nat h) (v_used_ring s) (v_used_idx s),
         v_used_idx := v_used_idx s + 1,
         v_irq := (v_irq s \<or> v_isr s AND 1 = 0),
         v_isr := v_isr s OR 1\<rparr>
   | _ \<Rightarrow> s)"

definition device_step :: "vstate \<Rightarrow> vstate \<Rightarrow> bool" where
  "device_step s s' \<longleftrightarrow> v_seen s \<noteq> v_avail_idx s \<and> s' = dev_fetch s
     \<or> v_seen s = v_avail_idx s \<and> s' = s\<lparr>v_notify := False\<rparr>
     \<or> (\<exists>h\<in>set (v_work s). v_outcome s h = None \<and> (chain_ok s h \<longrightarrow> (\<exists>st d. st \<in> {0, 1, 2} \<and> s' = dev_perform h st d s)))
     \<or> (\<exists>h\<in>set (v_work s). \<exists>st. v_outcome s h = Some st \<and> (chain_ok s h \<longrightarrow> s' = dev_complete h st s))"

section \<open>Steps\<close>

text \<open>The buffer a process works on.\<close>

fun using_buf :: "vpc \<Rightarrow> nat option" where
  "using_buf Outside = None"
| "using_buf (WaitDesc b w) = Some b"
| "using_buf (Retry b w) = Some b"
| "using_buf (WaitDisk b w i) = Some b"
| "using_buf (Check b w i) = Some b"

definition unused_buf :: "nat \<Rightarrow> vstate \<Rightarrow> bool" where
  "unused_buf b s \<longleftrightarrow> (\<forall>p. using_buf (v_pc s p) \<noteq> Some b)"

text \<open>
  A process calls \<^verbatim>\<open>virtio_disk_rw\<close> on a buffer whose sleep lock it holds, so no other process is inside with that buffer;
  while none is, the buffer may be given another block and other contents. Taking an interrupt (the claim of \<^verbatim>\<open>plic.c\<close>)
  clears it before the handler runs.
\<close>

inductive vstep :: "(vstate \<Rightarrow> vstate \<Rightarrow> bool) \<Rightarrow> vstate \<Rightarrow> vstate \<Rightarrow> bool" for dev where
  call: "v_pc s p = Outside \<Longrightarrow> unused_buf b s \<Longrightarrow> rw_alloc p b w s = Inr ((), s') \<Longrightarrow> vstep dev s s'"
| retry: "v_pc s p = Retry b w \<Longrightarrow> rw_alloc p b w s = Inr ((), s') \<Longrightarrow> vstep dev s s'"
| resume: "v_pc s p = Check b w i \<Longrightarrow> rw_finish p b w i s = Inr ((), s') \<Longrightarrow> vstep dev s s'"
| interrupt: "virtio_disk_intr (s\<lparr>v_irq := False\<rparr>) = Inr ((), s') \<Longrightarrow> vstep dev s s'"
| device: "dev s s' \<Longrightarrow> vstep dev s s'"
| reuse: "unused_buf b s \<Longrightarrow> unat n < 2 ^ 31 \<Longrightarrow>
    vstep dev s (s\<lparr>v_bufs := (v_bufs s)(b := (v_bufs s b)\<lparr>bu_blockno := n, bu_data := d\<rparr>)\<rparr>)"

inductive vreach :: "(vstate \<Rightarrow> vstate \<Rightarrow> bool) \<Rightarrow> vstate \<Rightarrow> vstate \<Rightarrow> bool" for dev s0 where
  vreach_init: "vreach dev s0 s0"
| vreach_step: "vreach dev s0 s \<Longrightarrow> vstep dev s s' \<Longrightarrow> vreach dev s0 s'"

end
