(* ===== verification/Virtioprop.thy ===== *)
theory Virtioprop
  imports Virtio
begin

text \<open>
  Properties of the disk driver. The invariant says that the descriptors in use are exactly the chains of the requests
  of the processes inside \<^verbatim>\<open>virtio_disk_rw\<close>, that the queues hold exactly the requests that are under way, each once,
  and that nobody sleeps whose wake-up has passed. From it: no step of the driver panics, and the driver together with
  the device refines a disk that serves each request in one atomic transfer.
\<close>

lemma NUM_eq [simp]: "NUM = 8" by (simp add: NUM_def)

section \<open>The specification: an atomic disk\<close>

datatype aphase = Absent | Pending nat bool | Served nat bool | Failed nat bool

record adisk =
  a_medium :: bytes
  a_block :: "nat \<Rightarrow> u32"
  a_data :: "nat \<Rightarrow> bytes"
  a_phase :: "nat \<Rightarrow> aphase"

text \<open>One block moves: from the buffer to its place on the medium, or back.\<close>

definition transfer :: "nat \<Rightarrow> bool \<Rightarrow> adisk \<Rightarrow> adisk" where
  "transfer b w a = (let off = 1024 * unat (a_block a b) in
     if w then a\<lparr>a_medium := blit (a_medium a) off (a_data a b) 0 1024\<rparr>
     else a\<lparr>a_data := (a_data a)(b := blit (a_data a b) 0 (a_medium a) off 1024)\<rparr>)"

text \<open>A request the disk fails leaves other bytes in the place it was to write.\<close>

definition damage :: "nat \<Rightarrow> bool \<Rightarrow> bytes \<Rightarrow> adisk \<Rightarrow> adisk" where
  "damage b w d a = (if w then a\<lparr>a_medium := blit (a_medium a) (1024 * unat (a_block a b)) d 0 1024\<rparr>
     else a\<lparr>a_data := (a_data a)(b := blit (a_data a b) 0 d 0 1024)\<rparr>)"

fun phase_buf :: "aphase \<Rightarrow> nat option" where
  "phase_buf Absent = None"
| "phase_buf (Pending b w) = Some b"
| "phase_buf (Served b w) = Some b"
| "phase_buf (Failed b w) = Some b"

definition set_phase :: "nat \<Rightarrow> aphase \<Rightarrow> adisk \<Rightarrow> adisk" where
  "set_phase p x a = a\<lparr>a_phase := (a_phase a)(p := x)\<rparr>"

text \<open>A failed request never returns.\<close>

inductive astep :: "adisk \<Rightarrow> adisk \<Rightarrow> bool" where
  a_call: "a_phase a p = Absent \<Longrightarrow> \<forall>q. phase_buf (a_phase a q) \<noteq> Some b \<Longrightarrow> astep a (set_phase p (Pending b w) a)"
| a_serve: "a_phase a p = Pending b w \<Longrightarrow> astep a (set_phase p (Served b w) (transfer b w a))"
| a_fail: "a_phase a p = Pending b w \<Longrightarrow> astep a (set_phase p (Failed b w) (damage b w d a))"
| a_return: "a_phase a p = Served b w \<Longrightarrow> astep a (set_phase p Absent a)"
| a_reuse: "\<forall>q. phase_buf (a_phase a q) \<noteq> Some b \<Longrightarrow> astep a (a\<lparr>a_block := (a_block a)(b := n), a_data := (a_data a)(b := d)\<rparr>)"

text \<open>A request is served or failed once the device has moved its bytes, also before it has written the status.\<close>

definition reply :: "vstate \<Rightarrow> nat \<Rightarrow> u8" where
  "reply s i = (case v_outcome s i of Some st \<Rightarrow> st | None \<Rightarrow> i_status (v_info s i))"

definition phase_by :: "u8 \<Rightarrow> nat \<Rightarrow> bool \<Rightarrow> aphase" where
  "phase_by st b w = (if st = 0 then Served b w else if st = 0xff then Pending b w else Failed b w)"

definition phase_of :: "vstate \<Rightarrow> vpc \<Rightarrow> aphase" where
  "phase_of s c = (case c of Outside \<Rightarrow> Absent | WaitDesc b w \<Rightarrow> Pending b w | Retry b w \<Rightarrow> Pending b w
     | WaitDisk b w i \<Rightarrow> phase_by (reply s i) b w
     | Check b w i \<Rightarrow> phase_by (reply s i) b w)"

lemma phase_of_simps [simp]:
  "phase_of s Outside = Absent" "phase_of s (WaitDesc b w) = Pending b w" "phase_of s (Retry b w) = Pending b w"
  by (simp_all add: phase_of_def)

definition disk_abs :: "vstate \<Rightarrow> adisk" where
  "disk_abs s = \<lparr>a_medium = v_medium s, a_block = (\<lambda>b. bu_blockno (v_bufs s b)), a_data = (\<lambda>b. bu_data (v_bufs s b)),
     a_phase = (\<lambda>p. phase_of s (v_pc s p))\<rparr>"

section \<open>The invariant\<close>

fun request :: "vpc \<Rightarrow> (nat \<times> bool \<times> nat) option" where
  "request (WaitDisk b w i) = Some (b, w, i)"
| "request (Check b w i) = Some (b, w, i)"
| "request _ = None"

definition chain :: "vstate \<Rightarrow> nat \<Rightarrow> nat list" where
  "chain s i = [i, next_desc s i, next_desc s (next_desc s i)]"

lemma phase_of_reply:
  "(\<And>b w i. request c = Some (b, w, i) \<Longrightarrow> reply s' i = reply s i) \<Longrightarrow> phase_of s' c = phase_of s c"
  by (cases c) (simp_all add: phase_of_def)

lemma phase_of_request: "request c = Some (b, w, i) \<Longrightarrow> phase_of s c = phase_by (reply s i) b w"
  by (cases c) (auto simp: phase_of_def)

lemma reply_cong: "v_outcome s' i = v_outcome s i \<Longrightarrow> i_status (v_info s' i) = i_status (v_info s i) \<Longrightarrow> reply s' i = reply s i"
  by (simp add: reply_def split: option.split)

text \<open>The chain of a request is as \<open>format_req\<close> made it.\<close>

definition formatted :: "vstate \<Rightarrow> nat \<Rightarrow> bool \<Rightarrow> nat \<Rightarrow> nat \<Rightarrow> nat \<Rightarrow> bool" where
  "formatted s b w i j k \<longleftrightarrow> distinct [i, j, k] \<and> (\<forall>d\<in>{i, j, k}. d < 8 \<and> \<not> v_free s d)
     \<and> v_desc s i = \<lparr>d_addr = AReq i, d_len = 16, d_flags = VRING_DESC_F_NEXT, d_next = of_nat j\<rparr>
     \<and> v_desc s j = \<lparr>d_addr = AData b, d_len = 1024, d_flags = (if w then 0 else VRING_DESC_F_WRITE) OR VRING_DESC_F_NEXT, d_next = of_nat k\<rparr>
     \<and> v_desc s k = \<lparr>d_addr = AStatus i, d_len = 1, d_flags = VRING_DESC_F_WRITE, d_next = 0\<rparr>
     \<and> v_ops s i = \<lparr>r_type = (if w then VIRTIO_BLK_T_OUT else VIRTIO_BLK_T_IN), r_reserved = 0, r_sector = sector_of (bu_blockno (v_bufs s b))\<rparr>
     \<and> i_b (v_info s i) = Some b"

definition reqs_ok :: "vstate \<Rightarrow> bool" where
  "reqs_ok s \<longleftrightarrow>
     (\<forall>p b w i. request (v_pc s p) = Some (b, w, i) \<longrightarrow> formatted s b w i (next_desc s i) (next_desc s (next_desc s i)))
     \<and> (\<forall>p q b w i b' w' i'. request (v_pc s p) = Some (b, w, i) \<longrightarrow> request (v_pc s q) = Some (b', w', i') \<longrightarrow> p \<noteq> q
          \<longrightarrow> set (chain s i) \<inter> set (chain s i') = {})
     \<and> (\<forall>d<8. \<not> v_free s d \<longrightarrow> (\<exists>p b w i. request (v_pc s p) = Some (b, w, i) \<and> d \<in> set (chain s i)))"

definition bufs_ok :: "vstate \<Rightarrow> bool" where
  "bufs_ok s \<longleftrightarrow>
     (\<forall>p q b. using_buf (v_pc s p) = Some b \<longrightarrow> using_buf (v_pc s q) = Some b \<longrightarrow> p = q)
     \<and> (\<forall>b. bu_disk (v_bufs s b) \<longrightarrow> (\<exists>p w i. request (v_pc s p) = Some (b, w, i)))
     \<and> (\<forall>b. unat (bu_blockno (v_bufs s b)) < 2 ^ 31)"

text \<open>The three stages of a request under way: on the available ring, in the device, on the used ring.\<close>

definition offered :: "vstate \<Rightarrow> nat list" where
  "offered s = map unat (ring_items NUM (v_avail_ring s) (v_seen s) (v_avail_idx s))"

definition finished :: "vstate \<Rightarrow> nat list" where
  "finished s = map unat (ring_items NUM (v_used_ring s) (v_last s) (v_used_idx s))"

definition under_way :: "vstate \<Rightarrow> nat list" where
  "under_way s = offered s @ v_work s"

text \<open>A request whose process still waits for the device.\<close>

definition live :: "vstate \<Rightarrow> nat \<Rightarrow> bool" where
  "live s h \<longleftrightarrow> (\<exists>p b w. request (v_pc s p) = Some (b, w, h) \<and> bu_disk (v_bufs s b))"

definition queues_ok :: "vstate \<Rightarrow> bool" where
  "queues_ok s \<longleftrightarrow> distinct (under_way s @ finished s)
     \<and> (\<forall>h\<in>set (under_way s). live s h \<and> i_status (v_info s h) = 0xff)
     \<and> (\<forall>h\<in>set (finished s). live s h \<and> i_status (v_info s h) \<in> {0, 1, 2})
     \<and> (\<forall>p b w i. request (v_pc s p) = Some (b, w, i) \<longrightarrow>
          (if bu_disk (v_bufs s b) then i \<in> set (under_way s @ finished s) else i_status (v_info s i) = 0))
     \<and> (\<forall>h st. v_outcome s h = Some st \<longrightarrow> h \<in> set (v_work s) \<and> st \<in> {0, 1, 2})"

text \<open>What has been offered the device has been told of, and what it has finished it has raised an interrupt for.\<close>

definition signals_ok :: "vstate \<Rightarrow> bool" where
  "signals_ok s \<longleftrightarrow> (v_seen s \<noteq> v_avail_idx s \<longrightarrow> v_notify s) \<and> (v_isr s AND 1 \<noteq> 0 \<longrightarrow> v_irq s)
     \<and> (v_last s \<noteq> v_used_idx s \<longrightarrow> v_irq s)"

definition sleep_ok :: "vstate \<Rightarrow> bool" where
  "sleep_ok s \<longleftrightarrow> (\<forall>p b w i. v_pc s p = WaitDisk b w i \<longrightarrow> bu_disk (v_bufs s b))
     \<and> (\<forall>p b w. v_pc s p = WaitDesc b w \<longrightarrow> card {d. d < 8 \<and> v_free s d} < 3)"

definition vcore :: "vstate \<Rightarrow> bool" where
  "vcore s \<longleftrightarrow> reqs_ok s \<and> bufs_ok s \<and> queues_ok s \<and> sleep_ok s"

definition vinv :: "vstate \<Rightarrow> bool" where
  "vinv s \<longleftrightarrow> vcore s \<and> signals_ok s"

section \<open>Descriptors\<close>

lemma wakeup_free_fields [simp]:
  "v_desc (wakeup_free s) = v_desc s" "v_avail_ring (wakeup_free s) = v_avail_ring s" "v_avail_idx (wakeup_free s) = v_avail_idx s"
  "v_used_ring (wakeup_free s) = v_used_ring s" "v_used_idx (wakeup_free s) = v_used_idx s" "v_free (wakeup_free s) = v_free s"
  "v_last (wakeup_free s) = v_last s" "v_info (wakeup_free s) = v_info s" "v_ops (wakeup_free s) = v_ops s"
  "v_bufs (wakeup_free s) = v_bufs s" "v_seen (wakeup_free s) = v_seen s" "v_work (wakeup_free s) = v_work s"
  "v_medium (wakeup_free s) = v_medium s" "v_outcome (wakeup_free s) = v_outcome s" "v_notify (wakeup_free s) = v_notify s"
  "v_isr (wakeup_free s) = v_isr s" "v_irq (wakeup_free s) = v_irq s"
  by (simp_all add: wakeup_free_def)

lemma wakeup_free_pc [simp]:
  "request (v_pc (wakeup_free s) p) = request (v_pc s p)"
  "using_buf (v_pc (wakeup_free s) p) = using_buf (v_pc s p)"
  "phase_of t (v_pc (wakeup_free s) p) = phase_of t (v_pc s p)"
  "v_pc (wakeup_free s) p = WaitDisk b w i \<longleftrightarrow> v_pc s p = WaitDisk b w i"
  "v_pc (wakeup_free s) p \<noteq> WaitDesc b w"
  by (cases "v_pc s p"; simp add: wakeup_free_def phase_of_def)+

lemma wakeup_free_commute [simp]:
  "wakeup_free (wakeup_free s) = wakeup_free s"
  "(wakeup_free s)\<lparr>v_desc := x\<rparr> = wakeup_free (s\<lparr>v_desc := x\<rparr>)"
  "(wakeup_free s)\<lparr>v_free := y\<rparr> = wakeup_free (s\<lparr>v_free := y\<rparr>)"
  by (auto simp: wakeup_free_def intro!: vstate.equality ext split: vpc.splits)

text \<open>The state after some descriptors have been given back.\<close>

definition given_back :: "nat set \<Rightarrow> vstate \<Rightarrow> vstate" where
  "given_back D s = wakeup_free (s\<lparr>v_desc := (\<lambda>d. if d \<in> D then zero_desc else v_desc s d), v_free := (\<lambda>d. v_free s d \<or> d \<in> D)\<rparr>)"

lemma free_desc_eq: "i < 8 \<Longrightarrow> \<not> v_free s i \<Longrightarrow> free_desc i s = Inr ((), given_back {i} s)"
  by (auto simp: free_desc_def given_back_def fun_upd_def intro!: arg_cong [where f = wakeup_free] vstate.equality ext)

lemma given_back_given_back [simp]: "given_back D (given_back E s) = given_back (D \<union> E) s"
  by (auto simp: given_back_def intro!: arg_cong [where f = wakeup_free] vstate.equality ext)

lemma given_back_fields [simp]:
  "v_free (given_back D s) d \<longleftrightarrow> v_free s d \<or> d \<in> D"
  "v_desc (given_back D s) d = (if d \<in> D then zero_desc else v_desc s d)"
  by (simp_all add: given_back_def)

lemma free_descs_eq:
  "distinct is \<Longrightarrow> \<forall>i\<in>set is. i < 8 \<and> \<not> v_free s i \<Longrightarrow> is \<noteq> [] \<Longrightarrow> free_descs is s = Inr ((), given_back (set is) s)"
proof (induction "is" arbitrary: s)
  case Nil
  then show ?case by simp
next
  case (Cons i "is")
  show ?case
  proof (cases "is = []")
    case True
    then show ?thesis using Cons.prems by (simp add: free_desc_eq)
  next
    case False
    have "free_descs is (given_back {i} s) = Inr ((), given_back (set is) (given_back {i} s))"
      using Cons.prems False by (intro Cons.IH) auto
    then show ?thesis using Cons.prems by (simp add: free_desc_eq insert_commute)
  qed
qed

text \<open>Taking descriptors.\<close>

definition taken :: "nat set \<Rightarrow> vstate \<Rightarrow> vstate" where
  "taken D s = s\<lparr>v_free := (\<lambda>d. v_free s d \<and> d \<notin> D)\<rparr>"

text \<open>A failed allocation has woken the sleepers, and cleared descriptors that were free.\<close>

definition no_descs :: "vstate \<Rightarrow> vstate \<Rightarrow> bool" where
  "no_descs s s' \<longleftrightarrow> card {d. d < 8 \<and> v_free s d} < 3
     \<and> (s' = s \<or> (\<exists>D. (\<forall>d\<in>D. v_free s d) \<and> s' = wakeup_free (s\<lparr>v_desc := (\<lambda>d. if d \<in> D then zero_desc else v_desc s d)\<rparr>)))"

lemma alloc_desc_cases:
  obtains (None) "alloc_desc s = (None, s)" "\<forall>d<8. \<not> v_free s d"
  | (Some) i where "alloc_desc s = (Some i, taken {i} s)" "i < 8" "v_free s i"
proof (cases "first_index (v_free s) NUM")
  case None
  then have "\<forall>d<8. \<not> v_free s d" unfolding first_index_None_iff by simp
  moreover have "alloc_desc s = (None, s)" unfolding alloc_desc_def None by simp
  ultimately show ?thesis by (intro that(1))
next
  case (Some i)
  have "taken {i} s = s\<lparr>v_free := (v_free s)(i := False)\<rparr>" by (auto simp: taken_def fun_upd_def intro!: vstate.equality ext)
  then have "alloc_desc s = (Some i, taken {i} s)" unfolding alloc_desc_def Some by simp
  then show ?thesis using that(2) first_index_SomeD [OF Some] by simp
qed

lemma alloc3_loop_spec:
  assumes "distinct is" and "\<forall>i\<in>set is. i < 8 \<and> v_free s i" and "length is + n = 3"
  shows "(\<exists>js. alloc3_loop n is (taken (set is) s) = Inr (Some js, taken (set js) s) \<and> distinct js
        \<and> (\<forall>i\<in>set js. i < 8 \<and> v_free s i) \<and> length js = 3)
    \<or> (\<exists>s'. alloc3_loop n is (taken (set is) s) = Inr (None, s') \<and> no_descs s s')"
  using assms
proof (induction n arbitrary: "is")
  case 0
  then show ?case by auto
next
  case (Suc n)
  show ?case
  proof (cases rule: alloc_desc_cases [of "taken (set is) s"])
    case None
    have "{d. d < 8 \<and> v_free s d} = set is" using None(2) Suc.prems by (auto simp: taken_def)
    then have c: "card {d. d < 8 \<and> v_free s d} < 3" using Suc.prems by (simp add: distinct_card)
    show ?thesis
    proof (cases "is = []")
      case True
      then have "taken (set is) s = s" by (simp add: taken_def)
      then show ?thesis using None(1) True c by (auto simp: no_descs_def)
    next
      case False
      have "free_descs is (taken (set is) s) = Inr ((), given_back (set is) (taken (set is) s))"
        using Suc.prems False by (intro free_descs_eq) (auto simp: taken_def)
      moreover have "given_back (set is) (taken (set is) s)
          = wakeup_free (s\<lparr>v_desc := (\<lambda>d. if d \<in> set is then zero_desc else v_desc s d)\<rparr>)"
        using Suc.prems by (auto simp: given_back_def taken_def intro!: arg_cong [where f = wakeup_free] vstate.equality ext)
      ultimately show ?thesis using None(1) c Suc.prems by (auto simp: no_descs_def)
    qed
  next
    case (Some i)
    have t: "taken {i} (taken (set is) s) = taken (set (is @ [i])) s" by (auto simp: taken_def intro!: vstate.equality ext)
    have i: "i \<notin> set is" "v_free s i" using Some(3) by (simp_all add: taken_def)
    have "alloc3_loop (Suc n) is (taken (set is) s) = alloc3_loop n (is @ [i]) (taken (set (is @ [i])) s)"
      by (simp add: Some(1) t del: set_append)
    then show ?thesis using Suc.IH [of "is @ [i]"] Suc.prems Some(2) i by simp
  qed
qed

lemma alloc3_spec:
  obtains (Got) i0 i1 i2 where "alloc3_desc s = Inr (Some [i0, i1, i2], taken {i0, i1, i2} s)" "distinct [i0, i1, i2]"
      "\<forall>d\<in>{i0, i1, i2}. d < 8 \<and> v_free s d"
  | (Full) s' where "alloc3_desc s = Inr (None, s')" "no_descs s s'"
proof -
  have z: "taken {} s = s" by (simp add: taken_def)
  have "(\<exists>js. alloc3_loop 3 [] s = Inr (Some js, taken (set js) s) \<and> distinct js
        \<and> (\<forall>i\<in>set js. i < 8 \<and> v_free s i) \<and> length js = 3)
    \<or> (\<exists>s'. alloc3_loop 3 [] s = Inr (None, s') \<and> no_descs s s')"
    using alloc3_loop_spec [of "[]" s 3] by (simp add: z)
  then show ?thesis
  proof (elim disjE exE conjE)
    fix js
    assume js: "alloc3_loop 3 [] s = Inr (Some js, taken (set js) s)" "distinct js" "\<forall>i\<in>set js. i < 8 \<and> v_free s i" "length js = 3"
    obtain i0 i1 i2 where "js = [i0, i1, i2]" using js(4) by (auto simp: numeral_3_eq_3 length_Suc_conv)
    then show ?thesis using js that(1) by (auto simp: alloc3_desc_def)
  qed (use that(2) in \<open>auto simp: alloc3_desc_def\<close>)
qed

text \<open>Giving back the chain of a request.\<close>

lemma flag_next [simp]:
  "VRING_DESC_F_NEXT \<noteq> 0" "((if w then 0 else VRING_DESC_F_WRITE) OR VRING_DESC_F_NEXT) AND VRING_DESC_F_NEXT \<noteq> 0"
  "VRING_DESC_F_WRITE AND VRING_DESC_F_NEXT = 0"
  by (simp_all add: VRING_DESC_F_NEXT_def VRING_DESC_F_WRITE_def)

lemma unat_of_nat_8 [simp]: "j < 8 \<Longrightarrow> unat (of_nat j :: u16) = j" "j < 8 \<Longrightarrow> unat (of_nat j :: u32) = j"
  by (simp_all add: unat_of_nat)

lemma free_chain_eq:
  assumes "formatted s b w i j k"
  shows "free_chain i (s\<lparr>v_info := x\<rparr>) = Inr ((), given_back {i, j, k} (s\<lparr>v_info := x\<rparr>))"
proof -
  let ?s = "s\<lparr>v_info := x\<rparr>"
  note f = assms [unfolded formatted_def]
  have a: "free_chain_step i ?s = Inr (Next j, given_back {i} ?s)"
    using f by (simp add: free_chain_step_def free_desc_eq)
  have b: "free_chain_step j (given_back {i} ?s) = Inr (Next k, given_back {j, i} ?s)"
    using f by (simp add: free_chain_step_def free_desc_eq insert_commute)
  have c: "free_chain_step k (given_back {j, i} ?s) = Inr (Ret (), given_back {k, j, i} ?s)"
    using f by (simp add: free_chain_step_def free_desc_eq insert_commute)
  have "{k, j, i} = {i, j, k}" by blast
  then show ?thesis by (simp add: free_chain_def eval_nat_numeral a b c)
qed

section \<open>What a step leaves alone\<close>

lemma chain_set: "set (chain s i) = {i, next_desc s i, next_desc s (next_desc s i)}"
  by (simp add: chain_def)

lemma reqs_okD:
  assumes "reqs_ok s" and "request (v_pc s p) = Some (b, w, i)"
  shows "formatted s b w i (next_desc s i) (next_desc s (next_desc s i))" and "d \<in> set (chain s i) \<Longrightarrow> d < 8 \<and> \<not> v_free s d"
    and "i < 8" and "i_b (v_info s i) = Some b"
proof -
  show f: "formatted s b w i (next_desc s i) (next_desc s (next_desc s i))" using assms unfolding reqs_ok_def by blast
  show "d \<in> set (chain s i) \<Longrightarrow> d < 8 \<and> \<not> v_free s d" "i < 8" "i_b (v_info s i) = Some b"
    using f by (auto simp: formatted_def chain_set)
qed

text \<open>A request whose descriptors, header and buffer a step does not touch stays as it was.\<close>

definition untouched :: "vstate \<Rightarrow> vstate \<Rightarrow> nat \<Rightarrow> nat \<Rightarrow> bool" where
  "untouched s s' b i \<longleftrightarrow> (\<forall>d\<in>set (chain s i). v_desc s' d = v_desc s d \<and> \<not> v_free s' d) \<and> v_ops s' i = v_ops s i
     \<and> i_b (v_info s' i) = i_b (v_info s i) \<and> bu_blockno (v_bufs s' b) = bu_blockno (v_bufs s b)"

lemma untouchedD:
  assumes "untouched s s' b i"
  shows "next_desc s' i = next_desc s i" and "next_desc s' (next_desc s i) = next_desc s (next_desc s i)" and "chain s' i = chain s i"
    and "formatted s b w i (next_desc s i) (next_desc s (next_desc s i)) \<Longrightarrow> formatted s' b w i (next_desc s i) (next_desc s (next_desc s i))"
  using assms by (auto simp: untouched_def chain_def next_desc_def formatted_def)

lemma untouched_formatted:
  assumes "untouched s s' b i" and "formatted s b w i (next_desc s i) (next_desc s (next_desc s i))"
  shows "formatted s' b w i (next_desc s' i) (next_desc s' (next_desc s' i))"
  using untouchedD [OF assms(1)] assms(2) by simp

lemma reqs_ok_keep:
  assumes "reqs_ok s" and "\<And>q b w i. request (v_pc s' q) = Some (b, w, i) \<Longrightarrow> request (v_pc s q) = Some (b, w, i) \<and> untouched s s' b i"
    and "\<And>d. d < 8 \<Longrightarrow> \<not> v_free s' d \<Longrightarrow> \<exists>q b w i. request (v_pc s' q) = Some (b, w, i) \<and> d \<in> set (chain s i)"
  shows "reqs_ok s'"
  unfolding reqs_ok_def
proof (intro conjI allI impI)
  fix q b w i
  assume q: "request (v_pc s' q) = Some (b, w, i)"
  show "formatted s' b w i (next_desc s' i) (next_desc s' (next_desc s' i))"
    using reqs_okD(1) [OF assms(1)] assms(2) [OF q] untouched_formatted by blast
next
  fix q r b w i b' w' i'
  assume q: "request (v_pc s' q) = Some (b, w, i)" "request (v_pc s' r) = Some (b', w', i')" "q \<noteq> r"
  have "set (chain s i) \<inter> set (chain s i') = {}"
    using assms(1) assms(2) [OF q(1)] assms(2) [OF q(2)] q(3) unfolding reqs_ok_def by meson
  then show "set (chain s' i) \<inter> set (chain s' i') = {}"
    using assms(2) [OF q(1)] assms(2) [OF q(2)] untouchedD(3) by metis
next
  fix d :: nat
  assume "d < 8" "\<not> v_free s' d"
  from assms(3) [OF this] show "\<exists>p b w i. request (v_pc s' p) = Some (b, w, i) \<and> d \<in> set (chain s' i)"
    using assms(2) untouchedD(3) by metis
qed

text \<open>The steps of the device and of the interrupt handler, and a failed allocation, change no request.\<close>

lemma reqs_ok_same:
  assumes "reqs_ok s" and "\<And>q. request (v_pc s' q) = request (v_pc s q)"
    and "\<And>d. v_free s' d = v_free s d" and "\<And>d. \<not> v_free s d \<Longrightarrow> v_desc s' d = v_desc s d" and "v_ops s' = v_ops s"
    and "\<And>i. i_b (v_info s' i) = i_b (v_info s i)"
    and "\<And>q b. using_buf (v_pc s q) = Some b \<Longrightarrow> bu_blockno (v_bufs s' b) = bu_blockno (v_bufs s b)"
  shows "reqs_ok s'"
proof (rule reqs_ok_keep [OF assms(1)])
  fix q b w i
  assume "request (v_pc s' q) = Some (b, w, i)"
  then have q: "request (v_pc s q) = Some (b, w, i)" by (simp add: assms(2))
  then have "using_buf (v_pc s q) = Some b" by (cases "v_pc s q") auto
  then show "request (v_pc s q) = Some (b, w, i) \<and> untouched s s' b i"
    using q reqs_okD(2) [OF assms(1) q] assms(3-7) by (auto simp: untouched_def)
next
  fix d :: nat
  assume "d < 8" "\<not> v_free s' d"
  then show "\<exists>q b w i. request (v_pc s' q) = Some (b, w, i) \<and> d \<in> set (chain s i)"
    using assms(1,2,3) unfolding reqs_ok_def by simp
qed

lemma request_using: "request c = Some (b, w, i) \<Longrightarrow> using_buf c = Some b"
  by (cases c) auto

lemma request_unique:
  assumes "bufs_ok s" and "request (v_pc s p) = Some (b, w, i)" and "request (v_pc s q) = Some (b, w', i')"
  shows "q = p" and "w' = w" and "i' = i"
proof -
  show "q = p" using assms request_using unfolding bufs_ok_def by meson
  then show "w' = w" "i' = i" using assms by simp_all
qed

lemma chain_unique:
  assumes "reqs_ok s" and "request (v_pc s p) = Some (b, w, i)" and "request (v_pc s q) = Some (b', w', i)"
  shows "q = p" and "b' = b"
proof -
  have "i \<in> set (chain s i)" by (simp add: chain_def)
  then show "q = p" using assms unfolding reqs_ok_def by (metis disjoint_iff)
  then show "b' = b" using assms by simp
qed

lemma queues_ok_same:
  assumes "queues_ok s" and "\<And>q. request (v_pc s' q) = request (v_pc s q)"
    and "offered s' = offered s" and "finished s' = finished s" and "v_work s' = v_work s"
    and "\<And>i. i_status (v_info s' i) = i_status (v_info s i)" and "\<And>b. bu_disk (v_bufs s' b) = bu_disk (v_bufs s b)"
    and "v_outcome s' = v_outcome s"
  shows "queues_ok s'"
  using assms(1) unfolding queues_ok_def live_def under_way_def assms(2-) .

text \<open>The queues of two states are the same, the live requests too, and no request is new.\<close>

lemma queues_ok_keep:
  assumes q: "queues_ok s" and "under_way s' = under_way s" and "finished s' = finished s" and "v_work s' = v_work s"
    and "\<And>i. i_status (v_info s' i) = i_status (v_info s i)" and "v_outcome s' = v_outcome s"
    and l: "\<And>h. live s h \<Longrightarrow> live s' h"
    and n: "\<And>p b w i. request (v_pc s' p) = Some (b, w, i) \<Longrightarrow>
      (if bu_disk (v_bufs s' b) then i \<in> set (under_way s @ finished s) else i_status (v_info s i) = 0)"
  shows "queues_ok s'"
  unfolding queues_ok_def assms(2-6)
proof (intro conjI ballI allI impI)
  show "distinct (under_way s @ finished s)" using q by (simp only: queues_ok_def)
  show "live s' h" "i_status (v_info s h) = 255" if "h \<in> set (under_way s)" for h
    using q that l unfolding queues_ok_def by simp_all
  show "live s' h" "i_status (v_info s h) \<in> {0, 1, 2}" if "h \<in> set (finished s)" for h
    using q that l unfolding queues_ok_def by blast+
  show "h \<in> set (v_work s)" "st \<in> {0, 1, 2}" if "v_outcome s h = Some st" for h st
    using q that unfolding queues_ok_def by blast+
qed (rule n)

lemma signals_ok_same:
  assumes "signals_ok s" and "v_notify s' = v_notify s" and "v_isr s' = v_isr s" and "v_irq s' = v_irq s"
    and "v_seen s' = v_seen s" and "v_avail_idx s' = v_avail_idx s" and "v_last s' = v_last s" and "v_used_idx s' = v_used_idx s"
  shows "signals_ok s'"
  using assms(1) unfolding signals_ok_def assms(2-) .

text \<open>At most seven requests are in a queue when a descriptor is free, so the next one fits.\<close>

lemma queue_member_core:
  assumes "vcore s" and "h \<in> set (under_way s @ finished s)"
  obtains p b w where "request (v_pc s p) = Some (b, w, h)" and "bu_disk (v_bufs s b)" and "h < 8"
proof -
  have q: "queues_ok s" and r: "reqs_ok s" using assms(1) by (simp_all add: vcore_def)
  have "live s h" using q assms(2) unfolding queues_ok_def by auto
  then obtain p b w where p: "request (v_pc s p) = Some (b, w, h)" "bu_disk (v_bufs s b)" unfolding live_def by blast
  then show ?thesis using that reqs_okD(3) [OF r p(1)] by blast
qed

lemma vinv_core: "vinv s \<Longrightarrow> vcore s" by (simp add: vinv_def)

lemmas queue_member = queue_member_core [OF vinv_core]

lemma queue_room:
  assumes "distinct xs" and "\<forall>h\<in>set xs. h < (8::nat)" and "i < 8" and "i \<notin> set xs"
  shows "length xs < 8"
proof -
  have "card (insert i (set xs)) \<le> card {..<8::nat}" using assms by (intro card_mono) auto
  then show ?thesis using assms by (simp add: distinct_card)
qed

section \<open>Calling\<close>

text \<open>A call or a retry that finds three descriptors.\<close>

definition submitted :: "nat \<Rightarrow> nat \<Rightarrow> bool \<Rightarrow> nat \<Rightarrow> nat \<Rightarrow> nat \<Rightarrow> vstate \<Rightarrow> vstate" where
  "submitted p b w i0 i1 i2 s = set_vpc p (WaitDisk b w i0) (submit_req b i0 (format_req b w i0 i1 i2 (taken {i0, i1, i2} s)))"

lemma submitted_fields:
  "v_pc (submitted p b w i0 i1 i2 s) = (v_pc s)(p := WaitDisk b w i0)"
  "v_free (submitted p b w i0 i1 i2 s) = (\<lambda>d. v_free s d \<and> d \<notin> {i0, i1, i2})"
  "v_desc (submitted p b w i0 i1 i2 s) = (v_desc s)(
     i0 := \<lparr>d_addr = AReq i0, d_len = 16, d_flags = VRING_DESC_F_NEXT, d_next = of_nat i1\<rparr>,
     i1 := \<lparr>d_addr = AData b, d_len = 1024, d_flags = (if w then 0 else VRING_DESC_F_WRITE) OR VRING_DESC_F_NEXT, d_next = of_nat i2\<rparr>,
     i2 := \<lparr>d_addr = AStatus i0, d_len = 1, d_flags = VRING_DESC_F_WRITE, d_next = 0\<rparr>)"
  "v_ops (submitted p b w i0 i1 i2 s) = (v_ops s)(i0 := \<lparr>r_type = (if w then VIRTIO_BLK_T_OUT else VIRTIO_BLK_T_IN),
     r_reserved = 0, r_sector = sector_of (bu_blockno (v_bufs s b))\<rparr>)"
  "v_info (submitted p b w i0 i1 i2 s) = (v_info s)(i0 := \<lparr>i_b = Some b, i_status = 0xff\<rparr>)"
  "v_bufs (submitted p b w i0 i1 i2 s) = (v_bufs s)(b := (v_bufs s b)\<lparr>bu_disk := True\<rparr>)"
  "v_avail_ring (submitted p b w i0 i1 i2 s) = ring_put NUM (of_nat i0) (v_avail_ring s) (v_avail_idx s)"
  "v_avail_idx (submitted p b w i0 i1 i2 s) = v_avail_idx s + 1"
  "v_used_ring (submitted p b w i0 i1 i2 s) = v_used_ring s" "v_used_idx (submitted p b w i0 i1 i2 s) = v_used_idx s"
  "v_last (submitted p b w i0 i1 i2 s) = v_last s" "v_seen (submitted p b w i0 i1 i2 s) = v_seen s"
  "v_work (submitted p b w i0 i1 i2 s) = v_work s" "v_medium (submitted p b w i0 i1 i2 s) = v_medium s"
  "v_outcome (submitted p b w i0 i1 i2 s) = v_outcome s" "v_notify (submitted p b w i0 i1 i2 s)"
  "v_isr (submitted p b w i0 i1 i2 s) = v_isr s" "v_irq (submitted p b w i0 i1 i2 s) = v_irq s"
  by (cases "v_info s i0"; simp add: submitted_def submit_req_def format_req_def Let_def set_vpc_def set_desc_def taken_def)+

text \<open>Who calls: a process with no request, on a buffer nobody else uses.\<close>

definition caller :: "vstate \<Rightarrow> nat \<Rightarrow> nat \<Rightarrow> bool" where
  "caller s p b \<longleftrightarrow> request (v_pc s p) = None \<and> (\<forall>q. q \<noteq> p \<longrightarrow> using_buf (v_pc s q) \<noteq> Some b)"

text \<open>Three free descriptors.\<close>

definition free3 :: "vstate \<Rightarrow> nat \<Rightarrow> nat \<Rightarrow> nat \<Rightarrow> bool" where
  "free3 s i0 i1 i2 \<longleftrightarrow> distinct [i0, i1, i2] \<and> (\<forall>d\<in>{i0, i1, i2}. d < 8 \<and> v_free s d)"

lemma request_submitted: "request (v_pc (submitted p b w i0 i1 i2 s) q) = (if q = p then Some (b, w, i0) else request (v_pc s q))"
  by (simp add: submitted_fields)

lemma untouched_submitted:
  assumes "reqs_ok s" and "free3 s i0 i1 i2" and q: "request (v_pc s q) = Some (b', w', i')"
  shows "untouched s (submitted p b w i0 i1 i2 s) b' i'" and "set (chain s i') \<inter> {i0, i1, i2} = {}"
proof -
  show d: "set (chain s i') \<inter> {i0, i1, i2} = {}" using assms(2) reqs_okD(2) [OF assms(1) q] by (auto simp: free3_def)
  have "i' \<in> set (chain s i')" by (simp add: chain_def)
  with d show "untouched s (submitted p b w i0 i1 i2 s) b' i'"
    using reqs_okD(2) [OF assms(1) q] by (auto simp: untouched_def submitted_fields)
qed

lemma formatted_submitted:
  fixes p :: nat and b :: nat and w :: bool
  assumes "free3 s i0 i1 i2"
  defines "t \<equiv> submitted p b w i0 i1 i2 s"
  shows "next_desc t i0 = i1" and "next_desc t i1 = i2" and "formatted t b w i0 i1 i2"
  using assms(1) unfolding t_def by (auto simp: free3_def next_desc_def formatted_def submitted_fields)

lemma reqs_ok_submitted:
  fixes w :: bool
  assumes "reqs_ok s" and "caller s p b" and n: "free3 s i0 i1 i2"
  defines "t \<equiv> submitted p b w i0 i1 i2 s"
  shows "reqs_ok t"
proof -
  note F = formatted_submitted [OF n, of p b w, folded t_def]
  note R = request_submitted [of p b w i0 i1 i2 s, folded t_def]
  have U: "untouched s t b' i'" "set (chain s i') \<inter> {i0, i1, i2} = {}" if "request (v_pc s q) = Some (b', w', i')" for q b' w' i'
    using untouched_submitted [OF assms(1) n that] by (simp_all add: t_def)
  have c: "set (chain t i0) = {i0, i1, i2}" by (simp add: chain_set F)
  show ?thesis
    unfolding reqs_ok_def
  proof (intro conjI allI impI)
    fix q b' w' i'
    assume "request (v_pc t q) = Some (b', w', i')"
    then show "formatted t b' w' i' (next_desc t i') (next_desc t (next_desc t i'))"
      using F untouched_formatted [OF U(1) reqs_okD(1) [OF assms(1)]] by (auto simp: R split: if_splits)
  next
    fix q r b1 w1 j1 b2 w2 j2
    assume q: "request (v_pc t q) = Some (b1, w1, j1)" "request (v_pc t r) = Some (b2, w2, j2)" "q \<noteq> r"
    show "set (chain t j1) \<inter> set (chain t j2) = {}"
    proof (cases "q = p \<or> r = p")
      case True
      then show ?thesis using q U c untouchedD(3) [OF U(1)] by (auto simp: R split: if_splits)
    next
      case False
      then have o: "request (v_pc s q) = Some (b1, w1, j1)" "request (v_pc s r) = Some (b2, w2, j2)" using q by (auto simp: R)
      then show ?thesis using assms(1) q(3) untouchedD(3) [OF U(1) [OF o(1)]] untouchedD(3) [OF U(1) [OF o(2)]]
        unfolding reqs_ok_def by metis
    qed
  next
    fix d :: nat
    assume d: "d < 8" "\<not> v_free t d"
    show "\<exists>q b w i. request (v_pc t q) = Some (b, w, i) \<and> d \<in> set (chain t i)"
    proof (cases "d \<in> {i0, i1, i2}")
      case True
      then show ?thesis using c R by metis
    next
      case False
      then have "\<not> v_free s d" using d by (simp add: t_def submitted_fields)
      then obtain q b' w' i' where q: "request (v_pc s q) = Some (b', w', i')" "d \<in> set (chain s i')"
        using assms(1) d(1) unfolding reqs_ok_def by blast
      moreover have "q \<noteq> p" using q(1) assms(2) by (auto simp: caller_def)
      ultimately show ?thesis using untouchedD(3) [OF U(1) [OF q(1)]] R by metis
    qed
  qed
qed

lemma queues_ok_submitted:
  assumes v: "vinv s" and c: "caller s p b" and n: "free3 s i0 i1 i2"
  shows "queues_ok (submitted p b w i0 i1 i2 s)"
proof -
  let ?t = "submitted p b w i0 i1 i2 s"
  have q: "queues_ok s" and r: "reqs_ok s" and i0: "i0 < 8" "v_free s i0" using v n by (auto simp: vinv_def vcore_def free3_def)
  have new: "i0 \<notin> set (under_way s @ finished s)"
  proof
    assume "i0 \<in> set (under_way s @ finished s)"
    then obtain q b' w' where "request (v_pc s q) = Some (b', w', i0)" using queue_member [OF v] by blast
    then show False using reqs_okD(2) [OF r] i0(2) by (simp add: chain_def)
  qed
  have other: "b' \<noteq> b" "i' \<noteq> i0" "q \<noteq> p" if "request (v_pc s q) = Some (b', w', i')" for q b' w' i'
  proof -
    show p: "q \<noteq> p" using that c by (auto simp: caller_def)
    show "b' \<noteq> b" using p c request_using [OF that] by (auto simp: caller_def)
    show "i' \<noteq> i0" using reqs_okD(2) [OF r that, of i'] i0(2) by (auto simp: chain_def)
  qed
  have "length (offered s) < 8"
  proof (rule queue_room)
    show "\<forall>h\<in>set (offered s). h < 8" using queue_member [OF v] by (auto simp: under_way_def)
    show "distinct (offered s)" "i0 \<notin> set (offered s)" using q new by (auto simp: queues_ok_def under_way_def)
  qed (rule i0(1))
  then have "unat (v_avail_idx s - v_seen s) < 8" by (simp add: offered_def)
  then have o: "offered ?t = offered s @ [i0]"
    using i0(1) by (simp add: offered_def submitted_fields ring_items_put)
  have f: "finished ?t = finished s" by (simp add: finished_def submitted_fields)
  have u: "set (under_way ?t) = insert i0 (set (under_way s))" by (simp add: under_way_def o submitted_fields insert_commute)
  have d: "distinct (under_way ?t @ finished ?t)" using q new unfolding queues_ok_def by (auto simp: under_way_def o f submitted_fields)
  have keep: "live ?t h \<and> i_status (v_info ?t h) = i_status (v_info s h)" if l: "live s h" for h
  proof -
    obtain q b' w' where q: "request (v_pc s q) = Some (b', w', h)" "bu_disk (v_bufs s b')" using l unfolding live_def by blast
    then have "request (v_pc ?t q) = Some (b', w', h)" "bu_disk (v_bufs ?t b')" using other [OF q(1)] by (simp_all add: submitted_fields)
    then show ?thesis using other [OF q(1)] unfolding live_def by (auto simp: submitted_fields)
  qed
  have "request (v_pc ?t p) = Some (b, w, i0)" "bu_disk (v_bufs ?t b)" by (simp_all add: submitted_fields)
  then have l0: "live ?t i0" unfolding live_def by blast
  show ?thesis
    unfolding queues_ok_def
  proof (intro conjI ballI allI impI)
    fix h
    assume "h \<in> set (under_way ?t)"
    then consider "h = i0" | "live s h" "i_status (v_info s h) = 255" using q unfolding u queues_ok_def by blast
    then show "live ?t h" "i_status (v_info ?t h) = 255" by (cases; use l0 keep in \<open>simp add: submitted_fields\<close>)+
  next
    fix h
    assume "h \<in> set (finished ?t)"
    then have "live s h" "i_status (v_info s h) \<in> {0, 1, 2}" using q unfolding f queues_ok_def by blast+
    then show "live ?t h" "i_status (v_info ?t h) \<in> {0, 1, 2}" using keep by auto
  next
    fix h st
    assume "v_outcome ?t h = Some st"
    then show "h \<in> set (v_work ?t)" "st \<in> {0, 1, 2}" using q unfolding queues_ok_def submitted_fields by blast+
  next
    fix q' b' w' i'
    assume r': "request (v_pc ?t q') = Some (b', w', i')"
    show "if bu_disk (v_bufs ?t b') then i' \<in> set (under_way ?t @ finished ?t) else i_status (v_info ?t i') = 0"
    proof (cases "q' = p")
      case True
      then show ?thesis using r' u by (simp add: submitted_fields)
    next
      case False
      then have o: "request (v_pc s q') = Some (b', w', i')" using r' by (simp add: request_submitted)
      then have "if bu_disk (v_bufs s b') then i' \<in> set (under_way s @ finished s) else i_status (v_info s i') = 0"
        using q unfolding queues_ok_def by blast
      then show ?thesis using other [OF o] u f by (simp add: submitted_fields split: if_splits)
    qed
  qed (rule d)
qed

lemma vinv_submitted:
  assumes v: "vinv s" and c: "caller s p b" and n: "free3 s i0 i1 i2"
  shows "vinv (submitted p b w i0 i1 i2 s)"
proof -
  let ?t = "submitted p b w i0 i1 i2 s"
  have "bufs_ok ?t"
    unfolding bufs_ok_def
  proof (intro conjI allI impI)
    fix q r b'
    assume "using_buf (v_pc ?t q) = Some b'" "using_buf (v_pc ?t r) = Some b'"
    then show "q = r" using v c by (auto simp: submitted_fields vinv_def vcore_def bufs_ok_def caller_def split: if_splits)
  next
    fix b'
    assume "bu_disk (v_bufs ?t b')"
    then have "b' = b \<or> (\<exists>q w i. request (v_pc s q) = Some (b', w, i))"
      using v by (auto simp: submitted_fields vinv_def vcore_def bufs_ok_def split: if_splits)
    moreover have "q \<noteq> p" if "request (v_pc s q) = Some (b', w', i)" for q w' i using that c by (auto simp: caller_def)
    ultimately show "\<exists>q w i. request (v_pc ?t q) = Some (b', w, i)" unfolding request_submitted by metis
  qed (use v in \<open>simp add: submitted_fields vinv_def vcore_def bufs_ok_def\<close>)
  moreover have "sleep_ok ?t"
  proof -
    have "card {d. d < 8 \<and> v_free ?t d} \<le> card {d. d < 8 \<and> v_free s d}"
      by (rule card_mono) (auto simp: submitted_fields)
    then show ?thesis using v by (fastforce simp: sleep_ok_def vinv_def vcore_def submitted_fields split: if_splits)
  qed
  moreover have "signals_ok ?t" using v by (simp add: vinv_def vcore_def signals_ok_def submitted_fields)
  ultimately show ?thesis using reqs_ok_submitted [OF _ c n] queues_ok_submitted [OF assms] v by (simp add: vinv_def vcore_def)
qed

lemma disk_abs_submitted:
  assumes v: "vinv s" and n: "free3 s i0 i1 i2"
  shows "disk_abs (submitted p b w i0 i1 i2 s) = set_phase p (Pending b w) (disk_abs s)"
proof -
  let ?t = "submitted p b w i0 i1 i2 s"
  have r: "reqs_ok s" using v by (simp add: vinv_def vcore_def)
  have "phase_of ?t (v_pc s q) = phase_of s (v_pc s q)" for q
  proof (rule phase_of_reply)
    fix b' w' i'
    assume x: "request (v_pc s q) = Some (b', w', i')"
    then have "i' \<noteq> i0" using reqs_okD(2) [OF r x, of i'] n by (auto simp: chain_def free3_def)
    then show "reply ?t i' = reply s i'" by (intro reply_cong) (simp_all add: submitted_fields)
  qed
  moreover have "v_outcome s i0 = None"
  proof (cases "v_outcome s i0")
    case (Some st)
    then have "i0 \<in> set (under_way s @ finished s)" using v by (auto simp: vinv_def vcore_def queues_ok_def under_way_def)
    then obtain q b' w' where "request (v_pc s q) = Some (b', w', i0)" using queue_member [OF v] by blast
    then show ?thesis using reqs_okD(2) [OF r] n by (simp add: chain_def free3_def)
  qed
  ultimately have ph: "phase_of ?t (v_pc ?t q) = ((\<lambda>q. phase_of s (v_pc s q))(p := Pending b w)) q" for q
    by (simp add: submitted_fields phase_of_def reply_def phase_by_def)
  show ?thesis unfolding disk_abs_def ph by (auto simp: set_phase_def submitted_fields fun_eq_iff)
qed

text \<open>A call that finds too few.\<close>

lemma phase_of_cong: "v_info s' = v_info s \<Longrightarrow> v_outcome s' = v_outcome s \<Longrightarrow> phase_of s' c = phase_of s c"
  by (rule phase_of_reply, rule reply_cong) simp_all

lemma set_vpc_fields [simp]:
  "v_pc (set_vpc p c s) = (v_pc s)(p := c)" "v_desc (set_vpc p c s) = v_desc s" "v_free (set_vpc p c s) = v_free s"
  "v_ops (set_vpc p c s) = v_ops s" "v_info (set_vpc p c s) = v_info s" "v_bufs (set_vpc p c s) = v_bufs s"
  "v_work (set_vpc p c s) = v_work s" "v_medium (set_vpc p c s) = v_medium s" "v_outcome (set_vpc p c s) = v_outcome s"
  "v_notify (set_vpc p c s) = v_notify s" "v_isr (set_vpc p c s) = v_isr s" "v_irq (set_vpc p c s) = v_irq s"
  "v_seen (set_vpc p c s) = v_seen s" "v_avail_idx (set_vpc p c s) = v_avail_idx s" "v_last (set_vpc p c s) = v_last s"
  "v_used_idx (set_vpc p c s) = v_used_idx s"
  "offered (set_vpc p c s) = offered s" "finished (set_vpc p c s) = finished s" "phase_of (set_vpc p c s) = phase_of s"
  by (auto simp: set_vpc_def offered_def finished_def fun_eq_iff intro!: phase_of_cong)

lemma no_descs_fields:
  assumes "no_descs s s'"
  shows "v_free s' = v_free s" "\<not> v_free s d \<Longrightarrow> v_desc s' d = v_desc s d" "v_ops s' = v_ops s" "v_info s' = v_info s" "v_bufs s' = v_bufs s"
    "offered s' = offered s" "finished s' = finished s" "v_work s' = v_work s" "v_medium s' = v_medium s"
    "request (v_pc s' q) = request (v_pc s q)" "using_buf (v_pc s' q) = using_buf (v_pc s q)" "phase_of s' (v_pc s' q) = phase_of s (v_pc s q)"
    "v_pc s' q = WaitDisk b w i \<longleftrightarrow> v_pc s q = WaitDisk b w i" "v_pc s' q = WaitDesc b w \<Longrightarrow> v_pc s q = WaitDesc b w"
    "v_outcome s' = v_outcome s" "v_notify s' = v_notify s" "v_isr s' = v_isr s" "v_irq s' = v_irq s"
    "v_seen s' = v_seen s" "v_avail_idx s' = v_avail_idx s" "v_last s' = v_last s" "v_used_idx s' = v_used_idx s"
  using assms phase_of_cong [of s' s] by (auto simp: no_descs_def offered_def finished_def)

lemma vinv_no_descs:
  assumes v: "vinv s" and c: "caller s p b" and n: "no_descs s s'"
  shows "vinv (set_vpc p (WaitDesc b w) s')" and "disk_abs (set_vpc p (WaitDesc b w) s') = set_phase p (Pending b w) (disk_abs s)"
proof -
  let ?t = "set_vpc p (WaitDesc b w) s'"
  note N = no_descs_fields [OF n]
  have R: "request (v_pc ?t q) = request (v_pc s q)" for q using c by (simp add: N caller_def)
  have "reqs_ok s" "bufs_ok s" "queues_ok s" "sleep_ok s" "signals_ok s" using v by (simp_all add: vinv_def vcore_def)
  moreover have "signals_ok ?t" by (rule signals_ok_same [OF \<open>signals_ok s\<close>]) (simp_all add: N)
  moreover have "reqs_ok ?t"
    by (rule reqs_ok_same [OF \<open>reqs_ok s\<close>]) (simp_all only: R, simp_all add: N)
  moreover have "queues_ok ?t"
    by (rule queues_ok_same [OF \<open>queues_ok s\<close>]) (simp_all only: R, simp_all add: N)
  moreover have "bufs_ok ?t"
    using \<open>bufs_ok s\<close> c unfolding bufs_ok_def R by (auto simp: N caller_def split: if_splits)
  moreover have "sleep_ok ?t"
    using \<open>sleep_ok s\<close> n unfolding sleep_ok_def by (auto simp: N no_descs_def split: if_splits)
  ultimately show "vinv ?t" by (simp add: vinv_def vcore_def)
  show "disk_abs ?t = set_phase p (Pending b w) (disk_abs s)"
    by (auto simp: disk_abs_def set_phase_def N fun_eq_iff)
qed

lemma rw_alloc_runs:
  assumes "vinv s" and "caller s p b"
  shows "runs (rw_alloc p b w s) (\<lambda>_ s'. vinv s' \<and> disk_abs s' = set_phase p (Pending b w) (disk_abs s))"
proof (cases rule: alloc3_spec [of s])
  case (Got i0 i1 i2)
  then have n: "free3 s i0 i1 i2" by (simp add: free3_def)
  have "rw_alloc p b w s = Inr ((), submitted p b w i0 i1 i2 s)" by (simp add: rw_alloc_def Got(1) submitted_def)
  then show ?thesis using vinv_submitted [OF assms n] disk_abs_submitted [OF assms(1) n] by simp
next
  case (Full s')
  then show ?thesis using vinv_no_descs [OF assms Full(2)] by (simp add: rw_alloc_def)
qed

section \<open>Returning\<close>

text \<open>The state after the chain of a served request has been given back.\<close>

definition returned :: "nat \<Rightarrow> nat \<Rightarrow> vstate \<Rightarrow> vstate" where
  "returned p i s = set_vpc p Outside (given_back (set (chain s i)) (s\<lparr>v_info := (v_info s)(i := (v_info s i)\<lparr>i_b := None\<rparr>)\<rparr>))"

lemma returned_fields:
  "v_free (returned p i s) d \<longleftrightarrow> v_free s d \<or> d \<in> set (chain s i)"
  "v_desc (returned p i s) d = (if d \<in> set (chain s i) then zero_desc else v_desc s d)"
  "v_ops (returned p i s) = v_ops s" "v_bufs (returned p i s) = v_bufs s" "v_work (returned p i s) = v_work s"
  "v_medium (returned p i s) = v_medium s" "offered (returned p i s) = offered s" "finished (returned p i s) = finished s"
  "i_status (v_info (returned p i s) h) = i_status (v_info s h)" "h \<noteq> i \<Longrightarrow> v_info (returned p i s) h = v_info s h"
  "request (v_pc (returned p i s) q) = (if q = p then None else request (v_pc s q))"
  "using_buf (v_pc (returned p i s) q) = (if q = p then None else using_buf (v_pc s q))"
  "v_pc (returned p i s) q = WaitDisk b w j \<longleftrightarrow> q \<noteq> p \<and> v_pc s q = WaitDisk b w j"
  "v_pc (returned p i s) q \<noteq> WaitDesc b w" "v_outcome (returned p i s) = v_outcome s"
  "v_notify (returned p i s) = v_notify s" "v_isr (returned p i s) = v_isr s" "v_irq (returned p i s) = v_irq s"
  "v_seen (returned p i s) = v_seen s" "v_avail_idx (returned p i s) = v_avail_idx s" "v_last (returned p i s) = v_last s"
  "v_used_idx (returned p i s) = v_used_idx s"
  by (simp_all add: returned_def given_back_def, simp_all add: offered_def finished_def)

lemma phase_of_returned: "phase_of (returned p i s) (v_pc (returned p i s) q) = (if q = p then Absent else phase_of s (v_pc s q))"
proof -
  have "phase_of (returned p i s) c = phase_of s c" for c by (rule phase_of_reply, rule reply_cong) (simp_all add: returned_fields)
  then show ?thesis by (simp add: returned_def given_back_def)
qed

lemma vinv_returned:
  assumes v: "vinv s" and p: "v_pc s p = Check b w i" and d: "\<not> bu_disk (v_bufs s b)"
  shows "vinv (returned p i s)"
proof -
  let ?t = "returned p i s"
  have r: "reqs_ok s" and q: "queues_ok s" and B: "bufs_ok s" and S: "sleep_ok s" using v by (simp_all add: vinv_def vcore_def)
  have rp: "request (v_pc s p) = Some (b, w, i)" using p by simp
  have "reqs_ok ?t"
  proof (rule reqs_ok_keep [OF r])
    fix q b' w' i'
    assume "request (v_pc ?t q) = Some (b', w', i')"
    then have o: "request (v_pc s q) = Some (b', w', i')" "q \<noteq> p" by (simp_all add: returned_fields split: if_splits)
    then have "set (chain s i') \<inter> set (chain s i) = {}" using r rp unfolding reqs_ok_def by blast
    moreover have "i' \<in> set (chain s i')" "i \<in> set (chain s i)" by (simp_all add: chain_def)
    ultimately have "i' \<noteq> i" "\<forall>d\<in>set (chain s i'). d \<notin> set (chain s i)" by blast+
    then show "request (v_pc s q) = Some (b', w', i') \<and> untouched s ?t b' i'"
      using o reqs_okD(2) [OF r o(1)] by (auto simp: untouched_def returned_fields)
  next
    fix d :: nat
    assume "d < 8" "\<not> v_free ?t d"
    then have "\<not> v_free s d" "d \<notin> set (chain s i)" by (simp_all add: returned_fields)
    then obtain q b' w' i' where o: "request (v_pc s q) = Some (b', w', i')" "d \<in> set (chain s i')"
      using r \<open>d < 8\<close> unfolding reqs_ok_def by blast
    then have "q \<noteq> p" using rp \<open>d \<notin> set (chain s i)\<close> by auto
    then show "\<exists>q b w i. request (v_pc ?t q) = Some (b, w, i) \<and> d \<in> set (chain s i)" using o unfolding returned_fields by auto
  qed
  moreover have "bufs_ok ?t"
  proof -
    have "q \<noteq> p" if "bu_disk (v_bufs s b')" "request (v_pc s q) = Some (b', w', i')" for q b' w' i' using that d rp by auto
    then show ?thesis using B unfolding bufs_ok_def returned_fields by (auto split: if_splits) metis
  qed
  moreover have "queues_ok ?t"
  proof -
    have u: "under_way ?t = under_way s" "finished ?t = finished s" by (simp_all add: under_way_def returned_fields)
    have l: "live ?t h" if lh: "live s h" for h
    proof -
      obtain q b' w' where o: "request (v_pc s q) = Some (b', w', h)" "bu_disk (v_bufs s b')" using lh unfolding live_def by blast
      then have "q \<noteq> p" using rp d by auto
      then show ?thesis using o unfolding live_def by (auto simp: returned_fields)
    qed
    have "if bu_disk (v_bufs s b') then i' \<in> set (under_way s @ finished s) else i_status (v_info s i') = 0"
      if "request (v_pc ?t q') = Some (b', w', i')" for q' b' w' i'
      using that q unfolding queues_ok_def by (simp add: returned_fields split: if_splits del: set_append)
    then have n: "if bu_disk (v_bufs ?t b') then i' \<in> set (under_way s @ finished s) else i_status (v_info s i') = 0"
      if "request (v_pc ?t q') = Some (b', w', i')" for q' b' w' i' using that by (simp only: returned_fields)
    show ?thesis by (rule queues_ok_keep [OF q u _ _ _ l n]) (simp_all add: returned_fields)
  qed
  moreover have "sleep_ok ?t" using S by (auto simp: sleep_ok_def returned_fields)
  moreover have "signals_ok ?t" using v by (simp add: vinv_def vcore_def signals_ok_def returned_fields)
  ultimately show ?thesis by (simp add: vinv_def vcore_def)
qed

lemma rw_finish_runs:
  assumes v: "vinv s" and p: "v_pc s p = Check b w i"
  shows "runs (rw_finish p b w i s) (\<lambda>_ s'. vinv s' \<and> (disk_abs s' = disk_abs s
    \<or> a_phase (disk_abs s) p = Served b w \<and> disk_abs s' = set_phase p Absent (disk_abs s)))"
proof (cases "bu_disk (v_bufs s b)")
  case True
  let ?t = "set_vpc p (WaitDisk b w i) s"
  have R: "request (v_pc ?t q) = request (v_pc s q)" "using_buf (v_pc ?t q) = using_buf (v_pc s q)"
      "phase_of ?t (v_pc ?t q) = phase_of s (v_pc s q)" for q using p by (simp_all add: phase_of_def)
  have "reqs_ok s" "bufs_ok s" "queues_ok s" "sleep_ok s" "signals_ok s" using v by (simp_all add: vinv_def vcore_def)
  moreover have "signals_ok ?t" by (rule signals_ok_same [OF \<open>signals_ok s\<close>]) simp_all
  moreover have "reqs_ok ?t" by (rule reqs_ok_same [OF \<open>reqs_ok s\<close> R(1)]) simp_all
  moreover have "queues_ok ?t" by (rule queues_ok_same [OF \<open>queues_ok s\<close> R(1)]) simp_all
  moreover have "bufs_ok ?t" using \<open>bufs_ok s\<close> unfolding bufs_ok_def R set_vpc_fields(6) .
  moreover have "sleep_ok ?t" using \<open>sleep_ok s\<close> True by (auto simp: sleep_ok_def)
  ultimately have "vinv ?t" by (simp add: vinv_def vcore_def)
  then show ?thesis using True by (simp add: rw_finish_def disk_abs_def R del: set_vpc_fields) simp
next
  case False
  have rp: "request (v_pc s p) = Some (b, w, i)" using p by simp
  have f: "formatted s b w i (next_desc s i) (next_desc s (next_desc s i))" using v rp reqs_okD(1) by (simp add: vinv_def vcore_def)
  have q: "queues_ok s" and B: "bufs_ok s" and r: "reqs_ok s" using v by (simp_all add: vinv_def vcore_def)
  have "i_status (v_info s i) = 0" using q rp False unfolding queues_ok_def by metis
  moreover have "v_outcome s i = None"
  proof (cases "v_outcome s i")
    case (Some st)
    then have "live s i" using q unfolding queues_ok_def under_way_def by auto
    then show ?thesis using chain_unique(2) [OF r rp] False unfolding live_def by blast
  qed
  ultimately have ph: "a_phase (disk_abs s) p = Served b w" by (simp add: disk_abs_def phase_of_request [OF rp] reply_def phase_by_def)
  have "rw_finish p b w i s = Inr ((), returned p i s)"
    using False by (simp add: rw_finish_def free_chain_eq [OF f] returned_def chain_set)
  moreover have "disk_abs (returned p i s) = set_phase p Absent (disk_abs s)"
    by (auto simp: disk_abs_def set_phase_def phase_of_returned fun_eq_iff) (simp_all add: returned_fields)
  ultimately show ?thesis using vinv_returned [OF v p False] ph by simp
qed

section \<open>Interrupts\<close>

text \<open>The state after one round of the handler.\<close>

definition acknowledged :: "nat \<Rightarrow> vstate \<Rightarrow> vstate" where
  "acknowledged b s = (wakeup_buf b (s\<lparr>v_bufs := (v_bufs s)(b := (v_bufs s b)\<lparr>bu_disk := False\<rparr>)\<rparr>))\<lparr>v_last := v_last s + 1\<rparr>"

lemma acknowledged_fields:
  "v_desc (acknowledged b s) = v_desc s" "v_free (acknowledged b s) = v_free s" "v_ops (acknowledged b s) = v_ops s"
  "v_info (acknowledged b s) = v_info s" "v_work (acknowledged b s) = v_work s" "v_medium (acknowledged b s) = v_medium s"
  "offered (acknowledged b s) = offered s" "v_last (acknowledged b s) = v_last s + 1" "v_used_idx (acknowledged b s) = v_used_idx s"
  "v_used_ring (acknowledged b s) = v_used_ring s"
  "bu_blockno (v_bufs (acknowledged b s) c) = bu_blockno (v_bufs s c)" "bu_data (v_bufs (acknowledged b s) c) = bu_data (v_bufs s c)"
  "bu_disk (v_bufs (acknowledged b s) c) \<longleftrightarrow> c \<noteq> b \<and> bu_disk (v_bufs s c)"
  "v_outcome (acknowledged b s) = v_outcome s" "v_notify (acknowledged b s) = v_notify s" "v_isr (acknowledged b s) = v_isr s"
  "v_irq (acknowledged b s) = v_irq s" "v_seen (acknowledged b s) = v_seen s" "v_avail_idx (acknowledged b s) = v_avail_idx s"
  by (simp_all add: acknowledged_def wakeup_buf_def offered_def)

lemma acknowledged_pc:
  "request (v_pc (acknowledged b s) q) = request (v_pc s q)" "using_buf (v_pc (acknowledged b s) q) = using_buf (v_pc s q)"
  "phase_of (acknowledged b s) (v_pc (acknowledged b s) q) = phase_of s (v_pc s q)"
  "v_pc (acknowledged b s) q = WaitDisk c w i \<longleftrightarrow> c \<noteq> b \<and> v_pc s q = WaitDisk c w i"
  "v_pc (acknowledged b s) q = WaitDesc c w \<longleftrightarrow> v_pc s q = WaitDesc c w"
proof -
  have p: "phase_of (acknowledged b s) = phase_of s"
    by (rule ext, rule phase_of_cong) (simp_all add: acknowledged_fields)
  show "phase_of (acknowledged b s) (v_pc (acknowledged b s) q) = phase_of s (v_pc s q)"
    unfolding p by (cases "v_pc s q"; simp add: acknowledged_def wakeup_buf_def phase_of_def)
qed (cases "v_pc s q"; auto simp: acknowledged_def wakeup_buf_def)+

lemma vcore_acknowledged:
  assumes v: "vcore s" and f: "finished s = h # rest" and p: "request (v_pc s p) = Some (b, w, h)"
    and t: "finished (acknowledged b s) = rest"
  and st: "i_status (v_info s h) = 0"
  shows "vcore (acknowledged b s)"
proof -
  let ?t = "acknowledged b s"
  have r: "reqs_ok s" and B: "bufs_ok s" and q: "queues_ok s" and S: "sleep_ok s" using v by (simp_all add: vcore_def)
  have "reqs_ok ?t" by (rule reqs_ok_same [OF r acknowledged_pc(1)]) (simp_all add: acknowledged_fields)
  moreover have "bufs_ok ?t" using B unfolding bufs_ok_def acknowledged_pc acknowledged_fields by blast
  moreover have "sleep_ok ?t" using S by (auto simp: sleep_ok_def acknowledged_pc acknowledged_fields)
  moreover have "queues_ok ?t"
  proof -
    have u: "under_way ?t = under_way s" by (simp add: under_way_def acknowledged_fields)
    have l: "live ?t k" if lk: "live s k" "k \<noteq> h" for k
    proof -
      obtain q b' w' where o: "request (v_pc s q) = Some (b', w', k)" "bu_disk (v_bufs s b')" using lk(1) unfolding live_def by blast
      have "b' \<noteq> b" using request_unique(3) [OF B p] o(1) lk(2) by blast
      then show ?thesis using o unfolding live_def acknowledged_pc acknowledged_fields by blast
    qed
    have d: "distinct (under_way s @ h # rest)" using q f by (simp only: queues_ok_def)
    show ?thesis
      unfolding queues_ok_def u t acknowledged_pc
    proof (intro conjI ballI allI impI)
      show "distinct (under_way s @ rest)" using d by simp
    next
      fix k
      assume k: "k \<in> set (under_way s)"
      then have "live s k" "i_status (v_info s k) = 255" "k \<noteq> h" using q d unfolding queues_ok_def by auto
      then show "live ?t k" "i_status (v_info ?t k) = 255" using l by (simp_all add: acknowledged_fields)
    next
      fix k
      assume k: "k \<in> set rest"
      then have "live s k" "i_status (v_info s k) \<in> {0, 1, 2}" "k \<noteq> h" using q d unfolding queues_ok_def f by auto
      then show "live ?t k" "i_status (v_info ?t k) \<in> {0, 1, 2}" using l by (simp_all only: acknowledged_fields)
    next
      fix k st
      assume "v_outcome ?t k = Some st"
      then show "k \<in> set (v_work ?t)" "st \<in> {0, 1, 2}" using q unfolding queues_ok_def acknowledged_fields by blast+
    next
      fix r b' w' i
      assume o: "request (v_pc s r) = Some (b', w', i)"
      have "b' = b \<longleftrightarrow> i = h" using request_unique(3) [OF B p] chain_unique(2) [OF \<open>reqs_ok s\<close> p] o by blast
      moreover have "if bu_disk (v_bufs s b') then i \<in> set (under_way s @ h # rest) else i_status (v_info s i) = 0"
        using q o unfolding queues_ok_def f by blast
      ultimately show "if bu_disk (v_bufs ?t b') then i \<in> set (under_way s @ rest) else i_status (v_info ?t i) = 0"
        using st by (auto simp: acknowledged_fields split: if_splits)
    qed
  qed
  ultimately show ?thesis by (simp add: vcore_def)
qed

text \<open>
  The interrupt handler reports completions up to the first failed request, and panics there; \<open>used\<close> is what it leaves.
\<close>

lemma intr_step_next:
  assumes v: "vcore s" and f: "finished s = h # rest"
  shows "if i_status (v_info s h) = 0
    then \<exists>b. intr_step () s = Inr (Next (), acknowledged b s) \<and> vcore (acknowledged b s) \<and> finished (acknowledged b s) = rest
    else intr_step () s = Inl (Panic ''virtio_disk_intr status'')"
proof -
  have ne: "v_last s \<noteq> v_used_idx s" using f by (auto simp: finished_def)
  have g: "h = unat (ring_get NUM (v_used_ring s) (v_last s))"
      "rest = map unat (ring_items NUM (v_used_ring s) (v_last s + 1) (v_used_idx s))"
    using f ring_items_get [OF ne, of NUM "v_used_ring s"] by (simp_all add: finished_def)
  have "h \<in> set (under_way s @ finished s)" using f by simp
  then obtain p b w where p: "request (v_pc s p) = Some (b, w, h)" "h < 8" by (rule queue_member_core [OF v])
  have b: "i_b (v_info s h) = Some b" using reqs_okD(4) [OF _ p(1)] v by (simp add: vcore_def)
  show ?thesis
  proof (cases "i_status (v_info s h) = 0")
    case True
    have "intr_step () s = Inr (Next (), acknowledged b s)"
      using ne p(2) b True by (simp add: intr_step_def g(1) [symmetric, simplified] acknowledged_def)
    moreover have t: "finished (acknowledged b s) = rest" by (simp add: finished_def g(2) acknowledged_fields)
    ultimately show ?thesis using True vcore_acknowledged [OF v f p(1) t True] by auto
  next
    case False
    then show ?thesis using ne p(2) by (simp add: intr_step_def g(1) [symmetric, simplified])
  qed
qed

lemma disk_abs_acknowledged [simp]: "disk_abs (acknowledged b s) = disk_abs s"
  by (simp add: disk_abs_def acknowledged_fields acknowledged_pc)

lemma intr_loop:
  "vcore s \<Longrightarrow> length (finished s) < n \<Longrightarrow>
    (if \<forall>h\<in>set (finished s). i_status (v_info s h) = 0
     then \<exists>t. loop n intr_step () s = Inr ((), t) \<and> vcore t \<and> disk_abs t = disk_abs s \<and> v_last t = v_used_idx t
       \<and> v_isr t = v_isr s \<and> v_irq t = v_irq s \<and> v_notify t = v_notify s \<and> v_seen t = v_seen s \<and> v_avail_idx t = v_avail_idx s
     else loop n intr_step () s = Inl (Panic ''virtio_disk_intr status''))"
proof (induction n arbitrary: s)
  case (Suc n)
  show ?case
  proof (cases "finished s")
    case Nil
    then have "v_last s = v_used_idx s" using ring_items_get [of "v_last s" "v_used_idx s" NUM "v_used_ring s"] by (auto simp: finished_def)
    then show ?thesis using Suc.prems(1) Nil by (simp add: intr_step_def)
  next
    case (Cons h rest)
    show ?thesis
    proof (cases "i_status (v_info s h) = 0")
      case True
      then obtain b where b: "intr_step () s = Inr (Next (), acknowledged b s)" "vcore (acknowledged b s)" "finished (acknowledged b s) = rest"
        using intr_step_next [OF Suc.prems(1) Cons] by auto
      have e: "loop (Suc n) intr_step () s = loop n intr_step () (acknowledged b s)" by (simp add: b(1))
      have all: "(\<forall>h\<in>set (finished s). i_status (v_info s h) = 0) \<longleftrightarrow> (\<forall>h\<in>set rest. i_status (v_info s h) = 0)"
        using True Cons by simp
      have "length (finished (acknowledged b s)) < n" using Suc.prems(2) by (simp add: b(3) Cons)
      from Suc.IH [OF b(2) this] show ?thesis
        unfolding e all b(3) by (simp only: acknowledged_fields disk_abs_acknowledged)
    next
      case False
      then have "intr_step () s = Inl (Panic ''virtio_disk_intr status'')" using intr_step_next [OF Suc.prems(1) Cons] by simp
      then show ?thesis using False by (simp add: Cons)
    qed
  qed
qed simp

text \<open>The handler with its acknowledgement.\<close>

lemma ack_clears: "(x AND (NOT x OR - 4)) AND 1 = (0 :: u32)"
  by (simp add: and_one_eq mod_2_eq_odd even_and_iff even_or_iff even_not_iff)

definition acking :: "vstate \<Rightarrow> vstate" where
  "acking s = write_ack (v_isr s AND 3) (s\<lparr>v_irq := False\<rparr>)"

lemma acking_fields:
  "finished (acking s) = finished s" "v_info (acking s) = v_info s" "disk_abs (acking s) = disk_abs s" "vcore (acking s) = vcore s"
  "v_isr (acking s) AND 1 = 0" "v_irq (acking s) = False" "v_notify (acking s) = v_notify s" "v_seen (acking s) = v_seen s"
  "v_avail_idx (acking s) = v_avail_idx s" "v_last (acking s) = v_last s" "v_used_idx (acking s) = v_used_idx s"
proof -
  show f: "finished (acking s) = finished s" "v_info (acking s) = v_info s" by (simp_all add: acking_def write_ack_def finished_def)
  have p: "phase_of (acking s) = phase_of s" by (rule ext, rule phase_of_cong) (simp_all add: acking_def write_ack_def)
  show "disk_abs (acking s) = disk_abs s" unfolding disk_abs_def p by (simp add: acking_def write_ack_def)
  have "reqs_ok (acking s) = reqs_ok s" "bufs_ok (acking s) = bufs_ok s" "sleep_ok (acking s) = sleep_ok s"
    by (simp_all add: reqs_ok_def bufs_ok_def sleep_ok_def formatted_def chain_def next_desc_def acking_def write_ack_def)
  moreover have "under_way (acking s) = under_way s" by (simp add: under_way_def offered_def acking_def write_ack_def)
  then have "queues_ok (acking s) = queues_ok s"
    unfolding queues_ok_def f by (simp add: live_def acking_def write_ack_def)
  ultimately show "vcore (acking s) = vcore s" by (simp add: vcore_def)
qed (simp_all add: acking_def write_ack_def ack_clears)

lemma virtio_disk_intr_spec:
  assumes "vinv s"
  shows "if \<forall>h\<in>set (finished s). i_status (v_info s h) = 0
    then runs (virtio_disk_intr (s\<lparr>v_irq := False\<rparr>)) (\<lambda>_ s'. vinv s' \<and> disk_abs s' = disk_abs s)
    else virtio_disk_intr (s\<lparr>v_irq := False\<rparr>) = Inl (Panic ''virtio_disk_intr status'')"
proof -
  let ?n = "Suc (unat (v_used_idx s - v_last s))"
  have c: "vcore (acking s)" and n: "length (finished (acking s)) < ?n"
    using assms by (simp_all add: vinv_def acking_fields) (simp add: finished_def)
  have e: "virtio_disk_intr (s\<lparr>v_irq := False\<rparr>) = loop ?n intr_step () (acking s)"
    by (simp add: virtio_disk_intr_def acking_def write_ack_def Let_def del: loop.simps)
  have g: "v_seen s \<noteq> v_avail_idx s \<longrightarrow> v_notify s" using assms by (simp add: vinv_def signals_ok_def)
  show ?thesis
    using intr_loop [OF c n] unfolding e acking_fields
    by (simp only: split: if_split_asm if_split) (auto simp: runs_def vinv_def signals_ok_def acking_fields g)
qed

section \<open>The device\<close>

lemma dev_fetch_ok:
  assumes v: "vinv s" and ne: "v_seen s \<noteq> v_avail_idx s"
  shows "vinv (dev_fetch s)" and "disk_abs (dev_fetch s) = disk_abs s"
proof -
  let ?t = "dev_fetch s"
  have F: "v_desc ?t = v_desc s" "v_free ?t = v_free s" "v_ops ?t = v_ops s" "v_info ?t = v_info s" "v_bufs ?t = v_bufs s"
      "v_pc ?t = v_pc s" "v_medium ?t = v_medium s" "finished ?t = finished s" "v_outcome ?t = v_outcome s"
      "v_notify ?t = v_notify s" "v_isr ?t = v_isr s" "v_irq ?t = v_irq s" "v_last ?t = v_last s" "v_used_idx ?t = v_used_idx s"
    by (simp_all add: dev_fetch_def finished_def)
  have "set (under_way ?t) = set (under_way s)" "distinct (under_way ?t) = distinct (under_way s)"
    using ring_items_get [OF ne, of NUM "v_avail_ring s"] by (auto simp: under_way_def offered_def dev_fetch_def)
  then have u: "set (under_way ?t @ finished s) = set (under_way s @ finished s)"
      "distinct (under_way ?t @ finished s) = distinct (under_way s @ finished s)" "set (under_way ?t) = set (under_way s)"
    by simp_all
  have w: "h \<in> set (v_work ?t)" if "h \<in> set (v_work s)" for h using that by (simp add: dev_fetch_def)
  have "reqs_ok ?t" if "reqs_ok s" by (rule reqs_ok_same [OF that]) (simp_all add: F)
  moreover have "bufs_ok ?t = bufs_ok s" "sleep_ok ?t = sleep_ok s" by (simp_all add: bufs_ok_def sleep_ok_def F)
  moreover have "queues_ok ?t" if "queues_ok s" using that w unfolding queues_ok_def live_def F u by blast
  moreover have "signals_ok ?t" if "signals_ok s" using that ne by (simp add: signals_ok_def F)
  ultimately show "vinv ?t" using v by (simp add: vinv_def vcore_def)
  show "disk_abs ?t = disk_abs s" using phase_of_cong [of ?t s] by (simp add: disk_abs_def F)
qed

text \<open>The device forgets a notification once it has taken everything.\<close>

lemma dev_idle_ok:
  assumes v: "vinv s" and e: "v_seen s = v_avail_idx s"
  shows "vinv (s\<lparr>v_notify := False\<rparr>)" and "disk_abs (s\<lparr>v_notify := False\<rparr>) = disk_abs s"
proof -
  let ?t = "s\<lparr>v_notify := False\<rparr>"
  have F: "offered ?t = offered s" "finished ?t = finished s" by (simp_all add: offered_def finished_def)
  have "reqs_ok s" "queues_ok s" "bufs_ok s" "sleep_ok s" "signals_ok s" using v by (simp_all add: vinv_def vcore_def)
  moreover have "reqs_ok ?t" by (rule reqs_ok_same [OF \<open>reqs_ok s\<close>]) simp_all
  moreover have "queues_ok ?t" by (rule queues_ok_same [OF \<open>queues_ok s\<close>]) (simp_all add: F)
  ultimately show "vinv ?t" using e by (simp add: vinv_def vcore_def bufs_ok_def sleep_ok_def signals_ok_def)
  show "disk_abs ?t = disk_abs s" using phase_of_cong [of ?t s] by (simp add: disk_abs_def)
qed

lemma work_chain:
  assumes v: "vinv s" and h: "h \<in> set (v_work s)"
  obtains p b w where "request (v_pc s p) = Some (b, w, h)" and "formatted s b w h (next_desc s h) (next_desc s (next_desc s h))" and "chain_ok s h"
proof -
  have "h \<in> set (under_way s @ finished s)" using h by (simp add: under_way_def)
  then obtain p b w where p: "request (v_pc s p) = Some (b, w, h)" by (rule queue_member [OF v])
  then have f: "formatted s b w h (next_desc s h) (next_desc s (next_desc s h))" using v reqs_okD(1) by (simp add: vinv_def vcore_def)
  then have "chain_ok s h" by (auto simp: chain_ok_def formatted_def VIRTIO_BLK_T_IN_def VIRTIO_BLK_T_OUT_def)
  with p f show ?thesis by (rule that)
qed

lemma sector_of_unat: "unat n < 2 ^ 31 \<Longrightarrow> 512 * unat (sector_of n) = 1024 * unat n"
  by (simp add: sector_of_def unsigned_ucast_eq unat_word_ariths take_bit_eq_mod)

text \<open>The state after the bytes of a request of the driver have moved, or were to move.\<close>

definition performed :: "nat \<Rightarrow> bool \<Rightarrow> nat \<Rightarrow> u8 \<Rightarrow> bytes \<Rightarrow> vstate \<Rightarrow> vstate" where
  "performed b w h st d s = (let off = 1024 * unat (bu_blockno (v_bufs s b)) in
     s\<lparr>v_medium := (if w then blit (v_medium s) off (if st = 0 then bu_data (v_bufs s b) else d) 0 1024 else v_medium s),
       v_bufs := (if w then v_bufs s else (v_bufs s)(b := (v_bufs s b)\<lparr>bu_data :=
         (if st = 0 then blit (bu_data (v_bufs s b)) 0 (v_medium s) off 1024 else blit (bu_data (v_bufs s b)) 0 d 0 1024)\<rparr>)),
       v_outcome := (v_outcome s)(h := Some st)\<rparr>)"

lemma dev_perform_eq:
  assumes "formatted s b w h j k" and "unat (bu_blockno (v_bufs s b)) < 2 ^ 31"
  shows "dev_perform h st d s = performed b w h st d s"
proof -
  note f = assms(1) [unfolded formatted_def]
  have n: "next_desc s h = j" "next_desc s j = k" using f by (simp_all add: next_desc_def)
  have "512 * unat (r_sector (v_ops s h)) = 1024 * unat (bu_blockno (v_bufs s b))" using f sector_of_unat [OF assms(2)] by simp
  then show ?thesis
    using f n by (simp add: dev_perform_def dev_move_def dev_damage_def performed_def Let_def VIRTIO_BLK_T_IN_def VIRTIO_BLK_T_OUT_def)
qed

lemma performed_fields:
  "v_desc (performed b w h st d s) = v_desc s" "v_free (performed b w h st d s) = v_free s" "v_ops (performed b w h st d s) = v_ops s"
  "v_pc (performed b w h st d s) = v_pc s" "offered (performed b w h st d s) = offered s" "finished (performed b w h st d s) = finished s"
  "v_work (performed b w h st d s) = v_work s" "v_info (performed b w h st d s) = v_info s"
  "v_outcome (performed b w h st d s) = (v_outcome s)(h := Some st)"
  "bu_blockno (v_bufs (performed b w h st d s) c) = bu_blockno (v_bufs s c)" "bu_disk (v_bufs (performed b w h st d s) c) = bu_disk (v_bufs s c)"
  "signals_ok (performed b w h st d s) = signals_ok s"
  by (simp_all add: performed_def Let_def, simp_all add: offered_def finished_def signals_ok_def)

lemma performed_moved:
  "a_medium (disk_abs (performed b w h st d s)) = (if w then blit (v_medium s) (1024 * unat (bu_blockno (v_bufs s b)))
     (if st = 0 then bu_data (v_bufs s b) else d) 0 1024 else v_medium s)"
  "a_data (disk_abs (performed b w h st d s)) = (if w then \<lambda>c. bu_data (v_bufs s c) else (\<lambda>c. bu_data (v_bufs s c))
     (b := if st = 0 then blit (bu_data (v_bufs s b)) 0 (v_medium s) (1024 * unat (bu_blockno (v_bufs s b))) 1024
       else blit (bu_data (v_bufs s b)) 0 d 0 1024))"
  by (simp_all add: disk_abs_def performed_def Let_def fun_eq_iff)

lemma performed_ok:
  assumes v: "vinv s" and h: "h \<in> set (v_work s)" and p: "request (v_pc s p) = Some (b, w, h)"
    and none: "v_outcome s h = None" and st: "st \<in> {0, 1, 2}"
  shows "vinv (performed b w h st d s)"
    and "disk_abs (performed b w h st d s) = (if st = 0 then set_phase p (Served b w) (transfer b w (disk_abs s))
      else set_phase p (Failed b w) (damage b w d (disk_abs s)))"
    and "a_phase (disk_abs s) p = Pending b w"
proof -
  let ?t = "performed b w h st d s"
  have r: "reqs_ok s" and B: "bufs_ok s" and q: "queues_ok s" and S: "sleep_ok s" and G: "signals_ok s"
    using v by (simp_all add: vinv_def vcore_def)
  have l: "live ?t k = live s k" for k unfolding live_def performed_fields ..
  have u: "under_way ?t = under_way s" by (simp add: under_way_def performed_fields)
  have "h' \<in> set (v_work s) \<and> st' \<in> {0, 1, 2}" if "v_outcome ?t h' = Some st'" for h' st'
    using that q h st unfolding queues_ok_def performed_fields by (auto split: if_splits)
  then have "queues_ok ?t" using q unfolding queues_ok_def u l performed_fields by blast
  moreover have "reqs_ok ?t" by (rule reqs_ok_same [OF r]) (simp_all add: performed_fields)
  moreover have "bufs_ok ?t" using B unfolding bufs_ok_def performed_fields .
  moreover have "sleep_ok ?t" using S unfolding sleep_ok_def performed_fields .
  ultimately show "vinv ?t" using G by (simp add: vinv_def vcore_def performed_fields)
  have "i_status (v_info s h) = 255" using q h unfolding queues_ok_def by (simp add: under_way_def)
  then show "a_phase (disk_abs s) p = Pending b w"
    by (simp add: disk_abs_def phase_of_request [OF p] reply_def none phase_by_def)
  let ?ph = "if st = 0 then Served b w else Failed b w"
  have "phase_of ?t (v_pc s q) = (if q = p then ?ph else phase_of s (v_pc s q))" for q
  proof (cases "q = p")
    case True
    then show ?thesis using st by (auto simp: phase_of_request [OF p] reply_def performed_fields phase_by_def)
  next
    case False
    have "reply ?t i = reply s i" if "request (v_pc s q) = Some (b', w', i)" for b' w' i
    proof -
      have "i \<noteq> h" using chain_unique(1) [OF r p] that False by blast
      then show ?thesis by (intro reply_cong) (simp_all add: performed_fields)
    qed
    then have "phase_of ?t (v_pc s q) = phase_of s (v_pc s q)" by (rule phase_of_reply)
    then show ?thesis using False by simp
  qed
  then have ph: "a_phase (disk_abs ?t) = (a_phase (disk_abs s))(p := ?ph)" by (simp add: disk_abs_def performed_fields fun_eq_iff)
  have bl: "a_block (disk_abs ?t) = a_block (disk_abs s)" by (simp add: disk_abs_def performed_fields)
  show "disk_abs ?t = (if st = 0 then set_phase p (Served b w) (transfer b w (disk_abs s))
      else set_phase p (Failed b w) (damage b w d (disk_abs s)))"
    by (rule adisk.equality) (simp_all only: ph bl performed_moved, simp_all add: set_phase_def transfer_def damage_def Let_def disk_abs_def)
qed

text \<open>The state after the device has written the status of a request and reported it.\<close>

definition completed :: "nat \<Rightarrow> u8 \<Rightarrow> vstate \<Rightarrow> vstate" where
  "completed h st s = s\<lparr>v_info := (v_info s)(h := (v_info s h)\<lparr>i_status := st\<rparr>),
     v_outcome := (v_outcome s)(h := None), v_work := remove1 h (v_work s),
     v_used_ring := ring_put NUM (of_nat h) (v_used_ring s) (v_used_idx s), v_used_idx := v_used_idx s + 1,
     v_irq := (v_irq s \<or> v_isr s AND 1 = 0), v_isr := v_isr s OR 1\<rparr>"

lemma dev_complete_eq:
  assumes "formatted s b w h j k"
  shows "dev_complete h st s = completed h st s"
proof -
  note f = assms [unfolded formatted_def]
  have n: "next_desc s h = j" "next_desc s j = k" using f by (simp_all add: next_desc_def)
  then show ?thesis using f by (simp add: dev_complete_def completed_def)
qed

lemma completed_fields:
  "v_desc (completed h st s) = v_desc s" "v_free (completed h st s) = v_free s" "v_ops (completed h st s) = v_ops s"
  "v_pc (completed h st s) = v_pc s" "offered (completed h st s) = offered s" "v_work (completed h st s) = remove1 h (v_work s)"
  "v_bufs (completed h st s) = v_bufs s" "v_medium (completed h st s) = v_medium s"
  "v_outcome (completed h st s) = (v_outcome s)(h := None)"
  "i_b (v_info (completed h st s) i) = i_b (v_info s i)" "i_status (v_info (completed h st s) i) = (if i = h then st else i_status (v_info s i))"
  by (simp_all add: completed_def, simp_all add: offered_def)

lemma completed_ok:
  assumes v: "vinv s" and h: "h \<in> set (v_work s)" and p: "request (v_pc s p) = Some (b, w, h)" and o: "v_outcome s h = Some st"
  shows "vinv (completed h st s)" and "disk_abs (completed h st s) = disk_abs s"
proof -
  let ?t = "completed h st s"
  have r: "reqs_ok s" and B: "bufs_ok s" and q: "queues_ok s" and S: "sleep_ok s" and G: "signals_ok s"
    using v by (simp_all add: vinv_def vcore_def)
  have nf: "h \<notin> set (finished s)" "distinct (finished s)" and d: "distinct (under_way s @ finished s)" and dw: "distinct (v_work s)"
    using q h unfolding queues_ok_def by (auto simp: under_way_def)
  have "length (finished s) < 8"
  proof (rule queue_room)
    show "\<forall>h\<in>set (finished s). h < 8" using queue_member [OF v] by auto
    show "h < 8" using reqs_okD(3) [OF r p] .
  qed (use nf in simp_all)
  then have "unat (v_used_idx s - v_last s) < 8" by (simp add: finished_def)
  then have f: "finished ?t = finished s @ [h]"
    using reqs_okD(3) [OF r p] by (simp add: finished_def completed_def ring_items_put)
  have u: "set (under_way ?t) = set (under_way s) - {h}" "set (under_way ?t @ finished ?t) = set (under_way s @ finished s)"
      "distinct (under_way ?t @ finished ?t)"
    using d h dw by (auto simp: under_way_def completed_fields f)
  have l: "live ?t k = live s k" for k unfolding live_def completed_fields ..
  have lh: "live s h" using q h unfolding queues_ok_def by (simp add: under_way_def)
  have st: "st \<in> {0, 1, 2}" using q o unfolding queues_ok_def by blast
  note rq = \<open>reqs_ok s\<close>
  have "queues_ok ?t"
    unfolding queues_ok_def
  proof (intro conjI ballI allI impI)
    fix k
    assume "k \<in> set (under_way ?t)"
    then show "live ?t k" "i_status (v_info ?t k) = 255" using q unfolding queues_ok_def u(1) l completed_fields by auto
  next
    fix k
    assume "k \<in> set (finished ?t)"
    then have k: "k = h \<or> k \<in> set (finished s)" by (auto simp: f)
    then show "live ?t k" using q lh unfolding queues_ok_def l by blast
    have "i_status (v_info s k) \<in> {0, 1, 2}" if "k \<noteq> h" using q k that unfolding queues_ok_def by blast
    then show "i_status (v_info ?t k) \<in> {0, 1, 2}" using st by (simp only: completed_fields split: if_split) blast
  next
    fix r b' w' i
    assume x: "request (v_pc ?t r) = Some (b', w', i)"
    then have x': "request (v_pc s r) = Some (b', w', i)" by (simp add: completed_fields)
    then have "if bu_disk (v_bufs s b') then i \<in> set (under_way s @ finished s) else i_status (v_info s i) = 0"
      using q unfolding queues_ok_def by blast
    moreover have "bu_disk (v_bufs s b')" if "i = h"
      using lh chain_unique(2) [OF rq x'] that unfolding live_def by blast
    ultimately show "if bu_disk (v_bufs ?t b') then i \<in> set (under_way ?t @ finished ?t) else i_status (v_info ?t i) = 0"
      unfolding u(2) completed_fields by (auto split: if_splits)
  next
    fix k st'
    assume "v_outcome ?t k = Some st'"
    then have k: "k \<noteq> h" "v_outcome s k = Some st'" by (simp_all add: completed_fields split: if_splits)
    then have "k \<in> set (v_work s)" "st' \<in> {0, 1, 2}" using q unfolding queues_ok_def by blast+
    then show "k \<in> set (v_work ?t)" "st' \<in> {0, 1, 2}" using k(1) by (simp_all add: completed_fields)
  qed (rule u(3))
  moreover have "reqs_ok ?t" by (rule reqs_ok_same [OF r]) (simp_all add: completed_fields)
  moreover have "bufs_ok ?t" using B unfolding bufs_ok_def completed_fields .
  moreover have "sleep_ok ?t" using S unfolding sleep_ok_def completed_fields .
  moreover have "signals_ok ?t" using G by (auto simp: signals_ok_def completed_def)
  ultimately show "vinv ?t" by (simp add: vinv_def vcore_def)
  have "reply ?t i = reply s i" for i
  proof (cases "i = h")
    case True
    then show ?thesis by (simp add: reply_def completed_fields o)
  next
    case False
    then show ?thesis by (intro reply_cong) (simp_all add: completed_fields)
  qed
  then have "phase_of ?t (v_pc s q) = phase_of s (v_pc s q)" for q by (rule phase_of_reply)
  then show "disk_abs ?t = disk_abs s" by (simp add: disk_abs_def completed_fields)
qed

lemma device_step_ok:
  assumes v: "vinv s" and d: "device_step s s'"
  shows "vinv s' \<and> (disk_abs s' = disk_abs s \<or> astep (disk_abs s) (disk_abs s'))"
  using d unfolding device_step_def
proof (elim disjE bexE conjE exE)
  fix h
  assume h: "h \<in> set (v_work s)" and n: "v_outcome s h = None"
    and c: "chain_ok s h \<longrightarrow> (\<exists>st d. st \<in> {0, 1, 2} \<and> s' = dev_perform h st d s)"
  obtain p b w where p: "request (v_pc s p) = Some (b, w, h)" and f: "formatted s b w h (next_desc s h) (next_desc s (next_desc s h))"
    and "chain_ok s h" using work_chain [OF v h] by blast
  then obtain st and d :: bytes where st: "st \<in> {0, 1, 2}" "s' = dev_perform h st d s" using c by blast
  have "unat (bu_blockno (v_bufs s b)) < 2 ^ 31" using v by (simp add: vinv_def vcore_def bufs_ok_def)
  then have s': "s' = performed b w h st d s" using st(2) dev_perform_eq [OF f] by simp
  note P = performed_ok [OF v h p n st(1)]
  have "astep (disk_abs s) (disk_abs s')" unfolding s' P(2) using a_serve [OF P(3)] a_fail [OF P(3), of d] by simp
  then show ?thesis using P(1) by (simp add: s')
next
  fix h st
  assume h: "h \<in> set (v_work s)" and o: "v_outcome s h = Some st" and c: "chain_ok s h \<longrightarrow> s' = dev_complete h st s"
  obtain p b w where p: "request (v_pc s p) = Some (b, w, h)" and f: "formatted s b w h (next_desc s h) (next_desc s (next_desc s h))"
    and "chain_ok s h" using work_chain [OF v h] by blast
  then have "s' = completed h st s" using c dev_complete_eq [OF f] by simp
  then show ?thesis using completed_ok [OF v h p o] by simp
qed (use dev_fetch_ok [OF v] dev_idle_ok [OF v] in auto)

section \<open>Every run\<close>

text \<open>A state of a run that starts with a successful \<^verbatim>\<open>virtio_disk_init\<close>, with buffers of an addressable disk.\<close>

definition running :: "(vstate \<Rightarrow> vstate \<Rightarrow> bool) \<Rightarrow> vstate \<Rightarrow> bool" where
  "running dev s \<longleftrightarrow> (\<exists>rd after pages bs m ws s0. virtio_disk_init rd after pages (boot_disk bs m) = Inr (ws, s0)
     \<and> (\<forall>b. \<not> bu_disk (bs b) \<and> unat (bu_blockno (bs b)) < 2 ^ 31) \<and> vreach dev s0 s)"

lemma vinv_init:
  assumes i: "virtio_disk_init rd after pages (boot_disk bs m) = Inr (ws, s0)"
    and b: "\<forall>b. \<not> bu_disk (bs b) \<and> unat (bu_blockno (bs b)) < 2 ^ 31"
  shows "vinv s0"
proof -
  have F: "v_free s0 = (\<lambda>i. i < 8)" "v_pc s0 = (\<lambda>_. Outside)" "v_bufs s0 = bs" "v_work s0 = []"
      "v_seen s0 = 0" "v_avail_idx s0 = 0" "v_last s0 = 0" "v_used_idx s0 = 0" "v_outcome s0 = (\<lambda>_. None)" "v_isr s0 = 0"
    using i by (auto simp: virtio_disk_init_def boot_disk_def Let_def split: prod.splits if_splits)
  have "offered s0 = []" "finished s0 = []" by (simp_all add: offered_def finished_def F)
  then show ?thesis
    using b by (simp add: vinv_def vcore_def reqs_ok_def bufs_ok_def queues_ok_def sleep_ok_def signals_ok_def under_way_def F)
qed

lemma phase_buf_phase_of [simp]: "phase_buf (phase_of s c) = using_buf c"
  by (cases c) (simp_all add: phase_of_def phase_by_def)

lemma reuse_ok:
  fixes d :: bytes
  assumes v: "vinv s" and u: "unused_buf b s" and n: "unat n < 2 ^ 31"
  defines "t \<equiv> s\<lparr>v_bufs := (v_bufs s)(b := (v_bufs s b)\<lparr>bu_blockno := n, bu_data := d\<rparr>)\<rparr>"
  shows "vinv t" and "astep (disk_abs s) (disk_abs t)"
proof -
  have F: "v_desc t = v_desc s" "v_free t = v_free s" "v_ops t = v_ops s" "v_info t = v_info s" "v_pc t = v_pc s"
      "offered t = offered s" "finished t = finished s" "v_work t = v_work s" "v_medium t = v_medium s"
      "v_outcome t = v_outcome s" "signals_ok t = signals_ok s" "bu_disk (v_bufs t c) = bu_disk (v_bufs s c)" "bu_blockno (v_bufs t c) = (if c = b then n else bu_blockno (v_bufs s c))"
      "bu_data (v_bufs t c) = (if c = b then d else bu_data (v_bufs s c))" for c
    by (simp_all add: t_def offered_def finished_def signals_ok_def)
  have "reqs_ok t" if "reqs_ok s" by (rule reqs_ok_same [OF that]) (use u in \<open>auto simp: F unused_buf_def\<close>)
  moreover have "queues_ok t" if "queues_ok s" by (rule queues_ok_same [OF that]) (simp_all add: F)
  moreover have "bufs_ok t" if "bufs_ok s" using that n by (simp add: bufs_ok_def F)
  moreover have "sleep_ok t" if "sleep_ok s" using that by (simp add: sleep_ok_def F)
  ultimately show "vinv t" using v by (simp add: vinv_def vcore_def F)
  have "\<forall>q. phase_buf (a_phase (disk_abs s) q) \<noteq> Some b" using u by (simp add: disk_abs_def unused_buf_def)
  then have "astep (disk_abs s) ((disk_abs s)\<lparr>a_block := (a_block (disk_abs s))(b := n), a_data := (a_data (disk_abs s))(b := d)\<rparr>)"
    by (rule a_reuse)
  also have "(disk_abs s)\<lparr>a_block := (a_block (disk_abs s))(b := n), a_data := (a_data (disk_abs s))(b := d)\<rparr> = disk_abs t"
    using phase_of_cong [of t s] by (simp add: disk_abs_def F fun_upd_def)
  finally show "astep (disk_abs s) (disk_abs t)" .
qed

lemma caller_outside: "v_pc s p = Outside \<Longrightarrow> unused_buf b s \<Longrightarrow> caller s p b"
  by (simp add: caller_def unused_buf_def)

lemma caller_retry: "vinv s \<Longrightarrow> v_pc s p = Retry b w \<Longrightarrow> caller s p b"
  using request_using by (auto simp: caller_def vinv_def vcore_def bufs_ok_def)

lemma vstep_ok:
  assumes dev: "\<forall>s s'. dev s s' \<longrightarrow> device_step s s'" and v: "vinv s" and st: "vstep dev s s'"
  shows "vinv s' \<and> (disk_abs s' = disk_abs s \<or> astep (disk_abs s) (disk_abs s'))"
  using st
proof cases
  case (call p b w)
  then have "vinv s' \<and> disk_abs s' = set_phase p (Pending b w) (disk_abs s)"
    using rw_alloc_runs [OF v caller_outside, of p b w] by simp
  moreover have "a_phase (disk_abs s) p = Absent" "\<forall>q. phase_buf (a_phase (disk_abs s) q) \<noteq> Some b"
    using call(1,2) by (simp_all add: disk_abs_def unused_buf_def)
  ultimately show ?thesis using a_call by metis
next
  case (retry p b w)
  then have "vinv s' \<and> disk_abs s' = set_phase p (Pending b w) (disk_abs s)"
    using rw_alloc_runs [OF v caller_retry, of p b w w] v by simp
  moreover have "set_phase p (Pending b w) (disk_abs s) = disk_abs s" using retry(1) by (auto simp: set_phase_def disk_abs_def)
  ultimately show ?thesis by simp
next
  case (resume p b w i)
  then have "vinv s' \<and> (disk_abs s' = disk_abs s \<or> a_phase (disk_abs s) p = Served b w \<and> disk_abs s' = set_phase p Absent (disk_abs s))"
    using rw_finish_runs [OF v resume(1)] by simp
  then show ?thesis using a_return by metis
next
  case interrupt
  then show ?thesis using virtio_disk_intr_spec [OF v] by (auto split: if_splits)
next
  case device
  then show ?thesis using dev device_step_ok [OF v] by blast
next
  case (reuse b n d)
  then show ?thesis using reuse_ok [OF v reuse(2,3)] by simp
qed

lemma running_inv:
  assumes "\<forall>s s'. dev s s' \<longrightarrow> device_step s s'" and "running dev s"
  shows "vinv s"
proof -
  obtain rd after pages bs m ws s0 where "vinv s0" "vreach dev s0 s"
    using assms(2) vinv_init unfolding running_def by blast
  from this(2,1) show ?thesis by (induction rule: vreach.induct) (use vstep_ok [OF assms(1)] in auto)
qed

text \<open>C8: In every state of every run of the disk driver with a device that follows the specification, no call of
  \<^verbatim>\<open>virtio_disk_rw\<close> and no process woken inside it panics or follows a null pointer, the interrupt handler panics if the
  device has reported a failed request and otherwise ends, and the descriptors in use are exactly the three-descriptor
  chains of the requests under way.\<close>

theorem virtio_disk_safe:
  assumes "\<forall>s s'. dev s s' \<longrightarrow> device_step s s'" and "running dev s"
  shows "(\<forall>p b w. v_pc s p = Outside \<and> unused_buf b s \<longrightarrow> runs (rw_alloc p b w s) (\<lambda>_ _. True))
    \<and> (\<forall>p b w. v_pc s p = Retry b w \<longrightarrow> runs (rw_alloc p b w s) (\<lambda>_ _. True))
    \<and> (\<forall>p b w i. v_pc s p = Check b w i \<longrightarrow> runs (rw_finish p b w i s) (\<lambda>_ _. True))
    \<and> (if \<forall>h\<in>set (finished s). i_status (v_info s h) = 0 then runs (virtio_disk_intr (s\<lparr>v_irq := False\<rparr>)) (\<lambda>_ _. True)
        else virtio_disk_intr (s\<lparr>v_irq := False\<rparr>) = Inl (Panic ''virtio_disk_intr status''))
    \<and> {d. d < NUM \<and> \<not> v_free s d} = (\<Union>(b, w, i)\<in>{x. \<exists>q. request (v_pc s q) = Some x}. set (chain s i))"
proof (intro conjI allI impI)
  note v = running_inv [OF assms]
  show "runs (rw_alloc p b w s) (\<lambda>_ _. True)" if "v_pc s p = Outside \<and> unused_buf b s" for p b w
    by (rule runs_mono [OF rw_alloc_runs [OF v caller_outside]]) (use that in simp_all)
  show "runs (rw_alloc p b w s) (\<lambda>_ _. True)" if "v_pc s p = Retry b w" for p b w
    by (rule runs_mono [OF rw_alloc_runs [OF v caller_retry [OF v that]]]) simp
  show "runs (rw_finish p b w i s) (\<lambda>_ _. True)" if "v_pc s p = Check b w i" for p b w i
    by (rule runs_mono [OF rw_finish_runs [OF v that]]) simp
  show "if \<forall>h\<in>set (finished s). i_status (v_info s h) = 0 then runs (virtio_disk_intr (s\<lparr>v_irq := False\<rparr>)) (\<lambda>_ _. True)
      else virtio_disk_intr (s\<lparr>v_irq := False\<rparr>) = Inl (Panic ''virtio_disk_intr status'')"
    using virtio_disk_intr_spec [OF v] by (auto split: if_splits elim: runs_mono)
  have r: "reqs_ok s" using v by (simp add: vinv_def vcore_def)
  show "{d. d < NUM \<and> \<not> v_free s d} = (\<Union>(b, w, i)\<in>{x. \<exists>q. request (v_pc s q) = Some x}. set (chain s i))"
  proof (intro set_eqI iffI)
    fix d
    assume "d \<in> {d. d < NUM \<and> \<not> v_free s d}"
    then obtain q b w i where "request (v_pc s q) = Some (b, w, i)" "d \<in> set (chain s i)" using r unfolding reqs_ok_def by auto
    then show "d \<in> (\<Union>(b, w, i)\<in>{x. \<exists>q. request (v_pc s q) = Some x}. set (chain s i))" by blast
  qed (use reqs_okD(2) [OF r] in auto)
qed

text \<open>C3: The driver with a device that moves the bytes of a request in one step, in any order, and may fail it, refines a
  disk that serves each request of \<^verbatim>\<open>virtio_disk_rw\<close> by one atomic transfer of one block between its call and its return:
  every step changes nothing that a client sees, or is a call, such a transfer for a pending request, the failure of a
  pending request, which then never returns, or the return of a request that has been served.\<close>

theorem virtio_disk_refines:
  assumes "\<forall>s s'. dev s s' \<longrightarrow> device_step s s'" and "running dev s" and "vstep dev s s'"
  shows "disk_abs s' = disk_abs s \<or> astep (disk_abs s) (disk_abs s')"
  using vstep_ok [OF assms(1) running_inv [OF assms(1,2)] assms(3)] by blast


section \<open>A run\<close>

text \<open>A machine whose disk answers as the driver expects, and a device that does whatever the specification allows.\<close>

definition demo_rd :: "u32 \<Rightarrow> u32" where
  "demo_rd r = (if r = VIRTIO_MMIO_MAGIC_VALUE then 0x74726976 else if r = VIRTIO_MMIO_VERSION then 2
     else if r = VIRTIO_MMIO_DEVICE_ID then 2 else if r = VIRTIO_MMIO_VENDOR_ID then 0x554d4551
     else if r = VIRTIO_MMIO_QUEUE_NUM_MAX then 1024 else 0)"

definition demo_buf :: dbuf where
  "demo_buf = \<lparr>bu_blockno = 46, bu_disk = False, bu_data = (\<lambda>_. 7)\<rparr>"

definition demo_disk :: vstate where
  "demo_disk = (case virtio_disk_init demo_rd id (0x80020000, 0x80021000, 0x80022000) (boot_disk (\<lambda>_. demo_buf) (\<lambda>_. 0)) of
     Inr (ws, s) \<Rightarrow> s | Inl e \<Rightarrow> boot_disk (\<lambda>_. demo_buf) (\<lambda>_. 0))"

lemma demo_running: "running device_step demo_disk"
proof -
  have "\<exists>ws. virtio_disk_init demo_rd id (0x80020000, 0x80021000, 0x80022000) (boot_disk (\<lambda>_. demo_buf) (\<lambda>_. 0)) = Inr (ws, demo_disk)"
    by (simp add: demo_disk_def virtio_disk_init_def Let_def demo_rd_def VIRTIO_MMIO_MAGIC_VALUE_def VIRTIO_MMIO_VERSION_def
        VIRTIO_MMIO_DEVICE_ID_def VIRTIO_MMIO_VENDOR_ID_def VIRTIO_MMIO_QUEUE_NUM_MAX_def VIRTIO_MMIO_QUEUE_READY_def
        VIRTIO_CONFIG_S_ACKNOWLEDGE_def VIRTIO_CONFIG_S_DRIVER_def VIRTIO_CONFIG_S_FEATURES_OK_def)
  moreover have "\<forall>b::nat. \<not> bu_disk demo_buf \<and> unat (bu_blockno demo_buf) < 2 ^ 31" by (simp add: demo_buf_def)
  ultimately show ?thesis using vreach_init unfolding running_def by fast
qed

lemma demo_pc: "v_pc demo_disk p = Outside" "unused_buf b demo_disk"
  by (simp_all add: demo_disk_def virtio_disk_init_def Let_def boot_disk_def unused_buf_def split: sum.splits if_splits)

lemma virtio_disk_safe_witness: "runs (rw_alloc 3 5 True demo_disk) (\<lambda>_ _. True)"
  using virtio_disk_safe [OF allI [OF allI [OF imp_refl]] demo_running, THEN conjunct1, rule_format, of 3 5 True] demo_pc by simp

text \<open>Process 3 writes the block of buffer 5.\<close>

lemma demo_call: "\<exists>s'. rw_alloc 3 5 True demo_disk = Inr ((), s') \<and> v_pc s' 3 = WaitDisk 5 True 0
    \<and> running device_step s' \<and> vstep device_step demo_disk s'"
proof -
  have "v_free demo_disk d" if "d < 8" for d
    using that by (simp add: demo_disk_def virtio_disk_init_def Let_def demo_rd_def VIRTIO_MMIO_MAGIC_VALUE_def VIRTIO_MMIO_VERSION_def
        VIRTIO_MMIO_DEVICE_ID_def VIRTIO_MMIO_VENDOR_ID_def VIRTIO_MMIO_QUEUE_NUM_MAX_def VIRTIO_MMIO_QUEUE_READY_def
        VIRTIO_CONFIG_S_ACKNOWLEDGE_def VIRTIO_CONFIG_S_DRIVER_def VIRTIO_CONFIG_S_FEATURES_OK_def)
  moreover have "taken {0, 1, 2} demo_disk = demo_disk\<lparr>v_free := (v_free demo_disk)(0 := False, 1 := False, 2 := False)\<rparr>"
    by (auto simp: taken_def fun_upd_def fun_eq_iff)
  ultimately have "rw_alloc 3 5 True demo_disk = Inr ((), submitted 3 5 True 0 1 2 demo_disk)"
    by (simp add: rw_alloc_def alloc3_desc_def alloc_desc_def first_index_def upt_rec eval_nat_numeral submitted_def)
  moreover from this have "vstep device_step demo_disk (submitted 3 5 True 0 1 2 demo_disk)" by (rule call [OF demo_pc])
  moreover from this have "running device_step (submitted 3 5 True 0 1 2 demo_disk)"
    using demo_running vreach_step unfolding running_def by fast
  ultimately show ?thesis by (simp add: submitted_fields)
qed

lemma virtio_disk_refines_witness:
  "\<exists>s'. rw_alloc 3 5 True demo_disk = Inr ((), s') \<and> (disk_abs s' = disk_abs demo_disk \<or> astep (disk_abs demo_disk) (disk_abs s'))"
  using demo_call virtio_disk_refines [OF allI [OF allI [OF imp_refl]] demo_running] by blast


end
