(* ===== verification/Grep.thy ===== *)
theory Grep
  imports Prelude
begin

text \<open>
  The user program \<^verbatim>\<open>grep\<close> (\<^verbatim>\<open>user/grep.c\<close>): the matcher for patterns with \<^verbatim>\<open>^ . * $\<close>, and the loop that finds the
  lines in what \<^verbatim>\<open>read\<close> delivers. A string is the list of its bytes before the NUL.
\<close>

section \<open>The matcher\<close>

definition CARET :: u8 where "CARET = 94"
definition DOLLAR :: u8 where "DOLLAR = 36"
definition DOT :: u8 where "DOT = 46"
definition STAR :: u8 where "STAR = 42"

text \<open>\<^verbatim>\<open>s[0]\<close>: the NUL at the end of the list.\<close>

fun char0 :: "u8 list \<Rightarrow> u8" where
  "char0 [] = 0"
| "char0 (c # s) = c"

definition match_measure :: "(u8 list \<times> u8 list + u8 \<times> u8 list \<times> u8 list) \<Rightarrow> nat \<times> nat \<times> nat" where
  "match_measure x = (case x of Inl (re, t) \<Rightarrow> (length re, length t, 0) | Inr (c, re, t) \<Rightarrow> (length re, length t, 1))"

function matchhere :: "u8 list \<Rightarrow> u8 list \<Rightarrow> bool" and matchstar :: "u8 \<Rightarrow> u8 list \<Rightarrow> u8 list \<Rightarrow> bool" where
  "matchhere re t =
     (if re = [] then True
      else if char0 (tl re) = STAR then matchstar (char0 re) (tl (tl re)) t
      else if char0 re = DOLLAR \<and> tl re = [] then t = []
      else if t \<noteq> [] \<and> (char0 re = DOT \<or> char0 re = char0 t) then matchhere (tl re) (tl t)
      else False)"
| "matchstar c re t =
     (if matchhere re t then True
      else if t \<noteq> [] \<and> (char0 t = c \<or> c = DOT) then matchstar c re (tl t)
      else False)"
  by pat_completeness auto

termination
proof (relation "inv_image (less_than <*lex*> less_than <*lex*> less_than) match_measure")
  show "(Inr (char0 re, tl (tl re), t), Inl (re, t)) \<in> inv_image (less_than <*lex*> less_than <*lex*> less_than) match_measure"
    if "re \<noteq> []" "char0 (tl re) = STAR" for re t
    using that by (cases re) (auto simp: match_measure_def)
qed (auto simp: match_measure_def neq_Nil_conv)

declare matchhere.simps [simp del] matchstar.simps [simp del]

text \<open>\<^verbatim>\<open>do ... while(*text++ != 0)\<close>: every suffix is tried, the empty one too.\<close>

fun match_from :: "u8 list \<Rightarrow> u8 list \<Rightarrow> bool" where
  "match_from re [] = matchhere re []"
| "match_from re (c # t) = (if matchhere re (c # t) then True else match_from re t)"

definition match :: "u8 list \<Rightarrow> u8 list \<Rightarrow> bool" where
  "match re t = (if char0 re = CARET then matchhere (tl re) t else match_from re t)"

section \<open>What a pattern means\<close>

text \<open>
  A pattern is a sequence of atoms: one character, any number of characters, or the end of the line. A dot stands for
  every character; a star belongs to the character before it; a dollar is the end only as the last character.
\<close>

datatype atom = One u8 | Many u8 | Finish

fun atoms :: "u8 list \<Rightarrow> atom list" where
  "atoms [] = []"
| "atoms [c] = (if c = DOLLAR then [Finish] else [One c])"
| "atoms (c # d # re) = (if d = STAR then Many c # atoms re else One c # atoms (d # re))"

definition fits :: "u8 \<Rightarrow> u8 \<Rightarrow> bool" where
  "fits c x \<longleftrightarrow> c = DOT \<or> c = x"

text \<open>\<open>denotes as w rest\<close>: the atoms describe the text \<open>w\<close> when \<open>rest\<close> follows it on the line.\<close>

inductive denotes :: "atom list \<Rightarrow> u8 list \<Rightarrow> u8 list \<Rightarrow> bool" where
  denotes_Nil: "denotes [] [] rest"
| denotes_One: "fits c x \<Longrightarrow> denotes as w rest \<Longrightarrow> denotes (One c # as) (x # w) rest"
| denotes_Many: "\<forall>x\<in>set u. fits c x \<Longrightarrow> denotes as w rest \<Longrightarrow> denotes (Many c # as) (u @ w) rest"
| denotes_Finish: "denotes [Finish] [] []"

inductive_cases denotes_OneE: "denotes (One c # as) w rest"
inductive_cases denotes_ManyE: "denotes (Many c # as) w rest"
inductive_cases denotes_FinishE: "denotes (Finish # as) w rest"

definition prefix_matches :: "u8 list \<Rightarrow> u8 list \<Rightarrow> bool" where
  "prefix_matches re t \<longleftrightarrow> (\<exists>w rest. t = w @ rest \<and> denotes (atoms re) w rest)"

lemma denotes_One_iff: "denotes (One c # as) w rest \<longleftrightarrow> (\<exists>x w'. w = x # w' \<and> fits c x \<and> denotes as w' rest)"
  by (auto elim: denotes_OneE intro: denotes.intros)

lemma denotes_Many_iff: "denotes (Many c # as) w rest \<longleftrightarrow>
    denotes as w rest \<or> (\<exists>x w'. w = x # w' \<and> fits c x \<and> denotes (Many c # as) w' rest)" (is "_ \<longleftrightarrow> ?R")
proof
  assume "denotes (Many c # as) w rest"
  then obtain u v where w: "w = u @ v" "\<forall>x\<in>set u. fits c x" "denotes as v rest" by (auto elim: denotes_ManyE)
  show ?R
  proof (cases u)
    case (Cons x u')
    then have "denotes (Many c # as) (u' @ v) rest" using w by (intro denotes_Many) auto
    then show ?thesis using w Cons by auto
  qed (use w in simp)
next
  assume ?R
  then show "denotes (Many c # as) w rest"
  proof
    assume "denotes as w rest"
    then show ?thesis using denotes_Many [of "[]" c as w rest] by simp
  next
    assume "\<exists>x w'. w = x # w' \<and> fits c x \<and> denotes (Many c # as) w' rest"
    then obtain x w' where w: "w = x # w'" "fits c x" "denotes (Many c # as) w' rest" by blast
    then obtain u v where "w' = u @ v" "\<forall>x\<in>set u. fits c x" "denotes as v rest" by (auto elim: denotes_ManyE)
    then show ?thesis using denotes_Many [of "x # u" c as v rest] w by simp
  qed
qed

lemma denotes_Finish_iff: "denotes [Finish] w rest \<longleftrightarrow> w = [] \<and> rest = []"
  by (auto elim: denotes_FinishE intro: denotes.intros)

lemma denotes_Nil_iff: "denotes [] w rest \<longleftrightarrow> w = []"
  by (auto elim: denotes.cases intro: denotes.intros)

lemma prefix_simps:
  "(\<exists>w rest. t = w @ rest \<and> denotes [] w rest) \<longleftrightarrow> True"
  "(\<exists>w rest. t = w @ rest \<and> denotes [Finish] w rest) \<longleftrightarrow> t = []"
  "(\<exists>w rest. t = w @ rest \<and> denotes (One c # as) w rest) \<longleftrightarrow>
     t \<noteq> [] \<and> fits c (hd t) \<and> (\<exists>w rest. tl t = w @ rest \<and> denotes as w rest)"
  "(\<exists>w rest. t = w @ rest \<and> denotes (Many c # as) w rest) \<longleftrightarrow>
     (\<exists>w rest. t = w @ rest \<and> denotes as w rest)
     \<or> t \<noteq> [] \<and> fits c (hd t) \<and> (\<exists>w rest. tl t = w @ rest \<and> denotes (Many c # as) w rest)"
proof -
  show "(\<exists>w rest. t = w @ rest \<and> denotes (Many c # as) w rest) \<longleftrightarrow>
     (\<exists>w rest. t = w @ rest \<and> denotes as w rest)
     \<or> t \<noteq> [] \<and> fits c (hd t) \<and> (\<exists>w rest. tl t = w @ rest \<and> denotes (Many c # as) w rest)"
    (is "?L \<longleftrightarrow> ?A \<or> ?B")
  proof
    show "?A \<or> ?B" if ?L using that by (subst (asm) denotes_Many_iff) auto
    show ?L if "?A \<or> ?B"
      using that
    proof
      assume ?B
      then obtain x w rest where "t = x # w @ rest" "fits c x" "denotes (Many c # as) w rest" by (cases t) auto
      then have "t = (x # w) @ rest \<and> denotes (Many c # as) (x # w) rest" by (subst denotes_Many_iff) auto
      then show ?L by blast
    qed (subst denotes_Many_iff, blast)
  qed
  show "(\<exists>w rest. t = w @ rest \<and> denotes (One c # as) w rest) \<longleftrightarrow>
     t \<noteq> [] \<and> fits c (hd t) \<and> (\<exists>w rest. tl t = w @ rest \<and> denotes as w rest)"
    (is "?L \<longleftrightarrow> ?R")
  proof
    show ?R if ?L using that unfolding denotes_One_iff by auto blast
    show ?L if r: ?R
    proof -
      obtain x w rest where "t = x # w @ rest" "fits c x" "denotes as w rest" using r by (cases t) (simp, auto)
      then have "t = (x # w) @ rest \<and> denotes (One c # as) (x # w) rest" unfolding denotes_One_iff by simp
      then show ?thesis by blast
    qed
  qed
qed (auto simp: denotes_Nil_iff denotes_Finish_iff)

lemma matchhere_prefix: "matchhere re t \<longleftrightarrow> prefix_matches re t"
  and matchstar_prefix: "matchstar c re t \<longleftrightarrow> (\<exists>w rest. t = w @ rest \<and> denotes (Many c # atoms re) w rest)"
proof (induction re t and c re t rule: matchhere_matchstar.induct)
  case (1 re t)
  note IH = 1
  show ?case
  proof (cases re rule: atoms.cases)
    case 1
    then show ?thesis by (simp add: matchhere.simps [of "[]"] prefix_matches_def prefix_simps)
  next
    case (2 c)
    have z: "char0 [] \<noteq> STAR" by (simp add: STAR_def)
    show ?thesis
    proof (cases "c = DOLLAR")
      case True
      then show ?thesis using 2 z by (simp add: matchhere.simps [of "[c]"] matchhere.simps [of "[DOLLAR]"] prefix_matches_def prefix_simps)
    next
      case False
      have p: "prefix_matches [c] t \<longleftrightarrow> t \<noteq> [] \<and> fits c (hd t)"
        using False unfolding prefix_matches_def by (simp only: atoms.simps if_False prefix_simps simp_thms)
      show ?thesis unfolding 2 p using z False
        by (cases t) (simp_all add: matchhere.simps [of "[c]"] matchhere.simps [of "[]"] fits_def)
    qed
  next
    case (3 c d r)
    show ?thesis
    proof (cases "d = STAR")
      case True
      then show ?thesis using IH(1) 3 by (simp add: matchhere.simps [of "c # STAR # r"] prefix_matches_def)
    next
      case False
      then have p: "prefix_matches (c # d # r) t \<longleftrightarrow> t \<noteq> [] \<and> fits c (hd t) \<and> prefix_matches (d # r) (tl t)"
        unfolding prefix_matches_def by (simp only: atoms.simps if_False prefix_simps simp_thms)
      show ?thesis unfolding 3 p using IH(2) 3 False
        by (cases t) (simp_all add: matchhere.simps [of "c # d # r"] fits_def)
    qed
  qed
next
  case (2 c re t)
  show ?case
    by (subst matchstar.simps, subst prefix_simps(4))
      (use 2 in \<open>cases t; auto simp: prefix_matches_def fits_def\<close>)
qed

text \<open>C34: The matcher accepts a line exactly when the pattern, read as atoms, describes a piece of it that starts
  anywhere, or at its beginning for a pattern with a caret; it ends for every pattern and line.\<close>

theorem match_spec:
  "match re t \<longleftrightarrow> (if char0 re = CARET then prefix_matches (tl re) t else \<exists>u v. t = u @ v \<and> prefix_matches re v)"
proof -
  have "match_from re t \<longleftrightarrow> (\<exists>u v. t = u @ v \<and> prefix_matches re v)"
  proof (induction t)
    case (Cons c t)
    have "(\<exists>u v. c # t = u @ v \<and> prefix_matches re v) \<longleftrightarrow>
        prefix_matches re (c # t) \<or> (\<exists>u v. t = u @ v \<and> prefix_matches re v)"
      by (auto simp: Cons_eq_append_conv)
    then show ?case using Cons by (simp add: matchhere_prefix)
  qed (simp add: matchhere_prefix)
  then show ?thesis by (simp add: match_def matchhere_prefix)
qed

section \<open>The lines of a file\<close>

text \<open>\<^verbatim>\<open>strchr(p, '\n')\<close>: the bytes before the first newline and those after it, unless a NUL comes first.\<close>

fun split_line :: "u8 list \<Rightarrow> (u8 list \<times> u8 list) option" where
  "split_line [] = None"
| "split_line (c # s) = (if c = 0 then None else if c = 10 then Some ([], s)
     else map_option (\<lambda>(l, r). (c # l, r)) (split_line s))"

lemma split_line_length: "split_line b = Some (l, r) \<Longrightarrow> length r < length b"
  by (induction b arbitrary: l r) (auto split: if_splits)

text \<open>The inner loop: what is written, and the bytes from \<^verbatim>\<open>p\<close> on that are moved to the front of the buffer.\<close>

function grep_lines :: "u8 list \<Rightarrow> u8 list \<Rightarrow> u8 list \<times> u8 list" where
  "grep_lines pattern b = (case split_line b of
       None \<Rightarrow> ([], b)
     | Some (l, r) \<Rightarrow> (case grep_lines pattern r of (out, r') \<Rightarrow>
         ((if match pattern l then l @ [10] else []) @ out, r')))"
  by pat_completeness auto

termination by (relation "measure (\<lambda>(pattern, b). length b)") (auto dest: split_line_length)

declare grep_lines.simps [simp del]

definition BUFSIZE :: nat where "BUFSIZE = 1024"

text \<open>
  How many bytes \<^verbatim>\<open>read\<close> delivers into \<open>room\<close> bytes of buffer: at least one while there are some, at most \<open>k + 1\<close>,
  where \<open>k\<close> is the choice of the file or pipe behind the descriptor.
\<close>

definition read_len :: "nat \<Rightarrow> nat \<Rightarrow> u8 list \<Rightarrow> nat" where
  "read_len k room inp = min (length inp) (min room (Suc k))"

text \<open>The outer loop: \<open>b\<close> is the buffer's content, \<open>inp\<close> what the descriptor has left.\<close>

function grep :: "u8 list \<Rightarrow> (nat \<Rightarrow> nat) \<Rightarrow> nat \<Rightarrow> u8 list \<Rightarrow> u8 list \<Rightarrow> u8 list" where
  "grep pattern pick i b inp = (let n = read_len (pick i) (BUFSIZE - length b - 1) inp in
     if n = 0 then []
     else case grep_lines pattern (b @ take n inp) of (out, b') \<Rightarrow> out @ grep pattern pick (Suc i) b' (drop n inp))"
  by pat_completeness auto

termination by (relation "measure (\<lambda>(pattern, pick, i, b, inp). length inp)") (auto simp: read_len_def)

declare grep.simps [simp del]

text \<open>
  \<^verbatim>\<open>main\<close>: the arguments, what \<^verbatim>\<open>open\<close> gives for a name (the file's bytes, or a failure), the bytes on descriptor 0.
  The result is the exit status and what was written to descriptors 1 and 2.
\<close>

fun ascii :: "string \<Rightarrow> u8 list" where
  "ascii s = map of_char s"

fun grep_files :: "u8 list \<Rightarrow> (nat \<Rightarrow> nat) \<Rightarrow> (u8 list \<Rightarrow> u8 list option) \<Rightarrow> u8 list list \<Rightarrow> int \<times> u8 list" where
  "grep_files pattern pick openf [] = (0, [])"
| "grep_files pattern pick openf (name # names) = (case openf name of
       None \<Rightarrow> (1, ascii ''grep: cannot open '' @ name @ [10])
     | Some inp \<Rightarrow> (case grep_files pattern pick openf names of (st, out) \<Rightarrow> (st, grep pattern pick 0 [] inp @ out)))"

definition grep_main :: "u8 list list \<Rightarrow> (nat \<Rightarrow> nat) \<Rightarrow> (u8 list \<Rightarrow> u8 list option) \<Rightarrow> u8 list \<Rightarrow> int \<times> u8 list \<times> u8 list" where
  "grep_main argv pick openf stdin =
     (if length argv \<le> 1 then (1, [], ascii ''usage: grep pattern [file ...]'' @ [10])
      else if length argv \<le> 2 then (0, grep (argv ! 1) pick 0 [] stdin, [])
      else case grep_files (argv ! 1) pick openf (drop 2 argv) of (st, out) \<Rightarrow> (st, out, []))"

text \<open>The complete lines of a text and what follows the last of them, \<open>acc\<close> being the start of the first.\<close>

fun lines_from :: "u8 list \<Rightarrow> u8 list \<Rightarrow> u8 list list" where
  "lines_from acc [] = []"
| "lines_from acc (c # s) = (if c = 10 then acc # lines_from [] s else lines_from (acc @ [c]) s)"

fun rest_from :: "u8 list \<Rightarrow> u8 list \<Rightarrow> u8 list" where
  "rest_from acc [] = acc"
| "rest_from acc (c # s) = (if c = 10 then rest_from [] s else rest_from (acc @ [c]) s)"

definition matching :: "u8 list \<Rightarrow> u8 list list \<Rightarrow> u8 list" where
  "matching pattern ls = concat (map (\<lambda>l. l @ [10]) (filter (match pattern) ls))"

lemma matching_simps: "matching p [] = []" "matching p (l # ls) = (if match p l then l @ [10] else []) @ matching p ls"
  "matching p (ls @ ms) = matching p ls @ matching p ms"
  by (simp_all add: matching_def)

lemma lines_from_append: "lines_from acc (x @ y) = lines_from acc x @ lines_from (rest_from acc x) y"
  by (induction x arbitrary: acc) simp_all

lemma split_line_none: "10 \<notin> set b \<Longrightarrow> split_line b = None"
  by (induction b) auto

lemma split_line_some: "10 \<notin> set b \<Longrightarrow> 0 \<notin> set b \<Longrightarrow> split_line (b @ 10 # s) = Some (b, s)"
  by (induction b) auto

lemma grep_lines_eq:
  "10 \<notin> set acc \<Longrightarrow> 0 \<notin> set acc \<Longrightarrow> 0 \<notin> set x \<Longrightarrow>
   grep_lines p (acc @ x) = (matching p (lines_from acc x), rest_from acc x)"
proof (induction x arbitrary: acc)
  case Nil
  then show ?case by (simp add: grep_lines.simps [of p acc] split_line_none matching_simps)
next
  case (Cons c x)
  show ?case
  proof (cases "c = 10")
    case True
    then have "grep_lines p x = (matching p (lines_from [] x), rest_from [] x)" using Cons.IH [of "[]"] Cons.prems by simp
    then show ?thesis
      using True Cons.prems by (simp add: grep_lines.simps [of p "acc @ 10 # x"] split_line_some matching_simps)
  next
    case False
    then show ?thesis using Cons.IH [of "acc @ [c]"] Cons.prems by simp
  qed
qed

lemma rest_from_clean: "10 \<notin> set acc \<Longrightarrow> 10 \<notin> set (rest_from acc x)"
  "0 \<notin> set acc \<Longrightarrow> 0 \<notin> set x \<Longrightarrow> 0 \<notin> set (rest_from acc x)"
  by (induction x arbitrary: acc) simp_all

lemma rest_from_suffix: "\<exists>u. acc @ x = u @ rest_from acc x"
proof (induction x arbitrary: acc)
  case (Cons c x)
  show ?case
  proof (cases "c = 10")
    case True
    obtain u where "[] @ x = u @ rest_from [] x" using Cons by blast
    then have "acc @ c # x = (acc @ c # u) @ rest_from acc (c # x)" using True by simp
    then show ?thesis by blast
  next
    case False
    then show ?thesis using Cons [of "acc @ [c]"] by simp
  qed
qed simp

text \<open>No run of 1023 bytes without a newline: every line, an unfinished last one included, fits the buffer.\<close>

definition short_lines :: "u8 list \<Rightarrow> bool" where
  "short_lines inp \<longleftrightarrow> (\<forall>u v w. inp = u @ v @ w \<longrightarrow> length v = BUFSIZE - 1 \<longrightarrow> 10 \<in> set v)"

lemma short_lines_suffix: "short_lines (u @ v) \<Longrightarrow> short_lines v"
  unfolding short_lines_def by (metis append.assoc)

lemma short_lines_buffer: "short_lines (b @ inp) \<Longrightarrow> 10 \<notin> set b \<Longrightarrow> length b < BUFSIZE - 1"
proof (rule ccontr)
  assume s: "short_lines (b @ inp)" and n: "10 \<notin> set b" and l: "\<not> length b < BUFSIZE - 1"
  have "b @ inp = [] @ take (BUFSIZE - 1) b @ (drop (BUFSIZE - 1) b @ inp)" by simp
  moreover have "length (take (BUFSIZE - 1) b) = BUFSIZE - 1" using l by simp
  ultimately have "10 \<in> set (take (BUFSIZE - 1) b)" using s unfolding short_lines_def by blast
  then show False using n by (meson in_set_takeD)
qed

lemma grep_loop_eq:
  "10 \<notin> set b \<Longrightarrow> 0 \<notin> set b \<Longrightarrow> 0 \<notin> set inp \<Longrightarrow> short_lines (b @ inp) \<Longrightarrow>
   grep p pick i b inp = matching p (lines_from b inp)"
proof (induction p pick i b inp rule: grep.induct)
  case (1 p pick i b inp)
  let ?n = "read_len (pick i) (BUFSIZE - length b - 1) inp"
  show ?case
  proof (cases "inp = []")
    case True
    then show ?thesis by (simp add: grep.simps [of p pick i b] read_len_def matching_simps)
  next
    case False
    have "length b < BUFSIZE - 1" using short_lines_buffer 1 by blast
    then have n: "?n \<noteq> 0" using False by (simp add: read_len_def)
    let ?x = "take ?n inp" and ?y = "drop ?n inp"
    have z: "0 \<notin> set ?x" "0 \<notin> set ?y" using 1(4) by (auto dest: in_set_takeD in_set_dropD)
    have gl: "grep_lines p (b @ ?x) = (matching p (lines_from b ?x), rest_from b ?x)" by (rule grep_lines_eq [OF 1(2,3) z(1)])
    obtain u where u: "b @ ?x = u @ rest_from b ?x" using rest_from_suffix by blast
    have "b @ inp = u @ (rest_from b ?x @ ?y)" using u by (metis append.assoc append_take_drop_id)
    then have s: "short_lines (rest_from b ?x @ ?y)" using 1(5) short_lines_suffix by metis
    have "grep p pick (Suc i) (rest_from b ?x) ?y = matching p (lines_from (rest_from b ?x) ?y)"
      using 1(1) [OF refl n gl [symmetric]] rest_from_clean 1(2,3) z s by simp
    moreover have "lines_from b inp = lines_from b ?x @ lines_from (rest_from b ?x) ?y"
      using lines_from_append [of b ?x ?y] by simp
    ultimately show ?thesis using n gl by (simp add: grep.simps [of p pick i b] matching_simps Let_def)
  qed
qed

text \<open>C35: However \<^verbatim>\<open>read\<close> cuts the input into pieces, \<^verbatim>\<open>grep\<close> writes exactly the complete lines that match, in order, when
  the input has no NUL and no line is longer than the buffer.\<close>

theorem grep_prints_matching_lines:
  assumes "0 \<notin> set inp" and "short_lines inp"
  shows "grep pattern pick 0 [] inp = concat (map (\<lambda>l. l @ [10]) (filter (match pattern) (lines_from [] inp)))"
  using grep_loop_eq [of "[]" inp pattern pick 0] assms by (simp add: matching_def)

lemma grep_prints_matching_lines_witness:
  "grep [98, 42, 99] (\<lambda>_. 1) 0 [] [97, 10, 98, 99, 10, 120]
   = concat (map (\<lambda>l. l @ [10]) (filter (match [98, 42, 99]) (lines_from [] [97, 10, 98, 99, 10, 120])))"
proof (rule grep_prints_matching_lines)
  show "short_lines [97, 10, 98, 99, 10, 120]"
    unfolding short_lines_def BUFSIZE_def by (auto dest!: arg_cong [where f = length])
qed simp

end
