(* ===== verification/Shell.thy ===== *)
theory Shell
  imports Kstate
begin

text \<open>
  The shell's parser (\<^verbatim>\<open>user/sh.c\<close>). The line is the list of its bytes before the NUL; a pointer into it is an
  index, \<^verbatim>\<open>es\<close> is the length. Allocation is taken to succeed, as the code takes it.
\<close>

section \<open>Tokens\<close>

definition whitespace :: "u8 list" where "whitespace = [32, 9, 13, 10, 11]"
definition symbols :: "u8 list" where "symbols = map of_char ''<|>&;()''"

definition chr :: "char \<Rightarrow> u8" where "chr c = of_char c"

text \<open>\<^verbatim>\<open>*s\<close>: the NUL after the last byte.\<close>

definition ch :: "u8 list \<Rightarrow> nat \<Rightarrow> u8" where
  "ch b i = (if i < length b then b ! i else 0)"

text \<open>\<^verbatim>\<open>while(s < es && P(*s)) s++;\<close>\<close>

function skip :: "(u8 \<Rightarrow> bool) \<Rightarrow> u8 list \<Rightarrow> nat \<Rightarrow> nat" where
  "skip P b i = (if i < length b \<and> P (b ! i) then skip P b (i + 1) else i)"
  by pat_completeness auto

termination by (relation "measure (\<lambda>(P, b, i). length b - i)") auto

declare skip.simps [simp del]

abbreviation skip_white :: "u8 list \<Rightarrow> nat \<Rightarrow> nat" where
  "skip_white \<equiv> skip (\<lambda>c. c \<in> set whitespace)"

abbreviation skip_word :: "u8 list \<Rightarrow> nat \<Rightarrow> nat" where
  "skip_word \<equiv> skip (\<lambda>c. c \<notin> set whitespace \<and> c \<notin> set symbols)"

text \<open>The characters that are a token by themselves.\<close>

definition specials :: "u8 list" where "specials = map chr ''|();&<''"

text \<open>The kind of token, where it starts and ends, and where the next one may start.\<close>

definition gettoken :: "u8 list \<Rightarrow> nat \<Rightarrow> u8 \<times> nat \<times> nat \<times> nat" where
  "gettoken b i =
     (let s = skip_white b i; q = s; c = ch b s;
          (ret, s) = (if c = 0 then (0, s)
            else if c \<in> set specials then (c, s + 1)
            else if c = chr (CHR ''>'') then (if ch b (s + 1) = chr (CHR ''>'') then (chr (CHR ''+''), s + 2) else (c, s + 1))
            else (chr (CHR ''a''), skip_word b s))
      in (ret, q, s, skip_white b s))"

definition peek :: "u8 list \<Rightarrow> nat \<Rightarrow> string \<Rightarrow> bool \<times> nat" where
  "peek b i toks = (let s = skip_white b i in (ch b s \<noteq> 0 \<and> ch b s \<in> set (map chr toks), s))"

section \<open>Commands\<close>

text \<open>An argument or file name is its first index and the one after its last.\<close>

type_synonym span = "nat \<times> nat"

definition MAXARGS :: nat where "MAXARGS = 10"

datatype cmd = Exec "span list" | Redir cmd span u32 int | Pipe cmd cmd | List cmd cmd | Back cmd

text \<open>\<^verbatim>\<open>panic\<close> prints its message and ends the process; \<open>Fuel\<close> is not a behaviour of the program.\<close>

datatype perr = Syntax string | Leftovers nat | Fuel

type_synonym 'a parsed = "perr + 'a \<times> nat"

text \<open>\<^verbatim>\<open>parseredirs\<close>: the redirections, innermost first.\<close>

definition redir_mode :: "u8 \<Rightarrow> u32 \<times> int" where
  "redir_mode tok = (if tok = chr (CHR ''<'') then (O_RDONLY, 0)
     else if tok = chr (CHR ''>'') then (O_WRONLY OR O_CREATE OR O_TRUNC, 1) else (O_WRONLY OR O_CREATE, 1))"

lemma skip_ge: "i \<le> skip P b i"
  by (induction P b i rule: skip.induct) (subst skip.simps, auto)

lemma skip_le: "i \<le> length b \<Longrightarrow> skip P b i \<le> length b"
  by (induction P b i rule: skip.induct) (subst skip.simps, auto)

lemma skip_stop: "skip P b i < length b \<Longrightarrow> \<not> P (b ! skip P b i)"
  by (induction P b i rule: skip.induct) (subst skip.simps, subst (asm) skip.simps, auto)

lemma skip_between: "i \<le> k \<Longrightarrow> k < skip P b i \<Longrightarrow> P (b ! k)"
proof (induction P b i rule: skip.induct)
  case (1 P b i)
  show ?case
  proof (cases "i < length b \<and> P (b ! i)")
    case True
    then have "skip P b i = skip P b (i + 1)" by (subst skip.simps) simp
    then show ?thesis using 1 True by (cases "k = i") auto
  next
    case False
    then show ?thesis using 1 by (subst (asm) skip.simps) auto
  qed
qed

definition word_char :: "u8 \<Rightarrow> bool" where
  "word_char c \<longleftrightarrow> c \<notin> set whitespace \<and> c \<notin> set symbols"

lemma ch_in: "ch b i \<noteq> 0 \<Longrightarrow> i < length b \<and> ch b i = b ! i"
  by (simp add: ch_def split: if_splits)

lemma gettoken_ge: "gettoken b i = (t, q, e, j) \<Longrightarrow> i \<le> q \<and> q \<le> e \<and> e \<le> j"
  by (auto simp: gettoken_def Let_def split: if_splits intro: skip_ge le_trans [OF skip_ge] order_trans [OF _ skip_ge])

lemma special_char:
  "c \<in> set symbols \<longleftrightarrow> c \<in> set specials \<or> c = chr (CHR ''>'')"
  by (auto simp: symbols_def specials_def chr_def)

lemma not_letter: "chr (CHR ''a'') \<notin> set specials" "chr (CHR ''a'') \<noteq> chr (CHR ''>'')"
  "chr (CHR ''a'') \<noteq> chr (CHR ''+'')" "chr (CHR ''a'') \<noteq> 0"
  by (simp_all add: chr_def specials_def)

text \<open>A word is not empty, holds only word characters, and ends before a character that is none or at the end.\<close>

definition word_span :: "u8 list \<Rightarrow> span \<Rightarrow> bool" where
  "word_span b = (\<lambda>(q, e). q < e \<and> e \<le> length b \<and> (\<forall>k\<in>{q..<e}. word_char (b ! k)) \<and> (e < length b \<longrightarrow> \<not> word_char (b ! e)))"

lemma gettoken_word: "gettoken b i = (chr (CHR ''a''), q, e, j) \<Longrightarrow> word_span b (q, e)"
proof -
  assume g: "gettoken b i = (chr (CHR ''a''), q, e, j)"
  let ?s = "skip_white b i"
  have c0: "ch b ?s \<noteq> 0" using g not_letter(4) by (auto simp: gettoken_def Let_def)
  have c1: "ch b ?s \<notin> set specials" using g not_letter(1) c0 by (auto simp: gettoken_def Let_def)
  have c2: "ch b ?s \<noteq> chr (CHR ''>'')"
    using g not_letter(2,3) c0 c1 by (auto simp: gettoken_def Let_def split: if_splits)
  have c: "q = ?s" "e = skip_word b ?s" using g c0 c1 c2 by (auto simp: gettoken_def Let_def)
  have l: "?s < length b" "ch b ?s = b ! ?s" using ch_in [OF c0] by auto
  have "b ! ?s \<notin> set whitespace" using skip_stop [OF l(1)] by simp
  moreover have "b ! ?s \<notin> set symbols" using c1 c2 l(2) special_char by metis
  ultimately have w: "word_char (b ! ?s)" by (simp add: word_char_def)
  then have "skip_word b ?s = skip_word b (?s + 1)" using l(1) by (subst skip.simps) (simp add: word_char_def)
  moreover have "?s + 1 \<le> skip_word b (?s + 1)" by (rule skip_ge)
  ultimately have "?s < skip_word b ?s" by simp
  moreover have "skip_word b ?s \<le> length b" by (rule skip_le) (use l(1) in simp)
  moreover have "word_char (b ! k)" if "k \<in> {?s..<skip_word b ?s}" for k
    using skip_between [of ?s k "\<lambda>c. c \<notin> set whitespace \<and> c \<notin> set symbols" b] that by (simp add: word_char_def)
  moreover have "\<not> word_char (b ! skip_word b ?s)" if "skip_word b ?s < length b"
    using skip_stop [OF that] by (simp add: word_char_def)
  ultimately show ?thesis unfolding c word_span_def by simp
qed

lemma peek_token:
  assumes "peek b i toks = (True, s)" and "gettoken b s = (t, q, e, j)"
  shows "i < j" and "i < length b"
proof -
  have s: "s = skip_white b i" "ch b s \<noteq> 0" using assms(1) by (auto simp: peek_def Let_def)
  have l: "s < length b" using ch_in [OF s(2)] by simp
  have i: "i \<le> s" unfolding s(1) by (rule skip_ge)
  then show "i < length b" using l by simp
  have "b ! s \<notin> set whitespace" using skip_stop [of "\<lambda>c. c \<in> set whitespace" b i] l s(1) by simp
  then have ws: "skip_white b s = s" by (subst skip.simps) simp
  have "s < e"
  proof (cases "t = chr (CHR ''a'')")
    case True
    then show ?thesis using gettoken_word [of b s q e j] gettoken_ge [OF assms(2)] assms(2) by (auto simp: word_span_def)
  next
    case False
    then show ?thesis using assms(2) s(2) ws
      unfolding gettoken_def Let_def by (auto split: if_splits simp del: list.map)
  qed
  then show "i < j" using gettoken_ge [OF assms(2)] i by linarith
qed

section \<open>Parsing\<close>

lemma peek_two_tokens:
  assumes "peek b i toks = (True, s)" and "gettoken b s = (t, q, e, j)" and "gettoken b j = (t', q', e', k)"
  shows "i < k" and "i < length b"
  using peek_token [OF assms(1,2)] gettoken_ge [OF assms(3)] by auto

function parseredirs :: "u8 list \<Rightarrow> nat \<Rightarrow> (span \<times> u32 \<times> int) list \<Rightarrow> (span \<times> u32 \<times> int) list parsed" where
  "parseredirs b i rs =
     (case peek b i ''<>'' of (p, s) \<Rightarrow>
        if p then case gettoken b s of (tok, _, _, j) \<Rightarrow> (case gettoken b j of (t, q, e, k) \<Rightarrow>
          if t \<noteq> chr (CHR ''a'') then Inl (Syntax ''missing file for redirection'')
          else parseredirs b k (rs @ [((q, e), redir_mode tok)]))
        else Inr (rs, s))"
  by pat_completeness auto

termination by (relation "measure (\<lambda>(b, i, rs). length b - i)") (auto intro!: diff_less_mono2 dest: peek_two_tokens [OF sym sym sym])

declare parseredirs.simps [simp del]

lemma peek_ge: "peek b i toks = (p, s) \<Longrightarrow> i \<le> s"
  by (auto simp: peek_def Let_def intro: skip_ge)

lemma parseredirs_ge: "parseredirs b i rs = Inr (rs', k) \<Longrightarrow> i \<le> k"
proof (induction b i rs rule: parseredirs.induct)
  case (1 b i rs)
  obtain p s where p: "peek b i ''<>'' = (p, s)" by fastforce
  obtain tok q' e' j where g1: "gettoken b s = (tok, q', e', j)" by (metis prod_cases4)
  obtain t q e l where g2: "gettoken b j = (t, q, e, l)" by (metis prod_cases4)
  show ?case
  proof (cases p)
    case True
    then have "t = chr (CHR ''a'')" "parseredirs b l (rs @ [((q, e), redir_mode tok)]) = Inr (rs', k)"
      using 1(2) p g1 g2 by (subst (asm) parseredirs.simps, simp split: if_splits)+
    then have "l \<le> k" using 1(1) [OF p [symmetric] True g1 [symmetric] refl refl g2 [symmetric] refl refl] by simp
    then show ?thesis using peek_ge [OF p] gettoken_ge [OF g1] gettoken_ge [OF g2] by linarith
  next
    case False
    then show ?thesis using 1(2) p peek_ge [OF p] by (subst (asm) parseredirs.simps) simp
  qed
qed

lemma word_token_ge: "gettoken b s = (chr (CHR ''a''), q, e, j) \<Longrightarrow> s < j \<and> s < length b"
  using gettoken_word [of b s q e j] gettoken_ge [of b s] by (fastforce simp: word_span_def)

lemma arg_progress:
  assumes "peek b i toks = (p, s)" and "gettoken b s = (chr (CHR ''a''), q, e, j)" and "parseredirs b j rs = Inr (rs', k)"
  shows "i < k" and "i < length b"
  using peek_ge [OF assms(1)] word_token_ge [OF assms(2)] parseredirs_ge [OF assms(3)] by auto

text \<open>The arguments of a command; each may be followed by redirections.\<close>

function parseargs :: "u8 list \<Rightarrow> nat \<Rightarrow> span list \<Rightarrow> (span \<times> u32 \<times> int) list \<Rightarrow> (span list \<times> (span \<times> u32 \<times> int) list) parsed" where
  "parseargs b i args rs =
     (case peek b i ''|)&;'' of (p, s) \<Rightarrow>
        if p then Inr ((args, rs), s)
        else case gettoken b s of (tok, q, e, j) \<Rightarrow>
          if tok = 0 then Inr ((args, rs), j)
          else if tok \<noteq> chr (CHR ''a'') then Inl (Syntax ''syntax'')
          else if length (args @ [(q, e)]) \<ge> MAXARGS then Inl (Syntax ''too many args'')
          else case parseredirs b j rs of
            Inl err \<Rightarrow> Inl err
          | Inr (rs', k) \<Rightarrow> parseargs b k (args @ [(q, e)]) rs')"
  by pat_completeness auto

termination by (relation "measure (\<lambda>(b, i, args, rs). length b - i)")
  (auto intro!: diff_less_mono2 dest: arg_progress [OF sym sym])

declare parseargs.simps [simp del]

text \<open>\<^verbatim>\<open>redircmd\<close> around a command, once for each redirection.\<close>

definition redirect :: "cmd \<Rightarrow> (span \<times> u32 \<times> int) list \<Rightarrow> cmd" where
  "redirect c rs = foldl (\<lambda>c (f, mode, fd). Redir c f mode fd) c rs"

text \<open>The loop over \<^verbatim>\<open>&\<close> in \<^verbatim>\<open>parseline\<close>.\<close>

function parseback :: "u8 list \<Rightarrow> nat \<Rightarrow> cmd \<Rightarrow> cmd \<times> nat" where
  "parseback b i c = (case peek b i ''&'' of (p, s) \<Rightarrow>
     if p then case gettoken b s of (_, _, _, j) \<Rightarrow> parseback b j (Back c) else (c, s))"
  by pat_completeness auto

termination by (relation "measure (\<lambda>(b, i, c). length b - i)")
  (auto intro!: diff_less_mono2 dest: peek_token [OF sym sym])

declare parseback.simps [simp del]

text \<open>
  The recursive part. The first argument bounds the depth of the calls; \<open>parsecmd\<close> gives enough, since a call of
  \<^verbatim>\<open>parseline\<close> from within another one has a shorter piece of the line to parse.
\<close>

fun parseline :: "nat \<Rightarrow> u8 list \<Rightarrow> nat \<Rightarrow> cmd parsed"
  and parsepipe :: "nat \<Rightarrow> u8 list \<Rightarrow> nat \<Rightarrow> cmd parsed"
  and parseexec :: "nat \<Rightarrow> u8 list \<Rightarrow> nat \<Rightarrow> cmd parsed"
  and parseblock :: "nat \<Rightarrow> u8 list \<Rightarrow> nat \<Rightarrow> cmd parsed" where
  "parseline 0 b i = Inl Fuel"
| "parseline (Suc n) b i = (case parsepipe n b i of
     Inl err \<Rightarrow> Inl err
   | Inr (c, i) \<Rightarrow> (case parseback b i c of (c, i) \<Rightarrow> (case peek b i '';'' of (p, i) \<Rightarrow>
       if p then case gettoken b i of (_, _, _, i) \<Rightarrow> (case parseline n b i of
           Inl err \<Rightarrow> Inl err | Inr (d, i) \<Rightarrow> Inr (List c d, i))
       else Inr (c, i))))"
| "parsepipe 0 b i = Inl Fuel"
| "parsepipe (Suc n) b i = (case parseexec n b i of
     Inl err \<Rightarrow> Inl err
   | Inr (c, i) \<Rightarrow> (case peek b i ''|'' of (p, i) \<Rightarrow>
       if p then case gettoken b i of (_, _, _, i) \<Rightarrow> (case parsepipe n b i of
           Inl err \<Rightarrow> Inl err | Inr (d, i) \<Rightarrow> Inr (Pipe c d, i))
       else Inr (c, i)))"
| "parseexec 0 b i = Inl Fuel"
| "parseexec (Suc n) b i = (case peek b i ''('' of (p, i) \<Rightarrow>
     if p then parseblock n b i
     else (case parseredirs b i [] of
         Inl err \<Rightarrow> Inl err
       | Inr (rs, i) \<Rightarrow> (case parseargs b i [] rs of
           Inl err \<Rightarrow> Inl err
         | Inr ((args, rs), i) \<Rightarrow> Inr (redirect (Exec args) rs, i))))"
| "parseblock 0 b i = Inl Fuel"
| "parseblock (Suc n) b i = (case peek b i ''('' of (p, i) \<Rightarrow>
     if \<not> p then Inl (Syntax ''parseblock'')
     else case gettoken b i of (_, _, _, i) \<Rightarrow> (case parseline n b i of
         Inl err \<Rightarrow> Inl err
       | Inr (c, i) \<Rightarrow> (case peek b i '')'' of (p, i) \<Rightarrow>
           if \<not> p then Inl (Syntax ''syntax - missing )'')
           else case gettoken b i of (_, _, _, i) \<Rightarrow> (case parseredirs b i [] of
               Inl err \<Rightarrow> Inl err | Inr (rs, i) \<Rightarrow> Inr (redirect c rs, i)))))"

text \<open>\<^verbatim>\<open>nulterminate\<close> writes a NUL after every word, into the line itself.\<close>

fun nulterminate :: "cmd \<Rightarrow> bytes \<Rightarrow> bytes" where
  "nulterminate (Exec args) m = foldl (\<lambda>m (q, e). m(e := 0)) m args"
| "nulterminate (Redir c f mode fd) m = (nulterminate c m)(snd f := 0)"
| "nulterminate (Pipe c d) m = nulterminate d (nulterminate c m)"
| "nulterminate (List c d) m = nulterminate d (nulterminate c m)"
| "nulterminate (Back c) m = nulterminate c m"

definition parsecmd :: "u8 list \<Rightarrow> perr + cmd \<times> bytes" where
  "parsecmd b = (case parseline (4 * length b + 4) b 0 of
     Inl err \<Rightarrow> Inl err
   | Inr (c, i) \<Rightarrow> (case peek b i [] of (_, i) \<Rightarrow>
       if i \<noteq> length b then Inl (Leftovers i) else Inr (c, nulterminate c (ch b))))"

section \<open>What the parser promises\<close>

fun spans :: "cmd \<Rightarrow> span list" where
  "spans (Exec args) = args"
| "spans (Redir c f mode fd) = spans c @ [f]"
| "spans (Pipe c d) = spans c @ spans d"
| "spans (List c d) = spans c @ spans d"
| "spans (Back c) = spans c"

fun few_args :: "cmd \<Rightarrow> bool" where
  "few_args (Exec args) \<longleftrightarrow> length args < MAXARGS"
| "few_args (Redir c f mode fd) \<longleftrightarrow> few_args c"
| "few_args (Pipe c d) \<longleftrightarrow> few_args c \<and> few_args d"
| "few_args (List c d) \<longleftrightarrow> few_args c \<and> few_args d"
| "few_args (Back c) \<longleftrightarrow> few_args c"

definition well_formed :: "u8 list \<Rightarrow> cmd \<Rightarrow> bool" where
  "well_formed b c \<longleftrightarrow> few_args c \<and> (\<forall>p\<in>set (spans c). word_span b p)"

lemma nulterminate_eq: "nulterminate c m i = (if i \<in> snd ` set (spans c) then 0 else m i)"
proof -
  have "foldl (\<lambda>m (q, e). m(e := 0)) m args i = (if i \<in> snd ` set args then 0 else m i)" for args :: "span list" and m :: bytes
    by (induction args arbitrary: m) auto
  then show ?thesis by (induction c arbitrary: m) auto
qed

lemma redirect_simps: "few_args (redirect c rs) = few_args c" "set (spans (redirect c rs)) = set (spans c) \<union> fst ` set rs"
  by (induction rs arbitrary: c) (auto simp: redirect_def)

definition ok :: "u8 list \<Rightarrow> nat \<Rightarrow> cmd parsed \<Rightarrow> bool" where
  "ok b i r \<longleftrightarrow> (case r of Inl err \<Rightarrow> err \<noteq> Fuel | Inr (c, j) \<Rightarrow> i \<le> j \<and> well_formed b c)"

lemma ok_simps: "ok b i (Inl err) \<longleftrightarrow> err \<noteq> Fuel" "ok b i (Inr (c, j)) \<longleftrightarrow> i \<le> j \<and> well_formed b c"
  by (simp_all add: ok_def)

lemma ok_mono: "ok b j r \<Longrightarrow> i \<le> j \<Longrightarrow> ok b i r"
  by (auto simp: ok_def split: sum.splits)

lemma well_formed_simps:
  "well_formed b (Back c) \<longleftrightarrow> well_formed b c"
  "well_formed b (List c d) \<longleftrightarrow> well_formed b c \<and> well_formed b d"
  "well_formed b (Pipe c d) \<longleftrightarrow> well_formed b c \<and> well_formed b d"
  "well_formed b (Exec args) \<longleftrightarrow> length args < MAXARGS \<and> (\<forall>p\<in>set args. word_span b p)"
  "well_formed b (redirect c rs) \<longleftrightarrow> well_formed b c \<and> (\<forall>p\<in>fst ` set rs. word_span b p)"
  by (auto simp: well_formed_def redirect_simps ball_Un)

lemma parseredirs_unfold:
  assumes "peek b i ''<>'' = (p, s)" and "gettoken b s = (tok, q', e', j)" and "gettoken b j = (t, q, e, l)"
  shows "parseredirs b i rs = (if p then if t \<noteq> chr (CHR ''a'') then Inl (Syntax ''missing file for redirection'')
      else parseredirs b l (rs @ [((q, e), redir_mode tok)]) else Inr (rs, s))"
  by (subst parseredirs.simps) (simp add: assms)

lemma parseredirs_words:
  "\<forall>p\<in>fst ` set rs. word_span b p \<Longrightarrow>
   case parseredirs b i rs of Inl err \<Rightarrow> err \<noteq> Fuel | Inr (rs', k) \<Rightarrow> i \<le> k \<and> (\<forall>p\<in>fst ` set rs'. word_span b p)"
proof (induction b i rs rule: parseredirs.induct)
  case (1 b i rs)
  obtain p s where p: "peek b i ''<>'' = (p, s)" by fastforce
  obtain tok q' e' j where g1: "gettoken b s = (tok, q', e', j)" by (metis prod_cases4)
  obtain t q e l where g2: "gettoken b j = (t, q, e, l)" by (metis prod_cases4)
  note eq = parseredirs_unfold [OF p g1 g2, of rs]
  consider "\<not> p" | "p" "t \<noteq> chr (CHR ''a'')" | "p" "t = chr (CHR ''a'')" by blast
  then show ?case
  proof cases
    case 1
    then show ?thesis using eq "1.prems" peek_ge [OF p] by simp
  next
    case 2
    then show ?thesis using eq by simp
  next
    case 3
    have w: "\<forall>p\<in>fst ` set (rs @ [((q, e), redir_mode tok)]). word_span b p"
      using "1.prems" gettoken_word [of b j q e l] g2 3 by simp
    have nl: "\<not> t \<noteq> chr (CHR ''a'')" using 3 by simp
    have "i \<le> l" using peek_ge [OF p] gettoken_ge [OF g1] gettoken_ge [OF g2] by linarith
    then show ?thesis
      using "1.IH" [OF p [symmetric] 3(1) g1 [symmetric] refl refl g2 [symmetric] refl refl nl w] eq 3
      by (auto split: sum.splits)
  qed
qed

lemma parseargs_unfold:
  assumes "peek b i ''|)&;'' = (p, s)" and "gettoken b s = (tok, q, e, j)"
  shows "parseargs b i args rs = (if p then Inr ((args, rs), s) else if tok = 0 then Inr ((args, rs), j)
     else if tok \<noteq> chr (CHR ''a'') then Inl (Syntax ''syntax'')
     else if length (args @ [(q, e)]) \<ge> MAXARGS then Inl (Syntax ''too many args'')
     else case parseredirs b j rs of Inl err \<Rightarrow> Inl err | Inr (rs', k) \<Rightarrow> parseargs b k (args @ [(q, e)]) rs')"
  by (subst parseargs.simps) (simp add: assms)

lemma parseargs_words:
  "\<forall>p\<in>fst ` set rs. word_span b p \<Longrightarrow> \<forall>p\<in>set args. word_span b p \<Longrightarrow> length args < MAXARGS \<Longrightarrow>
   case parseargs b i args rs of Inl err \<Rightarrow> err \<noteq> Fuel
   | Inr ((args', rs'), k) \<Rightarrow> i \<le> k \<and> well_formed b (redirect (Exec args') rs')"
proof (induction b i args rs rule: parseargs.induct)
  case (1 b i args rs)
  obtain p s where p: "peek b i ''|)&;'' = (p, s)" by fastforce
  obtain tok q e j where g: "gettoken b s = (tok, q, e, j)" by (metis prod_cases4)
  note eq = parseargs_unfold [OF p g, of args rs]
  have le: "i \<le> s" "i \<le> j" using peek_ge [OF p] gettoken_ge [OF g] by auto
  have wf: "well_formed b (redirect (Exec args) rs)" using "1.prems" by (simp add: well_formed_simps)
  show ?case
  proof (cases "p \<or> tok = 0 \<or> tok \<noteq> chr (CHR ''a'') \<or> length (args @ [(q, e)]) \<ge> MAXARGS")
    case True
    then show ?thesis unfolding eq using le wf by auto
  next
    case False
    then have c: "\<not> p" "tok \<noteq> 0" "\<not> tok \<noteq> chr (CHR ''a'')" "\<not> length (args @ [(q, e)]) \<ge> MAXARGS" by auto
    have w: "\<forall>p\<in>set (args @ [(q, e)]). word_span b p" using "1.prems"(2) gettoken_word [of b s q e j] g c(3) by simp
    have lt: "length (args @ [(q, e)]) < MAXARGS" using c(4) by simp
    show ?thesis
    proof (cases "parseredirs b j rs")
      case (Inl err)
      then show ?thesis using parseredirs_words [OF "1.prems"(1), of j] eq c by simp
    next
      case (Inr r)
      obtain rs' k where r: "r = (rs', k)" by fastforce
      have rd: "j \<le> k" "\<forall>p\<in>fst ` set rs'. word_span b p" using parseredirs_words [OF "1.prems"(1), of j] Inr r by simp_all
      show ?thesis
        using "1.IH" [OF p [symmetric] c(1) g [symmetric] refl refl c(2,3,4) Inr r [symmetric] rd(2) w lt] eq c Inr r rd(1) le
        by (auto split: sum.splits)
    qed
  qed
qed

lemma parseback_words:
  "parseback b i c = (d, j) \<Longrightarrow> i \<le> j \<and> (well_formed b d \<longleftrightarrow> well_formed b c)"
proof (induction b i c rule: parseback.induct)
  case (1 b i c)
  obtain p s where p: "peek b i ''&'' = (p, s)" by fastforce
  obtain t q e k where g: "gettoken b s = (t, q, e, k)" by (metis prod_cases4)
  have eq: "parseback b i c = (if p then parseback b k (Back c) else (c, s))"
    by (subst parseback.simps) (simp add: p g)
  show ?case
  proof (cases p)
    case True
    then show ?thesis
      using 1(1) [OF p [symmetric] True g [symmetric] refl refl] 1(2) eq peek_ge [OF p] gettoken_ge [OF g]
      by (auto simp: well_formed_simps)
  next
    case False
    then show ?thesis using 1(2) eq peek_ge [OF p] by simp
  qed
qed

lemma parseline_step:
  assumes pp: "ok b i (parsepipe n b i)" and pl: "\<And>j. i < j \<Longrightarrow> i < length b \<Longrightarrow> ok b j (parseline n b j)"
  shows "ok b i (parseline (Suc n) b i)"
proof (cases "parsepipe n b i")
  case (Inl err)
  then show ?thesis using pp by (simp add: ok_simps)
next
  case (Inr r)
  obtain c j where r: "r = (c, j)" by fastforce
  obtain c' j' where bk: "parseback b j c = (c', j')" by fastforce
  obtain p s where p: "peek b j' '';'' = (p, s)" by fastforce
  obtain t q e k where g: "gettoken b s = (t, q, e, k)" by (metis prod_cases4)
  have ij: "i \<le> j" and wf: "well_formed b c" using pp Inr r by (simp_all add: ok_simps)
  have j: "j \<le> j'" "well_formed b c'" using parseback_words [OF bk] wf by simp_all
  show ?thesis
  proof (cases p)
    case True
    have k: "j' < k" "j' < length b" using peek_token [of b j' "'';''" s] p g True by auto
    then have "i < k" "i < length b" using ij j(1) by linarith+
    then have "ok b k (parseline n b k)" by (rule pl)
    then show ?thesis using Inr r bk p g True j k ij
      by (auto simp: ok_def well_formed_simps split: sum.splits)
  next
    case False
    then show ?thesis using Inr r bk p j ij peek_ge [OF p] by (simp add: ok_simps)
  qed
qed

lemma parsepipe_step:
  assumes pe: "ok b i (parseexec n b i)" and pp: "\<And>j. i < j \<Longrightarrow> i < length b \<Longrightarrow> ok b j (parsepipe n b j)"
  shows "ok b i (parsepipe (Suc n) b i)"
proof (cases "parseexec n b i")
  case (Inl err)
  then show ?thesis using pe by (simp add: ok_simps)
next
  case (Inr r)
  obtain c j where r: "r = (c, j)" by fastforce
  obtain p s where p: "peek b j ''|'' = (p, s)" by fastforce
  obtain t q e k where g: "gettoken b s = (t, q, e, k)" by (metis prod_cases4)
  have ij: "i \<le> j" and wf: "well_formed b c" using pe Inr r by (simp_all add: ok_simps)
  show ?thesis
  proof (cases p)
    case True
    have k: "j < k" "j < length b" using peek_token [of b j "''|''" s] p g True by auto
    then have "i < k" "i < length b" using ij by linarith+
    then have "ok b k (parsepipe n b k)" by (rule pp)
    then show ?thesis using Inr r p g True wf k ij
      by (auto simp: ok_def well_formed_simps split: sum.splits)
  next
    case False
    then show ?thesis using Inr r p wf ij peek_ge [OF p] by (simp add: ok_simps)
  qed
qed

lemma parseexec_step:
  assumes pb: "\<And>j. i \<le> j \<Longrightarrow> ok b j (parseblock n b j)"
  shows "ok b i (parseexec (Suc n) b i)"
proof -
  obtain p s where p: "peek b i ''('' = (p, s)" by fastforce
  have le: "i \<le> s" by (rule peek_ge [OF p])
  show ?thesis
  proof (cases p)
    case True
    then show ?thesis using p ok_mono [OF pb [OF le] le] by simp
  next
    case False
    show ?thesis
    proof (cases "parseredirs b s []")
      case (Inl err)
      then show ?thesis using parseredirs_words [of "[]" b s] p False by (simp add: ok_simps)
    next
      case (Inr r)
      obtain rs j where r: "r = (rs, j)" by fastforce
      have rd: "s \<le> j" "\<forall>p\<in>fst ` set rs. word_span b p" using parseredirs_words [of "[]" b s] Inr r by simp_all
      have "case parseargs b j [] rs of Inl err \<Rightarrow> err \<noteq> Fuel
          | Inr ((args', rs'), k) \<Rightarrow> j \<le> k \<and> well_formed b (redirect (Exec args') rs')"
        by (rule parseargs_words [OF rd(2)]) (simp_all add: MAXARGS_def)
      then show ?thesis using p False Inr r rd(1) le by (auto simp: ok_def split: sum.splits)
    qed
  qed
qed

lemma parseblock_step:
  assumes pl: "\<And>j. i < j \<Longrightarrow> i < length b \<Longrightarrow> ok b j (parseline n b j)"
  shows "ok b i (parseblock (Suc n) b i)"
proof -
  obtain p s where p: "peek b i ''('' = (p, s)" by fastforce
  obtain t q e j where g: "gettoken b s = (t, q, e, j)" by (metis prod_cases4)
  show ?thesis
  proof (cases p)
    case False
    then show ?thesis using p by (simp add: ok_simps)
  next
    case True
    have j: "i < j" "i < length b" using peek_token [of b i "''(''" s] p g True by auto
    show ?thesis
    proof (cases "parseline n b j")
      case (Inl err)
      then show ?thesis using p g True pl [OF j] by (simp add: ok_simps)
    next
      case (Inr r)
      obtain c k where r: "r = (c, k)" by fastforce
      have c: "j \<le> k" "well_formed b c" using pl [OF j] Inr r by (simp_all add: ok_simps)
      obtain p' s' where p': "peek b k '')'' = (p', s')" by fastforce
      obtain t' q' e' l where g': "gettoken b s' = (t', q', e', l)" by (metis prod_cases4)
      have le: "i \<le> l" using j(1) c(1) peek_ge [OF p'] gettoken_ge [OF g'] by linarith
      show ?thesis
        using p g True Inr r p' g' c le parseredirs_words [of "[]" b l]
        by (cases "parseredirs b l []") (auto simp: ok_simps well_formed_simps)
    qed
  qed
qed

lemma parse_ok:
  "4 * (length b - i) + 4 \<le> n \<Longrightarrow> ok b i (parseline n b i)"
  "4 * (length b - i) + 3 \<le> n \<Longrightarrow> ok b i (parsepipe n b i)"
  "4 * (length b - i) + 2 \<le> n \<Longrightarrow> ok b i (parseexec n b i)"
  "4 * (length b - i) + 1 \<le> n \<Longrightarrow> ok b i (parseblock n b i)"
proof (induction n arbitrary: i)
  case (Suc n)
  have d: "4 * (length b - j) + 4 \<le> 4 * (length b - i)" if "i < j" "i < length b" for i j using that by simp
  { case 1
    show ?case
      by (rule parseline_step [OF Suc.IH(2)]) (use 1 d in \<open>force intro!: Suc.IH(1)\<close>)+
  next
    case 2
    show ?case
      by (rule parsepipe_step [OF Suc.IH(3)]) (use 2 d in \<open>force intro!: Suc.IH(2)\<close>)+
  next
    case 3
    show ?case by (rule parseexec_step, rule Suc.IH(4)) (use 3 in simp)
  next
    case 4
    show ?case by (rule parseblock_step, rule Suc.IH(1)) (use 4 d in force)
  }
qed simp_all

text \<open>C36: Parsing ends for every line, with a syntax error or a command. In a command every word, argument or file name, is a
  nonempty piece of the line without blanks or symbols, no command has more than nine arguments, and after
  \<^verbatim>\<open>nulterminate\<close> each word is still there, byte for byte, and has a NUL right after it.\<close>

theorem parsecmd_ok:
  "case parsecmd b of
     Inl err \<Rightarrow> err \<noteq> Fuel
   | Inr (c, m) \<Rightarrow> few_args c \<and> (\<forall>(q, e)\<in>set (spans c).
       q < e \<and> e \<le> length b \<and> (\<forall>k\<in>{q..<e}. m k = b ! k \<and> word_char (m k)) \<and> m e = 0)"
proof -
  have p: "ok b 0 (parseline (4 * length b + 4) b 0)" by (rule parse_ok(1)) simp
  show ?thesis
  proof (cases "parseline (4 * length b + 4) b 0")
    case (Inl err)
    then show ?thesis using p by (simp add: parsecmd_def ok_simps)
  next
    case (Inr r)
    obtain c i where r: "r = (c, i)" by fastforce
    obtain t j where pk: "peek b i [] = (t, j)" by fastforce
    have wf: "well_formed b c" using p Inr r by (simp add: ok_simps)
    let ?m = "nulterminate c (ch b)"
    have "q < e \<and> e \<le> length b \<and> (\<forall>k\<in>{q..<e}. ?m k = b ! k \<and> word_char (?m k)) \<and> ?m e = 0" if s: "(q, e) \<in> set (spans c)" for q e
    proof -
      have w: "q < e" "e \<le> length b" "\<And>k. k \<in> {q..<e} \<Longrightarrow> word_char (b ! k)"
        using wf s by (auto simp: well_formed_def word_span_def)
      have "?m k = b ! k" if k: "k \<in> {q..<e}" for k
      proof -
        have "k \<notin> snd ` set (spans c)"
        proof
          assume "k \<in> snd ` set (spans c)"
          then obtain q' where "word_span b (q', k)" using wf by (auto simp: well_formed_def)
          then show False using w(2) w(3) [OF k] k by (auto simp: word_span_def)
        qed
        then show ?thesis using k w(2) by (simp add: nulterminate_eq ch_def)
      qed
      moreover have "?m e = 0" using s by (force simp: nulterminate_eq)
      ultimately show ?thesis using w by simp
    qed
    then show ?thesis using Inr r pk wf by (auto simp: parsecmd_def well_formed_def)
  qed
qed

section \<open>Running a command\<close>

text \<open>
  What a process of the shell does, as the sequence of its system calls; those that end it come last. \<open>Fork\<close> is
  \<^verbatim>\<open>fork1\<close>, which ends the shell when \<^verbatim>\<open>fork\<close> fails, with what the child does; \<open>Open\<close> has what happens when it fails. The
  ends of the pipe just made are \<open>Rd\<close> and \<open>Wr\<close>.
\<close>

datatype descr = Std int | Rd | Wr

datatype act = DoExec "u8 list list" | DoWrite int "u8 list" | DoExit int | DoClose descr | DoDup descr
  | DoOpen "u8 list" u32 "act list" | DoFork "act list" | DoWait | DoPipe | DoChdir "u8 list" "act list"

definition text_of :: "string \<Rightarrow> u8 list" where "text_of s = map chr s"

definition word :: "bytes \<Rightarrow> span \<Rightarrow> u8 list" where
  "word m = (\<lambda>(q, e). map m [q..<e])"

fun runcmd :: "bytes \<Rightarrow> cmd \<Rightarrow> act list" where
  "runcmd m (Exec args) = (case args of
     [] \<Rightarrow> [DoExit 1]
   | a # _ \<Rightarrow> [DoExec (map (word m) args), DoWrite 2 (text_of ''exec '' @ word m a @ text_of '' failed'' @ [10]), DoExit 0])"
| "runcmd m (Redir c f mode fd) =
     [DoClose (Std fd), DoOpen (word m f) mode [DoWrite 2 (text_of ''open '' @ word m f @ text_of '' failed'' @ [10]), DoExit 1]]
     @ runcmd m c"
| "runcmd m (List c d) = [DoFork (runcmd m c), DoWait] @ runcmd m d"
| "runcmd m (Pipe c d) =
     [DoPipe,
      DoFork ([DoClose (Std 1), DoDup Wr, DoClose Rd, DoClose Wr] @ runcmd m c),
      DoFork ([DoClose (Std 0), DoDup Rd, DoClose Rd, DoClose Wr] @ runcmd m d),
      DoClose Rd, DoClose Wr, DoWait, DoWait, DoExit 0]"
| "runcmd m (Back c) = [DoFork (runcmd m c), DoExit 0]"

text \<open>One round of \<^verbatim>\<open>main\<close>'s loop, for a line that \<^verbatim>\<open>getcmd\<close> has read.\<close>

definition sh_line :: "u8 list \<Rightarrow> act list" where
  "sh_line b =
     (if take 3 b = text_of ''cd '' then
        let dir = drop 3 (butlast b) in [DoChdir dir [DoWrite 2 (text_of ''cannot cd '' @ dir @ [10])]]
      else [DoFork (case parsecmd b of
          Inl (Syntax msg) \<Rightarrow> [DoWrite 2 (text_of msg @ [10]), DoExit 1]
        | Inl (Leftovers i) \<Rightarrow> [DoWrite 2 (text_of ''leftovers: '' @ drop i b @ [10]), DoWrite 2 (text_of ''syntax'' @ [10]), DoExit 1]
        | Inl Fuel \<Rightarrow> []
        | Inr (c, m) \<Rightarrow> runcmd m c), DoWait])"

lemma demo_line: "case parsecmd (text_of ''cat a|wc>b'') of
    Inl err \<Rightarrow> False | Inr (c, m) \<Rightarrow> c = Pipe (Exec [(0, 3), (4, 5)]) (Redir (Exec [(6, 8)]) (9, 10) 0x601 1)"
  by code_simp

lemma parsecmd_ok_witness:
  "\<exists>m. (\<forall>k\<in>{4..<5}. m k = text_of ''cat a|wc>b'' ! k) \<and> m 5 = 0 \<and> m 3 = 0 \<and> m 8 = 0 \<and> m 10 = (0 :: u8)"
proof -
  obtain c m where r: "parsecmd (text_of ''cat a|wc>b'') = Inr (c, m)"
    and c: "c = Pipe (Exec [(0, 3), (4, 5)]) (Redir (Exec [(6, 8)]) (9, 10) 0x601 1)"
    using demo_line by (auto split: sum.splits)
  show ?thesis using parsecmd_ok [of "text_of ''cat a|wc>b''"] by (auto simp: r c)
qed

end
