(* ===== verification/Umalloc.thy ===== *)
theory Umalloc
  imports Prelude
begin

text \<open>
  The allocator of the user programs (\<^verbatim>\<open>user/umalloc.c\<close>): Kernighan and Ritchie's circular list of free blocks in
  address order. A pointer to a header is the number of its 16-byte unit, since every address that the allocator
  handles is a multiple of \<^verbatim>\<open>sizeof(Header)\<close>; the null pointer is 0. Whether the kernel grows the process is a
  parameter, \<open>grow b n\<close>: \<^verbatim>\<open>sbrk(n)\<close> with the break at unit \<open>b\<close> does not return -1.
\<close>

section \<open>Headers and the break\<close>

text \<open>The fields of the headers, \<^verbatim>\<open>freep\<close>, the static header \<^verbatim>\<open>base\<close> and the process's break.\<close>

record uheap =
  h_ptr :: "nat \<Rightarrow> nat"
  h_size :: "nat \<Rightarrow> u32"
  h_freep :: nat
  h_base :: nat
  h_brk :: nat

definition set_ptr :: "nat \<Rightarrow> nat \<Rightarrow> uheap \<Rightarrow> uheap" where
  "set_ptr p q s = s\<lparr>h_ptr := (h_ptr s)(p := q)\<rparr>"

definition set_size :: "nat \<Rightarrow> u32 \<Rightarrow> uheap \<Rightarrow> uheap" where
  "set_size p n s = s\<lparr>h_size := (h_size s)(p := n)\<rparr>"

text \<open>\<^verbatim>\<open>p + p->s.size\<close>\<close>

definition after_block :: "nat \<Rightarrow> uheap \<Rightarrow> nat" where
  "after_block p s = p + unat (h_size s p)"

text \<open>\<^verbatim>\<open>sbrk(n)\<close>: the old break, in units, or -1.\<close>

definition usbrk :: "(nat \<Rightarrow> int \<Rightarrow> bool) \<Rightarrow> int \<Rightarrow> uheap \<Rightarrow> nat option \<times> uheap" where
  "usbrk grow n s = (if grow (h_brk s) n then (Some (h_brk s), s\<lparr>h_brk := nat (int (h_brk s) + n div 16)\<rparr>) else (None, s))"

section \<open>free\<close>

text \<open>The search for the place of a block. It need not end on a broken list, and is \<open>None\<close> then.\<close>

partial_function (option) free_place :: "nat \<Rightarrow> nat \<Rightarrow> uheap \<Rightarrow> nat option" where
  "free_place bp p s =
     (if bp > p \<and> bp < h_ptr s p then Some p
      else if p \<ge> h_ptr s p \<and> (bp > p \<or> bp < h_ptr s p) then Some p
      else free_place bp (h_ptr s p) s)"

definition free_link :: "nat \<Rightarrow> nat \<Rightarrow> uheap \<Rightarrow> uheap" where
  "free_link bp p s = (let
     s = (if after_block bp s = h_ptr s p
          then set_ptr bp (h_ptr s (h_ptr s p)) (set_size bp (h_size s bp + h_size s (h_ptr s p)) s)
          else set_ptr bp (h_ptr s p) s);
     s = (if after_block p s = bp
          then set_ptr p (h_ptr s bp) (set_size p (h_size s p + h_size s bp) s)
          else set_ptr p bp s)
   in s\<lparr>h_freep := p\<rparr>)"

definition ufree :: "nat \<Rightarrow> uheap \<Rightarrow> uheap option" where
  "ufree ap s = (let bp = ap - 1 in
     case free_place bp (h_freep s) s of None \<Rightarrow> None | Some p \<Rightarrow> Some (free_link bp p s))"

section \<open>malloc\<close>

text \<open>The argument of \<^verbatim>\<open>sbrk\<close>: a 64-bit product passed as an \<^verbatim>\<open>int\<close>.\<close>

definition sbrk_arg :: "u32 \<Rightarrow> int" where
  "sbrk_arg nu = sint (ucast (ucast nu * 16 :: u64) :: 32 word)"

definition morecore :: "(nat \<Rightarrow> int \<Rightarrow> bool) \<Rightarrow> u32 \<Rightarrow> uheap \<Rightarrow> (nat option \<times> uheap) option" where
  "morecore grow nu s = (let nu = (if nu < 4096 then 4096 else nu) in
     case usbrk grow (sbrk_arg nu) s of
       (None, s) \<Rightarrow> Some (None, s)
     | (Some hp, s) \<Rightarrow> (case ufree (hp + 1) (set_size hp nu s) of
           None \<Rightarrow> None
         | Some s \<Rightarrow> Some (Some (h_freep s), s)))"

text \<open>A block large enough is taken whole, or its end is.\<close>

definition take_block :: "u32 \<Rightarrow> nat \<Rightarrow> nat \<Rightarrow> uheap \<Rightarrow> nat option \<times> uheap" where
  "take_block nunits prevp p s =
     (if h_size s p = nunits then (Some (p + 1), (set_ptr prevp (h_ptr s p) s)\<lparr>h_freep := prevp\<rparr>)
      else let s = set_size p (h_size s p - nunits) s; p = after_block p s; s = set_size p nunits s
        in (Some (p + 1), s\<lparr>h_freep := prevp\<rparr>))"

partial_function (option) malloc_loop :: "(nat \<Rightarrow> int \<Rightarrow> bool) \<Rightarrow> u32 \<Rightarrow> nat \<Rightarrow> nat \<Rightarrow> uheap \<Rightarrow> (nat option \<times> uheap) option" where
  "malloc_loop grow nunits prevp p s =
     (if h_size s p \<ge> nunits then Some (take_block nunits prevp p s)
      else if p = h_freep s then
        (case morecore grow nunits s of
           None \<Rightarrow> None
         | Some (None, s) \<Rightarrow> Some (None, s)
         | Some (Some q, s) \<Rightarrow> malloc_loop grow nunits q (h_ptr s q) s)
      else malloc_loop grow nunits p (h_ptr s p) s)"

text \<open>\<^verbatim>\<open>(nbytes + sizeof(Header) - 1)/sizeof(Header) + 1\<close> in 64 bits, kept in 32.\<close>

definition units :: "u32 \<Rightarrow> u32" where
  "units nbytes = ucast ((ucast nbytes + 16 - 1 :: u64) div 16 + 1)"

definition malloc :: "(nat \<Rightarrow> int \<Rightarrow> bool) \<Rightarrow> u32 \<Rightarrow> uheap \<Rightarrow> (nat option \<times> uheap) option" where
  "malloc grow nbytes s = (let
     s = (if h_freep s = 0
          then set_size (h_base s) 0 ((set_ptr (h_base s) (h_base s) s)\<lparr>h_freep := h_base s\<rparr>)
          else s);
     prevp = h_freep s
   in malloc_loop grow (units nbytes) prevp (h_ptr s prevp) s)"

end
