(* ===== verification/Umallocprop.thy ===== *)
theory Umallocprop
  imports Umalloc
begin

text \<open>
  Correctness of the allocator. A block is the pair of the unit of its header and its number of units. The free blocks
  are the list \<open>fl\<close>, in address order behind the static header \<^verbatim>\<open>base\<close>; together with the allocated blocks they tile
  the part of the process that \<^verbatim>\<open>sbrk\<close> has given.
\<close>

type_synonym block = "nat \<times> nat"

section \<open>Lists of pointers\<close>

text \<open>The pointers lead from \<open>x\<close> through the list to \<open>z\<close>.\<close>

fun lseg :: "(nat \<Rightarrow> nat) \<Rightarrow> nat \<Rightarrow> nat list \<Rightarrow> nat \<Rightarrow> bool" where
  "lseg f x [] z \<longleftrightarrow> x = z"
| "lseg f x (y # ys) z \<longleftrightarrow> x = y \<and> lseg f (f y) ys z"

lemma lseg_append: "lseg f x (us @ vs) z \<longleftrightarrow> (\<exists>y. lseg f x us y \<and> lseg f y vs z)"
  by (induction us arbitrary: x) auto

lemma lseg_cong: "(\<And>y. y \<in> set xs \<Longrightarrow> g y = f y) \<Longrightarrow> lseg g x xs z = lseg f x xs z"
  by (induction xs arbitrary: x) auto

lemma lseg_upd: "q \<notin> set xs \<Longrightarrow> lseg (f(q := v)) x xs z = lseg f x xs z"
  by (rule lseg_cong) auto

lemma lseg_nth: "lseg f x xs z \<Longrightarrow> i < length xs \<Longrightarrow> f (xs ! i) = (xs @ [z]) ! Suc i"
proof (induction xs arbitrary: x i)
  case (Cons y ys)
  then show ?case by (cases i; cases ys) auto
qed simp

text \<open>A circular list: every element leads to the next one, the last to the first.\<close>

lemma lseg_ring:
  assumes "lseg f x xs x" and "i < length xs"
  shows "f (xs ! i) = xs ! (Suc i mod length xs)"
proof (cases "Suc i = length xs")
  case True
  have "x = xs ! 0" using assms by (cases xs) auto
  then show ?thesis using lseg_nth [OF assms] True by (simp add: nth_append)
qed (use lseg_nth [OF assms] assms(2) in \<open>simp add: nth_append\<close>)

section \<open>Tilings\<close>

definition blk :: "block \<Rightarrow> nat set" where
  "blk b = {fst b..<fst b + snd b}"

definition tiles :: "block set \<Rightarrow> nat \<Rightarrow> nat \<Rightarrow> bool" where
  "tiles T lo hi \<longleftrightarrow> (\<forall>b\<in>T. 0 < snd b) \<and> (\<forall>b\<in>T. \<forall>c\<in>T. b \<noteq> c \<longrightarrow> blk b \<inter> blk c = {}) \<and> \<Union> (blk ` T) = {lo..<hi}"

lemma tiles_in: "tiles T lo hi \<Longrightarrow> (a, n) \<in> T \<Longrightarrow> lo \<le> a \<and> 0 < n \<and> a + n \<le> hi"
proof -
  assume t: "tiles T lo hi" "(a, n) \<in> T"
  then have n: "0 < n" and "blk (a, n) \<subseteq> {lo..<hi}" by (auto simp: tiles_def)
  then have "{a..<a + n} \<subseteq> {lo..<hi}" by (simp add: blk_def)
  then have "lo \<le> a \<and> a + n \<le> hi" using n by (simp add: atLeastLessThan_subset_iff)
  then show ?thesis using n by simp
qed

lemma tiles_inj: "tiles T lo hi \<Longrightarrow> (a, n) \<in> T \<Longrightarrow> (a, m) \<in> T \<Longrightarrow> m = n"
proof (rule ccontr)
  assume t: "tiles T lo hi" "(a, n) \<in> T" "(a, m) \<in> T" "m \<noteq> n"
  then have "blk (a, n) \<inter> blk (a, m) = {}" "0 < n" "0 < m" unfolding tiles_def by auto
  then show False by (auto simp: blk_def)
qed

lemma tiles_apart: "tiles T lo hi \<Longrightarrow> (a, n) \<in> T \<Longrightarrow> (b, m) \<in> T \<Longrightarrow> a < b \<Longrightarrow> a + n \<le> b"
proof (rule ccontr)
  assume t: "tiles T lo hi" "(a, n) \<in> T" "(b, m) \<in> T" "a < b" "\<not> a + n \<le> b"
  then have "blk (a, n) \<inter> blk (b, m) = {}" "0 < m" unfolding tiles_def by auto
  moreover have "b \<in> blk (a, n)" "b \<in> blk (b, m)" using t(4,5) \<open>0 < m\<close> by (simp_all add: blk_def)
  ultimately show False by blast
qed

text \<open>Cutting a block in two, joining two that touch, and growing the end.\<close>

lemma blk_cut: "blk (a, m + n) = blk (a, m) \<union> blk (a + m, n)"
  by (auto simp: blk_def)

lemma tiles_join:
  assumes t: "tiles (insert (a, m) (insert (a + m, n) R)) lo hi" and o: "(a, m) \<notin> R" "(a + m, n) \<notin> R"
  shows "tiles (insert (a, m + n) R) lo hi"
proof -
  have p: "0 < m" "0 < n" using t by (simp_all add: tiles_def)
  have d: "blk b \<inter> blk (a, m + n) = {}" if b: "b \<in> R" for b
  proof -
    have "b \<noteq> (a, m)" "b \<noteq> (a + m, n)" using b o by auto
    then have "blk b \<inter> blk (a, m) = {}" "blk b \<inter> blk (a + m, n) = {}" using t b unfolding tiles_def by blast+
    then show ?thesis unfolding blk_cut by blast
  qed
  have "\<Union> (blk ` insert (a, m + n) R) = {lo..<hi}" using t unfolding tiles_def by (simp add: blk_cut Un_assoc)
  moreover have "\<forall>b\<in>insert (a, m + n) R. 0 < snd b" using t p unfolding tiles_def by simp
  moreover have r: "blk b \<inter> blk c = {}" if "b \<in> R" "c \<in> R" "b \<noteq> c" for b c using t that unfolding tiles_def by blast
  have "blk b \<inter> blk c = {}" if "b \<in> insert (a, m + n) R" "c \<in> insert (a, m + n) R" "b \<noteq> c" for b c
    using that d [of b] d [of c] r [of b c] by (elim insertE) (simp_all add: Int_commute)
  ultimately show ?thesis unfolding tiles_def by blast
qed

lemma tiles_cut:
  assumes t: "tiles (insert (a, m + n) R) lo hi" and o: "(a, m + n) \<notin> R" and p: "0 < m" "0 < n"
  shows "tiles (insert (a, m) (insert (a + m, n) R)) lo hi"
proof -
  have d: "blk b \<inter> (blk (a, m) \<union> blk (a + m, n)) = {}" if b: "b \<in> R" for b
  proof -
    have "b \<noteq> (a, m + n)" using b o by auto
    then have "blk b \<inter> blk (a, m + n) = {}" using t b unfolding tiles_def by blast
    then show ?thesis unfolding blk_cut .
  qed
  have "blk (a, m) \<inter> blk (a + m, n) = {}" by (auto simp: blk_def)
  moreover have "\<Union> (blk ` insert (a, m) (insert (a + m, n) R)) = {lo..<hi}" using t unfolding tiles_def by (simp add: blk_cut Un_assoc)
  moreover have "\<forall>b\<in>insert (a, m) (insert (a + m, n) R). 0 < snd b" using t p unfolding tiles_def by simp
  moreover have r: "blk b \<inter> blk c = {}" if "b \<in> R" "c \<in> R" "b \<noteq> c" for b c using t that unfolding tiles_def by blast
  have d': "blk b \<inter> blk (a, m) = {}" "blk b \<inter> blk (a + m, n) = {}" if "b \<in> R" for b using d [OF that] by blast+
  have "blk b \<inter> blk c = {}" if "b \<in> insert (a, m) (insert (a + m, n) R)" "c \<in> insert (a, m) (insert (a + m, n) R)" "b \<noteq> c" for b c
    using that d' [of b] d' [of c] r [of b c] \<open>blk (a, m) \<inter> blk (a + m, n) = {}\<close> by (elim insertE) (simp_all add: Int_commute)
  ultimately show ?thesis unfolding tiles_def by blast
qed

lemma tiles_grow:
  assumes t: "tiles T lo hi" and "0 < n" and "lo \<le> hi"
  shows "tiles (insert (hi, n) T) lo (hi + n)"
proof -
  have d: "blk b \<inter> blk (hi, n) = {}" if "b \<in> T" for b
    using tiles_in [OF t, of "fst b" "snd b"] that by (auto simp: blk_def)
  have r: "blk b \<inter> blk c = {}" if "b \<in> T" "c \<in> T" "b \<noteq> c" for b c using t that unfolding tiles_def by blast
  have "\<Union> (blk ` insert (hi, n) T) = blk (hi, n) \<union> {lo..<hi}" using t unfolding tiles_def by simp
  also have "\<dots> = {lo..<hi + n}" using assms(3) by (auto simp: blk_def)
  finally have u: "\<Union> (blk ` insert (hi, n) T) = {lo..<hi + n}" .
  have "blk b \<inter> blk c = {}" if "b \<in> insert (hi, n) T" "c \<in> insert (hi, n) T" "b \<noteq> c" for b c
    using that d [of b] d [of c] r [of b c] by (elim insertE) (simp_all add: Int_commute)
  moreover have "\<forall>b\<in>insert (hi, n) T. 0 < snd b" using t assms(2) unfolding tiles_def by simp
  ultimately show ?thesis using u unfolding tiles_def by blast
qed

section \<open>The heap\<close>

text \<open>The list \<open>fl\<close> starts with the static header, a block of no units.\<close>

definition heap_rep :: "nat \<Rightarrow> uheap \<Rightarrow> block list \<Rightarrow> block set \<Rightarrow> bool" where
  "heap_rep lo s fl A \<longleftrightarrow> fl \<noteq> [] \<and> hd fl = (h_base s, 0) \<and> 0 < h_base s \<and> h_base s < lo \<and> lo \<le> h_brk s \<and> h_brk s < 2 ^ 31
     \<and> lseg (h_ptr s) (h_base s) (map fst fl) (h_base s) \<and> sorted_wrt (<) (map fst fl)
     \<and> (\<forall>b\<in>set fl \<union> A. unat (h_size s (fst b)) = snd b)
     \<and> tiles (set (tl fl) \<union> A) lo (h_brk s) \<and> set (tl fl) \<inter> A = {} \<and> h_freep s \<in> fst ` set fl"

text \<open>Before the first call of \<^verbatim>\<open>malloc\<close> there is no list.\<close>

definition heap_ok :: "nat \<Rightarrow> uheap \<Rightarrow> block set \<Rightarrow> bool" where
  "heap_ok lo s A \<longleftrightarrow>
     h_freep s = 0 \<and> A = {} \<and> 0 < h_base s \<and> h_base s < lo \<and> lo = h_brk s \<and> h_brk s < 2 ^ 31 \<or> (\<exists>fl. heap_rep lo s fl A)"

lemma heap_repD:
  assumes "heap_rep lo s fl A"
  shows "(a, n) \<in> set (tl fl) \<union> A \<Longrightarrow> lo \<le> a \<and> 0 < n \<and> a + n \<le> h_brk s"
    and "distinct (map fst fl)" and "fl = (h_base s, 0) # tl fl" and "(a, n) \<in> set (tl fl) \<Longrightarrow> h_base s < a"
proof -
  show fl: "fl = (h_base s, 0) # tl fl" using assms unfolding heap_rep_def by (metis list.collapse)
  have t: "tiles (set (tl fl) \<union> A) lo (h_brk s)" using assms by (simp add: heap_rep_def)
  show "(a, n) \<in> set (tl fl) \<union> A \<Longrightarrow> lo \<le> a \<and> 0 < n \<and> a + n \<le> h_brk s" by (rule tiles_in [OF t])
  have s: "sorted_wrt (<) (map fst fl)" using assms by (simp add: heap_rep_def)
  then show "distinct (map fst fl)" by (simp add: strict_sorted_iff)
  have "sorted_wrt (<) (map fst ((h_base s, 0) # tl fl))" using s fl by simp
  then show "h_base s < a" if "(a, n) \<in> set (tl fl)" using that by (force simp del: map_tl)
qed

section \<open>The search of free\<close>

text \<open>On a circular list in address order, from wherever it starts, the search stops at the last block before \<open>bp\<close>.\<close>

lemma free_place_finds:
  assumes ring: "lseg (h_ptr s) b xs b" and hd: "xs ! 0 = b" and sorted: "sorted_wrt (<) xs" and xs: "xs = us @ p # vs"
    and bp: "b < bp" "p < bp" "\<forall>v\<in>set vs. bp < v" and x: "x \<in> set xs"
  shows "free_place bp x s = Some p"
proof -
  define n where "n = length xs"
  define j where "j = length us"
  have j: "j < n" "xs ! j = p" by (simp_all add: n_def j_def xs nth_append)
  have R: "h_ptr s (xs ! i) = xs ! (Suc i mod n)" if "i < n" for i using lseg_ring [OF ring] that by (simp add: n_def)
  have mono: "xs ! i < xs ! k" if "i < k" "k < n" for i k using sorted that by (simp add: sorted_wrt_iff_nth_less n_def)
  have low: "xs ! i < bp" if "i \<le> j" for i using mono [of i j] that j bp(2) by (cases "i = j") auto
  have high: "bp < xs ! i" if "j < i" "i < n" for i
  proof -
    have "xs ! i = vs ! (i - Suc j)" "i - Suc j < length vs" using that by (simp_all add: xs j_def n_def nth_append nth_Cons')
    then show ?thesis using bp(3) by simp
  qed
  have next': "Suc i mod n = (if Suc i = n then 0 else Suc i)" if "i < n" for i using that by simp
  have stop: "free_place bp (xs ! j) s = Some p"
  proof (cases "Suc j = n")
    case True
    then have "h_ptr s (xs ! j) = b" using R [OF j(1)] hd by simp
    then show ?thesis using low [of 0] low [of j] hd bp j(2) mono [of 0 j] True
      by (subst free_place.simps) (cases "j = 0"; simp)
  next
    case False
    then have "h_ptr s (xs ! j) = xs ! Suc j" using R [OF j(1)] j by simp
    then show ?thesis using high [of "Suc j"] False j bp(2) by (subst free_place.simps) simp
  qed
  have skip: "free_place bp (xs ! i) s = free_place bp (xs ! (Suc i mod n)) s" if "i < n" "i \<noteq> j" for i
  proof (cases "Suc i = n")
    case True
    then have "h_ptr s (xs ! i) = b" "bp < xs ! i" using R [OF that(1)] hd high [of i] that j by simp_all
    then show ?thesis using bp(1) hd True by (subst free_place.simps) simp
  next
    case False
    have "h_ptr s (xs ! i) = xs ! Suc i" "xs ! i < xs ! Suc i" using R [OF that(1)] mono [of i "Suc i"] that False by simp_all
    moreover have "xs ! Suc i < bp \<or> bp < xs ! i" using low [of "Suc i"] high [of i] that by linarith
    ultimately show ?thesis using R [OF that(1)] by (subst free_place.simps) auto
  qed
  have reach: "free_place bp (xs ! ((j + n - d) mod n)) s = Some p" if "d < n" for d
    using that
  proof (induction d)
    case 0
    then show ?case using stop j by simp
  next
    case (Suc d)
    define i where "i = (j + n - Suc d) mod n"
    have i: "i < n" "Suc i mod n = (j + n - d) mod n" using Suc.prems by (simp_all add: i_def mod_Suc_eq Suc_diff_Suc)
    have "i \<noteq> j"
    proof
      assume e: "i = j"
      show False
      proof (cases "d < j")
        case True
        then have "j + n - Suc d = (j - Suc d) + n" by simp
        then have "i = (j - Suc d) mod n" unfolding i_def by simp
        then show ?thesis using e True j by simp
      next
        case False
        then have "i = j + n - Suc d" unfolding i_def using Suc.prems by simp
        then show ?thesis using e Suc.prems False by simp
      qed
    qed
    then show ?case using skip [OF i(1)] i(2) Suc unfolding i_def by simp
  qed
  obtain i where i: "i < n" "x = xs ! i" using x by (auto simp: in_set_conv_nth n_def)
  show ?thesis
  proof (cases "i \<le> j")
    case True
    then show ?thesis using reach [of "j - i"] i j by simp
  next
    case False
    then show ?thesis using reach [of "j + n - i"] i j by simp
  qed
qed

section \<open>Freeing a block\<close>

text \<open>A block in front of a list, joined with the first one if they touch.\<close>

definition join :: "block \<Rightarrow> block list \<Rightarrow> block list" where
  "join b ys = (case ys of c # zs \<Rightarrow> if fst b + snd b = fst c then (fst b, snd b + snd c) # zs else b # c # zs | [] \<Rightarrow> [b])"

lemma join_cases:
  obtains (Apart) "join (a, m) ys = (a, m) # ys" "\<And>n zs. ys \<noteq> (a + m, n) # zs"
  | (Joined) n zs where "ys = (a + m, n) # zs" "join (a, m) ys = (a, m + n) # zs"
proof (cases "\<exists>n zs. ys = (a + m, n) # zs")
  case True
  then show ?thesis using Joined by (auto simp: join_def)
next
  case False
  then have "join (a, m) ys = (a, m) # ys" by (cases ys) (auto simp: join_def)
  then show ?thesis using Apart False by blast
qed

lemma hd_join: "\<exists>n zs. join (a, m) ys = (a, n) # zs"
  by (cases rule: join_cases [of a m ys]) auto

text \<open>Both halves of \<open>free_link\<close> do the same to a block \<open>a\<close> and the block \<open>q\<close> that follows it.\<close>

definition link :: "nat \<Rightarrow> nat \<Rightarrow> uheap \<Rightarrow> uheap" where
  "link a q s = (if after_block a s = q then set_ptr a (h_ptr s q) (set_size a (h_size s a + h_size s q) s) else set_ptr a q s)"

lemma free_link_eq: "free_link bp p s = (link p bp (link bp (h_ptr s p) s))\<lparr>h_freep := p\<rparr>"
  by (simp add: free_link_def link_def Let_def)

lemma link_fields:
  "x \<noteq> a \<Longrightarrow> h_ptr (link a q s) x = h_ptr s x" "x \<noteq> a \<Longrightarrow> h_size (link a q s) x = h_size s x"
  "h_base (link a q s) = h_base s" "h_brk (link a q s) = h_brk s"
  by (simp_all add: link_def set_ptr_def set_size_def)

lemma link_join:
  assumes l: "lseg (h_ptr s) q (map fst ys) z" and a: "a \<notin> fst ` set ys"
    and sz: "\<forall>b\<in>insert (a, m) (set ys). unat (h_size s (fst b)) = snd b"
    and small: "\<forall>b\<in>set ys. m + snd b < 2 ^ 32" and last: "ys = [] \<Longrightarrow> a + m \<noteq> q"
  shows "lseg (h_ptr (link a q s)) a (map fst (join (a, m) ys)) z"
    and "\<forall>b\<in>set (join (a, m) ys). unat (h_size (link a q s) (fst b)) = snd b"
proof -
  have ab: "after_block a s = a + m" using sz by (simp add: after_block_def)
  have frame: "lseg (h_ptr (link a q s)) x (map fst zs) z = lseg (h_ptr s) x (map fst zs) z" if "set zs \<subseteq> set ys" for x zs
    using that a by (intro lseg_cong link_fields(1)) auto
  have "lseg (h_ptr (link a q s)) a (map fst (join (a, m) ys)) z
      \<and> (\<forall>b\<in>set (join (a, m) ys). unat (h_size (link a q s) (fst b)) = snd b)"
  proof (cases rule: join_cases [of a m ys])
    case Apart
    have "q \<noteq> a + m" using last l Apart(2) by (cases ys) (auto, blast)
    then have k: "link a q s = set_ptr a q s" using ab by (simp add: link_def)
    then have "h_ptr (link a q s) a = q" by (simp add: set_ptr_def)
    then show ?thesis using Apart(1) l frame [of ys] sz k by (simp add: set_ptr_def)
  next
    case (Joined n zs)
    then have q: "q = a + m" and l': "lseg (h_ptr s) (h_ptr s q) (map fst zs) z" using l by simp_all
    then have k: "link a q s = set_ptr a (h_ptr s q) (set_size a (h_size s a + h_size s q) s)" using ab by (simp add: link_def)
    have "unat (h_size s a + h_size s q) = m + n" using sz small Joined(1) q by (simp add: unat_word_ariths)
    moreover have "\<forall>b\<in>set zs. fst b \<noteq> a" using a Joined(1) by auto
    ultimately show ?thesis using Joined l' frame [of zs] sz k by (auto simp: set_ptr_def set_size_def)
  qed
  then show "lseg (h_ptr (link a q s)) a (map fst (join (a, m) ys)) z"
    and "\<forall>b\<in>set (join (a, m) ys). unat (h_size (link a q s) (fst b)) = snd b" by blast+
qed

lemma join_addresses: "fst ` set (join b ys) \<subseteq> fst ` set (b # ys)" "fst b \<in> fst ` set (join b ys)"
  by (cases b; cases rule: join_cases [of "fst b" "snd b" ys]; force)+

lemma join_sorted:
  assumes "sorted_wrt (<) (map fst (us @ b # ys))"
  shows "sorted_wrt (<) (map fst (us @ join b ys))"
proof -
  have "sorted_wrt (<) (map fst (join b ys))"
    using assms by (cases b; cases rule: join_cases [of "fst b" "snd b" ys]) (auto simp: sorted_wrt_append)
  moreover have "x < y" if "x \<in> fst ` set us" "y \<in> fst ` set (join b ys)" for x y
    using that assms join_addresses(1) [of b ys] unfolding map_append sorted_wrt_append by (simp only: set_map) blast
  moreover have "sorted_wrt (<) (map fst us)" using assms unfolding map_append sorted_wrt_append by blast
  ultimately show ?thesis unfolding map_append sorted_wrt_append by simp
qed

lemma join_tiles:
  assumes t: "tiles (insert b (set ys) \<union> B) lo hi" and d: "distinct (b # ys)" "insert b (set ys) \<inter> B = {}"
  shows "tiles (set (join b ys) \<union> B) lo hi" and "set (join b ys) \<inter> B = {}"
proof -
  obtain a m where b: "b = (a, m)" by fastforce
  have "tiles (set (join b ys) \<union> B) lo hi \<and> set (join b ys) \<inter> B = {}"
  proof (cases rule: join_cases [of a m ys])
    case Apart
    then show ?thesis using t d b by simp
  next
    case (Joined n zs)
    let ?R = "set zs \<union> B"
    have "tiles (insert (a, m + n) ?R) lo hi"
      by (rule tiles_join) (use t d in \<open>auto simp: b Joined(1) insert_commute\<close>)
    moreover have "(a, m + n) \<notin> B"
    proof
      assume "(a, m + n) \<in> B"
      then have "m + n = m" by (intro tiles_inj [OF t, of a m]) (simp_all add: b)
      moreover have "0 < n" using t Joined(1) by (simp add: tiles_def)
      ultimately show False by simp
    qed
    ultimately show ?thesis using d Joined by (auto simp: b)
  qed
  then show "tiles (set (join b ys) \<union> B) lo hi" "set (join b ys) \<inter> B = {}" by blast+
qed

lemma heap_rep_apart:
  assumes rep: "heap_rep lo s fl A" and A: "(bp, n) \<in> A" and b: "b \<in> set fl \<union> (A - {(bp, n)})"
  shows "fst b \<noteq> bp"
proof
  assume e: "fst b = bp"
  have t: "tiles (set (tl fl) \<union> A) lo (h_brk s)" and d: "set (tl fl) \<inter> A = {}" using rep by (simp_all add: heap_rep_def)
  have "lo \<le> bp" "h_base s < lo" using heap_repD(1) [OF rep, of bp n] A rep by (simp_all add: heap_rep_def)
  then have "b \<noteq> (h_base s, 0)" using e by auto
  then have m: "b \<in> set (tl fl) \<union> (A - {(bp, n)})" using b heap_repD(3) [OF rep] by (metis UnCI UnE set_ConsD)
  then have "(bp, snd b) \<in> set (tl fl) \<union> A" using e by (cases b) auto
  then have "snd b = n" using tiles_inj [OF t] A by blast
  then have "b = (bp, n)" using e by (cases b) simp
  then show False using m d A by blast
qed

lemma free_link_tiles:
  assumes rep: "heap_rep lo s (us @ (p, m) # vs) A" and A: "(bp, n) \<in> A" and p: "p < bp"
    and so: "sorted_wrt (<) (map fst (us @ (p, m) # (bp, n) # vs))"
  defines "fl \<equiv> us @ join (p, m) (join (bp, n) vs)"
  shows "fl \<noteq> []" and "hd fl = (h_base s, 0)" and "tiles (set (tl fl) \<union> (A - {(bp, n)})) lo (h_brk s)" and "set (tl fl) \<inter> (A - {(bp, n)}) = {}"
    and "\<forall>b\<in>set (join (bp, n) vs). m + snd b < 2 ^ 32"
proof -
  let ?A = "A - {(bp, n)}"
  obtain n' ws where L: "join (bp, n) vs = (bp, n') # ws" using hd_join by blast
  have t: "tiles (set (tl (us @ (p, m) # vs)) \<union> A) lo (h_brk s)" and d: "set (tl (us @ (p, m) # vs)) \<inter> A = {}"
    and h: "hd (us @ (p, m) # vs) = (h_base s, 0)" and small: "h_brk s < 2 ^ 31"
    using rep by (simp_all add: heap_rep_def)
  have dist: "distinct (us @ (p, m) # (bp, n) # vs)" using so strict_sorted_iff distinct_map by blast
  have so2: "sorted_wrt (<) (map fst ((us @ [(p, m)]) @ join (bp, n) vs))" by (rule join_sorted) (use so in simp)
  have dist2: "distinct ((us @ [(p, m)]) @ join (bp, n) vs)" using so2 strict_sorted_iff distinct_map by blast
  have "fl \<noteq> [] \<and> hd fl = (h_base s, 0) \<and> tiles (set (tl fl) \<union> ?A) lo (h_brk s) \<and> set (tl fl) \<inter> ?A = {}
      \<and> (\<forall>b\<in>set (join (bp, n) vs). m + snd b < 2 ^ 32)"
  proof (cases us)
    case Nil
    then have b: "p = h_base s" "m = 0" using h by simp_all
    have "insert (bp, n) (set vs) \<union> ?A = set (tl (us @ (p, m) # vs)) \<union> A" using A Nil by auto
    then have j: "tiles (set (join (bp, n) vs) \<union> ?A) lo (h_brk s)" "set (join (bp, n) vs) \<inter> ?A = {}"
      using join_tiles [of "(bp, n)" vs ?A lo "h_brk s"] t d dist Nil by auto
    have "fl = (p, m) # join (bp, n) vs" unfolding fl_def Nil L using p b by (simp add: join_def)
    moreover have "snd c < 2 ^ 31" if "c \<in> set (join (bp, n) vs)" for c
      using tiles_in [OF j(1), of "fst c" "snd c"] that small by simp
    ultimately show ?thesis using j b by fastforce
  next
    case (Cons u us')
    let ?B = "insert (p, m) (set us' \<union> ?A)"
    have "insert (bp, n) (set vs) \<union> ?B = set (tl (us @ (p, m) # vs)) \<union> A" using A Cons by auto
    then have j: "tiles (set (join (bp, n) vs) \<union> ?B) lo (h_brk s)" "set (join (bp, n) vs) \<inter> ?B = {}"
      using join_tiles [of "(bp, n)" vs ?B lo "h_brk s"] t d dist Cons by auto
    have e: "insert (p, m) (set (join (bp, n) vs)) \<union> (set us' \<union> ?A) = set (join (bp, n) vs) \<union> ?B" by blast
    have j2: "tiles (set (join (p, m) (join (bp, n) vs)) \<union> (set us' \<union> ?A)) lo (h_brk s)"
        "set (join (p, m) (join (bp, n) vs)) \<inter> (set us' \<union> ?A) = {}"
      using join_tiles [of "(p, m)" "join (bp, n) vs" "set us' \<union> ?A" lo "h_brk s"] j d dist2 Cons unfolding e by auto
    have x: "snd c < 2 ^ 31" if "c \<in> insert (p, m) (set (join (bp, n) vs))" for c
      using tiles_in [OF j(1), of "fst c" "snd c"] that small by auto
    have "set (tl fl) = set (join (p, m) (join (bp, n) vs)) \<union> set us'" by (auto simp: fl_def Cons)
    moreover have "m + snd c < 2 ^ 32" if "c \<in> set (join (bp, n) vs)" for c using x [of "(p, m)"] x [of c] that by simp
    ultimately show ?thesis using j2 d h Cons by (auto simp: fl_def Un_assoc)
  qed
  then show "fl \<noteq> []" and "hd fl = (h_base s, 0)" and "tiles (set (tl fl) \<union> ?A) lo (h_brk s)" and "set (tl fl) \<inter> ?A = {}"
    and "\<forall>b\<in>set (join (bp, n) vs). m + snd b < 2 ^ 32" by blast+
qed

lemma free_link_rep:
  assumes rep: "heap_rep lo s (us @ (p, m) # vs) A" and A: "(bp, n) \<in> A" and p: "p < bp" and v: "\<forall>v\<in>set vs. bp < fst v"
  shows "heap_rep lo (free_link bp p s) (us @ join (p, m) (join (bp, n) vs)) (A - {(bp, n)})"
proof -
  let ?fl = "us @ (p, m) # vs" and ?A = "A - {(bp, n)}" and ?L = "join (bp, n) vs"
  let ?s1 = "link bp (h_ptr s p) s"
  let ?s2 = "link p bp ?s1"
  have l: "lseg (h_ptr s) (h_base s) (map fst ?fl) (h_base s)" and so0: "sorted_wrt (<) (map fst ?fl)"
    and sz: "\<forall>b\<in>set ?fl \<union> A. unat (h_size s (fst b)) = snd b" and small: "h_brk s < 2 ^ 31"
    using rep by (simp_all add: heap_rep_def)
  have so: "sorted_wrt (<) (map fst (us @ (p, m) # (bp, n) # vs))"
    using so0 p v by (auto simp: sorted_wrt_append)
  note T = free_link_tiles [OF rep A p so]
  obtain n' ws where L: "?L = (bp, n') # ws" using hd_join by blast
  have apart: "fst b \<noteq> bp" if "b \<in> set ?fl \<union> ?A" for b by (rule heap_rep_apart [OF rep A that])
  have ap: "fst b \<noteq> p" if b: "b \<in> set us \<union> set vs \<union> ?A" for b
  proof
    assume e: "fst b = p"
    have "b \<notin> set us \<union> set vs" using so e by (auto simp: sorted_wrt_append)
    then have "b \<in> ?A" using b by blast
    then have "lo \<le> p" using heap_repD(1) [OF rep, of "fst b" "snd b"] e by auto
    then have "(p, m) \<noteq> (h_base s, 0)" using rep by (auto simp: heap_rep_def)
    then have "(p, m) \<in> set (tl ?fl)" using heap_repD(3) [OF rep] by (metis in_set_conv_decomp set_ConsD)
    moreover have "tiles (set (tl ?fl) \<union> A) lo (h_brk s)" "set (tl ?fl) \<inter> A = {}" using rep by (simp_all add: heap_rep_def)
    ultimately have "snd b = m" using tiles_inj [of _ lo "h_brk s" p "snd b" m] \<open>b \<in> ?A\<close> e by (cases b) auto
    then have "b = (p, m)" using e by (cases b) simp
    then show False using \<open>b \<in> ?A\<close> \<open>(p, m) \<in> set (tl ?fl)\<close> \<open>set (tl ?fl) \<inter> A = {}\<close> by blast
  qed
  have lu: "lseg (h_ptr s) (h_base s) (map fst us) p" and lv: "lseg (h_ptr s) (h_ptr s p) (map fst vs) (h_base s)"
    using l by (auto simp: lseg_append)
  have bb: "h_base s < bp" using rep heap_repD(1) [OF rep, of bp n] A by (simp add: heap_rep_def)
  have tA: "\<forall>b\<in>set vs. n + snd b < 2 ^ 32"
  proof
    fix b
    assume "b \<in> set vs"
    then have "b \<in> set (tl ?fl)" by (cases us) simp_all
    then have "snd b < 2 ^ 31" "n < 2 ^ 31" using heap_repD(1) [OF rep, of "fst b" "snd b"] heap_repD(1) [OF rep, of bp n] A small by auto
    then show "n + snd b < 2 ^ 32" by simp
  qed
  have one: "lseg (h_ptr ?s1) bp (map fst ?L) (h_base s)" "\<forall>b\<in>set ?L. unat (h_size ?s1 (fst b)) = snd b"
  proof -
    have a: "bp \<notin> fst ` set vs" using apart by auto
    have z: "\<forall>b\<in>insert (bp, n) (set vs). unat (h_size s (fst b)) = snd b" using sz A by (auto simp: ball_Un)
    have e: "bp + n \<noteq> h_ptr s p" if "vs = []" using lv that bb by simp
    show "lseg (h_ptr ?s1) bp (map fst ?L) (h_base s)" "\<forall>b\<in>set ?L. unat (h_size ?s1 (fst b)) = snd b"
      using link_join [OF lv a z tA e] by blast+
  qed
  have pb: "p \<noteq> bp" using p by simp
  have pL: "p \<notin> fst ` set ?L" using join_addresses(1) [of "(bp, n)" vs] ap pb by fastforce
  have two: "lseg (h_ptr ?s2) p (map fst (join (p, m) ?L)) (h_base s)"
      "\<forall>b\<in>set (join (p, m) ?L). unat (h_size ?s2 (fst b)) = snd b"
  proof -
    have z: "\<forall>b\<in>insert (p, m) (set ?L). unat (h_size ?s1 (fst b)) = snd b" using one(2) sz link_fields(2) [OF pb] by simp
    have e: "p + m \<noteq> bp" if "?L = []" using that L by simp
    show "lseg (h_ptr ?s2) p (map fst (join (p, m) ?L)) (h_base s)"
        "\<forall>b\<in>set (join (p, m) ?L). unat (h_size ?s2 (fst b)) = snd b"
      using link_join [OF one(1) pL z T(5) e] by blast+
  qed
  have "lseg (h_ptr ?s2) (h_base s) (map fst us) p = lseg (h_ptr s) (h_base s) (map fst us) p"
  proof (rule lseg_cong)
    fix y
    assume "y \<in> set (map fst us)"
    then obtain b where "b \<in> set us" "y = fst b" by auto
    then show "h_ptr ?s2 y = h_ptr s y" using apart [of b] ap [of b] by (simp add: link_fields)
  qed
  then have ring: "lseg (h_ptr ?s2) (h_base s) (map fst (us @ join (p, m) ?L)) (h_base s)"
    using lu two(1) by (auto simp: lseg_append)
  have sizes: "\<forall>b\<in>set (us @ join (p, m) ?L) \<union> ?A. unat (h_size ?s2 (fst b)) = snd b"
  proof
    fix b
    assume "b \<in> set (us @ join (p, m) ?L) \<union> ?A"
    then consider "b \<in> set (join (p, m) ?L)" | "b \<in> set us \<union> ?A" by auto
    then show "unat (h_size ?s2 (fst b)) = snd b"
    proof cases
      case 2
      then have "fst b \<noteq> p" "fst b \<noteq> bp" using ap [of b] apart [of b] by auto
      then show ?thesis using sz 2 by (auto simp: link_fields)
    qed (use two(2) in blast)
  qed
  have so2: "sorted_wrt (<) (map fst (us @ join (p, m) ?L))"
    by (rule join_sorted) (use join_sorted [of "us @ [(p, m)]" "(bp, n)" vs] so in simp)
  have "p \<in> fst ` set (us @ join (p, m) ?L)" using join_addresses(2) [of "(p, m)" ?L] by auto
  then show ?thesis
    unfolding heap_rep_def free_link_eq using T(1-4) ring sizes so2 rep
    by (simp add: link_fields heap_rep_def)
qed

lemma ufree_rep:
  assumes rep: "heap_rep lo s fl A" and A: "(bp, n) \<in> A"
  shows "\<exists>s' us p m vs. ufree (bp + 1) s = Some s' \<and> fl = us @ (p, m) # vs \<and> heap_rep lo s' (us @ join (p, m) (join (bp, n) vs)) (A - {(bp, n)})
    \<and> h_freep s' = p \<and> h_base s' = h_base s \<and> h_brk s' = h_brk s"
proof -
  define us0 where "us0 = takeWhile (\<lambda>b. fst b < bp) fl"
  define vs where "vs = dropWhile (\<lambda>b. fst b < bp) fl"
  have l: "lseg (h_ptr s) (h_base s) (map fst fl) (h_base s)" and so: "sorted_wrt (<) (map fst fl)" and f: "h_freep s \<in> fst ` set fl"
    and b: "h_base s < bp" using rep heap_repD(1) [OF rep, of bp n] A by (simp_all add: heap_rep_def)
  have fl0: "fl = us0 @ vs" by (simp add: us0_def vs_def)
  have "us0 \<noteq> []" unfolding us0_def using b by (subst heap_repD(3) [OF rep]) simp
  then obtain us p m where us0: "us0 = us @ [(p, m)]" by (metis rev_exhaust surj_pair)
  have fl: "fl = us @ (p, m) # vs" by (simp add: fl0 us0)
  have p: "p < bp" using us0 set_takeWhileD [of "(p, m)" "\<lambda>b. fst b < bp" fl] unfolding us0_def by simp
  have v: "\<forall>v\<in>set vs. bp < fst v"
  proof (cases vs)
    case (Cons w ws)
    have "\<not> fst w < bp" using Cons hd_dropWhile [of "\<lambda>b. fst b < bp" fl] unfolding vs_def by simp
    moreover have "fst w \<noteq> bp" using heap_rep_apart [OF rep A, of w] Cons by (simp add: fl)
    ultimately have "bp < fst w" by simp
    then show ?thesis using so Cons by (auto simp: fl sorted_wrt_append)
  qed simp
  have "map fst fl ! 0 = h_base s" by (subst heap_repD(3) [OF rep]) simp
  then have "free_place bp (h_freep s) s = Some p"
    by (rule free_place_finds [OF l _ so, of "map fst us" p "map fst vs"]) (use fl p v f b in auto)
  then have "ufree (bp + 1) s = Some (free_link bp p s)" by (simp add: ufree_def)
  moreover have "heap_rep lo (free_link bp p s) (us @ join (p, m) (join (bp, n) vs)) (A - {(bp, n)})"
    using free_link_rep [OF rep [unfolded fl] A p v] .
  ultimately show ?thesis using fl by (auto simp: free_link_eq link_fields)
qed

section \<open>Allocating a block\<close>

text \<open>Taking a block that follows \<open>prevp\<close> in the list.\<close>

lemma take_block_rep:
  assumes rep: "heap_rep lo s fl A" and i: "i < length fl" and j: "fl ! (Suc i mod length fl) = (p, m)"
    and u: "0 < unat u" "unat u \<le> m"
  shows "\<exists>a s' fl'. take_block u (fst (fl ! i)) p s = (Some (a + 1), s') \<and> heap_rep lo s' fl' (insert (a, unat u) A) \<and> (a, unat u) \<notin> A"
proof -
  have "Suc i < length fl"
  proof (rule ccontr)
    assume "\<not> Suc i < length fl"
    then have "Suc i = length fl" using i by simp
    then have "Suc i mod length fl = 0" by simp
    then have "(p, m) = (h_base s, 0)" using j heap_repD(3) [OF rep] by (metis nth_Cons_0)
    then show False using u by simp
  qed
  define us where "us = take i fl"
  define vs where "vs = drop (Suc (Suc i)) fl"
  obtain q k where b: "fl ! i = (q, k)" by fastforce
  have "fl ! Suc i = (p, m)" using j \<open>Suc i < length fl\<close> by simp
  then have fl: "fl = us @ (q, k) # (p, m) # vs"
    using \<open>Suc i < length fl\<close> b unfolding us_def vs_def by (metis Cons_nth_drop_Suc Suc_lessD append_take_drop_id)
  let ?T = "set (tl (us @ [(q, k)])) \<union> set vs \<union> A"
  have tl: "set (tl fl) = insert (p, m) (set (tl (us @ [(q, k)])) \<union> set vs)" by (cases us) (auto simp: fl)
  have R: "h_ptr s q = p" "lseg (h_ptr s) (h_base s) (map fst us) q" "lseg (h_ptr s) (h_ptr s p) (map fst vs) (h_base s)"
    and so: "sorted_wrt (<) (map fst (us @ (q, k) # (p, m) # vs))" and t: "tiles (set (tl fl) \<union> A) lo (h_brk s)"
    and d: "set (tl fl) \<inter> A = {}" and sz: "\<forall>b\<in>set fl \<union> A. unat (h_size s (fst b)) = snd b"
    using rep by (auto simp: heap_rep_def fl lseg_append)
  have q: "q \<notin> fst ` set us" "q \<notin> fst ` set vs" "q \<noteq> p" using so by (auto simp: sorted_wrt_append)
  have "distinct fl" using heap_repD(2) [OF rep] distinct_map by blast
  then have new: "(p, m) \<notin> ?T" using d by (cases us) (auto simp: fl)
  have t': "tiles (insert (p, m) ?T) lo (h_brk s)" using t by (simp add: tl Un_assoc)
  have pm: "unat (h_size s p) = m" using sz by (auto simp: fl)
  have "hd fl = (h_base s, 0)" using rep by (simp add: heap_rep_def)
  then have hd: "hd (us @ (q, k) # ys) = (h_base s, 0)" for ys unfolding fl by (cases us) simp_all
  have rest: "0 < h_base s" "h_base s < lo" "lo \<le> h_brk s" "h_brk s < 2 ^ 31" using rep by (simp_all add: heap_rep_def)
  show ?thesis
  proof (cases "m = unat u")
    case True
    let ?s = "(set_ptr q (h_ptr s p) s)\<lparr>h_freep := q\<rparr>" and ?fl = "us @ (q, k) # vs"
    have "h_size s p = u" using True pm by (simp add: word_unat_eq_iff)
    then have e: "take_block u (fst (fl ! i)) p s = (Some (p + 1), ?s)" by (simp add: take_block_def b)
    have tl': "set (tl ?fl) = set (tl (us @ [(q, k)])) \<union> set vs" by (cases us) auto
    have "heap_rep lo ?s ?fl (insert (p, m) A)"
      unfolding heap_rep_def
    proof (intro conjI)
      have "lseg ((h_ptr s)(q := h_ptr s p)) (h_base s) (map fst us) q" "lseg ((h_ptr s)(q := h_ptr s p)) (h_ptr s p) (map fst vs) (h_base s)"
        using R(2,3) q(1,2) by (simp_all only: lseg_upd set_map not_False_eq_True)
      then have "lseg ((h_ptr s)(q := h_ptr s p)) (h_base s) (map fst ?fl) (h_base s)" by (auto simp: lseg_append)
      then show "lseg (h_ptr ?s) (h_base ?s) (map fst ?fl) (h_base ?s)" by (simp add: set_ptr_def)
      show "sorted_wrt (<) (map fst ?fl)" using so by (auto simp: sorted_wrt_append)
      have "set (tl ?fl) \<union> insert (p, m) A = insert (p, m) ?T" unfolding tl' by blast
      then show "tiles (set (tl ?fl) \<union> insert (p, m) A) lo (h_brk ?s)" using t' by (simp add: set_ptr_def)
      show "set (tl ?fl) \<inter> insert (p, m) A = {}" using new d unfolding tl' tl by blast
      show "\<forall>b\<in>set ?fl \<union> insert (p, m) A. unat (h_size ?s (fst b)) = snd b" using sz pm by (auto simp: fl set_ptr_def)
    qed (use hd rest in \<open>simp_all add: set_ptr_def\<close>)
    then show ?thesis using e True new by blast
  next
    case False
    then have um: "unat u < m" using u by simp
    let ?a = "p + (m - unat u)"
    let ?s = "(set_size ?a u (set_size p (h_size s p - u) s))\<lparr>h_freep := q\<rparr>" and ?fl = "us @ (q, k) # (p, m - unat u) # vs"
    have "h_size s p \<noteq> u" using False pm by auto
    moreover have sub: "unat (h_size s p - u) = m - unat u" using pm u by (simp add: unat_sub word_le_nat_alt)
    ultimately have e: "take_block u (fst (fl ! i)) p s = (Some (?a + 1), ?s)"
      by (simp add: take_block_def b Let_def after_block_def set_size_def)
    have tl': "set (tl ?fl) = insert (p, m - unat u) (set (tl (us @ [(q, k)])) \<union> set vs)" by (cases us) auto
    have t2: "tiles (insert (p, m - unat u) (insert (?a, unat u) ?T)) lo (h_brk s)"
      by (rule tiles_cut) (use t' new um u in simp_all)
    have lp: "lo \<le> p" using heap_repD(1) [OF rep, of p m] tl by simp
    have old: "fst c < p \<or> p + m \<le> fst c" if c: "c \<in> ?T" for c
    proof -
      have "blk c \<inter> blk (p, m) = {}" using t' new c unfolding tiles_def by (metis insertCI)
      moreover have "0 < snd c" using t' c unfolding tiles_def by blast
      then have "fst c \<in> blk c" by (simp add: blk_def)
      ultimately have "fst c \<notin> blk (p, m)" by blast
      then show ?thesis by (auto simp: blk_def)
    qed
    have addr: "fst c \<noteq> p \<and> fst c \<noteq> ?a" if "c \<in> set us \<union> {(q, k)} \<union> set vs \<union> A" for c
    proof (cases "c = (h_base s, 0)")
      case True
      then show ?thesis using lp rest by simp
    next
      case False
      then have "c \<in> ?T" using that hd [of "[]"] by (cases us) auto
      then show ?thesis using old [of c] um u by auto
    qed
    have "heap_rep lo ?s ?fl (insert (?a, unat u) A)"
      unfolding heap_rep_def
    proof (intro conjI)
      have "lseg (h_ptr s) (h_base s) (map fst ?fl) (h_base s)" using R by (auto simp: lseg_append)
      then show "lseg (h_ptr ?s) (h_base ?s) (map fst ?fl) (h_base ?s)" by (simp add: set_size_def)
      show "sorted_wrt (<) (map fst ?fl)" using so by (auto simp: sorted_wrt_append)
      have "set (tl ?fl) \<union> insert (?a, unat u) A = insert (p, m - unat u) (insert (?a, unat u) ?T)" unfolding tl' by blast
      then show "tiles (set (tl ?fl) \<union> insert (?a, unat u) A) lo (h_brk ?s)" using t2 by (simp add: set_size_def)
      have "(?a, unat u) \<notin> ?T" using old [of "(?a, unat u)"] um u by auto
      moreover have "(p, m - unat u) \<notin> ?T" using old [of "(p, m - unat u)"] um by auto
      ultimately show "set (tl ?fl) \<inter> insert (?a, unat u) A = {}" using d um unfolding tl' tl by auto
      show "\<forall>c\<in>set ?fl \<union> insert (?a, unat u) A. unat (h_size ?s (fst c)) = snd c"
      proof
        fix c
        assume "c \<in> set ?fl \<union> insert (?a, unat u) A"
        then consider "c = (p, m - unat u)" | "c = (?a, unat u)" | "c \<in> set us \<union> {(q, k)} \<union> set vs \<union> A" by auto
        then show "unat (h_size ?s (fst c)) = snd c"
        proof cases
          case 3
          then have "unat (h_size s (fst c)) = snd c" using sz unfolding fl by auto
          then show ?thesis using addr [OF 3] by (simp add: set_size_def)
        next
          case 1
          have "p \<noteq> ?a" using um by simp
          then show ?thesis using 1 sub by (simp add: set_size_def del: diff_add_assoc Nat.add_diff_assoc)
        qed (simp add: set_size_def)
      qed
    qed (use hd rest in \<open>simp_all add: set_size_def\<close>)
    moreover have "(?a, unat u) \<notin> A" using old [of "(?a, unat u)"] um u by auto
    ultimately show ?thesis using e by blast
  qed
qed

lemma take_block_brk: "take_block u q p s = (r, s') \<Longrightarrow> h_brk s' = h_brk s"
  by (auto simp: take_block_def Let_def set_size_def set_ptr_def split: if_splits)

lemma take_next:
  assumes rep: "heap_rep lo s fl A" and q: "q \<in> fst ` set fl" and p: "h_ptr s q \<in> fst ` set fl" "u \<le> h_size s (h_ptr s q)" and u: "0 < unat u"
  shows "\<exists>a s' fl'. take_block u q (h_ptr s q) s = (Some (a + 1), s') \<and> heap_rep lo s' fl' (insert (a, unat u) A) \<and> (a, unat u) \<notin> A"
proof -
  obtain i where i: "i < length fl" "q = fst (fl ! i)" using q by (auto simp: in_set_conv_nth)
  have l: "lseg (h_ptr s) (h_base s) (map fst fl) (h_base s)" and sz: "\<forall>b\<in>set fl \<union> A. unat (h_size s (fst b)) = snd b"
    using rep by (simp_all add: heap_rep_def)
  have j: "Suc i mod length fl < length fl" using i by (intro mod_less_divisor) auto
  have n: "h_ptr s q = fst (fl ! (Suc i mod length fl))" using lseg_ring [OF l, of i] i j by simp
  obtain m where m: "fl ! (Suc i mod length fl) = (h_ptr s q, m)" unfolding n by (metis prod.collapse)
  then have "(h_ptr s q, m) \<in> set fl" using j nth_mem by metis
  then have "unat (h_size s (h_ptr s q)) = m" using sz by force
  then have "unat u \<le> m" using p(2) by (simp add: word_le_nat_alt)
  then show ?thesis using take_block_rep [OF rep i(1) m u] i(2) by simp
qed

text \<open>What the loop does when it has come round to \<^verbatim>\<open>freep\<close>.\<close>

definition more :: "(nat \<Rightarrow> int \<Rightarrow> bool) \<Rightarrow> u32 \<Rightarrow> uheap \<Rightarrow> (nat option \<times> uheap) option" where
  "more grow u s = (case morecore grow u s of None \<Rightarrow> None | Some (None, s) \<Rightarrow> Some (None, s)
     | Some (Some q, s) \<Rightarrow> malloc_loop grow u q (h_ptr s q) s)"

text \<open>One round of the list: the first block that is large enough is taken, or there is none.\<close>

lemma malloc_round:
  assumes "lseg (h_ptr s) (h_ptr s q) xs z" and "xs \<noteq> []" and "last xs = h_freep s" and "h_freep s \<notin> set (butlast xs)"
  shows "(\<exists>y\<in>insert q (set xs). u \<le> h_size s (h_ptr s y) \<and> h_ptr s y \<in> set xs \<and> malloc_loop grow u q (h_ptr s q) s = Some (take_block u y (h_ptr s y) s))
    \<or> (\<forall>x\<in>set xs. \<not> u \<le> h_size s x) \<and> malloc_loop grow u q (h_ptr s q) s = more grow u s"
  using assms
proof (induction xs arbitrary: q)
  case (Cons x xs)
  then have x: "h_ptr s q = x" "lseg (h_ptr s) (h_ptr s x) xs z" by simp_all
  show ?case
  proof (cases "u \<le> h_size s x")
    case True
    then have "malloc_loop grow u q (h_ptr s q) s = Some (take_block u q (h_ptr s q) s)"
      using x(1) by (subst malloc_loop.simps) simp
    then show ?thesis using True x(1) by auto
  next
    case big: False
    show ?thesis
    proof (cases "xs = []")
      case True
      then have "malloc_loop grow u q (h_ptr s q) s = more grow u s"
        using Cons.prems(3) x(1) big by (subst malloc_loop.simps) (simp add: more_def)
      then show ?thesis using True big by simp
    next
      case False
      then have "x \<noteq> h_freep s" using Cons.prems(4) by auto
      then have "malloc_loop grow u q (h_ptr s q) s = malloc_loop grow u x (h_ptr s x) s"
        using x(1) big by (subst malloc_loop.simps) simp
      then show ?thesis using Cons.IH [OF x(2) False] Cons.prems(3,4) False big by auto
    qed
  qed
qed simp

lemma malloc_round_rep:
  assumes rep: "heap_rep lo s fl A" and u: "0 < unat u"
  shows "(\<exists>a s' fl'. malloc_loop grow u (h_freep s) (h_ptr s (h_freep s)) s = Some (Some (a + 1), s')
        \<and> heap_rep lo s' fl' (insert (a, unat u) A) \<and> (a, unat u) \<notin> A \<and> h_brk s' = h_brk s \<and> \<not> (\<forall>b\<in>set fl. snd b < unat u))
    \<or> (\<forall>b\<in>set fl. snd b < unat u) \<and> malloc_loop grow u (h_freep s) (h_ptr s (h_freep s)) s = more grow u s"
proof -
  let ?q = "h_freep s"
  obtain k where "(?q, k) \<in> set fl" using rep by (auto simp: heap_rep_def)
  then obtain us vs where fl: "fl = us @ (?q, k) # vs" by (metis in_set_conv_decomp)
  let ?xs = "map fst vs @ map fst us @ [?q]"
  have l: "lseg (h_ptr s) (h_base s) (map fst fl) (h_base s)" and sz: "\<forall>b\<in>set fl \<union> A. unat (h_size s (fst b)) = snd b"
    using rep by (simp_all add: heap_rep_def)
  have r: "lseg (h_ptr s) (h_ptr s ?q) ?xs (h_ptr s ?q)" using l unfolding fl by (auto simp: lseg_append)
  have n: "?q \<notin> set (butlast ?xs)" using heap_repD(2) [OF rep] by (simp add: fl butlast_append)
  have m: "set ?xs = fst ` set fl" by (auto simp: fl)
  have qm: "?q \<in> fst ` set fl" by (force simp: fl)
  consider y where "y \<in> fst ` set fl" "u \<le> h_size s (h_ptr s y)" "h_ptr s y \<in> fst ` set fl"
      "malloc_loop grow u ?q (h_ptr s ?q) s = Some (take_block u y (h_ptr s y) s)"
    | "\<forall>x\<in>fst ` set fl. \<not> u \<le> h_size s x" "malloc_loop grow u ?q (h_ptr s ?q) s = more grow u s"
    using malloc_round [OF r _ _ n, of u grow] qm unfolding m by (auto simp: insert_absorb)
  then show ?thesis
  proof cases
    case (1 y)
    obtain b where b: "b \<in> set fl" "h_ptr s y = fst b" using 1(3) by blast
    then have "unat (h_size s (h_ptr s y)) = snd b" using sz by simp
    then have "\<not> snd b < unat u" using 1(2) by (simp add: word_le_nat_alt)
    then have "\<not> (\<forall>b\<in>set fl. snd b < unat u)" using b(1) by blast
    moreover obtain a s' fl' where t: "take_block u y (h_ptr s y) s = (Some (a + 1), s')"
        "heap_rep lo s' fl' (insert (a, unat u) A)" "(a, unat u) \<notin> A"
      using take_next [OF rep 1(1,3,2) u] by blast
    moreover have "malloc_loop grow u ?q (h_ptr s ?q) s = Some (Some (a + 1), s')" using 1(4) t(1) by simp
    ultimately show ?thesis using take_block_brk [OF t(1)] by blast
  next
    case 2
    have "snd b < unat u" if "b \<in> set fl" for b
    proof -
      have "\<not> u \<le> h_size s (fst b)" "unat (h_size s (fst b)) = snd b" using 2(1) sz that by auto
      then show ?thesis by (simp add: word_le_nat_alt)
    qed
    then show ?thesis using 2(2) by blast
  qed
qed

text \<open>Asking the kernel for more.\<close>

lemma sbrk_arg_eq: "unat nu < 2 ^ 27 \<Longrightarrow> sbrk_arg nu = 16 * int (unat nu)"
proof -
  assume n: "unat nu < 2 ^ 27"
  define k where "k = unat nu"
  have "ucast (ucast nu * 16 :: u64) = (of_nat (16 * unat nu) :: u32)"
    by (rule word_unat_eq_iff [THEN iffD2]) (use n in \<open>simp add: unsigned_ucast_eq unat_word_ariths take_bit_eq_mod unat_of_nat\<close>)
  then have "sbrk_arg nu = sint (of_nat (16 * k) :: u32)" unfolding sbrk_arg_def k_def by (rule arg_cong)
  also have "\<dots> = 16 * int k" using n [folded k_def] unfolding signed_of_nat by (subst signed_take_bit_int_eq_self) simp_all
  finally show ?thesis by (simp only: k_def)
qed

lemma units_eq:
  assumes "unat nbytes < 2 ^ 30"
  shows "unat (units nbytes) = (unat nbytes + 15) div 16 + 1"
proof -
  define k where "k = unat nbytes"
  have k: "k < 2 ^ 30" using assms by (simp add: k_def)
  have "unat (ucast nbytes + 16 - 1 :: u64) = k + 15"
    using k by (simp add: k_def unsigned_ucast_eq unat_word_ariths take_bit_eq_mod)
  then have "unat ((ucast nbytes + 16 - 1 :: u64) div 16 + 1) = (k + 15) div 16 + 1"
    using k by (simp add: unat_word_ariths unat_div_distrib)
  then have "unat (units nbytes) = ((k + 15) div 16 + 1) mod 2 ^ 32"
    unfolding units_def by (simp add: unsigned_ucast_eq take_bit_eq_mod)
  also have "\<dots> = (k + 15) div 16 + 1" using k by simp
  finally show ?thesis by (simp only: k_def)
qed

lemma heap_rep_grow:
  assumes rep: "heap_rep lo s fl A" and n: "0 < unat nu" "h_brk s + unat nu < 2 ^ 31"
  shows "heap_rep lo (set_size (h_brk s) nu (s\<lparr>h_brk := h_brk s + unat nu\<rparr>)) fl (insert (h_brk s, unat nu) A)"
proof -
  let ?t = "set_size (h_brk s) nu (s\<lparr>h_brk := h_brk s + unat nu\<rparr>)"
  have below: "fst b < h_brk s" if "b \<in> set fl \<union> A" for b
  proof (cases "b = (h_base s, 0)")
    case True
    then show ?thesis using rep by (simp add: heap_rep_def)
  next
    case False
    then have "b \<in> set (tl fl) \<union> A" using that heap_repD(3) [OF rep] by (metis UnCI UnE set_ConsD)
    then show ?thesis using heap_repD(1) [OF rep, of "fst b" "snd b"] by simp
  qed
  have "tiles (insert (h_brk s, unat nu) (set (tl fl) \<union> A)) lo (h_brk s + unat nu)"
    by (rule tiles_grow) (use rep n in \<open>simp_all add: heap_rep_def\<close>)
  moreover have "(h_brk s, unat nu) \<notin> set (tl fl)" using below list.set_sel(2) rep unfolding heap_rep_def by fastforce
  moreover have "\<forall>b\<in>set fl \<union> insert (h_brk s, unat nu) A. unat (h_size ?t (fst b)) = snd b"
  proof
    fix b
    assume "b \<in> set fl \<union> insert (h_brk s, unat nu) A"
    then consider "b = (h_brk s, unat nu)" | "b \<in> set fl \<union> A" by blast
    then show "unat (h_size ?t (fst b)) = snd b"
    proof cases
      case 2
      then have "unat (h_size s (fst b)) = snd b" using rep unfolding heap_rep_def by blast
      then show ?thesis using below [OF 2] by (simp add: set_size_def)
    qed (simp add: set_size_def)
  qed
  ultimately show ?thesis using rep n unfolding heap_rep_def by (simp add: set_size_def)
qed

lemma join_big: "c \<in> set (b # ys) \<Longrightarrow> \<exists>d\<in>set (join b ys). snd c \<le> snd d"
  by (cases b; cases rule: join_cases [of "fst b" "snd b" ys]) auto

lemma more_rep:
  assumes rep: "heap_rep lo s fl A" and u: "0 < unat u" "unat u < 2 ^ 27"
    and g: "\<And>n. grow (h_brk s) n \<Longrightarrow> int (h_brk s) + n div 16 < 2 ^ 31"
  shows "(\<exists>a s' fl'. more grow u s = Some (Some (a + 1), s') \<and> heap_rep lo s' fl' (insert (a, unat u) A) \<and> (a, unat u) \<notin> A
        \<and> grow (h_brk s) (16 * int (max 4096 (unat u))) \<and> h_brk s' = h_brk s + max 4096 (unat u))
    \<or> more grow u s = Some (None, s) \<and> \<not> grow (h_brk s) (16 * int (max 4096 (unat u)))"
proof -
  define nu where "nu = (if u < 4096 then 4096 else u)"
  have nu: "0 < unat nu" "unat nu < 2 ^ 27" "unat u \<le> unat nu" using u by (auto simp: nu_def word_less_nat_alt)
  note arg = sbrk_arg_eq [OF nu(2)]
  have mx: "max 4096 (unat u) = unat nu" by (auto simp: nu_def max_def word_less_nat_alt)
  note mg = mx arg [symmetric]
  show ?thesis
  proof (cases "grow (h_brk s) (sbrk_arg nu)")
    case False
    then have "more grow u s = Some (None, s)" by (simp add: more_def morecore_def usbrk_def nu_def [symmetric])
    then show ?thesis using False unfolding mg by blast
  next
    case True
    let ?t = "set_size (h_brk s) nu (s\<lparr>h_brk := h_brk s + unat nu\<rparr>)"
    define k where "k = unat nu"
    have "int (h_brk s) + 16 * int k div 16 < 2 ^ 31" using g [OF True] unfolding arg k_def .
    then have "h_brk s + k < 2 ^ 31" by simp
    then have "h_brk s + unat nu < 2 ^ 31" by (simp only: k_def)
    moreover have b: "usbrk grow (sbrk_arg nu) s = (Some (h_brk s), s\<lparr>h_brk := h_brk s + unat nu\<rparr>)"
      using True unfolding usbrk_def arg k_def [symmetric] by (simp add: nat_add_distrib)
    ultimately have rt: "heap_rep lo ?t fl (insert (h_brk s, unat nu) A)" using heap_rep_grow [OF rep nu(1)] by blast
    have nA: "(h_brk s, unat nu) \<notin> A" using heap_repD(1) [OF rep, of "h_brk s" "unat nu"] nu(1) by auto
    then have A: "insert (h_brk s, unat nu) A - {(h_brk s, unat nu)} = A" by blast
    obtain s2 us p m vs where s2: "ufree (h_brk s + 1) ?t = Some s2"
      "heap_rep lo s2 (us @ join (p, m) (join (h_brk s, unat nu) vs)) A" "h_brk s2 = h_brk ?t"
      using ufree_rep [OF rt, of "h_brk s" "unat nu"] unfolding A by blast
    have "more grow u s = malloc_loop grow u (h_freep s2) (h_ptr s2 (h_freep s2)) s2"
      using s2(1) b by (simp add: more_def morecore_def nu_def [symmetric])
    moreover obtain c where "c \<in> set (join (h_brk s, unat nu) vs)" "unat nu \<le> snd c"
      using join_big [of "(h_brk s, unat nu)" "(h_brk s, unat nu)" vs] by auto
    then obtain d where "d \<in> set (join (p, m) (join (h_brk s, unat nu) vs))" "unat u \<le> snd d"
      using join_big [of c "(p, m)" "join (h_brk s, unat nu) vs"] nu(3) by auto
    then have "\<not> (\<forall>b\<in>set (us @ join (p, m) (join (h_brk s, unat nu) vs)). snd b < unat u)" by (metis UnCI linorder_not_less set_append)
    moreover have "h_brk s2 = h_brk s + unat nu" using s2(3) by (simp add: set_size_def)
    ultimately show ?thesis using malloc_round_rep [OF s2(2) u(1), of grow] True unfolding mg by metis
  qed
qed

section \<open>The allocator\<close>

text \<open>C5: \<^verbatim>\<open>malloc\<close> returns, on every heap that \<^verbatim>\<open>malloc\<close> and \<^verbatim>\<open>free\<close> can have left behind and for every request below
  1 GB. If a free block is large enough, one is taken and the process does not grow. If none is, the kernel is asked for
  the units of the request, at least 4096: when it grants exactly that many bytes the process has grown by them and a
  block is returned, and only when it refuses exactly that is the result null, with the heap as it was. A block returned
  is large enough, and the free blocks, the blocks allocated before and the new one tile the heap without overlap.\<close>

theorem malloc_correct:
  assumes ok: "heap_ok lo s A" and n: "unat nbytes < 2 ^ 30"
    and g: "\<And>n. grow (h_brk s) n \<Longrightarrow> int (h_brk s) + n div 16 < 2 ^ 31"
  defines "u \<equiv> unat (units nbytes)"
  shows "\<exists>fl r s'. malloc grow nbytes s = Some (r, s') \<and> (if h_freep s = 0 then fl = [] else heap_rep lo s fl A)
    \<and> (if \<exists>b\<in>set fl. u \<le> snd b then r \<noteq> None \<and> h_brk s' = h_brk s
       else if grow (h_brk s) (16 * int (max 4096 u)) then r \<noteq> None \<and> h_brk s' = h_brk s + max 4096 u
       else r = None)
    \<and> (case r of
        None \<Rightarrow> heap_ok lo s' A \<and> h_brk s' = h_brk s \<and> (h_freep s \<noteq> 0 \<longrightarrow> s' = s)
      | Some ap \<Rightarrow> heap_ok lo s' (insert (ap - 1, u) A) \<and> (ap - 1, u) \<notin> A \<and> 0 < ap \<and> unat nbytes \<le> 16 * (u - 1))"
proof -
  have ue: "u = (unat nbytes + 15) div 16 + 1" using units_eq [OF n] by (simp add: u_def)
  then have u: "0 < unat (units nbytes)" "unat (units nbytes) < 2 ^ 27" "unat nbytes \<le> 16 * (u - 1)" using n by (simp_all add: u_def)
  define s0 where "s0 = (if h_freep s = 0 then set_size (h_base s) 0 ((set_ptr (h_base s) (h_base s) s)\<lparr>h_freep := h_base s\<rparr>) else s)"
  have b: "h_brk s0 = h_brk s" by (simp add: s0_def set_size_def set_ptr_def)
  have e: "malloc grow nbytes s = malloc_loop grow (units nbytes) (h_freep s0) (h_ptr s0 (h_freep s0)) s0"
    by (simp add: malloc_def s0_def Let_def)
  obtain fl where rep: "heap_rep lo s0 fl A" and fl: "h_freep s = 0 \<Longrightarrow> fl = [(h_base s, 0)]"
  proof (cases "h_freep s = 0")
    case True
    then have "\<not> heap_rep lo s fl A" for fl
    proof -
      have "h_freep s \<notin> fst ` set fl" if r: "heap_rep lo s fl A"
      proof
        assume "h_freep s \<in> fst ` set fl"
        then obtain m where "(0, m) \<in> set fl" using True by auto
        then have "(0, m) = (h_base s, 0) \<or> (0, m) \<in> set (tl fl)" using heap_repD(3) [OF r] by (metis set_ConsD)
        then show False using r heap_repD(1) [OF r, of 0 m] by (auto simp: heap_rep_def)
      qed
      then show ?thesis by (auto simp: heap_rep_def)
    qed
    then have "A = {} \<and> 0 < h_base s \<and> h_base s < lo \<and> lo = h_brk s \<and> h_brk s < 2 ^ 31" using ok by (auto simp: heap_ok_def)
    then have "heap_rep lo s0 [(h_base s, 0)] A"
      using True by (simp add: heap_rep_def s0_def set_size_def set_ptr_def tiles_def)
    then show ?thesis by (rule that) simp
  next
    case False
    then show ?thesis using ok that by (auto simp: heap_ok_def s0_def)
  qed
  define fl0 where "fl0 = (if h_freep s = 0 then [] else fl)"
  have start: "if h_freep s = 0 then fl0 = [] else heap_rep lo s fl0 A" using rep by (cases "h_freep s = 0") (simp_all add: fl0_def s0_def)
  have big: "(\<exists>b\<in>set fl0. u \<le> snd b) \<longleftrightarrow> \<not> (\<forall>b\<in>set fl. snd b < u)"
    using fl u(1) by (auto simp: fl0_def u_def not_less)
  have mr: "(\<exists>a s' fl'. malloc grow nbytes s = Some (Some (a + 1), s') \<and> heap_rep lo s' fl' (insert (a, u) A) \<and> (a, u) \<notin> A
        \<and> h_brk s' = h_brk s \<and> (\<exists>b\<in>set fl0. u \<le> snd b))
    \<or> \<not> (\<exists>b\<in>set fl0. u \<le> snd b) \<and> malloc grow nbytes s = more grow (units nbytes) s0"
    using malloc_round_rep [OF rep u(1), of grow] unfolding e [symmetric] u_def [symmetric] b big by blast
  have mo: "(\<exists>a s' fl'. more grow (units nbytes) s0 = Some (Some (a + 1), s') \<and> heap_rep lo s' fl' (insert (a, u) A) \<and> (a, u) \<notin> A
        \<and> grow (h_brk s) (16 * int (max 4096 u)) \<and> h_brk s' = h_brk s + max 4096 u)
    \<or> more grow (units nbytes) s0 = Some (None, s0) \<and> \<not> grow (h_brk s) (16 * int (max 4096 u))"
    using more_rep [OF rep u(1,2), of grow, unfolded b, OF g] unfolding u_def [symmetric] .
  consider (old) a s' fl' where "malloc grow nbytes s = Some (Some (a + 1), s')" "heap_rep lo s' fl' (insert (a, u) A)" "(a, u) \<notin> A"
      "h_brk s' = h_brk s" "\<exists>b\<in>set fl0. u \<le> snd b"
    | (new) a s' fl' where "malloc grow nbytes s = Some (Some (a + 1), s')" "heap_rep lo s' fl' (insert (a, u) A)" "(a, u) \<notin> A"
      "\<not> (\<exists>b\<in>set fl0. u \<le> snd b)" "grow (h_brk s) (16 * int (max 4096 u))" "h_brk s' = h_brk s + max 4096 u"
    | (refused) "malloc grow nbytes s = Some (None, s0)" "\<not> (\<exists>b\<in>set fl0. u \<le> snd b)" "\<not> grow (h_brk s) (16 * int (max 4096 u))"
    using mr mo by (elim disjE exE conjE) simp_all
  then show ?thesis
  proof cases
    case old
    have "heap_ok lo s' (insert (a, u) A)" using old(2) by (auto simp: heap_ok_def)
    then show ?thesis
      using old(1,3,4) start u(3)
      by (intro exI [of _ fl0] exI [of _ "Some (a + 1)"] exI [of _ s'] conjI) (simp_all only: if_P [OF old(5)], simp_all)
  next
    case new
    have "heap_ok lo s' (insert (a, u) A)" using new(2) by (auto simp: heap_ok_def)
    then show ?thesis using new(1,3,5,6) start u(3)
      by (intro exI [of _ fl0] exI [of _ "Some (a + 1)"] exI [of _ s'] conjI) (simp_all only: if_not_P [OF new(4)], simp_all)
  next
    case refused
    have "heap_ok lo s0 A" "h_freep s \<noteq> 0 \<longrightarrow> s0 = s" using rep by (auto simp: heap_ok_def s0_def)
    then show ?thesis using refused(1,3) start b
      by (intro exI [of _ fl0] exI [of _ None] exI [of _ s0] conjI) (simp_all only: if_not_P [OF refused(2)], simp_all)
  qed
qed

text \<open>C18: \<^verbatim>\<open>free\<close> returns for every allocated block, wherever the list's start is, and gives exactly that block back: the
  other allocated blocks and the free ones tile the heap as before.\<close>

theorem free_correct:
  assumes "heap_ok lo s A" and "(ap - 1, n) \<in> A" and "0 < ap"
  shows "\<exists>s'. ufree ap s = Some s' \<and> heap_ok lo s' (A - {(ap - 1, n)}) \<and> h_brk s' = h_brk s"
proof -
  obtain fl where rep: "heap_rep lo s fl A" using assms(1,2) by (auto simp: heap_ok_def)
  show ?thesis using ufree_rep [OF rep assms(2)] assms(3) by (auto simp: heap_ok_def)
qed

text \<open>C39: A request that is too large succeeds: for 4294967295 bytes the product passed to \<^verbatim>\<open>sbrk\<close> wraps to 16, the process
  grows by one header, and \<^verbatim>\<open>malloc\<close> returns a pointer to the end of the process with a header that claims 4 GB.\<close>

theorem malloc_wraps:
  assumes "h_freep s = 0" and "0 < h_base s" and "h_base s < h_brk s" and "grow (h_brk s) 16"
  shows "\<exists>s'. malloc grow 0xffffffff s = Some (Some (h_brk s + 1), s') \<and> h_brk s' = h_brk s + 1
    \<and> unat (h_size s' (h_brk s)) = 2 ^ 28 + 1"
proof -
  let ?b = "h_base s"
  have u: "units 0xffffffff = 0x10000001" by (simp add: units_def)
  have a: "sbrk_arg 0x10000001 = 16" by (simp add: sbrk_arg_def)
  define s0 where "s0 = set_size ?b 0 ((set_ptr ?b ?b s)\<lparr>h_freep := ?b\<rparr>)"
  have s0: "h_ptr s0 ?b = ?b" "h_size s0 ?b = 0" "h_freep s0 = ?b" "h_brk s0 = h_brk s"
    by (simp_all add: s0_def set_size_def set_ptr_def)
  have e: "malloc grow 0xffffffff s = malloc_loop grow 0x10000001 ?b ?b s0"
    using assms(1) by (simp add: malloc_def u Let_def s0_def [symmetric] s0)
  define s1 where "s1 = set_size (h_brk s) 0x10000001 (s0\<lparr>h_brk := h_brk s + 1\<rparr>)"
  have s1: "h_ptr s1 ?b = ?b" "h_size s1 ?b = 0" "h_freep s1 = ?b" "h_size s1 (h_brk s) = 0x10000001" "h_brk s1 = h_brk s + 1"
    using assms(3) s0 by (simp_all add: s1_def set_size_def)
  have "free_place (h_brk s) ?b s1 = Some ?b" using assms(3) s1 by (subst free_place.simps) simp
  then have f: "ufree (h_brk s + 1) s1 = Some (free_link (h_brk s) ?b s1)" by (simp add: ufree_def s1)
  define s2 where "s2 = free_link (h_brk s) ?b s1"
  have "h_freep s2 = ?b" "h_ptr s2 ?b = h_brk s" "h_size s2 (h_brk s) = 0x10000001" "h_brk s2 = h_brk s + 1"
    using assms(3) s1 by (simp_all add: s2_def free_link_eq link_def after_block_def set_ptr_def)
  then have s2: "h_freep s2 = ?b" "h_ptr s2 ?b = h_brk s" "h_size s2 (h_brk s) = 0x10000001" "h_brk s2 = h_brk s + 1" by simp_all
  have n: "nat (int (h_brk s) + 1) = Suc (h_brk s)" by simp
  have "morecore grow 0x10000001 s0 = Some (Some ?b, s2)"
    using assms(4) f s2(1) by (simp add: morecore_def usbrk_def a s0 s1_def s2_def n)
  then have "malloc_loop grow 0x10000001 ?b ?b s0 = malloc_loop grow 0x10000001 ?b (h_brk s) s2"
    using s0 s2(2) by (subst malloc_loop.simps) simp
  also have "\<dots> = Some (take_block 0x10000001 ?b (h_brk s) s2)" using s2(3) by (subst malloc_loop.simps) simp
  finally show ?thesis using s2 by (simp add: e take_block_def set_ptr_def)
qed

section \<open>A heap\<close>

text \<open>A process that starts with its break at 4 MB and may grow to 64 MB.\<close>

definition small_heap :: uheap where
  "small_heap = \<lparr>h_ptr = (\<lambda>_. 0), h_size = (\<lambda>_. 0), h_freep = 0, h_base = 4096, h_brk = 262144\<rparr>"

definition small_grow :: "nat \<Rightarrow> int \<Rightarrow> bool" where
  "small_grow b n \<longleftrightarrow> int b + n div 16 < 4194304"

lemma small_heap_ok: "heap_ok 262144 small_heap {}"
  by (simp add: heap_ok_def small_heap_def)

lemma malloc_correct_witness:
  "\<exists>ap s'. malloc small_grow 100 small_heap = Some (Some ap, s') \<and> heap_ok 262144 s' {(ap - 1, 8)} \<and> h_brk s' = 266240"
proof -
  have u: "unat (units 100) = 8" by (simp add: units_eq)
  obtain fl r s' where m: "malloc small_grow 100 small_heap = Some (r, s')" "fl = []"
    "if \<exists>b\<in>set fl. unat (units 100) \<le> snd b then r \<noteq> None \<and> h_brk s' = h_brk small_heap
       else if small_grow (h_brk small_heap) (16 * int (max 4096 (unat (units 100)))) then r \<noteq> None \<and> h_brk s' = h_brk small_heap + max 4096 (unat (units 100))
       else r = None"
    "\<And>ap. r = Some ap \<Longrightarrow> heap_ok 262144 s' (insert (ap - 1, unat (units 100)) {})"
    using malloc_correct [OF small_heap_ok, of 100 small_grow] by (fastforce simp: small_heap_def small_grow_def)
  then show ?thesis unfolding u by (auto simp: small_heap_def small_grow_def)
qed

text \<open>A heap with one block of eight units allocated at its start.\<close>

definition used_heap :: uheap where
  "used_heap = \<lparr>h_ptr = (\<lambda>_. 4096), h_size = (\<lambda>p. if p = 262144 then 8 else 0), h_freep = 4096, h_base = 4096, h_brk = 262152\<rparr>"

lemma used_heap_ok: "heap_ok 262144 used_heap {(262144, 8)}"
proof -
  have "heap_rep 262144 used_heap [(4096, 0)] {(262144, 8)}"
    by (simp add: heap_rep_def used_heap_def tiles_def blk_def)
  then show ?thesis by (auto simp: heap_ok_def)
qed

lemma free_correct_witness: "\<exists>s'. ufree 262145 used_heap = Some s' \<and> heap_ok 262144 s' ({(262144, 8)} - {(262144, 8)}) \<and> h_brk s' = h_brk used_heap"
  using free_correct [OF used_heap_ok, of 262145 8] by simp

lemma malloc_wraps_witness: "\<exists>s'. malloc small_grow 0xffffffff small_heap = Some (Some (h_brk small_heap + 1), s') \<and> h_brk s' = h_brk small_heap + 1
    \<and> unat (h_size s' (h_brk small_heap)) = 2 ^ 28 + 1"
  by (rule malloc_wraps) (simp_all add: small_heap_def small_grow_def)

end
