(* ===== verification/Frog.thy ===== *)
theory Frog
  imports Prelude
begin

text \<open>
  The frog game (\<^verbatim>\<open>Assignment2/source/source.c\<close>): the rules of one frame, and the main thread with the frog's and the
  logs' threads, synchronised by one mutex, two flags and three condition variables. What the terminal delivers
  (a key or none) and what \<^verbatim>\<open>rand\<close> returns are inputs. The coordinates stay small, so they are integers.
\<close>

section \<open>Frames\<close>

definition ROW :: nat where "ROW = 11"
definition COLUMN :: nat where "COLUMN = 50"
definition LOG_LENGTH :: nat where "LOG_LENGTH = 15"
definition SPEED :: int where "SPEED = 1"
definition NUMBER_OF_LOGS :: nat where "NUMBER_OF_LOGS = 9"

record log =
  heading_position :: int
  l_direction :: int
  l_speed :: int

record frog =
  fx :: int
  fy :: int
  x_speed :: int
  y_speed :: int

type_synonym gamemap = "nat \<Rightarrow> nat \<Rightarrow> char"

text \<open>The remainder of C, with the sign of the dividend.\<close>

definition crem :: "int \<Rightarrow> int \<Rightarrow> int" where
  "crem a b = sgn a * (\<bar>a\<bar> mod \<bar>b\<bar>)"

definition move_log :: "log \<Rightarrow> log" where
  "move_log l = (let h = heading_position l + l_direction l * l_speed l in
     l\<lparr>heading_position := (if h \<ge> int COLUMN then crem h (int COLUMN)
       else if h < 0 then int COLUMN - crem (- h) (int COLUMN) else h)\<rparr>)"

definition handle_logs_movement :: "log list \<Rightarrow> log list" where
  "handle_logs_movement logs = List.map move_log logs"

text \<open>\<^verbatim>\<open>rs\<close> are the values of \<^verbatim>\<open>rand()\<close>, one for each log.\<close>

definition initial_log :: "int \<Rightarrow> nat \<Rightarrow> log" where
  "initial_log r i = \<lparr>heading_position = crem r (int COLUMN), l_direction = (if i mod 2 = 0 then 1 else - 1), l_speed = SPEED\<rparr>"

definition initialize_map :: gamemap where
  "initialize_map = (\<lambda>y x. CHR '' '')"

definition initialize_game :: "int list \<Rightarrow> gamemap \<times> log list" where
  "initialize_game rs = (initialize_map, map2 initial_log rs [0..<length rs])"

text \<open>The two banks, then the logs; \<^verbatim>\<open>(heading + j) % COLUMN\<close> must not be negative.\<close>

definition draw_banks :: "gamemap \<Rightarrow> gamemap" where
  "draw_banks m = (\<lambda>y x. if (y = 0 \<or> y = ROW - 1) \<and> x < COLUMN then CHR ''|'' else m y x)"

definition set_cell :: "nat \<Rightarrow> nat \<Rightarrow> char \<Rightarrow> gamemap \<Rightarrow> gamemap" where
  "set_cell y x c m = m(y := (m y)(x := c))"

fun draw_log :: "nat \<Rightarrow> int \<Rightarrow> nat list \<Rightarrow> gamemap \<Rightarrow> fault + gamemap" where
  "draw_log i h [] m = Inr m"
| "draw_log i h (j # js) m = (let position = crem (h + int j) (int COLUMN) in
     if position < 0 then Inl (Undefined ''gameMap'') else draw_log i h js (set_cell (i + 1) (nat position) (CHR ''='') m))"

fun draw_logs :: "nat \<Rightarrow> log list \<Rightarrow> gamemap \<Rightarrow> fault + gamemap" where
  "draw_logs i [] m = Inr m"
| "draw_logs i (l # ls) m = (case draw_log i (heading_position l) [0..<LOG_LENGTH] m of Inl e \<Rightarrow> Inl e | Inr m \<Rightarrow> draw_logs (i + 1) ls m)"

datatype outcome = Fallen_out | Fallen_in | Won | Quit

text \<open>Either the game ends, with a message and \<^verbatim>\<open>exit(0)\<close>, or the map is ready to be printed.\<close>

datatype shown = Over outcome | Show gamemap

definition update_map :: "gamemap \<Rightarrow> log list \<Rightarrow> frog \<Rightarrow> fault + shown" where
  "update_map m logs f = (case draw_logs 0 logs (draw_banks m) of
     Inl e \<Rightarrow> Inl e
   | Inr m \<Rightarrow> Inr (
       if fx f \<ge> int COLUMN \<or> fx f < 0 \<or> fy f \<ge> int ROW \<or> fy f < 0 then Over Fallen_out
       else if m (nat (fy f)) (nat (fx f)) = CHR '' '' then Over Fallen_in
       else if fy f = 0 then Over Won
       else Show (set_cell (nat (fy f)) (nat (fx f)) (CHR ''0'') m)))"

text \<open>The key, when there is one; \<^verbatim>\<open>q\<close> ends the game.\<close>

definition handle_keyboard_hit :: "char option \<Rightarrow> frog \<Rightarrow> outcome + frog" where
  "handle_keyboard_hit key f = (let f = f\<lparr>x_speed := 0, y_speed := 0\<rparr> in case key of
     None \<Rightarrow> Inr f
   | Some c \<Rightarrow>
       if c = CHR ''w'' then Inr (f\<lparr>y_speed := - 1\<rparr>)
       else if c = CHR ''s'' then Inr (f\<lparr>y_speed := 1\<rparr>)
       else if c = CHR ''a'' then Inr (f\<lparr>x_speed := - 1\<rparr>)
       else if c = CHR ''d'' then Inr (f\<lparr>x_speed := 1\<rparr>)
       else if c = CHR ''q'' then Inl Quit
       else Inr f)"

definition adjust_frog_speed :: "frog \<Rightarrow> frog" where
  "adjust_frog_speed f =
     (if fy f = 0 \<or> fy f = int ROW - 1 then f
      else if crem (fy f) 2 = 0 then f\<lparr>x_speed := x_speed f - SPEED\<rparr>
      else f\<lparr>x_speed := x_speed f + SPEED\<rparr>)"

definition update_frog_position :: "frog \<Rightarrow> frog" where
  "update_frog_position f = f\<lparr>fx := fx f + x_speed f, fy := fy f + y_speed f, x_speed := 0, y_speed := 0\<rparr>"

definition frog_turn :: "char option \<Rightarrow> frog \<Rightarrow> outcome + frog" where
  "frog_turn key f = (case handle_keyboard_hit key f of Inl e \<Rightarrow> Inl e
     | Inr f \<Rightarrow> Inr (update_frog_position (adjust_frog_speed f)))"

definition initial_frog :: frog where
  "initial_frog = \<lparr>fx = int COLUMN div 2, fy = int ROW - 1, x_speed = 0, y_speed = 0\<rparr>"

section \<open>Threads\<close>

datatype tid = Main | Frog | Logs

text \<open>The control points of \<^verbatim>\<open>frog_thread_function\<close> and \<^verbatim>\<open>log_thread_function\<close>, and those of \<^verbatim>\<open>main\<close>.\<close>

datatype tpc = TLock | TCheck | TWait | TWoken | TWork | TSignal | TUnlock

datatype mpc = MFlagFrog | MFlagLogs | MLock | MSignalFrog | MSignalLogs | MCheck | MWait | MWoken | MUnlock | MDraw

text \<open>The last three fields count the frames drawn and the moves made.\<close>

record game =
  g_frog :: frog
  g_logs :: "log list"
  frog_ready :: bool
  log_ready :: bool
  g_mutex :: "tid option"
  pc_frog :: tpc
  pc_logs :: tpc
  pc_main :: mpc
  g_over :: "outcome option"
  frames :: nat
  frog_moves :: nat
  log_moves :: nat

definition initial_game :: "int list \<Rightarrow> game" where
  "initial_game rs = \<lparr>g_frog = initial_frog, g_logs = snd (initialize_game rs), frog_ready = False, log_ready = False,
     g_mutex = None, pc_frog = TLock, pc_logs = TLock, pc_main = MFlagFrog, g_over = None, frames = 0, frog_moves = 0, log_moves = 0\<rparr>"

text \<open>\<^verbatim>\<open>pthread_cond_signal\<close> wakes the one thread that can wait on the variable, if it does.\<close>

definition signal :: "tpc \<Rightarrow> tpc" where
  "signal c = (if c = TWait then TWoken else c)"

definition signal_main :: "mpc \<Rightarrow> mpc" where
  "signal_main c = (if c = MWait then MWoken else c)"

text \<open>
  One step of a thread. A woken thread must take the mutex again; a wait may also end without a signal, as POSIX
  allows. The frog's step reads the keyboard.
\<close>

inductive game_step :: "game \<Rightarrow> game \<Rightarrow> bool" where
  flag_frog: "g_over s = None \<Longrightarrow> pc_main s = MFlagFrog \<Longrightarrow> game_step s (s\<lparr>frog_ready := True, pc_main := MFlagLogs\<rparr>)"
| flag_logs: "g_over s = None \<Longrightarrow> pc_main s = MFlagLogs \<Longrightarrow> game_step s (s\<lparr>log_ready := True, pc_main := MLock\<rparr>)"
| main_lock: "g_over s = None \<Longrightarrow> pc_main s = MLock \<Longrightarrow> g_mutex s = None \<Longrightarrow> game_step s (s\<lparr>g_mutex := Some Main, pc_main := MSignalFrog\<rparr>)"
| signal_frog: "g_over s = None \<Longrightarrow> pc_main s = MSignalFrog \<Longrightarrow> game_step s (s\<lparr>pc_frog := signal (pc_frog s), pc_main := MSignalLogs\<rparr>)"
| signal_logs: "g_over s = None \<Longrightarrow> pc_main s = MSignalLogs \<Longrightarrow> game_step s (s\<lparr>pc_logs := signal (pc_logs s), pc_main := MCheck\<rparr>)"
| main_check: "g_over s = None \<Longrightarrow> pc_main s = MCheck \<Longrightarrow>
    game_step s (if frog_ready s \<or> log_ready s then s\<lparr>g_mutex := None, pc_main := MWait\<rparr> else s\<lparr>pc_main := MUnlock\<rparr>)"
| main_woken: "g_over s = None \<Longrightarrow> pc_main s = MWoken \<Longrightarrow> g_mutex s = None \<Longrightarrow> game_step s (s\<lparr>g_mutex := Some Main, pc_main := MCheck\<rparr>)"
| main_unlock: "g_over s = None \<Longrightarrow> pc_main s = MUnlock \<Longrightarrow> game_step s (s\<lparr>g_mutex := None, pc_main := MDraw\<rparr>)"
| draw: "g_over s = None \<Longrightarrow> pc_main s = MDraw \<Longrightarrow> update_map initialize_map (g_logs s) (g_frog s) = Inr (Show m) \<Longrightarrow>
    game_step s (s\<lparr>frames := frames s + 1, pc_main := MFlagFrog\<rparr>)"
| draw_over: "g_over s = None \<Longrightarrow> pc_main s = MDraw \<Longrightarrow> update_map initialize_map (g_logs s) (g_frog s) = Inr (Over e) \<Longrightarrow>
    game_step s (s\<lparr>g_over := Some e\<rparr>)"
| frog_lock: "g_over s = None \<Longrightarrow> pc_frog s \<in> {TLock, TWoken} \<Longrightarrow> g_mutex s = None \<Longrightarrow> game_step s (s\<lparr>g_mutex := Some Frog, pc_frog := TCheck\<rparr>)"
| frog_check: "g_over s = None \<Longrightarrow> pc_frog s = TCheck \<Longrightarrow>
    game_step s (if frog_ready s then s\<lparr>pc_frog := TWork\<rparr> else s\<lparr>g_mutex := None, pc_frog := TWait\<rparr>)"
| frog_work: "g_over s = None \<Longrightarrow> pc_frog s = TWork \<Longrightarrow> frog_turn key (g_frog s) = Inr f \<Longrightarrow>
    game_step s (s\<lparr>g_frog := f, frog_ready := False, frog_moves := frog_moves s + 1, pc_frog := TSignal\<rparr>)"
| frog_quit: "g_over s = None \<Longrightarrow> pc_frog s = TWork \<Longrightarrow> frog_turn key (g_frog s) = Inl e \<Longrightarrow> game_step s (s\<lparr>g_over := Some e\<rparr>)"
| frog_signal: "g_over s = None \<Longrightarrow> pc_frog s = TSignal \<Longrightarrow> game_step s (s\<lparr>pc_main := signal_main (pc_main s), pc_frog := TUnlock\<rparr>)"
| frog_unlock: "g_over s = None \<Longrightarrow> pc_frog s = TUnlock \<Longrightarrow> game_step s (s\<lparr>g_mutex := None, pc_frog := TLock\<rparr>)"
| logs_lock: "g_over s = None \<Longrightarrow> pc_logs s \<in> {TLock, TWoken} \<Longrightarrow> g_mutex s = None \<Longrightarrow> game_step s (s\<lparr>g_mutex := Some Logs, pc_logs := TCheck\<rparr>)"
| logs_check: "g_over s = None \<Longrightarrow> pc_logs s = TCheck \<Longrightarrow>
    game_step s (if log_ready s then s\<lparr>pc_logs := TWork\<rparr> else s\<lparr>g_mutex := None, pc_logs := TWait\<rparr>)"
| logs_work: "g_over s = None \<Longrightarrow> pc_logs s = TWork \<Longrightarrow>
    game_step s (s\<lparr>g_logs := handle_logs_movement (g_logs s), log_ready := False, log_moves := log_moves s + 1, pc_logs := TSignal\<rparr>)"
| logs_signal: "g_over s = None \<Longrightarrow> pc_logs s = TSignal \<Longrightarrow> game_step s (s\<lparr>pc_main := signal_main (pc_main s), pc_logs := TUnlock\<rparr>)"
| logs_unlock: "g_over s = None \<Longrightarrow> pc_logs s = TUnlock \<Longrightarrow> game_step s (s\<lparr>g_mutex := None, pc_logs := TLock\<rparr>)"
| spurious_frog: "g_over s = None \<Longrightarrow> pc_frog s = TWait \<Longrightarrow> game_step s (s\<lparr>pc_frog := TWoken\<rparr>)"
| spurious_logs: "g_over s = None \<Longrightarrow> pc_logs s = TWait \<Longrightarrow> game_step s (s\<lparr>pc_logs := TWoken\<rparr>)"
| spurious_main: "g_over s = None \<Longrightarrow> pc_main s = MWait \<Longrightarrow> game_step s (s\<lparr>pc_main := MWoken\<rparr>)"

inductive plays :: "int list \<Rightarrow> game \<Rightarrow> bool" for rs where
  plays_init: "plays rs (initial_game rs)"
| plays_step: "plays rs s \<Longrightarrow> game_step s s' \<Longrightarrow> plays rs s'"

section \<open>Synchronisation\<close>

definition holds_mutex :: "game \<Rightarrow> tid \<Rightarrow> bool" where
  "holds_mutex s t = (case t of
     Main \<Rightarrow> pc_main s \<in> {MSignalFrog, MSignalLogs, MCheck, MUnlock}
   | Frog \<Rightarrow> pc_frog s \<in> {TCheck, TWork, TSignal, TUnlock}
   | Logs \<Rightarrow> pc_logs s \<in> {TCheck, TWork, TSignal, TUnlock})"

text \<open>A thread that can take a step of its own: it neither waits for a signal nor for the mutex.\<close>

definition can_run :: "game \<Rightarrow> tid \<Rightarrow> bool" where
  "can_run s t = (case t of
     Main \<Rightarrow> pc_main s \<noteq> MWait \<and> (pc_main s \<in> {MLock, MWoken} \<longrightarrow> g_mutex s = None)
   | Frog \<Rightarrow> pc_frog s \<noteq> TWait \<and> (pc_frog s \<in> {TLock, TWoken} \<longrightarrow> g_mutex s = None)
   | Logs \<Rightarrow> pc_logs s \<noteq> TWait \<and> (pc_logs s \<in> {TLock, TWoken} \<longrightarrow> g_mutex s = None))"

definition mutex_ok :: "game \<Rightarrow> bool" where
  "mutex_ok s \<longleftrightarrow> (\<forall>t. holds_mutex s t \<longleftrightarrow> g_mutex s = Some t)"

definition frog_ok :: "game \<Rightarrow> bool" where
  "frog_ok s \<longleftrightarrow> (pc_frog s = TWork \<longrightarrow> frog_ready s) \<and> (pc_main s \<in> {MFlagFrog, MUnlock, MDraw} \<longrightarrow> \<not> frog_ready s)
     \<and> frog_moves s + of_bool (frog_ready s) = frames s + of_bool (pc_main s \<noteq> MFlagFrog)
     \<and> (frog_ready s \<and> pc_frog s = TWait \<longrightarrow> pc_main s \<in> {MFlagLogs, MLock, MSignalFrog})"

definition logs_thread_ok :: "game \<Rightarrow> bool" where
  "logs_thread_ok s \<longleftrightarrow> (pc_logs s = TWork \<longrightarrow> log_ready s) \<and> (pc_main s \<in> {MFlagFrog, MFlagLogs, MUnlock, MDraw} \<longrightarrow> \<not> log_ready s)
     \<and> log_moves s + of_bool (log_ready s) = frames s + of_bool (pc_main s \<notin> {MFlagFrog, MFlagLogs})
     \<and> (log_ready s \<and> pc_logs s = TWait \<longrightarrow> pc_main s \<in> {MLock, MSignalFrog, MSignalLogs})"

definition wait_ok :: "game \<Rightarrow> bool" where
  "wait_ok s \<longleftrightarrow> (pc_main s = MWait \<longrightarrow> frog_ready s \<or> log_ready s \<or> pc_frog s = TSignal \<or> pc_logs s = TSignal)"

lemma tid_all: "(\<forall>t. P t) \<longleftrightarrow> P Main \<and> P Frog \<and> P Logs"
  by (metis tid.exhaust)

lemmas sync_defs = signal_def signal_main_def

lemma mutex_step: "mutex_ok s \<Longrightarrow> game_step s s' \<Longrightarrow> mutex_ok s'"
  unfolding mutex_ok_def tid_all holds_mutex_def by (erule game_step.cases) (auto simp: sync_defs)

lemma frog_step: "frog_ok s \<Longrightarrow> game_step s s' \<Longrightarrow> frog_ok s'"
  unfolding frog_ok_def by (erule game_step.cases) (auto simp: sync_defs)

lemma logs_thread_step: "logs_thread_ok s \<Longrightarrow> game_step s s' \<Longrightarrow> logs_thread_ok s'"
  unfolding logs_thread_ok_def by (erule game_step.cases) (auto simp: sync_defs)

lemma wait_step: "wait_ok s \<Longrightarrow> game_step s s' \<Longrightarrow> wait_ok s'"
  unfolding wait_ok_def by (erule game_step.cases) (auto simp: sync_defs)

lemma sync_inv:
  assumes "plays rs s"
  shows "mutex_ok s \<and> frog_ok s \<and> logs_thread_ok s \<and> wait_ok s"
  using assms
proof induction
  case plays_init
  show ?case
    by (simp add: mutex_ok_def tid_all holds_mutex_def frog_ok_def logs_thread_ok_def wait_ok_def initial_game_def)
next
  case (plays_step s s')
  then show ?case using mutex_step frog_step logs_thread_step wait_step by blast
qed

lemma holder_runs: "holds_mutex s t \<Longrightarrow> can_run s t"
  by (cases t) (auto simp: holds_mutex_def can_run_def)

text \<open>C37: In every interleaving of the three threads at most one is in a critical section, the frog and the logs have each
  moved exactly once since the frame before whenever \<^verbatim>\<open>main\<close> draws one, and neither thread is moving then, although the
  flags are set without the mutex; and as long as the game is on, some thread can run, so no signal is lost.\<close>

theorem game_synchronised:
  assumes "plays rs s"
  shows "(\<forall>t u. holds_mutex s t \<and> holds_mutex s u \<longrightarrow> t = u)
    \<and> (pc_main s = MDraw \<longrightarrow> frog_moves s = frames s + 1 \<and> log_moves s = frames s + 1 \<and> pc_frog s \<noteq> TWork \<and> pc_logs s \<noteq> TWork)
    \<and> (\<exists>t. can_run s t)"
proof -
  have i: "mutex_ok s" "frog_ok s" "logs_thread_ok s" "wait_ok s" using sync_inv [OF assms] by simp_all
  have "\<exists>t. can_run s t"
  proof (cases "g_mutex s")
    case (Some t)
    then show ?thesis using i(1) holder_runs by (auto simp: mutex_ok_def)
  next
    case None
    show ?thesis
    proof (rule ccontr)
      assume "\<nexists>t. can_run s t"
      then have "\<not> can_run s Main" "\<not> can_run s Frog" "\<not> can_run s Logs" by blast+
      then have w: "pc_main s = MWait" "pc_frog s = TWait" "pc_logs s = TWait" using None by (auto simp: can_run_def)
      then have "\<not> frog_ready s" "\<not> log_ready s" using i(2,3) by (auto simp: frog_ok_def logs_thread_ok_def)
      then show False using i(4) w by (simp add: wait_ok_def)
    qed
  qed
  moreover have "t = u" if "holds_mutex s t" "holds_mutex s u" for t u using i(1) that by (auto simp: mutex_ok_def)
  moreover have "frog_moves s = frames s + 1 \<and> pc_frog s \<noteq> TWork" if "pc_main s = MDraw" using i(2) that by (auto simp: frog_ok_def)
  moreover have "log_moves s = frames s + 1 \<and> pc_logs s \<noteq> TWork" if "pc_main s = MDraw" using i(3) that by (auto simp: logs_thread_ok_def)
  ultimately show ?thesis by blast
qed

section \<open>The rules\<close>

text \<open>The logs as they are during the game, and when the frog's column is on one.\<close>

definition logs_ok :: "log list \<Rightarrow> bool" where
  "logs_ok ls \<longleftrightarrow> length ls = NUMBER_OF_LOGS \<and> (\<forall>i<NUMBER_OF_LOGS. 0 \<le> heading_position (ls ! i) \<and> heading_position (ls ! i) < int COLUMN
     \<and> l_direction (ls ! i) = (if i mod 2 = 0 then 1 else - 1) \<and> l_speed (ls ! i) = SPEED)"

definition on_log :: "log \<Rightarrow> int \<Rightarrow> bool" where
  "on_log l x \<longleftrightarrow> (x - heading_position l) mod int COLUMN < int LOG_LENGTH"

lemma crem_nonneg: "0 \<le> a \<Longrightarrow> 0 < b \<Longrightarrow> crem a b = a mod b"
  by (cases "a = 0") (simp_all add: crem_def)

lemma crem_sign: "\<bar>crem a b\<bar> \<le> \<bar>a\<bar>"
  by (cases "a = 0"; cases "b = 0") (auto simp: crem_def abs_mult zmod_le_nonneg_dividend)

lemma move_log_position:
  assumes "0 \<le> heading_position l" "heading_position l < 50" "\<bar>l_direction l\<bar> = 1" "l_speed l = 1"
  shows "heading_position (move_log l) = (heading_position l + l_direction l) mod 50"
    and "0 \<le> heading_position (move_log l)" "heading_position (move_log l) < 50"
proof -
  have d: "l_direction l = 1 \<or> l_direction l = - 1" using assms(3) by linarith
  show e: "heading_position (move_log l) = (heading_position l + l_direction l) mod 50"
    using d
  proof
    assume "l_direction l = 1"
    then show ?thesis using assms(1,2,4) by (auto simp: move_log_def COLUMN_def crem_nonneg Let_def)
  next
    assume m: "l_direction l = - 1"
    consider "heading_position l = 0" | "0 < heading_position l" using assms(1) by linarith
    then show ?thesis using m assms(2,4) by cases (simp_all add: move_log_def COLUMN_def crem_def Let_def)
  qed
  show "0 \<le> heading_position (move_log l)" "heading_position (move_log l) < 50" by (simp_all add: e)
qed

text \<open>The columns of a log.\<close>

definition cells :: "log \<Rightarrow> nat set" where
  "cells l = (\<lambda>j. nat ((heading_position l + int j) mod int COLUMN)) ` {..<LOG_LENGTH}"

lemma cells_on_log: "x < COLUMN \<Longrightarrow> x \<in> cells l \<longleftrightarrow> on_log l (int x)"
proof
  assume "x \<in> cells l"
  then obtain j where j: "j < 15" "x = nat ((heading_position l + int j) mod 50)" by (auto simp: cells_def LOG_LENGTH_def COLUMN_def)
  then have "(int x - heading_position l) mod 50 = ((heading_position l + int j) mod 50 - heading_position l) mod 50" by simp
  also have "\<dots> = int j mod 50" by (simp add: mod_diff_left_eq)
  finally show "on_log l (int x)" using j(1) by (simp add: on_log_def COLUMN_def LOG_LENGTH_def)
next
  assume x: "x < COLUMN" "on_log l (int x)"
  define j where "j = nat ((int x - heading_position l) mod 50)"
  have j: "int j = (int x - heading_position l) mod 50" by (simp add: j_def)
  then have "(heading_position l + int j) mod 50 = int x" using x(1) by (simp add: mod_add_right_eq COLUMN_def)
  moreover have "j < LOG_LENGTH" using x(2) j by (simp add: on_log_def COLUMN_def LOG_LENGTH_def)
  ultimately show "x \<in> cells l" unfolding cells_def by (intro image_eqI [of _ _ j]) (simp_all add: COLUMN_def)
qed

lemma draw_log_eq:
  "0 \<le> h \<Longrightarrow> draw_log i h js m = Inr (\<lambda>y x. if y = i + 1 \<and> x \<in> (\<lambda>j. nat ((h + int j) mod int COLUMN)) ` set js then CHR ''='' else m y x)"
  by (induction i h js m rule: draw_log.induct) (auto simp: Let_def crem_nonneg COLUMN_def set_cell_def fun_eq_iff)

lemma draw_logs_eq:
  "\<forall>l\<in>set ls. 0 \<le> heading_position l \<Longrightarrow>
   draw_logs i ls m = Inr (\<lambda>y x. if i < y \<and> y \<le> i + length ls \<and> x \<in> cells (ls ! (y - i - 1)) then CHR ''='' else m y x)"
proof (induction ls arbitrary: i m)
  case Nil
  then show ?case by (auto simp: fun_eq_iff)
next
  case (Cons l ls)
  have "draw_log i (heading_position l) [0..<LOG_LENGTH] m = Inr (\<lambda>y x. if y = i + 1 \<and> x \<in> cells l then CHR ''='' else m y x)"
    using draw_log_eq [of "heading_position l"] Cons.prems by (simp add: cells_def atLeast0LessThan)
  then have "draw_logs i (l # ls) m = draw_logs (i + 1) ls (\<lambda>y x. if y = i + 1 \<and> x \<in> cells l then CHR ''='' else m y x)" by simp
  also have "\<dots> = Inr (\<lambda>y x. if i + 1 < y \<and> y \<le> i + 1 + length ls \<and> x \<in> cells (ls ! (y - (i + 1) - 1)) then CHR ''=''
      else if y = i + 1 \<and> x \<in> cells l then CHR ''='' else m y x)"
    using Cons.prems by (intro Cons.IH) simp
  also have "(\<lambda>y x. if i + 1 < y \<and> y \<le> i + 1 + length ls \<and> x \<in> cells (ls ! (y - (i + 1) - 1)) then CHR ''=''
      else if y = i + 1 \<and> x \<in> cells l then CHR ''='' else m y x)
    = (\<lambda>y x. if i < y \<and> y \<le> i + length (l # ls) \<and> x \<in> cells ((l # ls) ! (y - i - 1)) then CHR ''='' else m y x)"
  proof (intro ext)
    fix y x
    consider "y \<le> i" | "y = i + 1" | k where "y = i + 2 + k" using that(3) [of "y - (i + 2)"] that(1,2) by force
    then show "(if i + 1 < y \<and> y \<le> i + 1 + length ls \<and> x \<in> cells (ls ! (y - (i + 1) - 1)) then CHR ''=''
      else if y = i + 1 \<and> x \<in> cells l then CHR ''='' else m y x)
      = (if i < y \<and> y \<le> i + length (l # ls) \<and> x \<in> cells ((l # ls) ! (y - i - 1)) then CHR ''='' else m y x)"
      by cases simp_all
  qed
  finally show ?case .
qed

text \<open>The map before the frog is put on it.\<close>

definition scene :: "log list \<Rightarrow> gamemap" where
  "scene ls y x = (if 0 < y \<and> y \<le> length ls \<and> x \<in> cells (ls ! (y - 1)) then CHR ''=''
     else if (y = 0 \<or> y = 10) \<and> x < 50 then CHR ''|'' else CHR '' '')"

lemma draw_scene: "logs_ok ls \<Longrightarrow> draw_logs 0 ls (draw_banks initialize_map) = Inr (scene ls)"
proof -
  assume "logs_ok ls"
  then have "\<forall>l\<in>set ls. 0 \<le> heading_position l" by (auto simp: logs_ok_def in_set_conv_nth)
  from draw_logs_eq [OF this, of 0] show ?thesis
    by (auto simp: scene_def draw_banks_def initialize_map_def ROW_def COLUMN_def fun_eq_iff)
qed

text \<open>What a frame comes to.\<close>

lemma update_map_eq:
  assumes ok: "logs_ok ls"
  shows "update_map initialize_map ls f = Inr (
    if fx f < 0 \<or> fx f \<ge> int COLUMN \<or> fy f < 0 \<or> fy f \<ge> int ROW then Over Fallen_out
    else if 0 < fy f \<and> fy f < int ROW - 1 \<and> \<not> on_log (ls ! (nat (fy f) - 1)) (fx f) then Over Fallen_in
    else if fy f = 0 then Over Won
    else Show (set_cell (nat (fy f)) (nat (fx f)) (CHR ''0'') (scene ls)))"
proof (cases "fx f < 0 \<or> fx f \<ge> int COLUMN \<or> fy f < 0 \<or> fy f \<ge> int ROW")
  case True
  then show ?thesis by (auto simp: update_map_def draw_scene [OF ok])
next
  case False
  then have r: "nat (fx f) < COLUMN" "int (nat (fx f)) = fx f" "nat (fy f) \<le> 10" by (auto simp: ROW_def COLUMN_def)
  have len: "length ls = 9" using ok by (simp add: logs_ok_def NUMBER_OF_LOGS_def)
  have "scene ls (nat (fy f)) (nat (fx f)) = CHR '' '' \<longleftrightarrow> 0 < fy f \<and> fy f < int ROW - 1 \<and> \<not> on_log (ls ! (nat (fy f) - 1)) (fx f)"
    using r(1,3) False cells_on_log [OF r(1), of "ls ! (nat (fy f) - 1)"] by (auto simp: scene_def len r(2) ROW_def COLUMN_def)
  then show ?thesis using False by (simp add: update_map_def draw_scene [OF ok])
qed

lemma logs_ok_move:
  assumes "logs_ok ls"
  shows "logs_ok (handle_logs_movement ls)"
proof -
  have "0 \<le> heading_position (move_log (ls ! i)) \<and> heading_position (move_log (ls ! i)) < 50" if "i < 9" for i
    using assms that move_log_position(2,3) [of "ls ! i"] by (auto simp: logs_ok_def NUMBER_OF_LOGS_def COLUMN_def SPEED_def)
  moreover have "l_direction (move_log l) = l_direction l" "l_speed (move_log l) = l_speed l" for l by (simp_all add: move_log_def Let_def)
  ultimately show ?thesis using assms by (simp add: logs_ok_def handle_logs_movement_def NUMBER_OF_LOGS_def COLUMN_def)
qed

text \<open>A frog that sits still on a log rides it: when no key is hit, frog and log move together by one column, the frog
  is still on its log, and the frame is shown with the frog in its place, unless the log has carried it off the side.\<close>

theorem frog_rides:
  assumes ok: "logs_ok ls" and y: "0 < fy f" "fy f < int ROW - 1" and on: "on_log (ls ! (nat (fy f) - 1)) (fx f)"
  defines "ls' \<equiv> handle_logs_movement ls"
  shows "\<exists>f'. frog_turn None f = Inr f' \<and> fy f' = fy f \<and> fx f' = fx f + l_direction (ls ! (nat (fy f) - 1))
    \<and> logs_ok ls' \<and> on_log (ls' ! (nat (fy f') - 1)) (fx f')
    \<and> update_map initialize_map ls' f' = Inr (if fx f' < 0 \<or> fx f' \<ge> int COLUMN then Over Fallen_out
        else Show (set_cell (nat (fy f')) (nat (fx f')) (CHR ''0'') (scene ls')))"
proof -
  let ?i = "nat (fy f) - 1"
  let ?l = "ls ! ?i"
  have i: "?i < 9" using y by (simp add: ROW_def)
  have l: "0 \<le> heading_position ?l" "heading_position ?l < 50" "l_direction ?l = (if ?i mod 2 = 0 then 1 else - 1)" "l_speed ?l = 1"
    using ok i by (simp_all add: logs_ok_def NUMBER_OF_LOGS_def COLUMN_def SPEED_def)
  have par: "crem (fy f) 2 = 0 \<longleftrightarrow> ?i mod 2 \<noteq> 0"
  proof -
    obtain k where k: "fy f = int (Suc k)" using y(1) by (metis gr0_implies_Suc zero_less_imp_eq_int of_nat_0_less_iff)
    then have "?i = k" "crem (fy f) 2 = int (Suc k) mod 2" by (simp_all add: crem_nonneg)
    moreover have "int (Suc k) mod 2 = 0 \<longleftrightarrow> k mod 2 \<noteq> 0" by presburger
    ultimately show ?thesis by simp
  qed
  define f' where "f' = f\<lparr>fx := fx f + l_direction ?l, x_speed := 0, y_speed := 0\<rparr>"
  have "frog_turn None f = Inr f'"
    using y l(3) par by (simp add: frog_turn_def handle_keyboard_hit_def adjust_frog_speed_def update_frog_position_def SPEED_def f'_def)
  moreover have f': "fy f' = fy f" "fx f' = fx f + l_direction ?l" by (simp_all add: f'_def)
  moreover have ok': "logs_ok ls'" using logs_ok_move [OF ok] by (simp add: ls'_def)
  moreover have on': "on_log (ls' ! ?i) (fx f')"
  proof -
    have "length ls = 9" using ok by (simp add: logs_ok_def NUMBER_OF_LOGS_def)
    then have e: "ls' ! ?i = move_log ?l" using i unfolding ls'_def handle_logs_movement_def by (intro nth_map) simp
    have "\<bar>l_direction ?l\<bar> = 1" unfolding l(3) by (rule if_split [THEN iffD2]) simp
    then have "heading_position (ls' ! ?i) = (heading_position ?l + l_direction ?l) mod 50"
      unfolding e by (rule move_log_position(1) [OF l(1,2) _ l(4)])
    then have "(fx f' - heading_position (ls' ! ?i)) mod 50 = (fx f + l_direction ?l - (heading_position ?l + l_direction ?l)) mod 50"
      unfolding f'(2) by (simp only: mod_diff_right_eq)
    also have "fx f + l_direction ?l - (heading_position ?l + l_direction ?l) = fx f - heading_position ?l" by (rule add_diff_cancel_right)
    finally have "(fx f' - heading_position (ls' ! ?i)) mod 50 = (fx f - heading_position ?l) mod 50" .
    then show ?thesis using on by (simp add: on_log_def COLUMN_def)
  qed
  moreover have "update_map initialize_map ls' f' = Inr (if fx f' < 0 \<or> fx f' \<ge> int COLUMN then Over Fallen_out
        else Show (set_cell (nat (fy f')) (nat (fx f')) (CHR ''0'') (scene ls')))"
    using on' y f'(1) by (simp add: update_map_eq [OF ok'])
  ultimately show ?thesis by auto
qed

lemma game_synchronised_witness: "\<exists>t. can_run (initial_game (replicate 9 45)) t"
  using game_synchronised [OF plays_init [of "replicate 9 45"]] by (elim conjE)

text \<open>Nine logs that start at column 45 and a frog on the third.\<close>

definition demo_logs :: "log list" where
  "demo_logs = snd (initialize_game (replicate 9 45))"

definition demo_frog :: frog where
  "demo_frog = \<lparr>fx = 3, fy = 3, x_speed = 0, y_speed = 0\<rparr>"

lemma demo_logs_ok: "logs_ok demo_logs"
  by (simp add: demo_logs_def initialize_game_def logs_ok_def NUMBER_OF_LOGS_def initial_log_def crem_nonneg COLUMN_def)

lemma frog_rides_witness: "\<exists>f'. frog_turn None demo_frog = Inr f' \<and> fy f' = fy demo_frog
    \<and> update_map initialize_map (handle_logs_movement demo_logs) f'
      = Inr (Show (set_cell (nat (fy f')) (nat (fx f')) (CHR ''0'') (scene (handle_logs_movement demo_logs))))"
proof -
  have d: "demo_logs ! 2 = \<lparr>heading_position = 45, l_direction = 1, l_speed = 1\<rparr>"
    by (simp add: demo_logs_def initialize_game_def initial_log_def crem_nonneg COLUMN_def SPEED_def)
  have "on_log (demo_logs ! (nat (fy demo_frog) - 1)) (fx demo_frog)"
    by (simp add: demo_frog_def d on_log_def COLUMN_def LOG_LENGTH_def)
  then show ?thesis using frog_rides [OF demo_logs_ok, of demo_frog] by (auto simp: demo_frog_def ROW_def COLUMN_def d)
qed

end
