(* ===== verification/Mkfs.thy ===== *)
theory Mkfs
  imports Fsprop Fscontents
begin

text \<open>
  The program that makes the initial file system (\<^verbatim>\<open>mkfs/mkfs.c\<close>). The image is a map from block numbers to blocks. It
  is built with \<^verbatim>\<open>fs.h\<close> of assignment 4, on a little-endian host. An argument is its name and what \<^verbatim>\<open>read\<close> delivers
  of the file, piece by piece, or nothing when it cannot be opened. The image can be opened and written, and read as far
  as it has been written. The printed messages are left out; an \<^verbatim>\<open>assert\<close> that fails and \<^verbatim>\<open>die\<close> are faults.
\<close>

section \<open>Layout of the disk\<close>

definition FSSIZE :: nat where "FSSIZE = 2000"
definition NINODES :: nat where "NINODES = 200"

definition nbitmap :: nat where "nbitmap = FSSIZE div (BSIZE * 8) + 1"
definition ninodeblocks :: nat where "ninodeblocks = NINODES div IPB + 1"
definition nlog :: nat where "nlog = LOGSIZE"
definition nmeta :: nat where "nmeta = 2 + nlog + ninodeblocks + nbitmap"
definition nblocks :: nat where "nblocks = FSSIZE - nmeta"

lemma layout_consts [simp]: "FSSIZE = 2000" "nbitmap = 1" "ninodeblocks = 13" "nlog = 30" "nmeta = 46" "nblocks = 1954"
  by (simp_all add: FSSIZE_def nbitmap_def ninodeblocks_def nlog_def LOGSIZE_eq NINODES_def nmeta_def nblocks_def)

text \<open>The conversions to the byte order of the disk write the bytes one by one and read them as an integer of the host.\<close>

definition xshort :: "u16 \<Rightarrow> u16" where
  "xshort x = ld16 ((\<lambda>_. 0)(0 := ucast x, 1 := ucast (drop_bit 8 x))) 0"

definition xint :: "u32 \<Rightarrow> u32" where
  "xint x = ld32 ((\<lambda>_. 0)(0 := ucast x, 1 := ucast (drop_bit 8 x), 2 := ucast (drop_bit 16 x), 3 := ucast (drop_bit 24 x))) 0"

definition mkfs_sb :: superblock where
  "mkfs_sb = \<lparr>sb_magic = FSMAGIC, sb_size = xint (of_nat FSSIZE), sb_nblocks = xint (of_nat nblocks),
     sb_ninodes = xint (of_nat NINODES), sb_nlog = xint (of_nat nlog), sb_logstart = xint 2,
     sb_inodestart = xint (of_nat (2 + nlog)), sb_bmapstart = xint (of_nat (2 + nlog + ninodeblocks))\<rparr>"

definition store_sb :: "bytes \<Rightarrow> superblock \<Rightarrow> bytes" where
  "store_sb m b = st32 (st32 (st32 (st32 (st32 (st32 (st32 (st32 m 0 (sb_magic b)) 4 (sb_size b)) 8 (sb_nblocks b))
     12 (sb_ninodes b)) 16 (sb_nlog b)) 20 (sb_logstart b)) 24 (sb_inodestart b)) 28 (sb_bmapstart b)"

section \<open>State and sectors\<close>

record mkfs_state =
  img :: "u32 \<Rightarrow> bytes"
  nsect :: nat
  freeinode :: u32
  freeblock :: u32

text \<open>The sector at which \<^verbatim>\<open>lseek(fsfd, sec * BSIZE, 0)\<close> arrives; the product is a \<^verbatim>\<open>uint\<close>.\<close>

definition sector :: "u32 \<Rightarrow> u32" where
  "sector sec = sec * of_nat BSIZE div of_nat BSIZE"

definition wsect :: "u32 \<Rightarrow> bytes \<Rightarrow> mkfs_state \<Rightarrow> mkfs_state" where
  "wsect sec buf s = s\<lparr>img := (img s)(sector sec := buf), nsect := max (nsect s) (unat (sector sec) + 1)\<rparr>"

definition rsect :: "u32 \<Rightarrow> mkfs_state \<Rightarrow> (bytes, mkfs_state) res" where
  "rsect sec s = (if unat (sector sec) < nsect s then Inr (img s (sector sec), s) else Inl (Panic ''die: read''))"

definition winode :: "u32 \<Rightarrow> dinode \<Rightarrow> mkfs_state \<Rightarrow> (unit, mkfs_state) res" where
  "winode inum ip s = (let bn = IBLOCK inum mkfs_sb in
     andthen (rsect bn s) (\<lambda>buf s. Inr ((), wsect bn (store_dinode buf (inode_off inum) ip) s)))"

definition rinode :: "u32 \<Rightarrow> mkfs_state \<Rightarrow> (dinode, mkfs_state) res" where
  "rinode inum s = andthen (rsect (IBLOCK inum mkfs_sb) s) (\<lambda>buf s. Inr (load_dinode buf (inode_off inum), s))"

text \<open>\<^verbatim>\<open>freeblock++\<close> as a value\<close>

definition next_block :: "mkfs_state \<Rightarrow> u32 \<times> mkfs_state" where
  "next_block s = (freeblock s, s\<lparr>freeblock := freeblock s + 1\<rparr>)"

section \<open>Inodes and free map\<close>

definition mkfs_ialloc :: "u16 \<Rightarrow> mkfs_state \<Rightarrow> (u32, mkfs_state) res" where
  "mkfs_ialloc typ s =
     (let inum = freeinode s;
          din = \<lparr>d_type = xshort typ, d_major = 0, d_minor = 0, d_nlink = xshort 1, d_size = xint 0, d_addrs = (\<lambda>_. 0)\<rparr>
      in andthen (winode inum din (s\<lparr>freeinode := inum + 1\<rparr>)) (\<lambda>_ s. Inr (inum, s)))"

fun used_bits :: "nat list \<Rightarrow> bytes \<Rightarrow> bytes" where
  "used_bits [] buf = buf"
| "used_bits (i # is) buf = used_bits is (buf(i div 8 := buf (i div 8) OR push_bit (i mod 8) 1))"

definition mkfs_balloc :: "nat \<Rightarrow> mkfs_state \<Rightarrow> (unit, mkfs_state) res" where
  "mkfs_balloc used s =
     (if \<not> used < BSIZE * 8 then Inl (Panic ''assert(used < BSIZE*8)'')
      else Inr ((), wsect (sb_bmapstart mkfs_sb) (used_bits [0..<used] (\<lambda>_. 0)) s))"

section \<open>Appending to a file\<close>

text \<open>
  The block of the file that holds offset \<open>fbn * BSIZE\<close>, taken from the free blocks when the inode has none there. The
  inode is the local copy \<^verbatim>\<open>din\<close>, which is written back at the end of \<^verbatim>\<open>iappend\<close>. The array \<^verbatim>\<open>indirect\<close> has \<open>NINDIRECT\<close>
  entries; \<^verbatim>\<open>MAXFILE\<close>, which the assertion tests, counts the doubly indirect blocks, too.
\<close>

definition set_daddr :: "nat \<Rightarrow> u32 \<Rightarrow> dinode \<Rightarrow> dinode" where
  "set_daddr i a din = din\<lparr>d_addrs := (d_addrs din)(i := a)\<rparr>"

definition iappend_slot :: "nat \<Rightarrow> dinode \<Rightarrow> mkfs_state \<Rightarrow> dinode \<times> mkfs_state" where
  "iappend_slot i din s =
     (if xint (d_addrs din i) = 0 then (case next_block s of (b, s) \<Rightarrow> (set_daddr i (xint b) din, s))
      else (din, s))"

definition iappend_block :: "u32 \<Rightarrow> dinode \<Rightarrow> mkfs_state \<Rightarrow> (u32 \<times> dinode, mkfs_state) res" where
  "iappend_block fbn din s =
     (if \<not> unat fbn < MAXFILE then Inl (Panic ''assert(fbn < MAXFILE)'')
      else if unat fbn < NDIRECT then
        (case iappend_slot (unat fbn) din s of (din, s) \<Rightarrow> Inr ((xint (d_addrs din (unat fbn)), din), s))
      else if \<not> unat fbn - NDIRECT < NINDIRECT then Inl (Undefined ''indirect[fbn - NDIRECT]'')
      else (case iappend_slot NDIRECT din s of (din, s) \<Rightarrow>
        andthen (rsect (xint (d_addrs din NDIRECT)) s) (\<lambda>indirect s.
        let k = unat fbn - NDIRECT in
        if ld32 indirect (4 * k) = 0 then
          (case next_block s of (b, s) \<Rightarrow>
            let indirect = st32 indirect (4 * k) (xint b) in
            Inr ((xint (ld32 indirect (4 * k)), din), wsect (xint (d_addrs din NDIRECT)) indirect s))
        else Inr ((xint (ld32 indirect (4 * k)), din), s))))"

text \<open>The loop variables are \<^verbatim>\<open>din\<close>, the distance of \<^verbatim>\<open>p\<close> from \<^verbatim>\<open>xp\<close>, \<^verbatim>\<open>n\<close> and \<^verbatim>\<open>off\<close>.\<close>

definition iappend_step :: "bytes \<Rightarrow> dinode \<times> nat \<times> int \<times> u32 \<Rightarrow> mkfs_state \<Rightarrow>
    ((dinode \<times> nat \<times> int \<times> u32, dinode \<times> u32) ctl, mkfs_state) res" where
  "iappend_step xp = (\<lambda>(din, p, n, off) s.
     if \<not> n > 0 then Inr (Ret (din, off), s)
     else let fbn = off div of_nat BSIZE in
       andthen (iappend_block fbn din s) (\<lambda>(x, din) s.
       let n1 = min n (uint ((fbn + 1) * of_nat BSIZE - off)) in
       andthen (rsect x s) (\<lambda>buf s.
         let buf = blit buf (unat (off - fbn * of_nat BSIZE)) xp p (nat n1)
         in Inr (Next (din, p + nat n1, n - n1, off + of_int n1), wsect x buf s))))"

definition iappend :: "u32 \<Rightarrow> bytes \<Rightarrow> int \<Rightarrow> mkfs_state \<Rightarrow> (unit, mkfs_state) res" where
  "iappend inum xp n s =
     andthen (rinode inum s) (\<lambda>din s.
     andthen (loop (nat n + 1) (iappend_step xp) (din, 0, n, xint (d_size din)) s) (\<lambda>(din, off) s.
       winode inum (din\<lparr>d_size := xint off\<rparr>) s))"

section \<open>The main program\<close>

definition user_prefix :: "u8 list" where "user_prefix = [117, 115, 101, 114, 47]"
definition slash :: u8 where "slash = 47"
definition underscore :: u8 where "underscore = 95"

text \<open>A string of the host in memory at address 0\<close>

definition string_at0 :: "u8 list \<Rightarrow> bytes" where
  "string_at0 nm = (\<lambda>i. if i < length nm then nm ! i else 0)"

text \<open>A directory entry, cleared before it is filled in; \<^verbatim>\<open>strcpy\<close> of \<^verbatim>\<open>.\<close> and \<^verbatim>\<open>..\<close> leaves the same bytes.\<close>

definition dirent_of :: "u32 \<Rightarrow> u8 list \<Rightarrow> bytes" where
  "dirent_of inum nm = strncpy (st16 (\<lambda>_. 0) 0 (xshort (ucast inum))) 2 (string_at0 nm) 0 (int DIRSIZ)"

definition short_name :: "u8 list \<Rightarrow> u8 list" where
  "short_name arg = (if take 5 arg = user_prefix then drop 5 arg else arg)"

definition skip_underscore :: "u8 list \<Rightarrow> u8 list" where
  "skip_underscore nm = (if nm \<noteq> [] \<and> hd nm = underscore then tl nm else nm)"

text \<open>\<^verbatim>\<open>while((cc = read(fd, buf, sizeof(buf))) > 0) iappend(inum, buf, cc);\<close>\<close>

fun append_pieces :: "u32 \<Rightarrow> u8 list list \<Rightarrow> mkfs_state \<Rightarrow> (unit, mkfs_state) res" where
  "append_pieces inum [] s = Inr ((), s)"
| "append_pieces inum (c # cs) s =
     andthen (iappend inum (string_at0 c) (int (length c)) s) (\<lambda>_ s. append_pieces inum cs s)"

definition add_file :: "u32 \<Rightarrow> u8 list \<times> u8 list list option \<Rightarrow> mkfs_state \<Rightarrow> (unit, mkfs_state) res" where
  "add_file rootino = (\<lambda>(arg, file) s.
     let nm = short_name arg in
     if slash \<in> set nm then Inl (Panic ''assert(index(shortname, '/') == 0)'')
     else case file of None \<Rightarrow> Inl (Panic ''die'')
     | Some pieces \<Rightarrow>
         andthen (mkfs_ialloc T_FILE s) (\<lambda>inum s.
           andthen (iappend rootino (dirent_of inum (skip_underscore nm)) (int dirent_size) s) (\<lambda>_ s.
             append_pieces inum pieces s)))"

fun add_files :: "u32 \<Rightarrow> (u8 list \<times> u8 list list option) list \<Rightarrow> mkfs_state \<Rightarrow> (unit, mkfs_state) res" where
  "add_files rootino [] s = Inr ((), s)"
| "add_files rootino (f # fs) s = andthen (add_file rootino f s) (\<lambda>_ s. add_files rootino fs s)"

fun zero_sectors :: "nat list \<Rightarrow> mkfs_state \<Rightarrow> mkfs_state" where
  "zero_sectors [] s = s"
| "zero_sectors (i # is) s = zero_sectors is (wsect (of_nat i) (\<lambda>_. 0) s)"

definition dot :: "u8 list" where "dot = [46]"
definition dotdot :: "u8 list" where "dotdot = [46, 46]"

definition fix_root_size :: "u32 \<Rightarrow> mkfs_state \<Rightarrow> (unit, mkfs_state) res" where
  "fix_root_size rootino s =
     andthen (rinode rootino s) (\<lambda>din s.
       let off = (xint (d_size din) div of_nat BSIZE + 1) * of_nat BSIZE
       in winode rootino (din\<lparr>d_size := xint off\<rparr>) s)"

text \<open>The image is open and empty; the arguments are those after its name.\<close>

definition mkfs_main :: "(u8 list \<times> u8 list list option) list \<Rightarrow> (unit, mkfs_state) res" where
  "mkfs_main args =
     (let s = \<lparr>img = (\<lambda>_ _. 0), nsect = 0, freeinode = 1, freeblock = of_nat nmeta\<rparr>;
          s = zero_sectors [0..<FSSIZE] s;
          s = wsect 1 (store_sb (\<lambda>_. 0) mkfs_sb) s
      in andthen (mkfs_ialloc T_DIR s) (\<lambda>rootino s.
        if rootino \<noteq> ROOTINO then Inl (Panic ''assert(rootino == ROOTINO)'')
        else andthen (iappend rootino (dirent_of rootino dot) (int dirent_size) s) (\<lambda>_ s.
          andthen (iappend rootino (dirent_of rootino dotdot) (int dirent_size) s) (\<lambda>_ s.
          andthen (add_files rootino args s) (\<lambda>_ s.
          andthen (fix_root_size rootino s) (\<lambda>_ s.
          mkfs_balloc (unat (freeblock s)) s))))))"

end
