(* ===== verification/Mkfsprop.thy ===== *)
theory Mkfsprop
  imports Mkfs
begin

text \<open>
  Correctness of \<^verbatim>\<open>mkfs\<close>: the image it makes is a file system in order, which holds the files it was given, and the
  kernel that boots on it reads them.
\<close>

section \<open>Trees of several inodes\<close>

lemma xint_id [simp]: "xint x = x"
  using ld32_st32 [of "\<lambda>_. 0" 0 x] by (simp add: xint_def st32_def numeral_2_eq_2)

lemma xshort_id [simp]: "xshort x = x"
  using ld16_st16 [of "\<lambda>_. 0" 0 x] by (simp add: xshort_def st16_def)

text \<open>
  The addresses of the inodes, given by \<open>F\<close>, are different blocks between the metadata and the first free block, and the free
  blocks are zero.
\<close>

definition tidy :: "(u32 \<Rightarrow> bytes) \<Rightarrow> u32 \<Rightarrow> (nat \<Rightarrow> nat \<Rightarrow> u32) \<Rightarrow> bool" where
  "tidy v fb F \<longleftrightarrow> 46 \<le> unat fb
     \<and> (\<forall>j p. good p \<longrightarrow> at v (F j) p \<noteq> 0 \<longrightarrow> 46 \<le> unat (at v (F j) p) \<and> at v (F j) p < fb)
     \<and> (\<forall>j p i q. good p \<longrightarrow> good q \<longrightarrow> at v (F j) p = at v (F i) q \<longrightarrow> at v (F j) p \<noteq> 0 \<longrightarrow> j = i \<and> p = q)
     \<and> (\<forall>b i. fb \<le> b \<longrightarrow> i < BSIZE \<longrightarrow> v b i = 0)"

lemma tidyD:
  assumes "tidy v fb F"
  shows "46 \<le> unat fb"
    and "good p \<Longrightarrow> at v (F j) p \<noteq> 0 \<Longrightarrow> 46 \<le> unat (at v (F j) p)"
    and "good p \<Longrightarrow> at v (F j) p \<noteq> 0 \<Longrightarrow> at v (F j) p < fb"
    and "good p \<Longrightarrow> good q \<Longrightarrow> at v (F j) p = at v (F i) q \<Longrightarrow> at v (F j) p \<noteq> 0 \<Longrightarrow> j = i \<and> p = q"
    and "fb \<le> b \<Longrightarrow> i < BSIZE \<Longrightarrow> v b i = 0"
  using assms unfolding tidy_def by blast+

text \<open>The byte at offset \<open>i\<close> of the file with the addresses \<open>A\<close>, as \<open>file_bytes\<close> has it\<close>

definition fbyte :: "(u32 \<Rightarrow> bytes) \<Rightarrow> (nat \<Rightarrow> u32) \<Rightarrow> nat \<Rightarrow> u8" where
  "fbyte v A i = (let a = at v A (block_pos (i div BSIZE)) in if a = 0 then 0 else v a (i mod BSIZE))"

text \<open>Two images that agree on the blocks of addresses have the same trees.\<close>

lemma at_cong:
  assumes "\<And>p. good p \<Longrightarrow> interior p \<Longrightarrow> at v A p \<noteq> 0 \<Longrightarrow> v' (at v A p) = v (at v A p)"
    and "\<And>i. i < 13 \<Longrightarrow> A' i = A i" and "good r"
  shows "at v' A' r = at v A r"
proof -
  have top: "at v' A' (Top i) = at v A (Top i)" if "i < 13" for i using assms(2) that by simp
  have step: "at v' A' r = at v A r" if "good r" "parent r = Some q" "at v' A' q = at v A q" for r q
  proof -
    have "good q" "interior q" using good_parent [OF that(1,2)] interior_parent [OF that(2)] by auto
    then show ?thesis using assms(1) that(3) by (auto simp: at_parent [OF that(2)] entry_def)
  qed
  have dbl: "at v' A' (Dbl j) = at v A (Dbl j)" if "good (Dbl j)" for j
    using step [OF that _ top [of 12]] by simp
  show ?thesis
  proof (cases r)
    case (Ind j)
    then show ?thesis using step [OF assms(3) _ top] by simp
  next
    case (Leaf j k)
    have "good (Dbl j)" using assms(3) Leaf by simp
    from step [OF assms(3) _ dbl [OF this]] show ?thesis by (simp add: Leaf)
  qed (use assms(3) top dbl in auto)
qed

lemma tidy_cong:
  assumes t: "tidy v fb F" and a: "\<And>j r. good r \<Longrightarrow> at v' (F' j) r = at v (F j) r"
    and z: "\<And>b i. fb \<le> b \<Longrightarrow> i < BSIZE \<Longrightarrow> v' b i = v b i"
  shows "tidy v' fb F'"
  unfolding tidy_def
proof (intro conjI allI impI)
  show "46 \<le> unat fb" by (rule tidyD(1) [OF t])
  show "46 \<le> unat (at v' (F' j) p)" "at v' (F' j) p < fb" if "good p" "at v' (F' j) p \<noteq> 0" for j p
    using that tidyD(2,3) [OF t that(1)] by (simp_all add: a)
  show "j = i" "p = q" if "good p" "good q" "at v' (F' j) p = at v' (F' i) q" "at v' (F' j) p \<noteq> 0" for j p i q
    using that tidyD(4) [OF t that(1,2), of j i] by (simp_all add: a)
  show "v' b i = 0" if "fb \<le> b" "i < BSIZE" for b i
    using tidyD(5) [OF t that] z [OF that] by simp
qed

text \<open>Writing a block of the metadata.\<close>

lemma low_at:
  assumes t: "tidy v fb F" and lo: "\<And>b. 46 \<le> unat b \<Longrightarrow> v' b = v b" and F: "\<And>i. i < 13 \<Longrightarrow> F' j i = F j i"
    and g: "good r"
  shows "at v' (F' j) r = at v (F j) r"
  by (rule at_cong [OF _ F g]) (auto intro: lo tidyD(2) [OF t])

lemma low_tidy:
  assumes t: "tidy v fb F" and lo: "\<And>b. 46 \<le> unat b \<Longrightarrow> v' b = v b" and F: "\<And>j i. i < 13 \<Longrightarrow> F' j i = F j i"
  shows "tidy v' fb F'"
proof (rule tidy_cong [OF t])
  show "at v' (F' j) r = at v (F j) r" if "good r" for j r by (rule low_at [OF t lo F that])
  show "v' b i = v b i" if "fb \<le> b" for b i
    using lo [of b] tidyD(1) [OF t] that by (simp add: word_le_nat_alt)
qed

lemma low_fbyte:
  assumes t: "tidy v fb F" and lo: "\<And>b. 46 \<le> unat b \<Longrightarrow> v' b = v b" and F: "\<And>i. i < 13 \<Longrightarrow> F' j i = F j i"
    and i: "i < MAXFILE * BSIZE"
  shows "fbyte v' (F' j) i = fbyte v (F j) i"
proof -
  have g: "good (block_pos (i div BSIZE))" by (rule good_block_pos) (use i in auto)
  show ?thesis using low_at [where F = F and F' = F', OF t lo F g] lo tidyD(2) [OF t g] by (simp add: fbyte_def Let_def)
qed

text \<open>Writing a block of data.\<close>

lemma data_at:
  assumes t: "tidy v fb F" and n: "n < MAXFILE" and x: "x = at v (F j) (block_pos n)" "x \<noteq> 0" and g: "good r"
  shows "at (v(x := buf)) (F i) r = at v (F i) r"
proof (rule at_cong [OF _ refl g])
  fix p
  assume p: "good p" "interior p" "at v (F i) p \<noteq> 0"
  have "at v (F i) p \<noteq> x"
    using tidyD(4) [OF t p(1) good_block_pos [OF n], of i j] p x not_interior_block_pos by auto
  then show "(v(x := buf)) (at v (F i) p) = v (at v (F i) p)" by simp
qed

lemma data_tidy:
  assumes t: "tidy v fb F" and n: "n < MAXFILE" and x: "x = at v (F j) (block_pos n)" "x \<noteq> 0"
  shows "tidy (v(x := buf)) fb F"
proof (rule tidy_cong [OF t data_at [OF t n x]])
  show "(v(x := buf)) b i = v b i" if "fb \<le> b" for b i
    using tidyD(3) [OF t good_block_pos [OF n], of j] x that by auto
qed

lemma data_fbyte:
  assumes t: "tidy v fb F" and n: "n < MAXFILE" and x: "x = at v (F j) (block_pos n)" "x \<noteq> 0"
    and k: "k < MAXFILE * BSIZE"
  shows "fbyte (v(x := buf)) (F i) k = (if i = j \<and> k div BSIZE = n then buf (k mod BSIZE) else fbyte v (F i) k)"
proof -
  let ?p = "block_pos (k div BSIZE)"
  have g: "good ?p" by (rule good_block_pos) (use k in auto)
  have e: "at v (F i) ?p = x \<longleftrightarrow> i = j \<and> k div BSIZE = n" if "at v (F i) ?p \<noteq> 0"
    using tidyD(4) [OF t g good_block_pos [OF n], of i j] that x block_pos_inj by auto
  show ?thesis
  proof (cases "at v (F i) ?p = 0")
    case True
    then have "at v (F i) ?p \<noteq> x" using x(2) by simp
    then have "\<not> (i = j \<and> k div BSIZE = n)" using x(1) by blast
    then show ?thesis unfolding fbyte_def data_at [OF t n x g] Let_def if_not_P [OF \<open>\<not> (i = j \<and> k div BSIZE = n)\<close>] using True by simp
  next
    case False
    have "(v(x := buf)) (at v (F i) ?p) = (if i = j \<and> k div BSIZE = n then buf else v (at v (F i) ?p))"
      unfolding fun_upd_apply e [OF False] ..
    then show ?thesis unfolding fbyte_def data_at [OF t n x g] Let_def using False by presburger
  qed
qed

text \<open>Hanging the first free block at a place that was empty.\<close>

definition hang_img :: "pos \<Rightarrow> u32 \<Rightarrow> (nat \<Rightarrow> u32) \<Rightarrow> (u32 \<Rightarrow> bytes) \<Rightarrow> u32 \<Rightarrow> bytes" where
  "hang_img p a A v = (case parent p of
     None \<Rightarrow> v | Some q \<Rightarrow> v(at v A q := st32 (v (at v A q)) (4 * slot p) a))"

lemma hang_img_other: "b \<noteq> 0 \<Longrightarrow> (\<And>q. parent p = Some q \<Longrightarrow> at v A q \<noteq> b) \<Longrightarrow> hang_img p a A v b = v b"
  by (auto simp: hang_img_def split: option.splits)

lemma ld32_zeros: "(\<And>i. i < 4 \<Longrightarrow> m (a + i) = 0) \<Longrightarrow> ld32 m a = 0"
proof -
  assume z: "\<And>i. i < 4 \<Longrightarrow> m (a + i) = 0"
  have "m i = 0" if "a \<le> i" "i < a + 4" for i using z [of "i - a"] that by simp
  then have "ld32 m a = ld32 (\<lambda>_. 0) a" by (rule ld32_cong)
  then show ?thesis by (simp add: ld32_def)
qed

lemma hung_at:
  assumes t: "tidy v fb F" and fb: "unat fb < 2000" and p: "good p" "at v (F j) p = 0"
    and q: "\<And>q. parent p = Some q \<Longrightarrow> at v (F j) q \<noteq> 0" and r: "good r"
  shows "at (hang_img p fb (F j) v) ((F(j := hang_addrs p fb (F j))) i) r = (if i = j \<and> r = p then fb else at v (F i) r)"
proof -
  let ?v = "hang_img p fb (F j) v" and ?F = "F(j := hang_addrs p fb (F j))"
  have f0: "fb \<noteq> 0" using tidyD(1) [OF t] by auto
  have lt: "at v (F i) x \<noteq> fb" if "good x" for i x
    using tidyD(3) [OF t that, of i] f0 by (cases "at v (F i) x = 0") auto
  have top: "at ?v (?F i) (Top k) = (if i = j \<and> Top k = p then fb else at v (F i) (Top k))" for i k
    by (cases p) (auto simp: hang_addrs_def)
  have step: "at ?v (?F i) r = (if i = j \<and> r = p then fb else at v (F i) r)"
    if g: "good r" and pr: "parent r = Some x" and ih: "at ?v (?F i) x = (if i = j \<and> x = p then fb else at v (F i) x)" for i r x
  proof (cases "i = j \<and> x = p")
    case True
    have "?v fb = v fb" using lt good_parent [OF p(1)] by (intro hang_img_other [OF f0]) blast
    then have "ld32 (?v fb) (4 * slot r) = 0"
      using good_parent [OF g pr] tidyD(5) [OF t] by (intro ld32_zeros) simp
    then have z: "at ?v (?F i) r = 0" using ih True f0 by (simp only: at_parent [OF pr] entry_def if_True simp_thms) simp
    have "r \<noteq> p" using pr True q p(2) by auto
    moreover have "at v (F i) r = 0" using p(2) True by (simp add: at_parent [OF pr] entry_def)
    ultimately show ?thesis using z by simp
  next
    case False
    have gx: "good x" and sl: "slot r < 256" using good_parent [OF g pr] by auto
    have e: "at ?v (?F i) r = entry ?v (at v (F i) x) (slot r)" using ih False by (auto simp: at_parent [OF pr])
    show ?thesis
    proof (cases "at v (F i) x = 0")
      case True
      then have n: "\<not> (i = j \<and> r = p)" using pr q by blast
      have z: "at v (F i) r = 0" using True by (simp add: at_parent [OF pr] entry_def)
      show ?thesis unfolding e if_not_P [OF n] z by (simp add: entry_def True)
    next
      case nz: False
      show ?thesis
      proof (cases "i = j \<and> parent p = Some x")
        case True
        then have "?v (at v (F i) x) = st32 (v (at v (F i) x)) (4 * slot p) fb" by (simp add: hang_img_def)
        moreover have "slot r = slot p \<longleftrightarrow> r = p" using parent_slot_inj [OF pr] True by blast
        moreover have "ld32 (st32 m (4 * slot p) fb) (4 * slot r) = ld32 m (4 * slot r)" if "slot r \<noteq> slot p" for m
          by (rule ld32_st32_other) (use that in arith)
        ultimately show ?thesis
          unfolding e using nz True by (auto simp: entry_def at_parent [OF pr] ld32_st32)
      next
        case other: False
        have "at v (F j) y \<noteq> at v (F i) x" if y: "parent p = Some y" for y
        proof
          assume "at v (F j) y = at v (F i) x"
          from tidyD(4) [OF t gx conjunct1 [OF good_parent [OF p(1) y]] sym [OF this] nz] show False
            using other y by blast
        qed
        then have "?v (at v (F i) x) = v (at v (F i) x)" by (intro hang_img_other [OF nz])
        moreover have n: "\<not> (i = j \<and> r = p)" using pr other by auto
        ultimately show ?thesis unfolding e if_not_P [OF n] using nz by (simp add: entry_def at_parent [OF pr])
      qed
    qed
  qed
  have mid2: "at ?v (?F i) (Dbl k) = (if i = j \<and> Dbl k = p then fb else at v (F i) (Dbl k))" if "good (Dbl k)" for i k
    by (rule step [OF that _ top]) simp
  show ?thesis
  proof (cases r)
    case (Ind k)
    then show ?thesis using step [OF r _ top] by simp
  next
    case (Leaf k l)
    have "good (Dbl k)" using r Leaf by simp
    from step [OF r _ mid2 [OF this]] show ?thesis by (simp add: Leaf)
  qed (use top mid2 r in blast)+
qed

lemma hung_other:
  assumes t: "tidy v fb F" and p: "good p" and b: "46 \<le> unat b" "fb \<le> b \<or> (\<forall>q. good q \<longrightarrow> interior q \<longrightarrow> at v (F j) q \<noteq> b)"
  shows "hang_img p a (F j) v b = v b"
proof (rule hang_img_other)
  show "b \<noteq> 0" using b(1) by auto
  show "at v (F j) q \<noteq> b" if "parent p = Some q" for q
    using b good_parent [OF p that] interior_parent [OF that] tidyD(3) [OF t, of q j]
    by (cases "at v (F j) q = 0") auto
qed

lemma unat_Suc_block: "unat fb < 2000 \<Longrightarrow> unat (fb + 1) = unat fb + 1" for fb :: u32
  by (simp add: unat_word_ariths)

lemma hung_tidy:
  assumes t: "tidy v fb F" and fb: "unat fb < 2000" and p: "good p" "at v (F j) p = 0"
    and q: "\<And>q. parent p = Some q \<Longrightarrow> at v (F j) q \<noteq> 0"
  shows "tidy (hang_img p fb (F j) v) (fb + 1) (F(j := hang_addrs p fb (F j)))"
proof -
  let ?v = "hang_img p fb (F j) v" and ?F = "F(j := hang_addrs p fb (F j))"
  have a: "at ?v (?F i) r = (if i = j \<and> r = p then fb else at v (F i) r)" if "good r" for i r
    using q by (intro hung_at [OF t fb p _ that]) blast
  have s: "x < fb + 1 \<longleftrightarrow> x < fb \<or> x = fb" for x
    using unat_Suc_block [OF fb] by (auto simp: word_less_nat_alt word_unat_eq_iff)
  have f: "46 \<le> unat fb" by (rule tidyD(1) [OF t])
  have nf: "at v (F i) x \<noteq> fb" if "good x" for i x
    using tidyD(3) [OF t that, of i] f by (cases "at v (F i) x = 0") auto
  show ?thesis
    unfolding tidy_def
  proof (intro conjI allI impI)
    show "46 \<le> unat (fb + 1)" using f unat_Suc_block [OF fb] by simp
    show "46 \<le> unat (at (hang_img p fb (F j) v) ((F(j := hang_addrs p fb (F j))) i) r)"
      "at (hang_img p fb (F j) v) ((F(j := hang_addrs p fb (F j))) i) r < fb + 1"
      if "good r" "at (hang_img p fb (F j) v) ((F(j := hang_addrs p fb (F j))) i) r \<noteq> 0" for i r
      using that(2) tidyD(2,3) [OF t that(1), of i] f unfolding a [OF that(1)] s by (auto split: if_splits)
    show "i = k" "r = x" if g: "good r" "good x"
      and e: "at (hang_img p fb (F j) v) ((F(j := hang_addrs p fb (F j))) i) r
        = at (hang_img p fb (F j) v) ((F(j := hang_addrs p fb (F j))) k) x"
      and n: "at (hang_img p fb (F j) v) ((F(j := hang_addrs p fb (F j))) i) r \<noteq> 0" for i r k x
      using e n nf [OF g(1), of i] nf [OF g(2), of k] tidyD(4) [OF t g, of i k] unfolding a [OF g(1)] a [OF g(2)]
      by (auto split: if_splits)
    show "hang_img p fb (F j) v b i = 0" if "fb + 1 \<le> b" "i < BSIZE" for b i
    proof -
      have b: "fb \<le> b" using that(1) unat_Suc_block [OF fb] by (simp add: word_le_nat_alt)
      then have "46 \<le> unat b" using f by (simp add: word_le_nat_alt)
      then show ?thesis using hung_other [OF t p(1)] b tidyD(5) [OF t b that(2)] by metis
    qed
  qed
qed

lemma hung_fbyte:
  assumes t: "tidy v fb F" and fb: "unat fb < 2000" and p: "good p" "at v (F j) p = 0"
    and q: "\<And>q. parent p = Some q \<Longrightarrow> at v (F j) q \<noteq> 0" and k: "k < MAXFILE * BSIZE"
  shows "fbyte (hang_img p fb (F j) v) ((F(j := hang_addrs p fb (F j))) i) k = fbyte v (F i) k"
proof -
  let ?b = "block_pos (k div BSIZE)"
  have g: "good ?b" by (rule good_block_pos) (use k in auto)
  have f: "46 \<le> unat fb" by (rule tidyD(1) [OF t])
  have vf: "hang_img p fb (F j) v fb = v fb" by (rule hung_other [OF t p(1) f]) simp
  have va: "hang_img p fb (F j) v (at v (F i) ?b) = v (at v (F i) ?b)" if nz: "at v (F i) ?b \<noteq> 0"
  proof (rule hung_other [OF t p(1) tidyD(2) [OF t g nz]], intro disjI2 allI impI notI)
    fix x assume x: "good x" "interior x" "at v (F j) x = at v (F i) ?b"
    show False using tidyD(4) [OF t x(1) g x(3)] x(2,3) nz not_interior_block_pos by auto
  qed
  have a: "at (hang_img p fb (F j) v) ((F(j := hang_addrs p fb (F j))) i) ?b = (if i = j \<and> ?b = p then fb else at v (F i) ?b)"
    using q by (intro hung_at [OF t fb p _ g]) blast
  have z: "v fb (k mod BSIZE) = 0" by (rule tidyD(5) [OF t]) simp_all
  show ?thesis
    unfolding fbyte_def a Let_def using vf va p(2) f z by auto
qed

section \<open>Taking blocks for a file\<close>

lemma sector_id: "unat b < 4194304 \<Longrightarrow> sector b = b"
proof -
  assume b: "unat b < 4194304"
  then have m: "unat (b * 1024) = unat b * 1024" by (simp add: unat_word_ariths)
  have "unat (b * 1024 div 1024) = unat b" unfolding unat_div m by simp
  then show ?thesis by (simp add: sector_def word_unat_eq_iff)
qed

lemma rsect_eq: "unat b < nsect s \<Longrightarrow> nsect s = 2000 \<Longrightarrow> rsect b s = Inr (img s b, s)"
  by (simp add: rsect_def sector_id)

lemma wsect_eq: "unat b < nsect s \<Longrightarrow> nsect s = 2000 \<Longrightarrow> wsect b buf s = s\<lparr>img := (img s)(b := buf)\<rparr>"
  by (simp add: wsect_def sector_id max_def)

text \<open>Inode \<open>j\<close> has taken blocks for the places \<open>P\<close>; no byte of any file has changed.\<close>

definition grew :: "(nat \<Rightarrow> nat \<Rightarrow> u32) \<Rightarrow> nat \<Rightarrow> pos set \<Rightarrow> mkfs_state \<Rightarrow> (nat \<Rightarrow> u32) \<Rightarrow> mkfs_state \<Rightarrow> bool" where
  "grew F j P s A s' \<longleftrightarrow> tidy (img s') (freeblock s') (F(j := A))
     \<and> (\<forall>i r. good r \<longrightarrow> (at (img s') ((F(j := A)) i) r \<noteq> 0 \<longleftrightarrow> at (img s) (F i) r \<noteq> 0 \<or> i = j \<and> r \<in> P))
     \<and> (\<forall>i k. k < MAXFILE * BSIZE \<longrightarrow> fbyte (img s') ((F(j := A)) i) k = fbyte (img s) (F i) k)
     \<and> (\<forall>b. unat b < 46 \<longrightarrow> img s' b = img s b)
     \<and> unat (freeblock s') = unat (freeblock s) + card P \<and> finite P
     \<and> nsect s' = nsect s \<and> freeinode s' = freeinode s"

lemma grewD:
  assumes "grew F j P s A s'"
  shows "tidy (img s') (freeblock s') (F(j := A))"
    and "good r \<Longrightarrow> at (img s') ((F(j := A)) i) r \<noteq> 0 \<longleftrightarrow> at (img s) (F i) r \<noteq> 0 \<or> i = j \<and> r \<in> P"
    and "k < MAXFILE * BSIZE \<Longrightarrow> fbyte (img s') ((F(j := A)) i) k = fbyte (img s) (F i) k"
    and "unat b < 46 \<Longrightarrow> img s' b = img s b"
    and "unat (freeblock s') = unat (freeblock s) + card P" "finite P" "nsect s' = nsect s" "freeinode s' = freeinode s"
  using assms unfolding grew_def by blast+

lemma grew_refl: "tidy (img s) (freeblock s) F \<Longrightarrow> grew F j {} s (F j) s"
  by (simp add: grew_def)

lemma grew_trans:
  assumes g: "grew F j P s A t" and h: "grew (F(j := A)) j Q t B u" and d: "P \<inter> Q = {}"
  shows "grew F j (P \<union> Q) s B u"
proof -
  have f: "(F(j := A))(j := B) = F(j := B)" by simp
  show ?thesis
    unfolding grew_def
  proof (intro conjI allI impI)
    show "at (img u) ((F(j := B)) i) r \<noteq> 0 \<longleftrightarrow> at (img s) (F i) r \<noteq> 0 \<or> i = j \<and> r \<in> P \<union> Q" if "good r" for i r
      using grewD(2) [OF g that, of i] grewD(2) [OF h that, of i] unfolding f by blast
    show "fbyte (img u) ((F(j := B)) i) k = fbyte (img s) (F i) k" if "k < MAXFILE * BSIZE" for i k
      using grewD(3) [OF g that, of i] grewD(3) [OF h that, of i] unfolding f by simp
    show "img u b = img s b" if "unat b < 46" for b using grewD(4) [OF g that] grewD(4) [OF h that] by simp
    show "unat (freeblock u) = unat (freeblock s) + card (P \<union> Q)"
      using grewD(5,6) [OF g] grewD(5,6) [OF h] d by (simp add: card_Un_disjoint)
  qed (use grewD(1,6-8) [OF g] grewD(1,6-8) [OF h] in \<open>simp_all add: f\<close>)
qed

lemma hung_grew:
  assumes t: "tidy (img s) (freeblock s) F" and fb: "unat (freeblock s) < 2000"
    and p: "good p" "at (img s) (F j) p = 0" and q: "\<And>q. parent p = Some q \<Longrightarrow> at (img s) (F j) q \<noteq> 0"
    and s': "s' = s\<lparr>img := hang_img p (freeblock s) (F j) (img s), freeblock := freeblock s + 1\<rparr>"
  shows "grew F j {p} s (hang_addrs p (freeblock s) (F j)) s'"
proof -
  let ?A = "hang_addrs p (freeblock s) (F j)"
  have im: "img s' = hang_img p (freeblock s) (F j) (img s)" "freeblock s' = freeblock s + 1" by (simp_all add: s')
  have a: "at (img s') ((F(j := ?A)) i) r = (if i = j \<and> r = p then freeblock s else at (img s) (F i) r)" if "good r" for i r
    unfolding im using q by (intro hung_at [OF t fb p _ that]) blast
  have f0: "freeblock s \<noteq> 0" using tidyD(1) [OF t] by auto
  have lo: "hang_img p (freeblock s) (F j) (img s) b = img s b" if b: "unat b < 46" for b
  proof (cases "parent p")
    case (Some x)
    have "46 \<le> unat (at (img s) (F j) x)"
      using tidyD(2) [OF t] good_parent [OF p(1) Some] q [OF Some] by blast
    then show ?thesis using b Some by (auto simp: hang_img_def)
  qed (simp add: hang_img_def)
  show ?thesis
    unfolding grew_def
  proof (intro conjI allI impI)
    show "tidy (img s') (freeblock s') (F(j := ?A))"
      unfolding im using q by (intro hung_tidy [OF t fb p]) blast
    show "at (img s') ((F(j := ?A)) i) r \<noteq> 0 \<longleftrightarrow> at (img s) (F i) r \<noteq> 0 \<or> i = j \<and> r \<in> {p}" if "good r" for i r
      unfolding a [OF that] using f0 p(2) by auto
    show "fbyte (img s') ((F(j := ?A)) i) k = fbyte (img s) (F i) k" if "k < MAXFILE * BSIZE" for i k
      unfolding im using q by (intro hung_fbyte [OF t fb p _ that]) blast
    show "unat (freeblock s') = unat (freeblock s) + card {p}" using unat_Suc_block [OF fb] by (simp add: s')
  qed (use lo in \<open>simp_all add: s'\<close>)
qed

lemma iappend_slot_grew:
  assumes t: "tidy (img s) (freeblock s) F" and a: "d_addrs din = F j" and i: "i < 13"
    and fb: "F j i = 0 \<Longrightarrow> unat (freeblock s) < 2000"
  obtains A s' where "iappend_slot i din s = (din\<lparr>d_addrs := A\<rparr>, s')"
    and "grew F j (if F j i = 0 then {Top i} else {}) s A s'" and "A i \<noteq> 0" and "F j i \<noteq> 0 \<Longrightarrow> A = F j \<and> s' = s"
    and "F j i = 0 \<Longrightarrow> A i = freeblock s"
proof (cases "F j i = 0")
  case True
  let ?A = "(F j)(i := freeblock s)"
  have h: "hang_addrs (Top i) (freeblock s) (F j) = ?A" by (simp add: hang_addrs_def)
  have s: "s\<lparr>freeblock := freeblock s + 1\<rparr> = s\<lparr>img := hang_img (Top i) (freeblock s) (F j) (img s), freeblock := freeblock s + 1\<rparr>"
    by (simp add: hang_img_def)
  have "grew F j {Top i} s ?A (s\<lparr>freeblock := freeblock s + 1\<rparr>)"
    unfolding h [symmetric] by (rule hung_grew [OF t fb [OF True] _ _ _ s]) (use i True in auto)
  moreover have "iappend_slot i din s = (din\<lparr>d_addrs := ?A\<rparr>, s\<lparr>freeblock := freeblock s + 1\<rparr>)"
    using True by (simp add: iappend_slot_def a next_block_def set_daddr_def)
  moreover have "freeblock s \<noteq> 0" using tidyD(1) [OF t] by auto
  ultimately show ?thesis using that True by simp
next
  case False
  have "iappend_slot i din s = (din\<lparr>d_addrs := F j\<rparr>, s)" using False by (simp add: iappend_slot_def a flip: a)
  then show ?thesis using that False grew_refl [OF t] by simp
qed

text \<open>The places a file of \<open>sz\<close> bytes uses, and how many they are.\<close>

definition need :: "nat \<Rightarrow> pos set" where
  "need sz = block_pos ` {k. k * BSIZE < sz} \<union> (if NDIRECT * BSIZE < sz then {Top NDIRECT} else {})"

definition blocks_for :: "nat \<Rightarrow> nat" where
  "blocks_for sz = (sz + (BSIZE - 1)) div BSIZE + (if NDIRECT * BSIZE < sz then 1 else 0)"

lemma Top11_not_block_pos: "Top 11 \<noteq> block_pos k"
proof
  assume "Top 11 = block_pos k"
  then have "\<not> interior (Top 11)" using not_interior_block_pos [of k] by simp
  then show False by simp
qed

lemma need_block_pos: "block_pos n \<in> need sz \<longleftrightarrow> n * BSIZE < sz"
proof -
  have "inj block_pos" by (simp add: inj_def block_pos_inj)
  then have "block_pos n \<in> block_pos ` {k. k * BSIZE < sz} \<longleftrightarrow> n \<in> {k. k * BSIZE < sz}" by (rule inj_image_mem_iff)
  then show ?thesis using Top11_not_block_pos [of n] by (simp add: need_def)
qed

lemma need_Top11: "Top 11 \<in> need sz \<longleftrightarrow> 11264 < sz"
proof -
  have "Top 11 \<notin> block_pos ` {k. k * BSIZE < sz}" using Top11_not_block_pos by blast
  then show ?thesis by (simp add: need_def)
qed

text \<open>The file grows into block \<open>n\<close>.\<close>

lemma need_grow:
  assumes "n * 1024 \<le> sz" and "sz < m" and "m \<le> n * 1024 + 1024"
  shows "need m = need sz \<union> ((if sz = n * 1024 then {block_pos n} else {}) \<union> (if sz = n * 1024 \<and> n = 11 then {Top 11} else {}))"
    and "blocks_for m = blocks_for sz + (if sz = n * 1024 then 1 else 0) + (if sz = n * 1024 \<and> n = 11 then 1 else 0)"
proof -
  have k: "k * 1024 < m \<longleftrightarrow> k * 1024 < sz \<or> sz = n * 1024 \<and> k = n" for k
  proof (cases "sz = n * 1024")
    case True
    then have "k * 1024 < m \<longleftrightarrow> k \<le> n" using assms by (cases "k \<le> n") linarith+
    then show ?thesis using True by auto
  next
    case False
    then have "n * 1024 < sz" using assms(1) by simp
    then have "k * 1024 < m \<longleftrightarrow> k \<le> n" "k * 1024 < sz \<longleftrightarrow> k \<le> n" using assms by (cases "k \<le> n"; linarith)+
    then show ?thesis using False by blast
  qed
  have t: "11264 < m \<longleftrightarrow> 11264 < sz \<or> sz = n * 1024 \<and> n = 11"
    using k [of 11] by simp
  show "need m = need sz \<union> ((if sz = n * 1024 then {block_pos n} else {}) \<union> (if sz = n * 1024 \<and> n = 11 then {Top 11} else {}))"
  proof -
    have "{k. k * 1024 < m} = {k. k * 1024 < sz} \<union> (if sz = n * 1024 then {n} else {})" unfolding k by auto
    then have "block_pos ` {k. k * 1024 < m} = block_pos ` {k. k * 1024 < sz} \<union> (if sz = n * 1024 then {block_pos n} else {})"
      by (simp only: image_Un) simp
    then show ?thesis unfolding need_def by (simp add: t Un_ac)
  qed
  have d: "(m + 1023) div 1024 = n + 1" using assms by (intro div_nat_eqI) auto
  have "(sz + 1023) div 1024 = (if sz = n * 1024 then n else n + 1)" using assms by (auto intro!: div_nat_eqI)
  then show "blocks_for m = blocks_for sz + (if sz = n * 1024 then 1 else 0) + (if sz = n * 1024 \<and> n = 11 then 1 else 0)"
    unfolding blocks_for_def using d t assms by auto
qed

lemma block_pos_Ind: "11 \<le> n \<Longrightarrow> n < 267 \<Longrightarrow> block_pos n = Ind (n - 11)"
  by (auto simp: block_pos_def)

lemma iappend_entry_grew:
  assumes t: "tidy (img s) (freeblock s) F" and a: "d_addrs din = F j" and b: "F j 11 \<noteq> 0" and k: "k < 256"
    and fb: "unat (freeblock s) \<le> 2000" "entry (img s) (F j 11) k = 0 \<Longrightarrow> unat (freeblock s) < 2000" and ns: "nsect s = 2000"
  shows "runs (andthen (rsect (xint (d_addrs din NDIRECT)) s) (\<lambda>indirect s.
        if ld32 indirect (4 * k) = 0 then
          (case next_block s of (b, s) \<Rightarrow>
            let indirect = st32 indirect (4 * k) (xint b) in
            Inr ((xint (ld32 indirect (4 * k)), din), wsect (xint (d_addrs din NDIRECT)) indirect s))
        else Inr ((xint (ld32 indirect (4 * k)), din), s)))
    (\<lambda>(x, din') s'. din' = din \<and> grew F j (if entry (img s) (F j 11) k = 0 then {Ind k} else {}) s (F j) s'
      \<and> x = at (img s') (F j) (Ind k) \<and> x \<noteq> 0)"
proof -
  let ?b = "F j 11"
  have lt: "unat ?b < 2000"
    using tidyD(3) [OF t, of "Top 11" j] b fb(1) by (simp add: word_less_nat_alt)
  have r: "rsect ?b s = Inr (img s ?b, s)" by (rule rsect_eq) (simp_all add: lt ns)
  have e: "entry (img s) ?b k = ld32 (img s ?b) (4 * k)" using b by (simp add: entry_def)
  show ?thesis
  proof (cases "entry (img s) ?b k = 0")
    case True
    let ?s = "s\<lparr>img := hang_img (Ind k) (freeblock s) (F j) (img s), freeblock := freeblock s + 1\<rparr>"
    have w: "wsect ?b (st32 (img s ?b) (4 * k) (freeblock s)) (s\<lparr>freeblock := freeblock s + 1\<rparr>) = ?s"
      by (subst wsect_eq) (simp_all add: lt ns hang_img_def)
    have h: "hang_addrs (Ind k) (freeblock s) (F j) = F j" by (simp add: hang_addrs_def)
    have g: "grew F j {Ind k} s (F j) ?s"
      by (rule hung_grew [OF t fb(2) [OF True] _ _ _ refl, of "Ind k" j, unfolded h]) (use True k b in auto)
    have "at (img ?s) ((F(j := hang_addrs (Ind k) (freeblock s) (F j))) j) (Ind k) = freeblock s"
      using hung_at [OF t fb(2) [OF True], of "Ind k" j "Ind k" j] True k b by auto
    then have "at (img ?s) (F j) (Ind k) = freeblock s" by (simp only: h fun_upd_triv)
    moreover have "freeblock s \<noteq> 0" using tidyD(1) [OF t] by auto
    ultimately show ?thesis
      using True g e by (simp add: a r next_block_def Let_def w ld32_st32 del: at.simps)
  next
    case False
    have "at (img s) (F j) (Ind k) = ld32 (img s ?b) (4 * k)" using e by simp
    then show ?thesis using False grew_refl [OF t] e by (simp add: a r)
  qed
qed

lemma iappend_block_runs:
  assumes t: "tidy (img s) (freeblock s) F" and a: "d_addrs din = F j"
    and pr: "\<And>r. good r \<Longrightarrow> at (img s) (F j) r \<noteq> 0 \<longleftrightarrow> r \<in> need sz"
    and n: "unat fbn = n" "n < 267" "n * 1024 \<le> sz" "sz < m" "m \<le> n * 1024 + 1024"
    and cap: "unat (freeblock s) + blocks_for m \<le> 2000 + blocks_for sz" and ns: "nsect s = 2000"
  shows "runs (iappend_block fbn din s) (\<lambda>(x, din') s'. \<exists>A P. din' = din\<lparr>d_addrs := A\<rparr> \<and> grew F j P s A s'
    \<and> x = at (img s') A (block_pos n) \<and> x \<noteq> 0 \<and> need m = need sz \<union> P \<and> blocks_for m = blocks_for sz + card P)"
proof (cases "n < 11")
  case True
  have bp: "block_pos n = Top n" using True by (simp add: block_pos_def)
  have z: "F j n = 0 \<longleftrightarrow> sz = n * 1024" using pr [of "Top n"] need_block_pos [of n sz] bp True n(3) by auto
  have nf: "unat (freeblock s) < 2000" if "F j n = 0"
    using cap need_grow(2) [OF n(3-5)] that z True by auto
  obtain A s' where A: "iappend_slot n din s = (din\<lparr>d_addrs := A\<rparr>, s')"
    "grew F j (if F j n = 0 then {Top n} else {}) s A s'" "A n \<noteq> 0"
    by (rule iappend_slot_grew [OF t a _ nf]) (use True in auto)
  have "need m = need sz \<union> (if F j n = 0 then {Top n} else {})" using need_grow(1) [OF n(3-5)] True bp z by auto
  moreover have "blocks_for m = blocks_for sz + card (if F j n = 0 then {Top n} else {})"
    using need_grow(2) [OF n(3-5)] True z by auto
  ultimately have "\<exists>B P. din\<lparr>d_addrs := A\<rparr> = din\<lparr>d_addrs := B\<rparr> \<and> grew F j P s B s' \<and> A n = at (img s') B (block_pos n)
      \<and> A n \<noteq> 0 \<and> need m = need sz \<union> P \<and> blocks_for m = blocks_for sz + card P"
    using A(2,3) bp by (intro exI [of _ A] exI [of _ "if F j n = 0 then {Top n} else {}"]) simp
  then show ?thesis using True n(1,2) A(1) by (simp add: iappend_block_def)
next
  case False
  let ?k = "n - 11"
  have k: "?k < 256" "block_pos n = Ind ?k" using False n(2) block_pos_Ind by auto
  have z1: "F j 11 = 0 \<longleftrightarrow> sz = n * 1024 \<and> n = 11"
    using pr [of "Top 11"] need_Top11 [of sz] False n(3) by auto
  note gr = need_grow [OF n(3-5)]
  have nf: "unat (freeblock s) < 2000" if "F j 11 = 0"
    using cap gr(2) that z1 by auto
  obtain A s1 where A: "iappend_slot 11 din s = (din\<lparr>d_addrs := A\<rparr>, s1)"
    "grew F j (if F j 11 = 0 then {Top 11} else {}) s A s1" "A 11 \<noteq> 0"
    by (rule iappend_slot_grew [OF t a _ nf]) auto
  let ?P = "if F j 11 = 0 then {Top 11} else {}" and ?F = "F(j := A)"
  have "at (img s1) (?F j) (Ind ?k) \<noteq> 0 \<longleftrightarrow> at (img s) (F j) (Ind ?k) \<noteq> 0"
    using grewD(2) [OF A(2), of "Ind ?k" j] k(1) by auto
  also have "\<dots> \<longleftrightarrow> \<not> sz = n * 1024"
    using pr [of "Ind ?k"] need_block_pos [of n sz] k n(3) by auto
  finally have z2: "entry (img s1) (?F j 11) ?k = 0 \<longleftrightarrow> sz = n * 1024" by simp
  have f1: "unat (freeblock s1) = unat (freeblock s) + card ?P" by (rule grewD(5) [OF A(2)])
  let ?Q = "if entry (img s1) (?F j 11) ?k = 0 then {Ind ?k} else {}"
  have cd: "blocks_for m = blocks_for sz + card ?P + card ?Q"
    unfolding gr(2) z1 z2 by (cases "sz = n * 1024"; cases "n = 11") simp_all
  have nd: "need m = need sz \<union> (?P \<union> ?Q)"
    unfolding gr(1) z1 z2 k(2) by (cases "sz = n * 1024"; cases "n = 11") auto
  have fb: "unat (freeblock s1) \<le> 2000" "entry (img s1) (?F j 11) ?k = 0 \<Longrightarrow> unat (freeblock s1) < 2000"
    using f1 cd cap by auto
  have d: "d_addrs (din\<lparr>d_addrs := A\<rparr>) = ?F j" by simp
  have b: "?F j 11 \<noteq> 0" using A(3) by simp
  have n1: "nsect s1 = 2000" using grewD(7) [OF A(2)] ns by simp
  have e: "iappend_block fbn din s = andthen (rsect (xint (d_addrs (din\<lparr>d_addrs := A\<rparr>) NDIRECT)) s1) (\<lambda>indirect s.
        if ld32 indirect (4 * ?k) = 0 then
          (case next_block s of (b, s) \<Rightarrow>
            let indirect = st32 indirect (4 * ?k) (xint b) in
            Inr ((xint (ld32 indirect (4 * ?k)), din\<lparr>d_addrs := A\<rparr>), wsect (xint (d_addrs (din\<lparr>d_addrs := A\<rparr>) NDIRECT)) indirect s))
        else Inr ((xint (ld32 indirect (4 * ?k)), din\<lparr>d_addrs := A\<rparr>), s))"
    using False n(1,2) k(1) A(1) by (simp add: iappend_block_def Let_def)
  show ?thesis unfolding e
  proof (rule runs_mono [OF iappend_entry_grew [OF grewD(1) [OF A(2)] d b k(1) fb n1]], assumption, goal_cases)
    case (1 x s')
    obtain x1 x2 where x: "x = (x1, x2)" by (cases x)
    have "x2 = din\<lparr>d_addrs := A\<rparr> \<and> grew ?F j ?Q s1 (?F j) s' \<and> x1 = at (img s') (?F j) (Ind ?k) \<and> x1 \<noteq> 0"
      using 1 unfolding x prod.case .
    then have "x2 = din\<lparr>d_addrs := A\<rparr> \<and> grew ?F j ?Q s1 A s' \<and> x1 = at (img s') A (Ind ?k) \<and> x1 \<noteq> 0"
      unfolding fun_upd_same .
    then have h: "x2 = din\<lparr>d_addrs := A\<rparr>" "grew ?F j ?Q s1 A s'" "x1 = at (img s') A (Ind ?k)" "x1 \<noteq> 0"
      by blast+
    have "grew F j (?P \<union> ?Q) s A s'" by (rule grew_trans [OF A(2) h(2)]) auto
    moreover have "card (?P \<union> ?Q) = card ?P + card ?Q" by auto
    ultimately show ?case
      unfolding x using h cd nd k(2) by (auto intro!: exI [of _ A] exI [of _ "?P \<union> ?Q"] simp del: at.simps)
  qed
qed

section \<open>Appending\<close>

text \<open>\<open>p\<close> bytes of \<open>xp\<close> have been appended to inode \<open>j\<close>, which had \<open>sz\<close> bytes in the state \<open>s\<close>.\<close>

definition appended :: "(nat \<Rightarrow> nat \<Rightarrow> u32) \<Rightarrow> nat \<Rightarrow> nat \<Rightarrow> bytes \<Rightarrow> nat \<Rightarrow> mkfs_state \<Rightarrow> (nat \<Rightarrow> u32) \<Rightarrow> mkfs_state \<Rightarrow> bool" where
  "appended F j sz xp p s A t \<longleftrightarrow> tidy (img t) (freeblock t) (F(j := A))
     \<and> (\<forall>i r. good r \<longrightarrow> (at (img t) ((F(j := A)) i) r \<noteq> 0 \<longleftrightarrow> (if i = j then r \<in> need (sz + p) else at (img s) (F i) r \<noteq> 0)))
     \<and> (\<forall>i k. k < MAXFILE * BSIZE \<longrightarrow> fbyte (img t) ((F(j := A)) i) k =
         (if i = j \<and> sz \<le> k \<and> k < sz + p then xp (k - sz) else fbyte (img s) (F i) k))
     \<and> (\<forall>b. unat b < 46 \<longrightarrow> img t b = img s b)
     \<and> unat (freeblock t) + blocks_for sz = unat (freeblock s) + blocks_for (sz + p)
     \<and> nsect t = 2000 \<and> freeinode t = freeinode s"

lemma appendedD:
  assumes "appended F j sz xp p s A t"
  shows "tidy (img t) (freeblock t) (F(j := A))"
    and "good r \<Longrightarrow> at (img t) ((F(j := A)) i) r \<noteq> 0 \<longleftrightarrow> (if i = j then r \<in> need (sz + p) else at (img s) (F i) r \<noteq> 0)"
    and "k < MAXFILE * BSIZE \<Longrightarrow> fbyte (img t) ((F(j := A)) i) k =
         (if i = j \<and> sz \<le> k \<and> k < sz + p then xp (k - sz) else fbyte (img s) (F i) k)"
    and "unat b < 46 \<Longrightarrow> img t b = img s b"
    and "unat (freeblock t) + blocks_for sz = unat (freeblock s) + blocks_for (sz + p)"
    and "nsect t = 2000" "freeinode t = freeinode s"
  using assms unfolding appended_def by blast+

lemma appended_0:
  assumes "tidy (img s) (freeblock s) F" and "\<And>r. good r \<Longrightarrow> at (img s) (F j) r \<noteq> 0 \<longleftrightarrow> r \<in> need sz" and "nsect s = 2000"
  shows "appended F j sz xp 0 s (F j) s"
  using assms by (auto simp: appended_def)

lemma blocks_for_mono: "a \<le> b \<Longrightarrow> blocks_for a \<le> blocks_for b"
  by (auto simp: blocks_for_def intro!: add_mono div_le_mono)

lemma appended_write:
  assumes a: "appended F j sz xp p s A t" and g: "grew (F(j := A)) j P t B u"
    and m: "need (sz + p + n1) = need (sz + p) \<union> P" "blocks_for (sz + p + n1) = blocks_for (sz + p) + card P"
    and n: "n = (sz + p) div 1024" "n < 267" "n1 \<le> 1024 - (sz + p) mod 1024"
    and x: "x = at (img u) B (block_pos n)" "x \<noteq> 0"
  shows "appended F j sz xp (p + n1) s B (u\<lparr>img := (img u)(x := blit (img u x) ((sz + p) mod 1024) xp p n1)\<rparr>)"
    (is "appended _ _ _ _ _ _ _ ?w")
proof -
  have ff: "(F(j := A))(j := B) = F(j := B)" by simp
  note tu = grewD(1) [OF g, unfolded ff] and pu = grewD(2) [OF g, unfolded ff] and bu = grewD(3) [OF g, unfolded ff]
  have n': "n < MAXFILE" using n(2) by simp
  have x': "x = at (img u) ((F(j := B)) j) (block_pos n)" using x(1) by simp
  have lo: "46 \<le> unat x" using tidyD(2) [OF tu good_block_pos [OF n']] x' x(2) by blast
  have fw: "freeblock ?w = freeblock u" by simp
  have im: "img ?w = (img u)(x := blit (img u x) ((sz + p) mod 1024) xp p n1)" by simp
  show ?thesis
    unfolding appended_def
  proof (intro conjI allI impI)
    show "tidy (img ?w) (freeblock ?w) (F(j := B))"
      unfolding im fw by (rule data_tidy [OF tu n' x' x(2)])
    show "at (img ?w) ((F(j := B)) i) r \<noteq> 0 \<longleftrightarrow> (if i = j then r \<in> need (sz + (p + n1)) else at (img s) (F i) r \<noteq> 0)"
      if gr: "good r" for i r
      unfolding im data_at [OF tu n' x' x(2) gr] pu [OF gr] appendedD(2) [OF a gr]
      using m(1) by (auto simp: add.assoc)
    show "fbyte (img ?w) ((F(j := B)) i) k =
        (if i = j \<and> sz \<le> k \<and> k < sz + (p + n1) then xp (k - sz) else fbyte (img s) (F i) k)"
      if k: "k < MAXFILE * BSIZE" for i k
    proof (cases "i = j \<and> k div 1024 = n")
      case True
      have kd: "k = n * 1024 + k mod 1024" "sz + p = n * 1024 + (sz + p) mod 1024"
        using True n(1) by (metis div_mult_mod_eq)+
      have f: "fbyte (img ?w) ((F(j := B)) i) k = blit (img u x) ((sz + p) mod 1024) xp p n1 (k mod 1024)"
        unfolding im data_fbyte [OF tu n' x' x(2) k] using True by simp
      show ?thesis
      proof (cases "sz + p \<le> k \<and> k < sz + p + n1")
        case in_range: True
        then have "(sz + p) mod 1024 \<le> k mod 1024 \<and> k mod 1024 < (sz + p) mod 1024 + n1
            \<and> p + (k mod 1024 - (sz + p) mod 1024) = k - sz" using kd by linarith
        then show ?thesis unfolding f using in_range True by (simp add: blit_def)
      next
        case out: False
        have "k mod 1024 < (sz + p) mod 1024 \<or> (sz + p) mod 1024 + n1 \<le> k mod 1024" using out kd by linarith
        then have "blit (img u x) ((sz + p) mod 1024) xp p n1 (k mod 1024) = img u x (k mod 1024)" by (rule blit_out)
        also have "\<dots> = fbyte (img u) ((F(j := B)) i) k" using True x x' by (simp add: fbyte_def Let_def)
        finally show ?thesis
          unfolding f using bu [OF k, of i] appendedD(3) [OF a k, of i] True out by auto
      qed
    next
      case False
      have f: "fbyte (img ?w) ((F(j := B)) i) k = fbyte (img u) ((F(j := B)) i) k"
        unfolding im data_fbyte [OF tu n' x' x(2) k] by (rule if_not_P) (use False in simp)
      have "\<not> (i = j \<and> sz + p \<le> k \<and> k < sz + p + n1)"
      proof
        assume h: "i = j \<and> sz + p \<le> k \<and> k < sz + p + n1"
        have "sz + p = n * 1024 + (sz + p) mod 1024" unfolding n(1) by simp
        then have "n * 1024 \<le> k" "k < n * 1024 + 1024" using h n(3) mod_less_divisor [of 1024 "sz + p"] by linarith+
        then have "k div 1024 = n" by (intro div_nat_eqI) auto
        then show False using False h by simp
      qed
      then show ?thesis unfolding f bu [OF k] appendedD(3) [OF a k] by auto
    qed
    show "img ?w b = img s b" if b: "unat b < 46" for b
      using lo b grewD(4) [OF g b] appendedD(4) [OF a b] by auto
    show "unat (freeblock ?w) + blocks_for sz = unat (freeblock s) + blocks_for (sz + (p + n1))"
      using grewD(5) [OF g] appendedD(5) [OF a] m(2) by (simp add: add.assoc)
  qed (use grewD(7,8) [OF g] appendedD(6,7) [OF a] in simp_all)
qed

lemma iappend_step_runs:
  assumes a: "appended F j sz xp p s A t" and d: "d_addrs din = A" and off: "unat off = sz + p"
    and n: "0 < n" "sz + p + nat n \<le> 267 * 1024"
    and cap: "unat (freeblock s) + blocks_for (sz + p + nat n) \<le> 2000 + blocks_for sz"
  shows "runs (iappend_step xp (din, p, n, off) t) (\<lambda>c t'. \<exists>n1 B. 0 < n1 \<and> n1 \<le> nat n
    \<and> c = Next (din\<lparr>d_addrs := B\<rparr>, p + n1, n - int n1, off + of_nat n1) \<and> appended F j sz xp (p + n1) s B t')"
proof -
  let ?m = "sz + p" and ?fbn = "off div 1024"
  let ?n = "?m div 1024"
  define n1 where "n1 = min (nat n) (1024 - ?m mod 1024)"
  have mm: "?m = ?n * 1024 + ?m mod 1024" "?m mod 1024 < 1024" by simp_all
  have lt: "?n < 267" using n mm by linarith
  have fbn: "unat ?fbn = ?n" by (simp add: unat_div off)
  have n1: "0 < n1" "n1 \<le> nat n" "n1 \<le> 1024 - ?m mod 1024" using n(1) mm(2) by (simp_all add: n1_def)
  have e1: "unat ((?fbn + 1) * 1024) = (?n + 1) * 1024"
    using fbn lt by (simp add: unat_word_ariths)
  have "unat ((?fbn + 1) * 1024 - off) = (?n + 1) * 1024 - ?m"
    using e1 off mm by (subst unat_sub) (simp_all add: word_le_nat_alt)
  also have "\<dots> = 1024 - ?m mod 1024"
  proof -
    have "m = q * 1024 + r \<Longrightarrow> (q + 1) * 1024 - m = 1024 - r" for m q r :: nat by simp
    from this [OF mm(1)] show ?thesis .
  qed
  finally have "uint ((?fbn + 1) * 1024 - off) = int (1024 - ?m mod 1024)" by (metis uint_nat)
  then have mn: "min n (uint ((?fbn + 1) * 1024 - off)) = int n1"
    unfolding n1_def of_nat_min using n(1) by (simp only: int_nat_eq less_imp_le if_True)
  have fb2: "unat (?fbn * 1024) = ?n * 1024" using fbn lt by (simp add: unat_word_ariths)
  have o: "unat (off - ?fbn * 1024) = ?m mod 1024"
    using fb2 off mm by (subst unat_sub) (simp_all add: word_le_nat_alt minus_div_mult_eq_mod)
  have ta: "tidy (img t) (freeblock t) (F(j := A))" and nt: "nsect t = 2000" using appendedD(1,6) [OF a] by blast+
  have pr: "at (img t) ((F(j := A)) j) r \<noteq> 0 \<longleftrightarrow> r \<in> need ?m" if "good r" for r
    using appendedD(2) [OF a that, of j] by simp
  have cp: "unat (freeblock t) + blocks_for (?m + n1) \<le> 2000 + blocks_for ?m"
    using appendedD(5) [OF a] cap blocks_for_mono [of "?m + n1" "?m + nat n"] n1(2) by linarith
  have dA: "d_addrs din = (F(j := A)) j" by (simp add: d)
  have bl: "runs (iappend_block ?fbn din t) (\<lambda>(x, din') s'. \<exists>B P. din' = din\<lparr>d_addrs := B\<rparr> \<and> grew (F(j := A)) j P t B s'
      \<and> x = at (img s') B (block_pos ?n) \<and> x \<noteq> 0 \<and> need (?m + n1) = need ?m \<union> P \<and> blocks_for (?m + n1) = blocks_for ?m + card P)"
    by (rule iappend_block_runs [OF ta dA pr fbn lt _ _ _ cp nt]) (use mm n1 in linarith)+
  have e: "iappend_step xp (din, p, n, off) t = andthen (iappend_block ?fbn din t) (\<lambda>(x, din) s.
       andthen (rsect x s) (\<lambda>buf s. Inr (Next (din, p + n1, n - int n1, off + of_nat n1),
         wsect x (blit buf (?m mod 1024) xp p n1) s)))"
    using n(1) mn o by (simp add: iappend_step_def Let_def)
  show ?thesis unfolding e
  proof (rule runs_andthen [OF bl], goal_cases)
    case (1 y u)
    obtain x din' where y: "y = (x, din')" by (cases y)
    obtain B P where h: "din' = din\<lparr>d_addrs := B\<rparr>" "grew (F(j := A)) j P t B u" "x = at (img u) B (block_pos ?n)" "x \<noteq> 0"
      "need (?m + n1) = need ?m \<union> P" "blocks_for (?m + n1) = blocks_for ?m + card P"
      using 1 unfolding y by auto
    have "?n < MAXFILE" using lt by simp
    then have "x < freeblock u" using tidyD(3) [OF grewD(1) [OF h(2)] good_block_pos, of ?n j] h(3,4) by simp
    moreover have "unat (freeblock u) \<le> 2000"
      using grewD(5) [OF h(2)] h(6) cp by linarith
    ultimately have lx: "unat x < 2000" by (simp add: word_less_nat_alt)
    have nu: "nsect u = 2000" using grewD(7) [OF h(2)] nt by simp
    have "appended F j sz xp (p + n1) s B (u\<lparr>img := (img u)(x := blit (img u x) (?m mod 1024) xp p n1)\<rparr>)"
      by (rule appended_write [OF a h(2) _ _ refl lt n1(3) h(3,4)]) (use h(5,6) in \<open>simp_all add: add.assoc\<close>)
    then show ?case
      unfolding y using lx nu n1(1,2) h(1) by (auto simp: rsect_eq wsect_eq)
  qed
qed

lemma iappend_loop_runs:
  assumes t: "tidy (img s) (freeblock s) F" and pr: "\<And>r. good r \<Longrightarrow> at (img s) (F j) r \<noteq> 0 \<longleftrightarrow> r \<in> need sz"
    and ns: "nsect s = 2000" and d: "d_addrs din = F j" and off: "unat off = sz" and n: "sz + n \<le> 267 * 1024"
    and cap: "unat (freeblock s) + blocks_for (sz + n) \<le> 2000 + blocks_for sz"
  shows "runs (loop (n + 1) (iappend_step xp) (din, 0, int n, off) s)
    (\<lambda>(din', off') t. \<exists>A. din' = din\<lparr>d_addrs := A\<rparr> \<and> unat off' = sz + n \<and> appended F j sz xp n s A t)"
proof (rule loop_runs [where I = "\<lambda>(din', p, m, off') t. p + nat m = n \<and> 0 \<le> m \<and> unat off' = sz + p
      \<and> (\<exists>A. din' = din\<lparr>d_addrs := A\<rparr> \<and> appended F j sz xp p s A t)" and f = "\<lambda>(din', p, m, off'). nat m"], goal_cases)
  case 1
  have "din = din\<lparr>d_addrs := F j\<rparr>" using d by simp
  then show ?case using appended_0 [OF t pr ns] off by auto
next
  case 2
  then show ?case by simp
next
  case (3 x t)
  obtain din' p m off' where x: "x = (din', p, m, off')" by (cases x)
  obtain A where i: "p + nat m = n" "0 \<le> m" "unat off' = sz + p" "din' = din\<lparr>d_addrs := A\<rparr>" "appended F j sz xp p s A t"
    using 3 unfolding x by auto
  show ?case
  proof (cases "0 < m")
    case False
    then have "iappend_step xp x t = Inr (Ret (din', off'), t)" by (simp add: x iappend_step_def)
    moreover have "p = n" using False i(1,2) by simp
    ultimately show ?thesis using i by auto
  next
    case True
    have b: "sz + p + nat m \<le> 267 * 1024" "unat (freeblock s) + blocks_for (sz + p + nat m) \<le> 2000 + blocks_for sz"
      using n cap i(1) by (simp_all add: add.assoc)
    have dA: "d_addrs din' = A" using i(4) by simp
    show ?thesis unfolding x
    proof (rule runs_mono [OF iappend_step_runs [OF i(5) dA i(3) True b]], goal_cases)
      case (1 c t')
      then obtain n1 B where h: "0 < n1" "n1 \<le> nat m" "c = Next (din'\<lparr>d_addrs := B\<rparr>, p + n1, m - int n1, off' + of_nat n1)"
        "appended F j sz xp (p + n1) s B t'" by blast
      have "unat (off' + of_nat n1) = sz + (p + n1)"
        using i(3) h(2) b(1) by (simp add: unat_word_ariths unat_of_nat)
      then show ?case using h i(1,2,4) by auto
    qed
  qed
qed

section \<open>The inodes of the image\<close>

text \<open>Inode \<open>j\<close> as it is on the image; the blocks 32 to 44 hold 208 of them.\<close>

definition ino :: "mkfs_state \<Rightarrow> nat \<Rightarrow> dinode" where
  "ino s j = load_dinode (img s (IBLOCK (of_nat j) mkfs_sb)) (inode_off (of_nat j))"

lemma mkfs_sb_simps [simp]:
  "sb_inodestart mkfs_sb = 32" "sb_bmapstart mkfs_sb = 45" "sb_size mkfs_sb = 2000" "sb_magic mkfs_sb = FSMAGIC"
  "sb_nlog mkfs_sb = 30" "sb_logstart mkfs_sb = 2" "sb_ninodes mkfs_sb = 200" "sb_nblocks mkfs_sb = 1954"
  by (simp_all add: mkfs_sb_def NINODES_def)

lemma IBLOCK_mkfs: "j < 208 \<Longrightarrow> unat (IBLOCK (of_nat j) mkfs_sb) = 32 + j div 16"
proof -
  assume j: "j < 208"
  then have a: "unat (of_nat j :: u32) = j" by (simp add: unat_of_nat)
  have "unat ((of_nat j :: u32) div 16) = j div 16" by (simp add: unat_div a)
  moreover have "j div 16 < 13" using j by (simp add: less_mult_imp_div_less)
  ultimately show ?thesis by (simp add: IBLOCK_def unat_word_ariths)
qed

lemma inode_off_mkfs: "j < 208 \<Longrightarrow> inode_off (of_nat j) = j mod 16 * 64"
  by (simp add: inode_off_def unat_of_nat)

text \<open>The fields of an inode on disk: thirteen addresses.\<close>

definition same_din :: "dinode \<Rightarrow> dinode \<Rightarrow> bool" where
  "same_din d e \<longleftrightarrow> d_type d = d_type e \<and> d_major d = d_major e \<and> d_minor d = d_minor e \<and> d_nlink d = d_nlink e
     \<and> d_size d = d_size e \<and> (\<forall>i<13. d_addrs d i = d_addrs e i)"

lemma same_din_load:
  assumes "\<And>i. off \<le> i \<Longrightarrow> i < off + 64 \<Longrightarrow> m i = m' i"
  shows "same_din (load_dinode m off) (load_dinode m' off)"
proof -
  have h: "ld16 m (off + k) = ld16 m' (off + k)" if "k < 12" for k
    by (rule ld16_cong) (use that in \<open>auto intro: assms\<close>)
  have w: "ld32 m (off + k) = ld32 m' (off + k)" if "k \<le> 60" for k
    by (rule ld32_cong) (use that in \<open>auto intro: assms\<close>)
  have "ld32 m (off + 12 + 4 * i) = ld32 m' (off + 12 + 4 * i)" if "i < 13" for i
    using w [of "12 + 4 * i"] that by (simp add: add.assoc)
  then show ?thesis using h [of 0] h [of 2] h [of 4] h [of 6] w [of 8] by (simp add: same_din_def load_dinode_def)
qed

lemma winode_ino:
  assumes j: "j < 208" and ns: "nsect s = 2000"
  obtains t where "winode (of_nat j) d s = Inr ((), t)" and "nsect t = 2000" "freeblock t = freeblock s" "freeinode t = freeinode s"
    and "\<And>b. \<not> (32 \<le> unat b \<and> unat b < 45) \<Longrightarrow> img t b = img s b"
    and "same_din (ino t j) d" and "\<And>i. i < 208 \<Longrightarrow> i \<noteq> j \<Longrightarrow> same_din (ino t i) (ino s i)"
proof
  let ?b = "IBLOCK (of_nat j) mkfs_sb :: u32"
  let ?t = "s\<lparr>img := (img s)(?b := store_dinode (img s ?b) (inode_off (of_nat j)) d)\<rparr>"
  have b: "unat ?b = 32 + j div 16" by (rule IBLOCK_mkfs [OF j])
  have d13: "j div 16 < 13" using j by (simp add: less_mult_imp_div_less)
  show "winode (of_nat j) d s = Inr ((), ?t)"
    using b d13 ns by (simp add: winode_def Let_def rsect_eq wsect_eq)
  show "nsect ?t = 2000" "freeblock ?t = freeblock s" "freeinode ?t = freeinode s" using ns by simp_all
  show "img ?t c = img s c" if "\<not> (32 \<le> unat c \<and> unat c < 45)" for c using that b d13 by auto
  show "same_din (ino ?t j) d" by (simp add: ino_def load_store_dinode same_din_def)
  show "same_din (ino ?t i) (ino s i)" if i: "i < 208" "i \<noteq> j" for i
  proof (cases "i div 16 = j div 16")
    case True
    then have e: "IBLOCK (of_nat i) mkfs_sb = ?b" using IBLOCK_mkfs [OF i(1)] b by (simp add: word_unat_eq_iff)
    have "i mod 16 \<noteq> j mod 16" using True i(2) by (metis div_mult_mod_eq)
    then show ?thesis
      unfolding ino_def e by (intro same_din_load) (auto simp: inode_off_mkfs i(1) j intro!: store_dinode_other)
  next
    case False
    then have "IBLOCK (of_nat i) mkfs_sb \<noteq> ?b" using IBLOCK_mkfs [OF i(1)] b by auto
    then show ?thesis by (simp add: ino_def same_din_def)
  qed
qed

text \<open>
  The image is in order: the inodes' addresses form trees apart from each other, with exactly the blocks their sizes
  need; beyond its size a file is zero; the inodes not yet given out have type 0.
\<close>

definition addrs_of :: "mkfs_state \<Rightarrow> nat \<Rightarrow> nat \<Rightarrow> u32" where
  "addrs_of s j = (if j < 208 then d_addrs (ino s j) else (\<lambda>_. 0))"

definition size_of :: "mkfs_state \<Rightarrow> nat \<Rightarrow> nat" where
  "size_of s j = (if j < 208 then unat (d_size (ino s j)) else 0)"

definition minv :: "mkfs_state \<Rightarrow> bool" where
  "minv s \<longleftrightarrow> nsect s = 2000 \<and> tidy (img s) (freeblock s) (addrs_of s)
     \<and> (\<forall>j r. good r \<longrightarrow> (at (img s) (addrs_of s j) r \<noteq> 0 \<longleftrightarrow> r \<in> need (size_of s j)))
     \<and> (\<forall>j k. size_of s j \<le> k \<longrightarrow> k < MAXFILE * BSIZE \<longrightarrow> fbyte (img s) (addrs_of s j) k = 0)
     \<and> (\<forall>j. size_of s j \<le> 267 * BSIZE)
     \<and> (\<forall>j. unat (freeinode s) \<le> j \<longrightarrow> j < 208 \<longrightarrow> d_type (ino s j) = 0)"

lemma minvD:
  assumes "minv s"
  shows "nsect s = 2000" "tidy (img s) (freeblock s) (addrs_of s)"
    and "good r \<Longrightarrow> at (img s) (addrs_of s j) r \<noteq> 0 \<longleftrightarrow> r \<in> need (size_of s j)"
    and "size_of s j \<le> k \<Longrightarrow> k < MAXFILE * BSIZE \<Longrightarrow> fbyte (img s) (addrs_of s j) k = 0"
    and "size_of s j \<le> 267 * BSIZE"
    and "unat (freeinode s) \<le> j \<Longrightarrow> j < 208 \<Longrightarrow> d_type (ino s j) = 0"
  using assms unfolding minv_def by blast+

text \<open>The abstract file system: each inode's type, number of links and contents.\<close>

definition contents :: "mkfs_state \<Rightarrow> nat \<Rightarrow> u8 list" where
  "contents s j = map (fbyte (img s) (addrs_of s j)) [0..<size_of s j]"

definition files_of :: "mkfs_state \<Rightarrow> nat \<Rightarrow> u16 \<times> u16 \<times> u8 list" where
  "files_of s j = (if j < 208 then (d_type (ino s j), d_nlink (ino s j), contents s j) else (0, 0, []))"

lemma length_contents: "length (contents s j) = size_of s j"
  by (simp add: contents_def)

lemma same_din_cong: "same_din d e \<Longrightarrow> d_type d = d_type e \<and> d_nlink d = d_nlink e \<and> d_size d = d_size e \<and> (\<forall>i<13. d_addrs d i = d_addrs e i)"
  by (simp add: same_din_def)

text \<open>Storing an inode whose tree is in order makes it that of the image.\<close>

lemma store_minv:
  assumes j: "j < 208" and ns: "nsect s = 2000" and F: "F = (addrs_of s)(j := d_addrs d)"
    and t: "tidy (img s) (freeblock s) F"
    and pr: "\<And>i r. good r \<Longrightarrow> at (img s) (F i) r \<noteq> 0 \<longleftrightarrow> r \<in> need (if i = j then unat (d_size d) else size_of s i)"
    and z: "\<And>i k. (if i = j then unat (d_size d) else size_of s i) \<le> k \<Longrightarrow> k < MAXFILE * BSIZE \<Longrightarrow> fbyte (img s) (F i) k = 0"
    and ty: "\<And>i. unat (freeinode s) \<le> i \<Longrightarrow> i < 208 \<Longrightarrow> i \<noteq> j \<and> d_type (ino s i) = 0"
    and mx: "unat (d_size d) \<le> 267 * 1024" "\<And>i. i \<noteq> j \<Longrightarrow> size_of s i \<le> 267 * 1024"
  obtains u where "winode (of_nat j) d s = Inr ((), u)" and "minv u"
    and "files_of u = (\<lambda>i. if i = j then (d_type d, d_nlink d, map (fbyte (img s) (d_addrs d)) [0..<unat (d_size d)])
      else if i < 208 then (d_type (ino s i), d_nlink (ino s i), map (fbyte (img s) (addrs_of s i)) [0..<size_of s i]) else (0, 0, []))"
    and "freeblock u = freeblock s" "freeinode u = freeinode s" "\<And>b. \<not> (32 \<le> unat b \<and> unat b < 45) \<Longrightarrow> img u b = img s b"
proof -
  obtain u where u: "winode (of_nat j) d s = Inr ((), u)" "nsect u = 2000" "freeblock u = freeblock s" "freeinode u = freeinode s"
    and im: "\<And>b. \<not> (32 \<le> unat b \<and> unat b < 45) \<Longrightarrow> img u b = img s b"
    and di: "same_din (ino u j) d" "\<And>i. i < 208 \<Longrightarrow> i \<noteq> j \<Longrightarrow> same_din (ino u i) (ino s i)"
    using winode_ino [OF j ns, of d] by blast
  have hi: "img u b = img s b" if "46 \<le> unat b" for b using im that by simp
  have ad: "addrs_of u i k = F i k" if "k < 13" for i k
    using same_din_cong [OF di(1)] same_din_cong [OF di(2), of i] that j by (auto simp: addrs_of_def F)
  have sz: "size_of u i = (if i = j then unat (d_size d) else size_of s i)" for i
    using same_din_cong [OF di(1)] same_din_cong [OF di(2), of i] j by (auto simp: size_of_def)
  have le: "size_of u i \<le> 267 * 1024" for i using mx by (simp add: sz)
  have tu: "tidy (img u) (freeblock s) (addrs_of u)" by (rule low_tidy [OF t hi ad])
  have a: "at (img u) (addrs_of u i) r = at (img s) (F i) r" if "good r" for i r
    by (rule low_at [where F = F and F' = "addrs_of u", OF t hi ad that])
  have fb: "fbyte (img u) (addrs_of u i) k = fbyte (img s) (F i) k" if "k < MAXFILE * BSIZE" for i k
    by (rule low_fbyte [where F = F and F' = "addrs_of u", OF t hi ad that])
  have "minv u"
    unfolding minv_def
  proof (intro conjI allI impI)
    show "d_type (ino u i) = 0" if "unat (freeinode u) \<le> i" "i < 208" for i
      using ty [of i] that u(4) same_din_cong [OF di(2), of i] by simp
    show "size_of u i \<le> 267 * BSIZE" for i using le [of i] by simp
  qed (use u tu a fb pr z in \<open>simp_all add: sz\<close>)
  moreover have "contents u i = map (fbyte (img s) (F i)) [0..<size_of u i]" for i
    unfolding contents_def using le [of i] fb by simp
  then have "files_of u = (\<lambda>i. if i = j then (d_type d, d_nlink d, map (fbyte (img s) (d_addrs d)) [0..<unat (d_size d)])
      else if i < 208 then (d_type (ino s i), d_nlink (ino s i), map (fbyte (img s) (addrs_of s i)) [0..<size_of s i]) else (0, 0, []))"
    using same_din_cong [OF di(1)] same_din_cong [OF di(2)] j by (auto simp: files_of_def sz F fun_eq_iff)
  ultimately show ?thesis using that u im by blast
qed

text \<open>Everything of the image but inodes and data: the boot block, the super block, the log and the free map.\<close>

definition same_meta :: "mkfs_state \<Rightarrow> mkfs_state \<Rightarrow> bool" where
  "same_meta s t \<longleftrightarrow> (\<forall>b. unat b < 32 \<or> unat b = 45 \<longrightarrow> img t b = img s b)"

lemma same_meta_trans: "same_meta s t \<Longrightarrow> same_meta t u \<Longrightarrow> same_meta s u"
  by (simp add: same_meta_def)

lemma files_of_eq:
  "files_of s = (\<lambda>i. if i < 208 then (d_type (ino s i), d_nlink (ino s i), map (fbyte (img s) (addrs_of s i)) [0..<size_of s i]) else (0, 0, []))"
  by (simp add: files_of_def contents_def fun_eq_iff)

text \<open>Appending on the abstract file system\<close>

definition append_to :: "nat \<Rightarrow> u8 list \<Rightarrow> (nat \<Rightarrow> u16 \<times> u16 \<times> u8 list) \<Rightarrow> nat \<Rightarrow> u16 \<times> u16 \<times> u8 list" where
  "append_to j xs f = f(j := (case f j of (ty, nl, c) \<Rightarrow> (ty, nl, c @ xs)))"

definition len :: "nat \<Rightarrow> mkfs_state \<Rightarrow> nat" where
  "len j s = length (snd (snd (files_of s j)))"

lemma len_size: "j < 208 \<Longrightarrow> len j s = size_of s j"
  by (simp add: len_def files_of_def length_contents)

lemma iappend_runs:
  assumes m: "minv s" and j: "j < unat (freeinode s)" "unat (freeinode s) \<le> 208" and n: "len j s + n \<le> 267 * 1024"
    and cap: "unat (freeblock s) + blocks_for (len j s + n) \<le> 2000 + blocks_for (len j s)"
  shows "runs (iappend (of_nat j) xp (int n) s) (\<lambda>_ t. minv t \<and> files_of t = append_to j (map xp [0..<n]) (files_of s)
    \<and> unat (freeblock t) + blocks_for (len j s) = unat (freeblock s) + blocks_for (len j s + n)
    \<and> freeinode t = freeinode s \<and> same_meta s t)"
proof -
  have j208: "j < 208" using j by simp
  let ?din = "ino s j" and ?sz = "size_of s j"
  have ls: "len j s = ?sz" by (rule len_size [OF j208])
  have ns: "nsect s = 2000" by (rule minvD(1) [OF m])
  have d13: "j div 16 < 13" using j208 by (simp add: less_mult_imp_div_less)
  have rin: "rinode (of_nat j) s = Inr (?din, s)"
    using IBLOCK_mkfs [OF j208] d13 ns by (simp add: rinode_def rsect_eq ino_def)
  have da: "d_addrs ?din = addrs_of s j" and off: "unat (d_size ?din) = ?sz" using j208 by (simp_all add: addrs_of_def size_of_def)
  note lp = iappend_loop_runs [OF minvD(2,3) [OF m] ns da off n [unfolded ls] cap [unfolded ls], where xp = xp]
  have e: "iappend (of_nat j) xp (int n) s =
      andthen (loop (n + 1) (iappend_step xp) (?din, 0, int n, d_size ?din) s) (\<lambda>(din, off) s. winode (of_nat j) (din\<lparr>d_size := off\<rparr>) s)"
    by (simp add: iappend_def rin)
  show ?thesis unfolding e
  proof (rule runs_andthen [OF lp], assumption, goal_cases)
    case (1 y t)
    obtain din' off' where y: "y = (din', off')" by (cases y)
    obtain A where h: "din' = ?din\<lparr>d_addrs := A\<rparr>" "unat off' = ?sz + n" "appended (addrs_of s) j ?sz xp n s A t"
      using 1 unfolding y by auto
    let ?d = "?din\<lparr>d_addrs := A, d_size := off'\<rparr>"
    have it: "ino t i = ino s i" if "i < 208" for i
    proof -
      have "unat (IBLOCK (of_nat i) mkfs_sb) < 46" using IBLOCK_mkfs [OF that] that by (simp add: less_mult_imp_div_less)
      then show ?thesis unfolding ino_def using appendedD(4) [OF h(3)] by simp
    qed
    have at': "addrs_of t = addrs_of s" and st: "size_of t = size_of s"
      by (simp_all add: addrs_of_def size_of_def it fun_eq_iff)
    have F: "(addrs_of s)(j := A) = (addrs_of t)(j := d_addrs ?d)" by (simp add: at')
    have ft: "freeinode t = freeinode s" by (rule appendedD(7) [OF h(3)])
    obtain u where u: "winode (of_nat j) ?d t = Inr ((), u)" "minv u"
      "files_of u = (\<lambda>i. if i = j then (d_type ?d, d_nlink ?d, map (fbyte (img t) (d_addrs ?d)) [0..<unat (d_size ?d)])
      else if i < 208 then (d_type (ino t i), d_nlink (ino t i), map (fbyte (img t) (addrs_of t i)) [0..<size_of t i]) else (0, 0, []))"
      "freeblock u = freeblock t" "freeinode u = freeinode t" "\<And>b. \<not> (32 \<le> unat b \<and> unat b < 45) \<Longrightarrow> img u b = img t b"
    proof (rule store_minv [OF j208 appendedD(6) [OF h(3)] F appendedD(1) [OF h(3)]], goal_cases)
      case (1 i r)
      then show ?case using appendedD(2) [OF h(3) 1(2), of i] minvD(3) [OF m 1(2), of i] by (simp add: h(2) st)
    next
      case (2 i k)
      then have k: "size_of s i \<le> k" and no: "\<not> (i = j \<and> size_of s j \<le> k \<and> k < size_of s j + n)"
        by (auto simp: h(2) st split: if_splits)
      show ?case unfolding appendedD(3) [OF h(3) 2(3), of i] if_not_P [OF no] by (rule minvD(4) [OF m k 2(3)])
    next
      case (3 i)
      then show ?case using minvD(6) [OF m, of i] j(1) by (simp add: ft it)
    next
      case 4
      then show ?case using n by (simp add: h(2) ls)
    next
      case (5 i)
      then show ?case using minvD(5) [OF m, of i] by (simp add: st)
    next
      case (6 u)
      then show ?case by blast
    qed
    have fbt: "fbyte (img t) (addrs_of s i) k = fbyte (img s) (addrs_of s i) k" if "i \<noteq> j" "k < size_of s i" for i k
      using appendedD(3) [OF h(3), of k i] minvD(5) [OF m, of i] that by simp
    have fbj: "fbyte (img t) A k = (if ?sz \<le> k \<and> k < ?sz + n then xp (k - ?sz) else fbyte (img s) (addrs_of s j) k)"
      if "k < ?sz + n" for k
      using appendedD(3) [OF h(3), of k j] that n ls by simp
    have cj: "map (fbyte (img t) A) [0..<?sz + n] = map (fbyte (img s) (addrs_of s j)) [0..<?sz] @ map xp [0..<n]"
      by (rule nth_equalityI) (auto simp: nth_append fbj)
    have "files_of u = append_to j (map xp [0..<n]) (files_of s)"
      unfolding u(3) append_to_def files_of_eq [of s]
      using j208 fbt by (auto simp: fun_eq_iff h(2) cj at' st it)
    moreover have "same_meta s u" unfolding same_meta_def
    proof (intro allI impI)
      fix b :: u32 assume "unat b < 32 \<or> unat b = 45"
      then show "img u b = img s b" using u(6) [of b] appendedD(4) [OF h(3), of b] by auto
    qed
    ultimately show ?case
      unfolding y using u appendedD(5,7) [OF h(3)] by (simp add: h(1) ls)
  qed
qed

section \<open>Making files\<close>

lemma ino_freeinode [simp]: "ino (s\<lparr>freeinode := k\<rparr>) = ino s" "addrs_of (s\<lparr>freeinode := k\<rparr>) = addrs_of s"
  "size_of (s\<lparr>freeinode := k\<rparr>) = size_of s"
  by (simp_all add: ino_def addrs_of_def size_of_def fun_eq_iff)

lemma at_no_addrs: "good r \<Longrightarrow> at v (\<lambda>_. 0) r = 0"
  by (cases r) (simp_all add: entry_def)

lemma need_0: "need 0 = {}"
  by (simp add: need_def)

lemma tidy_clear:
  assumes t: "tidy v fb F"
  shows "tidy v fb (F(j := \<lambda>_. 0))"
  unfolding tidy_def
proof (intro conjI allI impI)
  have u: "(F(j := \<lambda>_. 0)) i = F i" if "good r" "at v ((F(j := \<lambda>_. 0)) i) r \<noteq> 0" for i r
    using that at_no_addrs by (cases "i = j") auto
  show "46 \<le> unat fb" by (rule tidyD(1) [OF t])
  show "46 \<le> unat (at v ((F(j := \<lambda>_. 0)) i) p)" "at v ((F(j := \<lambda>_. 0)) i) p < fb"
    if "good p" "at v ((F(j := \<lambda>_. 0)) i) p \<noteq> 0" for i p
    using u [OF that] that tidyD(2,3) [OF t that(1)] by simp_all
  show "i = k" "p = q" if "good p" "good q" "at v ((F(j := \<lambda>_. 0)) i) p = at v ((F(j := \<lambda>_. 0)) k) q"
    "at v ((F(j := \<lambda>_. 0)) i) p \<noteq> 0" for i p k q
    using u [of p i] u [of q k] that tidyD(4) [OF t that(1,2), of i k] by simp_all
  show "v b i = 0" if "fb \<le> b" "i < BSIZE" for b i by (rule tidyD(5) [OF t that])
qed

lemma ialloc_runs:
  assumes m: "minv s" and j: "unat (freeinode s) = j" "j < 208"
  shows "runs (mkfs_ialloc typ s) (\<lambda>inum t. inum = of_nat j \<and> minv t \<and> files_of t = (files_of s)(j := (typ, 1, []))
    \<and> freeblock t = freeblock s \<and> unat (freeinode t) = j + 1 \<and> same_meta s t)"
proof -
  let ?s = "s\<lparr>freeinode := freeinode s + 1\<rparr>"
    and ?d = "\<lparr>d_type = typ, d_major = 0, d_minor = 0, d_nlink = 1, d_size = 0, d_addrs = (\<lambda>_. 0)\<rparr>"
  have fi: "freeinode s = of_nat j" using j(1) by auto
  have f1: "unat (freeinode s + 1) = j + 1" using j by (simp add: unat_word_ariths)
  have t: "tidy (img ?s) (freeblock ?s) ((addrs_of s)(j := \<lambda>_. 0))" using tidy_clear [OF minvD(2) [OF m]] by simp
  have F: "(addrs_of s)(j := \<lambda>_. 0) = (addrs_of ?s)(j := d_addrs ?d)" by simp
  obtain u where u: "winode (of_nat j) ?d ?s = Inr ((), u)" "minv u"
    "files_of u = (\<lambda>i. if i = j then (d_type ?d, d_nlink ?d, map (fbyte (img ?s) (d_addrs ?d)) [0..<unat (d_size ?d)])
      else if i < 208 then (d_type (ino ?s i), d_nlink (ino ?s i), map (fbyte (img ?s) (addrs_of ?s i)) [0..<size_of ?s i]) else (0, 0, []))"
    "freeblock u = freeblock ?s" "freeinode u = freeinode ?s" "\<And>b. \<not> (32 \<le> unat b \<and> unat b < 45) \<Longrightarrow> img u b = img ?s b"
  proof (rule store_minv [OF j(2) _ F t], goal_cases)
    case 1
    then show ?case using minvD(1) [OF m] by simp
  next
    case (2 i r)
    then show ?case using minvD(3) [OF m 2(2), of i] by (simp add: at_no_addrs [OF 2(2)] need_0)
  next
    case (3 i k)
    have "good (block_pos (k div BSIZE))" by (rule good_block_pos) (use 3 in auto)
    then have "fbyte (img s) (\<lambda>_. 0) k = 0" by (simp add: fbyte_def at_no_addrs)
    then show ?case using 3(2,3) minvD(4) [OF m, of i k] by (cases "i = j") simp_all
  next
    case (4 i)
    then show ?case using minvD(6) [OF m, of i] j by (simp add: f1)
  next
    case (6 i)
    then show ?case using minvD(5) [OF m, of i] by simp
  qed simp_all
  have "files_of u = (files_of s)(j := (typ, 1, []))"
    unfolding u(3) files_of_eq [of s] by (simp add: fun_eq_iff)
  moreover have "mkfs_ialloc typ s = Inr (of_nat j, u)" using u(1) by (simp add: mkfs_ialloc_def Let_def fi)
  ultimately show ?thesis using u f1 by (simp add: same_meta_def)
qed

lemma len_append [simp]:
  "length (snd (snd (append_to j xs f j))) = length (snd (snd (f j))) + length xs"
  by (simp add: append_to_def split: prod.split)

lemma map_string_at0: "map (string_at0 c) [0..<length c] = c"
  by (rule nth_equalityI) (simp_all add: string_at0_def)

lemma append_to_append: "append_to j ys (append_to j xs f) = append_to j (xs @ ys) f"
  by (auto simp: append_to_def fun_eq_iff split: prod.split)

lemma append_to_Nil: "append_to j [] f = f"
  by (auto simp: append_to_def fun_eq_iff split: prod.split)

lemma append_pieces_runs:
  assumes "minv s" and "j < unat (freeinode s)" and "unat (freeinode s) \<le> 208" and "len j s + length (concat cs) \<le> 267 * 1024"
    and "unat (freeblock s) + blocks_for (len j s + length (concat cs)) \<le> 2000 + blocks_for (len j s)"
  shows "runs (append_pieces (of_nat j) cs s) (\<lambda>_ t. minv t \<and> files_of t = append_to j (concat cs) (files_of s)
    \<and> unat (freeblock t) + blocks_for (len j s) = unat (freeblock s) + blocks_for (len j s + length (concat cs))
    \<and> freeinode t = freeinode s \<and> same_meta s t)"
  using assms
proof (induction cs arbitrary: s)
  case Nil
  then show ?case by (simp add: append_to_Nil same_meta_def)
next
  case (Cons c cs)
  let ?l = "len j s" and ?n = "length (concat cs)"
  have a: "?l + length c \<le> 267 * 1024" "unat (freeblock s) + blocks_for (?l + length c) \<le> 2000 + blocks_for ?l"
    using Cons.prems(4,5) blocks_for_mono [of "?l + length c" "?l + length (concat (c # cs))"] by auto
  show ?case unfolding append_pieces.simps
  proof (rule runs_andthen [OF iappend_runs [OF Cons.prems(1-3) a]], goal_cases)
    case (1 x t)
    then have t: "minv t" "files_of t = append_to j c (files_of s)"
      "unat (freeblock t) + blocks_for ?l = unat (freeblock s) + blocks_for (?l + length c)" "freeinode t = freeinode s" "same_meta s t"
      by (simp_all add: map_string_at0)
    have l: "len j t = ?l + length c" by (simp add: len_def t(2))
    show ?case
    proof (rule runs_mono [OF Cons.IH [OF t(1)]], goal_cases)
      case (5 y u)
      then show ?case using t l by (simp add: append_to_append add.assoc) (blast intro: same_meta_trans)
    qed (use Cons.prems t l in \<open>simp_all add: add.assoc\<close>)
  qed
qed

text \<open>The sixteen bytes of a directory entry\<close>

definition dirent_bytes :: "nat \<Rightarrow> u8 list \<Rightarrow> u8 list" where
  "dirent_bytes inum nm = [of_nat inum, of_nat (inum div 256)] @ take DIRSIZ (nm @ replicate DIRSIZ 0)"

lemma length_dirent_bytes [simp]: "length (dirent_bytes k nm) = 16"
  by (simp add: dirent_bytes_def)

lemma cstr_string: "0 \<notin> set nm \<Longrightarrow> cstr (string_at0 nm) 0 n = take n nm"
  by (rule cstr_eqI) (auto simp: string_at0_def, metis nth_mem)

lemma dirent_of_bytes:
  assumes k: "k < 256" and nm: "0 \<notin> set nm"
  shows "map (dirent_of (of_nat k) nm) [0..<16] = dirent_bytes k nm"
proof (rule nth_equalityI)
  fix i
  assume "i < length (map (dirent_of (of_nat k) nm) [0..<16])"
  then have i: "i < 16" by simp
  have c: "length (cstr (string_at0 nm) 0 (nat (int DIRSIZ))) = min 14 (length nm)" by (simp add: cstr_string [OF nm])
  have u: "unat (of_nat k :: u16) = k" "unat (of_nat k :: u32) = k" using k by (simp_all add: unat_of_nat)
  have a: "ucast (ucast (of_nat k :: u32) :: u16) = (of_nat k :: u16)"
    using k by (simp add: word_unat_eq_iff unsigned_ucast_eq take_bit_eq_mod unat_of_nat)
  have k16: "(ucast (of_nat k :: u32) :: u16) = of_nat k"
    using k by (simp add: word_unat_eq_iff unsigned_ucast_eq take_bit_eq_mod unat_of_nat)
  have lo: "(ucast (of_nat k :: u16) :: u8) = of_nat k"
    using k by (simp add: word_unat_eq_iff unsigned_ucast_eq take_bit_eq_mod unat_of_nat)
  have "drop_bit 8 (of_nat k :: u16) = 0"
    using k u(1) by (simp add: word_unat_eq_iff unat_drop_bit_eq) (simp add: drop_bit_eq_div)
  then have hi: "(ucast (drop_bit 8 (of_nat k :: u16)) :: u8) = of_nat (k div 256)" using k by simp
  consider "i = 0" | "i = 1" | "2 \<le> i" by linarith
  then show "map (dirent_of (of_nat k) nm) [0..<16] ! i = dirent_bytes k nm ! i"
  proof cases
    case 3
    have "i - 2 < 14" using 3 i by simp
    then have "dirent_of (of_nat k) nm i = (if i - 2 < length nm then nm ! (i - 2) else 0)"
      unfolding dirent_of_def strncpy_eq c using 3 i by (simp add: string_at0_def)
    moreover have "dirent_bytes k nm ! i = (if i - 2 < length nm then nm ! (i - 2) else 0)"
    proof -
      obtain q where q: "i = Suc (Suc q)" using 3 by (metis add_2_eq_Suc le_Suc_ex)
      then show ?thesis using i by (simp add: dirent_bytes_def nth_append)
    qed
    ultimately show ?thesis using i by simp
  qed (use i lo hi in \<open>simp_all add: dirent_of_def strncpy_eq st16_def dirent_bytes_def k16\<close>)
qed (simp)

definition name_of :: "u8 list \<Rightarrow> u8 list" where
  "name_of arg = skip_underscore (short_name arg)"

text \<open>An argument \<^verbatim>\<open>mkfs\<close> can take: it opens, and fits into a file with one indirect block.\<close>

fun good_arg :: "u8 list \<times> u8 list list option \<Rightarrow> bool" where
  "good_arg (arg, file) \<longleftrightarrow> file \<noteq> None \<and> slash \<notin> set (short_name arg) \<and> 0 \<notin> set arg
     \<and> length (concat (the file)) \<le> 267 * BSIZE"

fun file_of :: "u8 list \<times> u8 list list option \<Rightarrow> u8 list" where
  "file_of (arg, file) = concat (the file)"

fun dir_entries :: "nat \<Rightarrow> (u8 list \<times> u8 list list option) list \<Rightarrow> u8 list" where
  "dir_entries k [] = []"
| "dir_entries k (f # fs) = dirent_bytes k (name_of (fst f)) @ dir_entries (k + 1) fs"

lemma length_dir_entries [simp]: "length (dir_entries k fs) = 16 * length fs"
  by (induction fs arbitrary: k) auto

lemma no_nul_name: "0 \<notin> set arg \<Longrightarrow> 0 \<notin> set (name_of arg)"
proof -
  have t: "x \<in> set xs" if "x \<in> set (tl xs)" for x :: u8 and xs using that by (cases xs) auto
  assume "0 \<notin> set arg"
  then show ?thesis
    using t [of 0 arg] t [of 0 "drop 5 arg"] in_set_dropD [of 0 5 arg]
    by (auto simp: name_of_def skip_underscore_def short_name_def)
qed

lemma blocks_for_0 [simp]: "blocks_for 0 = 0"
  by (simp add: blocks_for_def)

text \<open>The entry of one file: the root directory and the new inode.\<close>

lemma add_file_runs:
  assumes m: "minv s" and k: "unat (freeinode s) = k" "2 \<le> k" "k < 200" and g: "good_arg f" and l: "len 1 s = l" "l + 16 \<le> 267 * 1024"
    and cap: "unat (freeblock s) + blocks_for (l + 16) + blocks_for (length (file_of f)) \<le> 2000 + blocks_for l"
  shows "runs (add_file 1 f s) (\<lambda>_ t. minv t
    \<and> files_of t = (append_to 1 (dirent_bytes k (name_of (fst f))) (files_of s))(k := (T_FILE, 1, file_of f))
    \<and> unat (freeblock t) + blocks_for l = unat (freeblock s) + blocks_for (l + 16) + blocks_for (length (file_of f))
    \<and> unat (freeinode t) = k + 1 \<and> same_meta s t)"
proof -
  obtain arg cs where f: "f = (arg, Some cs)" and a: "slash \<notin> set (short_name arg)" "0 \<notin> set arg" "length (concat cs) \<le> 267 * 1024"
    using g by (cases f) auto
  have k208: "k < 208" using k by simp
  have nk: "k \<noteq> 1" using k by simp
  let ?de = "dirent_of (of_nat k) (name_of arg)"
  have de: "map ?de [0..<16] = dirent_bytes k (name_of arg)"
    by (rule dirent_of_bytes [OF _ no_nul_name [OF a(2)]]) (use k in simp)
  have e: "add_file 1 f s = andthen (mkfs_ialloc T_FILE s) (\<lambda>inum s.
       andthen (iappend 1 (dirent_of inum (name_of arg)) 16 s) (\<lambda>_ s. append_pieces inum cs s))"
    using a(1) by (simp add: add_file_def f name_of_def Let_def)
  show ?thesis unfolding e
  proof (rule runs_andthen [OF ialloc_runs [OF m k(1) k208]], goal_cases)
    case (1 inum s1)
    then have p: "inum = of_nat k" "minv s1" "files_of s1 = (files_of s)(k := (T_FILE, 1, []))" "freeblock s1 = freeblock s"
      "unat (freeinode s1) = k + 1" "same_meta s s1" by blast+
    have l1: "len 1 s1 = l" using l(1) nk by (simp add: len_def p(3))
    have o: "1 < unat (freeinode s1)" "unat (freeinode s1) \<le> 208" "len 1 s1 + 16 \<le> 267 * 1024"
      "unat (freeblock s1) + blocks_for (len 1 s1 + 16) \<le> 2000 + blocks_for (len 1 s1)"
      using k p(4,5) l1 l(2) cap by simp_all
    have ia: "runs (iappend 1 ?de 16 s1) (\<lambda>_ t. minv t \<and> files_of t = append_to 1 (dirent_bytes k (name_of arg)) (files_of s1)
      \<and> unat (freeblock t) + blocks_for l = unat (freeblock s) + blocks_for (l + 16) \<and> freeinode t = freeinode s1 \<and> same_meta s1 t)"
      using iappend_runs [OF p(2) o, of ?de] de l1 p(4) by simp
    show ?case unfolding p(1)
    proof (rule runs_andthen [OF ia], goal_cases)
      case (1 y s2)
      then have q: "minv s2" "files_of s2 = append_to 1 (dirent_bytes k (name_of arg)) (files_of s1)"
        "unat (freeblock s2) + blocks_for l = unat (freeblock s) + blocks_for (l + 16)" "freeinode s2 = freeinode s1" "same_meta s1 s2"
        by blast+
      have fk: "files_of s2 k = (T_FILE, 1, [])" using nk by (simp add: q(2) append_to_def p(3))
      then have l2: "len k s2 = 0" by (simp add: len_def)
      have ap: "append_to k xs (files_of s2) = (append_to 1 (dirent_bytes k (name_of arg)) (files_of s))(k := (T_FILE, 1, xs))" for xs
        using nk fk by (simp add: append_to_def [of k] q(2)) (simp add: append_to_def p(3) fun_eq_iff)
      have c: "unat (freeblock s2) + blocks_for (length (concat cs)) \<le> 2000"
        using q(3) cap by (simp add: f)
      have mt: "same_meta s s2" by (rule same_meta_trans [OF p(6) q(5)])
      show ?case
      proof (rule runs_mono [OF append_pieces_runs [OF q(1), of k cs]], goal_cases)
        case (5 z t)
        then show ?case using ap l2 q(3,4) p(5) mt by (simp add: f) (blast intro: same_meta_trans)
      qed (use k p(5) q(4) l2 a(3) c in simp_all)
    qed
  qed
qed

definition files_blocks :: "(u8 list \<times> u8 list list option) list \<Rightarrow> nat" where
  "files_blocks fs = sum_list (map (\<lambda>f. blocks_for (length (file_of f))) fs)"

text \<open>What the files make of an abstract file system whose next free inode is \<open>k\<close>\<close>

fun with_files :: "nat \<Rightarrow> (u8 list \<times> u8 list list option) list \<Rightarrow> (nat \<Rightarrow> u16 \<times> u16 \<times> u8 list) \<Rightarrow> nat \<Rightarrow> u16 \<times> u16 \<times> u8 list" where
  "with_files k [] a = a"
| "with_files k (f # fs) a = with_files (k + 1) fs ((append_to 1 (dirent_bytes k (name_of (fst f))) a)(k := (T_FILE, 1, file_of f)))"

lemma with_files_eq:
  assumes "2 \<le> k"
  shows "with_files k fs a = (\<lambda>i. if i = 1 then append_to 1 (dir_entries k fs) a 1
    else if k \<le> i \<and> i < k + length fs then (T_FILE, 1, file_of (fs ! (i - k))) else a i)"
  using assms
proof (induction fs arbitrary: k a)
  case Nil
  then show ?case by (auto simp: append_to_Nil fun_eq_iff)
next
  case (Cons f fs)
  have n: "i - k = Suc (i - Suc k)" if "Suc k \<le> i" for i using that by simp
  have e: "append_to 1 ys ((append_to 1 xs a)(k := z)) 1 = append_to 1 (xs @ ys) a 1" for xs ys z
    using Cons.prems by (simp add: append_to_def split: prod.split)
  show ?case
  proof (rule ext)
    fix i
    show "with_files k (f # fs) a i = (if i = 1 then append_to 1 (dir_entries k (f # fs)) a 1
      else if k \<le> i \<and> i < k + length (f # fs) then (T_FILE, 1, file_of ((f # fs) ! (i - k))) else a i)"
    proof (cases "i = 1")
      case True
      then show ?thesis using Cons.prems e by (simp add: Cons.IH)
    next
      case False
      then have "append_to 1 (dirent_bytes k (name_of (fst f))) a i = a i" by (simp add: append_to_def)
      then show ?thesis using Cons.prems False n by (auto simp: Cons.IH)
    qed
  qed
qed

lemma add_files_runs:
  assumes "minv s" and "unat (freeinode s) = k" and "2 \<le> k" and "k + length fs \<le> 200" and "\<forall>f\<in>set fs. good_arg f"
    and "len 1 s = l" and "l + 16 * length fs \<le> 267 * 1024"
    and "unat (freeblock s) + blocks_for (l + 16 * length fs) + files_blocks fs \<le> 2000 + blocks_for l"
  shows "runs (add_files 1 fs s) (\<lambda>_ t. minv t \<and> files_of t = with_files k fs (files_of s)
    \<and> unat (freeblock t) + blocks_for l = unat (freeblock s) + blocks_for (l + 16 * length fs) + files_blocks fs
    \<and> unat (freeinode t) = k + length fs \<and> same_meta s t)"
  using assms
proof (induction fs arbitrary: s k l)
  case Nil
  then show ?case by (simp add: files_blocks_def same_meta_def)
next
  case (Cons f fs)
  have mono: "blocks_for (l + 16) \<le> blocks_for (l + 16 * length (f # fs))" by (rule blocks_for_mono) simp
  have bl: "files_blocks (f # fs) = blocks_for (length (file_of f)) + files_blocks fs" by (simp add: files_blocks_def)
  have h: "k < 200" "l + 16 \<le> 267 * 1024" "good_arg f"
    "unat (freeblock s) + blocks_for (l + 16) + blocks_for (length (file_of f)) \<le> 2000 + blocks_for l"
    using Cons.prems mono bl by simp_all
  show ?case unfolding add_files.simps
  proof (rule runs_andthen [OF add_file_runs [OF Cons.prems(1-3) h(1,3) Cons.prems(6) h(2,4)]], goal_cases)
    case (1 x t)
    let ?a = "(append_to 1 (dirent_bytes k (name_of (fst f))) (files_of s))(k := (T_FILE, 1, file_of f))"
    have t: "minv t" "files_of t = ?a" "unat (freeinode t) = k + 1" "same_meta s t"
      "unat (freeblock t) + blocks_for l = unat (freeblock s) + blocks_for (l + 16) + blocks_for (length (file_of f))"
      using 1 by blast+
    have lt: "len 1 t = l + 16" using Cons.prems(3,6) by (simp add: len_def t(2))
    have ll: "l + 16 * length (f # fs) = l + 16 + 16 * length fs" by simp
    show ?case
    proof (rule runs_mono [OF Cons.IH [OF t(1,3) _ _ _ lt]], goal_cases)
      case (6 y u)
      have "files_of u = with_files (k + 1) fs (files_of t)" using 6 by blast
      then have "files_of u = with_files k (f # fs) (files_of s)" by (simp only: with_files.simps t(2))
      then show ?case using 6 t(4,5) bl unfolding ll by (auto intro: same_meta_trans)
    qed (use Cons.prems t(5) bl ll in \<open>simp_all add: add.assoc\<close>)
  qed
qed

section \<open>The image\<close>

lemma zero_sectors_upt:
  "nsect s = k \<Longrightarrow> k + m \<le> 2000 \<Longrightarrow> img s = (\<lambda>_ _. 0) \<Longrightarrow> zero_sectors [k..<k + m] s = s\<lparr>nsect := k + m\<rparr>"
proof (induction m arbitrary: k s)
  case 0
  then show ?case by simp
next
  case (Suc m)
  have u: "unat (of_nat k :: u32) = k" using Suc.prems(2) by (simp add: unat_of_nat)
  have "wsect (of_nat k) (\<lambda>_. 0) s = s\<lparr>nsect := k + 1\<rparr>"
  proof -
    have "s\<lparr>img := (img s)(of_nat k := \<lambda>_. 0)\<rparr> = s" using Suc.prems(3) by (simp add: fun_upd_idem)
    moreover have "wsect (of_nat k) (\<lambda>_. 0) s = (s\<lparr>img := (img s)(of_nat k := \<lambda>_. 0)\<rparr>)\<lparr>nsect := k + 1\<rparr>"
      using Suc.prems u by (simp add: wsect_def sector_id max_def)
    ultimately show ?thesis by simp
  qed
  moreover have "[k..<k + Suc m] = k # [k + 1..<k + 1 + m]" by (simp add: upt_rec)
  ultimately show ?case using Suc.IH [of "s\<lparr>nsect := k + 1\<rparr>" "k + 1"] Suc.prems by simp
qed

lemma used_bits_free: "bit_free (used_bits is buf) bi \<longleftrightarrow> bi \<notin> set is \<and> bit_free buf bi"
proof (induction "is" arbitrary: buf)
  case (Cons i js)
  have "used_bits (i # js) buf = used_bits js (set_bit_used i buf)" by (simp add: set_bit_used_def)
  then show ?case by (simp only: Cons bit_free_set) auto
qed simp

text \<open>The super block as the kernel reads it\<close>

definition load_sb :: "bytes \<Rightarrow> superblock" where
  "load_sb d = \<lparr>sb_magic = ld32 d 0, sb_size = ld32 d 4, sb_nblocks = ld32 d 8, sb_ninodes = ld32 d 12, sb_nlog = ld32 d 16,
     sb_logstart = ld32 d 20, sb_inodestart = ld32 d 24, sb_bmapstart = ld32 d 28\<rparr>"

lemma load_store_sb: "load_sb (store_sb m b) = b"
  by (simp add: load_sb_def store_sb_def ld32_st32 ld32_st32_other)

definition empty_image :: mkfs_state where
  "empty_image = \<lparr>img = (\<lambda>_ _. 0)(1 := store_sb (\<lambda>_. 0) mkfs_sb), nsect = 2000, freeinode = 1, freeblock = 46\<rparr>"

lemma empty_ino: "j < 208 \<Longrightarrow> d_type (ino empty_image j) = 0 \<and> d_size (ino empty_image j) = 0 \<and> d_addrs (ino empty_image j) = (\<lambda>_. 0)"
proof -
  assume j: "j < 208"
  then have "IBLOCK (of_nat j) mkfs_sb \<noteq> 1" using IBLOCK_mkfs [OF j] by auto
  then show ?thesis by (simp add: ino_def empty_image_def load_dinode_def ld16_def ld32_def)
qed

lemma empty_addrs: "addrs_of empty_image j = (\<lambda>_. 0)" and empty_size: "size_of empty_image j = 0"
  using empty_ino [of j] by (simp_all add: addrs_of_def size_of_def)

lemma empty_minv: "minv empty_image"
proof -
  have "tidy (img empty_image) (freeblock empty_image) (addrs_of empty_image)"
    unfolding tidy_def by (simp add: empty_addrs at_no_addrs) (auto simp: empty_image_def word_le_nat_alt)
  moreover have "fbyte (img empty_image) (\<lambda>_. 0) k = 0" if "k < MAXFILE * BSIZE" for k
  proof -
    have "good (block_pos (k div BSIZE))" by (rule good_block_pos) (use that in auto)
    then show ?thesis by (simp add: fbyte_def at_no_addrs)
  qed
  ultimately show ?thesis
    using empty_ino by (simp add: minv_def empty_addrs empty_size need_0 at_no_addrs) (simp add: empty_image_def)
qed

lemma mkfs_start: "wsect 1 (store_sb (\<lambda>_. 0) mkfs_sb)
    (zero_sectors [0..<FSSIZE] \<lparr>img = (\<lambda>_ _. 0), nsect = 0, freeinode = 1, freeblock = of_nat nmeta\<rparr>) = empty_image"
  using zero_sectors_upt [of "\<lparr>img = (\<lambda>_ _. 0), nsect = 0, freeinode = 1, freeblock = 46\<rparr>" 0 2000]
  by (simp add: wsect_def sector_id empty_image_def del: upt_Suc)

text \<open>
  The last two steps give the root directory a size of whole blocks, filled with empty entries, and mark the blocks
  up to the first free one as used.
\<close>

definition pad_block :: "u8 list \<Rightarrow> u8 list" where
  "pad_block xs = xs @ replicate ((length xs div BSIZE + 1) * BSIZE - length xs) 0"

lemma finish_runs:
  assumes m: "minv t" and l: "len 1 t \<le> 4000" and fb: "unat (freeblock t) \<le> 2000"
  shows "runs (andthen (fix_root_size 1 t) (\<lambda>_ s. mkfs_balloc (unat (freeblock s)) s)) (\<lambda>_ w.
      tidy (img w) (freeblock w) (addrs_of w) \<and> freeblock w = freeblock t \<and> freeinode w = freeinode t
      \<and> files_of w = (files_of t)(1 := (case files_of t 1 of (ty, nl, c) \<Rightarrow> (ty, nl, pad_block c)))
      \<and> (\<forall>j r. good r \<longrightarrow> at (img w) (addrs_of w j) r = at (img t) (addrs_of t j) r)
      \<and> (\<forall>j. j \<noteq> 1 \<longrightarrow> size_of w j = size_of t j)
      \<and> (\<forall>b. unat b < 32 \<longrightarrow> img w b = img t b) \<and> img w 45 = used_bits [0..<unat (freeblock t)] (\<lambda>_. 0))"
proof -
  let ?sz = "size_of t 1" and ?d = "ino t 1"
  let ?off = "(d_size ?d div 1024 + 1) * 1024"
  have sz: "unat (d_size ?d) = ?sz" "?sz \<le> 4000" using l by (simp_all add: size_of_def len_size)
  have "unat (d_size ?d div 1024) = ?sz div 1024" by (simp add: unat_div sz del: One_nat_def)
  moreover have "?sz div 1024 \<le> 3" using sz(2) div_le_mono [of ?sz 4000 1024] by simp
  ultimately have o: "unat ?off = (?sz div 1024 + 1) * 1024" by (simp add: unat_word_ariths)
  have ns: "nsect t = 2000" by (rule minvD(1) [OF m])
  have "unat (IBLOCK 1 mkfs_sb) < 2000" using IBLOCK_mkfs [of 1] by simp
  then have rin: "rinode 1 t = Inr (?d, t)" using ns by (simp add: rinode_def rsect_eq ino_def)
  obtain u where u: "winode (of_nat 1) (?d\<lparr>d_size := ?off\<rparr>) t = Inr ((), u)" "nsect u = 2000" "freeblock u = freeblock t"
      "freeinode u = freeinode t"
    and im: "\<And>b. \<not> (32 \<le> unat b \<and> unat b < 45) \<Longrightarrow> img u b = img t b"
    and di: "same_din (ino u 1) (?d\<lparr>d_size := ?off\<rparr>)" "\<And>i. i < 208 \<Longrightarrow> i \<noteq> 1 \<Longrightarrow> same_din (ino u i) (ino t i)"
    using winode_ino [of 1 t "?d\<lparr>d_size := ?off\<rparr>"] ns by auto
  let ?w = "u\<lparr>img := (img u)(45 := used_bits [0..<unat (freeblock t)] (\<lambda>_. 0))\<rparr>"
  have bal: "mkfs_balloc (unat (freeblock u)) u = Inr ((), ?w)"
    using fb u(2,3) by (simp add: mkfs_balloc_def wsect_eq del: upt_Suc)
  have e: "andthen (fix_root_size 1 t) (\<lambda>_ s. mkfs_balloc (unat (freeblock s)) s) = Inr ((), ?w)"
    using u(1) bal by (simp add: fix_root_size_def rin Let_def)
  have iw: "ino ?w i = ino u i" if "i < 208" for i
  proof -
    have "unat (IBLOCK (of_nat i) mkfs_sb) < 45" using IBLOCK_mkfs [OF that] that by (simp add: less_mult_imp_div_less)
    then have "IBLOCK (of_nat i) mkfs_sb \<noteq> 45" by auto
    then show ?thesis by (simp add: ino_def)
  qed
  have d1: "d_type (ino u 1) = d_type ?d" "d_nlink (ino u 1) = d_nlink ?d" "d_size (ino u 1) = ?off"
    "\<And>k. k < 13 \<Longrightarrow> d_addrs (ino u 1) k = d_addrs ?d k"
    using same_din_cong [OF di(1)] by simp_all
  have ad: "addrs_of ?w i k = addrs_of t i k" if "k < 13" for i k
    using d1(4) [OF that] same_din_cong [OF di(2), of i] that iw [of i] by (cases "i = 1") (auto simp: addrs_of_def)
  have hi: "img ?w b = img t b" if "46 \<le> unat b" for b using im that by auto
  have tw: "tidy (img ?w) (freeblock t) (addrs_of ?w)" by (rule low_tidy [OF minvD(2) [OF m] hi ad])
  have a: "at (img ?w) (addrs_of ?w i) r = at (img t) (addrs_of t i) r" if "good r" for i r
    by (rule low_at [where F = "addrs_of t" and F' = "addrs_of ?w", OF minvD(2) [OF m] hi ad that])
  have fbt: "fbyte (img ?w) (addrs_of ?w i) k = fbyte (img t) (addrs_of t i) k" if "k < MAXFILE * BSIZE" for i k
    by (rule low_fbyte [where F = "addrs_of t" and F' = "addrs_of ?w", OF minvD(2) [OF m] hi ad that])
  have s1: "size_of ?w 1 = (?sz div 1024 + 1) * 1024" using iw [of 1] d1(3) o by (simp add: size_of_def)
  have so: "size_of ?w i = size_of t i" if "i \<noteq> 1" for i
    using iw [of i] same_din_cong [OF di(2), of i] that by (simp add: size_of_def)
  have co: "contents ?w i = contents t i" if "i \<noteq> 1" for i
    unfolding contents_def so [OF that] using fbt minvD(5) [OF m, of i] by simp
  have c1: "contents ?w 1 = pad_block (contents t 1)"
  proof (rule nth_equalityI)
    have "q * 1024 + r = m \<Longrightarrow> r < 1024 \<Longrightarrow> m \<le> (q + 1) * 1024" for q r m :: nat by simp
    from this [OF div_mult_mod_eq mod_less_divisor] have "?sz \<le> (?sz div 1024 + 1) * 1024" by simp
    then show ln: "length (contents ?w 1) = length (pad_block (contents t 1))"
      using s1 by (simp add: length_contents pad_block_def)
    fix k assume "k < length (contents ?w 1)"
    then have k: "k < (?sz div 1024 + 1) * 1024" by (simp only: length_contents s1)
    have "k < MAXFILE * BSIZE" using k \<open>?sz div 1024 \<le> 3\<close> by simp
    then show "contents ?w 1 ! k = pad_block (contents t 1) ! k"
      using k s1 fbt [of k 1] minvD(4) [OF m, of 1 k]
      by (simp add: contents_def pad_block_def nth_append)
  qed
  have "files_of ?w = (files_of t)(1 := (case files_of t 1 of (ty, nl, c) \<Rightarrow> (ty, nl, pad_block c)))"
  proof (rule ext)
    fix i
    show "files_of ?w i = ((files_of t)(1 := (case files_of t 1 of (ty, nl, c) \<Rightarrow> (ty, nl, pad_block c)))) i"
      using iw [of i] d1(1,2) same_din_cong [OF di(2), of i] co [of i] c1 by (cases "i = 1") (simp_all add: files_of_def)
  qed
  moreover have "img ?w b = img t b" if "unat b < 32" for b using im [of b] that by auto
  ultimately show ?thesis unfolding e using tw a so u(3,4) by simp
qed

text \<open>The arguments fit on the disk.\<close>

definition fits :: "(u8 list \<times> u8 list list option) list \<Rightarrow> bool" where
  "fits fs \<longleftrightarrow> length fs \<le> 198 \<and> (\<forall>f\<in>set fs. good_arg f)
     \<and> nmeta + blocks_for (dirent_size * (2 + length fs)) + files_blocks fs \<le> FSSIZE"

definition root_dir :: "(u8 list \<times> u8 list list option) list \<Rightarrow> u8 list" where
  "root_dir fs = dirent_bytes 1 dot @ dirent_bytes 1 dotdot @ dir_entries 2 fs"

definition mkfs_files :: "(u8 list \<times> u8 list list option) list \<Rightarrow> nat \<Rightarrow> u16 \<times> u16 \<times> u8 list" where
  "mkfs_files fs i = (if i = 1 then (T_DIR, 1, pad_block (root_dir fs))
     else if 2 \<le> i \<and> i < 2 + length fs then (T_FILE, 1, file_of (fs ! (i - 2))) else (0, 0, []))"

lemma empty_nlink: "files_of empty_image = (\<lambda>_. (0, 0, []))"
proof (rule ext)
  fix j
  show "files_of empty_image j = (0, 0, [])"
  proof (cases "j < 208")
    case True
    then have "IBLOCK (of_nat j) mkfs_sb \<noteq> 1" using IBLOCK_mkfs [OF True] by auto
    then have "d_nlink (ino empty_image j) = 0" by (simp add: ino_def empty_image_def load_dinode_def ld16_def)
    then show ?thesis using True empty_ino [OF True] by (simp add: files_of_def contents_def empty_size)
  qed (simp add: files_of_def)
qed

lemma mkfs_main_runs:
  assumes f: "fits fs"
  shows "runs (mkfs_main fs) (\<lambda>_ w. tidy (img w) (freeblock w) (addrs_of w) \<and> files_of w = mkfs_files fs
    \<and> unat (freeblock w) = nmeta + blocks_for (dirent_size * (2 + length fs)) + files_blocks fs
    \<and> unat (freeinode w) = 2 + length fs
    \<and> (\<forall>j k. j \<noteq> 1 \<longrightarrow> k * BSIZE < size_of w j \<longrightarrow> at (img w) (addrs_of w j) (block_pos k) \<noteq> 0)
    \<and> img w 1 = store_sb (\<lambda>_. 0) mkfs_sb \<and> (\<forall>b. unat b < 32 \<longrightarrow> b \<noteq> 1 \<longrightarrow> img w b = (\<lambda>_. 0))
    \<and> img w 45 = used_bits [0..<unat (freeblock w)] (\<lambda>_. 0))"
proof -
  have fi: "length fs \<le> 198" "\<forall>f\<in>set fs. good_arg f" "46 + blocks_for (16 * (2 + length fs)) + files_blocks fs \<le> 2000"
    using f by (simp_all add: fits_def)
  have b: "blocks_for n = 1" if "0 < n" "n \<le> 32" for n
    using that div_nat_eqI [of 1024 1 "n + 1023"] by (simp add: blocks_for_def)
  have e0: "unat (freeinode empty_image) = 1" "freeblock empty_image = 46" by (simp_all add: empty_image_def)
  have d: "0 \<notin> set dot" "0 \<notin> set dotdot" by (simp_all add: dot_def dotdot_def)
  have de: "map (dirent_of 1 dot) [0..<16] = dirent_bytes 1 dot" "map (dirent_of 1 dotdot) [0..<16] = dirent_bytes 1 dotdot"
    using dirent_of_bytes [of 1, OF _ d(1)] dirent_of_bytes [of 1, OF _ d(2)] by simp_all
  show ?thesis
    unfolding mkfs_main_def Let_def mkfs_start
  proof (rule runs_andthen [OF ialloc_runs [OF empty_minv e0(1)]], simp, goal_cases)
    case (1 inum s1)
    then have i1: "inum = 1" and s1: "minv s1" "files_of s1 = (\<lambda>_. (0, 0, []))(1 := (T_DIR, 1, []))" "unat (freeblock s1) = 46"
      "unat (freeinode s1) = 2" "same_meta empty_image s1" using e0(2) by (simp_all add: empty_nlink)
    have l1: "len 1 s1 = 0" by (simp add: len_def s1(2))
    have r2: "runs (iappend 1 (dirent_of 1 dot) 16 s1) (\<lambda>_ t. minv t \<and> files_of t = append_to 1 (dirent_bytes 1 dot) (files_of s1)
        \<and> unat (freeblock t) = 47 \<and> freeinode t = freeinode s1 \<and> same_meta s1 t)"
      using iappend_runs [OF s1(1), of 1 16 "dirent_of 1 dot"] s1(3,4) l1 de b [of 16] by simp
    have rt: "inum = ROOTINO" by (simp add: i1 ROOTINO_def)
    show ?case unfolding rt
    proof (simp add: ROOTINO_def, rule runs_andthen [OF r2], goal_cases)
      case (1 x s2)
      then have s2: "minv s2" "files_of s2 = append_to 1 (dirent_bytes 1 dot) (files_of s1)" "unat (freeblock s2) = 47"
        "unat (freeinode s2) = 2" "same_meta s1 s2" using s1(4) by simp_all
      have l2: "len 1 s2 = 16" by (simp add: len_def s2(2) s1(2))
      have r3: "runs (iappend 1 (dirent_of 1 dotdot) 16 s2) (\<lambda>_ t. minv t \<and> files_of t = append_to 1 (dirent_bytes 1 dotdot) (files_of s2)
          \<and> unat (freeblock t) = 47 \<and> freeinode t = freeinode s2 \<and> same_meta s2 t)"
        using iappend_runs [OF s2(1), of 1 16 "dirent_of 1 dotdot"] s2(3,4) l2 de b [of 32] b [of 16] by simp
      show ?case
      proof (rule runs_andthen [OF r3], goal_cases)
        case (1 x s3)
        let ?a = "append_to 1 (dirent_bytes 1 dot @ dirent_bytes 1 dotdot) (files_of s1)"
        have s3: "minv s3" "files_of s3 = ?a" "unat (freeblock s3) = 47"
          "unat (freeinode s3) = 2" "same_meta s1 s3"
          using 1 s2(2,4) append_to_append same_meta_trans [OF s2(5)] by simp_all
        have l3: "len 1 s3 = 32" by (simp add: len_def s3(2) s1(2))
        have g: "2 + length fs \<le> 200" "32 + 16 * length fs \<le> 267 * 1024"
          "unat (freeblock s3) + blocks_for (32 + 16 * length fs) + files_blocks fs \<le> 2000 + blocks_for 32"
          using fi b [of 32] s3(3) by (simp_all add: algebra_simps)
        have ff: "with_files 2 fs ?a 1 = (T_DIR, 1, root_dir fs)"
          by (simp add: with_files_eq append_to_append s1(2)) (simp add: append_to_def root_dir_def)
        have fo: "with_files 2 fs ?a i = mkfs_files fs i" if "i \<noteq> 1" for i
          using that by (simp add: with_files_eq mkfs_files_def s1(2)) (simp add: append_to_def)
        show ?case
        proof (rule runs_andthen [OF add_files_runs [OF s3(1,4) _ g(1) fi(2) l3 g(2,3)]], simp, goal_cases)
          case (1 x t)
          then have t: "minv t" "files_of t = with_files 2 fs ?a" "unat (freeinode t) = 2 + length fs" "same_meta s3 t"
            and fb: "unat (freeblock t) = 46 + blocks_for (16 * (2 + length fs)) + files_blocks fs"
            using s3(2,3) b [of 32] by (simp_all add: algebra_simps)
          have lt: "len 1 t \<le> 4000" using fi(1) by (simp add: len_def t(2) ff root_dir_def del: One_nat_def)
          have fl: "unat (freeblock t) \<le> 2000" using fb fi(3) by simp
          have mt: "same_meta empty_image t"
            using same_meta_trans [OF s1(5) same_meta_trans [OF s3(5) t(4)]] .
          show ?case
          proof (rule runs_mono [OF finish_runs [OF t(1) lt fl]], goal_cases)
            case (1 y w)
            have "files_of w = mkfs_files fs"
              using 1 ff fo by (auto simp: t(2) fun_eq_iff mkfs_files_def)
            moreover have "at (img w) (addrs_of w j) (block_pos k) \<noteq> 0" if "j \<noteq> 1" "k * BSIZE < size_of w j" for j k
            proof -
              have "size_of t j \<le> 267 * BSIZE" by (rule minvD(5) [OF t(1)])
              then have "k < MAXFILE" using that 1 by simp
              then show ?thesis
                using 1 that good_block_pos [of k] minvD(3) [OF t(1), of "block_pos k" j] need_block_pos by simp
            qed
            moreover have "img w c = img empty_image c" if "unat c < 32" for c
              using 1 mt that by (simp add: same_meta_def)
            ultimately show ?case using 1 t(3) fb by (auto simp: empty_image_def)
          qed
        qed
      qed
    qed
  qed
qed

end
