(* ===== verification/Mkfsboot.thy ===== *)
theory Mkfsboot
  imports Mkfsprop
begin

text \<open>
  What \<^verbatim>\<open>mkfs\<close> promises: the finished image is a file system in the sense of the kernel's invariants, and a kernel that
  boots on it reads the files that went in. The assertion on the size of a file is too weak for the image's format.
\<close>

section \<open>The image is in order\<close>

text \<open>
  The image as the kernel's invariants see it: the free map has exactly the blocks from \<open>fb\<close> on, the addresses of each
  inode form a tree of data blocks in use, and no block belongs to two inodes.
\<close>

definition image_ok :: "mkfs_state \<Rightarrow> bool" where
  "image_ok w \<longleftrightarrow> load_sb (img w 1) = mkfs_sb
     \<and> (\<forall>b. free_blk mkfs_sb (img w) b \<longleftrightarrow> freeblock w \<le> b \<and> unat b < FSSIZE)
     \<and> (\<forall>j<208. tree_ok mkfs_sb (img w) (d_addrs (ino w j)))
     \<and> (\<forall>i<208. \<forall>j<208. \<forall>p q. good p \<longrightarrow> good q \<longrightarrow> at (img w) (d_addrs (ino w i)) p = at (img w) (d_addrs (ino w j)) q
          \<longrightarrow> at (img w) (d_addrs (ino w i)) p \<noteq> 0 \<longrightarrow> i = j)"

lemma image_ok_lemma:
  assumes t: "tidy (img w) (freeblock w) (addrs_of w)" and fb: "unat (freeblock w) \<le> 2000"
    and sb: "img w 1 = store_sb (\<lambda>_. 0) mkfs_sb" and bm: "img w 45 = used_bits [0..<unat (freeblock w)] (\<lambda>_. 0)"
  shows "image_ok w"
proof -
  have free: "free_blk mkfs_sb (img w) b \<longleftrightarrow> freeblock w \<le> b \<and> unat b < 2000" for b
  proof (cases "unat b < 2000")
    case True
    then have "unat (b div 8192) = 0" by (simp add: unat_div)
    then have "b div 8192 = 0" by (simp add: unat_eq_zero)
    then have "BBLOCK b mkfs_sb = 45" by (simp add: BBLOCK_def)
    then have "free_blk mkfs_sb (img w) b \<longleftrightarrow> bit_free (used_bits [0..<unat (freeblock w)] (\<lambda>_. 0)) (unat b)"
      using True by (simp add: free_blk_def bm word_less_nat_alt)
    also have "\<dots> \<longleftrightarrow> unat b \<notin> set [0..<unat (freeblock w)]"
      unfolding used_bits_free by (simp add: bit_free_def)
    finally show ?thesis using True by (simp add: word_le_nat_alt not_less)
  next
    case False
    then show ?thesis by (simp add: free_blk_def word_less_nat_alt)
  qed
  have ad: "addrs_of w j = d_addrs (ino w j)" if "j < 208" for j using that by (simp add: addrs_of_def)
  have "tree_ok mkfs_sb (img w) (addrs_of w j)" for j
    unfolding tree_ok_def
  proof (intro conjI allI impI)
    fix p q
    show "p = q" if "good p" "good q" "at (img w) (addrs_of w j) p = at (img w) (addrs_of w j) q" "at (img w) (addrs_of w j) p \<noteq> 0"
      using tidyD(4) [OF t that] by blast
    show "data_blk mkfs_sb (at (img w) (addrs_of w j) p)" if "good p" "at (img w) (addrs_of w j) p \<noteq> 0"
      using tidyD(2,3) [OF t that] fb by (simp add: data_blk_def word_less_nat_alt)
    show "\<not> free_blk mkfs_sb (img w) (at (img w) (addrs_of w j) p)" if "good p" "at (img w) (addrs_of w j) p \<noteq> 0"
      using tidyD(3) [OF t that] unfolding free by (simp add: not_le)
  qed
  moreover have "i = j" if "i < 208" "j < 208" "good p" "good q"
      "at (img w) (d_addrs (ino w i)) p = at (img w) (d_addrs (ino w j)) q" "at (img w) (d_addrs (ino w i)) p \<noteq> 0" for i j p q
    using tidyD(4) [OF t that(3,4), of i j] that by (simp add: ad)
  ultimately show ?thesis
    unfolding image_ok_def sb load_store_sb using free ad by (metis FSSIZE_def)
qed

text \<open>C13: Given files that fit, \<^verbatim>\<open>mkfs\<close> ends with an image that is a file system in order: the super block is in place, exactly
  the blocks it took are marked used, no block belongs to two places, the root directory lists the files under the names
  without \<^verbatim>\<open>user/\<close> and the leading underscore, and every file has an inode of its own with its bytes, however \<^verbatim>\<open>read\<close>
  cuts them into pieces.\<close>

theorem mkfs_image:
  assumes "fits fs"
  shows "runs (mkfs_main fs) (\<lambda>_ w. image_ok w \<and> files_of w = mkfs_files fs
    \<and> unat (freeblock w) = nmeta + blocks_for (dirent_size * (2 + length fs)) + files_blocks fs
    \<and> unat (freeinode w) = 2 + length fs)"
proof (rule runs_mono [OF mkfs_main_runs [OF assms]], goal_cases)
  case (1 u w)
  then have "unat (freeblock w) \<le> 2000" using assms by (simp add: fits_def)
  then show ?case using 1 image_ok_lemma [of w] by blast
qed

definition demo_args :: "(u8 list \<times> u8 list list option) list" where
  "demo_args = [(user_prefix @ [underscore, 99, 97, 116], Some [[104, 105], [33]]), ([82, 69, 65, 68], Some [])]"

lemma demo_fits: "fits demo_args"
  by (simp add: fits_def demo_args_def files_blocks_def blocks_for_def short_name_def user_prefix_def slash_def underscore_def)

lemma mkfs_image_witness:
  "runs (mkfs_main demo_args) (\<lambda>_ w. image_ok w \<and> files_of w = mkfs_files demo_args
    \<and> unat (freeblock w) = nmeta + blocks_for (dirent_size * (2 + length demo_args)) + files_blocks demo_args
    \<and> unat (freeinode w) = 2 + length demo_args)
   \<and> mkfs_files demo_args 2 = (T_FILE, 1, [104, 105, 33])"
  by (rule conjI [OF mkfs_image [OF demo_fits]]) (simp add: mkfs_files_def demo_args_def)

section \<open>Booting on the image\<close>

text \<open>What the recovery of the log leaves alone\<close>

definition boot_frame :: "'z fstate_scheme \<Rightarrow> 'z fstate_scheme \<Rightarrow> bool" where
  "boot_frame s s' \<longleftrightarrow> sb s' = sb s \<and> itable s' = itable s \<and> log_start s' = log_start s \<and> log_size s' = log_size s
     \<and> log_dev s' = log_dev s \<and> log_outstanding s' = log_outstanding s \<and> log_committing s' = log_committing s"

lemma boot_frame_trans: "boot_frame s t \<Longrightarrow> boot_frame t u \<Longrightarrow> boot_frame s u"
  by (simp add: boot_frame_def)

lemma set_buf_boot [simp]: "boot_frame s (set_buf i g s)"
  by (simp add: boot_frame_def set_buf_def)

lemma bget_boot: "bget dev b s = Inr (i, s') \<Longrightarrow> boot_frame s s'"
  by (auto simp: bget_def lock_buf_def acquiresleep_def boot_frame_def set_buf_def andthen_Inr_iff split: option.splits if_splits)

lemma bread_boot: "bread dev b s = Inr (i, s') \<Longrightarrow> boot_frame s s'"
  unfolding bread_def andthen_Inr_iff
  by (auto dest!: bget_boot simp: boot_frame_def disk_read_def modify_data_def set_buf_def split: if_splits)

lemma bwrite_boot: "bwrite b s = Inr (u, s') \<Longrightarrow> boot_frame s s'"
  by (auto simp: bwrite_def disk_write_def boot_frame_def split: if_splits)

lemma brelse_boot: "brelse b s = Inr (u, s') \<Longrightarrow> boot_frame s s'"
  by (auto simp: brelse_def unlock_buf_def releasesleep_def wakeup_def boot_frame_def set_buf_def Let_def split: if_splits)

lemma read_head_boot: "read_head s = Inr (u, s') \<Longrightarrow> boot_frame s s'"
  unfolding read_head_def andthen_Inr_iff Let_def
  by (auto dest!: bread_boot brelse_boot simp: boot_frame_def split: if_splits)

lemma write_head_boot: "write_head s = Inr (u, s') \<Longrightarrow> boot_frame s s'"
  unfolding write_head_def andthen_Inr_iff Let_def
  by (auto dest!: bread_boot bwrite_boot brelse_boot simp: boot_frame_def modify_data_def set_buf_def)

lemma install_one_boot: "install_one r t s = Inr (u, s') \<Longrightarrow> boot_frame s s'"
  unfolding install_one_def andthen_Inr_iff
  by (auto dest!: bread_boot bwrite_boot brelse_boot simp: boot_frame_def modify_data_def bunpin_def set_buf_def split: if_splits)

lemma install_loop_boot: "install_loop r ts s = Inr (u, s') \<Longrightarrow> boot_frame s s'"
  by (induction ts arbitrary: s) (auto simp: andthen_Inr_iff boot_frame_def dest!: install_one_boot)

lemma recover_boot: "recover_from_log s = Inr (u, s') \<Longrightarrow> boot_frame s s'"
  unfolding recover_from_log_def install_trans_def andthen_Inr_iff
  by (auto dest!: read_head_boot install_loop_boot write_head_boot simp: boot_frame_def)

lemma sb_frame [simp]:
  "view (s\<lparr>sb := b\<rparr>) = view s" "lockset (s\<lparr>sb := b\<rparr>) = lockset s" "bc_inv (s\<lparr>sb := b\<rparr>) = bc_inv s"
  "pinset (s\<lparr>sb := b\<rparr>) = pinset s" "held (s\<lparr>sb := b\<rparr>) i c = held s i c"
  by (simp_all add: abstraction_cong [of "s\<lparr>sb := b\<rparr>" s] held_cong [of "s\<lparr>sb := b\<rparr>" s] myproc_def)

lemma log_place_frame [simp]:
  "view (s\<lparr>log_start := a, log_size := n, log_dev := d\<rparr>) = view s"
  "lockset (s\<lparr>log_start := a, log_size := n, log_dev := d\<rparr>) = lockset s"
  "bc_inv (s\<lparr>log_start := a, log_size := n, log_dev := d\<rparr>) = bc_inv s"
  "pinset (s\<lparr>log_start := a, log_size := n, log_dev := d\<rparr>) = pinset s"
  by (simp_all add: abstraction_cong [of "s\<lparr>log_start := a, log_size := n, log_dev := d\<rparr>" s])

lemma outstanding_frame [simp]:
  "view (s\<lparr>log_outstanding := n\<rparr>) = view s" "lockset (s\<lparr>log_outstanding := n\<rparr>) = lockset s"
  "bc_inv (s\<lparr>log_outstanding := n\<rparr>) = bc_inv s" "pinset (s\<lparr>log_outstanding := n\<rparr>) = pinset s"
  by (simp_all add: abstraction_cong [of "s\<lparr>log_outstanding := n\<rparr>" s])

text \<open>Reading the super block\<close>

lemma readsb_runs:
  fixes s :: "'z fstate_scheme"
  assumes b: "booted s"
  shows "runs (readsb ROOTDEV s) (\<lambda>_ t. booted t \<and> disk t = disk s \<and> sb t = load_sb (disk s 1) \<and> itable t = itable s
    \<and> log_outstanding t = log_outstanding s \<and> log_committing t = log_committing s)"
proof -
  obtain i s1 where e1: "bread ROOTDEV 1 s = Inr (i, s1)" and
    p1: "bc_inv s1" "held s1 i 1" "view s1 = view s" "lockset s1 = {1}" "pinset s1 = {}" "disk s1 = disk s"
    by (rule runsE [OF bread_l [of s 1]]) (use b in \<open>auto simp: booted_def NBUF_eq\<close>)
  have d: "bdata i s1 = disk s 1" using view_held [OF p1(1,2)] p1(3) booted_view [OF b] by simp
  let ?s2 = "s1\<lparr>sb := load_sb (disk s 1)\<rparr>"
  obtain u s3 where e3: "brelse i ?s2 = Inr (u, s3)" and
    p3: "bc_inv s3" "lockset s3 = {}" "pinset s3 = {}" "disk s3 = disk s"
    by (rule runsE [OF brelse_l [of ?s2 i 1]]) (use p1 booted_view [OF b] in auto)
  have "readsb ROOTDEV s = Inr (u, s3)"
    using e1 e3 d by (simp add: readsb_def load_sb_def Let_def)
  then show ?thesis
    using p3 bread_boot [OF e1] brelse_boot [OF e3] b by (simp add: boot_frame_def booted_def)
qed

lemma fsinit_runs:
  fixes s :: "'z fstate_scheme"
  assumes b: "booted s" and sb: "load_sb (disk s 1) = mkfs_sb" and lg: "disk s 2 = (\<lambda>_. 0)"
  shows "runs (fsinit ROOTDEV s) (\<lambda>_ t. bc_inv t \<and> lockset t = {} \<and> pinset t = {} \<and> lh_n t = 0
    \<and> (\<forall>c. c \<noteq> 2 \<longrightarrow> view t c = disk s c) \<and> sb t = mkfs_sb \<and> itable t = itable s
    \<and> log_start t = 2 \<and> log_size t = 30 \<and> log_dev t = ROOTDEV
    \<and> log_outstanding t = log_outstanding s \<and> log_committing t = log_committing s)"
  unfolding fsinit_def
proof (rule runs_andthen [OF readsb_runs [OF b]], goal_cases)
  case (1 x s1)
  let ?s = "s1\<lparr>log_start := 2, log_size := 30, log_dev := ROOTDEV\<rparr>"
  have h: "hdr_n (disk ?s (log_start ?s)) = 0" using 1 lg by (simp add: hdr_n_def ld32_def)
  have b1: "booted ?s" using 1 by (simp add: booted_def)
  have g: "good_head ?s" using h by (simp add: good_head_def Let_def)
  have "recovered ?s = disk s" using h 1 by (simp add: recovered_def Let_def)
  then obtain u t where e: "recover_from_log ?s = Inr (u, t)" and
    p: "bc_inv t" "lockset t = {}" "pinset t = {}" "lh_n t = 0" "\<And>c. c \<noteq> 2 \<Longrightarrow> disk t c = disk s c"
    by (rule_tac runsE [OF recover_runs [OF b1 g]]) simp
  have f: "boot_frame ?s t" by (rule recover_boot [OF e])
  then have "booted t" using p by (simp add: booted_def boot_frame_def)
  then have "view t = disk t" by (rule booted_view)
  moreover have "sint (30 :: u32) = 30" by (simp add: signed_take_bit_int_eq_self)
  ultimately show ?case
    using 1 e f p sb by (simp add: initlog_def boot_frame_def LOGSIZE_eq)
qed

text \<open>Loading an inode into a free entry of the table\<close>

lemma ilock_runs:
  fixes s :: "'z fstate_scheme"
  assumes c: "calm s" and lk: "lockset s = {}" and r: "room 0 1 s"
    and n: "1 \<le> i_ref (itable s ip)" "\<not> sl_locked (i_lock (itable s ip))" "\<not> i_valid (itable s ip)" "i_dev (itable s ip) = ROOTDEV"
    and d: "load_dinode (view s (IBLOCK (i_inum (itable s ip)) (sb s))) (inode_off (i_inum (itable s ip))) = d" "d_type d \<noteq> 0"
  shows "runs (ilock ip s) (\<lambda>_ t. calm t \<and> lockset t = {} \<and> room 0 1 t \<and> view t = view s \<and> sb t = sb s
    \<and> log_start t = log_start s \<and> log_size t = log_size s \<and> log_outstanding t = log_outstanding s
    \<and> i_dev (itable t ip) = ROOTDEV \<and> i_size (itable t ip) = d_size d \<and> (\<forall>i<13. i_addrs (itable t ip) i = d_addrs d i))"
proof -
  let ?lk = "(i_lock (itable s ip))\<lparr>sl_locked := True, sl_pid := p_pid (myproc s)\<rparr>"
  let ?s = "set_inode ip (i_lock_update (\<lambda>_. ?lk)) s"
  let ?b = "IBLOCK (i_inum (itable s ip)) (sb s)"
  have a: "acquiresleep (i_lock (itable s ip)) s = Inr (?lk, s)" using n(2) by (simp add: acquiresleep_def)
  have f: "i_valid (itable ?s ip) = False" "i_dev (itable ?s ip) = ROOTDEV" "i_inum (itable ?s ip) = i_inum (itable s ip)" "sb ?s = sb s"
    using n(3,4) by (simp_all add: set_inode_def)
  have s: "calm ?s" "lockset ?s = {}" "room 0 (Suc 0) ?s" "view ?s = view s" "?b \<notin> lockset ?s"
    "log_start ?s = log_start s" "log_size ?s = log_size s" "log_outstanding ?s = log_outstanding s"
    using c lk r by (simp_all add: set_inode_def calm_def log_ok_def)
  have e: "ilock ip s = andthen (bread ROOTDEV ?b ?s) (\<lambda>bp s.
          let s = set_inode ip (fill_inode (load_dinode (bdata bp s) (inode_off (i_inum (itable s ip))))) s in
          andthen (brelse bp s) (\<lambda>_ s.
          let s = set_inode ip (i_valid_update (\<lambda>_. True)) s in
          if i_type (itable s ip) = 0 then Inl (Panic ''ilock: no type'') else Inr ((), s)))"
    using n(1) a f by (simp add: ilock_def Let_def)
  show ?thesis unfolding e
  proof (rule runs_andthen [OF bread_c [OF s(1,5,3)]], goal_cases)
    case (1 i s1)
    then have p: "calm s1" "held s1 i ?b" "view s1 = view s" "lockset s1 = {?b}" "room 0 0 s1" "fkeep ?s s1"
      "logged s1 = logged ?s" using s(2,4) by auto
    have it: "itable s1 = itable ?s" "sb s1 = sb s" using fkeepD(1,2) [OF p(6)] f(4) by simp_all
    have bd: "bdata i s1 = view s ?b" using view_held [OF calmD(1) [OF p(1)] p(2)] p(3) by simp
    let ?s2 = "set_inode ip (fill_inode d) s1"
    have e2: "load_dinode (bdata i s1) (inode_off (i_inum (itable s1 ip))) = d"
      unfolding bd it(1) f(3) by (rule d(1))
    have s2: "calm ?s2" "held ?s2 i ?b" "view ?s2 = view s" "lockset ?s2 = {?b}" "room 0 0 ?s2" "logged ?s2 = logged s1"
      using p by (simp_all add: set_inode_def calm_def log_ok_def)
    have cl: "?b \<in> logged ?s2 \<or> view ?s2 ?b = disk ?s2 ?b"
      using unpinned_clean [OF calmD(1) [OF s(1)] s(5)] calmD(3) [OF s(1)] fkeepD(3) [OF p(6)] s2(3,6) p(7) s(4)
      by (auto simp: set_inode_def)
    show ?case unfolding Let_def e2
    proof (rule runs_andthen [OF brelse_c [OF s2(1,2) cl s2(5)]], goal_cases)
      case (1 u s3)
      then have q: "calm s3" "view s3 = view s" "lockset s3 = {}" "room 0 1 s3" "fkeep ?s2 s3" using s2(3,4) by auto
      have it3: "itable s3 = itable ?s2" "sb s3 = sb s" using fkeepD(1,2) [OF q(5)] it(2) by (simp_all add: set_inode_def)
      have lg: "log_start s3 = log_start s" "log_size s3 = log_size s" "log_outstanding s3 = log_outstanding s"
        using fkeepD(5,6,8) [OF q(5)] fkeepD(5,6,8) [OF p(6)] s(6-8) by (simp_all add: set_inode_def)
      have ty: "i_type (itable (set_inode ip (i_valid_update (\<lambda>_. True)) s3) ip) \<noteq> 0"
        using d(2) by (simp add: set_inode_def it3(1) fill_inode_def)
      show ?case
        unfolding if_not_P [OF ty] runs_Inr
        using q it3(2) lg f(2) it(1) by (simp add: set_inode_def it3(1) fill_inode_def calm_def log_ok_def)
    qed
  qed
qed

text \<open>
  The kernel starts on a disk: an empty buffer cache and an empty table of inodes. The first process mounts the file
  system, opens a transaction and reads up to \<open>n\<close> bytes of an inode from its start.
\<close>

definition boot_state :: "(u32 \<Rightarrow> bytes) \<Rightarrow> fstate" where
  "boot_state d = binit (zero_f\<lparr>disk := d\<rparr>)"

definition boot_read :: "(u32 \<Rightarrow> bytes) \<Rightarrow> u32 \<Rightarrow> bytes \<Rightarrow> u32 \<Rightarrow> (u32 \<times> bytes, fstate) res" where
  "boot_read d inum buf n = andthen (fsinit ROOTDEV (boot_state d)) (\<lambda>_ s.
     andthen (begin_op s) (\<lambda>_ s.
     andthen (iget ROOTDEV inum s) (\<lambda>ip s.
     andthen (ilock ip s) (\<lambda>_ s.
     readi ip (Local 0) buf 0 n s))))"

lemma boot_state:
  "booted (boot_state d)" "disk (boot_state d) = d" "itable (boot_state d) = (\<lambda>_. zero_inode)"
  "log_outstanding (boot_state d) = 0" "log_committing (boot_state d) = False"
proof -
  have z: "b_dev (bufs (zero_f\<lparr>disk := d\<rparr>) i) = 0 \<and> b_refcnt (bufs (zero_f\<lparr>disk := d\<rparr>) i) = 0" for i
    by (simp add: zero_f_def zero_buf_def)
  have "log_dev (boot_state d) = ROOTDEV" by (simp add: boot_state_def binit_def Let_def zero_f_def)
  then show "booted (boot_state d)"
    unfolding booted_def boot_state_def using binit_inv(1-3) [of "zero_f\<lparr>disk := d\<rparr>", OF z] by simp
qed (simp_all add: boot_state_def binit_def Let_def zero_f_def)

lemma boot_read_runs:
  assumes t: "tidy (img w) (freeblock w) (addrs_of w)" and sb: "load_sb (img w 1) = mkfs_sb" and lg: "img w 2 = (\<lambda>_. 0)"
    and j: "j < 208" "d_type (ino w j) \<noteq> 0" and sz: "size_of w j \<le> 267 * BSIZE"
    and pr: "\<And>k. k * BSIZE < size_of w j \<Longrightarrow> at (img w) (addrs_of w j) (block_pos k) \<noteq> 0"
  shows "runs (boot_read (img w) (of_nat j) buf n) (\<lambda>(r, buf') _.
    unat r = min (unat n) (size_of w j) \<and> buf' = (\<lambda>i. if i < unat r then contents w j ! i else buf i))"
  unfolding boot_read_def
proof (rule runs_andthen [OF fsinit_runs [OF boot_state(1)]], simp add: boot_state(2) sb, simp add: boot_state(2) lg, goal_cases)
  case (1 x s)
  then have s: "bc_inv s" "lockset s = {}" "pinset s = {}" "lh_n s = 0" "\<And>c. c \<noteq> 2 \<Longrightarrow> view s c = img w c" "sb s = mkfs_sb"
    "itable s = (\<lambda>_. zero_inode)" "log_start s = 2" "log_size s = 30" "log_dev s = ROOTDEV" "log_outstanding s = 0" "log_committing s = False"
    by (simp_all add: boot_state)
  have op: "begin_op s = Inr ((), s\<lparr>log_outstanding := 1\<rparr>)"
    using s by (simp add: begin_op_def MAXOPBLOCKS_def LOGSIZE_eq)
  let ?n = "\<lambda>n. n\<lparr>i_dev := ROOTDEV, i_inum := of_nat j, i_ref := 1, i_valid := False\<rparr>"
  let ?s = "set_inode 0 ?n (s\<lparr>log_outstanding := 1\<rparr>)"
  have ig: "iget ROOTDEV (of_nat j) (s\<lparr>log_outstanding := 1\<rparr>) = Inr (0, ?s)"
  proof -
    have "first_index (\<lambda>i. i_ref (itable s i) > 0 \<and> i_dev (itable s i) = ROOTDEV \<and> i_inum (itable s i) = of_nat j) NINODE = None"
      by (simp add: first_index_None_iff s(7) zero_inode_def)
    moreover have "first_index (\<lambda>i. i_ref (itable s i) = 0) NINODE = Some 0"
      by (rule first_index_eqI) (simp_all add: s(7) zero_inode_def NINODE_def)
    ultimately show ?thesis by (simp add: iget_def)
  qed
  have it: "itable ?s 0 = ?n zero_inode" by (simp add: set_inode_def s(7))
  have lgd: "logged ?s = {}" using s(4) by (simp add: logged_def set_inode_def)
  have c: "calm ?s" "lockset ?s = {}" "room 0 1 ?s" "view ?s = view s" "sb ?s = mkfs_sb"
    using s lgd by (simp_all add: calm_def log_ok_def room_def set_inode_def NBUF_eq LOGSIZE_eq)
  have lo: "log_start ?s = 2" "log_size ?s = 30" "log_outstanding ?s = 1" using s by (simp_all add: set_inode_def)
  have b: "IBLOCK (of_nat j) mkfs_sb \<noteq> 2" using IBLOCK_mkfs [OF j(1)] by auto
  have d: "load_dinode (view ?s (IBLOCK (i_inum (itable ?s 0)) (sb ?s))) (inode_off (i_inum (itable ?s 0))) = ino w j"
    unfolding it c(4,5) using b s(5) by (simp add: ino_def)
  have st: "1 \<le> i_ref (itable ?s 0)" "\<not> sl_locked (i_lock (itable ?s 0))" "\<not> i_valid (itable ?s 0)" "i_dev (itable ?s 0) = ROOTDEV"
    unfolding it by (simp_all add: zero_inode_def initsleeplock_def)
  show ?case unfolding op ig andthen_simps
  proof (rule runs_andthen [OF ilock_runs [OF c(1-3) st d j(2)]], goal_cases)
    case (1 y t)
    then have q: "calm t" "lockset t = {}" "room 0 (Suc 0) t" "view t = view s" "i_dev (itable t 0) = ROOTDEV"
      "i_size (itable t 0) = d_size (ino w j)" "\<And>i. i < 13 \<Longrightarrow> i_addrs (itable t 0) i = d_addrs (ino w j) i"
      using c(4) by simp_all
    have us: "unat (i_size (itable t 0)) = size_of w j" using j(1) q(6) by (simp add: size_of_def)
    have hi: "view t b = img w b" if "46 \<le> unat b" for b
    proof -
      have "b \<noteq> 2" using that by auto
      then show ?thesis using s(5) q(4) by simp
    qed
    have ad: "i_addrs (itable t 0) i = addrs_of w j i" if "i < 13" for i using q(7) [OF that] j(1) by (simp add: addrs_of_def)
    have a: "at (view t) (i_addrs (itable t 0)) r = at (img w) (addrs_of w j) r" if "good r" for r
      by (rule low_at [where F = "addrs_of w" and F' = "\<lambda>_. i_addrs (itable t 0)" and j = j, OF t hi ad that])
    have fa: "file_addr 0 t k = at (img w) (addrs_of w j) (block_pos k)" if "k < MAXFILE" for k
      unfolding file_addr_def addr_of_def by (rule a [OF good_block_pos [OF that]])
    have fb: "file_bytes 0 t i = contents w j ! i" if i: "i < size_of w j" for i
    proof -
      have mi: "i < MAXFILE * BSIZE" using i sz by simp
      have "file_bytes 0 t i = fbyte (view t) (i_addrs (itable t 0)) i"
        by (simp add: file_bytes_def fbyte_def file_addr_def addr_of_def)
      also have "\<dots> = fbyte (img w) (addrs_of w j) i"
        by (rule low_fbyte [where F = "addrs_of w" and F' = "\<lambda>_. i_addrs (itable t 0)" and j = j, OF t hi ad mi])
      finally show ?thesis using i by (simp add: contents_def)
    qed
    have f: "fcalm 0 t" using q by (simp add: fcalm_def)
    have x: "file_addr 0 t k \<noteq> 0" if "k < (unat (i_size (itable t 0)) + 1023) div 1024" for k
    proof -
      have k: "k * 1024 < size_of w j" using that us by auto
      then have "k < MAXFILE" using sz by simp
      then show ?thesis using pr [of k] k fa by simp
    qed
    have ov: "unat (0 :: u32) + unat n < 2 ^ 32" using unsigned_less [of n, where 'a = nat] by simp
    have mx: "unat (i_size (itable t 0)) \<le> MAXFILE * BSIZE" using us sz by simp
    show ?case
    proof (rule runs_mono [OF readi_runs [OF f q(3) _ ov mx x]], simp, assumption, goal_cases)
      case (1 z u)
      then show ?case using us fb by (auto simp: blit_def fun_eq_iff)
    qed
  qed
qed

text \<open>C12: From \<^verbatim>\<open>mkfs\<close> to \<^verbatim>\<open>read\<close>: a kernel that boots on the image \<^verbatim>\<open>mkfs\<close> made mounts it, finds the inode of each of the
  files and reads its bytes, as many as were asked for and the file has. Two programs that share nothing but the format
  of the disk agree on it.\<close>

theorem mkfs_boot_read:
  assumes "fits fs" and "k < length fs"
  shows "runs (mkfs_main fs) (\<lambda>_ w. runs (boot_read (img w) (of_nat (2 + k)) buf n) (\<lambda>(r, buf') _.
    unat r = min (unat n) (length (file_of (fs ! k))) \<and> buf' = (\<lambda>i. if i < unat r then file_of (fs ! k) ! i else buf i)))"
proof (rule runs_mono [OF mkfs_main_runs [OF assms(1)]], goal_cases)
  case (1 u w)
  let ?j = "2 + k"
  have j: "?j < 208" using assms by (simp add: fits_def)
  have f: "files_of w ?j = (T_FILE, 1, file_of (fs ! k))" using 1 assms(2) by (simp add: mkfs_files_def)
  then have ty: "d_type (ino w ?j) \<noteq> 0" and co: "contents w ?j = file_of (fs ! k)"
    using j by (simp_all add: files_of_def T_FILE_def)
  have sz: "size_of w ?j = length (file_of (fs ! k))" using co length_contents [of w ?j] by simp
  have "good_arg (fs ! k)" using assms by (simp add: fits_def)
  then have le: "size_of w ?j \<le> 267 * BSIZE" unfolding sz by (cases "fs ! k") auto
  have pr: "at (img w) (addrs_of w ?j) (block_pos b) \<noteq> 0" if "b * BSIZE < size_of w ?j" for b
    using 1 that by simp
  have sb: "load_sb (img w 1) = mkfs_sb" using 1 by (simp add: load_store_sb)
  have lg: "img w 2 = (\<lambda>_. 0)" using 1 by simp
  show ?case
    using boot_read_runs [OF _ sb lg j ty le pr] 1 unfolding sz co by blast
qed

lemma mkfs_boot_read_witness:
  "runs (mkfs_main demo_args) (\<lambda>_ w. runs (boot_read (img w) (of_nat (2 + 0)) (\<lambda>_. 0) 100) (\<lambda>(r, buf') _.
    unat r = min (unat (100 :: u32)) (length (file_of (demo_args ! 0)))
    \<and> buf' = (\<lambda>i. if i < unat r then file_of (demo_args ! 0) ! i else 0)))"
  by (rule mkfs_boot_read [OF demo_fits]) (simp add: demo_args_def)

section \<open>Files that are too large\<close>

text \<open>The assertion lets every block below \<^verbatim>\<open>MAXFILE\<close> pass; from block 267 on the index is beyond the array \<^verbatim>\<open>indirect\<close>.\<close>

lemma large_file_undefined:
  assumes "NDIRECT + NINDIRECT \<le> unat fbn" and "unat fbn < MAXFILE"
  shows "iappend_block fbn din s = Inl (Undefined ''indirect[fbn - NDIRECT]'')"
proof -
  have "\<not> unat fbn < NDIRECT" "\<not> unat fbn - NDIRECT < NINDIRECT" using assms(1) by simp_all
  then show ?thesis using assms(2) unfolding iappend_block_def by (simp only: simp_thms if_True if_False)
qed

end
