(* ===== verification/Async.thy ===== *)
theory Async
  imports Prelude "HOL-Library.Multiset"
begin

text \<open>
  The thread pool of the web server (\<^verbatim>\<open>Assignment2/3150-p2-bonus-main/async.c\<close>): a linked list of tasks under a mutex, a
  condition variable, and the worker threads. A pointer is a number, the null pointer \<open>None\<close>; a task's handler and
  argument are opaque. A critical section is one step, from \<^verbatim>\<open>pthread_mutex_lock\<close> or the return of \<^verbatim>\<open>pthread_cond_wait\<close>
  to \<^verbatim>\<open>pthread_mutex_unlock\<close> or the next wait. Of the thread library the model takes what its standard says: a
  signal wakes a waiting thread if there is one, and a waiting thread may also wake without a signal.
\<close>

section \<open>The task list\<close>

record 'h task =
  t_handler :: 'h
  t_arg :: int
  t_next :: "nat option"

text \<open>The heap of tasks that are allocated, and the head of the list.\<close>

record 'h pool =
  tasks :: "nat \<Rightarrow> 'h task option"
  task_queue :: "nat option"

definition set_task_next :: "nat \<Rightarrow> nat option \<Rightarrow> 'h pool \<Rightarrow> 'h pool" where
  "set_task_next p n s = s\<lparr>tasks := (tasks s)(p := map_option (t_next_update (\<lambda>_. n)) (tasks s p))\<rparr>"

text \<open>\<^verbatim>\<open>while (tmp->next != NULL) tmp = tmp->next;\<close> The outer option is the end of the loop.\<close>

partial_function (option) last_task :: "(nat \<Rightarrow> 'h task option) \<Rightarrow> nat \<Rightarrow> nat option" where
  "last_task h tmp = (case h tmp of
     None \<Rightarrow> None
   | Some t \<Rightarrow> (case t_next t of None \<Rightarrow> Some tmp | Some q \<Rightarrow> last_task h q))"

text \<open>\<^verbatim>\<open>async_run\<close> with the address \<^verbatim>\<open>malloc\<close> gave; the signal is the step's.\<close>

definition async_run :: "nat \<Rightarrow> 'h \<Rightarrow> int \<Rightarrow> 'h pool \<Rightarrow> 'h pool option" where
  "async_run task handler arg s =
     (let s = s\<lparr>tasks := (tasks s)(task \<mapsto> \<lparr>t_handler = handler, t_arg = arg, t_next = None\<rparr>)\<rparr> in
      case task_queue s of
        None \<Rightarrow> Some (s\<lparr>task_queue := Some task\<rparr>)
      | Some tmp \<Rightarrow> map_option (\<lambda>tmp. set_task_next tmp (Some task) s) (last_task (tasks s) tmp))"

text \<open>The body of the worker's critical section: wait, or take the first task.\<close>

definition worker_take :: "'h pool \<Rightarrow> (nat option \<times> 'h pool) option" where
  "worker_take s = (case task_queue s of
     None \<Rightarrow> Some (None, s)
   | Some task \<Rightarrow> (case tasks s task of
       None \<Rightarrow> None
     | Some t \<Rightarrow> Some (Some task, s\<lparr>task_queue := t_next t\<rparr>)))"

definition free_task :: "nat \<Rightarrow> 'h pool \<Rightarrow> 'h pool" where
  "free_task p s = s\<lparr>tasks := (tasks s)(p := None)\<rparr>"

section \<open>The threads\<close>

definition work_of :: "(nat \<Rightarrow> 'h task option) \<Rightarrow> nat \<Rightarrow> 'h \<times> int" where
  "work_of h p = (t_handler (the (h p)), t_arg (the (h p)))"

text \<open>A worker wants the mutex, waits for the condition, or runs a task outside the critical section.\<close>

datatype wstate = Wants | Waits | Runs nat

text \<open>
  The system: the pool, the workers (\<open>None\<close> for a thread that was not made), and three histories, the tasks handed to
  \<^verbatim>\<open>async_run\<close>, those a worker has taken and those a worker has finished.
\<close>

record 'h system =
  pool :: "'h pool"
  workers :: "nat \<Rightarrow> wstate option"
  submitted :: "('h \<times> int) list"
  started :: "('h \<times> int) list"
  finished :: "('h \<times> int) list"

text \<open>\<^verbatim>\<open>pthread_cond_signal\<close>: one of the waiting threads wakes, if there is one.\<close>

inductive signal_one :: "(nat \<Rightarrow> wstate option) \<Rightarrow> (nat \<Rightarrow> wstate option) \<Rightarrow> bool" where
  nobody: "(\<forall>i. w i \<noteq> Some Waits) \<Longrightarrow> signal_one w w"
| somebody: "w i = Some Waits \<Longrightarrow> signal_one w (w(i \<mapsto> Wants))"

definition async_init :: "nat \<Rightarrow> 'h system" where
  "async_init n = \<lparr>pool = \<lparr>tasks = (\<lambda>_. None), task_queue = None\<rparr>, workers = (\<lambda>i. if i < n then Some Wants else None),
     submitted = [], started = [], finished = []\<rparr>"

inductive pool_step :: "'h system \<Rightarrow> 'h system \<Rightarrow> bool" where
  submit: "tasks (pool s) task = None \<Longrightarrow> async_run task h a (pool s) = Some p' \<Longrightarrow> signal_one (workers s) w' \<Longrightarrow>
     pool_step s (s\<lparr>pool := p', workers := w', submitted := submitted s @ [(h, a)]\<rparr>)"
| wait: "workers s i = Some Wants \<Longrightarrow> worker_take (pool s) = Some (None, p') \<Longrightarrow>
     pool_step s (s\<lparr>pool := p', workers := (workers s)(i \<mapsto> Waits)\<rparr>)"
| take: "workers s i = Some Wants \<Longrightarrow> worker_take (pool s) = Some (Some task, p') \<Longrightarrow>
     pool_step s (s\<lparr>pool := p', workers := (workers s)(i \<mapsto> Runs task), started := started s @ [work_of (tasks p') task]\<rparr>)"
| spurious: "workers s i = Some Waits \<Longrightarrow> pool_step s (s\<lparr>workers := (workers s)(i \<mapsto> Wants)\<rparr>)"
| finish: "workers s i = Some (Runs task) \<Longrightarrow> tasks (pool s) task = Some t \<Longrightarrow>
     pool_step s (s\<lparr>pool := free_task task (pool s), workers := (workers s)(i \<mapsto> Wants),
       finished := finished s @ [(t_handler t, t_arg t)]\<rparr>)"

inductive_cases pool_stepE: "pool_step s s'"
inductive_cases signal_oneE: "signal_one w w'"

inductive pool_reachable :: "nat \<Rightarrow> 'h system \<Rightarrow> bool" for n where
  init: "pool_reachable n (async_init n)"
| step: "pool_reachable n s \<Longrightarrow> pool_step s s' \<Longrightarrow> pool_reachable n s'"

section \<open>The list in memory\<close>

text \<open>\<open>chain h p xs\<close>: from \<open>p\<close> the list in memory is \<open>xs\<close>.\<close>

fun chain :: "(nat \<Rightarrow> 'h task option) \<Rightarrow> nat option \<Rightarrow> nat list \<Rightarrow> bool" where
  "chain h p [] \<longleftrightarrow> p = None"
| "chain h p (x # xs) \<longleftrightarrow> p = Some x \<and> (\<exists>t. h x = Some t \<and> chain h (t_next t) xs)"

lemma chain_Some: "chain h (Some p) xs \<longleftrightarrow> (\<exists>t ys. xs = p # ys \<and> h p = Some t \<and> chain h (t_next t) ys)"
  by (cases xs) auto

lemma chain_None [simp]: "chain h None xs \<longleftrightarrow> xs = []"
  by (cases xs) auto

lemma chain_cong: "(\<And>x. x \<in> set xs \<Longrightarrow> h' x = h x) \<Longrightarrow> chain h' p xs = chain h p xs"
  by (induction xs arbitrary: p) auto

lemma chain_alloc: "chain h p xs \<Longrightarrow> x \<in> set xs \<Longrightarrow> h x \<noteq> None"
  by (induction xs arbitrary: p) auto

lemma last_task_chain:
  "chain h (Some p) xs \<Longrightarrow> last_task h p = Some (last xs)"
proof (induction xs arbitrary: p)
  case (Cons x xs)
  then obtain t where t: "p = x" "h x = Some t" "chain h (t_next t) xs" by auto
  show ?case
  proof (cases "t_next t")
    case None
    then show ?thesis using t by (simp add: last_task.simps [of h])
  next
    case (Some q)
    then have "xs \<noteq> []" using t(3) by auto
    then show ?thesis using t Cons.IH [of q] Some by (simp add: last_task.simps [of h x])
  qed
qed simp

lemma chain_append_one:
  assumes "chain h p xs" and "xs \<noteq> []" and "distinct xs" and "h n = Some t" and "t_next t = None" and "n \<notin> set xs"
    and l: "h (last xs) = Some u"
  shows "chain (h(last xs \<mapsto> u\<lparr>t_next := Some n\<rparr>)) p (xs @ [n])"
  using assms
proof (induction xs arbitrary: p)
  case (Cons x xs)
  then obtain v where v: "p = Some x" "h x = Some v" "chain h (t_next v) xs" by auto
  show ?case
  proof (cases "xs = []")
    case True
    then show ?thesis using Cons.prems v by auto
  next
    case False
    then have "x \<noteq> last xs" using Cons.prems(3) last_in_set by fastforce
    then show ?thesis using Cons False v by auto
  qed
qed simp

text \<open>On the list in memory \<^verbatim>\<open>async_run\<close> appends and a worker takes the first.\<close>

lemma async_run_appends:
  assumes c: "chain (tasks s) (task_queue s) xs" "distinct xs" and n: "tasks s n = None"
  obtains s' where "async_run n h a s = Some s'" and "chain (tasks s') (task_queue s') (xs @ [n])"
    and "\<And>p. p \<noteq> n \<Longrightarrow> map_option (\<lambda>t. (t_handler t, t_arg t)) (tasks s' p) = map_option (\<lambda>t. (t_handler t, t_arg t)) (tasks s p)"
    and "map_option (\<lambda>t. (t_handler t, t_arg t)) (tasks s' n) = Some (h, a)"
proof -
  let ?t = "\<lparr>t_handler = h, t_arg = a, t_next = None\<rparr>"
  let ?s = "s\<lparr>tasks := (tasks s)(n \<mapsto> ?t)\<rparr>"
  have nx: "n \<notin> set xs" using chain_alloc [OF c(1), of n] n by blast
  have "tasks ?s x = tasks s x" if "x \<in> set xs" for x using that nx by auto
  then have "chain (tasks ?s) (task_queue s) xs = chain (tasks s) (task_queue s) xs" by (rule chain_cong)
  then have c': "chain (tasks ?s) (task_queue s) xs" using c(1) by simp
  show ?thesis
  proof (cases "task_queue s")
    case None
    then show ?thesis using c that [of "?s\<lparr>task_queue := Some n\<rparr>"] by (simp add: async_run_def Let_def)
  next
    case (Some p)
    then have ne: "xs \<noteq> []" using c(1) by auto
    obtain u where u: "tasks ?s (last xs) = Some u" using chain_alloc [OF c' last_in_set [OF ne]] by auto
    have ln: "last xs \<noteq> n" using nx last_in_set [OF ne] by auto
    let ?s' = "set_task_next (last xs) (Some n) ?s"
    have e: "async_run n h a s = Some ?s'"
      using Some last_task_chain [OF c' [unfolded Some]] by (simp add: async_run_def Let_def)
    have h: "tasks ?s' = (tasks ?s)(last xs \<mapsto> u\<lparr>t_next := Some n\<rparr>)" using u by (simp add: set_task_next_def)
    have q: "task_queue ?s' = task_queue s" by (simp add: set_task_next_def)
    have "chain (tasks ?s') (task_queue ?s') (xs @ [n])"
      unfolding h q by (rule chain_append_one [OF c' ne c(2) _ _ nx u, of ?t]) simp_all
    then show ?thesis using that [OF e] ln u by (auto simp: set_task_next_def)
  qed
qed

lemma worker_take_first:
  assumes "chain (tasks s) (task_queue s) xs"
  shows "worker_take s = (case xs of [] \<Rightarrow> Some (None, s)
     | x # ys \<Rightarrow> Some (Some x, s\<lparr>task_queue := t_next (the (tasks s x))\<rparr>))"
  using assms by (auto simp: worker_take_def split: list.split)

section \<open>The invariant\<close>

definition running :: "'h system \<Rightarrow> nat set" where
  "running s = {p. \<exists>i. workers s i = Some (Runs p)}"

text \<open>
  The tasks in memory are those of the list and those being run, each once; what was submitted is what has been taken,
  in the order of submission, followed by the list; what has been taken is finished or being run; and while a worker
  waits there are as many others on their way to the mutex as there are tasks in the list.
\<close>

definition pool_inv :: "nat \<Rightarrow> 'h system \<Rightarrow> nat list \<Rightarrow> bool" where
  "pool_inv n s xs \<longleftrightarrow> chain (tasks (pool s)) (task_queue (pool s)) xs \<and> distinct xs
     \<and> (\<forall>p. tasks (pool s) p \<noteq> None \<longleftrightarrow> p \<in> set xs \<or> p \<in> running s) \<and> set xs \<inter> running s = {}
     \<and> (\<forall>i j p. workers s i = Some (Runs p) \<longrightarrow> workers s j = Some (Runs p) \<longrightarrow> i = j)
     \<and> (\<forall>i. workers s i \<noteq> None \<longleftrightarrow> i < n)
     \<and> ((\<exists>i. workers s i = Some Waits) \<longrightarrow> length xs \<le> card {i. workers s i = Some Wants})
     \<and> submitted s = started s @ map (work_of (tasks (pool s))) xs
     \<and> mset (started s) = mset (finished s) + image_mset (work_of (tasks (pool s))) (mset_set (running s))"

lemma pool_invD:
  assumes "pool_inv n s xs"
  shows "chain (tasks (pool s)) (task_queue (pool s)) xs" "distinct xs"
    and "tasks (pool s) p \<noteq> None \<longleftrightarrow> p \<in> set xs \<or> p \<in> running s" "set xs \<inter> running s = {}"
    and "workers s i = Some (Runs p) \<Longrightarrow> workers s j = Some (Runs p) \<Longrightarrow> i = j"
    and "workers s i \<noteq> None \<longleftrightarrow> i < n"
    and "workers s k = Some Waits \<Longrightarrow> length xs \<le> card {i. workers s i = Some Wants}"
    and "submitted s = started s @ map (work_of (tasks (pool s))) xs"
    and "mset (started s) = mset (finished s) + image_mset (work_of (tasks (pool s))) (mset_set (running s))"
  using assms unfolding pool_inv_def by blast+

lemma finite_workers: "pool_inv n s xs \<Longrightarrow> finite {i. workers s i = Some w}"
  by (rule finite_subset [of _ "{..<n}"]) (use pool_invD(6) in fastforce)+

lemma finite_running: "pool_inv n s xs \<Longrightarrow> finite (running s)"
proof -
  assume i: "pool_inv n s xs"
  have "running s \<subseteq> (\<lambda>i. case workers s i of Some (Runs p) \<Rightarrow> p | _ \<Rightarrow> 0) ` {..<n}"
  proof
    fix p assume "p \<in> running s"
    then obtain k where k: "workers s k = Some (Runs p)" by (auto simp: running_def)
    then have "k < n" using pool_invD(6) [OF i, of k] by simp
    then show "p \<in> (\<lambda>i. case workers s i of Some (Runs p) \<Rightarrow> p | _ \<Rightarrow> 0) ` {..<n}"
      using k by (intro image_eqI [of _ _ k]) simp_all
  qed
  then show ?thesis by (rule finite_subset) simp
qed

lemma work_of_cong:
  "map_option (\<lambda>t. (t_handler t, t_arg t)) (h' p) = map_option (\<lambda>t. (t_handler t, t_arg t)) (h p) \<Longrightarrow> h p \<noteq> None \<Longrightarrow> work_of h' p = work_of h p"
  by (auto simp: work_of_def)

text \<open>What a change of one worker between wanting and waiting does.\<close>

lemma running_upd: "running (s\<lparr>workers := (workers s)(i \<mapsto> x)\<rparr>) = {p. x = Runs p} \<union> {p. \<exists>k. k \<noteq> i \<and> workers s k = Some (Runs p)}"
  by (auto simp: running_def)

lemma running_others: "(\<And>p. workers s i \<noteq> Some (Runs p)) \<Longrightarrow> {p. \<exists>k. k \<noteq> i \<and> workers s k = Some (Runs p)} = running s"
  unfolding running_def by (intro Collect_cong) metis

lemma wants_upd:
  assumes "finite {k. w k = Some Wants}" and "w i \<noteq> Some Wants"
  shows "card {k. (w(i \<mapsto> Wants)) k = Some Wants} = Suc (card {k. w k = Some Wants})"
proof -
  have "{k. (w(i \<mapsto> Wants)) k = Some Wants} = insert i {k. w k = Some Wants}" by auto
  then show ?thesis using assms by simp
qed

lemma inv_wake:
  assumes i: "pool_inv n s xs" and w: "workers s k = Some Waits"
  shows "pool_inv n (s\<lparr>workers := (workers s)(k \<mapsto> Wants)\<rparr>) xs"
proof -
  let ?s = "s\<lparr>workers := (workers s)(k \<mapsto> Wants)\<rparr>"
  have r: "running ?s = running s" unfolding running_upd by (simp add: running_others w)
  have c: "card {i. workers ?s i = Some Wants} = Suc (card {i. workers s i = Some Wants})"
    using wants_upd [OF finite_workers [OF i], of k] w by simp
  show ?thesis
    unfolding pool_inv_def r c using pool_invD [OF i] pool_invD(6) [OF i, of k] w
    by (auto simp: le_SucI split: if_splits)
qed

lemma inv_signal:
  assumes i: "pool_inv n s xs" and g: "signal_one (workers s) w"
  shows "pool_inv n (s\<lparr>workers := w\<rparr>) xs"
    and "\<exists>i. w i = Some Waits \<Longrightarrow> length xs < card {i. w i = Some Wants}"
proof -
  have 1: "pool_inv n (s\<lparr>workers := w\<rparr>) xs \<and> ((\<exists>i. w i = Some Waits) \<longrightarrow> length xs < card {i. w i = Some Wants})"
  proof (rule signal_oneE [OF g])
    assume "w = workers s" and "\<forall>i. workers s i \<noteq> Some Waits"
    then show ?thesis using i by simp
  next
    fix k
    assume w: "w = (workers s)(k \<mapsto> Wants)" and k: "workers s k = Some Waits"
    have "length xs \<le> card {i. workers s i = Some Wants}" by (rule pool_invD(7) [OF i k])
    moreover have "card {i. w i = Some Wants} = Suc (card {i. workers s i = Some Wants})"
      unfolding w by (rule wants_upd [OF finite_workers [OF i]]) (simp add: k)
    ultimately show ?thesis using inv_wake [OF i k] w by simp
  qed
  then show "pool_inv n (s\<lparr>workers := w\<rparr>) xs"
    and "\<exists>i. w i = Some Waits \<Longrightarrow> length xs < card {i. w i = Some Wants}" by blast+
qed

lemma map_work_cong: "(\<And>p. p \<in> set xs \<Longrightarrow> work_of h' p = work_of h p) \<Longrightarrow> map (work_of h') xs = map (work_of h) xs"
  by simp

lemma inv_submit:
  assumes i: "pool_inv n s xs" and fresh: "tasks (pool s) p = None" and e: "async_run p h a (pool s) = Some q"
    and g: "signal_one (workers s) w"
  shows "pool_inv n (s\<lparr>pool := q, workers := w, submitted := submitted s @ [(h, a)]\<rparr>) (xs @ [p])"
proof -
  let ?s = "s\<lparr>workers := w\<rparr>" and ?t = "s\<lparr>pool := q, workers := w, submitted := submitted s @ [(h, a)]\<rparr>"
  note i' = inv_signal(1) [OF i g] and c' = inv_signal(2) [OF i g]
  have q: "chain (tasks q) (task_queue q) (xs @ [p])"
    and o: "\<And>x. x \<noteq> p \<Longrightarrow> map_option (\<lambda>t. (t_handler t, t_arg t)) (tasks q x) = map_option (\<lambda>t. (t_handler t, t_arg t)) (tasks (pool s) x)"
    and pq: "map_option (\<lambda>t. (t_handler t, t_arg t)) (tasks q p) = Some (h, a)"
    using async_run_appends [OF pool_invD(1,2) [OF i] fresh, of h a] e by auto
  have np: "p \<notin> set xs" "p \<notin> running ?s" using fresh pool_invD(3) [OF i', of p] by auto
  have w: "work_of (tasks q) x = work_of (tasks (pool s)) x" if "x \<in> set xs \<or> x \<in> running ?s" for x
    by (rule work_of_cong [OF o]) (use that np pool_invD(3) [OF i', of x] in auto)
  have rt: "running ?t = running ?s" by (simp add: running_def)
  have al: "tasks q x \<noteq> None \<longleftrightarrow> x \<in> set (xs @ [p]) \<or> x \<in> running ?s" for x
  proof (cases "x = p")
    case False
    then have "tasks q x \<noteq> None \<longleftrightarrow> tasks (pool s) x \<noteq> None" using o [of x] by (cases "tasks q x"; cases "tasks (pool s) x") auto
    then show ?thesis using False pool_invD(3) [OF i', of x] by simp
  qed (use pq in auto)
  have wp: "work_of (tasks q) p = (h, a)" using pq by (auto simp: work_of_def)
  have m: "map (work_of (tasks q)) xs = map (work_of (tasks (pool s))) xs" by (rule map_work_cong) (use w in blast)
  have im: "image_mset (work_of (tasks q)) (mset_set (running ?s)) = image_mset (work_of (tasks (pool s))) (mset_set (running ?s))"
    by (rule image_mset_cong) (use w finite_running [OF i'] in simp)
  show ?thesis
    unfolding pool_inv_def rt
  proof (intro conjI)
    show "chain (tasks (pool ?t)) (task_queue (pool ?t)) (xs @ [p])" using q by simp
    show "distinct (xs @ [p])" using np(1) pool_invD(2) [OF i] by simp
    show "\<forall>x. tasks (pool ?t) x \<noteq> None \<longleftrightarrow> x \<in> set (xs @ [p]) \<or> x \<in> running ?s" using al by simp
    show "set (xs @ [p]) \<inter> running ?s = {}" using np(2) pool_invD(4) [OF i'] by auto
    show "\<forall>i j x. workers ?t i = Some (Runs x) \<longrightarrow> workers ?t j = Some (Runs x) \<longrightarrow> i = j" using pool_invD(5) [OF i'] by simp
    show "\<forall>i. (workers ?t i \<noteq> None) = (i < n)" using pool_invD(6) [OF i'] by simp
    show "(\<exists>i. workers ?t i = Some Waits) \<longrightarrow> length (xs @ [p]) \<le> card {i. workers ?t i = Some Wants}" using c' by (simp add: Suc_le_eq)
    show "submitted ?t = started ?t @ map (work_of (tasks (pool ?t))) (xs @ [p])" using pool_invD(8) [OF i] wp m by simp
    show "mset (started ?t) = mset (finished ?t) + image_mset (work_of (tasks (pool ?t))) (mset_set (running ?s))"
      using pool_invD(9) [OF i'] im by simp
  qed
qed

lemma inv_wait:
  assumes i: "pool_inv n s xs" and w: "workers s k = Some Wants" and e: "worker_take (pool s) = Some (None, q)"
  shows "pool_inv n (s\<lparr>pool := q, workers := (workers s)(k \<mapsto> Waits)\<rparr>) xs"
proof -
  have x: "xs = []" "q = pool s" using e worker_take_first [OF pool_invD(1) [OF i]] by (auto split: list.splits)
  let ?t = "s\<lparr>pool := q, workers := (workers s)(k \<mapsto> Waits)\<rparr>"
  have "running ?t = running (s\<lparr>workers := (workers s)(k \<mapsto> Waits)\<rparr>)" by (simp add: running_def)
  then have r: "running ?t = running s" unfolding running_upd by (simp add: running_others w)
  show ?thesis
    unfolding pool_inv_def r using pool_invD [OF i] pool_invD(6) [OF i, of k] w by (simp add: x)
qed

lemma inv_take:
  assumes i: "pool_inv n s xs" and w: "workers s k = Some Wants" and e: "worker_take (pool s) = Some (Some p, q)"
  shows "pool_inv n (s\<lparr>pool := q, workers := (workers s)(k \<mapsto> Runs p), started := started s @ [work_of (tasks q) p]\<rparr>) (tl xs)"
proof -
  obtain ys where x: "xs = p # ys" "q = (pool s)\<lparr>task_queue := t_next (the (tasks (pool s) p))\<rparr>"
    using e worker_take_first [OF pool_invD(1) [OF i]] by (auto split: list.splits)
  let ?t = "s\<lparr>pool := q, workers := (workers s)(k \<mapsto> Runs p), started := started s @ [work_of (tasks q) p]\<rparr>"
  have tq: "tasks q = tasks (pool s)" by (simp add: x(2))
  have "running ?t = running (s\<lparr>workers := (workers s)(k \<mapsto> Runs p)\<rparr>)" by (simp add: running_def)
  then have r: "running ?t = insert p (running s)" unfolding running_upd by (simp add: running_others w)
  have np: "p \<notin> running s" "p \<notin> set ys" using pool_invD(2,4) [OF i] by (simp_all add: x(1))
  have np': "workers s j \<noteq> Some (Runs p)" for j using np(1) by (auto simp: running_def)
  have wants: "{i. workers s i = Some Wants} = insert k {i. workers ?t i = Some Wants}" "k \<notin> {i. workers ?t i = Some Wants}"
    using w by auto
  have "finite {i. workers ?t i = Some Wants}"
    by (rule finite_subset [OF _ finite_workers [OF i, of Wants]]) (use wants(1) in blast)
  then have c: "card {i. workers s i = Some Wants} = Suc (card {i. workers ?t i = Some Wants})"
    unfolding wants(1) using wants(2) by simp
  show ?thesis
    unfolding pool_inv_def r
  proof (intro conjI)
    show "chain (tasks (pool ?t)) (task_queue (pool ?t)) (tl xs)"
      using pool_invD(1) [OF i] by (auto simp: x)
    show "distinct (tl xs)" using pool_invD(2) [OF i] by (simp add: x(1))
    show "\<forall>a. tasks (pool ?t) a \<noteq> None \<longleftrightarrow> a \<in> set (tl xs) \<or> a \<in> insert p (running s)"
      using pool_invD(3) [OF i] by (auto simp: tq x(1))
    show "set (tl xs) \<inter> insert p (running s) = {}" using pool_invD(4) [OF i] np(2) by (simp add: x(1))
    show "\<forall>i j a. workers ?t i = Some (Runs a) \<longrightarrow> workers ?t j = Some (Runs a) \<longrightarrow> i = j"
      using pool_invD(5) [OF i] np' by (simp split: if_splits) metis
    show "\<forall>i. (workers ?t i \<noteq> None) = (i < n)" using pool_invD(6) [OF i] pool_invD(6) [OF i, of k] w by auto
    show "(\<exists>i. workers ?t i = Some Waits) \<longrightarrow> length (tl xs) \<le> card {i. workers ?t i = Some Wants}"
    proof
      assume "\<exists>i. workers ?t i = Some Waits"
      then obtain j where "workers s j = Some Waits" by (auto split: if_splits)
      from pool_invD(7) [OF i this] show "length (tl xs) \<le> card {i. workers ?t i = Some Wants}" unfolding c by (simp add: x(1))
    qed
    show "submitted ?t = started ?t @ map (work_of (tasks (pool ?t))) (tl xs)" using pool_invD(8) [OF i] by (simp add: tq x(1))
    show "mset (started ?t) = mset (finished ?t) + image_mset (work_of (tasks (pool ?t))) (mset_set (insert p (running s)))"
      using pool_invD(9) [OF i] np(1) finite_running [OF i] by (simp add: tq)
  qed
qed

lemma inv_finish:
  assumes i: "pool_inv n s xs" and w: "workers s k = Some (Runs p)" and e: "tasks (pool s) p = Some t"
  shows "pool_inv n (s\<lparr>pool := free_task p (pool s), workers := (workers s)(k \<mapsto> Wants), finished := finished s @ [(t_handler t, t_arg t)]\<rparr>) xs"
proof -
  let ?t = "s\<lparr>pool := free_task p (pool s), workers := (workers s)(k \<mapsto> Wants), finished := finished s @ [(t_handler t, t_arg t)]\<rparr>"
  have "running ?t = running (s\<lparr>workers := (workers s)(k \<mapsto> Wants)\<rparr>)" by (simp add: running_def)
  moreover have "{x. \<exists>j. j \<noteq> k \<and> workers s j = Some (Runs x)} = running s - {p}"
  proof (intro equalityI subsetI)
    fix x assume "x \<in> {x. \<exists>j. j \<noteq> k \<and> workers s j = Some (Runs x)}"
    then obtain j where j: "j \<noteq> k" "workers s j = Some (Runs x)" by blast
    then have "x \<noteq> p" using pool_invD(5) [OF i, of j p k] w by blast
    then show "x \<in> running s - {p}" using j(2) by (auto simp: running_def)
  next
    fix x assume "x \<in> running s - {p}"
    then obtain j where j: "x \<noteq> p" "workers s j = Some (Runs x)" by (auto simp: running_def)
    then have "j \<noteq> k" using w by auto
    then show "x \<in> {x. \<exists>j. j \<noteq> k \<and> workers s j = Some (Runs x)}" using j(2) by blast
  qed
  ultimately have r: "running ?t = running s - {p}" unfolding running_upd by simp
  have pr: "p \<in> running s" using w by (auto simp: running_def)
  then have px: "p \<notin> set xs" using pool_invD(4) [OF i] by blast
  have h: "tasks (pool ?t) x = (if x = p then None else tasks (pool s) x)" for x by (simp add: free_task_def)
  have wo: "work_of (tasks (pool ?t)) x = work_of (tasks (pool s)) x" if "x \<noteq> p" for x using h [of x] that by (simp add: work_of_def)
  have m: "map (work_of (tasks (pool ?t))) xs = map (work_of (tasks (pool s))) xs" by (rule map_work_cong, rule wo) (use px in auto)
  have im: "image_mset (work_of (tasks (pool ?t))) (mset_set (running s - {p})) = image_mset (work_of (tasks (pool s))) (mset_set (running s - {p}))"
    by (rule image_mset_cong, rule wo) (use finite_running [OF i] in auto)
  have sp: "mset_set (running s) = add_mset p (mset_set (running s - {p}))"
    using finite_running [OF i] pr by (metis mset_set.remove)
  have c: "card {i. workers s i = Some Wants} \<le> card {i. workers ?t i = Some Wants}"
    using wants_upd [OF finite_workers [OF i], of k] w by simp
  show ?thesis
    unfolding pool_inv_def r
  proof (intro conjI)
    have "chain (tasks (pool ?t)) (task_queue (pool s)) xs = chain (tasks (pool s)) (task_queue (pool s)) xs"
      by (rule chain_cong) (use h px in auto)
    then show "chain (tasks (pool ?t)) (task_queue (pool ?t)) xs" using pool_invD(1) [OF i] by (simp add: free_task_def)
    show "distinct xs" by (rule pool_invD(2) [OF i])
    show "\<forall>x. tasks (pool ?t) x \<noteq> None \<longleftrightarrow> x \<in> set xs \<or> x \<in> running s - {p}"
      unfolding h using pool_invD(3) [OF i] px by auto
    show "set xs \<inter> (running s - {p}) = {}" using pool_invD(4) [OF i] by blast
    show "\<forall>i j x. workers ?t i = Some (Runs x) \<longrightarrow> workers ?t j = Some (Runs x) \<longrightarrow> i = j"
      using pool_invD(5) [OF i] by (simp split: if_splits)
    show "\<forall>i. (workers ?t i \<noteq> None) = (i < n)" using pool_invD(6) [OF i] pool_invD(6) [OF i, of k] w by auto
    show "(\<exists>i. workers ?t i = Some Waits) \<longrightarrow> length xs \<le> card {i. workers ?t i = Some Wants}"
    proof
      assume "\<exists>i. workers ?t i = Some Waits"
      then obtain j where "workers s j = Some Waits" by (auto split: if_splits)
      from pool_invD(7) [OF i this] c show "length xs \<le> card {i. workers ?t i = Some Wants}" by (rule order_trans)
    qed
    show "submitted ?t = started ?t @ map (work_of (tasks (pool ?t))) xs" using pool_invD(8) [OF i] unfolding m by simp
    show "mset (started ?t) = mset (finished ?t) + image_mset (work_of (tasks (pool ?t))) (mset_set (running s - {p}))"
      unfolding im using pool_invD(9) [OF i] sp e by (simp add: work_of_def)
  qed
qed

lemma inv_reachable: "pool_reachable n s \<Longrightarrow> \<exists>xs. pool_inv n s xs"
proof (induction rule: pool_reachable.induct)
  case init
  have "running (async_init n) = {}" by (auto simp: running_def async_init_def)
  then have "pool_inv n (async_init n) []" by (auto simp: pool_inv_def) (auto simp: async_init_def split: if_splits)
  then show ?case by blast
next
  case (step s s')
  then obtain xs where i: "pool_inv n s xs" by blast
  show ?case using step.hyps(2)
    by (cases rule: pool_stepE) (use inv_submit [OF i] inv_wait [OF i] inv_take [OF i] inv_wake [OF i] inv_finish [OF i] in blast)+
qed

text \<open>C14: However the threads of the pool and the callers of \<^verbatim>\<open>async_run\<close> interleave: tasks are started in the order in
  which they were submitted, each once, and none is lost; each is run by one worker, from whom it is freed when it is
  finished, and no freed task is ever touched; while a worker sleeps, at least as many others are on their way to the
  mutex as tasks wait, so no wake-up is lost.\<close>

theorem thread_pool:
  assumes "pool_reachable n s"
  shows "\<exists>xs. chain (tasks (pool s)) (task_queue (pool s)) xs
    \<and> submitted s = started s @ map (work_of (tasks (pool s))) xs
    \<and> mset (started s) = mset (finished s) + image_mset (work_of (tasks (pool s))) (mset_set (running s))
    \<and> (\<forall>p. tasks (pool s) p \<noteq> None \<longleftrightarrow> p \<in> set xs \<or> p \<in> running s)
    \<and> (\<forall>i j p. workers s i = Some (Runs p) \<longrightarrow> workers s j = Some (Runs p) \<longrightarrow> i = j)
    \<and> ((\<exists>i. workers s i = Some Waits) \<longrightarrow> length xs \<le> card {i. workers s i = Some Wants})
    \<and> worker_take (pool s) \<noteq> None
    \<and> (\<forall>p h a. tasks (pool s) p = None \<longrightarrow> async_run p h a (pool s) \<noteq> None)"
proof -
  obtain xs where i: "pool_inv n s xs" using inv_reachable [OF assms] by blast
  have "worker_take (pool s) \<noteq> None" using worker_take_first [OF pool_invD(1) [OF i]] by (simp split: list.split)
  moreover have "async_run p h a (pool s) \<noteq> None" if "tasks (pool s) p = None" for p h a
    using async_run_appends [OF pool_invD(1,2) [OF i] that, of h a] by auto
  ultimately show ?thesis using i unfolding pool_inv_def by blast
qed

text \<open>One worker and one task: the worker takes it.\<close>

definition one_task :: "nat system" where
  "one_task = (async_init 1)\<lparr>pool := the (async_run 7 5 3 (pool (async_init 1))), submitted := [(5, 3)]\<rparr>"

lemma one_task_pool: "pool one_task = \<lparr>tasks = [7 \<mapsto> \<lparr>t_handler = 5, t_arg = 3, t_next = None\<rparr>], task_queue = Some 7\<rparr>"
  by (simp add: one_task_def async_init_def async_run_def)

lemma one_task_reachable: "pool_reachable 1 one_task"
proof -
  have "pool_step (async_init 1) ((async_init 1)\<lparr>pool := pool one_task, workers := workers (async_init 1),
      submitted := submitted (async_init 1) @ [(5, 3)]\<rparr>)"
    by (rule pool_step.submit [of _ 7]) (simp_all add: async_init_def async_run_def one_task_pool signal_one.nobody)
  moreover have "(async_init 1)\<lparr>pool := pool one_task, workers := workers (async_init 1),
      submitted := submitted (async_init 1) @ [(5, 3)]\<rparr> = one_task"
    by (simp add: one_task_def async_init_def)
  ultimately show ?thesis using pool_reachable.step [OF pool_reachable.init] by metis
qed

lemma thread_pool_witness:
  "pool_reachable 1 one_task \<and> worker_take (pool one_task) \<noteq> None
    \<and> (\<exists>xs. chain (tasks (pool one_task)) (task_queue (pool one_task)) xs
          \<and> submitted one_task = started one_task @ map (work_of (tasks (pool one_task))) xs)"
  using thread_pool [OF one_task_reachable] one_task_reachable by blast

end
