(* ===== verification/Spec2Isabelle.thy ===== *)
theory Spec2Isabelle
  imports Crash Usercopy Procprop Spinlock Fsprop Fscontents Mmap Virtioprop Grep Shell Umallocprop Frog Mkfsboot Async
begin

text \<open>
  A model of the course kernel (xv6 for RISC-V, with the memory-mapped files of assignment 3 and the large
  files of assignment 4) and of user programs of the course, with the theorems that make them correct.

  \<^bold>\<open>The program.\<close> The repository has three parts. \<^verbatim>\<open>Assignment3\<close> and \<^verbatim>\<open>Assignment4\<close> are an operating system:
  \<^verbatim>\<open>Assignment3/initial_code/kernel\<close> is the kernel, of which \<^verbatim>\<open>Assignment3/source\<close> replaces \<^verbatim>\<open>proc.c\<close>,
  \<^verbatim>\<open>proc.h\<close>, \<^verbatim>\<open>sysfile.c\<close> and \<^verbatim>\<open>trap.c\<close>, and \<^verbatim>\<open>Assignment4/source\<close> replaces \<^verbatim>\<open>fs.c\<close>, \<^verbatim>\<open>fs.h\<close>, \<^verbatim>\<open>file.h\<close> (kept in a
  file called \<^verbatim>\<open>file\<close>) and \<^verbatim>\<open>sysfile.c\<close>; \<^verbatim>\<open>initial_code/user\<close> holds its user programs. The model takes each file from
  the assignment that solves it: \<^verbatim>\<open>proc.c\<close>, \<^verbatim>\<open>trap.c\<close>, \<^verbatim>\<open>mmap\<close> and \<^verbatim>\<open>munmap\<close> from assignment 3, the file
  system and its system calls from assignment 4, the rest from the initial code. \<^verbatim>\<open>Assignment2\<close> is a terminal game with three
  threads and a small web server, \<^verbatim>\<open>Assignment1\<close> holds programs about processes and signals on Linux.

  The kernel's layers call downwards: a trap (\<^verbatim>\<open>trap.c\<close>) is a system call, an interrupt or a page fault; a system call
  (\<^verbatim>\<open>syscall.c\<close>) works on processes (\<^verbatim>\<open>sysproc.c\<close>, \<^verbatim>\<open>proc.c\<close>, \<^verbatim>\<open>exec.c\<close>) or files (\<^verbatim>\<open>sysfile.c\<close>, \<^verbatim>\<open>file.c\<close>); a file is a pipe, the
  console or an inode; inodes (\<^verbatim>\<open>fs.c\<close>) live in disk blocks, which the buffer cache (\<^verbatim>\<open>bio.c\<close>) holds and the log
  (\<^verbatim>\<open>log.c\<close>) writes; the disk driver moves them. Processes own page tables (\<^verbatim>\<open>vm.c\<close>) made of pages (\<^verbatim>\<open>kalloc.c\<close>).

  \<^bold>\<open>State.\<close> The kernel's state is a chain of extensible records, one extension per component, in the order
  \<open>Kstate\<close> (process table), \<open>Bio\<close> (buffers, disk), \<open>Log\<close>, \<open>Kalloc\<close> (physical memory, free list), \<open>Fs\<close>
  (super block, inode table), \<open>Console\<close>, \<open>Pipe\<close> (pipes, open files), \<open>Trap\<close>. An operation of a component takes and
  returns the state with its later extensions unknown, so a caller in a later theory uses it as it is. Pointers into static
  tables are indices, a null pointer is \<open>None\<close>; pages, page tables and the free list are bytes of physical memory at 64-bit
  addresses; integers have the width they have in C where they can wrap (\<open>u8\<close>, \<open>u16\<close>, \<open>u32\<close>, \<open>u64\<close>) and are \<open>int\<close> or
  \<open>nat\<close> where the code keeps them small. An operation returns \<open>Inr (value, state)\<close> or a \<open>fault\<close>: a panic, a sleep that
  the sequential model cannot end, undefined behaviour of C, a loop that does not end.

  \<^bold>\<open>Theories.\<close>
  \<^item> \<open>Prelude\<close>: outcomes, sequencing, total correctness (\<open>runs\<close>), bounded loops (\<open>loop\<close>), words as bytes, table scans.
  \<^item> \<open>Kstring\<close> (\<^verbatim>\<open>string.c\<close>), \<open>Printf\<close> (\<^verbatim>\<open>printf.c\<close> of kernel and user library, \<^verbatim>\<open>atoi\<close>), \<open>Ring\<close> (circular buffers
    with free-running counters, the locale \<open>fifo\<close>).
  \<^item> \<open>Kstate\<close> (\<^verbatim>\<open>param.h\<close>, \<^verbatim>\<open>proc.h\<close>, \<^verbatim>\<open>sleeplock.c\<close>), \<open>Spinlock\<close> (\<^verbatim>\<open>spinlock.c\<close>).
  \<^item> \<open>Bio\<close> (\<^verbatim>\<open>bio.c\<close>), \<open>Log\<close> and \<open>Crash\<close> (\<^verbatim>\<open>log.c\<close>), \<open>Virtio\<close> and \<open>Virtioprop\<close> (\<^verbatim>\<open>virtio_disk.c\<close>).
  \<^item> \<open>Kalloc\<close> (\<^verbatim>\<open>kalloc.c\<close>, the locale \<open>page_allocator\<close>), \<open>Vm\<close>, \<open>Pagetable\<close>, \<open>Usercopy\<close> (\<^verbatim>\<open>vm.c\<close>).
  \<^item> \<open>Fs\<close>, \<open>Fsdir\<close> (\<^verbatim>\<open>fs.c\<close>, \<^verbatim>\<open>fs.h\<close>); \<open>Fsblock\<close>, \<open>Fsmap\<close>, \<open>Fsio\<close>, \<open>Fsfile\<close>, \<open>Fstrunc\<close>, \<open>Fscontents\<close>, \<open>Fsprop\<close> prove
    what it promises.
  \<^item> \<open>Console\<close> (\<^verbatim>\<open>uart.c\<close>, \<^verbatim>\<open>console.c\<close>, \<^verbatim>\<open>procdump\<close>), \<open>Pipe\<close> (\<^verbatim>\<open>pipe.c\<close>), \<open>File\<close> (\<^verbatim>\<open>file.c\<close>).
  \<^item> \<open>Proc\<close> (\<^verbatim>\<open>proc.c\<close>), \<open>Exec\<close> (\<^verbatim>\<open>exec.c\<close>, argument fetching of \<^verbatim>\<open>syscall.c\<close>), \<open>Sysfile\<close> (both \<^verbatim>\<open>sysfile.c\<close>), \<open>Syscall\<close>
    (\<^verbatim>\<open>sysproc.c\<close>, dispatch), \<open>Trap\<close> (\<^verbatim>\<open>trap.c\<close>), \<open>Mmap\<close> (properties of mappings), \<open>Frame\<close> (the locale \<open>frame\<close>: what kernel
    operations leave alone), \<open>Procprop\<close> (properties of processes).
  \<^item> \<open>Mkfs\<close> (\<^verbatim>\<open>mkfs/mkfs.c\<close>, which runs on the host and shares only \<^verbatim>\<open>fs.h\<close> with the kernel), \<open>Mkfsprop\<close>, \<open>Mkfsboot\<close>
    (the image is in order; the kernel reads from it what \<^verbatim>\<open>mkfs\<close> put there).
  \<^item> User programs: \<open>Grep\<close> (\<^verbatim>\<open>grep.c\<close>), \<open>Shell\<close> (\<^verbatim>\<open>sh.c\<close>), \<open>Umalloc\<close> and \<open>Umallocprop\<close> (\<^verbatim>\<open>umalloc.c\<close>), \<open>Frog\<close>
    (\<^verbatim>\<open>Assignment2/source/source.c\<close>), \<open>Async\<close> (the web server's thread pool,
    \<^verbatim>\<open>Assignment2/3150-p2-bonus-main/async.c\<close>).
  Definitions carry the names of the C functions; \<open>f_step\<close> is the body of the loop of \<open>f\<close>.

  \<^bold>\<open>What the theorems show.\<close>
  \<^item> Disk: the buffer cache keeps its circular list and shows each block's current contents; a commit is atomic under a
    crash between any two block writes; the log's reservation holds in every interleaving of transactions on a log larger than the
    one \<^verbatim>\<open>mkfs\<close> makes, and fails by one block on that one. The driver, with a device that may do
    what the virtio specification allows and moves the bytes of one request in one step, refines a disk that serves each request
    atomically or fails it; it panics exactly when the device has reported a failed request, and loses no wake-up. For a disk that
    fails no request this justifies the synchronous transfer of \<open>Bio\<close>.
  \<^item> Files: \<open>balloc\<close>, \<open>bmap\<close>, \<open>readi\<close>, \<open>writei\<close> and \<open>itrunc\<close> refine a disk whose blocks are disjointly owned and a file that is
    an array of bytes, up to the largest file of the doubly indirect map, for buffers in kernel memory and with room in the log and
    on the disk; inodes have an exact on-disk form; \<open>iget\<close> keeps one entry
    per inode; path names are split as specified. The image \<^verbatim>\<open>mkfs\<close> makes satisfies these invariants, and booting on it and
    reading a file gives the bytes that went in.
  \<^item> Memory: the free list is exactly the free pages; \<open>mappages\<close> refines a map update and keeps page tables a
    tree; copies between kernel and user stay in bounds and always return.
  \<^item> Processes: the table stays well formed under every sequence of the operations, and a free slot has been cleared (but for the
    mark that \<^verbatim>\<open>kill(0)\<close> leaves in it); the scheduler is fair; an exit wakes a waiting parent. Locks exclude each other on several
    processors.
  \<^item> Devices and pipes: the console's input handler refines line editing, pipes and the serial port are first-in first-out
    queues that lose no byte when full, and a reader gets the very bytes of the pipe.
  \<^item> Mappings: where \<open>mmap\<close> puts them and what the page-fault handler finds. A forked child need not have its mappings at
    the places of their slots, because \<^verbatim>\<open>lazy_copy\<close> puts a parent's address in any empty slot; lemmas in \<open>Mmap\<close> show that a
    later \<open>mmap\<close> of the child can then return addresses that are in use, that a full table is written out of bounds, and that a wild
    user access makes the kernel follow a null pointer.
  \<^item> User programs: \<open>grep\<close>'s matcher decides the language of its pattern and prints exactly the matching lines; the shell's
    parser ends for every line with an error or a well-formed command; \<open>malloc\<close> and \<open>free\<close> tile the heap, and
    \<open>malloc\<close> returns null exactly when no free block fits and the kernel refuses to grow; the game's
    threads move everything once per frame; the thread pool starts every task once, in order, and loses neither a task nor a
    wake-up.

  \<^bold>\<open>Interfaces.\<close> \<open>fifo\<close> (\<open>Ring\<close>) is interpreted for the transmit buffer of the serial port (\<open>uart\<close>, in \<open>Console\<close>) and for
  pipes (\<open>pq\<close>, in \<open>Pipe\<close>); \<open>page_allocator\<close> for \<open>kalloc\<close> and \<open>kfree\<close> (\<open>km\<close>); \<open>frame\<close> and its extension \<open>file_frame\<close> for the
  property of \<open>Procprop\<close> that an exiting process leaves the others as they are (\<open>ow\<close>).

  \<^bold>\<open>Bounds.\<close> \<open>loop n\<close> runs at most \<open>n\<close> iterations and is \<open>Diverges\<close> beyond; each use passes a bound computed
  from the loop's variables (the number of blocks, of pages, of bytes left), and the lemma that the operation \<open>runs\<close> proves
  it to be enough. The pages of a free chain of descriptors are followed \<open>Suc NUM\<close> times, one more than there are descriptors. The
  shell's parser has a fuel of four times the length of the line and four; \<open>parsecmd_ok\<close> shows that it is never used up. Walks along
  circular lists (\<open>bget\<close>, \<open>free\<close>, \<open>malloc\<close>) are \<open>partial_function\<close>s whose result is shown to be \<open>Some\<close>.

  \<^bold>\<open>Not modelled.\<close> The switch between kernel stacks, the assembly entry points, the interrupt controller and the start-up of
  the machine (registers only); the satp writes of \<^verbatim>\<open>vm.c\<close>; the RAM disk, which replaces the driver in a configuration that is
  not built; the test programs, which state no behaviour of their own; the small user programs that only pass their arguments to
  one system call; the messages that \<^verbatim>\<open>balloc\<close> and \<^verbatim>\<open>ialloc\<close> print when nothing is
  free; the kernel files of the initial code that the assignments replace; the vendored list macros of the web
  server. The kernel model runs one process at a time: a critical section is one step of it (\<open>Spinlock\<close> is where that
  comes from; there \<^verbatim>\<open>acquire\<close> has three steps and \<^verbatim>\<open>release\<close>, which only the owner runs, is one), and what several processes do at once is modelled where the code depends on it (\<open>Log\<close>, \<open>Virtio\<close>, \<open>Spinlock\<close>,
  \<open>Procprop\<close>, the sleeping of pipes).
\<close>

end
